(* ===== verification/Prelude.thy ===== *)
theory Prelude
  imports Main "HOL-Library.Word"
begin

text \<open>
  Shared vocabulary of the development: the machine integer types of the Rust sources, the
  byte-level conversions of its standard library that the wire code calls
  (\<open>to_be_bytes\<close>, \<open>from_be_bytes\<close>, \<open>as u8\<close>), results as sums with the error on the left, and
  the generic facts on words and lists that the component theories rest on.
  The named collections \<open>wire_simps\<close> (equations that move a proof from the buffer operations to
  byte lists) and \<open>reader_safe\<close> (introduction rules for the cursor discipline) are filled by the
  component theories.
\<close>

unbundle bit_operations_syntax

named_theorems wire_simps
named_theorems reader_safe

type_synonym u8 = "8 word"
type_synonym u16 = "16 word"
type_synonym u32 = "32 word"
type_synonym u64 = "64 word"
type_synonym bytes = "8 word list"

type_synonym ('e, 'a) result = "'e + 'a"

abbreviation Ok :: "'a \<Rightarrow> 'e + 'a" where "Ok \<equiv> Inr"
abbreviation Err :: "'e \<Rightarrow> 'e + 'a" where "Err \<equiv> Inl"

text \<open>\<open>Result::ok\<close>\<close>

definition res_ok :: "'e + 'a \<Rightarrow> 'a option" where
  "res_ok r = (case r of Inl _ \<Rightarrow> None | Inr x \<Rightarrow> Some x)"

lemma res_ok_simps [simp]: "res_ok (Inl e) = None" "res_ok (Inr x) = Some x"
  by (simp_all add: res_ok_def)

lemma res_ok_eq_Some [simp]: "res_ok r = Some x \<longleftrightarrow> r = Inr x"
  by (cases r) simp_all

lemma res_ok_eq_None [simp]: "res_ok r = None \<longleftrightarrow> (\<exists>e. r = Inl e)"
  by (cases r) simp_all

section \<open>Integer to byte conversions\<close>

definition be_bytes16 :: "u16 \<Rightarrow> bytes" where
  "be_bytes16 v = [ucast (drop_bit 8 v), ucast v]"

definition le_bytes16 :: "u16 \<Rightarrow> bytes" where
  "le_bytes16 v = [ucast v, ucast (drop_bit 8 v)]"

definition of_be16 :: "u8 \<Rightarrow> u8 \<Rightarrow> u16" where
  "of_be16 a b = push_bit 8 (ucast a) OR ucast b"

definition of_le16 :: "u8 \<Rightarrow> u8 \<Rightarrow> u16" where
  "of_le16 a b = of_be16 b a"

definition be_bytes32 :: "u32 \<Rightarrow> bytes" where
  "be_bytes32 v = [ucast (drop_bit 24 v), ucast (drop_bit 16 v), ucast (drop_bit 8 v), ucast v]"

definition le_bytes32 :: "u32 \<Rightarrow> bytes" where
  "le_bytes32 v = [ucast v, ucast (drop_bit 8 v), ucast (drop_bit 16 v), ucast (drop_bit 24 v)]"

definition of_be32 :: "u8 \<Rightarrow> u8 \<Rightarrow> u8 \<Rightarrow> u8 \<Rightarrow> u32" where
  "of_be32 a b c d =
     ucast d OR push_bit 8 (ucast c) OR push_bit 16 (ucast b) OR push_bit 24 (ucast a)"

definition of_le32 :: "u8 \<Rightarrow> u8 \<Rightarrow> u8 \<Rightarrow> u8 \<Rightarrow> u32" where
  "of_le32 a b c d = of_be32 d c b a"

lemma take_byte_or:
  fixes v :: "'a::len word"
  assumes "8 \<le> LENGTH('a)"
  shows "take_bit k v OR push_bit k (ucast (ucast (drop_bit k v) :: u8)) = take_bit (k + 8) v"
  using assms by (intro bit_word_eqI) (auto simp: bit_simps)

lemma take_bit_less_exp: "v < 2 ^ k \<Longrightarrow> take_bit k v = (v :: 'a::len word)"
  by (simp add: less_mask_eq take_bit_eq_mask)

lemma take_bit_full: "LENGTH('a) \<le> k \<Longrightarrow> take_bit k (v :: 'a::len word) = v"
  by (rule bit_word_eqI) (auto simp: bit_simps dest: bit_imp_le_length)

lemma ucast_ucast8: "8 \<le> LENGTH('a) \<Longrightarrow> ucast (ucast (v :: 'a::len word) :: u8) = take_bit 8 v"
  by (intro bit_word_eqI) (auto simp: bit_simps)

lemma ucast8_ucast [simp]: "8 \<le> LENGTH('a) \<Longrightarrow> ucast (ucast (b :: u8) :: 'a::len word) = b"
  by (intro bit_word_eqI) (auto simp: bit_simps)

lemma of_be16_be_bytes16 [simp]: "of_be16 (ucast (drop_bit 8 v)) (ucast v) = v"
  unfolding of_be16_def
  using take_byte_or [of 8 v] ucast_ucast8 [of v] take_bit_full [of 16 v]
  by (simp add: or.commute)

lemma of_be32_be_bytes32 [simp]:
  "of_be32 (ucast (drop_bit 24 v)) (ucast (drop_bit 16 v)) (ucast (drop_bit 8 v)) (ucast v) = v"
  unfolding of_be32_def
  using take_byte_or [of 8 v] take_byte_or [of 16 v] take_byte_or [of 24 v]
    ucast_ucast8 [of v] take_bit_full [of 32 v]
  by (simp flip: or.assoc)

lemma length_be_bytes [simp]:
  "length (be_bytes16 v) = 2" "length (le_bytes16 v) = 2"
  "length (be_bytes32 w) = 4" "length (le_bytes32 w) = 4"
  by (simp_all add: be_bytes16_def le_bytes16_def be_bytes32_def le_bytes32_def)

section \<open>Masks and comparisons on words\<close>

lemma mask_numerals:
  "(0x03 :: 'a::len word) = mask 2"
  "(0x07 :: 'a::len word) = mask 3" "(0x0f :: 'a::len word) = mask 4"
  "(0x1f :: 'a::len word) = mask 5" "(0x3f :: 'a::len word) = mask 6"
  "(0x7f :: 'a::len word) = mask 7" "(0xff :: 'a::len word) = mask 8"
  by (simp_all add: mask_eq_exp_minus_1)

text \<open>A tag \<open>lo\<close> in the high bits of a byte, \<open>w AND m\<close> in the low bits: range and untagging.\<close>

lemma tag_ge: "\<not> (lo :: 'a::len word) OR (w AND m) < lo"
  using le_word_or2 [of lo "w AND m"] by (simp add: not_less)

lemma tag_le: "(lo :: 'a::len word) OR (w AND m) \<le> lo OR m"
proof -
  have "lo OR m = (lo OR (w AND m)) OR (lo OR m)"
    by (rule bit_word_eqI) (auto simp: bit_simps)
  then show ?thesis by (metis le_word_or2)
qed

lemma tag_less: "(lo :: 'a::len word) OR m < hi \<Longrightarrow> lo OR (w AND m) < hi"
  by (rule le_less_trans [OF tag_le])

lemma tag_not_less: "(b :: 'a::len word) \<le> lo \<Longrightarrow> \<not> lo OR (w AND m) < b"
  using tag_ge [of lo w m] by simp

lemma tag_strip:
  fixes lo :: "'a::len word"
  assumes "lo AND c = 0" and "m AND c = m"
  shows "(lo OR (w AND m)) AND c = w AND m"
proof -
  have "(lo OR (w AND m)) AND c = (lo AND c) OR (w AND (m AND c))"
    by (rule bit_word_eqI) (auto simp: bit_simps)
  with assms show ?thesis by simp
qed

lemma ucast_tag_bits:
  fixes v :: "'a::len word"
  assumes "k \<le> 8" and "8 \<le> LENGTH('a)"
  shows "ucast ((ucast v :: u8) AND mask k) = take_bit k v"
  using assms by (intro bit_word_eqI) (auto simp: bit_simps)

lemma unat_less_numeral_iff:
  fixes v :: "'a::len word"
  assumes "numeral k < (2::nat) ^ LENGTH('a)"
  shows "v < numeral k \<longleftrightarrow> unat v < numeral k"
  using assms by (simp add: word_less_nat_alt take_bit_nat_eq_self)

lemma unat_ucast_up [simp]:
  "LENGTH('a) \<le> LENGTH('b) \<Longrightarrow> unat (ucast (v :: 'a::len word) :: 'b::len word) = unat v"
  by transfer (simp add: min_def)

lemma unat_u8_less: "unat (v :: u8) < 256"
  using unsigned_less [of v, where 'a = nat] by simp

lemma unat_u16_less: "unat (v :: u16) < 65536"
  using unsigned_less [of v, where 'a = nat] by simp

lemma unat_u32_less: "unat (v :: u32) < 4294967296"
  using unsigned_less [of v, where 'a = nat] by simp

section \<open>Lists\<close>

lemma drop_eq_append_nth:
  assumes "drop n xs = ys @ zs" and "i < length ys"
  shows "xs ! (n + i) = ys ! i"
  using assms by (metis append_is_Nil_conv drop_all less_nat_zero_code list.size(3) nat_le_linear
      nth_append nth_drop)

lemma drop_Cons_length: "drop n xs = y # ys \<Longrightarrow> n < length xs \<and> xs ! n = y"
  by (metis drop_all hd_drop_conv_nth linorder_not_le list.distinct(1) list.sel(1))

lemma take_append_length [simp]: "length xs = n \<Longrightarrow> take n (xs @ ys) = xs"
  by simp

lemma drop_append_length [simp]: "length xs = n \<Longrightarrow> drop n (xs @ ys) = ys"
  by simp

end
