(* ===== verification/Buffer.thy ===== *)
theory Buffer
  imports Prelude
begin

text \<open>
  \<^verbatim>\<open>src/src/serialize/error.rs\<close>, \<^verbatim>\<open>buffer.rs\<close> and \<^verbatim>\<open>marshaler.rs\<close>: the error vocabulary of the
  wire layer, the borrowing read cursor, the growable write buffer, and the \<open>Marshal\<close> /
  \<open>Unmarshal\<close> contract.

  A \<open>&mut ReadBuffer\<close> function that returns \<open>Result\<close> is a \<open>reader\<close>: it gives the result together
  with the buffer as it is afterwards, also when the result is an error, since the Rust code keeps
  the bytes it has already consumed. \<open>?\<close> is \<open>rbind\<close>. A \<open>&mut WriteBuffer\<close> function maps the
  buffer to the buffer afterwards. \<open>usize\<close> is \<open>nat\<close>: the sums of a cursor and a wire length that
  the code forms stay far below \<open>2 ^ 64\<close>.

  The locale \<open>wire_codec\<close> is the contract between a codec and everything that composes codecs.
\<close>

section \<open>Errors\<close>

datatype marshaler_error =
    BufferUnderrun (needed: nat) (available: nat)
  | InvalidDiscriminant u8
  | InvalidRange u64 u64 u64
  | ContainerOverflow nat nat
  | StringOverflow nat nat
  | Utf8
  | Uuid
  | ParseInt
  | CrcMismatch u32 u32
  | TruncatedPayload nat nat
  | InvalidEnvelopeFlags u8
  | EmptyEnvelope
  | MessageTypeMismatch u32 u32
  | UnknownTypeIndex u32
  | UnknownClassUuid bytes
  | NullPolymorphicValue

definition buffer_underrun :: "nat \<Rightarrow> nat \<Rightarrow> marshaler_error" where
  "buffer_underrun avail need = BufferUnderrun need avail"

section \<open>ReadBuffer\<close>

datatype endian = BigEndian | LittleEndian

definition carrier_endian :: endian where
  "carrier_endian = BigEndian"

record read_buffer =
  rdata :: bytes
  rpos :: nat
  rendian :: endian

type_synonym 'a reader = "read_buffer \<Rightarrow> (marshaler_error + 'a) \<times> read_buffer"

definition rreturn :: "'a \<Rightarrow> 'a reader" where
  "rreturn x rb = (Ok x, rb)"

definition rfail :: "marshaler_error \<Rightarrow> 'a reader" where
  "rfail e rb = (Err e, rb)"

definition rbind :: "'a reader \<Rightarrow> ('a \<Rightarrow> 'b reader) \<Rightarrow> 'b reader" where
  "rbind m f rb = (case m rb of (Inl e, rb') \<Rightarrow> (Inl e, rb') | (Inr x, rb') \<Rightarrow> f x rb')"

definition rmap :: "('a \<Rightarrow> 'b) \<Rightarrow> 'a reader \<Rightarrow> 'b reader" where
  "rmap f m = rbind m (\<lambda>x. rreturn (f x))"

definition read_new :: "endian \<Rightarrow> bytes \<Rightarrow> read_buffer" where
  "read_new e bs = \<lparr>rdata = bs, rpos = 0, rendian = e\<rparr>"

definition read_carrier :: "bytes \<Rightarrow> read_buffer" where
  "read_carrier bs = read_new carrier_endian bs"

definition read_little_endian :: "bytes \<Rightarrow> read_buffer" where
  "read_little_endian bs = read_new LittleEndian bs"

definition left :: "read_buffer \<Rightarrow> nat" where
  "left rb = length (rdata rb) - rpos rb"

definition rb_is_empty :: "read_buffer \<Rightarrow> bool" where
  "rb_is_empty rb \<longleftrightarrow> rpos rb \<ge> length (rdata rb)"

definition remaining :: "read_buffer \<Rightarrow> bytes" where
  "remaining rb = drop (rpos rb) (rdata rb)"

definition advance :: "nat \<Rightarrow> read_buffer \<Rightarrow> read_buffer" where
  "advance n rb = rb\<lparr>rpos := rpos rb + n\<rparr>"

definition read_u8 :: "u8 reader" where
  "read_u8 rb =
     (if rpos rb < length (rdata rb)
      then (Ok (rdata rb ! rpos rb), rb\<lparr>rpos := rpos rb + 1\<rparr>)
      else (Err (buffer_underrun (left rb) 1), rb))"

definition read_raw :: "bool reader" where
  "read_raw = rbind read_u8 (\<lambda>v.
     if v = 0 then rreturn False
     else if v = 1 then rreturn True
     else rfail (InvalidDiscriminant v))"

definition read_u16 :: "u16 reader" where
  "read_u16 rb =
     (if rpos rb + 2 \<le> length (rdata rb)
      then let a = rdata rb ! rpos rb; b = rdata rb ! (rpos rb + 1) in
        (Ok (case rendian rb of BigEndian \<Rightarrow> of_be16 a b | LittleEndian \<Rightarrow> of_le16 a b),
         rb\<lparr>rpos := rpos rb + 2\<rparr>)
      else (Err (buffer_underrun (left rb) 2), rb))"

definition read_u32 :: "u32 reader" where
  "read_u32 rb =
     (if rpos rb + 4 \<le> length (rdata rb)
      then let a = rdata rb ! rpos rb; b = rdata rb ! (rpos rb + 1);
               c = rdata rb ! (rpos rb + 2); d = rdata rb ! (rpos rb + 3) in
        (Ok (case rendian rb of BigEndian \<Rightarrow> of_be32 a b c d | LittleEndian \<Rightarrow> of_le32 a b c d),
         rb\<lparr>rpos := rpos rb + 4\<rparr>)
      else (Err (buffer_underrun (left rb) 4), rb))"

definition read_bytes :: "nat \<Rightarrow> bytes reader" where
  "read_bytes len rb =
     (if rpos rb + len \<le> length (rdata rb)
      then (Ok (take len (drop (rpos rb) (rdata rb))), rb\<lparr>rpos := rpos rb + len\<rparr>)
      else (Err (buffer_underrun (left rb) len), rb))"

text \<open>
  \<open>range\<close> borrows an absolute range and does not move the cursor; \<open>read_array\<close> cannot reach its
  conversion error, because \<open>read_bytes\<close> returned exactly \<open>N\<close> bytes.
\<close>

definition read_array :: "nat \<Rightarrow> bytes reader" where
  "read_array n = rbind (read_bytes n) (\<lambda>bs.
     if length bs = n then rreturn bs else rfail (buffer_underrun 0 n))"

definition rb_range :: "nat \<Rightarrow> nat \<Rightarrow> read_buffer \<Rightarrow> marshaler_error + bytes" where
  "rb_range s e rb =
     (if s \<le> e \<and> e \<le> length (rdata rb) then Ok (take (e - s) (drop s (rdata rb)))
      else Err (buffer_underrun (left rb) (e - s)))"

definition skip :: "nat \<Rightarrow> read_buffer \<Rightarrow> read_buffer" where
  "skip n rb = rb\<lparr>rpos := min (rpos rb + n) (length (rdata rb))\<rparr>"

definition try_skip :: "nat \<Rightarrow> unit reader" where
  "try_skip n rb =
     (if rpos rb + n \<le> length (rdata rb) then (Ok (), rb\<lparr>rpos := rpos rb + n\<rparr>)
      else (Err (buffer_underrun (left rb) n), rb))"

definition rb_mark :: "read_buffer \<Rightarrow> nat" where
  "rb_mark rb = rpos rb"

definition rewind_to :: "nat \<Rightarrow> read_buffer \<Rightarrow> read_buffer" where
  "rewind_to mark rb = rb\<lparr>rpos := min mark (length (rdata rb))\<rparr>"

text \<open>\<open>Read::read\<close>: the bytes copied into a caller buffer of \<open>cap\<close> bytes.\<close>

definition io_read :: "nat \<Rightarrow> read_buffer \<Rightarrow> bytes \<times> read_buffer" where
  "io_read cap rb =
     (let avail = left rb in
      if avail = 0 \<or> cap = 0 then ([], rb)
      else let n = min avail cap in
        (take n (drop (rpos rb) (rdata rb)), rb\<lparr>rpos := rpos rb + n\<rparr>))"

section \<open>WriteBuffer\<close>

record write_buffer =
  wdata :: bytes
  wendian :: endian

definition write_new :: "endian \<Rightarrow> write_buffer" where
  "write_new e = \<lparr>wdata = [], wendian = e\<rparr>"

definition write_carrier :: write_buffer where
  "write_carrier = write_new carrier_endian"

definition write_bytes :: "bytes \<Rightarrow> write_buffer \<Rightarrow> write_buffer" where
  "write_bytes bs wb = wb\<lparr>wdata := wdata wb @ bs\<rparr>"

definition write_u8 :: "u8 \<Rightarrow> write_buffer \<Rightarrow> write_buffer" where
  "write_u8 v wb = wb\<lparr>wdata := wdata wb @ [v]\<rparr>"

definition write_raw :: "bool \<Rightarrow> write_buffer \<Rightarrow> write_buffer" where
  "write_raw v = write_u8 (if v then 1 else 0)"

definition bytes16 :: "endian \<Rightarrow> u16 \<Rightarrow> bytes" where
  "bytes16 e v = (case e of BigEndian \<Rightarrow> be_bytes16 v | LittleEndian \<Rightarrow> le_bytes16 v)"

definition bytes32 :: "endian \<Rightarrow> u32 \<Rightarrow> bytes" where
  "bytes32 e v = (case e of BigEndian \<Rightarrow> be_bytes32 v | LittleEndian \<Rightarrow> le_bytes32 v)"

definition write_u16 :: "u16 \<Rightarrow> write_buffer \<Rightarrow> write_buffer" where
  "write_u16 v wb = write_bytes (bytes16 (wendian wb) v) wb"

definition write_u32 :: "u32 \<Rightarrow> write_buffer \<Rightarrow> write_buffer" where
  "write_u32 v wb = write_bytes (bytes32 (wendian wb) v) wb"

definition wb_mark :: "write_buffer \<Rightarrow> nat" where
  "wb_mark wb = length (wdata wb)"

definition truncate_to :: "nat \<Rightarrow> write_buffer \<Rightarrow> write_buffer" where
  "truncate_to mark wb = wb\<lparr>wdata := take mark (wdata wb)\<rparr>"

definition wb_clear :: "write_buffer \<Rightarrow> write_buffer" where
  "wb_clear wb = wb\<lparr>wdata := []\<rparr>"

text \<open>
  \<open>with_fixed_prefix\<close>: reserve \<open>prefix_len\<close> zero bytes, write the body, then let \<open>patch\<close> compute
  the prefix from the body. \<open>patch\<close> gets the zeroed prefix and the body and returns the prefix; the
  slices \<open>split_at_mut\<close> hands out have fixed lengths, so only its first \<open>prefix_len\<close> bytes count.
  A body that shortens the buffer below \<open>body_pos\<close> makes the Rust subtraction panic: \<open>None\<close>.
\<close>

definition with_fixed_prefix ::
    "nat \<Rightarrow> (write_buffer \<Rightarrow> 'r \<times> write_buffer) \<Rightarrow> (bytes \<Rightarrow> bytes \<Rightarrow> bytes) \<Rightarrow>
     write_buffer \<Rightarrow> ('r \<times> write_buffer) option" where
  "with_fixed_prefix prefix_len write_body patch_prefix wb =
     (let prefix_pos = length (wdata wb);
          wb1 = wb\<lparr>wdata := wdata wb @ replicate prefix_len 0\<rparr>;
          body_pos = length (wdata wb1);
          (result, wb2) = write_body wb1;
          body_end = length (wdata wb2)
      in if body_end < body_pos then None
         else let prefix = take prefix_len (drop prefix_pos (wdata wb2));
                  body = drop body_pos (wdata wb2)
              in Some (result, wb2\<lparr>wdata := take prefix_pos (wdata wb2)
                                    @ take prefix_len (patch_prefix prefix body) @ body\<rparr>))"

section \<open>Cursor facts\<close>

lemma advance_simps [simp]:
  "rdata (advance n rb) = rdata rb" "rendian (advance n rb) = rendian rb"
  "rpos (advance n rb) = rpos rb + n" "advance 0 rb = rb"
  "advance m (advance n rb) = advance (n + m) rb"
  by (simp_all add: advance_def add.assoc)

lemma remaining_advance [simp]: "remaining (advance n rb) = drop n (remaining rb)"
  by (simp add: remaining_def add.commute)

lemma rb_is_empty_remaining: "rb_is_empty rb \<longleftrightarrow> remaining rb = []"
  by (auto simp: rb_is_empty_def remaining_def)

lemma left_remaining: "left rb = length (remaining rb)"
  by (simp add: left_def remaining_def)

lemma remaining_read_new [simp]: "remaining (read_new e bs) = bs" "rendian (read_new e bs) = e"
  "rpos (read_new e bs) = 0" "rdata (read_new e bs) = bs"
  by (simp_all add: remaining_def read_new_def)

lemma rbind_simps [simp]:
  "m rb = (Inr x, rb') \<Longrightarrow> rbind m f rb = f x rb'"
  "m rb = (Inl e, rb') \<Longrightarrow> rbind m f rb = (Inl e, rb')"
  by (simp_all add: rbind_def)

lemma rreturn_app [simp]: "rreturn x rb = (Inr x, rb)"
  by (simp add: rreturn_def)

lemma rfail_app [simp]: "rfail e rb = (Inl e, rb)"
  by (simp add: rfail_def)

lemma rmap_simps [simp]:
  "m rb = (Inr x, rb') \<Longrightarrow> rmap f m rb = (Inr (f x), rb')"
  "m rb = (Inl e, rb') \<Longrightarrow> rmap f m rb = (Inl e, rb')"
  by (simp_all add: rmap_def)

lemma read_u8_eq: "read_u8 rb =
  (case remaining rb of [] \<Rightarrow> (Inl (BufferUnderrun 1 0), rb) | b # _ \<Rightarrow> (Inr b, advance 1 rb))"
  by (auto simp: read_u8_def remaining_def left_def buffer_underrun_def advance_def
      split: list.split dest: drop_Cons_length)

lemma read_u8_Cons [simp]: "remaining rb = b # bs \<Longrightarrow> read_u8 rb = (Inr b, advance 1 rb)"
  by (simp add: read_u8_eq)

lemma read_u8_Nil [simp]: "remaining rb = [] \<Longrightarrow> read_u8 rb = (Inl (BufferUnderrun 1 0), rb)"
  by (simp add: read_u8_eq)

lemma remaining_ConsD:
  "remaining rb = xs @ ys \<Longrightarrow> rpos rb + length xs \<le> length (rdata rb) \<or> xs = []"
proof (cases xs)
  case (Cons a as)
  assume "remaining rb = xs @ ys"
  then have "length (rdata rb) - rpos rb = length xs + length ys"
    unfolding remaining_def by (metis length_append length_drop)
  with Cons show ?thesis by auto
qed simp

lemma read_bytes_append [simp]:
  "remaining rb = xs @ ys \<Longrightarrow> n = length xs \<Longrightarrow> n \<noteq> 0 \<Longrightarrow> read_bytes n rb = (Inr xs, advance n rb)"
  using remaining_ConsD [of rb xs ys] by (auto simp: read_bytes_def remaining_def advance_def)

lemma remaining_nth:
  "remaining rb = xs @ ys \<Longrightarrow> i < length xs \<Longrightarrow> rdata rb ! (rpos rb + i) = xs ! i"
  unfolding remaining_def by (rule drop_eq_append_nth)

lemma read_u16_enc [simp]:
  assumes "remaining rb = bytes16 (rendian rb) v @ bs"
  shows "read_u16 rb = (Inr v, advance 2 rb)"
proof -
  have "length (bytes16 (rendian rb) v) = 2"
    by (simp add: bytes16_def split: endian.split)
  then show ?thesis
    using remaining_ConsD [OF assms] remaining_nth [OF assms, of 0] remaining_nth [OF assms, of 1]
    by (cases "rendian rb")
      (auto simp: read_u16_def bytes16_def advance_def be_bytes16_def le_bytes16_def of_le16_def)
qed

lemma read_u32_enc [simp]:
  assumes "remaining rb = bytes32 (rendian rb) v @ bs"
  shows "read_u32 rb = (Inr v, advance 4 rb)"
proof -
  have "length (bytes32 (rendian rb) v) = 4"
    by (simp add: bytes32_def split: endian.split)
  then show ?thesis
    using remaining_ConsD [OF assms] remaining_nth [OF assms, of 0] remaining_nth [OF assms, of 1]
      remaining_nth [OF assms, of 2] remaining_nth [OF assms, of 3]
    by (cases "rendian rb")
      (auto simp: read_u32_def bytes32_def advance_def be_bytes32_def le_bytes32_def of_le32_def)
qed

lemma length_bytes16 [simp]: "length (bytes16 e v) = 2"
  by (simp add: bytes16_def split: endian.split)

lemma length_bytes32 [simp]: "length (bytes32 e v) = 4"
  by (simp add: bytes32_def split: endian.split)

section \<open>The cursor discipline\<close>

text \<open>
  What every reader of the code keeps: it does not touch the bytes or the byte order, it never
  moves the cursor backwards, and it never moves it past the end.
\<close>

definition cursor_step :: "read_buffer \<Rightarrow> read_buffer \<Rightarrow> bool" where
  "cursor_step rb rb' \<longleftrightarrow> rdata rb' = rdata rb \<and> rendian rb' = rendian rb \<and> rpos rb \<le> rpos rb'
     \<and> (rpos rb \<le> length (rdata rb) \<longrightarrow> rpos rb' \<le> length (rdata rb))"

definition reader_ok :: "'a reader \<Rightarrow> bool" where
  "reader_ok r \<longleftrightarrow> (\<forall>rb. cursor_step rb (snd (r rb)))"

lemma cursor_step_refl [simp]: "cursor_step rb rb"
  by (simp add: cursor_step_def)

lemma cursor_step_trans: "cursor_step a b \<Longrightarrow> cursor_step b c \<Longrightarrow> cursor_step a c"
  by (auto simp: cursor_step_def)

lemma reader_okI: "(\<And>rb. cursor_step rb (snd (r rb))) \<Longrightarrow> reader_ok r"
  by (simp add: reader_ok_def)

lemma reader_okD: "reader_ok r \<Longrightarrow> r rb = (x, rb') \<Longrightarrow> cursor_step rb rb'"
  unfolding reader_ok_def by (metis snd_conv)

lemma reader_ok_return [reader_safe]: "reader_ok (rreturn x)"
  by (simp add: reader_ok_def)

lemma reader_ok_fail [reader_safe]: "reader_ok (rfail e)"
  by (simp add: reader_ok_def)

lemma reader_ok_bind [reader_safe]:
  assumes "reader_ok m" and "\<And>x. reader_ok (f x)"
  shows "reader_ok (rbind m f)"
proof (rule reader_okI)
  fix rb
  obtain r rb1 where m: "m rb = (r, rb1)" by fastforce
  then have 1: "cursor_step rb rb1" using assms(1) by (rule reader_okD [rotated])
  show "cursor_step rb (snd (rbind m f rb))"
  proof (cases r)
    case (Inr x)
    have "cursor_step rb1 (snd (f x rb1))"
      using assms(2) [of x] by (simp add: reader_ok_def)
    with 1 m Inr show ?thesis by (auto intro: cursor_step_trans)
  qed (use m 1 in simp)
qed

lemma reader_ok_map [reader_safe]: "reader_ok m \<Longrightarrow> reader_ok (rmap f m)"
  unfolding rmap_def by (intro reader_safe)

lemma reader_ok_if [reader_safe]: "reader_ok a \<Longrightarrow> reader_ok b \<Longrightarrow> reader_ok (if c then a else b)"
  by simp

lemma reader_ok_read_u8 [reader_safe]: "reader_ok read_u8"
  by (auto simp: reader_ok_def cursor_step_def read_u8_def)

lemma reader_ok_read_u16 [reader_safe]: "reader_ok read_u16"
  by (auto simp: reader_ok_def cursor_step_def read_u16_def Let_def)

lemma reader_ok_read_u32 [reader_safe]: "reader_ok read_u32"
  by (auto simp: reader_ok_def cursor_step_def read_u32_def Let_def)

lemma reader_ok_read_bytes [reader_safe]: "reader_ok (read_bytes n)"
  by (auto simp: reader_ok_def cursor_step_def read_bytes_def)

lemma reader_ok_try_skip [reader_safe]: "reader_ok (try_skip n)"
  by (auto simp: reader_ok_def cursor_step_def try_skip_def)

lemma reader_ok_read_raw [reader_safe]: "reader_ok read_raw"
  unfolding read_raw_def by (intro reader_safe)

lemma reader_ok_read_array [reader_safe]: "reader_ok (read_array n)"
  unfolding read_array_def by (intro reader_safe)

section \<open>The codec contract\<close>

text \<open>
  \<open>reads_back\<close>: a value written to a fresh buffer, followed by any other bytes, is read back, and
  the other bytes are what is left. This is how the round-trip properties are stated.
\<close>

definition reads_back ::
    "('a \<Rightarrow> write_buffer \<Rightarrow> write_buffer) \<Rightarrow> 'a reader \<Rightarrow> endian \<Rightarrow> 'a \<Rightarrow> bytes \<Rightarrow> bool" where
  "reads_back marshal unmarshal e v rest \<longleftrightarrow>
     (let r = unmarshal (read_new e (wdata (marshal v (write_new e)) @ rest))
      in fst r = Ok v \<and> remaining (snd r) = rest)"

text \<open>
  \<open>Marshal\<close> and \<open>Unmarshal\<close> (and \<open>Codec\<close>, whose methods have the same types): the writer appends
  an encoding that depends on the value and the byte order alone, the reader inverts it in front
  of any following bytes and consumes exactly the encoding, and the reader keeps the cursor
  discipline on every input, malformed input included. \<open>valid\<close> are the values the wire format can
  carry.
\<close>

locale wire_codec =
  fixes valid :: "'a \<Rightarrow> bool"
    and enc :: "endian \<Rightarrow> 'a \<Rightarrow> bytes"
    and marshal :: "'a \<Rightarrow> write_buffer \<Rightarrow> write_buffer"
    and unmarshal :: "'a reader"
  assumes marshal_enc: "marshal v wb = write_bytes (enc (wendian wb) v) wb"
    and unmarshal_enc: "valid v \<Longrightarrow> remaining rb = enc (rendian rb) v @ bs \<Longrightarrow>
      unmarshal rb = (Inr v, advance (length (enc (rendian rb) v)) rb)"
    and unmarshal_safe: "reader_ok unmarshal"
begin

lemma roundtrip:
  assumes "valid v"
  shows "unmarshal (read_new e (wdata (marshal v (write_new e)))) =
    (Inr v, advance (length (enc e v)) (read_new e (enc e v)))"
  using unmarshal_enc [OF assms, of "read_new e (enc e v)" "[]"]
  by (simp add: marshal_enc write_bytes_def write_new_def)

lemma marshal_fresh: "wdata (marshal v (write_new e)) = enc e v"
  by (simp add: marshal_enc write_bytes_def write_new_def)

lemma reads_back_valid: "valid v \<Longrightarrow> reads_back marshal unmarshal e v rest"
  using unmarshal_enc [of v "read_new e (enc e v @ rest)" rest]
  by (simp add: reads_back_def Let_def marshal_fresh)

lemma roundtrip_consumes_all:
  "valid v \<Longrightarrow> left (snd (unmarshal (read_new e (wdata (marshal v (write_new e)))))) = 0"
  by (simp add: roundtrip left_remaining)

lemma enc_prefix_free:
  assumes "valid v" and "valid w" and "enc e v @ xs = enc e w @ ys"
  shows "v = w"
  using unmarshal_enc [OF assms(1), of "read_new e (enc e v @ xs)" xs]
    unmarshal_enc [OF assms(2), of "read_new e (enc e w @ ys)" ys] assms(3)
  by simp

lemma enc_inj: "valid v \<Longrightarrow> valid w \<Longrightarrow> enc e v = enc e w \<Longrightarrow> v = w"
  using enc_prefix_free [of v w e "[]" "[]"] by simp

end

locale fixed_codec = wire_codec +
  fixes marshal_size :: nat
  assumes enc_size: "length (enc e v) = marshal_size"
begin

lemma unmarshal_fixed:
  "valid v \<Longrightarrow> remaining rb = enc (rendian rb) v @ bs \<Longrightarrow>
     unmarshal rb = (Inr v, advance marshal_size rb)"
  using unmarshal_enc [of v rb bs] by (simp add: enc_size)

end

interpretation u8c: fixed_codec "\<lambda>_. True" "\<lambda>_ v. [v]" write_u8 read_u8 1
  by unfold_locales (auto simp: write_u8_def write_bytes_def intro: reader_safe)

interpretation u16c: fixed_codec "\<lambda>_. True" bytes16 write_u16 read_u16 2
  by unfold_locales (auto simp: write_u16_def intro: reader_safe)

interpretation u32c: fixed_codec "\<lambda>_. True" bytes32 write_u32 read_u32 4
  by unfold_locales (auto simp: write_u32_def intro: reader_safe)

interpretation boolc: fixed_codec "\<lambda>_. True" "\<lambda>_ b. [if b then 1 else 0]" write_raw read_raw 1
  by unfold_locales
    (auto simp: write_raw_def write_u8_def write_bytes_def read_raw_def intro: reader_safe)

text \<open>
  \<open>with_fixed_prefix\<close>: whatever a body appends, the earlier bytes stay, the prefix region is what
  \<open>patch\<close> makes of the zeroed region and the body, and the body follows it.
\<close>

lemma with_fixed_prefix_append:
  assumes "\<And>wb. write_body wb = (r, write_bytes body wb)"
    and "length (patch (replicate n 0) body) = n"
  shows "with_fixed_prefix n write_body patch wb =
    Some (r, write_bytes (patch (replicate n 0) body @ body) wb)"
  using assms by (simp add: with_fixed_prefix_def write_bytes_def)

end
