(* ===== verification/Carrier_Types.thy ===== *)
theory Carrier_Types
  imports Buffer
begin

text \<open>
  The data of the carrier layer: \<^verbatim>\<open>crates/nw-gridmate/src/carrier/types.rs\<close>, the records of
  \<^verbatim>\<open>message.rs\<close> and \<^verbatim>\<open>datagram.rs\<close>, the constants of \<^verbatim>\<open>system_message.rs\<close> and \<^verbatim>\<open>mtu.rs\<close>, and the
  backoff of \<^verbatim>\<open>handshake_retry.rs\<close>.

  \<open>SequenceNumber(u16)\<close> is the word itself. \<open>MessageData\<close> is modelled without \<open>ack_callback\<close>,
  which no code path of the carrier calls, and without the debug-only wire spans. An \<open>Instant\<close> is
  a natural number of nanoseconds since the earliest representable instant.
\<close>

section \<open>Sequence numbers\<close>

type_synonym seqno = u16
type_synonym instant = nat

abbreviation millis :: "nat \<Rightarrow> nat" where "millis n \<equiv> n * 1000000"

definition seq_zero :: seqno where "seq_zero = 0"

definition sequence_number_max :: seqno where "sequence_number_max = 0xffff"

definition seq_next :: "seqno \<Rightarrow> seqno" where
  "seq_next s = s + 1"

definition sequential_distance_to :: "seqno \<Rightarrow> seqno \<Rightarrow> u16" where
  "sequential_distance_to from to = to - from"

definition sequence_number_sequential_distance :: "seqno \<Rightarrow> seqno \<Rightarrow> u16" where
  "sequence_number_sequential_distance from to = sequential_distance_to from to"

definition seq_less_than :: "seqno \<Rightarrow> seqno \<Rightarrow> bool" where
  "seq_less_than a b = (let diff = b - a in a \<noteq> b \<and> diff > 0 \<and> diff < 0x8000)"

abbreviation sdist :: "seqno \<Rightarrow> seqno \<Rightarrow> u16" where
  "sdist \<equiv> sequence_number_sequential_distance"

lemma sdist_eq: "sdist a b = b - a"
  by (simp add: sequence_number_sequential_distance_def sequential_distance_to_def)

lemma sdist_0 [simp]: "sdist a b = 0 \<longleftrightarrow> a = b"
  by (auto simp: sdist_eq)

lemma sdist_1 [simp]: "sdist a b = 1 \<longleftrightarrow> b = a + 1"
  by (auto simp: sdist_eq diff_eq_eq add.commute)

lemma seq_less_than_unat: "seq_less_than a b \<longleftrightarrow> 0 < unat (b - a) \<and> unat (b - a) < 32768"
  by (auto simp: seq_less_than_def Let_def word_less_nat_alt unat_gt_0)

lemma seq_less_irrefl [simp]: "\<not> seq_less_than a a"
  by (simp add: seq_less_than_def)

lemma unat_minus_sum: "unat ((b :: u16) - a) + unat (a - b) = (if a = b then 0 else 65536)"
  using unat_u16_less [of a] unat_u16_less [of b]
  by (auto simp: unat_sub_if_size word_size word_unat_eq_iff)

lemma seq_less_asym: "seq_less_than a b \<Longrightarrow> \<not> seq_less_than b a"
  using unat_minus_sum [of b a] by (auto simp: seq_less_than_unat split: if_splits)

section \<open>Constants\<close>

definition system_channel :: u8 where "system_channel = 3"
definition max_channels :: nat where "max_channels = 4"
definition priority_max :: nat where "priority_max = 4"

definition sm_connect_request :: u8 where "sm_connect_request = 1"
definition sm_connect_ack :: u8 where "sm_connect_ack = 2"
definition sm_disconnect :: u8 where "sm_disconnect = 3"
definition sm_clock_sync :: u8 where "sm_clock_sync = 4"
definition sm_ct_first :: u8 where "sm_ct_first = 5"
definition sm_ct_acks :: u8 where "sm_ct_acks = 6"
definition sm_ct_conn_control :: u8 where "sm_ct_conn_control = 7"

lemmas carrier_consts = system_channel_def max_channels_def priority_max_def
  sm_connect_request_def sm_connect_ack_def sm_disconnect_def sm_clock_sync_def
  sm_ct_first_def sm_ct_acks_def sm_ct_conn_control_def

section \<open>Messages and datagrams\<close>

datatype data_reliability = Unreliable | Reliable

record message_data =
  reliability :: data_reliability
  channel :: u8
  num_chunks :: seqno
  sequence_number :: seqno
  send_reliable_seq_num :: seqno
  mdata :: bytes
  is_connecting :: bool

definition message_new :: message_data where
  "message_new = \<lparr>reliability = Unreliable, channel = 0, num_chunks = 1, sequence_number = seq_zero,
     send_reliable_seq_num = sequence_number_max, mdata = [], is_connecting = False\<rparr>"

definition message_unreliable :: "u8 \<Rightarrow> bytes \<Rightarrow> message_data" where
  "message_unreliable ch d = message_new\<lparr>channel := ch, reliability := Unreliable, mdata := d\<rparr>"

definition message_reliable :: "u8 \<Rightarrow> bytes \<Rightarrow> message_data" where
  "message_reliable ch d = message_new\<lparr>channel := ch, reliability := Reliable, mdata := d\<rparr>"

record datagram_header =
  is_compressed :: bool
  has_compressor :: bool
  dh_sequence_number :: seqno

definition datagram_header_size :: nat where "datagram_header_size = 4"
definition dh_uncompressed :: u8 where "dh_uncompressed = 0x80"
definition dh_compressed :: u8 where "dh_compressed = 0x81"
definition dh_has_compressor :: u8 where "dh_has_compressor = 0x01"

definition datagram_header_unmarshal :: "datagram_header reader" where
  "datagram_header_unmarshal = rbind read_u8 (\<lambda>first_byte.
     if first_byte \<noteq> 0x80 \<and> first_byte \<noteq> 0x81 then rfail (InvalidDiscriminant first_byte)
     else rbind read_u8 (\<lambda>second. rbind read_u16 (\<lambda>sn.
       rreturn \<lparr>is_compressed = (first_byte AND 0x01 \<noteq> 0), has_compressor = (second = 0x01),
                dh_sequence_number = sn\<rparr>)))"

record datagram_control_data =
  fc_sequence_number :: seqno
  fc_size :: u16
  fc_effective_size :: u16
  fc_sent_time :: instant

text \<open>\<open>to_resend\<close> is one list of messages per priority, as in the source.\<close>

record datagram_data =
  flow_control :: datagram_control_data
  resend_data_size :: u16
  to_resend :: "message_data list list"

definition datagram_control_data_new :: "instant \<Rightarrow> seqno \<Rightarrow> datagram_control_data" where
  "datagram_control_data_new now sn =
     \<lparr>fc_sequence_number = sn, fc_size = 0, fc_effective_size = 0, fc_sent_time = now\<rparr>"

definition datagram_data_new :: "instant \<Rightarrow> seqno \<Rightarrow> datagram_data" where
  "datagram_data_new now sn =
     \<lparr>flow_control = datagram_control_data_new now sn, resend_data_size = 0,
      to_resend = replicate priority_max []\<rparr>"

definition dgram_seq :: "datagram_data \<Rightarrow> seqno" where
  "dgram_seq d = fc_sequence_number (flow_control d)"

lemma datagram_header_decode:
  assumes "remaining rb = [if c then 0x81 else 0x80, h] @ bytes16 (rendian rb) sn @ bs"
  shows "datagram_header_unmarshal rb =
    (Ok \<lparr>is_compressed = c, has_compressor = (h = 1), dh_sequence_number = sn\<rparr>, advance 4 rb)"
proof -
  have "remaining (advance 2 rb) = bytes16 (rendian (advance 2 rb)) sn @ bs"
    using assms by simp
  then have "read_u16 (advance 2 rb) = (Ok sn, advance 4 rb)"
    by (subst read_u16_enc) simp_all
  then show ?thesis
    using assms by (cases c) (simp_all add: datagram_header_unmarshal_def numeral_2_eq_2)
qed

lemma reader_ok_datagram_header [reader_safe]: "reader_ok datagram_header_unmarshal"
  unfolding datagram_header_unmarshal_def by (intro reader_safe)

section \<open>MTU arithmetic\<close>

definition max_udp_packet_size :: nat where "max_udp_packet_size = 1200"
definition udp_ip_overhead :: nat where "udp_ip_overhead = 28"
definition dtls_header_size :: nat where "dtls_header_size = 13"
definition dtls_cipher_overhead :: nat where "dtls_cipher_overhead = 30"

definition max_datagram_size :: nat where
  "max_datagram_size =
     max_udp_packet_size - udp_ip_overhead - dtls_header_size - dtls_cipher_overhead"

definition max_message_header_size :: nat where
  "max_message_header_size = 1 + 2 + 1 + 2 + 2 + 2"

definition max_message_data_size :: nat where
  "max_message_data_size = max_datagram_size - datagram_header_size - max_message_header_size"

definition sequence_number_half_span :: nat where "sequence_number_half_span = 32768"
definition max_num_chunks :: nat where "max_num_chunks = sequence_number_half_span - 1"

definition chunks_needed :: "nat \<Rightarrow> nat" where
  "chunks_needed n =
     (if n \<le> max_message_data_size then 1 else 1 + (n - 1) div max_message_data_size)"

lemmas mtu_defs = max_udp_packet_size_def udp_ip_overhead_def dtls_header_size_def
  dtls_cipher_overhead_def max_datagram_size_def max_message_header_size_def
  max_message_data_size_def datagram_header_size_def sequence_number_half_span_def max_num_chunks_def

lemma max_message_data_size_val: "max_message_data_size = 1115" "max_datagram_size = 1129"
  by (simp_all add: mtu_defs)

section \<open>Handshake retry backoff\<close>

definition retry_base_ms :: nat where "retry_base_ms = 10"
definition retry_max_ms :: nat where "retry_max_ms = 1000"

definition retry_interval :: "nat \<Rightarrow> nat" where
  "retry_interval num_retries = millis (min retry_max_ms (retry_base_ms * 2 ^ min num_retries 10))"

section \<open>Disconnect reasons\<close>

datatype disconnect_reason =
    UserRequested | BadConnection | BadPackets | DriverError | HandshakeRejected
  | HandshakeTimeout | WasAlreadyConnected | ShuttingDown | DebugDeleteConnection | VersionMismatch

definition disconnect_reason_to_u8 :: "disconnect_reason \<Rightarrow> u8" where
  "disconnect_reason_to_u8 r = (case r of
     UserRequested \<Rightarrow> 0 | BadConnection \<Rightarrow> 1 | BadPackets \<Rightarrow> 2 | DriverError \<Rightarrow> 3
   | HandshakeRejected \<Rightarrow> 4 | HandshakeTimeout \<Rightarrow> 5 | WasAlreadyConnected \<Rightarrow> 6 | ShuttingDown \<Rightarrow> 7
   | DebugDeleteConnection \<Rightarrow> 8 | VersionMismatch \<Rightarrow> 9)"

definition disconnect_reason_try_from :: "u8 \<Rightarrow> disconnect_reason option" where
  "disconnect_reason_try_from v =
     (if v = 0 then Some UserRequested else if v = 1 then Some BadConnection
      else if v = 2 then Some BadPackets else if v = 3 then Some DriverError
      else if v = 4 then Some HandshakeRejected else if v = 5 then Some HandshakeTimeout
      else if v = 6 then Some WasAlreadyConnected else if v = 7 then Some ShuttingDown
      else if v = 8 then Some DebugDeleteConnection else if v = 9 then Some VersionMismatch
      else None)"

lemma disconnect_reason_roundtrip [simp]:
  "disconnect_reason_try_from (disconnect_reason_to_u8 r) = Some r"
  by (cases r) (simp_all add: disconnect_reason_try_from_def disconnect_reason_to_u8_def)

end
