(* ===== verification/Framing.thy ===== *)
theory Framing
  imports Carrier_Types
begin

text \<open>
  Carrier frames on the wire: \<open>MessageData::read_header\<close> of \<^verbatim>\<open>carrier/message.rs\<close>,
  \<open>write_message_header\<close> and \<open>message_header_size\<close> of \<^verbatim>\<open>carrier/carrier_thread.rs\<close>, and
  \<open>walk_frames\<close> / \<open>decode_datagram\<close> of \<^verbatim>\<open>carrier/decoder.rs\<close>.

  A frame names its channel, sequence number and reliable sequence number only when they differ
  from what the frames before it in the datagram imply, so both ends thread a context. The
  reader's is \<open>frame_ctx\<close>. A parser step may change it and the cursor even when it then fails, so
  a \<open>framer\<close> returns the state with the result. The LZ4 decompressor is a parameter.
\<close>

record frame_ctx =
  prev_msg_seq_num :: "seqno list"
  prev_reliable_msg_seq_num :: "seqno list"
  current_channel :: u8

type_synonym 'a framer = "frame_ctx \<times> read_buffer \<Rightarrow> 'a option \<times> frame_ctx \<times> read_buffer"

definition fret :: "'a \<Rightarrow> 'a framer" where
  "fret x s = (Some x, s)"

definition fnone :: "'a framer" where
  "fnone s = (None, s)"

definition fbind :: "'a framer \<Rightarrow> ('a \<Rightarrow> 'b framer) \<Rightarrow> 'b framer" where
  "fbind m f s = (case m s of (None, s') \<Rightarrow> (None, s') | (Some x, s') \<Rightarrow> f x s')"

definition fread :: "'a reader \<Rightarrow> 'a framer" where
  "fread r s = (let (x, rb) = r (snd s) in (res_ok x, fst s, rb))"

definition fctx :: "frame_ctx framer" where
  "fctx s = (Some (fst s), s)"

definition fmodify :: "(frame_ctx \<Rightarrow> frame_ctx) \<Rightarrow> unit framer" where
  "fmodify g s = (Some (), g (fst s), snd s)"

lemma framer_simps [simp]:
  "fret x s = (Some x, s)" "fnone s = (None, s)"
  "m s = (Some x, s') \<Longrightarrow> fbind m f s = f x s'" "m s = (None, s') \<Longrightarrow> fbind m f s = (None, s')"
  "r rb = (Inr x, rb') \<Longrightarrow> fread r (c, rb) = (Some x, c, rb')"
  "r rb = (Inl e, rb') \<Longrightarrow> fread r (c, rb) = (None, c, rb')"
  "fctx (c, rb) = (Some c, c, rb)" "fmodify g (c, rb) = (Some (), g c, rb)"
  by (simp_all add: fret_def fnone_def fbind_def fread_def fctx_def fmodify_def)

section \<open>Reading a frame\<close>

definition mf_reliable :: u8 where "mf_reliable = 0x01"
definition mf_chunks :: u8 where "mf_chunks = 0x04"
definition mf_sequential_id :: u8 where "mf_sequential_id = 0x08"
definition mf_sequential_rel_id :: u8 where "mf_sequential_rel_id = 0x10"
definition mf_data_channel :: u8 where "mf_data_channel = 0x20"
definition mf_connecting :: u8 where "mf_connecting = 0x80"
definition mf_unused_flags :: u8 where "mf_unused_flags = 0x42"

lemmas mf_defs = mf_reliable_def mf_chunks_def mf_sequential_id_def mf_sequential_rel_id_def
  mf_data_channel_def mf_connecting_def mf_unused_flags_def

definition read_header :: "message_data framer" where
  "read_header =
     fbind (fread read_u8) (\<lambda>flags.
     if flags AND mf_unused_flags \<noteq> 0 then fnone else
     fbind (fread read_u16) (\<lambda>data_size.
     fbind (if flags AND mf_data_channel \<noteq> 0
            then fbind (fread read_u8) (\<lambda>c. fmodify (\<lambda>ctx. ctx\<lparr>current_channel := c\<rparr>))
            else fret ()) (\<lambda>_.
     fbind fctx (\<lambda>ctx.
     let ch = current_channel ctx; i = unat ch in
     if i \<ge> max_channels then fnone else
     fbind (if flags AND mf_chunks \<noteq> 0 then fread read_u16 else fret 1) (\<lambda>chunks.
     fbind (if flags AND mf_sequential_id \<noteq> 0
            then fret (seq_next (prev_msg_seq_num ctx ! i))
            else fread read_u16) (\<lambda>seq.
     fbind (fmodify (\<lambda>c. c\<lparr>prev_msg_seq_num := (prev_msg_seq_num c)[i := seq]\<rparr>)) (\<lambda>_.
     fbind (if flags AND mf_sequential_rel_id \<noteq> 0
            then fret (if flags AND mf_reliable \<noteq> 0
                       then seq_next (prev_reliable_msg_seq_num ctx ! i)
                       else prev_reliable_msg_seq_num ctx ! i)
            else fread read_u16) (\<lambda>rel.
     fbind (fmodify (\<lambda>c. c\<lparr>prev_reliable_msg_seq_num := (prev_reliable_msg_seq_num c)[i := rel]\<rparr>)) (\<lambda>_.
     fbind (fread (read_bytes (unat data_size))) (\<lambda>payload.
     fret \<lparr>reliability = (if flags AND mf_reliable \<noteq> 0 then Reliable else Unreliable),
           channel = ch, num_chunks = chunks, sequence_number = seq, send_reliable_seq_num = rel,
           mdata = payload, is_connecting = (flags AND mf_connecting \<noteq> 0)\<rparr>))))))))))"

section \<open>Writing a frame\<close>

definition message_flags :: "message_data \<Rightarrow> bool \<Rightarrow> bool \<Rightarrow> bool \<Rightarrow> u8" where
  "message_flags m ws wr wc =
     (if reliability m = Reliable then mf_reliable else 0)
     OR (if num_chunks m > 1 then mf_chunks else 0)
     OR (if \<not> ws then mf_sequential_id else 0)
     OR (if \<not> wr then mf_sequential_rel_id else 0)
     OR (if wc then mf_data_channel else 0)
     OR (if is_connecting m then mf_connecting else 0)"

definition write_message_header ::
    "message_data \<Rightarrow> bool \<Rightarrow> bool \<Rightarrow> bool \<Rightarrow> write_buffer \<Rightarrow> write_buffer" where
  "write_message_header m ws wr wc wb =
     (let wb = write_u8 (message_flags m ws wr wc) wb;
          wb = write_u16 (of_nat (length (mdata m))) wb;
          wb = (if wc then write_u8 (channel m) wb else wb);
          wb = (if num_chunks m > 1 then write_u16 (num_chunks m) wb else wb);
          wb = (if ws then write_u16 (sequence_number m) wb else wb)
      in if wr then write_u16 (send_reliable_seq_num m) wb else wb)"

definition message_header_size :: "message_data \<Rightarrow> bool \<Rightarrow> bool \<Rightarrow> bool \<Rightarrow> nat" where
  "message_header_size m ws wr wc =
     1 + 2 + (if wc then 1 else 0) + (if num_chunks m > 1 then 2 else 0)
     + (if ws then 2 else 0) + (if wr then 2 else 0)"

section \<open>Decoding a datagram\<close>

text \<open>
  The loop of \<open>walk_frames\<close>: each frame it reads moves the cursor past at least its flag byte, so
  the unread bytes shrink. The test below repeats what \<open>read_header_progress\<close> proves, for the
  termination argument.
\<close>

function walk_frames_from :: "frame_ctx \<Rightarrow> read_buffer \<Rightarrow> message_data list" where
  "walk_frames_from c rb =
     (if rb_is_empty rb then []
      else case read_header (c, rb) of
        (None, _) \<Rightarrow> []
      | (Some m, c', rb') \<Rightarrow>
          if left rb' < left rb then m # walk_frames_from c' rb' else [])"
  by pat_completeness auto
termination
  by (relation "measure (\<lambda>(c, rb). left rb)") auto

declare walk_frames_from.simps [simp del]

definition frame_ctx_init :: frame_ctx where
  "frame_ctx_init = \<lparr>prev_msg_seq_num = replicate max_channels seq_zero,
     prev_reliable_msg_seq_num = replicate max_channels seq_zero, current_channel = 0\<rparr>"

definition walk_frames :: "bytes \<Rightarrow> message_data list" where
  "walk_frames payload = walk_frames_from frame_ctx_init (read_new carrier_endian payload)"

datatype decode_error =
    Header marshaler_error
  | Decompress nat
  | FrameParseStop nat nat

record decoded_datagram =
  dd_header :: datagram_header
  dd_payload :: bytes
  dd_frames :: "message_data list"

definition max_decompressed_bytes :: nat where "max_decompressed_bytes = 65536"

text \<open>
  \<open>decompress\<close> stands for \<open>lzzzz::lz4::decompress_partial\<close> into a scratch buffer of the given
  size: the decompressed bytes, or nothing on malformed input.
\<close>

definition decode_datagram ::
    "(bytes \<Rightarrow> nat \<Rightarrow> bytes option) \<Rightarrow> bytes \<Rightarrow> decode_error + decoded_datagram" where
  "decode_datagram decompress data =
     (case datagram_header_unmarshal (read_new carrier_endian data) of
        (Inl e, _) \<Rightarrow> Err (Header e)
      | (Inr h, rb) \<Rightarrow>
          (let rest = drop (rpos rb) data in
           if is_compressed h then
             (case decompress rest max_decompressed_bytes of
                None \<Rightarrow> Err (Decompress (length rest))
              | Some p \<Rightarrow> Ok \<lparr>dd_header = h, dd_payload = p, dd_frames = walk_frames p\<rparr>)
           else Ok \<lparr>dd_header = h, dd_payload = rest, dd_frames = walk_frames rest\<rparr>))"

section \<open>Progress and termination of the frame walk\<close>

definition framer_ok :: "'a framer \<Rightarrow> bool" where
  "framer_ok m \<longleftrightarrow> (\<forall>s. cursor_step (snd s) (snd (snd (m s))))"

lemma framer_ok_basic [reader_safe]:
  "framer_ok (fret x)" "framer_ok fnone" "framer_ok fctx" "framer_ok (fmodify g)"
  by (simp_all add: framer_ok_def fctx_def fmodify_def)

lemma framer_ok_read [reader_safe]: "reader_ok r \<Longrightarrow> framer_ok (fread r)"
  by (auto simp: framer_ok_def reader_ok_def fread_def split: prod.split dest: spec)
    (metis snd_conv)

lemma framer_ok_bind [reader_safe]:
  assumes "framer_ok m" and "\<And>x. framer_ok (f x)"
  shows "framer_ok (fbind m f)"
  unfolding framer_ok_def
proof
  fix s
  obtain r s1 where m: "m s = (r, s1)" by (metis surj_pair)
  have 1: "cursor_step (snd s) (snd s1)"
    using assms(1) m unfolding framer_ok_def by (metis snd_conv)
  show "cursor_step (snd s) (snd (snd (fbind m f s)))"
  proof (cases r)
    case (Some x)
    have "cursor_step (snd s1) (snd (snd (f x s1)))"
      using assms(2) [of x] unfolding framer_ok_def by blast
    with 1 m Some show ?thesis by (auto intro: cursor_step_trans)
  qed (use m 1 in simp)
qed

lemma framer_ok_if [reader_safe]: "framer_ok a \<Longrightarrow> framer_ok b \<Longrightarrow> framer_ok (if c then a else b)"
  by simp

lemma framer_ok_let [reader_safe]: "framer_ok (f t) \<Longrightarrow> framer_ok (let x = t in f x)"
  by simp

lemma framer_ok_read_header [reader_safe]: "framer_ok read_header"
  unfolding read_header_def by (intro reader_safe)

lemma fbind_byte_progress:
  assumes "\<And>x. framer_ok (f x)" and "fbind (fread read_u8) f (c, rb) = (Some m, c', rb')"
  shows "left rb' < left rb"
proof (cases "remaining rb")
  case Nil
  then show ?thesis using assms(2) by simp
next
  case (Cons b bs)
  then have "f b (c, advance 1 rb) = (Some m, c', rb')" using assms(2) by simp
  then have "cursor_step (advance 1 rb) rb'"
    using assms(1) [of b] unfolding framer_ok_def by (metis snd_conv)
  then have "left rb' \<le> left (advance 1 rb)" by (auto simp: cursor_step_def left_def)
  with Cons show ?thesis by (simp add: left_remaining)
qed

lemma read_header_progress: "read_header (c, rb) = (Some m, c', rb') \<Longrightarrow> left rb' < left rb"
  unfolding read_header_def
  by (rule fbind_byte_progress [rotated], assumption) (intro reader_safe)

lemma walk_frames_from_step:
  "walk_frames_from c rb =
     (if rb_is_empty rb then []
      else case read_header (c, rb) of
        (None, _) \<Rightarrow> []
      | (Some m, c', rb') \<Rightarrow> m # walk_frames_from c' rb')"
  by (subst walk_frames_from.simps)
    (auto split: option.split prod.split dest: read_header_progress)

section \<open>Reading a written frame\<close>

lemma flag_tests:
  assumes "flags = message_flags m ws wr wc"
  shows "flags AND mf_unused_flags = 0" "flags AND mf_reliable \<noteq> 0 \<longleftrightarrow> reliability m = Reliable"
    "flags AND mf_chunks \<noteq> 0 \<longleftrightarrow> num_chunks m > 1" "flags AND mf_sequential_id \<noteq> 0 \<longleftrightarrow> \<not> ws"
    "flags AND mf_sequential_rel_id \<noteq> 0 \<longleftrightarrow> \<not> wr" "flags AND mf_data_channel \<noteq> 0 \<longleftrightarrow> wc"
    "flags AND mf_connecting \<noteq> 0 \<longleftrightarrow> is_connecting m"
  unfolding assms message_flags_def mf_defs by simp_all

definition frame_bytes :: "message_data \<Rightarrow> bool \<Rightarrow> bool \<Rightarrow> bool \<Rightarrow> bytes" where
  "frame_bytes m ws wr wc =
     message_flags m ws wr wc # bytes16 BigEndian (of_nat (length (mdata m)))
     @ (if wc then [channel m] else [])
     @ (if num_chunks m > 1 then bytes16 BigEndian (num_chunks m) else [])
     @ (if ws then bytes16 BigEndian (sequence_number m) else [])
     @ (if wr then bytes16 BigEndian (send_reliable_seq_num m) else []) @ mdata m"

text \<open>What a frame can carry, and the context after it.\<close>

definition frame_valid :: "message_data \<Rightarrow> bool" where
  "frame_valid m \<longleftrightarrow> unat (channel m) < max_channels \<and> length (mdata m) < 65536 \<and> num_chunks m \<noteq> 0"

definition ctx_after :: "message_data \<Rightarrow> frame_ctx \<Rightarrow> frame_ctx" where
  "ctx_after m c = \<lparr>prev_msg_seq_num = (prev_msg_seq_num c)[unat (channel m) := sequence_number m],
     prev_reliable_msg_seq_num =
       (prev_reliable_msg_seq_num c)[unat (channel m) := send_reliable_seq_num m],
     current_channel = channel m\<rparr>"

definition elidable :: "frame_ctx \<Rightarrow> message_data \<Rightarrow> bool \<Rightarrow> bool \<Rightarrow> bool \<Rightarrow> bool" where
  "elidable c m ws wr wc \<longleftrightarrow>
     (wc \<or> channel m = current_channel c)
     \<and> (ws \<or> sequence_number m = prev_msg_seq_num c ! unat (channel m) + 1)
     \<and> (wr \<or> reliability m = Reliable
          \<and> send_reliable_seq_num m = prev_reliable_msg_seq_num c ! unat (channel m) + 1)"

lemma fread_u16_enc:
  "rendian rb = BigEndian \<Longrightarrow> remaining rb = bytes16 BigEndian v @ bs \<Longrightarrow>
     fread read_u16 (c, rb) = (Some v, c, advance 2 rb)"
  by (rule framer_simps(5), rule read_u16_enc) simp

lemma read_payload:
  assumes "remaining rb = xs @ bs" and "rpos rb \<le> length (rdata rb)" and "length xs < 65536"
  shows "fread (read_bytes (unat (of_nat (length xs) :: u16))) (c, rb) =
    (Some xs, c, advance (length xs) rb)"
proof -
  have "unat (of_nat (length xs) :: u16) = length xs"
    using assms(3) by (simp add: unat_of_nat take_bit_nat_eq_self)
  moreover have "rpos rb + length xs \<le> length (rdata rb)"
    using assms(1,2) remaining_ConsD [of rb xs bs] by auto
  ultimately show ?thesis
    using assms(1) by (simp add: fread_def read_bytes_def advance_def remaining_def)
qed

text \<open>One step per optional field of the header.\<close>

lemma fbind_eqI: "m s = (Some x, s') \<Longrightarrow> f x s' = r \<Longrightarrow> fbind m f s = r"
  by simp

lemma opt_channel:
  assumes "f = (if wc then [ch] else [])" and "remaining rb = f @ bs"
    and "wc \<or> ch = current_channel c"
  shows "(if wc then fbind (fread read_u8) (\<lambda>c. fmodify (\<lambda>ctx. ctx\<lparr>current_channel := c\<rparr>))
           else fret ()) (c, rb) = (Some (), c\<lparr>current_channel := ch\<rparr>, advance (length f) rb)"
  using assms by (cases wc) simp_all

lemma opt_u16:
  assumes "f = (if b then bytes16 BigEndian v else [])" and "remaining rb = f @ bs"
    and "rendian rb = BigEndian" and "b \<or> d = v"
  shows "(if b then fread read_u16 else fret d) (c, rb) = (Some v, c, advance (length f) rb)"
    and "(if \<not> b then fret d else fread read_u16) (c, rb) = (Some v, c, advance (length f) rb)"
  using assms by (cases b; simp add: fread_u16_enc)+

lemma read_header_frame:
  assumes rb: "remaining rb = frame_bytes m ws wr wc @ bs" "rendian rb = BigEndian"
    and m: "frame_valid m" and el: "elidable c m ws wr wc"
  shows "read_header (c, rb) = (Some m, ctx_after m c, advance (length (frame_bytes m ws wr wc)) rb)"
proof -
  define b1 where "b1 = (if wc then [channel m] else [])"
  define b2 where "b2 = (if num_chunks m > 1 then bytes16 BigEndian (num_chunks m) else [])"
  define b3 where "b3 = (if ws then bytes16 BigEndian (sequence_number m) else [])"
  define b4 where "b4 = (if wr then bytes16 BigEndian (send_reliable_seq_num m) else [])"
  note t = flag_tests [OF refl, of m ws wr wc]
  let ?sz = "bytes16 BigEndian (of_nat (length (mdata m)))" and ?f = "message_flags m ws wr wc"
  have fb: "frame_bytes m ws wr wc = ?f # ?sz @ b1 @ b2 @ b3 @ b4 @ mdata m"
    by (simp add: frame_bytes_def b1_def b2_def b3_def b4_def)
  have R: "remaining rb = ?f # ?sz @ b1 @ b2 @ b3 @ b4 @ mdata m @ bs"
    using rb(1) by (simp add: fb)
  define r where "r n = advance n rb" for n
  have rE: "rendian (r n) = BigEndian" for n using rb(2) by (simp add: r_def)
  have rA: "advance k (r n) = r (n + k)" for k n by (simp add: r_def)
  let ?p1 = "3 + length b1" let ?p2 = "?p1 + length b2" let ?p3 = "?p2 + length b3"
  let ?p4 = "?p3 + length b4"
  have R1: "remaining (r 1) = ?sz @ b1 @ b2 @ b3 @ b4 @ mdata m @ bs"
    and R2: "remaining (r 3) = b1 @ b2 @ b3 @ b4 @ mdata m @ bs"
    and R3: "remaining (r ?p1) = b2 @ b3 @ b4 @ mdata m @ bs"
    and R4: "remaining (r ?p2) = b3 @ b4 @ mdata m @ bs"
    and R5: "remaining (r ?p3) = b4 @ mdata m @ bs"
    and R6: "remaining (r ?p4) = mdata m @ bs"
    using R by (simp_all add: r_def numeral_3_eq_3)
  have pos: "rpos (r ?p4) \<le> length (rdata (r ?p4))"
    using remaining_ConsD [OF rb(1)] by (simp add: fb r_def)
  have nc: "num_chunks m > 1 \<or> 1 = num_chunks m"
    using m by (auto simp: frame_valid_def word_less_nat_alt word_unat_eq_iff)
  have el': "wc \<or> channel m = current_channel c"
    "ws \<or> seq_next (prev_msg_seq_num c ! unat (channel m)) = sequence_number m"
    "wr \<or> (if reliability m = Reliable then seq_next (prev_reliable_msg_seq_num c ! unat (channel m))
       else prev_reliable_msg_seq_num c ! unat (channel m)) = send_reliable_seq_num m"
    using el by (auto simp: elidable_def seq_next_def)
  have ch: "\<not> max_channels \<le> unat (channel m)" and len: "length (mdata m) < 65536"
    using m by (simp_all add: frame_valid_def)
  have r3: "advance 2 (r 1) = r 3" by (simp add: r_def)
  have sel: "current_channel (c\<lparr>current_channel := x\<rparr>) = x"
    "prev_msg_seq_num (c\<lparr>current_channel := x\<rparr>) = prev_msg_seq_num c"
    "prev_reliable_msg_seq_num (c\<lparr>current_channel := x\<rparr>) = prev_reliable_msg_seq_num c" for x
    by simp_all
  have rel: "(if reliability m = Reliable then Reliable else Unreliable) = reliability m"
    by (cases "reliability m") simp_all
  have "read_header (c, rb) = (Some m, ctx_after m c, r (?p4 + length (mdata m)))"
    unfolding read_header_def
    apply (rule fbind_eqI, rule framer_simps(5), rule read_u8_Cons, rule R)
    apply (fold r_def, simp only: t if_False HOL.not_True_eq_False HOL.simp_thms)
    apply (rule fbind_eqI, rule fread_u16_enc [OF rE R1], subst r3)
    apply (rule fbind_eqI, rule opt_channel [OF b1_def R2 el'(1)])
    apply (rule fbind_eqI, rule framer_simps(7))
    apply (simp only: Let_def sel ch if_False rA)
    apply (rule fbind_eqI, rule opt_u16(1) [OF b2_def R3 rE nc], subst rA)
    apply (rule fbind_eqI, rule opt_u16(2) [OF b3_def R4 rE el'(2)], subst rA)
    apply (rule fbind_eqI, rule framer_simps(8))
    apply (rule fbind_eqI, rule opt_u16(2) [OF b4_def R5 rE el'(3)], subst rA)
    apply (rule fbind_eqI, rule framer_simps(8))
    apply (rule fbind_eqI, rule read_payload [OF R6 pos len], subst rA)
    by (simp add: rel ctx_after_def)
  then show ?thesis by (simp add: fb r_def)
qed

section \<open>Reading a sequence of frames\<close>

type_synonym frame = "message_data \<times> bool \<times> bool \<times> bool"

fun frame_enc :: "frame \<Rightarrow> bytes" where
  "frame_enc (m, ws, wr, wc) = frame_bytes m ws wr wc"

fun frames_ok :: "frame_ctx \<Rightarrow> frame list \<Rightarrow> bool" where
  "frames_ok c [] = True"
| "frames_ok c ((m, ws, wr, wc) # fs) =
     (frame_valid m \<and> elidable c m ws wr wc \<and> frames_ok (ctx_after m c) fs)"

lemma walk_frames_from_enc:
  "frames_ok c fs \<Longrightarrow> rendian rb = BigEndian \<Longrightarrow> remaining rb = concat (map frame_enc fs) \<Longrightarrow>
     walk_frames_from c rb = map fst fs"
proof (induction fs arbitrary: c rb)
  case Nil
  then show ?case by (simp add: walk_frames_from_step rb_is_empty_remaining)
next
  case (Cons f fs)
  obtain m ws wr wc where f: "f = (m, ws, wr, wc)" by (metis prod_cases4)
  have ne: "\<not> rb_is_empty rb"
    using Cons.prems(3) by (simp add: rb_is_empty_remaining f frame_bytes_def)
  have "read_header (c, rb) = (Some m, ctx_after m c, advance (length (frame_bytes m ws wr wc)) rb)"
    using Cons.prems by (intro read_header_frame) (simp_all add: f)
  with ne Cons show ?case
    by (subst walk_frames_from_step) (simp add: f)
qed

lemma walk_frames_enc:
  "frames_ok frame_ctx_init fs \<Longrightarrow> walk_frames (concat (map frame_enc fs)) = map fst fs"
  by (simp add: walk_frames_def walk_frames_from_enc carrier_endian_def)

lemma write_message_header_frame:
  assumes "wendian wb = BigEndian"
  shows "write_bytes (mdata m) (write_message_header m ws wr wc wb) =
    write_bytes (frame_bytes m ws wr wc) wb"
  using assms
  by (simp add: write_message_header_def frame_bytes_def write_bytes_def write_u8_def write_u16_def Let_def)

lemma length_frame_bytes:
  "length (frame_bytes m ws wr wc) = message_header_size m ws wr wc + length (mdata m)"
  by (simp add: frame_bytes_def message_header_size_def)

lemma decode_datagram_plain:
  "decode_datagram decompress (0x80 # h # be_bytes16 sn @ payload) =
     Ok \<lparr>dd_header = \<lparr>is_compressed = False, has_compressor = (h = 1), dh_sequence_number = sn\<rparr>,
         dd_payload = payload, dd_frames = walk_frames payload\<rparr>"
  using datagram_header_decode [where c = False and h = h and sn = sn and bs = payload
      and rb = "read_new carrier_endian (0x80 # h # be_bytes16 sn @ payload)"]
  by (simp add: decode_datagram_def bytes16_def carrier_endian_def be_bytes16_def)

lemma decode_datagram_lz4:
  "decode_datagram decompress (0x81 # h # be_bytes16 sn @ compressed) =
     (case decompress compressed max_decompressed_bytes of
        None \<Rightarrow> Err (Decompress (length compressed))
      | Some p \<Rightarrow> Ok \<lparr>dd_header = \<lparr>is_compressed = True, has_compressor = (h = 1), dh_sequence_number = sn\<rparr>,
                     dd_payload = p, dd_frames = walk_frames p\<rparr>)"
  using datagram_header_decode [where c = True and h = h and sn = sn and bs = compressed
      and rb = "read_new carrier_endian (0x81 # h # be_bytes16 sn @ compressed)"]
  by (simp add: decode_datagram_def bytes16_def carrier_endian_def be_bytes16_def)

section \<open>Malformed input\<close>

lemma fbindE:
  assumes "fbind m f s = (Some y, s'')"
  obtains x s' where "m s = (Some x, s')" and "f x s' = (Some y, s'')"
  using assms by (cases "m s"; cases "fst (m s)") (auto simp: fbind_def)

lemma fread_SomeD:
  "fread read_u8 s = (Some x, s') \<Longrightarrow> left (snd s) = left (snd s') + 1"
  "fread read_u16 s = (Some y, s') \<Longrightarrow> left (snd s) = left (snd s') + 2"
  "fread (read_bytes n) s = (Some z, s') \<Longrightarrow> left (snd s) = left (snd s') + n \<and> length z = n"
  by (auto simp: fread_def read_u8_def read_u16_def read_bytes_def left_def Let_def split: if_splits)

lemma read_header_SomeD:
  assumes "read_header s = (Some m, s')"
  shows "unat (channel m) < max_channels \<and> left (snd s') + length (mdata m) + 3 \<le> left (snd s)"
  using assms unfolding read_header_def Let_def
  by (auto elim!: fbindE split: if_splits simp: fctx_def fmodify_def dest!: fread_SomeD)

text \<open>
  C20. Whatever bytes arrive, the frame walk terminates, every frame it returns is on a channel
  below the channel count, and the payloads with their minimal headers fit in the bytes received:
  no frame reads past the end of the datagram.
\<close>

theorem walk_frames_safe:
  "list_all (\<lambda>m. unat (channel m) < max_channels) (walk_frames payload)
    \<and> (\<Sum>m \<leftarrow> walk_frames payload. length (mdata m) + 3) \<le> length payload"
proof -
  have "(\<forall>m \<in> set (walk_frames_from c rb). unat (channel m) < max_channels)
    \<and> (\<Sum>m \<leftarrow> walk_frames_from c rb. length (mdata m) + 3) \<le> left rb" for c rb
  proof (induction c rb rule: walk_frames_from.induct)
    case (1 c rb)
    show ?case
    proof (cases "rb_is_empty rb")
      case False
      obtain r c' rb' where r: "read_header (c, rb) = (r, c', rb')" by (metis prod_cases3)
      show ?thesis
      proof (cases r)
        case (Some m)
        with r have "unat (channel m) < max_channels" and "left rb' + length (mdata m) + 3 \<le> left rb"
          using read_header_SomeD [of "(c, rb)" m "(c', rb')"] by simp_all
        then show ?thesis
          using 1 [OF False r [symmetric] Some refl] False r Some read_header_progress [of c rb m c' rb']
          by (subst (1 2) walk_frames_from_step) auto
      qed (use r False in \<open>simp add: walk_frames_from_step\<close>)
    qed (simp add: walk_frames_from_step)
  qed
  from this [of frame_ctx_init "read_new carrier_endian payload"] show ?thesis
    by (simp add: walk_frames_def left_remaining list_all_iff)
qed

end
