(* ===== verification/Reassembler.thy ===== *)
theory Reassembler
  imports Framing
begin

text \<open>
  \<^verbatim>\<open>carrier/reassembler.rs\<close> and \<^verbatim>\<open>carrier/receiver.rs\<close>: per-channel chunk reassembly and the ordering
  gate for reliable messages. The three arrays indexed by channel are lists of length
  \<open>max_channels\<close>. One step of the drain iterator on a channel is \<open>next_ready\<close>; the iterator run to
  its end is \<open>drain\<close>.

  The locale \<open>byte_channel\<close> is what the layers above rely on: a channel hands out what was put
  in, in order, without losing or repeating a byte.
\<close>

record reassembler =
  staging :: "message_data list list"
  received_reliable_seq_num :: "seqno list"
  received_seq_num :: "seqno list"

definition reassembler_new :: reassembler where
  "reassembler_new = \<lparr>staging = replicate max_channels [],
     received_reliable_seq_num = replicate max_channels sequence_number_max,
     received_seq_num = replicate max_channels sequence_number_max\<rparr>"

definition accept :: "message_data \<Rightarrow> reassembler \<Rightarrow> reassembler" where
  "accept frame r =
     (let ch = unat (channel frame) in
      if ch < max_channels
      then r\<lparr>staging := (staging r)[ch := staging r ! ch @ [frame]]\<rparr> else r)"

fun chunks_follow :: "seqno \<Rightarrow> message_data list \<Rightarrow> bool" where
  "chunks_follow prev [] = True"
| "chunks_follow prev (c # cs) =
     (reliability c = Reliable \<and> sdist prev (send_reliable_seq_num c) = 1
      \<and> chunks_follow (send_reliable_seq_num c) cs)"

definition chunks_ready :: "message_data list \<Rightarrow> nat \<Rightarrow> bool" where
  "chunks_ready q n =
     (if length q < n then False
      else case q of
        [] \<Rightarrow> False
      | first # rest \<Rightarrow>
          reliability first = Reliable
          \<and> chunks_follow (send_reliable_seq_num first) (take (n - 1) rest))"

definition assembled :: "nat \<Rightarrow> message_data list \<Rightarrow> message_data" where
  "assembled ch cs =
     (let last_seq = (if cs = [] then seq_zero else sequence_number (last cs));
          last_rel = (if cs = [] then seq_zero else send_reliable_seq_num (last cs))
      in message_new\<lparr>channel := of_nat ch, reliability := Reliable, num_chunks := 1,
           sequence_number := last_seq, send_reliable_seq_num := last_rel,
           mdata := concat (map mdata cs)\<rparr>)"

definition assemble_chunks :: "nat \<Rightarrow> nat \<Rightarrow> reassembler \<Rightarrow> message_data option \<times> reassembler" where
  "assemble_chunks ch n r =
     (let q = staging r ! ch in
      if length q < n then (None, r\<lparr>staging := (staging r)[ch := []]\<rparr>)
      else let msg = assembled ch (take n q) in
        (Some msg,
         r\<lparr>staging := (staging r)[ch := drop n q],
           received_reliable_seq_num := (received_reliable_seq_num r)[ch := send_reliable_seq_num msg],
           received_seq_num := (received_seq_num r)[ch := sequence_number msg]\<rparr>))"

definition deliver_front :: "nat \<Rightarrow> reassembler \<Rightarrow> message_data option \<times> reassembler" where
  "deliver_front ch r =
     (case staging r ! ch of
        [] \<Rightarrow> (None, r)
      | msg # q \<Rightarrow>
          (Some msg,
           r\<lparr>staging := (staging r)[ch := q],
             received_reliable_seq_num :=
               (if reliability msg = Reliable
                then (received_reliable_seq_num r)[ch := send_reliable_seq_num msg]
                else received_reliable_seq_num r),
             received_seq_num := (received_seq_num r)[ch := sequence_number msg]\<rparr>))"

definition next_ready :: "nat \<Rightarrow> reassembler \<Rightarrow> message_data option \<times> reassembler" where
  "next_ready ch r =
     (case staging r ! ch of
        [] \<Rightarrow> (None, r)
      | head # _ \<Rightarrow>
          (let n = unat (num_chunks head);
               last_rel = received_reliable_seq_num r ! ch;
               nothing_delivered_yet = (last_rel = sequence_number_max)
           in if reliability head = Reliable then
                if sdist last_rel (send_reliable_seq_num head) \<noteq> 1 then (None, r)
                else if n > 1 then
                  if length (staging r ! ch) < n then (None, r)
                  else if \<not> chunks_ready (staging r ! ch) n then (None, r)
                  else assemble_chunks ch n r
                else deliver_front ch r
              else if \<not> nothing_delivered_yet
                      \<and> sdist last_rel (send_reliable_seq_num head) > 0 then (None, r)
              else deliver_front ch r))"

section \<open>Draining\<close>

lemma next_ready_None: "next_ready ch r = (None, r') \<Longrightarrow> r' = r"
  by (auto simp: next_ready_def deliver_front_def assemble_chunks_def Let_def
      split: list.splits if_splits)

lemma next_ready_Some:
  assumes "next_ready ch r = (Some m, r')" and "ch < length (staging r)"
  shows "\<exists>k. 0 < k \<and> k \<le> length (staging r ! ch)
    \<and> staging r' = (staging r)[ch := drop k (staging r ! ch)]
    \<and> mdata m = concat (map mdata (take k (staging r ! ch)))"
proof (cases "staging r ! ch")
  case Nil
  then show ?thesis using assms by (simp add: next_ready_def)
next
  case (Cons h q)
  let ?n = "unat (num_chunks h)"
  show ?thesis
  proof (cases "reliability h = Reliable \<and> 1 < ?n")
    case True
    then show ?thesis
      using assms Cons
      by (intro exI [of _ ?n])
        (auto simp: next_ready_def assemble_chunks_def assembled_def Let_def split: if_splits)
  next
    case False
    then show ?thesis
      using assms Cons
      by (intro exI [of _ 1])
        (auto simp: next_ready_def deliver_front_def Let_def split: if_splits)
  qed
qed

lemma next_ready_shrinks:
  assumes "next_ready ch r = (Some m, r')" and "ch < length (staging r)"
  shows "length (staging r' ! ch) < length (staging r ! ch)"
  using next_ready_Some [OF assms] assms(2) by auto

function drain_channel :: "nat \<Rightarrow> reassembler \<Rightarrow> message_data list \<times> reassembler" where
  "drain_channel ch r =
     (if ch < length (staging r) then
        (case next_ready ch r of
           (None, r') \<Rightarrow> ([], r')
         | (Some m, r') \<Rightarrow> (let (ms, r'') = drain_channel ch r' in (m # ms, r'')))
      else ([], r))"
  by pat_completeness auto
termination
  by (relation "measure (\<lambda>(ch, r). length (staging r ! ch))") (auto dest: next_ready_shrinks [OF sym])

declare drain_channel.simps [simp del]

fun drain_from :: "nat list \<Rightarrow> reassembler \<Rightarrow> (u8 \<times> message_data) list \<times> reassembler" where
  "drain_from [] r = ([], r)"
| "drain_from (ch # chs) r =
     (let (ms, r') = drain_channel ch r; (rest, r'') = drain_from chs r'
      in (map (\<lambda>m. (of_nat ch, m)) ms @ rest, r''))"

definition drain :: "reassembler \<Rightarrow> (u8 \<times> message_data) list \<times> reassembler" where
  "drain r = drain_from [0..<max_channels] r"

text \<open>\<open>Receiver::feed\<close>: the header and payload, with every frame staged.\<close>

definition feed ::
    "(bytes \<Rightarrow> nat \<Rightarrow> bytes option) \<Rightarrow> bytes \<Rightarrow> reassembler \<Rightarrow>
     (decode_error + datagram_header) \<times> reassembler" where
  "feed decompress data r =
     (case decode_datagram decompress data of
        Inl e \<Rightarrow> (Err e, r)
      | Inr d \<Rightarrow> (Ok (dd_header d), fold accept (dd_frames d) r))"

section \<open>Channels that carry bytes in order\<close>

text \<open>Popping until nothing is ready, as a relation, so that it speaks about any pop operation.\<close>

inductive pop_run :: "('s \<Rightarrow> 'm option \<times> 's) \<Rightarrow> 's \<Rightarrow> 'm list \<Rightarrow> 's \<Rightarrow> bool"
  for pop where
  pop_stop: "pop s = (None, s') \<Longrightarrow> pop_run pop s [] s'"
| pop_more: "pop s = (Some m, s') \<Longrightarrow> pop_run pop s' ms s'' \<Longrightarrow> pop_run pop s (m # ms) s''"

inductive_cases pop_run_NilE: "pop_run pop s [] s'"
inductive_cases pop_run_ConsE: "pop_run pop s (m # ms) s'"

locale byte_channel =
  fixes push :: "'m \<Rightarrow> 's \<Rightarrow> 's"
    and pop :: "'s \<Rightarrow> 'm option \<times> 's"
    and content :: "'s \<Rightarrow> bytes"
    and payload :: "'m \<Rightarrow> bytes"
    and pending :: "'s \<Rightarrow> nat"
    and inv :: "'s \<Rightarrow> bool"
  assumes push_content: "inv s \<Longrightarrow> content (push m s) = content s @ payload m"
    and push_inv: "inv s \<Longrightarrow> inv (push m s)"
    and pop_none: "pop s = (None, s') \<Longrightarrow> s' = s"
    and pop_content: "inv s \<Longrightarrow> pop s = (Some m, s') \<Longrightarrow> content s = payload m @ content s'"
    and pop_inv: "inv s \<Longrightarrow> pop s = (Some m, s') \<Longrightarrow> inv s'"
    and pop_pending: "inv s \<Longrightarrow> pop s = (Some m, s') \<Longrightarrow> pending s' < pending s"
begin

lemma run_content:
  "pop_run pop s ms s' \<Longrightarrow> inv s \<Longrightarrow> content s = concat (map payload ms) @ content s' \<and> inv s'"
proof (induction rule: pop_run.induct)
  case (pop_stop s s')
  then show ?case using pop_none by auto
next
  case (pop_more s m s' ms s'')
  then show ?case using pop_content pop_inv by simp
qed

lemma run_exists: "inv s \<Longrightarrow> \<exists>ms s'. pop_run pop s ms s'"
proof (induction "pending s" arbitrary: s rule: less_induct)
  case less
  obtain r s' where r: "pop s = (r, s')" by (metis surj_pair)
  show ?case
  proof (cases r)
    case None
    then have "pop_run pop s [] s'" using r by (simp add: pop_run.pop_stop)
    then show ?thesis by (intro exI)
  next
    case (Some m)
    with r less.prems have "pending s' < pending s" and "inv s'"
      by (simp_all add: pop_pending pop_inv)
    then obtain ms s'' where "pop_run pop s' ms s''" using less.hyps [of s'] by auto
    then have "pop_run pop s (m # ms) s''" using r Some by (simp add: pop_run.pop_more)
    then show ?thesis by (intro exI)
  qed
qed

lemma fold_push_content:
  "inv s \<Longrightarrow> content (fold push ms s) = content s @ concat (map payload ms) \<and> inv (fold push ms s)"
  by (induction ms arbitrary: s) (auto simp: push_content push_inv)

text \<open>After any pushes, what comes out is a prefix of what went in, and the rest is still there.\<close>

lemma push_run_content:
  assumes "inv s" and "pop_run pop (fold push ins s) outs s'"
  shows "content s @ concat (map payload ins) = concat (map payload outs) @ content s'"
  using run_content [OF assms(2)] fold_push_content [OF assms(1), of ins] by simp

end

section \<open>The reassembler as byte channels\<close>

definition reasm_wf :: "reassembler \<Rightarrow> bool" where
  "reasm_wf r \<longleftrightarrow> length (staging r) = max_channels \<and> length (received_reliable_seq_num r) = max_channels
     \<and> length (received_seq_num r) = max_channels
     \<and> (\<forall>ch < max_channels. \<forall>m \<in> set (staging r ! ch). unat (channel m) = ch)"

lemma reasm_wf_new: "reasm_wf reassembler_new"
  by (simp add: reasm_wf_def reassembler_new_def)

lemma reasm_wf_accept: "reasm_wf r \<Longrightarrow> reasm_wf (accept m r)"
  by (auto simp: reasm_wf_def accept_def Let_def nth_list_update)

lemma reasm_wf_fold_accept: "reasm_wf r \<Longrightarrow> reasm_wf (fold accept fs r)"
  by (induction fs arbitrary: r) (auto simp: reasm_wf_accept)

lemma next_ready_frame:
  "next_ready ch r = (x, r') \<Longrightarrow> ch' \<noteq> ch \<Longrightarrow>
     staging r' ! ch' = staging r ! ch'
     \<and> received_reliable_seq_num r' ! ch' = received_reliable_seq_num r ! ch'
     \<and> received_seq_num r' ! ch' = received_seq_num r ! ch'"
  by (auto simp: next_ready_def deliver_front_def assemble_chunks_def Let_def
      split: list.splits if_splits)

lemma next_ready_lengths:
  "next_ready ch r = (x, r') \<Longrightarrow> length (staging r') = length (staging r)
     \<and> length (received_reliable_seq_num r') = length (received_reliable_seq_num r)
     \<and> length (received_seq_num r') = length (received_seq_num r)"
  by (auto simp: next_ready_def deliver_front_def assemble_chunks_def Let_def
      split: list.splits if_splits)

lemma next_ready_wf:
  assumes "reasm_wf r" and "ch < max_channels" and "next_ready ch r = (x, r')"
  shows "reasm_wf r'"
proof (cases x)
  case None
  then show ?thesis using assms next_ready_None by blast
next
  case (Some m)
  have len: "ch < length (staging r)" using assms(1,2) by (simp add: reasm_wf_def)
  obtain k where k: "staging r' = (staging r)[ch := drop k (staging r ! ch)]"
    using next_ready_Some [OF assms(3) [unfolded Some] len] by blast
  then show ?thesis
    using assms(1,2) next_ready_lengths [OF assms(3)]
    by (auto simp: reasm_wf_def nth_list_update dest: in_set_dropD)
qed

lemma next_ready_channel:
  assumes "reasm_wf r" and "ch < max_channels" and "next_ready ch r = (Some m, r')"
  shows "unat (channel m) = ch"
proof -
  have "unat (of_nat ch :: u8) = ch"
    using assms(2) by (simp add: max_channels_def unat_of_nat take_bit_nat_eq_self)
  moreover have "\<forall>m \<in> set (staging r ! ch). unat (channel m) = ch"
    using assms(1,2) by (simp add: reasm_wf_def)
  ultimately show ?thesis
    using assms(3)
    by (auto simp: next_ready_def deliver_front_def assemble_chunks_def assembled_def Let_def
        split: list.splits if_splits)
qed

interpretation chan: byte_channel accept "next_ready ch"
  "\<lambda>r. concat (map mdata (staging r ! ch))" "\<lambda>m. if unat (channel m) = ch then mdata m else []"
  "\<lambda>r. length (staging r ! ch)" "\<lambda>r. reasm_wf r \<and> ch < max_channels"
  for ch
proof unfold_locales
  fix r m
  assume "reasm_wf r \<and> ch < max_channels"
  then show "concat (map mdata (staging (accept m r) ! ch)) =
      concat (map mdata (staging r ! ch)) @ (if unat (channel m) = ch then mdata m else [])"
    by (auto simp: accept_def reasm_wf_def Let_def)
next
  fix r m r'
  assume r: "reasm_wf r \<and> ch < max_channels" and n: "next_ready ch r = (Some m, r')"
  have len: "ch < length (staging r)" using r by (simp add: reasm_wf_def)
  obtain k where "staging r' = (staging r)[ch := drop k (staging r ! ch)]"
    and "mdata m = concat (map mdata (take k (staging r ! ch)))"
    using next_ready_Some [OF n len] by auto
  then show "concat (map mdata (staging r ! ch)) =
      (if unat (channel m) = ch then mdata m else []) @ concat (map mdata (staging r' ! ch))"
    using next_ready_channel [OF _ _ n] r len
    by (simp flip: concat_append map_append)
  show "length (staging r' ! ch) < length (staging r ! ch)"
    using next_ready_shrinks [OF n len] .
qed (auto simp: reasm_wf_accept next_ready_None dest: next_ready_wf)

lemma drain_channel_unfold:
  "ch < length (staging r) \<Longrightarrow> next_ready ch r = (None, r1) \<Longrightarrow> drain_channel ch r = ([], r1)"
  "ch < length (staging r) \<Longrightarrow> next_ready ch r = (Some m, r1) \<Longrightarrow>
     drain_channel ch r = (m # fst (drain_channel ch r1), snd (drain_channel ch r1))"
  by (subst drain_channel.simps, simp add: case_prod_beta)+

lemma drain_channel_run:
  "reasm_wf r \<Longrightarrow> ch < max_channels \<Longrightarrow>
     pop_run (next_ready ch) r (fst (drain_channel ch r)) (snd (drain_channel ch r))"
proof (induction "length (staging r ! ch)" arbitrary: r rule: less_induct)
  case less
  obtain x r1 where x: "next_ready ch r = (x, r1)" by (metis surj_pair)
  have len: "ch < length (staging r)" using less.prems by (simp add: reasm_wf_def)
  show ?case
  proof (cases x)
    case None
    then show ?thesis using x len by (simp add: drain_channel_unfold pop_run.pop_stop)
  next
    case (Some m)
    have "reasm_wf r1" by (rule next_ready_wf [OF less.prems x])
    moreover have "length (staging r1 ! ch) < length (staging r ! ch)"
      using next_ready_shrinks [OF _ len] x Some by blast
    ultimately have "pop_run (next_ready ch) r1 (fst (drain_channel ch r1)) (snd (drain_channel ch r1))"
      using less.hyps less.prems(2) by blast
    with x Some len show ?thesis by (simp add: drain_channel_unfold pop_run.pop_more)
  qed
qed

section \<open>Reliable order\<close>

definition is_reliable :: "message_data \<Rightarrow> bool" where
  "is_reliable m \<longleftrightarrow> reliability m = Reliable"

lemma chunks_follow_append:
  "chunks_follow s (xs @ ys) \<longleftrightarrow> chunks_follow s xs \<and> chunks_follow (s + of_nat (length xs)) ys"
proof (induction xs arbitrary: s)
  case (Cons x xs)
  have eq: "s + of_nat (length (x # xs)) = s + 1 + of_nat (length xs)" by simp
  show ?case
  proof (cases "send_reliable_seq_num x = s + 1")
    case True
    then show ?thesis by (simp only: append_Cons chunks_follow.simps eq Cons.IH) blast
  qed simp
qed simp

lemma chunks_follow_last:
  "chunks_follow s cs \<Longrightarrow> cs \<noteq> [] \<Longrightarrow> send_reliable_seq_num (last cs) = s + of_nat (length cs)"
proof (induction cs arbitrary: s)
  case (Cons c cs)
  then show ?case by (cases "cs = []") (auto simp: add_ac)
qed simp

lemma chunks_follow_numbers:
  "chunks_follow s cs \<Longrightarrow>
     map send_reliable_seq_num cs = map (\<lambda>i. s + of_nat (Suc i)) [0..<length cs]"
proof (induction cs rule: rev_induct)
  case (snoc c cs)
  then have "send_reliable_seq_num c = s + of_nat (length cs) + 1" and "chunks_follow s cs"
    by (simp_all add: chunks_follow_append)
  with snoc.IH show ?case by (simp add: add.commute add.left_commute)
qed simp

lemma chunks_follow_reliable: "chunks_follow s cs \<Longrightarrow> filter is_reliable cs = cs"
  by (induction cs arbitrary: s) (auto simp: is_reliable_def)

lemma chunks_ready_follow:
  "chunks_ready (h # q) n \<Longrightarrow> send_reliable_seq_num h = s + 1 \<Longrightarrow> 0 < n \<Longrightarrow>
     chunks_follow s (take n (h # q))"
  by (cases n) (auto simp: chunks_ready_def split: if_splits)

lemma next_ready_order:
  assumes "reasm_wf r" and "ch < max_channels" and "next_ready ch r = (Some m, r')"
  obtains k where "0 < k" and "k \<le> length (staging r ! ch)"
    and "staging r' ! ch = drop k (staging r ! ch)"
    and "chunks_follow (received_reliable_seq_num r ! ch) (filter is_reliable (take k (staging r ! ch)))"
    and "received_reliable_seq_num r' ! ch = received_reliable_seq_num r ! ch
      + of_nat (length (filter is_reliable (take k (staging r ! ch))))"
proof (cases "staging r ! ch")
  case Nil
  then show ?thesis using assms by (simp add: next_ready_def)
next
  case (Cons h q)
  let ?n = "unat (num_chunks h)" and ?s = "received_reliable_seq_num r ! ch"
  have len: "ch < length (staging r)" "ch < length (received_reliable_seq_num r)"
    using assms(1,2) by (simp_all add: reasm_wf_def)
  show ?thesis
  proof (cases "reliability h = Reliable \<and> 1 < ?n")
    case True
    then have h: "send_reliable_seq_num h = ?s + 1" "chunks_ready (h # q) ?n" "\<not> length (h # q) < ?n"
      and r': "next_ready ch r = assemble_chunks ch ?n r"
      using assms(3) Cons by (auto simp: next_ready_def Let_def split: if_splits)
    have f: "chunks_follow ?s (take ?n (h # q))"
      using chunks_ready_follow [OF h(2,1)] True by simp
    have "send_reliable_seq_num (last (take ?n (h # q))) = ?s + of_nat (length (take ?n (h # q)))"
      using chunks_follow_last [OF f] True by auto
    then have "received_reliable_seq_num r' ! ch = ?s + of_nat (length (take ?n (h # q)))"
      using r' assms(3) Cons h(3) True len
      by (auto simp: assemble_chunks_def assembled_def Let_def simp del: take_Cons_numeral)
    then show ?thesis
      using that [of ?n] f chunks_follow_reliable [OF f] r' assms(3) Cons h(3) True len
      by (auto simp: assemble_chunks_def Let_def)
  next
    case False
    then show ?thesis
      using that [of 1] assms(3) Cons len
      by (auto simp: next_ready_def deliver_front_def is_reliable_def Let_def split: if_splits)
  qed
qed

lemma run_order:
  assumes "pop_run (next_ready ch) r ms r'" and "reasm_wf r" and "ch < max_channels"
  shows "\<exists>k \<le> length (staging r ! ch). staging r' ! ch = drop k (staging r ! ch)
    \<and> chunks_follow (received_reliable_seq_num r ! ch) (filter is_reliable (take k (staging r ! ch)))
    \<and> received_reliable_seq_num r' ! ch = received_reliable_seq_num r ! ch
        + of_nat (length (filter is_reliable (take k (staging r ! ch))))"
  using assms
proof (induction rule: pop_run.induct)
  case (pop_stop r r')
  then show ?case by (intro exI [of _ 0]) (auto dest: next_ready_None)
next
  case (pop_more r m r1 ms r')
  obtain k where k: "k \<le> length (staging r ! ch)" "staging r1 ! ch = drop k (staging r ! ch)"
    "chunks_follow (received_reliable_seq_num r ! ch) (filter is_reliable (take k (staging r ! ch)))"
    "received_reliable_seq_num r1 ! ch = received_reliable_seq_num r ! ch
      + of_nat (length (filter is_reliable (take k (staging r ! ch))))"
    using next_ready_order [OF pop_more.prems pop_more.hyps(1)] by blast
  obtain j where j: "j \<le> length (staging r1 ! ch)" "staging r' ! ch = drop j (staging r1 ! ch)"
    "chunks_follow (received_reliable_seq_num r1 ! ch) (filter is_reliable (take j (staging r1 ! ch)))"
    "received_reliable_seq_num r' ! ch = received_reliable_seq_num r1 ! ch
      + of_nat (length (filter is_reliable (take j (staging r1 ! ch))))"
    using pop_more.IH next_ready_wf [OF pop_more.prems pop_more.hyps(1)] pop_more.prems(2) by blast
  have "take (k + j) (staging r ! ch) = take k (staging r ! ch) @ take j (staging r1 ! ch)"
    by (simp add: k(2) take_add)
  with k j show ?case
    by (intro exI [of _ "k + j"]) (simp add: chunks_follow_append add_ac)
qed

section \<open>Delivery of whole messages\<close>

text \<open>The frames of one reliable message: \<open>num_chunks\<close> of the first says how many there are.\<close>

definition group_ok :: "seqno \<Rightarrow> message_data list \<Rightarrow> bool" where
  "group_ok s g \<longleftrightarrow> g \<noteq> [] \<and> unat (num_chunks (hd g)) = length g \<and> chunks_follow s g"

fun groups_ok :: "seqno \<Rightarrow> message_data list list \<Rightarrow> bool" where
  "groups_ok s [] = True"
| "groups_ok s (g # gs) = (group_ok s g \<and> groups_ok (s + of_nat (length g)) gs)"

definition delivered :: "nat \<Rightarrow> message_data list \<Rightarrow> message_data" where
  "delivered ch g = (if length g = 1 then hd g else assembled ch g)"

lemma mdata_delivered: "g \<noteq> [] \<Longrightarrow> mdata (delivered ch g) = concat (map mdata g)"
  by (cases g) (auto simp: delivered_def assembled_def Let_def)

lemma next_ready_group:
  assumes "reasm_wf r" and "ch < max_channels" and "staging r ! ch = g @ q"
    and "group_ok (received_reliable_seq_num r ! ch) g"
  obtains r' where "next_ready ch r = (Some (delivered ch g), r')" and "staging r' ! ch = q"
    and "received_reliable_seq_num r' ! ch = received_reliable_seq_num r ! ch + of_nat (length g)"
proof -
  let ?s = "received_reliable_seq_num r ! ch"
  obtain h t where g: "g = h # t" using assms(4) by (cases g) (auto simp: group_ok_def)
  have len: "ch < length (staging r)" "ch < length (received_reliable_seq_num r)"
    using assms(1,2) by (simp_all add: reasm_wf_def)
  have n: "unat (num_chunks h) = length g"
    using assms(4) by (simp add: group_ok_def g)
  have f: "chunks_follow ?s g"
    using assms(4) unfolding group_ok_def by blast
  have h: "reliability h = Reliable" "send_reliable_seq_num h = ?s + 1"
    using f by (simp_all add: g)
  have l: "send_reliable_seq_num (last g) = ?s + of_nat (length g)"
    using chunks_follow_last [OF f] g by simp
  show ?thesis
  proof (cases t)
    case Nil
    then show ?thesis
      using that [of "snd (next_ready ch r)"] assms(3) g n h len
      by (simp add: next_ready_def deliver_front_def delivered_def Let_def)
  next
    case (Cons a u)
    have "chunks_ready (g @ q) (length g)"
      using f by (auto simp: g chunks_ready_def)
    then show ?thesis
      using that [of "snd (next_ready ch r)"] assms(3) g n h len l Cons
      by (simp add: next_ready_def assemble_chunks_def delivered_def assembled_def Let_def)
  qed
qed

lemma drain_channel_groups:
  assumes "reasm_wf r" and "ch < max_channels" and "staging r ! ch = concat gs"
    and "groups_ok (received_reliable_seq_num r ! ch) gs"
  shows "fst (drain_channel ch r) = map (delivered ch) gs
    \<and> staging (snd (drain_channel ch r)) ! ch = []
    \<and> received_reliable_seq_num (snd (drain_channel ch r)) ! ch =
        received_reliable_seq_num r ! ch + of_nat (length (concat gs))"
  using assms
proof (induction gs arbitrary: r)
  case Nil
  then have "next_ready ch r = (None, r)" by (simp add: next_ready_def)
  then have "drain_channel ch r = ([], r)"
    using Nil by (intro drain_channel_unfold) (simp_all add: reasm_wf_def)
  with Nil show ?case by simp
next
  case (Cons g gs)
  have len: "ch < length (staging r)" using Cons.prems by (simp add: reasm_wf_def)
  obtain r' where r': "next_ready ch r = (Some (delivered ch g), r')" "staging r' ! ch = concat gs"
    "received_reliable_seq_num r' ! ch = received_reliable_seq_num r ! ch + of_nat (length g)"
    using next_ready_group [OF Cons.prems(1,2), of g "concat gs"] Cons.prems(3,4) by auto
  have "reasm_wf r'" by (rule next_ready_wf [OF Cons.prems(1,2) r'(1)])
  then show ?case
    using Cons.IH [of r'] Cons.prems(2,4) r' by (simp add: drain_channel_unfold(2) [OF len r'(1)] add_ac)
qed

section \<open>Head-of-line blocking\<close>

definition blocked :: "nat \<Rightarrow> reassembler \<Rightarrow> bool" where
  "blocked ch r \<longleftrightarrow> (case staging r ! ch of [] \<Rightarrow> False
     | h # _ \<Rightarrow> reliability h = Reliable
         \<and> send_reliable_seq_num h \<noteq> received_reliable_seq_num r ! ch + 1)"

lemma blocked_next: "blocked ch r \<Longrightarrow> next_ready ch r = (None, r)"
  by (auto simp: blocked_def next_ready_def Let_def split: list.splits)

lemma blocked_cong:
  "staging r' ! ch = staging r ! ch @ q \<Longrightarrow>
     received_reliable_seq_num r' ! ch = received_reliable_seq_num r ! ch \<Longrightarrow>
     blocked ch r \<Longrightarrow> blocked ch r'"
  by (auto simp: blocked_def split: list.splits)

lemma accept_staging:
  assumes "reasm_wf r" and "ch < max_channels"
  shows "staging (accept m r) ! ch = staging r ! ch @ (if unat (channel m) = ch then [m] else [])"
  using assms by (auto simp: accept_def reasm_wf_def Let_def)

lemma accept_cursor [simp]:
  "received_reliable_seq_num (accept m r) = received_reliable_seq_num r"
  by (simp add: accept_def Let_def)

lemma fold_accept_cursor [simp]:
  "received_reliable_seq_num (fold accept fs r) = received_reliable_seq_num r"
  by (induction fs arbitrary: r) simp_all

lemma fold_accept_staging:
  "reasm_wf r \<Longrightarrow> ch < max_channels \<Longrightarrow>
     staging (fold accept fs r) ! ch = staging r ! ch @ filter (\<lambda>m. unat (channel m) = ch) fs"
  by (induction fs arbitrary: r) (auto simp: accept_staging reasm_wf_accept)

lemma blocked_fold_accept:
  "reasm_wf r \<Longrightarrow> ch < max_channels \<Longrightarrow> blocked ch r \<Longrightarrow> blocked ch (fold accept fs r)"
  by (rule blocked_cong [where r = r]) (auto simp: fold_accept_staging)

lemma drain_channel_wf: "reasm_wf r \<Longrightarrow> ch < max_channels \<Longrightarrow> reasm_wf (snd (drain_channel ch r))"
  using chan.run_content [OF drain_channel_run] by blast

lemma run_frame:
  "pop_run (next_ready ch) r ms r' \<Longrightarrow> ch' \<noteq> ch \<Longrightarrow>
     staging r' ! ch' = staging r ! ch'
     \<and> received_reliable_seq_num r' ! ch' = received_reliable_seq_num r ! ch'"
  by (induction rule: pop_run.induct) (auto dest: next_ready_frame)

lemma run_channel:
  "pop_run (next_ready ch) r ms r' \<Longrightarrow> reasm_wf r \<Longrightarrow> ch < max_channels \<Longrightarrow>
     \<forall>m \<in> set ms. unat (channel m) = ch"
proof (induction rule: pop_run.induct)
  case (pop_more r m r1 ms r')
  then show ?case using next_ready_channel [of r ch m r1] next_ready_wf [of r ch "Some m" r1] by simp
qed simp

lemma drain_channel_blocked:
  assumes "reasm_wf r" and "c < max_channels" and "ch < max_channels" and "blocked ch r"
  shows "blocked ch (snd (drain_channel c r)) \<and> (c = ch \<longrightarrow> fst (drain_channel c r) = [])"
proof (cases "c = ch")
  case True
  then show ?thesis
    using assms blocked_next [OF assms(4)] by (simp add: drain_channel_unfold(1) reasm_wf_def)
next
  case False
  with run_frame [OF drain_channel_run [OF assms(1,2)], of ch] assms(4) show ?thesis
    by (auto intro: blocked_cong [where r = r and q = "[]"])
qed

lemma of_nat_channel_inj:
  "c < max_channels \<Longrightarrow> ch < max_channels \<Longrightarrow> (of_nat c :: u8) = of_nat ch \<longleftrightarrow> c = ch"
  by (auto simp: max_channels_def word_unat_eq_iff unat_of_nat take_bit_nat_eq_self)

lemma drain_from_blocked:
  "reasm_wf r \<Longrightarrow> set cs \<subseteq> {..<max_channels} \<Longrightarrow> ch < max_channels \<Longrightarrow> blocked ch r \<Longrightarrow>
     (\<forall>(c, m) \<in> set (fst (drain_from cs r)). c \<noteq> of_nat ch)
     \<and> blocked ch (snd (drain_from cs r)) \<and> reasm_wf (snd (drain_from cs r))"
proof (induction cs arbitrary: r)
  case (Cons c cs)
  let ?r = "snd (drain_channel c r)"
  have c: "c < max_channels" using Cons.prems by simp
  note b = drain_channel_blocked [OF Cons.prems(1) c Cons.prems(3,4)]
  have "(\<forall>(d, m) \<in> set (fst (drain_from cs ?r)). d \<noteq> of_nat ch)
     \<and> blocked ch (snd (drain_from cs ?r)) \<and> reasm_wf (snd (drain_from cs ?r))"
    using Cons.IH [of ?r] Cons.prems drain_channel_wf [OF Cons.prems(1) c] b by simp
  then show ?case
    using b c Cons.prems(3) by (auto simp: case_prod_beta of_nat_channel_inj)
qed simp

lemma drain_blocked:
  assumes "reasm_wf r" and "ch < max_channels" and "blocked ch r"
  shows "(\<forall>(c, m) \<in> set (fst (drain r)). c \<noteq> of_nat ch) \<and> blocked ch (snd (drain r))
    \<and> reasm_wf (snd (drain r))"
  unfolding drain_def using assms by (intro drain_from_blocked) auto

text \<open>Batches of frames, each accepted and then drained, as the receive path does.\<close>

fun run_feeds :: "message_data list list \<Rightarrow> reassembler \<Rightarrow> (u8 \<times> message_data) list \<times> reassembler" where
  "run_feeds [] r = ([], r)"
| "run_feeds (fs # fss) r =
     (let (out, r') = drain (fold accept fs r); (outs, r'') = run_feeds fss r' in (out @ outs, r''))"

lemma run_feeds_blocked:
  "reasm_wf r \<Longrightarrow> ch < max_channels \<Longrightarrow> blocked ch r \<Longrightarrow>
     \<forall>(c, m) \<in> set (fst (run_feeds fss r)). c \<noteq> of_nat ch"
proof (induction fss arbitrary: r)
  case (Cons fs fss)
  note d = drain_blocked [OF reasm_wf_fold_accept [OF Cons.prems(1), of fs] Cons.prems(2)
      blocked_fold_accept [OF Cons.prems]]
  with Cons.IH [of "snd (drain (fold accept fs r))"] Cons.prems(2)
  show ?case by (auto simp: case_prod_beta)
qed simp

section \<open>Properties\<close>

text \<open>
  C27. On every channel the bytes handed to the application, followed by the bytes still staged,
  are exactly the bytes staged before followed by those of the accepted frames of that channel:
  the reassembler never loses, repeats or reorders a byte.
\<close>

theorem reassembler_conserves_bytes:
  assumes "reasm_wf r" and "ch < max_channels"
  shows "concat (map mdata (staging r ! ch))
      @ concat (map mdata (filter (\<lambda>m. unat (channel m) = ch) ins)) =
    concat (map mdata (fst (drain_channel ch (fold accept ins r))))
      @ concat (map mdata (staging (snd (drain_channel ch (fold accept ins r))) ! ch))"
proof -
  let ?p = "\<lambda>m. if unat (channel m) = ch then mdata m else []" and ?r = "fold accept ins r"
  have p: "concat (map ?p ms) = concat (map mdata (filter (\<lambda>m. unat (channel m) = ch) ms))" for ms
    by (induction ms) auto
  have run: "pop_run (next_ready ch) ?r (fst (drain_channel ch ?r)) (snd (drain_channel ch ?r))"
    by (rule drain_channel_run [OF reasm_wf_fold_accept [OF assms(1)] assms(2)])
  have "\<forall>m \<in> set (fst (drain_channel ch ?r)). unat (channel m) = ch"
    by (rule run_channel [OF run reasm_wf_fold_accept [OF assms(1)] assms(2)])
  then have "filter (\<lambda>m. unat (channel m) = ch) (fst (drain_channel ch ?r)) = fst (drain_channel ch ?r)"
    by simp
  with chan.push_run_content [OF _ run] assms show ?thesis by (simp add: p)
qed

theorem reassembler_conserves_bytes_witness:
  "concat (map mdata (staging reassembler_new ! 2))
      @ concat (map mdata (filter (\<lambda>m. unat (channel m) = 2) [message_unreliable 2 [7, 8]])) =
    concat (map mdata (fst (drain_channel 2 (fold accept [message_unreliable 2 [7, 8]] reassembler_new))))
      @ concat (map mdata (staging (snd (drain_channel 2
          (fold accept [message_unreliable 2 [7, 8]] reassembler_new))) ! 2))"
  by (rule reassembler_conserves_bytes [OF reasm_wf_new]) (simp add: max_channels_def)

text \<open>
  C8. Reliable frames leave a channel in strictly consecutive reliable sequence order: draining
  removes a prefix of the staged frames, the reliable ones among them carry the successors of the
  last delivered reliable number one after the other, and the cursor ends at the last of them.
\<close>

theorem reliable_order:
  assumes "reasm_wf r" and "ch < max_channels"
  shows "\<exists>k \<le> length (staging r ! ch).
    staging (snd (drain_channel ch r)) ! ch = drop k (staging r ! ch)
    \<and> map send_reliable_seq_num (filter is_reliable (take k (staging r ! ch))) =
        map (\<lambda>i. received_reliable_seq_num r ! ch + of_nat (Suc i))
          [0..<length (filter is_reliable (take k (staging r ! ch)))]
    \<and> received_reliable_seq_num (snd (drain_channel ch r)) ! ch =
        received_reliable_seq_num r ! ch
          + of_nat (length (filter is_reliable (take k (staging r ! ch))))"
proof -
  show ?thesis
    using run_order [OF drain_channel_run [OF assms] assms] chunks_follow_numbers by blast
qed

theorem reliable_order_witness:
  "let r = accept ((message_reliable 0 [1])\<lparr>send_reliable_seq_num := 0\<rparr>) reassembler_new
   in \<exists>k \<le> length (staging r ! 0).
    staging (snd (drain_channel 0 r)) ! 0 = drop k (staging r ! 0)
    \<and> map send_reliable_seq_num (filter is_reliable (take k (staging r ! 0))) =
        map (\<lambda>i. received_reliable_seq_num r ! 0 + of_nat (Suc i))
          [0..<length (filter is_reliable (take k (staging r ! 0)))]
    \<and> received_reliable_seq_num (snd (drain_channel 0 r)) ! 0 =
        received_reliable_seq_num r ! 0
          + of_nat (length (filter is_reliable (take k (staging r ! 0))))"
  unfolding Let_def
  by (rule reliable_order [OF reasm_wf_accept [OF reasm_wf_new]]) (simp add: max_channels_def)

text \<open>
  A reliable frame that arrives on a drained channel with any number but the next one (a
  datagram that overtook another, or a retransmission of a frame already delivered) blocks the
  channel for good: no later frames, in whatever batches they arrive, make anything on that
  channel deliverable again.
\<close>

lemma out_of_order_reliable_frame_stalls_channel:
  assumes "reasm_wf r" and "staging r ! unat (channel f) = []" and "unat (channel f) < max_channels"
    and "reliability f = Reliable"
    and "send_reliable_seq_num f \<noteq> received_reliable_seq_num r ! unat (channel f) + 1"
  shows "list_all (\<lambda>(c, m). c \<noteq> channel f) (fst (run_feeds fss (accept f r)))"
proof -
  let ?ch = "unat (channel f)"
  have "blocked ?ch (accept f r)"
    using assms by (simp add: blocked_def accept_staging)
  from run_feeds_blocked [OF reasm_wf_accept [OF assms(1)] assms(3) this]
  show ?thesis by (simp add: list_all_iff)
qed

end
