(* ===== verification/Datagram_History.thy ===== *)
theory Datagram_History
  imports Carrier_Types
begin

text \<open>
  \<^verbatim>\<open>carrier/datagram_history.rs\<close>: the ring of received datagram numbers, the ACK frame written from
  it, the parser of that frame, and what an ACK does to the peer's queue of unacknowledged
  datagrams.

  The loops of the source that walk the ring stop only when the ring's bookkeeping is consistent.
  They carry fuel, one unit per slot, which is enough because a walk that visits every slot of
  the ring once finds what it looks for; an operation whose loop would not stop, and one whose
  counter would underflow (a panic), returns \<open>None\<close>.
\<close>

definition max_num_acks :: int where "max_num_acks = 3"
definition max_num_bytes :: nat where "max_num_bytes = 64"
definition max_elements :: nat where "max_elements = 512"

record history_element =
  he_seq :: seqno
  num_acks_sent :: int

record datagram_history =
  elements :: "history_element list"
  hfirst :: nat
  hlast :: nat
  num_active_elements :: nat

definition history_new :: datagram_history where
  "history_new = \<lparr>elements = replicate max_elements \<lparr>he_seq = seq_zero, num_acks_sent = -1\<rparr>,
     hfirst = 0, hlast = 0, num_active_elements = 0\<rparr>"

definition history_is_empty :: "datagram_history \<Rightarrow> bool" where
  "history_is_empty h \<longleftrightarrow> num_active_elements h = 0"

definition history_is_full :: "datagram_history \<Rightarrow> bool" where
  "history_is_full h \<longleftrightarrow> hfirst h = hlast h \<and> num_active_elements h \<noteq> 0"

definition ring_add :: "nat \<Rightarrow> nat" where
  "ring_add n = (if n = max_elements - 1 then 0 else n + 1)"

definition ring_sub :: "nat \<Rightarrow> nat" where
  "ring_sub n = (if n = 0 then max_elements - 1 else n - 1)"

definition last_index :: "datagram_history \<Rightarrow> nat" where
  "last_index h = ring_sub (hlast h)"

definition is_valid :: "datagram_history \<Rightarrow> nat \<Rightarrow> bool" where
  "is_valid h i \<longleftrightarrow> num_acks_sent (elements h ! i) \<noteq> -1"

definition seq_at :: "datagram_history \<Rightarrow> nat \<Rightarrow> seqno" where
  "seq_at h i = he_seq (elements h ! i)"

definition history_first :: "datagram_history \<Rightarrow> seqno option" where
  "history_first h = (if history_is_empty h then None else Some (seq_at h (hfirst h)))"

definition history_last :: "datagram_history \<Rightarrow> seqno option" where
  "history_last h = (if history_is_empty h then None else Some (seq_at h (last_index h)))"

definition set_acks :: "nat \<Rightarrow> int \<Rightarrow> datagram_history \<Rightarrow> datagram_history" where
  "set_acks i n h = h\<lparr>elements := (elements h)[i := (elements h ! i)\<lparr>num_acks_sent := n\<rparr>]\<rparr>"

definition set_element :: "nat \<Rightarrow> seqno \<Rightarrow> datagram_history \<Rightarrow> datagram_history" where
  "set_element i s h = h\<lparr>elements := (elements h)[i := \<lparr>he_seq = s, num_acks_sent = 0\<rparr>]\<rparr>"

section \<open>Removal\<close>

fun skip_forward :: "nat \<Rightarrow> datagram_history \<Rightarrow> datagram_history option" where
  "skip_forward fuel h =
     (if is_valid h (hfirst h) then Some h
      else case fuel of 0 \<Rightarrow> None
        | Suc f \<Rightarrow> skip_forward f (h\<lparr>hfirst := ring_add (hfirst h)\<rparr>))"

fun skip_backward :: "nat \<Rightarrow> datagram_history \<Rightarrow> datagram_history option" where
  "skip_backward fuel h =
     (if is_valid h (last_index h) then Some h
      else case fuel of 0 \<Rightarrow> None
        | Suc f \<Rightarrow> skip_backward f (h\<lparr>hlast := ring_sub (hlast h)\<rparr>))"

declare skip_forward.simps [simp del] skip_backward.simps [simp del]

definition history_remove :: "nat \<Rightarrow> datagram_history \<Rightarrow> (nat \<times> datagram_history) option" where
  "history_remove offset h =
     (if is_valid h offset \<and> num_active_elements h = 0 then None
      else let h = (if is_valid h offset
                    then (set_acks offset (-1) h)\<lparr>num_active_elements := num_active_elements h - 1\<rparr>
                    else h)
        in if num_active_elements h = 0 then Some (hlast h, h\<lparr>hfirst := hlast h\<rparr>)
           else if hfirst h = offset then
             map_option (\<lambda>h. (hfirst h, h)) (skip_forward max_elements h)
           else if last_index h = offset then
             map_option (\<lambda>h. (hlast h, h)) (skip_backward max_elements h)
           else Some (ring_add offset, h))"

definition get_for_ack :: "nat \<Rightarrow> datagram_history \<Rightarrow> (seqno \<times> nat \<times> datagram_history) option" where
  "get_for_ack offset h =
     (let sn = seq_at h offset;
          acks = num_acks_sent (elements h ! offset) + 1;
          h = set_acks offset acks h
      in if acks \<ge> max_num_acks
         then map_option (\<lambda>(next, h). (sn, next, h)) (history_remove offset h)
         else Some (sn, ring_add offset, h))"

section \<open>Insertion\<close>

fun evict :: "nat \<Rightarrow> seqno \<Rightarrow> datagram_history \<Rightarrow> datagram_history option" where
  "evict fuel new_first h =
     (if num_active_elements h \<noteq> 0 \<and> seq_less_than (seq_at h (hfirst h)) new_first
      then let h = (if is_valid h (hfirst h)
                    then (set_acks (hfirst h) (-1) h)\<lparr>num_active_elements := num_active_elements h - 1\<rparr>
                    else h)
           in (case fuel of 0 \<Rightarrow> None
               | Suc f \<Rightarrow> evict f new_first (h\<lparr>hfirst := ring_add (hfirst h)\<rparr>))
      else Some h)"

fun advance_last :: "nat \<Rightarrow> nat \<Rightarrow> datagram_history \<Rightarrow> datagram_history option" where
  "advance_last fuel new_last h =
     (if hlast h = new_last then Some h
      else case fuel of 0 \<Rightarrow> None
        | Suc f \<Rightarrow> advance_last f new_last (h\<lparr>hlast := ring_add (hlast h)\<rparr>))"

declare evict.simps [simp del] advance_last.simps [simp del]

definition history_insert :: "seqno \<Rightarrow> datagram_history \<Rightarrow> (bool \<times> datagram_history) option" where
  "history_insert sn h =
     (let offset = unat sn mod max_elements in
      if num_active_elements h \<noteq> 0 then
        if seq_less_than (seq_at h (last_index h)) sn then
          (case evict max_elements (sn - (of_nat max_elements - 1)) h of
             None \<Rightarrow> None
           | Some h1 \<Rightarrow>
               let new_last = ring_add offset in
               map_option (\<lambda>h2.
                 let h3 = h2\<lparr>num_active_elements := num_active_elements h2 + 1\<rparr>
                 in (True, set_element (last_index h3) sn h3))
                 (if num_active_elements h1 = 0
                  then Some (h1\<lparr>hfirst := offset, hlast := new_last\<rparr>)
                  else advance_last max_elements new_last h1))
        else if seq_at h offset = sn \<and> is_valid h offset then Some (False, h)
        else let h = (if \<not> is_valid h offset
                      then h\<lparr>num_active_elements := num_active_elements h + 1\<rparr> else h)
             in Some (True, set_element offset sn h)
      else Some (True, set_element offset sn
             (h\<lparr>hfirst := offset, hlast := ring_add offset, num_active_elements := 1\<rparr>)))"

section \<open>ACK frames\<close>

datatype ack_data =
    KeepAlive
  | Range (first_to_ack: seqno) (last_to_ack: seqno)
  | Bits (last_to_ack: seqno) (history_bits: bytes)

definition obind :: "'a reader \<Rightarrow> ('a \<Rightarrow> read_buffer \<Rightarrow> 'b option \<times> read_buffer) \<Rightarrow>
    read_buffer \<Rightarrow> 'b option \<times> read_buffer" where
  "obind m f rb = (case m rb of (Inl _, rb') \<Rightarrow> (None, rb') | (Inr x, rb') \<Rightarrow> f x rb')"

definition read_ack_data_frame :: "read_buffer \<Rightarrow> ack_data option \<times> read_buffer" where
  "read_ack_data_frame =
     obind read_u8 (\<lambda>ack_flags.
       if ack_flags AND 0x80 \<noteq> 0 then
         obind read_u16 (\<lambda>la.
           let n = unat (ack_flags AND 0x7f) in
           if n > max_num_bytes then (\<lambda>rb. (None, rb))
           else obind (read_bytes n) (\<lambda>bits rb. (Some (Bits la bits), rb)))
       else if ack_flags AND 0x40 \<noteq> 0 then
         obind read_u16 (\<lambda>la. obind read_u16 (\<lambda>fa rb. (Some (Range fa la), rb)))
       else if ack_flags AND 0x20 \<noteq> 0 then (\<lambda>rb. (Some KeepAlive, rb))
       else obind read_u16 (\<lambda>la rb. (Some (Range la la), rb)))"

text \<open>The two loops that mark the acknowledged slots; the second also collects the bitmap.\<close>

fun ack_continuous :: "nat \<Rightarrow> nat \<Rightarrow> datagram_history \<Rightarrow> datagram_history option" where
  "ack_continuous fuel i h =
     (if i = last_index h \<or> i = hlast h then Some h
      else case fuel of 0 \<Rightarrow> None
        | Suc f \<Rightarrow>
            if is_valid h i then
              (case get_for_ack i h of None \<Rightarrow> None | Some (_, next, h') \<Rightarrow> ack_continuous f next h')
            else ack_continuous f (ring_add i) h)"

definition set_history_bit :: "u16 \<Rightarrow> bytes \<Rightarrow> bytes" where
  "set_history_bit bit_distance bits =
     (if bit_distance > 0 then
        let bit_index = unat (bit_distance - 1); byte_index = bit_index div 8 in
        if byte_index < length bits
        then bits[byte_index := (bits ! byte_index) OR push_bit (bit_index mod 8) 1] else bits
      else bits)"

fun ack_bits ::
    "nat \<Rightarrow> seqno \<Rightarrow> nat \<Rightarrow> bytes \<Rightarrow> datagram_history \<Rightarrow> (bytes \<times> datagram_history) option" where
  "ack_bits fuel la i bits h =
     (if i = last_index h \<or> i = hlast h then Some (bits, h)
      else case fuel of 0 \<Rightarrow> None
        | Suc f \<Rightarrow>
            if is_valid h i then
              (case get_for_ack i h of
                 None \<Rightarrow> None
               | Some (cur, next, h') \<Rightarrow>
                   ack_bits f la next (set_history_bit (sdist cur la) bits) h')
            else ack_bits f la (ring_add i) bits h)"

declare ack_continuous.simps [simp del] ack_bits.simps [simp del]

definition write_ack_history ::
    "datagram_history \<Rightarrow> write_buffer \<Rightarrow> (seqno option \<times> datagram_history \<times> write_buffer) option" where
  "write_ack_history h wb =
     (let num = num_active_elements h in
      if num = 0 then Some (None, h, write_u8 0x20 wb)
      else let i = hfirst h; fa = seq_at h i in
        (case get_for_ack (last_index h) h of
           None \<Rightarrow> None
         | Some (la, _, h1) \<Rightarrow>
             let dist = sdist fa la in
             if dist = 0 then
               Some (Some la, h1, write_u16 la (write_u8 0 wb))
             else if dist = of_nat (num - 1) then
               map_option (\<lambda>h2. (Some la, h2, write_u16 fa (write_u16 la (write_u8 0x40 wb))))
                 (ack_continuous max_elements i h1)
             else let n = min ((unat dist + 7) div 8) max_num_bytes in
               map_option (\<lambda>(bits, h2).
                   (Some la, h2, write_bytes bits (write_u16 la (write_u8 (0x80 OR of_nat n) wb))))
                 (ack_bits max_elements la i (replicate n 0) h1)))"

section \<open>Applying an ACK\<close>

text \<open>
  \<open>acked_by\<close> and \<open>nacked_by\<close> are the verdicts of the closure that \<open>retain\<close> runs on each datagram
  of the send queue: drop it, or keep it and record it as skipped over.
\<close>

definition bit_acked :: "seqno \<Rightarrow> bytes \<Rightarrow> seqno \<Rightarrow> bool" where
  "bit_acked la bits sn =
     (let d = unat (sdist sn la) in
      d \<noteq> 0 \<and> d \<le> length bits * 8
      \<and> (bits ! ((d - 1) div 8)) AND push_bit ((d - 1) mod 8) 1 \<noteq> 0)"

fun acked_by :: "ack_data \<Rightarrow> seqno \<Rightarrow> bool" where
  "acked_by KeepAlive sn = False"
| "acked_by (Range fa la) sn =
     (if fa = la then sn = la
      else sn = fa \<or> sn = la \<or> (seq_less_than fa sn \<and> seq_less_than sn la))"
| "acked_by (Bits la bits) sn =
     (if sn = la then True else if seq_less_than sn la then bit_acked la bits sn else False)"

fun nacked_by :: "ack_data \<Rightarrow> seqno \<Rightarrow> bool" where
  "nacked_by KeepAlive sn = False"
| "nacked_by (Range fa la) sn = (\<not> acked_by (Range fa la) sn \<and> seq_less_than sn fa)"
| "nacked_by (Bits la bits) sn = (\<not> acked_by (Bits la bits) sn \<and> seq_less_than sn la)"

definition apply_ack_data_to_send_queue ::
    "ack_data \<Rightarrow> datagram_data list \<Rightarrow> datagram_data list \<times> seqno list" where
  "apply_ack_data_to_send_queue ack q =
     (filter (\<lambda>d. \<not> acked_by ack (dgram_seq d)) q,
      map dgram_seq (filter (\<lambda>d. nacked_by ack (dgram_seq d)) q))"

end
