(* ===== verification/History_Ring.thy ===== *)
theory History_Ring
  imports Datagram_History
begin

text \<open>
  The received-datagram ring of \<open>Datagram_History\<close> as a set of sequence numbers. \<open>window b lo hi h\<close>
  says that the slots in use are those of the numbers \<open>b + lo \<dots> b + hi\<close> and that every used slot
  holds its own number; \<open>ring\<close> adds that both ends are in use, which is what makes the searching
  loops of the source stop. The theorems show what \<open>insert\<close> and \<open>write_ack_history\<close> do to that set.
\<close>

section \<open>Slots\<close>

definition pos :: "seqno \<Rightarrow> nat \<Rightarrow> nat" where
  "pos b j = (unat b + j) mod max_elements"

lemma pos_less [simp]: "pos b j < max_elements"
  by (simp add: pos_def max_elements_def)

lemma max_elements_pos [simp]: "0 < max_elements"
  by (simp add: max_elements_def)

lemma pos_0: "pos b 0 = unat b mod max_elements"
  by (simp add: pos_def)

lemma slot_of_offset: "unat (b + of_nat j :: seqno) mod max_elements = pos b j"
proof -
  have "unat (b + of_nat j :: seqno) = (unat b + j) mod 65536"
    by (simp add: unat_word_ariths unat_of_nat mod_simps)
  then show ?thesis
    by (simp add: pos_def max_elements_def mod_mod_cancel)
qed

lemma pos_rebase: "pos (b + of_nat k) j = pos b (k + j)"
  using slot_of_offset [of b k] unfolding pos_def
  by (metis add.assoc mod_add_left_eq)

lemma ring_add_pos [simp]: "ring_add (pos b j) = pos b (Suc j)"
  by (simp add: ring_add_def pos_def max_elements_def mod_Suc)

lemma ring_sub_pos [simp]: "ring_sub (pos b (Suc j)) = pos b j"
  by (simp add: ring_sub_def pos_def max_elements_def mod_Suc)

lemma pos_inj_le:
  assumes "i \<le> j" "j < max_elements" "pos b i = pos b j"
  shows "i = j"
proof -
  have "max_elements dvd (unat b + j) - (unat b + i)"
    using assms by (intro mod_eq_dvd_iff_nat [THEN iffD1]) (auto simp: pos_def)
  then show ?thesis
    using assms by (auto dest: dvd_imp_le)
qed

lemma pos_inj: "i < max_elements \<Longrightarrow> j < max_elements \<Longrightarrow> pos b i = pos b j \<longleftrightarrow> i = j"
  using pos_inj_le [of i j b] pos_inj_le [of j i b] by (cases "i \<le> j") auto

lemma slot_eq_pos:
  fixes s b :: seqno
  shows "unat s mod max_elements = pos b (unat (s - b))"
  using slot_of_offset [of b "unat (s - b)"] by simp

lemma slot_offset_cases:
  fixes s b :: seqno
  obtains j where "j < max_elements" "unat s mod max_elements = pos b j"
proof -
  have "pos b (unat (s - b) mod max_elements) = pos b (unat (s - b))"
    by (simp add: pos_def mod_simps)
  then show thesis
    using that [of "unat (s - b) mod max_elements"] slot_eq_pos [of s b]
    by (simp add: max_elements_def)
qed

section \<open>The abstraction and the invariant\<close>

definition history_contains :: "datagram_history \<Rightarrow> seqno \<Rightarrow> bool" where
  "history_contains h s \<longleftrightarrow>
     is_valid h (unat s mod max_elements) \<and> seq_at h (unat s mod max_elements) = s"

definition acks_at :: "datagram_history \<Rightarrow> nat \<Rightarrow> int" where
  "acks_at h i = num_acks_sent (elements h ! i)"

definition window :: "seqno \<Rightarrow> nat \<Rightarrow> nat \<Rightarrow> datagram_history \<Rightarrow> bool" where
  "window b lo hi h \<longleftrightarrow>
     length (elements h) = max_elements \<and> lo \<le> hi \<and> hi < max_elements
     \<and> hfirst h = pos b lo \<and> hlast h = pos b (Suc hi)
     \<and> num_active_elements h = card {j. j \<le> hi \<and> is_valid h (pos b j)}
     \<and> (\<forall>j < max_elements. is_valid h (pos b j) \<longrightarrow>
          lo \<le> j \<and> j \<le> hi \<and> seq_at h (pos b j) = b + of_nat j
          \<and> 0 \<le> acks_at h (pos b j) \<and> acks_at h (pos b j) < max_num_acks)"

definition ring :: "seqno \<Rightarrow> nat \<Rightarrow> nat \<Rightarrow> datagram_history \<Rightarrow> bool" where
  "ring b lo hi h \<longleftrightarrow> window b lo hi h \<and> is_valid h (pos b lo) \<and> is_valid h (pos b hi)"

definition history_ok :: "datagram_history \<Rightarrow> bool" where
  "history_ok h \<longleftrightarrow> length (elements h) = max_elements \<and>
     (if num_active_elements h = 0 then \<forall>i < max_elements. \<not> is_valid h i
      else \<exists>b lo hi. ring b lo hi h)"

lemma acks_valid: "is_valid h i \<longleftrightarrow> acks_at h i \<noteq> -1"
  by (simp add: is_valid_def acks_at_def)

lemma set_acks_simps [simp]:
  "length (elements (set_acks i n h)) = length (elements h)"
  "hfirst (set_acks i n h) = hfirst h" "hlast (set_acks i n h) = hlast h"
  "num_active_elements (set_acks i n h) = num_active_elements h"
  "i < length (elements h) \<Longrightarrow> seq_at (set_acks i n h) k = seq_at h k"
  "i < length (elements h) \<Longrightarrow> acks_at (set_acks i n h) k = (if k = i then n else acks_at h k)"
  by (auto simp: set_acks_def seq_at_def acks_at_def nth_list_update)

lemma set_acks_valid [simp]:
  "i < length (elements h) \<Longrightarrow>
     is_valid (set_acks i n h) k = (if k = i then n \<noteq> -1 else is_valid h k)"
  by (simp add: acks_valid)

lemma set_element_simps [simp]:
  "length (elements (set_element i s h)) = length (elements h)"
  "hfirst (set_element i s h) = hfirst h" "hlast (set_element i s h) = hlast h"
  "num_active_elements (set_element i s h) = num_active_elements h"
  "i < length (elements h) \<Longrightarrow> seq_at (set_element i s h) k = (if k = i then s else seq_at h k)"
  "i < length (elements h) \<Longrightarrow> acks_at (set_element i s h) k = (if k = i then 0 else acks_at h k)"
  by (auto simp: set_element_def seq_at_def acks_at_def nth_list_update)

lemma set_element_valid [simp]:
  "i < length (elements h) \<Longrightarrow> is_valid (set_element i s h) k = (k = i \<or> is_valid h k)"
  by (simp add: acks_valid)

lemma field_updates_keep_slots [simp]:
  "is_valid (h\<lparr>hfirst := a\<rparr>) k = is_valid h k" "is_valid (h\<lparr>hlast := a\<rparr>) k = is_valid h k"
  "is_valid (h\<lparr>num_active_elements := a\<rparr>) k = is_valid h k"
  "seq_at (h\<lparr>hfirst := a\<rparr>) k = seq_at h k" "seq_at (h\<lparr>hlast := a\<rparr>) k = seq_at h k"
  "seq_at (h\<lparr>num_active_elements := a\<rparr>) k = seq_at h k"
  "acks_at (h\<lparr>hfirst := a\<rparr>) k = acks_at h k" "acks_at (h\<lparr>hlast := a\<rparr>) k = acks_at h k"
  "acks_at (h\<lparr>num_active_elements := a\<rparr>) k = acks_at h k"
  by (simp_all add: is_valid_def seq_at_def acks_at_def)

lemma windowD:
  assumes "window b lo hi h"
  shows "length (elements h) = max_elements" "lo \<le> hi" "hi < max_elements"
    "hfirst h = pos b lo" "hlast h = pos b (Suc hi)" "last_index h = pos b hi"
    "num_active_elements h = card {j. j \<le> hi \<and> is_valid h (pos b j)}"
    "\<And>j. j < max_elements \<Longrightarrow> is_valid h (pos b j) \<Longrightarrow>
       lo \<le> j \<and> j \<le> hi \<and> seq_at h (pos b j) = b + of_nat j
       \<and> 0 \<le> acks_at h (pos b j) \<and> acks_at h (pos b j) < max_num_acks"
  using assms by (auto simp: window_def last_index_def)

lemma history_contains_window:
  assumes "window b lo hi h"
  shows "history_contains h s \<longleftrightarrow> (\<exists>j. lo \<le> j \<and> j \<le> hi \<and> is_valid h (pos b j) \<and> s = b + of_nat j)"
proof
  assume c: "history_contains h s"
  obtain j where "j < max_elements" "unat s mod max_elements = pos b j"
    using slot_offset_cases by blast
  then show "\<exists>j. lo \<le> j \<and> j \<le> hi \<and> is_valid h (pos b j) \<and> s = b + of_nat j"
    using c windowD(8) [OF assms, of j] by (auto simp: history_contains_def)
next
  assume "\<exists>j. lo \<le> j \<and> j \<le> hi \<and> is_valid h (pos b j) \<and> s = b + of_nat j"
  then show "history_contains h s"
    using windowD(3,8) [OF assms] by (auto simp: history_contains_def slot_of_offset)
qed

section \<open>The searching loops\<close>

lemma skip_forward_finds:
  "is_valid h (pos b k) \<Longrightarrow> \<forall>j. i \<le> j \<and> j < k \<longrightarrow> \<not> is_valid h (pos b j) \<Longrightarrow> i \<le> k \<Longrightarrow> k \<le> i + fuel \<Longrightarrow>
     hfirst h = pos b i \<Longrightarrow> skip_forward fuel h = Some (h\<lparr>hfirst := pos b k\<rparr>)"
proof (induction fuel arbitrary: i h)
  case 0
  then show ?case by (simp add: skip_forward.simps)
next
  case (Suc fuel)
  show ?case
  proof (cases "i = k")
    case True
    then show ?thesis using Suc.prems by (simp add: skip_forward.simps)
  next
    case False
    then have "skip_forward fuel (h\<lparr>hfirst := pos b (Suc i)\<rparr>) = Some (h\<lparr>hfirst := pos b k\<rparr>)"
      using Suc.prems Suc.IH [of "h\<lparr>hfirst := pos b (Suc i)\<rparr>" "Suc i"] by simp
    then show ?thesis
      using False Suc.prems by (subst skip_forward.simps) simp
  qed
qed

lemma skip_backward_finds:
  "is_valid h (pos b k) \<Longrightarrow> \<forall>j. k < j \<and> j \<le> i \<longrightarrow> \<not> is_valid h (pos b j) \<Longrightarrow> k \<le> i \<Longrightarrow> i \<le> k + fuel \<Longrightarrow>
     hlast h = pos b (Suc i) \<Longrightarrow> skip_backward fuel h = Some (h\<lparr>hlast := pos b (Suc k)\<rparr>)"
proof (induction fuel arbitrary: i h)
  case 0
  then show ?case by (simp add: skip_backward.simps last_index_def)
next
  case (Suc fuel)
  show ?case
  proof (cases "i = k")
    case True
    then show ?thesis using Suc.prems by (simp add: skip_backward.simps last_index_def)
  next
    case False
    then obtain i' where i: "i = Suc i'" and "k \<le> i'"
      using Suc.prems(3) by (cases i) auto
    then have "skip_backward fuel (h\<lparr>hlast := pos b (Suc i')\<rparr>) = Some (h\<lparr>hlast := pos b (Suc k)\<rparr>)"
      using Suc.prems Suc.IH [of "h\<lparr>hlast := pos b (Suc i')\<rparr>" i'] by simp
    then show ?thesis
      using False i Suc.prems by (subst skip_backward.simps) (simp add: last_index_def)
  qed
qed

lemma advance_last_finds:
  "k \<le> i + fuel \<Longrightarrow> i \<le> k \<Longrightarrow> hlast h = pos b i \<Longrightarrow> k < i + max_elements \<Longrightarrow>
     advance_last fuel (pos b k) h = Some (h\<lparr>hlast := pos b k\<rparr>)"
proof (induction fuel arbitrary: i h)
  case 0
  then show ?case by (simp add: advance_last.simps)
next
  case (Suc fuel)
  show ?case
  proof (cases "i = k")
    case True
    then show ?thesis using Suc.prems by (simp add: advance_last.simps)
  next
    case False
    then have "pos (b + of_nat i) 0 \<noteq> pos (b + of_nat i) (k - i)"
      using Suc.prems by (subst pos_inj) (auto simp: max_elements_def)
    then have "pos b i \<noteq> pos b k"
      using Suc.prems by (simp add: pos_rebase)
    moreover have "advance_last fuel (pos b k) (h\<lparr>hlast := pos b (Suc i)\<rparr>) = Some (h\<lparr>hlast := pos b k\<rparr>)"
      using Suc.prems False Suc.IH [of "Suc i" "h\<lparr>hlast := pos b (Suc i)\<rparr>"] by simp
    ultimately show ?thesis
      using Suc.prems by (subst advance_last.simps) simp
  qed
qed

section \<open>Removing a slot\<close>

lemma window_first_up:
  assumes "window b lo hi h" "lo \<le> lo'" "lo' \<le> hi" "\<forall>k. lo \<le> k \<and> k < lo' \<longrightarrow> \<not> is_valid h (pos b k)"
  shows "window b lo' hi (h\<lparr>hfirst := pos b lo'\<rparr>)"
  using assms windowD(8) [OF assms(1)] unfolding window_def
  by (auto simp: not_le [symmetric])

lemma window_last_down:
  assumes "window b lo hi h" "lo \<le> hi'" "hi' \<le> hi" "\<forall>k. hi' < k \<and> k \<le> hi \<longrightarrow> \<not> is_valid h (pos b k)"
  shows "window b lo hi' (h\<lparr>hlast := pos b (Suc hi')\<rparr>)"
proof -
  have le: "j \<le> hi'" if "j < max_elements" "is_valid h (pos b j)" for j
    using that windowD(8) [OF assms(1), of j] assms(4) not_le by blast
  have "{j. j \<le> hi \<and> is_valid h (pos b j)} = {j. j \<le> hi' \<and> is_valid h (pos b j)}"
    using le assms(3) windowD(3) [OF assms(1)] by fastforce
  then show ?thesis
    using assms(1-3) le unfolding window_def by simp
qed

definition drop_slot :: "nat \<Rightarrow> datagram_history \<Rightarrow> datagram_history" where
  "drop_slot i h = (set_acks i (-1) h)\<lparr>num_active_elements := num_active_elements h - 1\<rparr>"

lemma window_drop:
  assumes w: "window b lo hi h" and j: "j \<le> hi" "is_valid h (pos b j)"
  shows "window b lo hi (drop_slot (pos b j) h)"
proof -
  have jm: "j < max_elements" using j(1) windowD(3) [OF w] by simp
  have v: "is_valid (drop_slot (pos b j) h) (pos b k) \<longleftrightarrow> k \<noteq> j \<and> is_valid h (pos b k)"
    if "k < max_elements" for k
    using that jm windowD(1) [OF w] by (simp add: drop_slot_def pos_inj)
  have "{k. k \<le> hi \<and> is_valid (drop_slot (pos b j) h) (pos b k)}
      = {k. k \<le> hi \<and> is_valid h (pos b k)} - {j}"
    using v windowD(3) [OF w] by auto
  then have "num_active_elements (drop_slot (pos b j) h)
      = card {k. k \<le> hi \<and> is_valid (drop_slot (pos b j) h) (pos b k)}"
    using j windowD(7) [OF w] by (simp add: drop_slot_def)
  moreover have "seq_at (drop_slot (pos b j) h) (pos b k) = seq_at h (pos b k)
      \<and> (k \<noteq> j \<longrightarrow> acks_at (drop_slot (pos b j) h) (pos b k) = acks_at h (pos b k))"
    if "k < max_elements" for k
    using that jm windowD(1) [OF w] by (simp add: drop_slot_def pos_inj)
  ultimately show ?thesis
    using w v windowD(8) [OF w] unfolding window_def by (auto simp: drop_slot_def)
qed

lemma drop_slot_simps [simp]:
  "hfirst (drop_slot i h) = hfirst h" "hlast (drop_slot i h) = hlast h"
  "last_index (drop_slot i h) = last_index h"
  "length (elements (drop_slot i h)) = length (elements h)"
  "num_active_elements (drop_slot i h) = num_active_elements h - 1"
  "i < length (elements h) \<Longrightarrow> is_valid (drop_slot i h) k = (k \<noteq> i \<and> is_valid h k)"
  by (auto simp: drop_slot_def last_index_def)

lemma history_remove_drop:
  assumes "i < length (elements h)" "is_valid h i" "a \<noteq> -1" "num_active_elements h \<noteq> 0"
  shows "history_remove i (set_acks i a h) =
    (let h = drop_slot i h in
     if num_active_elements h = 0 then Some (hlast h, h\<lparr>hfirst := hlast h\<rparr>)
     else if hfirst h = i then map_option (\<lambda>h. (hfirst h, h)) (skip_forward max_elements h)
     else if last_index h = i then map_option (\<lambda>h. (hlast h, h)) (skip_backward max_elements h)
     else Some (ring_add i, h))"
proof -
  have "(set_acks i (-1) (set_acks i a h))\<lparr>num_active_elements := num_active_elements h - 1\<rparr>
      = drop_slot i h"
    using assms(1) by (simp add: set_acks_def drop_slot_def)
  then show ?thesis
    using assms by (simp add: history_remove_def Let_def)
qed

lemma window_active:
  assumes "window b lo hi h" "j < max_elements" "is_valid h (pos b j)"
  shows "num_active_elements h \<noteq> 0"
  using assms windowD(7) [OF assms(1)] windowD(8) [OF assms] by auto

lemma window_inactive:
  assumes "window b lo hi h" "num_active_elements h = 0" "j < max_elements"
  shows "\<not> is_valid h (pos b j)"
  using assms window_active by blast

lemma ring_num_one:
  assumes "ring b lo hi h" shows "num_active_elements h = 1 \<longleftrightarrow> lo = hi"
proof
  let ?V = "{j. j \<le> hi \<and> is_valid h (pos b j)}"
  have w: "window b lo hi h" and m: "lo \<in> ?V" "hi \<in> ?V"
    using assms by (auto simp: ring_def window_def)
  { assume "num_active_elements h = 1"
    then obtain x where "?V = {x}" using windowD(7) [OF w] by (auto simp: card_1_singleton_iff)
    then show "lo = hi" using m by (metis singletonD) }
  assume eq: "lo = hi"
  have "x = hi" if "x \<in> ?V" for x
    using windowD(8) [OF w, of x] windowD(3) [OF w] that eq by auto
  then have "?V = {hi}" using m by blast
  then show "num_active_elements h = 1" using windowD(7) [OF w] by simp
qed

lemma least_valid_above:
  assumes "window b lo hi h" "is_valid h (pos b k)" "lo \<le> k" "k \<le> hi"
  obtains lo' where "lo \<le> lo'" "lo' \<le> k" "is_valid h (pos b lo')"
    "\<forall>j. lo \<le> j \<and> j < lo' \<longrightarrow> \<not> is_valid h (pos b j)"
proof
  let ?P = "\<lambda>j. lo \<le> j \<and> is_valid h (pos b j)"
  show "lo \<le> Least ?P" "Least ?P \<le> k" "is_valid h (pos b (Least ?P))"
    using LeastI [of ?P k] Least_le [of ?P k] assms by auto
  show "\<forall>j. lo \<le> j \<and> j < Least ?P \<longrightarrow> \<not> is_valid h (pos b j)"
    using not_less_Least [of _ ?P] by blast
qed

lemma greatest_valid_below:
  assumes "is_valid h (pos b k)" "k \<le> hi"
  obtains hi' where "k \<le> hi'" "hi' \<le> hi" "is_valid h (pos b hi')"
    "\<forall>j. hi' < j \<and> j \<le> hi \<longrightarrow> \<not> is_valid h (pos b j)"
proof
  let ?V = "{j. j \<le> hi \<and> is_valid h (pos b j)}"
  have V: "finite ?V" "k \<in> ?V" using assms by auto
  then have "Max ?V \<in> ?V" by (intro Max_in) auto
  then show "k \<le> Max ?V" "Max ?V \<le> hi" "is_valid h (pos b (Max ?V))"
    using Max_ge [of ?V k] V by auto
  show "\<forall>j. Max ?V < j \<and> j \<le> hi \<longrightarrow> \<not> is_valid h (pos b j)"
    using V(1) Max_ge [of ?V] by (auto simp: not_le [symmetric])
qed

text \<open>What removal does to a ring, for a slot at its front, at its back, and between.\<close>

lemma remove_front:
  assumes r: "ring b lo hi h" and lt: "lo < hi" and a: "a \<noteq> -1"
  obtains lo' where "lo < lo'" "lo' \<le> hi"
    "ring b lo' hi ((drop_slot (pos b lo) h)\<lparr>hfirst := pos b lo'\<rparr>)"
    "\<forall>j. lo < j \<and> j < lo' \<longrightarrow> \<not> is_valid h (pos b j)"
    "history_remove (pos b lo) (set_acks (pos b lo) a h)
       = Some (pos b lo', (drop_slot (pos b lo) h)\<lparr>hfirst := pos b lo'\<rparr>)"
proof -
  let ?d = "drop_slot (pos b lo) h"
  have w: "window b lo hi h" and v: "is_valid h (pos b lo)" "is_valid h (pos b hi)"
    using r by (auto simp: ring_def)
  note W = windowD [OF w]
  have wd: "window b lo hi ?d" using window_drop [OF w] W(2) v by blast
  have vd: "is_valid ?d (pos b k) \<longleftrightarrow> k \<noteq> lo \<and> is_valid h (pos b k)" if "k < max_elements" for k
    using that W(1-3) by (simp add: pos_inj)
  have hid: "is_valid ?d (pos b hi)" using vd lt W(3) v by simp
  obtain lo' where lo': "lo \<le> lo'" "lo' \<le> hi" "is_valid ?d (pos b lo')"
      "\<forall>j. lo \<le> j \<and> j < lo' \<longrightarrow> \<not> is_valid ?d (pos b j)"
    using least_valid_above [OF wd hid W(2)] by auto
  have "lo' \<noteq> lo" using lo'(3) vd [of lo] W(2,3) by auto
  then have "lo < lo'" using lo'(1) by simp
  have "skip_forward max_elements ?d = Some (?d\<lparr>hfirst := pos b lo'\<rparr>)"
    using skip_forward_finds [of ?d b lo' lo max_elements] lo' W(3,4) by simp
  then have rem: "history_remove (pos b lo) (set_acks (pos b lo) a h)
      = Some (pos b lo', ?d\<lparr>hfirst := pos b lo'\<rparr>)"
    using history_remove_drop [of "pos b lo" h a] a v W window_active [OF w W(3) v(2)]
      window_active [OF wd W(3) hid]
    by (simp add: Let_def)
  have rg: "ring b lo' hi (?d\<lparr>hfirst := pos b lo'\<rparr>)"
    using window_first_up [OF wd lo'(1,2,4)] lo'(3) hid by (simp add: ring_def)
  have "\<forall>j. lo < j \<and> j < lo' \<longrightarrow> \<not> is_valid h (pos b j)"
  proof (intro allI impI)
    fix j assume "lo < j \<and> j < lo'"
    then show "\<not> is_valid h (pos b j)"
      using lo'(2) lo'(4) [rule_format, of j] vd [of j] W(3) by simp
  qed
  then show thesis using that \<open>lo < lo'\<close> lo'(2) rg rem by blast
qed

lemma remove_back:
  assumes r: "ring b lo hi h" and lt: "lo < hi" and a: "a \<noteq> -1"
  obtains hi' where "lo \<le> hi'" "hi' < hi"
    "ring b lo hi' ((drop_slot (pos b hi) h)\<lparr>hlast := pos b (Suc hi')\<rparr>)"
    "history_remove (pos b hi) (set_acks (pos b hi) a h)
       = Some (pos b (Suc hi'), (drop_slot (pos b hi) h)\<lparr>hlast := pos b (Suc hi')\<rparr>)"
proof -
  let ?d = "drop_slot (pos b hi) h"
  have w: "window b lo hi h" and v: "is_valid h (pos b lo)" "is_valid h (pos b hi)"
    using r by (auto simp: ring_def)
  note W = windowD [OF w]
  have wd: "window b lo hi ?d" using window_drop [OF w] W(2) v by blast
  have vd: "is_valid ?d (pos b k) \<longleftrightarrow> k \<noteq> hi \<and> is_valid h (pos b k)" if "k < max_elements" for k
    using that W(1-3) by (simp add: pos_inj)
  have lod: "is_valid ?d (pos b lo)" using vd lt W(3) v by simp
  obtain hi' where hi': "lo \<le> hi'" "hi' \<le> hi" "is_valid ?d (pos b hi')"
      "\<forall>j. hi' < j \<and> j \<le> hi \<longrightarrow> \<not> is_valid ?d (pos b j)"
    using greatest_valid_below [OF lod W(2)] by auto
  have "hi' \<noteq> hi" using hi'(3) vd [of hi] W(3) by auto
  then have "hi' < hi" using hi'(2) by simp
  have "skip_backward max_elements ?d = Some (?d\<lparr>hlast := pos b (Suc hi')\<rparr>)"
    using skip_backward_finds [of ?d b hi' hi max_elements] hi' W(3,5) by simp
  moreover have "pos b lo \<noteq> pos b hi" using lt W(3) by (simp add: pos_inj)
  ultimately have rem: "history_remove (pos b hi) (set_acks (pos b hi) a h)
      = Some (pos b (Suc hi'), ?d\<lparr>hlast := pos b (Suc hi')\<rparr>)"
    using history_remove_drop [of "pos b hi" h a] a v W window_active [OF w W(3) v(2)]
      window_active [OF wd _ lod] lt
    by (simp add: Let_def)
  have rg: "ring b lo hi' (?d\<lparr>hlast := pos b (Suc hi')\<rparr>)"
    using window_last_down [OF wd hi'(1,2,4)] hi'(3) lod by (simp add: ring_def)
  show thesis using that hi'(1) \<open>hi' < hi\<close> rg rem by blast
qed

lemma remove_between:
  assumes r: "ring b lo hi h" and j: "lo < j" "j < hi" "is_valid h (pos b j)" and a: "a \<noteq> -1"
  shows "history_remove (pos b j) (set_acks (pos b j) a h)
      = Some (pos b (Suc j), drop_slot (pos b j) h) \<and> ring b lo hi (drop_slot (pos b j) h)"
proof -
  have w: "window b lo hi h" and v: "is_valid h (pos b lo)" "is_valid h (pos b hi)"
    using r by (auto simp: ring_def)
  note W = windowD [OF w]
  have wd: "window b lo hi (drop_slot (pos b j) h)" using window_drop [OF w _ j(3)] j by simp
  have ne: "pos b lo \<noteq> pos b j" "pos b hi \<noteq> pos b j" using j W(3) by (simp_all add: pos_inj)
  then have vd: "is_valid (drop_slot (pos b j) h) (pos b lo)" "is_valid (drop_slot (pos b j) h) (pos b hi)"
    using W(1) v by simp_all
  have "history_remove (pos b j) (set_acks (pos b j) a h) = Some (pos b (Suc j), drop_slot (pos b j) h)"
    using history_remove_drop [of "pos b j" h a] a j(3) W ne window_active [OF w W(3) v(2)]
      window_active [OF wd W(3) vd(2)]
    by (simp add: Let_def)
  then show ?thesis using wd vd by (simp add: ring_def)
qed

lemma remove_only:
  assumes r: "ring b lo lo h" and a: "a \<noteq> -1"
  obtains h' where "history_remove (pos b lo) (set_acks (pos b lo) a h) = Some (hlast h, h')"
    "num_active_elements h' = 0" "length (elements h') = max_elements"
    "\<forall>i < max_elements. \<not> is_valid h' i"
proof
  let ?d = "drop_slot (pos b lo) h"
  have w: "window b lo lo h" and v: "is_valid h (pos b lo)" using r by (auto simp: ring_def)
  note W = windowD [OF w]
  have n: "num_active_elements h = 1" using ring_num_one [OF r] by simp
  show "history_remove (pos b lo) (set_acks (pos b lo) a h) = Some (hlast h, ?d\<lparr>hfirst := hlast h\<rparr>)"
    using history_remove_drop [of "pos b lo" h a] a v W(1) n by (simp add: Let_def)
  show "num_active_elements (?d\<lparr>hfirst := hlast h\<rparr>) = 0"
    "length (elements (?d\<lparr>hfirst := hlast h\<rparr>)) = max_elements"
    using n W(1) by simp_all
  have wd: "window b lo lo ?d" using window_drop [OF w _ v] by simp
  show "\<forall>i < max_elements. \<not> is_valid (?d\<lparr>hfirst := hlast h\<rparr>) i"
  proof (intro allI impI)
    fix i assume i: "i < max_elements"
    then have "unat (of_nat i :: seqno) mod max_elements = i"
      by (simp add: max_elements_def unat_of_nat take_bit_nat_eq_self)
    then obtain j where "j < max_elements" "i = pos b j"
      using slot_offset_cases [of "of_nat i" b] by metis
    then show "\<not> is_valid (?d\<lparr>hfirst := hlast h\<rparr>) i"
      using window_inactive [OF wd] n by simp
  qed
qed

section \<open>Reading a slot for an ACK\<close>

text \<open>
  \<open>shrinks\<close>: the later history holds no number the earlier one does not. Every operation that
  writes an ACK has this, and it is what carries soundness through the loops.
\<close>

definition shrinks :: "datagram_history \<Rightarrow> datagram_history \<Rightarrow> bool" where
  "shrinks h h' \<longleftrightarrow> (\<forall>s. history_contains h' s \<longrightarrow> history_contains h s)"

lemma shrinks_refl [simp]: "shrinks h h"
  by (simp add: shrinks_def)

lemma shrinks_trans: "shrinks a b \<Longrightarrow> shrinks b c \<Longrightarrow> shrinks a c"
  by (simp add: shrinks_def)

lemma shrinks_window:
  assumes "window b lo hi h" "window b lo' hi' h'"
    "\<And>k. k < max_elements \<Longrightarrow> is_valid h' (pos b k) \<Longrightarrow> is_valid h (pos b k)"
  shows "shrinks h h'"
  unfolding shrinks_def
proof (intro allI impI)
  fix s assume "history_contains h' s"
  then obtain j where j: "j \<le> hi'" "is_valid h' (pos b j)" "s = b + of_nat j"
    using history_contains_window [OF assms(2)] by auto
  then have "j < max_elements" using windowD(3) [OF assms(2)] by simp
  then show "history_contains h s"
    using assms(3) [of j] j history_contains_window [OF assms(1)] windowD(8) [OF assms(1), of j]
    by blast
qed

lemma window_set_acks:
  assumes "window b lo hi h" "is_valid h (pos b j)" "j < max_elements" "0 \<le> a" "a < max_num_acks"
  shows "window b lo hi (set_acks (pos b j) a h)"
    "k < max_elements \<Longrightarrow> is_valid (set_acks (pos b j) a h) (pos b k) = is_valid h (pos b k)"
proof -
  show v: "is_valid (set_acks (pos b j) a h) (pos b k) = is_valid h (pos b k)" for k
    using assms windowD(1) [OF assms(1)] by auto
  show "window b lo hi (set_acks (pos b j) a h)"
    using assms windowD [OF assms(1)] v unfolding window_def by (auto simp: max_num_acks_def)
qed

lemma ring_set_acks:
  assumes "ring b lo hi h" "is_valid h (pos b j)" "j < max_elements" "0 \<le> a" "a < max_num_acks"
  shows "ring b lo hi (set_acks (pos b j) a h)"
  using assms window_set_acks [OF _ assms(2-)] windowD(1-3) [of b lo hi h] unfolding ring_def by auto

lemma get_for_ack_keep:
  assumes r: "ring b lo hi h" and j: "j \<le> hi" "is_valid h (pos b j)" "acks_at h (pos b j) < 2"
  obtains h' where "get_for_ack (pos b j) h = Some (b + of_nat j, pos b (Suc j), h')"
    "ring b lo hi h'" "\<forall>k < max_elements. is_valid h' (pos b k) = is_valid h (pos b k)"
proof
  let ?h = "set_acks (pos b j) (acks_at h (pos b j) + 1) h"
  have w: "window b lo hi h" using r by (simp add: ring_def)
  have jm: "j < max_elements" using windowD(3) [OF w] j(1) by simp
  note J = windowD(8) [OF w jm j(2)]
  show "get_for_ack (pos b j) h = Some (b + of_nat j, pos b (Suc j), ?h)"
    using J j(3) by (simp add: get_for_ack_def Let_def acks_at_def max_num_acks_def)
  show "ring b lo hi ?h"
    using ring_set_acks [OF r j(2) jm] J j(3) by (simp add: max_num_acks_def)
  show "\<forall>k < max_elements. is_valid ?h (pos b k) = is_valid h (pos b k)"
    using J j(2) windowD(1) [OF w] by auto
qed

lemma get_for_ack_drop:
  assumes w: "window b lo hi h" and j: "j \<le> hi" "is_valid h (pos b j)" "\<not> acks_at h (pos b j) < 2"
  shows "get_for_ack (pos b j) h = map_option (\<lambda>(next, h). (b + of_nat j, next, h))
    (history_remove (pos b j) (set_acks (pos b j) (acks_at h (pos b j) + 1) h))"
    "acks_at h (pos b j) + 1 \<noteq> -1"
proof -
  have jm: "j < max_elements" using windowD(3) [OF w] j(1) by simp
  then show "acks_at h (pos b j) + 1 \<noteq> -1" using windowD(8) [OF w jm j(2)] by simp
  show "get_for_ack (pos b j) h = map_option (\<lambda>(next, h). (b + of_nat j, next, h))
    (history_remove (pos b j) (set_acks (pos b j) (acks_at h (pos b j) + 1) h))"
    using j(3) windowD(8) [OF w jm j(2)]
    by (simp add: get_for_ack_def Let_def acks_at_def max_num_acks_def)
qed

text \<open>A slot before the last: the walk goes on at a later offset, the back of the ring stays.\<close>

lemma get_for_ack_before_last:
  assumes r: "ring b lo hi h" and j: "lo \<le> j" "j < hi" "is_valid h (pos b j)"
  obtains j' lo' h' where "get_for_ack (pos b j) h = Some (b + of_nat j, pos b j', h')"
    "ring b lo' hi h'" "j < j'" "j' \<le> hi" "lo' \<le> j'"
    "\<forall>k < max_elements. is_valid h' (pos b k) \<longrightarrow> is_valid h (pos b k)"
    "\<forall>k < max_elements. j < k \<longrightarrow> is_valid h' (pos b k) = is_valid h (pos b k)"
    "\<forall>k. j < k \<and> k < j' \<longrightarrow> \<not> is_valid h (pos b k)"
proof -
  have w: "window b lo hi h" using r by (simp add: ring_def)
  note W = windowD [OF w]
  have jm: "j < max_elements" and jh: "j \<le> hi" using j(2) W(3) by simp_all
  have dv: "is_valid (drop_slot (pos b j) h) (pos b k) \<longleftrightarrow> k \<noteq> j \<and> is_valid h (pos b k)"
    if "k < max_elements" for k
    using that jm W(1) by (simp add: pos_inj)
  have gap: "\<forall>k. j < k \<and> k < Suc j \<longrightarrow> \<not> is_valid h (pos b k)" by auto
  consider "acks_at h (pos b j) < 2" | "\<not> acks_at h (pos b j) < 2" "j = lo"
    | "\<not> acks_at h (pos b j) < 2" "lo < j"
    using j(1) by linarith
  then show thesis
  proof cases
    case 1
    obtain h' where "get_for_ack (pos b j) h = Some (b + of_nat j, pos b (Suc j), h')"
      "ring b lo hi h'" "\<forall>k < max_elements. is_valid h' (pos b k) = is_valid h (pos b k)"
      using get_for_ack_keep [OF r jh j(3) 1] .
    then show thesis using that [of "Suc j" h' lo] gap j by simp
  next
    case 2
    note D = get_for_ack_drop [OF w jh j(3) 2(1)]
    obtain lo' where "j < lo'" "lo' \<le> hi"
      "ring b lo' hi ((drop_slot (pos b j) h)\<lparr>hfirst := pos b lo'\<rparr>)"
      "\<forall>k. j < k \<and> k < lo' \<longrightarrow> \<not> is_valid h (pos b k)"
      "history_remove (pos b j) (set_acks (pos b j) (acks_at h (pos b j) + 1) h)
         = Some (pos b lo', (drop_slot (pos b j) h)\<lparr>hfirst := pos b lo'\<rparr>)"
      using remove_front [OF r _ D(2)] j(2) 2(2) by metis
    then show thesis
      using that [of lo' "(drop_slot (pos b j) h)\<lparr>hfirst := pos b lo'\<rparr>" lo'] D(1) dv by simp
  next
    case 3
    note D = get_for_ack_drop [OF w jh j(3) 3(1)]
    show thesis
      using that [of "Suc j" "drop_slot (pos b j) h" lo] D(1)
        remove_between [OF r 3(2) j(2,3) D(2)] dv gap j by simp
  qed
qed

lemma get_for_ack_last:
  assumes r: "ring b lo hi h" and lt: "lo < hi"
  obtains hi' nxt h' where "get_for_ack (pos b hi) h = Some (b + of_nat hi, nxt, h')"
    "ring b lo hi' h'" "hi' \<le> hi" "acks_at h (pos b hi) < 2 \<longrightarrow> hi' = hi"
    "\<forall>k < max_elements. k \<noteq> hi \<longrightarrow> is_valid h' (pos b k) = is_valid h (pos b k)"
    "is_valid h' (pos b hi) \<longrightarrow> hi' = hi"
proof -
  have w: "window b lo hi h" and v: "is_valid h (pos b hi)" using r by (simp_all add: ring_def)
  note W = windowD [OF w]
  show thesis
  proof (cases "acks_at h (pos b hi) < 2")
    case True
    obtain h' where "get_for_ack (pos b hi) h = Some (b + of_nat hi, pos b (Suc hi), h')"
      "ring b lo hi h'" "\<forall>k < max_elements. is_valid h' (pos b k) = is_valid h (pos b k)"
      using get_for_ack_keep [OF r order_refl v True] .
    then show thesis using that [of "pos b (Suc hi)" h' hi] by simp
  next
    case False
    note D = get_for_ack_drop [OF w _ v False]
    obtain hi' where "hi' < hi"
      "ring b lo hi' ((drop_slot (pos b hi) h)\<lparr>hlast := pos b (Suc hi')\<rparr>)"
      "history_remove (pos b hi) (set_acks (pos b hi) (acks_at h (pos b hi) + 1) h)
         = Some (pos b (Suc hi'), (drop_slot (pos b hi) h)\<lparr>hlast := pos b (Suc hi')\<rparr>)"
      using remove_back [OF r lt D(2)] by auto
    then show thesis
      using that [of "pos b (Suc hi')" "(drop_slot (pos b hi) h)\<lparr>hlast := pos b (Suc hi')\<rparr>" hi']
        D(1) W(1,3) False by (simp add: pos_inj)
  qed
qed

lemma get_for_ack_only:
  assumes r: "ring b lo lo h"
  obtains nxt h' where "get_for_ack (pos b lo) h = Some (b + of_nat lo, nxt, h')"
    "history_ok h'" "shrinks h h'"
proof -
  have w: "window b lo lo h" and v: "is_valid h (pos b lo)" using r by (simp_all add: ring_def)
  note W = windowD [OF w]
  show thesis
  proof (cases "acks_at h (pos b lo) < 2")
    case True
    obtain h' where g: "get_for_ack (pos b lo) h = Some (b + of_nat lo, pos b (Suc lo), h')"
      "ring b lo lo h'" "\<forall>k < max_elements. is_valid h' (pos b k) = is_valid h (pos b k)"
      using get_for_ack_keep [OF r order_refl v True] .
    then have w': "window b lo lo h'" and v': "is_valid h' (pos b lo)" by (simp_all add: ring_def)
    have "history_ok h'"
      using g(2) windowD(1,3) [OF w'] window_active [OF w' _ v'] by (auto simp: history_ok_def)
    then show thesis using that g(1,3) shrinks_window [OF w w'] by blast
  next
    case False
    note D = get_for_ack_drop [OF w order_refl v False]
    obtain h' where "history_remove (pos b lo) (set_acks (pos b lo) (acks_at h (pos b lo) + 1) h)
        = Some (hlast h, h')"
      "num_active_elements h' = 0" "length (elements h') = max_elements"
      "\<forall>i < max_elements. \<not> is_valid h' i"
      using remove_only [OF r D(2)] .
    then show thesis
      using that D(1) by (auto simp: history_ok_def shrinks_def history_contains_def max_elements_def)
  qed
qed

section \<open>The bitmap\<close>

lemma and_push_bit: "(w :: u8) AND push_bit n 1 \<noteq> 0 \<longleftrightarrow> bit w n"
  by (simp add: push_bit_eq_mult and_exp_eq_0_iff_not_bit)

lemma bit_acked_bit:
  "bit_acked la bits s \<longleftrightarrow>
     (let d = unat (sdist s la) in d \<noteq> 0 \<and> d \<le> length bits * 8 \<and> bit (bits ! ((d - 1) div 8)) ((d - 1) mod 8))"
  unfolding bit_acked_def and_push_bit Let_def ..

lemma length_set_history_bit [simp]: "length (set_history_bit d bits) = length bits"
  by (simp add: set_history_bit_def Let_def)

lemma set_history_bit_nth:
  assumes "i < length bits * 8"
  shows "bit (set_history_bit d bits ! (i div 8)) (i mod 8)
    \<longleftrightarrow> bit (bits ! (i div 8)) (i mod 8) \<or> unat d = Suc i"
proof (cases "d = 0")
  case True
  then show ?thesis by (simp add: set_history_bit_def)
next
  case False
  define j where "j = unat (d - 1)"
  have d: "unat d = Suc j" using False by (simp add: j_def unat_minus_one unat_gt_0)
  have il: "i div 8 < length bits" using assms by (simp add: less_mult_imp_div_less)
  have sd: "set_history_bit d bits = (if j div 8 < length bits
      then bits[j div 8 := bits ! (j div 8) OR push_bit (j mod 8) 1] else bits)"
    using False by (simp add: set_history_bit_def j_def Let_def word_gt_0)
  have ij: "i = j \<longleftrightarrow> i div 8 = j div 8 \<and> i mod 8 = j mod 8"
    by (metis div_mult_mod_eq)
  show ?thesis
  proof (cases "i div 8 = j div 8")
    case True
    then show ?thesis using il ij d unfolding sd by (simp add: bit_simps) auto
  next
    case False
    then show ?thesis using ij d unfolding sd by auto
  qed
qed

lemma bit_acked_set:
  "bit_acked la (set_history_bit (sdist cur la) bits) s \<longleftrightarrow>
     bit_acked la bits s \<or> (s = cur \<and> cur \<noteq> la \<and> unat (sdist cur la) \<le> length bits * 8)"
proof (cases "sdist s la = 0 \<or> \<not> unat (sdist s la) \<le> length bits * 8")
  case True
  then show ?thesis by (auto simp: bit_acked_bit Let_def sdist_eq)
next
  case False
  have "unat (sdist cur la) = unat (sdist s la) \<longleftrightarrow> s = cur"
    by (simp add: sdist_eq word_unat_eq_iff [symmetric]) auto
  moreover have nz: "unat (sdist s la) \<noteq> 0" using False by (simp add: unat_eq_0)
  moreover have "unat (sdist s la) - 1 < length bits * 8" using nz False by linarith
  ultimately show ?thesis
    using False set_history_bit_nth [of "unat (sdist s la) - 1" bits "sdist cur la"]
    by (auto simp: bit_acked_bit Let_def)
qed

lemma bit_acked_zeros [simp]: "\<not> bit_acked la (replicate n 0) s"
  by (auto simp: bit_acked_bit Let_def less_mult_imp_div_less)

section \<open>The walks over the ring\<close>

lemma ack_walk_stop:
  assumes "ring b lo hi h" "j \<le> hi"
  shows "pos b j = last_index h \<or> pos b j = hlast h \<longleftrightarrow>
     j = hi \<or> (j = 0 \<and> Suc hi = max_elements)"
proof -
  have w: "window b lo hi h" using assms by (simp add: ring_def)
  note W = windowD [OF w]
  have "pos b max_elements = pos b 0" by (simp add: pos_def max_elements_def)
  then show ?thesis
    using assms(2) W(3) pos_inj [of j hi b] pos_inj [of j "Suc hi" b] pos_inj [of j 0 b] W(5,6)
    by (cases "Suc hi = max_elements") auto
qed

lemma ack_continuous_ring:
  "ring b lo hi h \<Longrightarrow> lo \<le> j \<Longrightarrow> j \<le> hi \<Longrightarrow> hi \<le> j + fuel \<Longrightarrow>
     \<exists>lo' h'. ack_continuous fuel (pos b j) h = Some h' \<and> ring b lo' hi h' \<and> shrinks h h'"
proof (induction fuel arbitrary: j lo h)
  case 0
  then show ?case using ack_walk_stop by (simp add: ack_continuous.simps) (metis shrinks_refl)
next
  case (Suc fuel)
  note halt = ack_walk_stop [OF Suc.prems(1,3)]
  have w: "window b lo hi h" using Suc.prems(1) by (simp add: ring_def)
  consider (stop) "j = hi \<or> (j = 0 \<and> Suc hi = max_elements)"
    | (valid) "\<not> (j = hi \<or> (j = 0 \<and> Suc hi = max_elements))" "j < hi" "is_valid h (pos b j)"
    | (skip) "\<not> (j = hi \<or> (j = 0 \<and> Suc hi = max_elements))" "j < hi" "\<not> is_valid h (pos b j)"
    using Suc.prems(3) by linarith
  then show ?case
  proof cases
    case stop
    then show ?thesis using halt Suc.prems(1)
      by (subst ack_continuous.simps) auto
  next
    case valid
    obtain j' lo' h' where g: "get_for_ack (pos b j) h = Some (b + of_nat j, pos b j', h')"
      "ring b lo' hi h'" "j < j'" "j' \<le> hi" "lo' \<le> j'"
      "\<forall>k < max_elements. is_valid h' (pos b k) \<longrightarrow> is_valid h (pos b k)"
      using get_for_ack_before_last [OF Suc.prems(1,2) valid(2,3)] by metis
    have "shrinks h h'"
      using shrinks_window [OF w] g(2,6) by (auto simp: ring_def)
    moreover obtain lo'' h'' where "ack_continuous fuel (pos b j') h' = Some h''"
      "ring b lo'' hi h''" "shrinks h' h''"
      using Suc.IH [OF g(2,5,4)] g(3) Suc.prems(4) by auto
    ultimately show ?thesis
      using halt valid g(1) shrinks_trans by (subst ack_continuous.simps) auto
  next
    case skip
    then have "\<exists>lo' h'. ack_continuous fuel (pos b (Suc j)) h = Some h' \<and> ring b lo' hi h' \<and> shrinks h h'"
      using Suc.IH [OF Suc.prems(1)] Suc.prems by auto
    then show ?thesis using halt skip by (subst ack_continuous.simps) auto
  qed
qed

text \<open>What a walk from offset \<open>j\<close> to the back \<open>hi\<close> of the ring does to the bitmap.\<close>

definition bits_walk ::
    "seqno \<Rightarrow> nat \<Rightarrow> seqno \<Rightarrow> nat \<Rightarrow> bytes \<Rightarrow> datagram_history \<Rightarrow> bytes \<Rightarrow> datagram_history \<Rightarrow> bool" where
  "bits_walk b hi la j bits h bits' h' \<longleftrightarrow>
     shrinks h h' \<and> length bits' = length bits
     \<and> (\<forall>s. bit_acked la bits' s \<longrightarrow> bit_acked la bits s \<or> history_contains h s)
     \<and> (\<forall>s. bit_acked la bits s \<longrightarrow> bit_acked la bits' s)
     \<and> (Suc hi < max_elements \<or> 0 < j \<longrightarrow> (\<forall>k. j \<le> k \<longrightarrow> k < hi \<longrightarrow> is_valid h (pos b k) \<longrightarrow>
          b + of_nat k \<noteq> la \<longrightarrow> unat (sdist (b + of_nat k) la) \<le> length bits * 8 \<longrightarrow>
          bit_acked la bits' (b + of_nat k)))"

lemma bits_walk_stop:
  "j = hi \<or> j = 0 \<and> Suc hi = max_elements \<Longrightarrow> bits_walk b hi la j bits h bits h"
  by (auto simp: bits_walk_def)

lemma bits_walk_skip:
  assumes "bits_walk b hi la (Suc j) bits h bits' h'" "\<not> is_valid h (pos b j)"
  shows "bits_walk b hi la j bits h bits' h'"
proof -
  have "Suc j \<le> k" if "j \<le> k" "is_valid h (pos b k)" for k
    using that assms(2) by (metis Suc_leI le_neq_implies_less)
  then show ?thesis using assms(1) unfolding bits_walk_def by blast
qed

lemma bits_walk_step:
  assumes walk: "bits_walk b hi la j' (set_history_bit (sdist (b + of_nat j) la) bits) h1 bits' h'"
    and sh: "shrinks h h1" and cj: "history_contains h (b + of_nat j)" and "j < j'" and hi: "hi < max_elements"
    and keep: "\<forall>k < max_elements. j < k \<longrightarrow> is_valid h1 (pos b k) = is_valid h (pos b k)"
    and gap: "\<forall>k. j < k \<and> k < j' \<longrightarrow> \<not> is_valid h (pos b k)"
  shows "bits_walk b hi la j bits h bits' h'"
  unfolding bits_walk_def
proof (intro conjI allI impI)
  note set = bit_acked_set [of la "b + of_nat j" bits]
  show "shrinks h h'" using shrinks_trans [OF sh] walk unfolding bits_walk_def by blast
  show "length bits' = length bits" using walk by (simp add: bits_walk_def)
  show "bit_acked la bits s \<or> history_contains h s" if "bit_acked la bits' s" for s
    using that walk sh cj set unfolding bits_walk_def shrinks_def by blast
  show "bit_acked la bits' s" if "bit_acked la bits s" for s
    using that walk set unfolding bits_walk_def by blast
  fix k assume k: "j \<le> k" "k < hi" "is_valid h (pos b k)" "b + of_nat k \<noteq> la"
    "unat (sdist (b + of_nat k) la) \<le> length bits * 8"
  show "bit_acked la bits' (b + of_nat k)"
  proof (cases "k = j")
    case True
    then show ?thesis using walk k set unfolding bits_walk_def by blast
  next
    case False
    then have "j' \<le> k" using k(1,3) gap [rule_format, of k] by (meson le_neq_implies_less not_le)
    then show ?thesis
      using walk k False \<open>j < j'\<close> keep [rule_format, of k] hi unfolding bits_walk_def by auto
  qed
qed

lemma ack_bits_ring:
  "ring b lo hi h \<Longrightarrow> lo \<le> j \<Longrightarrow> j \<le> hi \<Longrightarrow> hi \<le> j + fuel \<Longrightarrow>
     \<exists>bits' lo' h'. ack_bits fuel la (pos b j) bits h = Some (bits', h') \<and> ring b lo' hi h'
       \<and> bits_walk b hi la j bits h bits' h'"
proof (induction fuel arbitrary: j lo h bits)
  case 0
  then have j: "j = hi" by simp
  then have "ack_bits 0 la (pos b j) bits h = Some (bits, h)"
    using ack_walk_stop [OF "0.prems"(1,3)] by (subst ack_bits.simps) simp
  then show ?case using "0.prems"(1) bits_walk_stop j by blast
next
  case (Suc fuel)
  note halt = ack_walk_stop [OF Suc.prems(1,3)]
  have w: "window b lo hi h" using Suc.prems(1) by (simp add: ring_def)
  consider (stop) "j = hi \<or> (j = 0 \<and> Suc hi = max_elements)"
    | (valid) "\<not> (j = hi \<or> (j = 0 \<and> Suc hi = max_elements))" "j < hi" "is_valid h (pos b j)"
    | (skip) "\<not> (j = hi \<or> (j = 0 \<and> Suc hi = max_elements))" "j < hi" "\<not> is_valid h (pos b j)"
    using Suc.prems(3) by linarith
  then show ?case
  proof cases
    case stop
    then have "ack_bits (Suc fuel) la (pos b j) bits h = Some (bits, h)"
      using halt by (subst ack_bits.simps) simp
    then show ?thesis using Suc.prems(1) bits_walk_stop [OF stop] by blast
  next
    case valid
    obtain j' lo' h1 where g: "get_for_ack (pos b j) h = Some (b + of_nat j, pos b j', h1)"
      "ring b lo' hi h1" "j < j'" "j' \<le> hi" "lo' \<le> j'"
      "\<forall>k < max_elements. is_valid h1 (pos b k) \<longrightarrow> is_valid h (pos b k)"
      "\<forall>k < max_elements. j < k \<longrightarrow> is_valid h1 (pos b k) = is_valid h (pos b k)"
      "\<forall>k. j < k \<and> k < j' \<longrightarrow> \<not> is_valid h (pos b k)"
      using get_for_ack_before_last [OF Suc.prems(1,2) valid(2,3)] by metis
    let ?bits = "set_history_bit (sdist (b + of_nat j) la) bits"
    have "hi \<le> j' + fuel" using g(3) Suc.prems(4) by simp
    then obtain bits' lo'' h' where IH: "ack_bits fuel la (pos b j') ?bits h1 = Some (bits', h')"
      "ring b lo'' hi h'" "bits_walk b hi la j' ?bits h1 bits' h'"
      using Suc.IH [OF g(2,5,4)] by blast
    have "ack_bits (Suc fuel) la (pos b j) bits h = Some (bits', h')"
      using halt valid g(1) IH(1) by (subst ack_bits.simps) auto
    moreover have "bits_walk b hi la j bits h bits' h'"
    proof (rule bits_walk_step [OF IH(3) _ _ g(3) windowD(3) [OF w] g(7,8)])
      show "shrinks h h1" using shrinks_window [OF w] g(2,6) unfolding ring_def by blast
      show "history_contains h (b + of_nat j)"
        using history_contains_window [OF w] Suc.prems(2,3) valid(3) by blast
    qed
    ultimately show ?thesis using IH(2) by blast
  next
    case skip
    obtain bits' lo' h' where IH: "ack_bits fuel la (pos b (Suc j)) bits h = Some (bits', h')"
      "ring b lo' hi h'" "bits_walk b hi la (Suc j) bits h bits' h'"
      using Suc.IH [OF Suc.prems(1), of "Suc j" bits] Suc.prems skip(2) by auto
    have "ack_bits (Suc fuel) la (pos b j) bits h = Some (bits', h')"
      using halt skip IH(1) by (subst ack_bits.simps) auto
    then show ?thesis using IH(2) bits_walk_skip [OF IH(3) skip(3)] by blast
  qed
qed

section \<open>ACK frames\<close>

fun ack_frame :: "endian \<Rightarrow> ack_data \<Rightarrow> bytes" where
  "ack_frame e KeepAlive = [0x20]"
| "ack_frame e (Range fa la) =
     (if fa = la then 0 # bytes16 e la else 0x40 # bytes16 e la @ bytes16 e fa)"
| "ack_frame e (Bits la bits) = (0x80 OR of_nat (length bits)) # bytes16 e la @ bits"

fun ack_frame_ok :: "ack_data \<Rightarrow> bool" where
  "ack_frame_ok (Bits la bits) = (bits \<noteq> [] \<and> length bits \<le> max_num_bytes)"
| "ack_frame_ok _ = True"

lemma obind_simps [simp]:
  "m rb = (Inr x, rb') \<Longrightarrow> obind m f rb = f x rb'"
  "m rb = (Inl e, rb') \<Longrightarrow> obind m f rb = (None, rb')"
  by (simp_all add: obind_def)

lemma bits_flag:
  assumes "n \<le> 64"
  shows "((0x80 OR of_nat n) :: u8) AND 0x80 \<noteq> 0" "unat (((0x80 OR of_nat n) :: u8) AND 0x7f) = n"
proof -
  have "bit (((0x80 OR of_nat n) :: u8) AND 0x80) 7" by (simp add: bit_simps)
  then show "((0x80 OR of_nat n) :: u8) AND 0x80 \<noteq> 0" by (metis bit_0_eq bot_apply bot_bool_def)
  have "((0x80 OR of_nat n) :: u8) AND 0x7f = (0x80 AND 0x7f) OR (of_nat n AND 0x7f)"
    by (simp only: bit.conj_disj_distrib2)
  also have "\<dots> = of_nat n AND mask 7" by (simp add: mask_eq_exp_minus_1)
  also have "\<dots> = of_nat n"
    using assms by (simp add: less_mask_eq word_less_nat_alt unat_of_nat take_bit_nat_eq_self)
  finally show "unat (((0x80 OR of_nat n) :: u8) AND 0x7f) = n"
    using assms by (simp add: unat_of_nat take_bit_nat_eq_self)
qed

lemma read_ack_frame:
  assumes "ack_frame_ok ack" "remaining rb = ack_frame (rendian rb) ack @ rest"
  shows "read_ack_data_frame rb = (Some ack, advance (length (ack_frame (rendian rb) ack)) rb)"
proof (cases ack)
  case KeepAlive
  then show ?thesis using assms by (simp add: read_ack_data_frame_def)
next
  case (Range fa la)
  then show ?thesis using assms(2) by (auto simp: read_ack_data_frame_def split: if_splits)
next
  case (Bits la bits)
  then have "length bits \<le> 64" "bits \<noteq> []" using assms(1) by (simp_all add: max_num_bytes_def)
  then show ?thesis
    using assms(2) Bits bits_flag [of "length bits"]
    by (simp add: read_ack_data_frame_def max_num_bytes_def Let_def)
qed

lemma ring_ok: "ring b lo hi h \<Longrightarrow> history_ok h"
  using window_active windowD(1-3) [of b lo hi h] unfolding history_ok_def ring_def
  by (metis le_less_trans)

lemma unat_offset_diff:
  "i \<le> j \<Longrightarrow> j < 65536 \<Longrightarrow> unat (((b :: seqno) + of_nat j) - (b + of_nat i)) = j - i"
proof -
  assume "i \<le> j" "j < 65536"
  then have "((b :: seqno) + of_nat j) - (b + of_nat i) = of_nat (j - i)" by (simp add: of_nat_diff)
  then show ?thesis using \<open>j < 65536\<close> by (simp add: unat_of_nat take_bit_nat_eq_self)
qed

lemma wrapped_sum_between:
  fixes x y n :: nat
  assumes "x < 65536" "y < 65536" "n < 32768" "n = (if x + y < 65536 then x + y else x + y - 65536)"
  shows "(if n = 0 then y = 0 else x = 0 \<or> y = 0 \<or> (0 < x \<and> x < 32768) \<and> (0 < y \<and> y < 32768)) \<longleftrightarrow> x \<le> n"
  using assms by (cases "x + y < 65536") auto

lemma acked_by_Range:
  assumes "unat (la - fa) < 32768"
  shows "acked_by (Range fa la) s \<longleftrightarrow> unat (s - fa) \<le> unat (la - fa)"
proof -
  have sum: "unat (la - fa) = (if unat (s - fa) + unat (la - s) < 65536
      then unat (s - fa) + unat (la - s) else unat (s - fa) + unat (la - s) - 65536)"
    using unat_plus_if' [of "s - fa" "la - s"] by simp
  have z: "s = fa \<longleftrightarrow> unat (s - fa) = 0" "s = la \<longleftrightarrow> unat (la - s) = 0" "fa = la \<longleftrightarrow> unat (la - fa) = 0"
    by (auto simp: unat_eq_0)
  show ?thesis
    unfolding acked_by.simps z seq_less_than_unat
    by (rule wrapped_sum_between) (use assms sum unat_u16_less in auto)
qed


lemma ring_continuous:
  assumes r: "ring b lo hi h"
  shows "num_active_elements h - 1 = hi - lo \<longleftrightarrow> (\<forall>j. lo \<le> j \<and> j \<le> hi \<longrightarrow> is_valid h (pos b j))"
    "num_active_elements h - 1 \<le> hi - lo"
proof -
  let ?V = "{j. j \<le> hi \<and> is_valid h (pos b j)}"
  have w: "window b lo hi h" and v: "is_valid h (pos b hi)" using r by (simp_all add: ring_def)
  note W = windowD [OF w]
  have sub: "?V \<subseteq> {lo..hi}" using W(3,8) by auto
  have n: "num_active_elements h = card ?V" "num_active_elements h \<noteq> 0"
    using W(7) window_active [OF w W(3) v] by auto
  show "num_active_elements h - 1 \<le> hi - lo"
    using card_mono [OF _ sub] n by simp
  have "num_active_elements h - 1 = hi - lo \<longleftrightarrow> card ?V = card {lo..hi}"
    unfolding n(1) [symmetric] card_atLeastAtMost using n(2) W(2) by linarith
  also have "\<dots> \<longleftrightarrow> ?V = {lo..hi}" using card_subset_eq [OF _ sub] by auto
  also have "\<dots> \<longleftrightarrow> (\<forall>j. lo \<le> j \<and> j \<le> hi \<longrightarrow> is_valid h (pos b j))" using sub by auto
  finally show "num_active_elements h - 1 = hi - lo \<longleftrightarrow> (\<forall>j. lo \<le> j \<and> j \<le> hi \<longrightarrow> is_valid h (pos b j))" .
qed


text \<open>
  An ACK frame is \<open>sound\<close> for a history when it acknowledges only numbers the history holds, and
  \<open>complete\<close> when it acknowledges all of them.
\<close>

definition ack_sound :: "datagram_history \<Rightarrow> ack_data \<Rightarrow> bool" where
  "ack_sound h ack \<longleftrightarrow> (\<forall>s. acked_by ack s \<longrightarrow> history_contains h s)"

definition ack_complete :: "datagram_history \<Rightarrow> ack_data \<Rightarrow> bool" where
  "ack_complete h ack \<longleftrightarrow> (\<forall>s. history_contains h s \<longrightarrow> acked_by ack s)"

lemma ack_range_exact:
  assumes r: "ring b lo hi h" and all: "\<forall>j. lo \<le> j \<and> j \<le> hi \<longrightarrow> is_valid h (pos b j)"
  shows "acked_by (Range (b + of_nat lo) (b + of_nat hi)) s \<longleftrightarrow> history_contains h s"
proof -
  have w: "window b lo hi h" using r by (simp add: ring_def)
  have b: "lo \<le> hi" "hi < 512" using windowD(2,3) [OF w] by (simp_all add: max_elements_def)
  let ?fa = "b + of_nat lo"
  have "acked_by (Range ?fa (b + of_nat hi)) s \<longleftrightarrow> unat (s - ?fa) \<le> hi - lo"
    using acked_by_Range [of "b + of_nat hi" ?fa s] unat_offset_diff [of lo hi b] b by simp
  also have "\<dots> \<longleftrightarrow> (\<exists>j. lo \<le> j \<and> j \<le> hi \<and> s = b + of_nat j)"
  proof
    assume "unat (s - ?fa) \<le> hi - lo"
    then show "\<exists>j. lo \<le> j \<and> j \<le> hi \<and> s = b + of_nat j"
      using b by (intro exI [of _ "lo + unat (s - ?fa)"]) simp
  next
    assume "\<exists>j. lo \<le> j \<and> j \<le> hi \<and> s = b + of_nat j"
    then show "unat (s - ?fa) \<le> hi - lo" using unat_offset_diff [of lo _ b] b by fastforce
  qed
  finally show ?thesis using history_contains_window [OF w] all by blast
qed

lemma ack_bits_exact:
  assumes r: "ring b lo hi h" and lt: "lo < hi" and n: "n = min ((hi - lo + 7) div 8) max_num_bytes"
  obtains bits nxt h1 h2 where
    "get_for_ack (last_index h) h = Some (b + of_nat hi, nxt, h1)"
    "ack_bits max_elements (b + of_nat hi) (hfirst h) (replicate n 0) h1 = Some (bits, h2)"
    "length bits = n" "history_ok h2" "shrinks h h2"
    "ack_sound h (Bits (b + of_nat hi) bits)"
    "acks_at h (last_index h) < 2 \<Longrightarrow> \<not> history_is_full h \<Longrightarrow> ack_complete h (Bits (b + of_nat hi) bits)"
proof -
  let ?la = "b + of_nat hi"
  have w: "window b lo hi h" and v: "is_valid h (pos b lo)" "is_valid h (pos b hi)"
    using r by (simp_all add: ring_def)
  note W = windowD [OF w]
  have hi: "hi < 512" using W(3) by (simp add: max_elements_def)
  have n8: "hi - lo \<le> n * 8" "n \<noteq> 0" using n lt hi by (auto simp: max_num_bytes_def)
  obtain hi' nxt h1 where g: "get_for_ack (pos b hi) h = Some (?la, nxt, h1)"
    "ring b lo hi' h1" "hi' \<le> hi" "acks_at h (pos b hi) < 2 \<longrightarrow> hi' = hi"
    "\<forall>k < max_elements. k \<noteq> hi \<longrightarrow> is_valid h1 (pos b k) = is_valid h (pos b k)"
    using get_for_ack_last [OF r lt] by metis
  have w1: "window b lo hi' h1" using g(2) by (simp add: ring_def)
  have sh: "shrinks h h1" using shrinks_window [OF w w1] g(5) v(2) by metis
  obtain bits lo' h2 where a: "ack_bits max_elements ?la (pos b lo) (replicate n 0) h1 = Some (bits, h2)"
    "ring b lo' hi' h2" "bits_walk b hi' ?la lo (replicate n 0) h1 bits h2"
    using ack_bits_ring [OF g(2), of lo max_elements ?la "replicate n 0"] windowD(2,3) [OF w1] by auto
  have sound: "history_contains h s" if "bit_acked ?la bits s" for s
    using that a(3) sh unfolding bits_walk_def shrinks_def by auto
  have cla: "history_contains h ?la" using history_contains_window [OF w] W(2) v(2) by blast
  have complete: "acked_by (Bits ?la bits) s"
    if "acks_at h (pos b hi) < 2" "\<not> history_is_full h" "history_contains h s" for s
  proof -
    note c = that(3)
    obtain k where k: "lo \<le> k" "k \<le> hi" "is_valid h (pos b k)" "s = b + of_nat k"
      using c history_contains_window [OF w] by blast
    have "Suc hi < max_elements \<or> 0 < lo"
      using that(2) W(3-5) window_active [OF w W(3) v(2)]
      by (cases "Suc hi = max_elements"; cases "lo = 0") (auto simp: history_is_full_def pos_def)
    moreover have "hi' = hi" using that(1) g(4) by simp
    moreover have "unat (sdist s ?la) = hi - k" using unat_offset_diff [of k hi b] k hi by (simp add: sdist_eq)
    ultimately show ?thesis
      using a(3) k g(5) n8 hi W(3) unfolding bits_walk_def
      by (cases "k = hi") (auto simp: seq_less_than_unat sdist_eq)
  qed
  show thesis
  proof (rule that [of nxt h1 bits h2])
    show "get_for_ack (last_index h) h = Some (?la, nxt, h1)" using g(1) W(6) by simp
    show "ack_bits max_elements ?la (hfirst h) (replicate n 0) h1 = Some (bits, h2)" using a(1) W(4) by simp
    show "length bits = n" using a(3) by (simp add: bits_walk_def)
    show "history_ok h2" using ring_ok [OF a(2)] .
    show "shrinks h h2" using shrinks_trans [OF sh] a(3) by (simp add: bits_walk_def)
    show "ack_sound h (Bits ?la bits)" using sound cla by (auto simp: ack_sound_def)
    show "ack_complete h (Bits ?la bits)" if "acks_at h (last_index h) < 2" "\<not> history_is_full h"
      using complete that unfolding W(6) ack_complete_def by blast
  qed
qed


lemma write_ack_frame:
  "write_u8 0x20 wb = wb\<lparr>wdata := wdata wb @ ack_frame (wendian wb) KeepAlive\<rparr>"
  "write_u16 la (write_u8 0 wb) = wb\<lparr>wdata := wdata wb @ ack_frame (wendian wb) (Range la la)\<rparr>"
  "fa \<noteq> la \<Longrightarrow> write_u16 fa (write_u16 la (write_u8 0x40 wb))
     = wb\<lparr>wdata := wdata wb @ ack_frame (wendian wb) (Range fa la)\<rparr>"
  "write_bytes bits (write_u16 la (write_u8 (0x80 OR of_nat (length bits)) wb))
     = wb\<lparr>wdata := wdata wb @ ack_frame (wendian wb) (Bits la bits)\<rparr>"
  by (simp_all add: write_u8_def write_u16_def write_bytes_def)

lemma write_ack_history_range:
  assumes "num_active_elements h \<noteq> 0" "seq_at h (hfirst h) = fa" "fa \<noteq> la"
    "get_for_ack (last_index h) h = Some (la, nxt, h1)"
    "sdist fa la = of_nat (num_active_elements h - 1)" "ack_continuous max_elements (hfirst h) h1 = Some h2"
  shows "write_ack_history h wb =
    Some (Some la, h2, wb\<lparr>wdata := wdata wb @ ack_frame (wendian wb) (Range fa la)\<rparr>)"
  using assms unfolding write_ack_history_def Let_def by (simp add: write_ack_frame(3))

lemma write_ack_history_ring:
  assumes r: "ring b lo hi h"
  obtains ack h' where
    "write_ack_history h wb =
       Some (Some (b + of_nat hi), h', wb\<lparr>wdata := wdata wb @ ack_frame (wendian wb) ack\<rparr>)"
    "ack_frame_ok ack" "ack_sound h ack" "history_ok h'" "shrinks h h'"
    "acks_at h (last_index h) < 2 \<Longrightarrow> \<not> history_is_full h \<Longrightarrow> ack_complete h ack"
proof -
  let ?la = "b + of_nat hi" and ?fa = "b + of_nat lo"
  have w: "window b lo hi h" and v: "is_valid h (pos b lo)" "is_valid h (pos b hi)"
    using r by (simp_all add: ring_def)
  note W = windowD [OF w]
  have hi: "hi < 512" and num: "num_active_elements h \<noteq> 0" "num_active_elements h - 1 \<le> hi - lo"
    using W(3) window_active [OF w W(3) v(2)] ring_continuous(2) [OF r] by (simp_all add: max_elements_def)
  have fa: "seq_at h (hfirst h) = ?fa" using W(8) [of lo] v(1) W(2-4) by simp
  have d: "unat (sdist ?fa ?la) = hi - lo" using unat_offset_diff [of lo hi b] W(2) hi by (simp add: sdist_eq)
  have d0: "?fa = ?la \<longleftrightarrow> lo = hi" using d W(2) by (metis diff_is_0_eq' le_antisym diff_self_eq_0 sdist_0 unat_eq_0 diff_is_0_eq)
  have dn: "sdist ?fa ?la = of_nat (num_active_elements h - 1) \<longleftrightarrow> num_active_elements h - 1 = hi - lo"
    using d num(2) hi by (auto simp: word_unat_eq_iff unat_of_nat take_bit_nat_eq_self)
  consider (single) "lo = hi" | (range) "lo < hi" "num_active_elements h - 1 = hi - lo"
    | (bits) "lo < hi" "num_active_elements h - 1 \<noteq> hi - lo"
    using W(2) by linarith
  then show thesis
  proof cases
    case single
    then obtain nxt h' where "get_for_ack (last_index h) h = Some (?la, nxt, h')" "history_ok h'" "shrinks h h'"
      using get_for_ack_only [of b hi h] r W(6) by metis
    moreover have "acked_by (Range ?la ?la) s \<longleftrightarrow> history_contains h s" for s
      using ack_range_exact [OF r, of s] v(1) single le_antisym by metis
    ultimately show thesis
      using that [of h' "Range ?la ?la"] num fa single
      by (simp add: write_ack_history_def Let_def write_ack_frame ack_sound_def ack_complete_def sdist_eq)
  next
    case range
    obtain hi' nxt h1 where g: "get_for_ack (last_index h) h = Some (?la, nxt, h1)" "ring b lo hi' h1"
      "hi' \<le> hi" "\<forall>k < max_elements. k \<noteq> hi \<longrightarrow> is_valid h1 (pos b k) = is_valid h (pos b k)"
      using get_for_ack_last [OF r range(1)] W(6) by metis
    have w1: "window b lo hi' h1" using g(2) by (simp add: ring_def)
    obtain lo' h2 where a: "ack_continuous max_elements (hfirst h) h1 = Some h2" "ring b lo' hi' h2" "shrinks h1 h2"
      using ack_continuous_ring [OF g(2), of lo max_elements] windowD(2,3) [OF w1] W(4) by auto
    have "shrinks h h2" using shrinks_trans [OF shrinks_window [OF w w1] a(3)] g(4) v(2) by metis
    moreover have "acked_by (Range ?fa ?la) s \<longleftrightarrow> history_contains h s" for s
      using ack_range_exact [OF r] ring_continuous(1) [OF r] range(2) by blast
    then have "ack_sound h (Range ?fa ?la)" "ack_complete h (Range ?fa ?la)"
      unfolding ack_sound_def ack_complete_def by blast+
    moreover have "?fa \<noteq> ?la" "sdist ?fa ?la = of_nat (num_active_elements h - 1)"
      using d0 range(1) dn range(2) by blast+
    then have "write_ack_history h wb =
        Some (Some ?la, h2, wb\<lparr>wdata := wdata wb @ ack_frame (wendian wb) (Range ?fa ?la)\<rparr>)"
      by (rule write_ack_history_range [OF num(1) fa _ g(1) _ a(1)])
    moreover have "ack_frame_ok (Range ?fa ?la)" by simp
    ultimately show thesis using that ring_ok [OF a(2)] by blast
  next
    case bits
    define n where "n = min ((hi - lo + 7) div 8) max_num_bytes"
    obtain bts nxt h1 h2 where
      g: "get_for_ack (last_index h) h = Some (?la, nxt, h1)"
        "ack_bits max_elements ?la (hfirst h) (replicate n 0) h1 = Some (bts, h2)"
        "length bts = n" "history_ok h2" "shrinks h h2" "ack_sound h (Bits ?la bts)"
        "acks_at h (last_index h) < 2 \<Longrightarrow> \<not> history_is_full h \<Longrightarrow> ack_complete h (Bits ?la bts)"
      using ack_bits_exact [OF r bits(1) n_def] by metis
    have "write_ack_history h wb =
        Some (Some ?la, h2, wb\<lparr>wdata := wdata wb @ ack_frame (wendian wb) (Bits ?la bts)\<rparr>)"
      using num fa g(1,2) dn d0 bits d g(3) write_ack_frame(4) [of bts ?la wb]
      by (simp add: write_ack_history_def Let_def n_def)
    moreover have "ack_frame_ok (Bits ?la bts)"
      using g(3) bits(1) by (auto simp: n_def max_num_bytes_def)
    ultimately show thesis using that g(4-7) by blast
  qed
qed


section \<open>Insertion\<close>

lemma history_ok_cases:
  assumes "history_ok h"
  obtains (empty) "num_active_elements h = 0" "\<forall>i < max_elements. \<not> is_valid h i"
      "length (elements h) = max_elements"
    | (ring) b lo hi where "ring b lo hi h"
  using assms unfolding history_ok_def by (metis (full_types))

lemma ring_rebase:
  assumes "ring b lo hi h" shows "ring (b + of_nat lo) 0 (hi - lo) h"
proof -
  have w: "window b lo hi h" using assms by (simp add: ring_def)
  note W = windowD [OF w]
  have inj: "bij_betw (\<lambda>j. lo + j) {j. j \<le> hi - lo \<and> is_valid h (pos b (lo + j))}
      {j. j \<le> hi \<and> is_valid h (pos b j)}"
    using W(2,3,8)
    by (intro bij_betw_byWitness [where f' = "\<lambda>j. j - lo"]) auto
  have over: "j \<le> hi - lo" "seq_at h (pos b (lo + j)) = b + of_nat (lo + j)"
      "0 \<le> acks_at h (pos b (lo + j)) \<and> acks_at h (pos b (lo + j)) < max_num_acks"
    if "j < max_elements" "is_valid h (pos b (lo + j))" for j
  proof -
    have "lo + j < max_elements"
    proof (rule ccontr)
      assume "\<not> lo + j < max_elements"
      then obtain k where k: "lo + j = max_elements + k" by (metis le_Suc_ex not_le)
      then have "pos b (lo + j) = pos b k" unfolding pos_def by (metis add.left_commute mod_add_self1)
      then show False using W(8) [of k] that k W(2,3) by simp
    qed
    then show "j \<le> hi - lo" "seq_at h (pos b (lo + j)) = b + of_nat (lo + j)"
      "0 \<le> acks_at h (pos b (lo + j)) \<and> acks_at h (pos b (lo + j)) < max_num_acks"
      using W(8) [of "lo + j"] that by auto
  qed
  have "window (b + of_nat lo) 0 (hi - lo) h"
    unfolding window_def pos_rebase
    using W bij_betw_same_card [OF inj] over by (auto simp: add.assoc)
  then show ?thesis using assms W(2) by (simp add: ring_def pos_rebase)
qed


lemma window_extend:
  assumes w: "window b 0 hi h" and m: "hi \<le> m" "m < max_elements"
  shows "window b 0 m (h\<lparr>hlast := pos b (Suc m)\<rparr>)"
proof -
  have "{j. j \<le> m \<and> is_valid h (pos b j)} = {j. j \<le> hi \<and> is_valid h (pos b j)}"
    using windowD(8) [OF w] m by (auto dest: le_less_trans)
  then show ?thesis using w m windowD(8) [OF w] unfolding window_def by fastforce
qed

lemma window_fill:
  assumes w: "window b 0 hi h" and m: "m \<le> hi" "\<not> is_valid h (pos b m)"
  shows "window b 0 hi (set_element (pos b m) (b + of_nat m)
    (h\<lparr>num_active_elements := num_active_elements h + 1\<rparr>))" (is "window b 0 hi ?h")
proof -
  note W = windowD [OF w]
  have "{j. j \<le> hi \<and> is_valid ?h (pos b j)} = insert m {j. j \<le> hi \<and> is_valid h (pos b j)}"
    using W(1,3) m by (auto simp: pos_inj)
  then have "num_active_elements ?h = card {j. j \<le> hi \<and> is_valid ?h (pos b j)}"
    using W(7) m by simp
  then show ?thesis
    using w m unfolding window_def by (auto simp: pos_inj max_num_acks_def)
qed

lemma history_contains_set_element:
  assumes "length (elements h) = max_elements" "\<not> is_valid h (unat s mod max_elements)"
  shows "history_contains (set_element (unat s mod max_elements) s h) t \<longleftrightarrow> t = s \<or> history_contains h t"
proof -
  have "unat s mod max_elements < length (elements h)" using assms(1) by (simp add: max_elements_def)
  then show ?thesis
    using assms(2) by (auto simp: history_contains_def)
qed

lemma field_updates_keep_contains [simp]:
  "history_contains (h\<lparr>hfirst := a\<rparr>) = history_contains h"
  "history_contains (h\<lparr>hlast := a\<rparr>) = history_contains h"
  "history_contains (h\<lparr>num_active_elements := n\<rparr>) = history_contains h"
  by (auto simp: history_contains_def fun_eq_iff)

lemma evict_nothing:
  "\<not> seq_less_than (seq_at h (hfirst h)) s \<Longrightarrow> evict fuel s h = Some h"
  by (subst evict.simps) simp

lemma insert_ring:
  assumes r: "ring b 0 hi h" and m: "m = unat (sn - b)" "m < max_elements"
  obtains h' where "history_insert sn h = Some (\<not> history_contains h sn, h')"
    "ring b 0 (max hi m) h'" "\<forall>s. history_contains h' s \<longleftrightarrow> s = sn \<or> history_contains h s"
proof -
  have w: "window b 0 hi h" and v: "is_valid h (pos b 0)" "is_valid h (pos b hi)"
    using r by (simp_all add: ring_def)
  note W = windowD [OF w]
  have sn: "sn = b + of_nat m" using m(1) by simp
  have off: "unat sn mod max_elements = pos b m" using slot_eq_pos [of sn b] m(1) by simp
  have num: "num_active_elements h \<noteq> 0" using window_active [OF w W(3) v(2)] .
  have hi: "hi < 512" "m < 512" using W(3) m(2) by (simp_all add: max_elements_def)
  have la: "seq_at h (last_index h) = b + of_nat hi" using W(8) [OF W(3) v(2)] W(6) by simp
  have newer: "seq_less_than (seq_at h (last_index h)) sn \<longleftrightarrow> hi < m"
  proof (cases "hi < m")
    case True
    then show ?thesis using unat_offset_diff [of hi m b] hi by (simp add: la sn seq_less_than_unat)
  next
    case False
    then have "unat ((b + of_nat hi) - sn) = hi - m" using unat_offset_diff [of m hi b] hi sn by simp
    then show ?thesis
      using False unat_minus_sum [of sn "b + of_nat hi"] hi by (auto simp: la seq_less_than_unat split: if_splits)
  qed
  consider (append) "hi < m" | (dup) "m \<le> hi" "is_valid h (pos b m)" | (fill) "m \<le> hi" "\<not> is_valid h (pos b m)"
    by linarith
  then show thesis
  proof cases
    case append
    have fs: "seq_at h (hfirst h) = b" using W(8) [of 0] v(1) W(3,4) by simp
    have "\<not> seq_less_than b (sn - (of_nat max_elements - 1))"
    proof -
      have "b - (sn - (of_nat max_elements - 1)) = of_nat (511 - m)"
        using hi by (simp add: sn max_elements_def of_nat_diff)
      then have "unat (b - (sn - (of_nat max_elements - 1))) = 511 - m"
        by (simp add: unat_of_nat take_bit_nat_eq_self)
      then show ?thesis
        using unat_minus_sum [of b "sn - (of_nat max_elements - 1)"]
        by (auto simp: seq_less_than_unat split: if_splits)
    qed
    then have ev: "evict max_elements (sn - (of_nat max_elements - 1)) h = Some h"
      using evict_nothing fs by simp
    let ?h1 = "h\<lparr>hlast := pos b (Suc m)\<rparr>"
    have adv: "advance_last max_elements (pos b (Suc m)) h = Some ?h1"
      using advance_last_finds [of "Suc m" "Suc hi" max_elements h b] append hi W(5)
      by (simp add: max_elements_def)
    have w1: "window b 0 m ?h1" using window_extend [OF w] append m(2) by simp
    have nv: "\<not> is_valid h (pos b m)" using W(8) [OF m(2)] append by auto
    let ?h2 = "set_element (pos b m) sn (?h1\<lparr>num_active_elements := num_active_elements h + 1\<rparr>)"
    have "window b 0 m ?h2" using window_fill [OF w1, of m] nv sn by simp
    then have "ring b 0 (max hi m) ?h2" using v append W(1) by (simp add: ring_def max_def)
    moreover have "history_contains ?h2 s \<longleftrightarrow> s = sn \<or> history_contains h s" for s
      using history_contains_set_element [of "?h1\<lparr>num_active_elements := num_active_elements h + 1\<rparr>" sn s]
        W(1) nv off by simp
    moreover have "\<not> history_contains h sn" using nv off by (simp add: history_contains_def)
    ultimately show thesis
      using that [of ?h2] ev adv num newer append off
      by (simp add: history_insert_def Let_def last_index_def)
  next
    case dup
    then have "history_contains h sn" using history_contains_window [OF w] sn by blast
    moreover from this have "history_insert sn h = Some (False, h)"
      using dup(1) num newer off by (simp add: history_insert_def Let_def history_contains_def)
    moreover have "max hi m = hi" using dup(1) by simp
    ultimately show thesis using that [of h] r by auto
  next
    case fill
    let ?h2 = "set_element (pos b m) sn (h\<lparr>num_active_elements := num_active_elements h + 1\<rparr>)"
    have "window b 0 hi ?h2" using window_fill [OF w fill] sn by simp
    then have "ring b 0 (max hi m) ?h2" using v fill W(1) by (simp add: ring_def max_def)
    moreover have "history_contains ?h2 s \<longleftrightarrow> s = sn \<or> history_contains h s" for s
      using history_contains_set_element [of "h\<lparr>num_active_elements := num_active_elements h + 1\<rparr>" sn s]
        W(1) fill off by simp
    moreover have "\<not> history_contains h sn" using fill off by (simp add: history_contains_def)
    ultimately show thesis
      using that [of ?h2] num newer fill off
      by (simp add: history_insert_def Let_def)
  qed
qed


section \<open>The receipt log the connection relies on\<close>

text \<open>
  The contract between the connection and the history: numbers go in one at a time, and every
  report names only numbers that went in. The client lemmas follow a set \<open>R\<close> of the numbers
  received so far.
\<close>

locale receipt_log =
  fixes ok :: "'h \<Rightarrow> bool"
    and holds :: "'h \<Rightarrow> 's \<Rightarrow> bool"
    and accepts :: "'s \<Rightarrow> 'h \<Rightarrow> bool"
    and enter :: "'s \<Rightarrow> 'h \<Rightarrow> (bool \<times> 'h) option"
    and report :: "'h \<Rightarrow> ('a \<times> 'h) option"
    and names :: "'a \<Rightarrow> 's \<Rightarrow> bool"
  assumes enter_law: "ok h \<Longrightarrow> accepts s h \<Longrightarrow> \<exists>h'. enter s h = Some (\<not> holds h s, h') \<and> ok h'
        \<and> (\<forall>t. holds h' t \<longleftrightarrow> t = s \<or> holds h t)"
    and report_law: "ok h \<Longrightarrow> \<exists>a h'. report h = Some (a, h') \<and> ok h'
        \<and> (\<forall>t. names a t \<longrightarrow> holds h t) \<and> (\<forall>t. holds h' t \<longrightarrow> holds h t)"
begin

definition tracks :: "'s set \<Rightarrow> 'h \<Rightarrow> bool" where
  "tracks R h \<longleftrightarrow> ok h \<and> (\<forall>t. holds h t \<longrightarrow> t \<in> R)"

lemma tracks_enter:
  "tracks R h \<Longrightarrow> accepts s h \<Longrightarrow> enter s h = Some (x, h') \<Longrightarrow> tracks (insert s R) h'"
  using enter_law [of h s] by (auto simp: tracks_def)

lemma tracks_report:
  assumes "tracks R h"
  shows "\<exists>a h'. report h = Some (a, h') \<and> tracks R h' \<and> (\<forall>t. names a t \<longrightarrow> t \<in> R)"
proof -
  obtain a h' where "report h = Some (a, h')" "ok h'" "\<forall>t. names a t \<longrightarrow> holds h t"
    "\<forall>t. holds h' t \<longrightarrow> holds h t"
    using report_law assms unfolding tracks_def by blast
  then show ?thesis using assms unfolding tracks_def by blast
qed

lemma duplicate_refused:
  assumes "ok h" "accepts s h" "enter s h = Some (x, h')" "accepts s h'"
  shows "\<exists>h''. enter s h' = Some (False, h'')"
proof -
  have "ok h' \<and> holds h' s" using enter_law [OF assms(1,2)] assms(3) by auto
  then show ?thesis using enter_law [OF _ assms(4)] by auto
qed

end

definition in_window :: "seqno \<Rightarrow> datagram_history \<Rightarrow> bool" where
  "in_window sn h \<longleftrightarrow>
     history_is_empty h \<or> unat (sdist (seq_at h (hfirst h)) sn) < max_elements"

text \<open>The ACK frame as the peer parses it.\<close>

definition emit_ack :: "datagram_history \<Rightarrow> (ack_data \<times> datagram_history) option" where
  "emit_ack h = (case write_ack_history h write_carrier of
     None \<Rightarrow> None
   | Some (_, h', wb) \<Rightarrow>
       map_option (\<lambda>a. (a, h')) (fst (read_ack_data_frame (read_new carrier_endian (wdata wb)))))"

lemma insert_empty:
  assumes "num_active_elements h = 0" "\<forall>i < max_elements. \<not> is_valid h i" "length (elements h) = max_elements"
  obtains h' where "history_insert sn h = Some (True, h')" "ring sn 0 0 h'"
    "\<forall>s. history_contains h' s \<longleftrightarrow> s = sn"
proof -
  let ?h0 = "h\<lparr>hfirst := pos sn 0, hlast := pos sn 1, num_active_elements := 1\<rparr>"
  let ?h = "set_element (pos sn 0) sn ?h0"
  have off: "unat sn mod max_elements = pos sn 0" by (simp add: pos_0)
  have ins: "history_insert sn h = Some (True, ?h)"
    using assms(1) off by (simp add: history_insert_def Let_def)
  have val: "is_valid ?h (pos sn j) \<longleftrightarrow> j = 0" if "j < max_elements" for j
    using that assms(2,3) by (auto simp: pos_inj)
  have "{j. j \<le> 0 \<and> is_valid ?h (pos sn j)} = {0}" using val by (auto simp: max_elements_def)
  then have "window sn 0 0 ?h"
    unfolding window_def using assms(3) val by (auto simp: max_num_acks_def)
  then have r: "ring sn 0 0 ?h" using val [of 0] by (simp add: ring_def max_elements_def)
  have "history_contains ?h s \<longleftrightarrow> s = sn" for s
    using history_contains_set_element [of ?h0 sn s] assms(2,3) off
    by (auto simp: history_contains_def)
  then show thesis using that ins r by blast
qed

lemma history_insert_law:
  assumes "history_ok h" "in_window sn h"
  shows "\<exists>h'. history_insert sn h = Some (\<not> history_contains h sn, h') \<and> history_ok h'
    \<and> (\<forall>t. history_contains h' t \<longleftrightarrow> t = sn \<or> history_contains h t)"
  using assms(1)
proof (cases rule: history_ok_cases)
  case empty
  obtain h' where "history_insert sn h = Some (True, h')" "ring sn 0 0 h'"
    "\<forall>s. history_contains h' s \<longleftrightarrow> s = sn"
    using insert_empty [OF empty(1,2,3)] .
  moreover have "\<not> history_contains h t" for t
    using empty(2) by (simp add: history_contains_def max_elements_def)
  ultimately show ?thesis using ring_ok by auto
next
  case (ring b lo hi)
  let ?b = "b + of_nat lo"
  have r: "ring ?b 0 (hi - lo) h" using ring_rebase [OF ring] .
  then have w: "window ?b 0 (hi - lo) h" and v: "is_valid h (pos ?b 0)" by (simp_all add: ring_def)
  have "seq_at h (hfirst h) = ?b" "num_active_elements h \<noteq> 0"
    using windowD(8) [OF w _ v] windowD(4) [OF w] window_active [OF w _ v] by (auto simp: max_elements_def)
  then have "unat (sn - ?b) < max_elements"
    using assms(2) by (simp add: in_window_def history_is_empty_def sdist_eq)
  then show ?thesis
    using insert_ring [OF r refl] ring_ok by (metis (no_types, lifting))
qed

lemma emit_ack_law:
  assumes "history_ok h"
  shows "\<exists>a h'. emit_ack h = Some (a, h') \<and> history_ok h'
    \<and> (\<forall>t. acked_by a t \<longrightarrow> history_contains h t) \<and> (\<forall>t. history_contains h' t \<longrightarrow> history_contains h t)"
  using assms
proof (cases rule: history_ok_cases)
  case empty
  then show ?thesis
    using assms by (simp add: emit_ack_def write_ack_history_def read_ack_data_frame_def
        write_u8_def write_carrier_def write_new_def)
next
  case (ring b lo hi)
  obtain ack h' where a: "write_ack_history h write_carrier = Some (Some (b + of_nat hi), h',
      write_carrier\<lparr>wdata := wdata write_carrier @ ack_frame (wendian write_carrier) ack\<rparr>)"
    "ack_frame_ok ack" "ack_sound h ack" "history_ok h'" "shrinks h h'"
    using write_ack_history_ring [OF ring, of write_carrier] by metis
  have "fst (read_ack_data_frame (read_new carrier_endian (ack_frame carrier_endian ack))) = Some ack"
    using read_ack_frame [OF a(2), of "read_new carrier_endian (ack_frame carrier_endian ack)" "[]"] by simp
  then have "emit_ack h = Some (ack, h')"
    using a(1) by (simp add: emit_ack_def write_carrier_def write_new_def)
  then show ?thesis using a(3-5) by (auto simp: ack_sound_def shrinks_def)
qed

lemma length_ack_frame: "ack_frame_ok a \<Longrightarrow> length (ack_frame e a) \<le> 67"
  by (cases a) (auto simp: max_num_bytes_def)

lemma write_ack_history_total:
  assumes "history_ok h"
  shows "\<exists>la h' wb. write_ack_history h write_carrier = Some (la, h', wb) \<and> history_ok h'
    \<and> length (wdata wb) \<le> 67"
  using assms
proof (cases rule: history_ok_cases)
  case empty
  then show ?thesis
    using assms by (simp add: write_ack_history_def write_u8_def write_carrier_def write_new_def)
next
  case (ring b lo hi)
  obtain ack h' where "write_ack_history h write_carrier = Some (Some (b + of_nat hi), h',
      write_carrier\<lparr>wdata := wdata write_carrier @ ack_frame (wendian write_carrier) ack\<rparr>)"
    "ack_frame_ok ack" "history_ok h'"
    using write_ack_history_ring [OF ring, of write_carrier] by metis
  then show ?thesis using length_ack_frame by (simp add: write_carrier_def write_new_def)
qed

interpretation log: receipt_log history_ok history_contains in_window history_insert emit_ack acked_by
  by unfold_locales (use history_insert_law emit_ack_law in blast)+


section \<open>Properties\<close>

text \<open>
  Recording a received datagram. For a history in order and a number within the ring's window
  of the oldest one held, \<open>insert\<close> returns (its loops stop), reports whether the number is new,
  keeps the invariant, and adds that number to the set and nothing else.
\<close>

lemma history_insert_exact:
  assumes "history_ok h" "in_window sn h"
  shows "\<exists>h'. history_insert sn h = Some (\<not> history_contains h sn, h') \<and> history_ok h'
    \<and> Collect (history_contains h') = insert sn (Collect (history_contains h))"
  using history_insert_law [OF assms] by auto

lemma history_new_ok: "history_ok history_new" "\<not> history_contains history_new s"
  by (simp_all add: history_ok_def history_new_def is_valid_def history_contains_def)

lemma history_new_empty: "Collect (history_contains history_new) = {}" "history_contains history_new s = False"
  using history_new_ok(2) by auto

lemma history_new_in_window: "in_window sn history_new"
  by (simp add: in_window_def history_is_empty_def history_new_def)

text \<open>A receive side: datagrams recorded within the window, ACK frames sent at any time.\<close>

inductive history_run :: "datagram_history \<Rightarrow> seqno set \<Rightarrow> bool" where
  start: "history_run history_new {}"
| receive: "history_run h R \<Longrightarrow> in_window sn h \<Longrightarrow> history_insert sn h = Some (x, h') \<Longrightarrow>
    history_run h' (insert sn R)"
| ack: "history_run h R \<Longrightarrow> emit_ack h = Some (a, h') \<Longrightarrow> history_run h' R"

lemma history_run_tracks: "history_run h R \<Longrightarrow> log.tracks R h"
proof (induction rule: history_run.induct)
  case start
  then show ?case by (simp add: log.tracks_def history_new_ok)
next
  case receive
  then show ?case using log.tracks_enter by blast
next
  case ack
  then show ?case using log.tracks_report by fastforce
qed

text \<open>
  C7. ACK soundness. However datagrams arrive within the window and whenever ACK frames go out,
  the next frame can be written (the walks over the ring stop), parses at the peer, and
  acknowledges received datagrams only.
\<close>

theorem acks_only_received:
  assumes "history_run h R"
  shows "\<exists>a h'. emit_ack h = Some (a, h') \<and> history_run h' R \<and> {t. acked_by a t} \<subseteq> R"
proof -
  obtain a h' where "emit_ack h = Some (a, h')" "\<forall>t. acked_by a t \<longrightarrow> t \<in> R"
    using log.tracks_report [OF history_run_tracks [OF assms]] by blast
  then show ?thesis using history_run.ack [OF assms] by blast
qed

theorem acks_only_received_witness:
  "\<exists>h. history_run h {65535} \<and> (\<exists>a h'. emit_ack h = Some (a, h') \<and> history_run h' {65535}
     \<and> {t. acked_by a t} \<subseteq> {65535})"
proof -
  obtain h where "history_insert 65535 history_new = Some (True, h)"
    using history_insert_law [OF history_new_ok(1) history_new_in_window, of 65535]
    by (auto simp: history_new_empty)
  then have "history_run h {65535}"
    using history_run.receive [OF history_run.start history_new_in_window] by fastforce
  then show ?thesis using acks_only_received by blast
qed

text \<open>
  ACK completeness. A frame names every datagram the history holds, unless the newest one is
  being acknowledged for the last time (its removal moves the end of the walk back over the
  datagram before it) or the ring is full (the walk stops where it starts).
\<close>

lemma ack_names_all_held:
  assumes "history_ok h" "acks_at h (last_index h) < 2" "\<not> history_is_full h"
  shows "\<exists>a h'. emit_ack h = Some (a, h') \<and> Collect (history_contains h) \<subseteq> {t. acked_by a t}"
  using assms(1)
proof (cases rule: history_ok_cases)
  case empty
  then show ?thesis
    using emit_ack_law [OF assms(1)] by (auto simp: history_contains_def)
next
  case (ring b lo hi)
  obtain ack h' where a: "write_ack_history h write_carrier = Some (Some (b + of_nat hi), h',
      write_carrier\<lparr>wdata := wdata write_carrier @ ack_frame (wendian write_carrier) ack\<rparr>)"
    "ack_frame_ok ack" "ack_complete h ack"
    using write_ack_history_ring [OF ring, of write_carrier] assms(2,3) by metis
  have "fst (read_ack_data_frame (read_new carrier_endian (ack_frame carrier_endian ack))) = Some ack"
    using read_ack_frame [OF a(2), of "read_new carrier_endian (ack_frame carrier_endian ack)" "[]"] by simp
  then have "emit_ack h = Some (ack, h')"
    using a(1) by (simp add: emit_ack_def write_carrier_def write_new_def)
  then show ?thesis using a(3) by (auto simp: ack_complete_def)
qed

text \<open>
  The window is needed. A datagram that arrives after a newer one, when the older of the two
  starts the ring, is stored without moving the front of the ring back, but counts as held. With
  10, 12 and then 9 received, the count matches the span from 10 to 12 and the frame claims the
  whole range: it acknowledges datagram 11, which never arrived, so the peer drops it.
\<close>

definition receive_all :: "seqno list \<Rightarrow> datagram_history option" where
  "receive_all sns = fold (\<lambda>sn ho. Option.bind ho (\<lambda>h. map_option snd (history_insert sn h)))
     sns (Some history_new)"

lemma late_datagram_causes_false_ack:
  "\<exists>h a h'. receive_all [10, 12, 9] = Some h \<and> \<not> history_contains h 11
     \<and> emit_ack h = Some (a, h') \<and> acked_by a 11 \<and> \<not> acked_by a 9"
proof -
  let ?h = "the (receive_all [10, 12, 9])"
  have "receive_all [10, 12, 9] \<noteq> None \<and> \<not> history_contains ?h 11
      \<and> map_option fst (emit_ack ?h) = Some (Range 10 12)
      \<and> acked_by (Range 10 12) 11 \<and> \<not> acked_by (Range 10 12) 9"
    by code_simp
  then show ?thesis by (auto simp del: acked_by.simps)
qed

end
