(* ===== verification/Connection_State.thy ===== *)
theory Connection_State
  imports Reassembler History_Ring
begin

text \<open>
  \<^verbatim>\<open>carrier/connection_state.rs\<close>: the state of one connection and its operations. The transport
  field \<open>io\<close> is not part of the record: no operation here touches it.

  Each operation that reads the clock takes the instant as an argument. The two LZ4 routines are
  parameters. An operation that can panic or not return (an index past the four channels, the ring
  loops of the history) has result \<open>None\<close> in those cases. The additions to the 32-bit retry
  counter and to the 16-bit resend size wrap, as in a release build.
\<close>

record connection_state =
  received_datagrams_history :: datagram_history
  datagram_seq_num :: seqno
  last_acked_datagram :: seqno
  send_seq_num :: "seqno list"
  cs_send_reliable_seq_num :: "seqno list"
  to_send :: "message_data list list"
  receiver :: reassembler
  to_receive :: "message_data list list"
  send_datagrams :: "datagram_data list"
  last_received_datagram_time :: instant
  last_ack_send_time :: instant
  received_since_last_send :: bool
  create_time :: instant
  cs_is_connecting :: bool
  handshake_retry_time :: instant
  handshake_num_retries :: u32
  send_compressed :: bool
  protocol_version :: u32

definition connection_new :: "instant \<Rightarrow> bool \<Rightarrow> u32 \<Rightarrow> connection_state" where
  "connection_new now compressed version =
     \<lparr>received_datagrams_history = history_new, datagram_seq_num = 1, last_acked_datagram = seq_zero,
      send_seq_num = replicate max_channels sequence_number_max,
      cs_send_reliable_seq_num = replicate max_channels sequence_number_max,
      to_send = replicate priority_max [], receiver = reassembler_new,
      to_receive = replicate max_channels [], send_datagrams = [],
      last_received_datagram_time = now, last_ack_send_time = now, received_since_last_send = False,
      create_time = now, cs_is_connecting = True, handshake_retry_time = now,
      handshake_num_retries = 0, send_compressed = compressed, protocol_version = version\<rparr>"

section \<open>Handshake\<close>

definition make_connect_request_payload :: "connection_state \<Rightarrow> bytes" where
  "make_connect_request_payload cs =
     be_bytes32 (protocol_version cs) @ replicate (unat (handshake_num_retries cs)) 0x01
     @ [sm_connect_request]"

definition push_back :: "nat \<Rightarrow> message_data \<Rightarrow> message_data list list \<Rightarrow> message_data list list" where
  "push_back p m qs = qs[p := qs ! p @ [m]]"

definition connecting_message :: "bytes \<Rightarrow> message_data" where
  "connecting_message payload =
     message_new\<lparr>channel := system_channel, reliability := Unreliable, is_connecting := True,
       mdata := payload\<rparr>"

definition queue_connect_request :: "connection_state \<Rightarrow> connection_state" where
  "queue_connect_request cs =
     cs\<lparr>to_send := push_back 0 (connecting_message (make_connect_request_payload cs)) (to_send cs)\<rparr>"

definition queue_connect_ack :: "connection_state \<Rightarrow> connection_state" where
  "queue_connect_ack cs =
     cs\<lparr>to_send := push_back 0
          (connecting_message (be_bytes32 (protocol_version cs) @ [sm_connect_ack])) (to_send cs)\<rparr>"

definition schedule_next_retry :: "instant \<Rightarrow> connection_state \<Rightarrow> connection_state" where
  "schedule_next_retry now cs =
     (let n = handshake_num_retries cs + 1
      in cs\<lparr>handshake_num_retries := n, handshake_retry_time := now + retry_interval (unat n)\<rparr>)"

definition time_until_retry :: "instant \<Rightarrow> connection_state \<Rightarrow> nat option" where
  "time_until_retry now cs =
     (if \<not> cs_is_connecting cs then None
      else if now \<ge> handshake_retry_time cs then Some 0
      else Some (handshake_retry_time cs - now))"

definition should_retry_handshake :: "instant \<Rightarrow> connection_state \<Rightarrow> bool" where
  "should_retry_handshake now cs \<longleftrightarrow> cs_is_connecting cs \<and> now \<ge> handshake_retry_time cs"

section \<open>Queueing\<close>

definition queue_message_chunk ::
    "message_data \<Rightarrow> nat \<Rightarrow> u16 \<Rightarrow> connection_state \<Rightarrow> connection_state option" where
  "queue_message_chunk m priority n cs =
     (let ch = unat (channel m) in
      if ch \<ge> max_channels then None
      else let sn = seq_next (send_seq_num cs ! ch);
               rel = (if reliability m = Reliable then seq_next (cs_send_reliable_seq_num cs ! ch)
                      else cs_send_reliable_seq_num cs ! ch);
               m = m\<lparr>num_chunks := n, sequence_number := sn, send_reliable_seq_num := rel\<rparr>
        in Some (cs\<lparr>send_seq_num := (send_seq_num cs)[ch := sn],
                    cs_send_reliable_seq_num := (cs_send_reliable_seq_num cs)[ch := rel],
                    to_send := push_back (if priority < priority_max then priority else 0) m (to_send cs)\<rparr>))"

text \<open>The fragmenting loop of \<open>queue_message\<close>, on the data still to send.\<close>

function queue_chunks ::
    "message_data \<Rightarrow> nat \<Rightarrow> bytes \<Rightarrow> nat \<Rightarrow> connection_state \<Rightarrow> connection_state option" where
  "queue_chunks m priority rem chunks_remaining cs =
     (if rem = [] then Some cs
      else let size = min (length rem) max_message_data_size;
               chunk = message_new\<lparr>channel := channel m, reliability := Reliable,
                         is_connecting := is_connecting m, mdata := take size rem\<rparr>
        in case queue_message_chunk chunk priority (of_nat chunks_remaining) cs of
             None \<Rightarrow> None
           | Some cs' \<Rightarrow> queue_chunks m priority (drop size rem) (chunks_remaining - 1) cs')"
  by pat_completeness auto
termination
  by (relation "measure (\<lambda>(m, p, rem, c, cs). length rem)") (auto simp: mtu_defs)

declare queue_chunks.simps [simp del]

definition queue_message :: "message_data \<Rightarrow> nat \<Rightarrow> connection_state \<Rightarrow> connection_state option" where
  "queue_message m priority cs =
     (if length (mdata m) \<le> max_message_data_size then queue_message_chunk m priority 1 cs
      else let n = chunks_needed (length (mdata m)) in
        if n > max_num_chunks then Some cs else queue_chunks m priority (mdata m) n cs)"

definition has_messages_to_send :: "connection_state \<Rightarrow> bool" where
  "has_messages_to_send cs = list_ex (\<lambda>q. q \<noteq> []) (to_send cs)"

section \<open>Acknowledgements and resends\<close>

definition nack_acceleration :: nat where "nack_acceleration = millis (1000 div 3)"
definition lost_packet_timeout :: nat where "lost_packet_timeout = millis 1000"

fun nack_first :: "seqno \<Rightarrow> datagram_data list \<Rightarrow> datagram_data list" where
  "nack_first sn [] = []"
| "nack_first sn (d # ds) =
     (if dgram_seq d = sn
      then d\<lparr>flow_control := (flow_control d)\<lparr>fc_sent_time :=
               (let t = fc_sent_time (flow_control d)
                in if t \<ge> nack_acceleration then t - nack_acceleration else t)\<rparr>\<rparr> # ds
      else d # nack_first sn ds)"

definition nack_datagram :: "seqno \<Rightarrow> connection_state \<Rightarrow> connection_state" where
  "nack_datagram sn cs = cs\<lparr>send_datagrams := nack_first sn (send_datagrams cs)\<rparr>"

definition read_ack_data :: "bytes \<Rightarrow> connection_state \<Rightarrow> connection_state" where
  "read_ack_data payload cs =
     (case fst (read_ack_data_frame (read_carrier payload)) of
        None \<Rightarrow> cs
      | Some ack \<Rightarrow>
          let (q, nacked) = apply_ack_data_to_send_queue ack (send_datagrams cs)
          in fold nack_datagram nacked (cs\<lparr>send_datagrams := q\<rparr>))"

definition write_ack_data ::
    "write_buffer \<Rightarrow> connection_state \<Rightarrow> (write_buffer \<times> connection_state) option" where
  "write_ack_data wb cs =
     (case write_ack_history (received_datagrams_history cs) wb of
        None \<Rightarrow> None
      | Some (la, h, wb') \<Rightarrow>
          let cs' = cs\<lparr>received_datagrams_history := h\<rparr>
          in Some (wb', case la of None \<Rightarrow> cs' | Some s \<Rightarrow> cs'\<lparr>last_acked_datagram := s\<rparr>))"

text \<open>Messages of a lost datagram go back to the front of the queue of their priority.\<close>

definition requeue :: "message_data list list \<Rightarrow> message_data list list \<Rightarrow> message_data list list" where
  "requeue lost qs = map2 (@) lost qs"

fun resend_expired ::
    "instant \<Rightarrow> datagram_data list \<Rightarrow> message_data list list \<Rightarrow>
     nat \<times> datagram_data list \<times> message_data list list" where
  "resend_expired now [] qs = (0, [], qs)"
| "resend_expired now (d # ds) qs =
     (if now - fc_sent_time (flow_control d) \<le> lost_packet_timeout then (0, d # ds, qs)
      else let (n, ds', qs') =
             resend_expired now ds (if resend_data_size d > 0 then requeue (to_resend d) qs else qs)
           in (n + 1, ds', qs'))"

definition process_resends :: "instant \<Rightarrow> connection_state \<Rightarrow> nat \<times> connection_state" where
  "process_resends now cs =
     (let (n, ds, qs) = resend_expired now (send_datagrams cs) (to_send cs)
      in (n, cs\<lparr>send_datagrams := ds, to_send := qs\<rparr>))"

section \<open>Incoming datagrams\<close>

datatype incoming_error = DecodeFailed decode_error | DuplicateDatagram | SystemMessageTooSmall

definition process_system_message ::
    "message_data \<Rightarrow> connection_state \<Rightarrow> (incoming_error + bool) \<times> connection_state" where
  "process_system_message m cs =
     (if mdata m = [] then (Err SystemMessageTooSmall, cs)
      else let msg_id = last (mdata m) in
        if msg_id > sm_ct_first then
          (Ok False, if msg_id = sm_ct_acks then read_ack_data (butlast (mdata m)) cs else cs)
        else (Ok True, cs))"

text \<open>The loop over the delivered messages; an error ends it and drops the messages after it.\<close>

fun deliver_messages ::
    "(u8 \<times> message_data) list \<Rightarrow> connection_state \<Rightarrow> (incoming_error + unit) \<times> connection_state" where
  "deliver_messages [] cs = (Ok (), cs)"
| "deliver_messages ((ch, m) # ms) cs =
     (if ch = system_channel then
        (case process_system_message m cs of
           (Inl e, cs') \<Rightarrow> (Err e, cs')
         | (Inr False, cs') \<Rightarrow> deliver_messages ms cs'
         | (Inr True, cs') \<Rightarrow>
             deliver_messages ms (cs'\<lparr>to_receive := push_back (unat ch) m (to_receive cs')\<rparr>))
      else deliver_messages ms (cs\<lparr>to_receive := push_back (unat ch) m (to_receive cs)\<rparr>))"

definition process_incoming_datagram ::
    "(bytes \<Rightarrow> nat \<Rightarrow> bytes option) \<Rightarrow> instant \<Rightarrow> bytes \<Rightarrow> connection_state \<Rightarrow>
     ((incoming_error + unit) \<times> connection_state) option" where
  "process_incoming_datagram decompress now data cs0 =
     (let cs = cs0\<lparr>received_since_last_send := True\<rparr>;
          (fed, r) = feed decompress data (receiver cs);
          cs = cs\<lparr>receiver := r\<rparr>
      in case fed of
           Inl e \<Rightarrow> Some (Err (DecodeFailed e), cs)
         | Inr header \<Rightarrow>
             (case history_insert (dh_sequence_number header) (received_datagrams_history cs) of
                None \<Rightarrow> None
              | Some (False, h) \<Rightarrow>
                  Some (Err DuplicateDatagram, cs\<lparr>received_datagrams_history := h\<rparr>)
              | Some (True, h) \<Rightarrow>
                  let cs = cs\<lparr>received_datagrams_history := h, last_received_datagram_time := now\<rparr>;
                      (delivered, r) = drain (receiver cs)
                  in Some (deliver_messages delivered (cs\<lparr>receiver := r\<rparr>))))"

definition pop_ready_message :: "nat \<Rightarrow> connection_state \<Rightarrow> message_data option \<times> connection_state" where
  "pop_ready_message ch cs =
     (case to_receive cs ! ch of
        [] \<Rightarrow> (None, cs)
      | m # q \<Rightarrow> (Some m, cs\<lparr>to_receive := (to_receive cs)[ch := q]\<rparr>))"

section \<open>Outgoing datagrams\<close>

record out_ctx =
  oc_channel :: u8
  written_first_seq_num :: "bool list"
  written_first_rel_seq_num :: "bool list"
  last_sequence_number :: "seqno list"
  last_seq_reliable_number :: "seqno list"

definition out_ctx_init :: out_ctx where
  "out_ctx_init = \<lparr>oc_channel = 0, written_first_seq_num = replicate max_channels False,
     written_first_rel_seq_num = replicate max_channels False,
     last_sequence_number = replicate max_channels seq_zero,
     last_seq_reliable_number = replicate max_channels seq_zero\<rparr>"

text \<open>
  What is decided for the message at the front of a queue before its size is checked: which of
  the three optional fields to write, and the context changes made on the way.
\<close>

definition plan_frame :: "message_data \<Rightarrow> out_ctx \<Rightarrow> (bool \<times> bool \<times> bool) \<times> out_ctx" where
  "plan_frame m c =
     (let wc = (channel m \<noteq> oc_channel c); ch = unat (channel m);
          ws = (if written_first_seq_num c ! ch
                then sdist (last_sequence_number c ! ch) (sequence_number m) \<noteq> 1 else True);
          wr = (if written_first_rel_seq_num c ! ch
                then if reliability m = Reliable
                     then sdist (last_seq_reliable_number c ! ch) (send_reliable_seq_num m) \<noteq> 1
                     else True
                else True)
      in ((ws, wr, wc),
          c\<lparr>oc_channel := channel m, written_first_seq_num := (written_first_seq_num c)[ch := True],
            written_first_rel_seq_num := (written_first_rel_seq_num c)[ch := True]\<rparr>))"

definition wrote_frame :: "message_data \<Rightarrow> out_ctx \<Rightarrow> out_ctx" where
  "wrote_frame m c =
     c\<lparr>last_sequence_number := (last_sequence_number c)[unat (channel m) := sequence_number m],
       last_seq_reliable_number :=
         (last_seq_reliable_number c)[unat (channel m) := send_reliable_seq_num m]\<rparr>"

definition track_resend :: "nat \<Rightarrow> message_data \<Rightarrow> datagram_data \<Rightarrow> datagram_data" where
  "track_resend priority m d =
     (if reliability m = Reliable
      then d\<lparr>resend_data_size := resend_data_size d + of_nat (length (mdata m)),
             to_resend := push_back priority m (to_resend d)\<rparr>
      else d)"

record packer =
  pk_ctx :: out_ctx
  pk_payload :: write_buffer
  pk_dgram :: datagram_data

text \<open>
  One priority's queue: messages are taken from the front while they fit. The source's
  subtraction of the payload's length never underflows, since the payload only grows when the
  message fits.
\<close>

fun pack_queue :: "nat \<Rightarrow> nat \<Rightarrow> message_data list \<Rightarrow> packer \<Rightarrow> (message_data list \<times> packer) option" where
  "pack_queue max_size priority [] s = Some ([], s)"
| "pack_queue max_size priority (m # q) s =
     (if unat (channel m) \<ge> max_channels then None
      else let ((ws, wr, wc), c) = plan_frame m (pk_ctx s) in
        if length (mdata m) + message_header_size m ws wr wc
             > max_size - datagram_header_size - length (wdata (pk_payload s))
        then Some (m # q, s\<lparr>pk_ctx := c\<rparr>)
        else pack_queue max_size priority q
               \<lparr>pk_ctx = wrote_frame m c,
                pk_payload = write_bytes (mdata m) (write_message_header m ws wr wc (pk_payload s)),
                pk_dgram = track_resend priority m (pk_dgram s)\<rparr>)"

fun pack_queues ::
    "nat \<Rightarrow> nat \<Rightarrow> message_data list list \<Rightarrow> packer \<Rightarrow> (message_data list list \<times> packer) option" where
  "pack_queues max_size priority [] s = Some ([], s)"
| "pack_queues max_size priority (q # qs) s =
     (case pack_queue max_size priority q s of
        None \<Rightarrow> None
      | Some (q', s') \<Rightarrow>
          map_option (\<lambda>(qs', s''). (q' # qs', s'')) (pack_queues max_size (priority + 1) qs s'))"

definition should_send_ack :: "instant \<Rightarrow> connection_state \<Rightarrow> bool" where
  "should_send_ack now cs \<longleftrightarrow> received_since_last_send cs \<or> now - last_ack_send_time cs \<ge> millis 100"

definition queue_ack :: "instant \<Rightarrow> connection_state \<Rightarrow> connection_state option" where
  "queue_ack now cs =
     (case write_ack_data write_carrier cs of
        None \<Rightarrow> None
      | Some (wb, cs1) \<Rightarrow>
          let m = message_new\<lparr>channel := system_channel, reliability := Unreliable,
                    is_connecting := cs_is_connecting cs1, mdata := wdata wb @ [sm_ct_acks]\<rparr>
          in map_option (\<lambda>cs2. cs2\<lparr>last_ack_send_time := now, received_since_last_send := False\<rparr>)
               (queue_message m 0 cs1))"

definition frame_datagram :: "u8 \<Rightarrow> seqno \<Rightarrow> bytes \<Rightarrow> bytes" where
  "frame_datagram flag sn payload = flag # dh_has_compressor # be_bytes16 sn @ payload"

definition encode_datagram :: "(bytes \<Rightarrow> bytes) \<Rightarrow> bool \<Rightarrow> seqno \<Rightarrow> bytes \<Rightarrow> bytes" where
  "encode_datagram compress compressible sn payload =
     (if compressible then
        let c = compress payload in
        if length c \<ge> length payload then frame_datagram dh_uncompressed sn payload
        else frame_datagram dh_compressed sn c
      else frame_datagram dh_uncompressed sn payload)"

definition has_user_messages :: "connection_state \<Rightarrow> bool" where
  "has_user_messages cs = list_ex (\<lambda>q. list_ex (\<lambda>m. channel m \<noteq> system_channel) q) (to_send cs)"

definition packer_init :: "instant \<Rightarrow> seqno \<Rightarrow> packer" where
  "packer_init now sn = \<lparr>pk_ctx = out_ctx_init, pk_payload = write_carrier,
     pk_dgram = datagram_data_new now sn\<rparr>"

datatype prepare_error = MaxDatagramSizeTooSmall nat

definition generate_datagram ::
    "(bytes \<Rightarrow> bytes) \<Rightarrow> instant \<Rightarrow> nat \<Rightarrow> connection_state \<Rightarrow>
     (bytes option \<times> connection_state) option" where
  "generate_datagram compress now max_size cs =
     (let sn = seq_next (datagram_seq_num cs) in
      case pack_queues max_size 0 (to_send cs) (packer_init now sn) of
        None \<Rightarrow> None
      | Some (qs, s) \<Rightarrow>
          let payload = wdata (pk_payload s); cs' = cs\<lparr>to_send := qs\<rparr> in
          if payload = [] then Some (None, cs')
          else let d = encode_datagram compress
                     (send_compressed cs \<and> has_user_messages cs \<and> \<not> cs_is_connecting cs) sn payload;
                   tracked = (pk_dgram s)\<lparr>flow_control :=
                     (flow_control (pk_dgram s))\<lparr>fc_size := of_nat (length d)\<rparr>\<rparr>
            in Some (Some d, cs'\<lparr>datagram_seq_num := sn,
                                 send_datagrams := send_datagrams cs @ [tracked]\<rparr>))"

definition prepare_outgoing_datagram ::
    "(bytes \<Rightarrow> bytes) \<Rightarrow> instant \<Rightarrow> nat \<Rightarrow> connection_state \<Rightarrow>
     ((prepare_error + bytes option) \<times> connection_state) option" where
  "prepare_outgoing_datagram compress now max_size cs =
     (case if should_send_ack now cs then queue_ack now cs else Some cs of
        None \<Rightarrow> None
      | Some cs1 \<Rightarrow>
          if \<not> has_messages_to_send cs1 then Some (Ok None, cs1)
          else if max_size \<le> datagram_header_size then Some (Err (MaxDatagramSizeTooSmall max_size), cs1)
          else map_option (\<lambda>(d, cs2). (Ok d, cs2)) (generate_datagram compress now max_size cs1))"

end
