(* ===== verification/Outgoing.thy ===== *)
theory Outgoing
  imports Connection_State "HOL-Library.Multiset"
begin

text \<open>
  The sending half of a connection: what the packing loop of \<open>prepare_outgoing_datagram\<close> puts on
  the wire against what \<open>walk_frames\<close> reads back, the size of a datagram, and where the reliable
  messages of a connection are.
\<close>

section \<open>The two contexts agree\<close>

text \<open>
  The writer's context and the reader's hold the same channel, and the same numbers on every
  channel the writer believes it has written to.
\<close>

definition ctx_agrees :: "out_ctx \<Rightarrow> frame_ctx \<Rightarrow> bool" where
  "ctx_agrees c f \<longleftrightarrow>
     oc_channel c = current_channel f
     \<and> length (written_first_seq_num c) = max_channels \<and> length (written_first_rel_seq_num c) = max_channels
     \<and> length (last_sequence_number c) = max_channels \<and> length (last_seq_reliable_number c) = max_channels
     \<and> length (prev_msg_seq_num f) = max_channels \<and> length (prev_reliable_msg_seq_num f) = max_channels
     \<and> (\<forall>ch < max_channels. written_first_seq_num c ! ch \<longrightarrow>
          last_sequence_number c ! ch = prev_msg_seq_num f ! ch)
     \<and> (\<forall>ch < max_channels. written_first_rel_seq_num c ! ch \<longrightarrow>
          last_seq_reliable_number c ! ch = prev_reliable_msg_seq_num f ! ch)"

lemma ctx_agrees_init: "ctx_agrees out_ctx_init frame_ctx_init"
  by (simp add: ctx_agrees_def out_ctx_init_def frame_ctx_init_def)

lemma plan_frame_elidable:
  assumes "ctx_agrees c f" "unat (channel m) < max_channels" "plan_frame m c = ((ws, wr, wc), c')"
  shows "elidable f m ws wr wc"
  using assms by (auto simp: plan_frame_def ctx_agrees_def elidable_def Let_def split: if_splits)

lemma wrote_frame_agrees:
  assumes "ctx_agrees c f" "unat (channel m) < max_channels" "plan_frame m c = (ws, c')"
  shows "ctx_agrees (wrote_frame m c') (ctx_after m f)"
  using assms
  by (auto simp: plan_frame_def ctx_agrees_def wrote_frame_def ctx_after_def Let_def nth_list_update)

section \<open>Packing one queue\<close>

text \<open>\<open>packed\<close>: the frames a run of the packing loop added to the payload.\<close>

definition packed :: "packer \<Rightarrow> frame_ctx \<Rightarrow> frame list \<Rightarrow> packer \<Rightarrow> bool" where
  "packed s f fs s' \<longleftrightarrow> frames_ok f fs
     \<and> pk_payload s' = write_bytes (concat (map frame_enc fs)) (pk_payload s)"

lemma packed_Cons:
  "packed s1 (ctx_after m f) fs s' \<Longrightarrow> pk_payload s1 = write_bytes (frame_bytes m ws wr wc) (pk_payload s) \<Longrightarrow>
     frame_valid m \<Longrightarrow> elidable f m ws wr wc \<Longrightarrow> packed s f ((m, ws, wr, wc) # fs) s'"
  by (simp add: packed_def write_bytes_def)

definition sendable :: "message_data \<Rightarrow> bool" where
  "sendable m \<longleftrightarrow> unat (channel m) < max_channels \<and> num_chunks m \<noteq> 0"

definition queue_ok :: "message_data list \<Rightarrow> bool" where
  "queue_ok q \<longleftrightarrow> list_all sendable q"

lemma pack_queue_frames:
  assumes "ctx_agrees (pk_ctx s) f" "wendian (pk_payload s) = BigEndian" "queue_ok q"
    and mx: "mx \<le> max_decompressed_bytes"
  shows "\<exists>fs q' s'. pack_queue mx p q s = Some (q', s') \<and> packed s f fs s' \<and> q = map fst fs @ q'
    \<and> (q' = [] \<longrightarrow> ctx_agrees (pk_ctx s') (fold ctx_after (map fst fs) f))"
  using assms(1-3)
proof (induction q arbitrary: s f)
  case Nil
  then show ?case by (intro exI [of _ "[]"]) (simp add: packed_def write_bytes_def)
next
  case (Cons m q)
  obtain ws wr wc c where pl: "plan_frame m (pk_ctx s) = ((ws, wr, wc), c)" by (metis surj_pair)
  have v: "sendable m" "queue_ok q" using Cons.prems(3) by (simp_all add: queue_ok_def)
  then have ch: "unat (channel m) < max_channels" by (simp add: sendable_def)
  show ?case
  proof (cases "length (mdata m) + message_header_size m ws wr wc
      > mx - datagram_header_size - length (wdata (pk_payload s))")
    case True
    then show ?thesis
      using pl ch
      by (intro exI [of _ "[]"] exI [of _ "m # q"] exI [of _ "s\<lparr>pk_ctx := c\<rparr>"])
        (simp add: packed_def write_bytes_def)
  next
    case False
    let ?s = "\<lparr>pk_ctx = wrote_frame m c,
      pk_payload = write_bytes (mdata m) (write_message_header m ws wr wc (pk_payload s)),
      pk_dgram = track_resend p m (pk_dgram s)\<rparr>"
    have fv: "frame_valid m"
      using v(1) False mx
      by (simp add: sendable_def frame_valid_def message_header_size_def max_decompressed_bytes_def)
    have py: "pk_payload ?s = write_bytes (frame_bytes m ws wr wc) (pk_payload s)"
      using write_message_header_frame [OF Cons.prems(2)] by simp
    have "ctx_agrees (pk_ctx ?s) (ctx_after m f)"
      using wrote_frame_agrees [OF Cons.prems(1) ch pl] by simp
    moreover have "wendian (pk_payload ?s) = BigEndian" unfolding py using Cons.prems(2) by (simp add: write_bytes_def)
    ultimately obtain fs q' s' where IH: "pack_queue mx p q ?s = Some (q', s')"
      "packed ?s (ctx_after m f) fs s'" "q = map fst fs @ q'"
      "q' = [] \<longrightarrow> ctx_agrees (pk_ctx s') (fold ctx_after (map fst fs) (ctx_after m f))"
      using Cons.IH v(2) by metis
    have "packed s f ((m, ws, wr, wc) # fs) s'"
      by (rule packed_Cons [OF IH(2) py fv plan_frame_elidable [OF Cons.prems(1) ch pl]])
    then show ?thesis
      using IH pl ch False by (intro exI [of _ "(m, ws, wr, wc) # fs"]) simp
  qed
qed


lemma packed_refl [simp]: "packed s f [] s"
  by (simp add: packed_def write_bytes_def)

lemma frames_ok_append:
  "frames_ok f (fs @ gs) \<longleftrightarrow> frames_ok f fs \<and> frames_ok (fold ctx_after (map fst fs) f) gs"
proof (induction fs arbitrary: f)
  case (Cons x fs)
  then show ?case by (cases x) simp
qed simp

lemma packed_append:
  "packed s f fs s1 \<Longrightarrow> packed s1 (fold ctx_after (map fst fs) f) gs s2 \<Longrightarrow> packed s f (fs @ gs) s2"
  by (simp add: packed_def frames_ok_append write_bytes_def)

section \<open>Packing all queues\<close>

text \<open>
  What is left over is clean when no queue is packed after one that had a message left: the loop
  changes its context for a message before it finds that the message does not fit.
\<close>

fun clean_left :: "message_data list list \<Rightarrow> message_data list list \<Rightarrow> bool" where
  "clean_left (q # qs) (l # ls) = (l = [] \<and> clean_left qs ls \<or> concat qs = [])"
| "clean_left _ _ = True"

lemma pack_queues_empty:
  "concat qs = [] \<Longrightarrow> pack_queues mx p qs s = Some (qs, s)"
  by (induction qs arbitrary: p) auto

lemma pack_queues_frames:
  assumes "ctx_agrees (pk_ctx s) f" "wendian (pk_payload s) = BigEndian" "list_all queue_ok qs"
    "pack_queues mx p qs s = Some (ls, s')" "clean_left qs ls" and mx: "mx \<le> max_decompressed_bytes"
  shows "\<exists>fs. packed s f fs s' \<and> concat qs = map fst fs @ concat ls"
  using assms(1-5)
proof (induction qs arbitrary: s f p ls)
  case Nil
  then show ?case by (intro exI [of _ "[]"]) simp
next
  case (Cons q qs)
  obtain fs l s1 where q: "pack_queue mx p q s = Some (l, s1)" "packed s f fs s1" "q = map fst fs @ l"
    "l = [] \<longrightarrow> ctx_agrees (pk_ctx s1) (fold ctx_after (map fst fs) f)"
    using pack_queue_frames [OF Cons.prems(1,2) _ mx, of q p] Cons.prems(3) by auto
  obtain ls' where ls: "pack_queues mx (p + 1) qs s1 = Some (ls', s')" "ls = l # ls'"
    using Cons.prems(4) q(1) by auto
  show ?case
  proof (cases "concat qs = []")
    case True
    then show ?thesis using q(2,3) ls pack_queues_empty [OF True] by auto
  next
    case False
    then have l: "l = []" "clean_left qs ls'" using Cons.prems(5) ls(2) by auto
    have "wendian (pk_payload s1) = BigEndian" using q(2) Cons.prems(2) by (simp add: packed_def write_bytes_def)
    then obtain gs where "packed s1 (fold ctx_after (map fst fs) f) gs s'" "concat qs = map fst gs @ concat ls'"
      using Cons.IH [OF _ _ _ ls(1) l(2)] q(4) l(1) Cons.prems(3) by auto
    then show ?thesis using packed_append [OF q(2)] q(3) l(1) ls(2) by (intro exI [of _ "fs @ gs"]) simp
  qed
qed

text \<open>Packing always returns when every message is on one of the four channels.\<close>

lemma pack_queue_total: "queue_ok q \<Longrightarrow> \<exists>q' s'. pack_queue mx p q s = Some (q', s')"
  by (induction q arbitrary: s)
    (auto simp: queue_ok_def sendable_def Let_def split: prod.split)

lemma pack_queues_total: "list_all queue_ok qs \<Longrightarrow> \<exists>ls s'. pack_queues mx p qs s = Some (ls, s')"
proof (induction qs arbitrary: p s)
  case (Cons q qs)
  then obtain q' s1 where "pack_queue mx p q s = Some (q', s1)" using pack_queue_total by fastforce
  then show ?case using Cons.IH [of "p + 1" s1] Cons.prems by auto
qed simp

text \<open>Size of the payload.\<close>

lemma wdata_write_message_header:
  "length (wdata (write_bytes (mdata m) (write_message_header m ws wr wc wb))) =
     length (wdata wb) + message_header_size m ws wr wc + length (mdata m)"
  by (auto simp: write_message_header_def message_header_size_def write_bytes_def write_u8_def
      write_u16_def Let_def)

lemma pack_queue_size:
  "pack_queue mx p q s = Some (q', s') \<Longrightarrow> length (wdata (pk_payload s)) \<le> mx - datagram_header_size \<Longrightarrow>
     length (wdata (pk_payload s')) \<le> mx - datagram_header_size"
proof (induction q arbitrary: s)
  case (Cons m q)
  then show ?case
    by (auto simp: Let_def wdata_write_message_header split: prod.splits if_splits)
qed simp

lemma pack_queues_size:
  "pack_queues mx p qs s = Some (ls, s') \<Longrightarrow> length (wdata (pk_payload s)) \<le> mx - datagram_header_size \<Longrightarrow>
     length (wdata (pk_payload s')) \<le> mx - datagram_header_size"
proof (induction qs arbitrary: p s ls)
  case (Cons q qs)
  then show ?case using pack_queue_size by (fastforce split: option.splits)
qed simp

section \<open>A datagram and its decoding\<close>

definition conn_ok :: "connection_state \<Rightarrow> bool" where
  "conn_ok cs \<longleftrightarrow>
     length (to_send cs) = priority_max \<and> list_all queue_ok (to_send cs)
     \<and> length (send_seq_num cs) = max_channels \<and> length (cs_send_reliable_seq_num cs) = max_channels
     \<and> length (to_receive cs) = max_channels \<and> reasm_wf (receiver cs)
     \<and> list_all (\<lambda>d. length (to_resend d) = priority_max \<and> list_all queue_ok (to_resend d)) (send_datagrams cs)"

lemma conn_ok_new: "conn_ok (connection_new now compressed version)"
  by (auto simp: conn_ok_def connection_new_def queue_ok_def reasm_wf_new list_all_iff)

text \<open>What the code relies on of LZ4: decompressing into a large enough buffer undoes compressing.\<close>

definition lz4_ok :: "(bytes \<Rightarrow> bytes) \<Rightarrow> (bytes \<Rightarrow> nat \<Rightarrow> bytes option) \<Rightarrow> bool" where
  "lz4_ok compress decompress \<longleftrightarrow>
     (\<forall>p n. length p \<le> n \<longrightarrow> decompress (compress p) n = Some p)"

lemma decode_encode_datagram:
  assumes "lz4_ok compress decompress" "length payload \<le> max_decompressed_bytes"
  shows "\<exists>h. decode_datagram decompress (encode_datagram compress b sn payload) =
      Ok \<lparr>dd_header = h, dd_payload = payload, dd_frames = walk_frames payload\<rparr>
    \<and> dh_sequence_number h = sn"
  using assms
  by (auto simp: encode_datagram_def frame_datagram_def dh_uncompressed_def dh_compressed_def
      decode_datagram_plain decode_datagram_lz4 lz4_ok_def Let_def)

lemma length_encode_datagram:
  "length (encode_datagram compress b sn payload) \<le> datagram_header_size + length payload"
  by (auto simp: encode_datagram_def frame_datagram_def datagram_header_size_def Let_def be_bytes16_def)

lemma generate_datagram_cases:
  assumes "generate_datagram compress now mx cs = Some (Some d, cs')"
  obtains ls s where "pack_queues mx 0 (to_send cs) (packer_init now (seq_next (datagram_seq_num cs))) = Some (ls, s)"
    "wdata (pk_payload s) \<noteq> []" "to_send cs' = ls" "datagram_seq_num cs' = seq_next (datagram_seq_num cs)"
    "d = encode_datagram compress (send_compressed cs \<and> has_user_messages cs \<and> \<not> cs_is_connecting cs)
       (seq_next (datagram_seq_num cs)) (wdata (pk_payload s))"
    "cs' = cs\<lparr>to_send := ls, datagram_seq_num := seq_next (datagram_seq_num cs),
       send_datagrams := send_datagrams cs @ [(pk_dgram s)\<lparr>flow_control :=
         (flow_control (pk_dgram s))\<lparr>fc_size := of_nat (length d)\<rparr>\<rparr>]\<rparr>"
  using assms
  by (auto simp: generate_datagram_def Let_def split: option.splits if_splits)

lemma packer_init_payload [simp]: "pk_payload (packer_init now sn) = \<lparr>wdata = [], wendian = BigEndian\<rparr>"
  "pk_ctx (packer_init now sn) = out_ctx_init" "pk_dgram (packer_init now sn) = datagram_data_new now sn"
  by (simp_all add: packer_init_def write_carrier_def write_new_def carrier_endian_def)

lemma packed_frames:
  assumes "list_all queue_ok qs" "pack_queues mx 0 qs (packer_init now sn) = Some (ls, s)" "clean_left qs ls"
    "mx \<le> max_decompressed_bytes"
  obtains ms where "walk_frames (wdata (pk_payload s)) = ms" "concat qs = ms @ concat ls"
proof -
  obtain fs where fs: "packed (packer_init now sn) frame_ctx_init fs s" "concat qs = map fst fs @ concat ls"
    using pack_queues_frames [OF _ _ assms(1-4)] ctx_agrees_init by force
  then have "wdata (pk_payload s) = concat (map frame_enc fs)" "frames_ok frame_ctx_init fs"
    by (simp_all add: packed_def write_bytes_def)
  then show thesis using that walk_frames_enc fs(2) by simp
qed

text \<open>A connection with one message queued, for the witnesses.\<close>

definition sample :: connection_state where
  "sample = (connection_new 0 False 1)\<lparr>to_send := [[], [], [message_reliable 0 [1]], []]\<rparr>"

definition sample_sent :: connection_state where
  "sample_sent = (connection_new 0 False 1)\<lparr>datagram_seq_num := 2, send_datagrams :=
     [\<lparr>flow_control = \<lparr>fc_sequence_number = 2, fc_size = 12, fc_effective_size = 0, fc_sent_time = 0\<rparr>,
       resend_data_size = 1, to_resend = [[], [], [message_reliable 0 [1]], []]\<rparr>]\<rparr>"

lemma sample_ok: "conn_ok sample"
  using conn_ok_new [of 0 False 1]
  by (simp add: sample_def conn_ok_def queue_ok_def sendable_def message_reliable_def message_new_def carrier_consts)

lemma sample_generates:
  "generate_datagram id 0 1129 sample = Some (Some [0x80, 1, 0, 2, 1, 0, 1, 0, 0, 0xff, 0xff, 1], sample_sent)"
  by code_simp

lemma lz4_ok_id: "lz4_ok id (\<lambda>b n. Some b)"
  by (simp add: lz4_ok_def)

lemma generate_decodes:
  assumes "conn_ok cs" "lz4_ok compress decompress" "mx \<le> max_decompressed_bytes"
    "generate_datagram compress now mx cs = Some (Some d, cs')"
    "clean_left (to_send cs) (to_send cs')"
  shows "\<exists>dd. decode_datagram decompress d = Ok dd
    \<and> dh_sequence_number (dd_header dd) = seq_next (datagram_seq_num cs)
    \<and> concat (to_send cs) = dd_frames dd @ concat (to_send cs')"
proof -
  obtain ls s where g: "pack_queues mx 0 (to_send cs) (packer_init now (seq_next (datagram_seq_num cs))) = Some (ls, s)"
    "to_send cs' = ls" "d = encode_datagram compress (send_compressed cs \<and> has_user_messages cs \<and> \<not> cs_is_connecting cs)
       (seq_next (datagram_seq_num cs)) (wdata (pk_payload s))"
    using generate_datagram_cases [OF assms(4)] by metis
  have "length (wdata (pk_payload s)) \<le> max_decompressed_bytes"
    using pack_queues_size [OF g(1)] assms(3) by simp
  moreover obtain ms where "walk_frames (wdata (pk_payload s)) = ms" "concat (to_send cs) = ms @ concat ls"
    using packed_frames [OF _ g(1) _ assms(3)] assms(1,5) g(2) by (auto simp: conn_ok_def)
  ultimately show ?thesis
    using decode_encode_datagram [OF assms(2)] g(2,3) by fastforce
qed

text \<open>
  C2. What is packed is what the peer decodes, when no message of a later queue is packed behind one that
  did not fit (\<open>clean_left\<close>: a queue is empty afterwards or the queues behind it were empty). Then the peer's
  decoder returns the messages taken, in order, with all their fields, under the datagram's number. The
  condition is needed: \<open>message_that_does_not_fit_misroutes_the_next\<close> of \<open>Link_Failures\<close> breaks it.
\<close>

theorem generated_datagram_decodes:
  assumes "conn_ok cs" "lz4_ok compress decompress" "mx \<le> max_decompressed_bytes"
    "generate_datagram compress now mx cs = Some (Some d, cs')"
    "clean_left (to_send cs) (to_send cs')"
  shows "\<exists>dd. decode_datagram decompress d = Ok dd
    \<and> dh_sequence_number (dd_header dd) = seq_next (datagram_seq_num cs)
    \<and> concat (to_send cs) = dd_frames dd @ concat (to_send cs')"
  using generate_decodes [OF assms] .

theorem generated_datagram_decodes_witness:
  "\<exists>dd. decode_datagram (\<lambda>b n. Some b) [0x80, 1, 0, 2, 1, 0, 1, 0, 0, 0xff, 0xff, 1] = Ok dd
    \<and> dh_sequence_number (dd_header dd) = seq_next (datagram_seq_num sample)
    \<and> concat (to_send sample) = dd_frames dd @ concat (to_send sample_sent)"
proof (rule generated_datagram_decodes [OF sample_ok lz4_ok_id _ sample_generates])
  show "1129 \<le> max_decompressed_bytes" by (simp add: max_decompressed_bytes_def)
  show "clean_left (to_send sample) (to_send sample_sent)" by code_simp
qed

text \<open>
  C23. A generated datagram never exceeds the size asked for, compressed or not.
\<close>

theorem generated_datagram_fits:
  assumes "generate_datagram compress now mx cs = Some (Some d, cs')" "datagram_header_size \<le> mx"
  shows "length d \<le> mx"
proof -
  obtain ls s where g: "pack_queues mx 0 (to_send cs) (packer_init now (seq_next (datagram_seq_num cs))) = Some (ls, s)"
    "d = encode_datagram compress (send_compressed cs \<and> has_user_messages cs \<and> \<not> cs_is_connecting cs)
       (seq_next (datagram_seq_num cs)) (wdata (pk_payload s))"
    using generate_datagram_cases [OF assms(1)] by metis
  then show ?thesis
    using pack_queues_size [OF g(1)] assms(2)
      length_encode_datagram [of compress _ "seq_next (datagram_seq_num cs)" "wdata (pk_payload s)"]
    by (fastforce intro: order_trans)
qed

theorem generated_datagram_fits_witness:
  "length [0x80 :: u8, 1, 0, 2, 1, 0, 1, 0, 0, 0xff, 0xff, 1] \<le> 1129"
  by (rule generated_datagram_fits [OF sample_generates]) (simp add: datagram_header_size_def)

section \<open>Where the reliable messages are\<close>

text \<open>
  The reliable messages a connection still answers for: those queued, and those in datagrams that
  the peer has not acknowledged.
\<close>

definition tracked :: "datagram_data list \<Rightarrow> message_data multiset" where
  "tracked ds = (\<Sum>d \<leftarrow> ds. mset (concat (to_resend d)))"

definition reliable_stock :: "connection_state \<Rightarrow> message_data multiset" where
  "reliable_stock cs =
     filter_mset is_reliable (mset (concat (to_send cs))) + tracked (send_datagrams cs)"

lemma tracked_simps [simp]:
  "tracked [] = {#}" "tracked (d # ds) = mset (concat (to_resend d)) + tracked ds"
  "tracked (ds @ es) = tracked ds + tracked es"
  by (simp_all add: tracked_def)

lemma mset_push_back: "p < length qs \<Longrightarrow> mset (concat (push_back p m qs)) = add_mset m (mset (concat qs))"
proof (induction qs arbitrary: p)
  case (Cons q qs)
  then show ?case by (cases p) (auto simp: push_back_def)
qed simp

lemma pack_queue_stock:
  "pack_queue mx p q s = Some (q', s') \<Longrightarrow> p < length (to_resend (pk_dgram s)) \<Longrightarrow>
     length (to_resend (pk_dgram s')) = length (to_resend (pk_dgram s))
     \<and> filter_mset is_reliable (mset q) + mset (concat (to_resend (pk_dgram s)))
       = filter_mset is_reliable (mset q') + mset (concat (to_resend (pk_dgram s')))"
proof (induction q arbitrary: s)
  case (Cons m q)
  obtain ws wr wc c where pl: "plan_frame m (pk_ctx s) = ((ws, wr, wc), c)" by (metis surj_pair)
  show ?case
  proof (cases "length (mdata m) + message_header_size m ws wr wc
      > mx - datagram_header_size - length (wdata (pk_payload s))")
    case True
    then show ?thesis using Cons.prems pl by (auto split: if_splits)
  next
    case False
    let ?s = "\<lparr>pk_ctx = wrote_frame m c,
      pk_payload = write_bytes (mdata m) (write_message_header m ws wr wc (pk_payload s)),
      pk_dgram = track_resend p m (pk_dgram s)\<rparr>"
    have "pack_queue mx p q ?s = Some (q', s')" using Cons.prems(1) pl False by (simp split: if_splits)
    moreover have "length (to_resend (pk_dgram ?s)) = length (to_resend (pk_dgram s))"
      by (simp add: track_resend_def push_back_def)
    ultimately have IH: "length (to_resend (pk_dgram s')) = length (to_resend (pk_dgram s))"
      "filter_mset is_reliable (mset q) + mset (concat (to_resend (pk_dgram ?s)))
         = filter_mset is_reliable (mset q') + mset (concat (to_resend (pk_dgram s')))"
      using Cons.IH [of ?s] Cons.prems(2) by simp_all
    have "mset (concat (to_resend (pk_dgram ?s))) =
        mset (concat (to_resend (pk_dgram s))) + (if is_reliable m then {#m#} else {#})"
      using mset_push_back [OF Cons.prems(2)] by (simp add: track_resend_def is_reliable_def)
    then show ?thesis using IH by (auto split: if_splits)
  qed
qed simp

lemma chain_sum:
  "(a :: 'a multiset) + b = c + d \<Longrightarrow> e + d = f + g \<Longrightarrow> a + (e + b) = c + (f + g)"
  by (metis add.left_commute)

lemma pack_queues_stock:
  "pack_queues mx p qs s = Some (ls, s') \<Longrightarrow> p + length qs \<le> length (to_resend (pk_dgram s)) \<Longrightarrow>
     filter_mset is_reliable (mset (concat qs)) + mset (concat (to_resend (pk_dgram s)))
       = filter_mset is_reliable (mset (concat ls)) + mset (concat (to_resend (pk_dgram s')))"
proof (induction qs arbitrary: p s ls)
  case (Cons q qs)
  then obtain l s1 ls' where q: "pack_queue mx p q s = Some (l, s1)"
    "pack_queues mx (p + 1) qs s1 = Some (ls', s')" "ls = l # ls'"
    by (auto split: option.splits)
  have "length (to_resend (pk_dgram s1)) = length (to_resend (pk_dgram s))"
    using pack_queue_stock [OF q(1)] Cons.prems(2) by simp
  then show ?case
    using chain_sum [OF conjunct2 [OF pack_queue_stock [OF q(1)]] Cons.IH [OF q(2)]] Cons.prems(2) q(3)
    by (simp add: add.assoc)
qed simp

lemma pack_queue_nothing:
  "pack_queue mx p q s = Some (q', s') \<Longrightarrow> length (wdata (pk_payload s)) \<le> length (wdata (pk_payload s'))
     \<and> (wdata (pk_payload s') = [] \<longrightarrow> pk_dgram s' = pk_dgram s)"
proof (induction q arbitrary: s)
  case (Cons m q)
  obtain ws wr wc c where pl: "plan_frame m (pk_ctx s) = ((ws, wr, wc), c)" by (metis surj_pair)
  let ?wb = "write_bytes (mdata m) (write_message_header m ws wr wc (pk_payload s))"
  have len: "length (wdata ?wb) = length (wdata (pk_payload s)) + message_header_size m ws wr wc + length (mdata m)"
    by (rule wdata_write_message_header)
  have pos: "0 < message_header_size m ws wr wc" by (simp add: message_header_size_def)
  show ?case
  proof (cases "length (mdata m) + message_header_size m ws wr wc
      > mx - datagram_header_size - length (wdata (pk_payload s))")
    case True
    then show ?thesis using Cons.prems pl by (auto split: if_splits)
  next
    case False
    have "pack_queue mx p q \<lparr>pk_ctx = wrote_frame m c, pk_payload = ?wb,
        pk_dgram = track_resend p m (pk_dgram s)\<rparr> = Some (q', s')"
      using Cons.prems pl False by (simp split: if_splits)
    from Cons.IH [OF this] len pos show ?thesis by auto
  qed
qed simp

lemma pack_queues_nothing:
  "pack_queues mx p qs s = Some (ls, s') \<Longrightarrow> length (wdata (pk_payload s)) \<le> length (wdata (pk_payload s'))
     \<and> (wdata (pk_payload s') = [] \<longrightarrow> pk_dgram s' = pk_dgram s)"
proof (induction qs arbitrary: p s ls)
  case (Cons q qs)
  then obtain l s1 ls' where q: "pack_queue mx p q s = Some (l, s1)"
    "pack_queues mx (p + 1) qs s1 = Some (ls', s')"
    by (auto split: option.splits)
  from pack_queue_nothing [OF q(1)] Cons.IH [OF q(2)] show ?case by auto
qed simp

text \<open>
  C18. Generating a datagram loses no reliable message: each one queued before is still queued or
  is recorded with the datagram for retransmission, and no other message is recorded.
\<close>

theorem generate_keeps_reliable_stock:
  assumes "conn_ok cs" "generate_datagram compress now mx cs = Some (r, cs')"
  shows "reliable_stock cs' = reliable_stock cs"
proof -
  let ?s = "packer_init now (seq_next (datagram_seq_num cs))"
  obtain ls s where g: "pack_queues mx 0 (to_send cs) ?s = Some (ls, s)"
    using assms(2) by (auto simp: generate_datagram_def Let_def split: option.splits)
  have st: "filter_mset is_reliable (mset (concat (to_send cs)))
      = filter_mset is_reliable (mset (concat ls)) + mset (concat (to_resend (pk_dgram s)))"
    using pack_queues_stock [OF g] assms(1) by (simp add: conn_ok_def datagram_data_new_def)
  show ?thesis
  proof (cases "wdata (pk_payload s) = []")
    case True
    then have "pk_dgram s = pk_dgram ?s" using pack_queues_nothing [OF g] by simp
    then show ?thesis using assms(2) g True st
      by (auto simp: generate_datagram_def Let_def reliable_stock_def datagram_data_new_def)
  next
    case False
    then show ?thesis using assms(2) g st
      by (auto simp: generate_datagram_def Let_def reliable_stock_def)
  qed
qed

theorem generate_keeps_reliable_stock_witness: "reliable_stock sample_sent = reliable_stock sample"
  by (rule generate_keeps_reliable_stock [OF sample_ok sample_generates])

section \<open>Acknowledged and lost datagrams\<close>

lemma nack_first_keeps:
  "map to_resend (nack_first sn ds) = map to_resend ds" "map dgram_seq (nack_first sn ds) = map dgram_seq ds"
  "map resend_data_size (nack_first sn ds) = map resend_data_size ds"
  by (induction ds) (auto simp: dgram_seq_def)

lemma fold_nack_keeps:
  "map to_resend (send_datagrams (fold nack_datagram sns cs)) = map to_resend (send_datagrams cs)
   \<and> to_send (fold nack_datagram sns cs) = to_send cs
   \<and> map dgram_seq (send_datagrams (fold nack_datagram sns cs)) = map dgram_seq (send_datagrams cs)"
  by (induction sns arbitrary: cs) (simp_all add: nack_datagram_def nack_first_keeps)

lemma tracked_map_eq: "tracked ds = (\<Sum>x \<leftarrow> map to_resend ds. mset (concat x))"
  by (simp add: tracked_def comp_def)

lemma tracked_map: "map to_resend ds = map to_resend es \<Longrightarrow> tracked ds = tracked es"
  by (simp only: tracked_map_eq)

lemma tracked_filter:
  "tracked ds = tracked (filter P ds) + tracked (filter (\<lambda>d. \<not> P d) ds)"
  by (induction ds) (simp_all add: ac_simps)

definition acknowledges :: "bytes \<Rightarrow> seqno \<Rightarrow> bool" where
  "acknowledges payload sn =
     (case fst (read_ack_data_frame (read_carrier payload)) of None \<Rightarrow> False | Some a \<Rightarrow> acked_by a sn)"

text \<open>
  An ACK frame forgets exactly the datagrams it acknowledges: the reliable messages of every
  other datagram are kept for retransmission, whatever bytes the frame holds.
\<close>

lemma ack_forgets_only_acknowledged:
  "reliable_stock cs = reliable_stock (read_ack_data payload cs)
     + tracked (filter (\<lambda>d. acknowledges payload (dgram_seq d)) (send_datagrams cs))"
proof (cases "fst (read_ack_data_frame (read_carrier payload))")
  case None
  then show ?thesis by (simp add: read_ack_data_def acknowledges_def)
next
  case (Some a)
  let ?q = "filter (\<lambda>d. \<not> acked_by a (dgram_seq d)) (send_datagrams cs)"
  let ?n = "map dgram_seq (filter (\<lambda>d. nacked_by a (dgram_seq d)) (send_datagrams cs))"
  let ?cs = "fold nack_datagram ?n (cs\<lparr>send_datagrams := ?q\<rparr>)"
  have r: "read_ack_data payload cs = ?cs"
    using Some by (simp add: read_ack_data_def apply_ack_data_to_send_queue_def)
  note keep = fold_nack_keeps [of ?n "cs\<lparr>send_datagrams := ?q\<rparr>"]
  have "tracked (send_datagrams ?cs) = tracked ?q" by (rule tracked_map) (use keep in simp)
  moreover have "to_send ?cs = to_send cs" using keep by simp
  moreover have "tracked (send_datagrams cs)
      = tracked ?q + tracked (filter (\<lambda>d. acked_by a (dgram_seq d)) (send_datagrams cs))"
    by (subst tracked_filter [where P = "\<lambda>d. acked_by a (dgram_seq d)"]) (rule add.commute)
  moreover have "acknowledges payload = acked_by a" using Some by (auto simp: acknowledges_def)
  ultimately show ?thesis unfolding r reliable_stock_def by (simp only: add.assoc)
qed

lemma mset_requeue:
  "length lost = length qs \<Longrightarrow> mset (concat (requeue lost qs)) = mset (concat lost) + mset (concat qs)"
  by (induction lost qs rule: list_induct2) (simp_all add: requeue_def ac_simps)

text \<open>A datagram whose recorded messages are all there when its resend size says so.\<close>

definition resend_exact :: "datagram_data \<Rightarrow> bool" where
  "resend_exact d \<longleftrightarrow> length (to_resend d) = priority_max
     \<and> list_all is_reliable (concat (to_resend d)) \<and> (resend_data_size d = 0 \<longrightarrow> concat (to_resend d) = [])"

lemma resend_expired_stock:
  "resend_expired now ds qs = (n, ds', qs') \<Longrightarrow> list_all resend_exact ds \<Longrightarrow> length qs = priority_max \<Longrightarrow>
     length qs' = priority_max \<and>
     filter_mset is_reliable (mset (concat qs')) + tracked ds'
       = filter_mset is_reliable (mset (concat qs)) + tracked ds"
proof (induction ds arbitrary: qs n)
  case (Cons d ds)
  show ?case
  proof (cases "now - fc_sent_time (flow_control d) \<le> lost_packet_timeout")
    case False
    let ?qs = "if resend_data_size d > 0 then requeue (to_resend d) qs else qs"
    obtain k where "resend_expired now ds ?qs = (k, ds', qs')"
      using Cons.prems(1) False by (auto simp: Let_def split: prod.splits)
    moreover have len: "length ?qs = priority_max"
      using Cons.prems(2,3) by (simp add: requeue_def resend_exact_def)
    moreover have "filter_mset is_reliable (mset (concat ?qs)) =
        mset (concat (to_resend d)) + filter_mset is_reliable (mset (concat qs))"
    proof (cases "resend_data_size d = 0")
      case True
      then show ?thesis using Cons.prems(2) by (simp add: resend_exact_def)
    next
      case False
      have "filter_mset is_reliable (mset (concat (to_resend d))) = mset (concat (to_resend d))"
        using Cons.prems(2) by (intro filter_mset_eq_conv [THEN iffD2]) (auto simp: resend_exact_def list_all_iff)
      then show ?thesis using False Cons.prems(2,3) mset_requeue [of "to_resend d" qs]
        by (simp add: resend_exact_def word_gt_0)
    qed
    ultimately show ?thesis using Cons.IH [of ?qs k] Cons.prems(2) by (simp add: ac_simps)
  qed (use Cons.prems in auto)
qed auto

text \<open>
  Retransmission loses no reliable message either: the messages of the expired datagrams go
  back to the queues, and the rest stay recorded.
\<close>

lemma resends_keep_reliable_stock:
  assumes "length (to_send cs) = priority_max" "list_all resend_exact (send_datagrams cs)"
  shows "reliable_stock (snd (process_resends now cs)) = reliable_stock cs"
  using resend_expired_stock [OF _ assms(2,1)]
  by (auto simp: process_resends_def reliable_stock_def Let_def split: prod.split)

end
