(* ===== verification/Queueing.thy ===== *)
theory Queueing
  imports Outgoing
begin

text \<open>
  Queueing and fragmentation: \<open>queue_message\<close> splits a payload into chunks that the reassembler of
  the peer accepts as one message. The invariant \<open>conn_ok\<close> is kept by every operation of the
  connection.
\<close>

section \<open>Fragmentation\<close>

text \<open>
  A run of chunks on one channel: consecutive numbers after \<open>s\<close> and \<open>r\<close>, each chunk naming how many
  are left including itself.
\<close>

fun chunk_series :: "u8 \<Rightarrow> seqno \<Rightarrow> seqno \<Rightarrow> message_data list \<Rightarrow> bool" where
  "chunk_series ch s r [] = True"
| "chunk_series ch s r (x # xs) =
     (channel x = ch \<and> reliability x = Reliable \<and> sequence_number x = s + 1
      \<and> send_reliable_seq_num x = r + 1 \<and> unat (num_chunks x) = Suc (length xs)
      \<and> length (mdata x) \<le> max_message_data_size \<and> chunk_series ch (s + 1) (r + 1) xs)"

lemma chunk_series_follow: "chunk_series ch s r xs \<Longrightarrow> chunks_follow r xs"
  by (induction xs arbitrary: s r) auto

lemma chunk_series_group: "chunk_series ch s r xs \<Longrightarrow> xs \<noteq> [] \<Longrightarrow> group_ok r xs"
  using chunk_series_follow by (cases xs) (auto simp: group_ok_def)

lemma chunk_series_sendable: "chunk_series ch s r xs \<Longrightarrow> unat ch < max_channels \<Longrightarrow> queue_ok xs"
  by (induction xs arbitrary: s r) (auto simp: queue_ok_def sendable_def unat_eq_0 [symmetric] simp del: unat_eq_0)

definition append_at :: "nat \<Rightarrow> 'a list \<Rightarrow> 'a list list \<Rightarrow> 'a list list" where
  "append_at p xs qs = qs[p := qs ! p @ xs]"

lemma append_at_simps [simp]:
  "append_at p [] qs = qs" "length (append_at p xs qs) = length qs"
  "p < length qs \<Longrightarrow> append_at p ys (append_at p xs qs) = append_at p (xs @ ys) qs"
  "push_back p m qs = append_at p [m] qs"
  by (simp_all add: append_at_def push_back_def)

definition prio :: "nat \<Rightarrow> nat" where
  "prio p = (if p < priority_max then p else 0)"

lemma prio_less [simp]: "prio p < priority_max"
  by (simp add: prio_def priority_max_def)

lemma list_update_plus:
  "ch < length xs \<Longrightarrow> (xs[ch := xs ! ch + a])[ch := (xs[ch := xs ! ch + a]) ! ch + b] = xs[ch := xs ! ch + (a + b :: 'a :: semigroup_add)]"
  by (simp add: add.assoc)

definition sent_on :: "nat \<Rightarrow> nat \<Rightarrow> message_data list \<Rightarrow> connection_state \<Rightarrow> connection_state" where
  "sent_on p ch xs cs = cs\<lparr>send_seq_num := (send_seq_num cs)[ch := send_seq_num cs ! ch + of_nat (length xs)],
     cs_send_reliable_seq_num :=
       (cs_send_reliable_seq_num cs)[ch := cs_send_reliable_seq_num cs ! ch + of_nat (length xs)],
     to_send := append_at p xs (to_send cs)\<rparr>"

lemma sent_on_append:
  assumes "ch < length (send_seq_num cs)" "ch < length (cs_send_reliable_seq_num cs)" "p < length (to_send cs)"
  shows "sent_on p ch ys (sent_on p ch xs cs) = sent_on p ch (xs @ ys) cs"
  using assms by (simp add: sent_on_def add.assoc)

lemma queue_reliable_chunk:
  assumes "conn_ok cs" "unat (channel m) < max_channels" "reliability m = Reliable"
  shows "queue_message_chunk m p n cs = Some (sent_on (prio p) (unat (channel m))
    [m\<lparr>num_chunks := n, sequence_number := send_seq_num cs ! unat (channel m) + 1,
       send_reliable_seq_num := cs_send_reliable_seq_num cs ! unat (channel m) + 1\<rparr>] cs)"
  using assms
  by (simp add: queue_message_chunk_def sent_on_def seq_next_def prio_def Let_def)

lemma queue_ok_append [simp]: "queue_ok (xs @ ys) \<longleftrightarrow> queue_ok xs \<and> queue_ok ys"
  by (simp add: queue_ok_def)

lemma queue_ok_append_at:
  "list_all queue_ok qs \<Longrightarrow> p < length qs \<Longrightarrow> queue_ok xs \<Longrightarrow> list_all queue_ok (append_at p xs qs)"
  by (auto simp: list_all_length append_at_def nth_list_update)

lemma conn_ok_sent_on:
  assumes "conn_ok cs" "p < priority_max" "queue_ok xs"
  shows "conn_ok (sent_on p ch xs cs)"
  using assms
  by (simp add: conn_ok_def sent_on_def queue_ok_append_at)

lemma queue_chunks_series:
  assumes "conn_ok cs" "unat (channel m) < max_channels"
    "length rem \<le> n * max_message_data_size" "rem = [] \<longrightarrow> n = 0"
    "rem \<noteq> [] \<longrightarrow> (n - 1) * max_message_data_size < length rem" "n \<le> max_num_chunks"
  shows "\<exists>xs. queue_chunks m p rem n cs = Some (sent_on (prio p) (unat (channel m)) xs cs)
    \<and> chunk_series (channel m) (send_seq_num cs ! unat (channel m))
        (cs_send_reliable_seq_num cs ! unat (channel m)) xs
    \<and> concat (map mdata xs) = rem \<and> length xs = n"
  using assms
proof (induction n arbitrary: rem cs)
  case 0
  then show ?case
    by (intro exI [of _ "[]"]) (simp add: queue_chunks.simps sent_on_def)
next
  case (Suc n)
  let ?ch = "unat (channel m)" and ?size = "min (length rem) max_message_data_size"
  have ne: "rem \<noteq> []" using Suc.prems(4) by auto
  define x0 where "x0 = message_new\<lparr>channel := channel m, reliability := Reliable,
    is_connecting := is_connecting m, mdata := take ?size rem\<rparr>"
  define x where "x = x0\<lparr>num_chunks := of_nat (Suc n), sequence_number := send_seq_num cs ! ?ch + 1,
    send_reliable_seq_num := cs_send_reliable_seq_num cs ! ?ch + 1\<rparr>"
  let ?cs = "sent_on (prio p) ?ch [x] cs"
  have q: "queue_message_chunk x0 p (of_nat (Suc n)) cs = Some ?cs"
    using queue_reliable_chunk [OF Suc.prems(1), of x0 p "of_nat (Suc n)"] Suc.prems(2)
    by (simp add: x_def x0_def)
  have nc: "unat (of_nat (Suc n) :: u16) = Suc n"
    using Suc.prems(6) by (simp only: unat_of_nat) (simp add: take_bit_nat_eq_self mtu_defs)
  have "queue_ok [x]" using Suc.prems(2) nc
    by (auto simp: queue_ok_def sendable_def x_def x0_def)
  then have ok: "conn_ok ?cs" using conn_ok_sent_on [OF Suc.prems(1)] by simp
  have len: "length (send_seq_num cs) = max_channels" "length (cs_send_reliable_seq_num cs) = max_channels"
    "length (to_send cs) = priority_max"
    using Suc.prems(1) by (simp_all add: conn_ok_def)
  have rest: "length (drop ?size rem) \<le> n * max_message_data_size"
    "drop ?size rem = [] \<longrightarrow> n = 0"
    "drop ?size rem \<noteq> [] \<longrightarrow> (n - 1) * max_message_data_size < length (drop ?size rem)"
    using Suc.prems(3,5) ne by (cases n; auto simp: min_def)+
  obtain xs where xs: "queue_chunks m p (drop ?size rem) n ?cs = Some (sent_on (prio p) ?ch xs ?cs)"
    "chunk_series (channel m) (send_seq_num ?cs ! ?ch) (cs_send_reliable_seq_num ?cs ! ?ch) xs"
    "concat (map mdata xs) = drop ?size rem" "length xs = n"
    using Suc.IH [OF ok Suc.prems(2) rest] Suc.prems(6) by auto
  have "queue_chunks m p rem (Suc n) cs = Some (sent_on (prio p) ?ch ([x] @ xs) cs)"
    using ne q xs(1) sent_on_append [of ?ch cs "prio p" xs "[x]"] len Suc.prems(2)
    by (subst queue_chunks.simps) (simp add: x0_def Let_def)
  moreover have "chunk_series (channel m) (send_seq_num cs ! ?ch) (cs_send_reliable_seq_num cs ! ?ch) (x # xs)"
    using xs(2,4) nc len Suc.prems(2) by (simp add: x_def x0_def sent_on_def)
  moreover have "concat (map mdata (x # xs)) = rem" using xs(3) by (simp add: x_def x0_def)
  ultimately show ?case using xs(4) by (intro exI [of _ "x # xs"]) simp
qed

lemma chunks_needed_bounds:
  assumes "max_message_data_size < n"
  shows "n \<le> chunks_needed n * max_message_data_size"
    "(chunks_needed n - 1) * max_message_data_size < n"
proof -
  have pos: "0 < max_message_data_size" by (simp add: mtu_defs)
  have c: "chunks_needed n = Suc ((n - 1) div max_message_data_size)" using assms by (simp add: chunks_needed_def)
  show "(chunks_needed n - 1) * max_message_data_size < n"
    using assms div_times_less_eq_dividend [of "n - 1" max_message_data_size] unfolding c
    by (metis One_nat_def diff_Suc_1 diff_less le_less_trans less_nat_zero_code neq0_conv zero_less_one)
  have "n - 1 < Suc ((n - 1) div max_message_data_size) * max_message_data_size"
    using pos by (metis dividend_less_div_times mult.commute mult_Suc add.commute)
  then show "n \<le> chunks_needed n * max_message_data_size" unfolding c by simp
qed

lemma fragments:
  assumes "conn_ok cs" "unat (channel m) < max_channels" "reliability m = Reliable"
    "chunks_needed (length (mdata m)) \<le> max_num_chunks"
  shows "\<exists>xs. queue_message m p cs = Some (sent_on (prio p) (unat (channel m)) xs cs)
    \<and> chunk_series (channel m) (send_seq_num cs ! unat (channel m))
        (cs_send_reliable_seq_num cs ! unat (channel m)) xs
    \<and> concat (map mdata xs) = mdata m \<and> length xs = chunks_needed (length (mdata m))"
proof (cases "length (mdata m) \<le> max_message_data_size")
  case True
  then show ?thesis
    using queue_reliable_chunk [OF assms(1-3)] assms(3)
    by (intro exI) (auto simp: queue_message_def chunks_needed_def)
next
  case False
  then have big: "max_message_data_size < length (mdata m)" by simp
  then have "mdata m = [] \<longrightarrow> chunks_needed (length (mdata m)) = 0" by auto
  then show ?thesis
    using queue_chunks_series [OF assms(1,2) chunks_needed_bounds(1) [OF big] _ _ assms(4), of p]
      chunks_needed_bounds(2) [OF big] assms(4) big
    by (simp add: queue_message_def Let_def)
qed

text \<open>
  C19. Fragmentation. A reliable message of any size the protocol allows is queued as
  \<open>chunks_needed\<close> chunks at the end of its priority's queue: their payloads put together are the
  message's, none exceeds the chunk size, and their numbers follow on from the channel's counters,
  which advance by as many. Nothing else in the connection changes.
\<close>

theorem queue_message_fragments:
  assumes "conn_ok cs" "unat (channel m) < max_channels" "reliability m = Reliable"
    "chunks_needed (length (mdata m)) \<le> max_num_chunks"
  shows "\<exists>xs. queue_message m p cs = Some (sent_on (prio p) (unat (channel m)) xs cs)
    \<and> chunk_series (channel m) (send_seq_num cs ! unat (channel m))
        (cs_send_reliable_seq_num cs ! unat (channel m)) xs
    \<and> concat (map mdata xs) = mdata m \<and> length xs = chunks_needed (length (mdata m))"
  using fragments [OF assms] .

theorem queue_message_fragments_witness:
  "\<exists>xs. queue_message (message_reliable 1 (replicate 3000 7)) 2 sample = Some (sent_on (prio 2) 1 xs sample)
    \<and> chunk_series 1 0xffff 0xffff xs \<and> concat (map mdata xs) = replicate 3000 7 \<and> length xs = 3"
  using queue_message_fragments [OF sample_ok, of "message_reliable 1 (replicate 3000 7)" 2]
  by (simp add: message_reliable_def message_new_def carrier_consts chunks_needed_def mtu_defs sample_def
      connection_new_def sequence_number_max_def numeral_3_eq_3)

section \<open>The invariant\<close>

lemma conn_ok_fields [simp]:
  "conn_ok (cs\<lparr>received_datagrams_history := h\<rparr>) = conn_ok cs"
  "conn_ok (cs\<lparr>last_acked_datagram := a\<rparr>) = conn_ok cs"
  "conn_ok (cs\<lparr>datagram_seq_num := a\<rparr>) = conn_ok cs"
  "conn_ok (cs\<lparr>last_received_datagram_time := t\<rparr>) = conn_ok cs"
  "conn_ok (cs\<lparr>last_ack_send_time := t\<rparr>) = conn_ok cs"
  "conn_ok (cs\<lparr>received_since_last_send := b\<rparr>) = conn_ok cs"
  "conn_ok (cs\<lparr>cs_is_connecting := b\<rparr>) = conn_ok cs"
  "conn_ok (cs\<lparr>handshake_retry_time := t\<rparr>) = conn_ok cs"
  "conn_ok (cs\<lparr>handshake_num_retries := n\<rparr>) = conn_ok cs"
  by (simp_all add: conn_ok_def)

lemma conn_ok_push:
  "conn_ok cs \<Longrightarrow> sendable m \<Longrightarrow> p < priority_max \<Longrightarrow> conn_ok (cs\<lparr>to_send := push_back p m (to_send cs)\<rparr>)"
  by (simp add: conn_ok_def queue_ok_append_at queue_ok_def)

lemma sendable_connecting [simp]: "sendable (connecting_message d)"
  by (simp add: sendable_def connecting_message_def message_new_def carrier_consts)

lemma conn_ok_handshake:
  "conn_ok cs \<Longrightarrow> conn_ok (queue_connect_request cs)" "conn_ok cs \<Longrightarrow> conn_ok (queue_connect_ack cs)"
  "conn_ok cs \<Longrightarrow> conn_ok (schedule_next_retry now cs)"
  unfolding queue_connect_request_def queue_connect_ack_def schedule_next_retry_def Let_def
  by (auto intro: conn_ok_push simp: priority_max_def simp del: append_at_simps)

lemma conn_ok_queue_chunk:
  "conn_ok cs \<Longrightarrow> n \<noteq> 0 \<Longrightarrow> queue_message_chunk m p n cs = Some cs' \<Longrightarrow> conn_ok cs'"
  by (auto simp: queue_message_chunk_def conn_ok_def Let_def priority_max_def queue_ok_def sendable_def
      intro!: queue_ok_append_at split: if_splits)

lemma conn_ok_queue_message:
  assumes "conn_ok cs" "queue_message m p cs = Some cs'"
  shows "conn_ok cs'"
proof -
  let ?n = "chunks_needed (length (mdata m))"
  consider (small) "length (mdata m) \<le> max_message_data_size"
    | (drop) "max_message_data_size < length (mdata m)" "max_num_chunks < ?n"
    | (split) "max_message_data_size < length (mdata m)" "?n \<le> max_num_chunks" by linarith
  then show ?thesis
  proof cases
    case small
    then show ?thesis using assms conn_ok_queue_chunk [of cs 1 m p cs'] by (simp add: queue_message_def)
  next
    case drop
    then show ?thesis using assms by (simp add: queue_message_def)
  next
    case split
    have ne: "mdata m \<noteq> []" using split(1) by auto
    have q: "queue_chunks m p (mdata m) ?n cs = Some cs'"
      using assms(2) split by (simp add: queue_message_def Let_def)
    have ch: "unat (channel m) < max_channels"
      using q ne by (subst (asm) queue_chunks.simps) (auto simp: queue_message_chunk_def Let_def split: if_splits)
    obtain xs where "cs' = sent_on (prio p) (unat (channel m)) xs cs"
      "chunk_series (channel m) (send_seq_num cs ! unat (channel m)) (cs_send_reliable_seq_num cs ! unat (channel m)) xs"
      using queue_chunks_series [OF assms(1) ch chunks_needed_bounds(1) [OF split(1)] _ _ split(2), of p]
        chunks_needed_bounds(2) [OF split(1)] ne q by auto
    then show ?thesis using conn_ok_sent_on [OF assms(1)] chunk_series_sendable [OF _ ch] by simp
  qed
qed

lemma conn_ok_resends:
  assumes "conn_ok cs" shows "conn_ok (snd (process_resends now cs))"
proof -
  have rq: "list_all queue_ok (requeue lost qs)"
    if "list_all queue_ok lost" "list_all queue_ok qs" for lost qs
    using that by (auto simp: requeue_def list_all_iff elim!: in_set_zipE)
  let ?D = "list_all (\<lambda>d. length (to_resend d) = priority_max \<and> list_all queue_ok (to_resend d))"
  have "length qs' = priority_max \<and> list_all queue_ok qs' \<and> ?D ds'"
    if "resend_expired now ds qs = (n, ds', qs')" "length qs = priority_max" "list_all queue_ok qs" "?D ds"
    for n ds qs ds' qs'
    using that
  proof (induction ds arbitrary: qs n)
    case (Cons d ds)
    show ?case
    proof (cases "now - fc_sent_time (flow_control d) \<le> lost_packet_timeout")
      case False
      let ?qs = "if resend_data_size d > 0 then requeue (to_resend d) qs else qs"
      obtain k where "resend_expired now ds ?qs = (k, ds', qs')"
        using Cons.prems(1) False by (auto simp: Let_def split: prod.splits)
      moreover have "length ?qs = priority_max" "list_all queue_ok ?qs"
        using Cons.prems rq by (auto simp: requeue_def)
      ultimately show ?thesis using Cons.IH Cons.prems(4) by simp
    qed (use Cons.prems in auto)
  qed auto
  then show ?thesis
    using assms by (auto simp: process_resends_def conn_ok_def Let_def split: prod.split)
qed

lemma conn_ok_fold_nack: "conn_ok cs \<Longrightarrow> conn_ok (fold nack_datagram sns cs)"
proof (induction sns arbitrary: cs)
  case (Cons sn sns)
  have "list_all P (map to_resend (nack_first sn ds)) = list_all P (map to_resend ds)" for P ds
    by (simp only: nack_first_keeps)
  then have "list_all (\<lambda>d. P (to_resend d)) (nack_first sn ds) = list_all (\<lambda>d. P (to_resend d)) ds" for P ds
    by (simp add: list_all_iff)
  from this [of "\<lambda>x. length x = priority_max \<and> list_all queue_ok x" "send_datagrams cs"]
  have "conn_ok (nack_datagram sn cs)"
    using Cons.prems by (simp add: nack_datagram_def conn_ok_def)
  then show ?case using Cons.IH by simp
qed simp

lemma conn_ok_filter_datagrams:
  "conn_ok cs \<Longrightarrow> conn_ok (cs\<lparr>send_datagrams := filter P (send_datagrams cs)\<rparr>)"
  by (auto simp: conn_ok_def list_all_iff)

lemma conn_ok_read_ack: "conn_ok cs \<Longrightarrow> conn_ok (read_ack_data payload cs)"
  by (simp add: read_ack_data_def apply_ack_data_to_send_queue_def conn_ok_fold_nack
      conn_ok_filter_datagrams split: option.split)

lemma conn_ok_system_message:
  "conn_ok cs \<Longrightarrow> process_system_message m cs = (r, cs') \<Longrightarrow> conn_ok cs'"
  by (auto simp: process_system_message_def Let_def conn_ok_read_ack split: if_splits)

lemma conn_ok_push_received:
  "conn_ok cs \<Longrightarrow> conn_ok (cs\<lparr>to_receive := push_back ch m (to_receive cs)\<rparr>)"
  by (simp add: conn_ok_def)

lemma conn_ok_deliver:
  "conn_ok cs \<Longrightarrow> deliver_messages ms cs = (r, cs') \<Longrightarrow> conn_ok cs'"
proof (induction ms cs rule: deliver_messages.induct)
  case (2 ch m ms cs)
  show ?case
  proof (cases "ch = system_channel")
    case True
    obtain x cs1 where ps: "process_system_message m cs = (x, cs1)" by (metis surj_pair)
    have ok: "conn_ok cs1" using conn_ok_system_message [OF "2.prems"(1) ps] .
    show ?thesis
    proof (cases x)
      case (Inl e)
      then show ?thesis using "2.prems"(2) True ps ok by auto
    next
      case (Inr b)
      then show ?thesis
        using "2.IH"(1,2) [OF True ps [symmetric] Inr] "2.prems"(2) True ps ok conn_ok_push_received
        by (cases b) (auto simp del: append_at_simps)
    qed
  next
    case False
    then show ?thesis
      using "2.IH"(3) [OF False] "2.prems" conn_ok_push_received by (auto simp del: append_at_simps)
  qed
qed auto

lemma drain_from_wf: "reasm_wf r \<Longrightarrow> set cs \<subseteq> {..<max_channels} \<Longrightarrow> reasm_wf (snd (drain_from cs r))"
proof (induction cs arbitrary: r)
  case (Cons c cs)
  then show ?case using drain_channel_wf [of r c] by (auto simp: Let_def case_prod_beta)
qed simp

lemma drain_wf: "reasm_wf r \<Longrightarrow> reasm_wf (snd (drain r))"
  unfolding drain_def by (rule drain_from_wf) auto

lemma feed_wf: "reasm_wf r \<Longrightarrow> reasm_wf (snd (feed decompress d r))"
  by (auto simp: feed_def reasm_wf_fold_accept split: sum.split)

lemma conn_ok_receiver: "conn_ok cs \<Longrightarrow> reasm_wf r \<Longrightarrow> conn_ok (cs\<lparr>receiver := r\<rparr>)"
  by (simp add: conn_ok_def)

lemma conn_ok_incoming:
  assumes "conn_ok cs" "process_incoming_datagram decompress now d cs = Some (r, cs')"
  shows "conn_ok cs'"
proof -
  obtain fed rs where f: "feed decompress d (receiver cs) = (fed, rs)" by (metis surj_pair)
  have rs: "reasm_wf rs" using feed_wf [of "receiver cs" decompress d] f assms(1) by (simp add: conn_ok_def)
  define cs1 where "cs1 = cs\<lparr>received_since_last_send := True, receiver := rs\<rparr>"
  have ok: "conn_ok cs1" using assms(1) rs by (simp add: cs1_def conn_ok_receiver)
  show ?thesis
  proof (cases fed)
    case (Inl e)
    then show ?thesis using assms(2) f ok by (simp add: process_incoming_datagram_def cs1_def Let_def)
  next
    case (Inr h)
    show ?thesis
    proof (cases "history_insert (dh_sequence_number h) (received_datagrams_history cs)")
      case None
      then show ?thesis using assms(2) f Inr by (simp add: process_incoming_datagram_def Let_def)
    next
      case (Some a)
      obtain new hist where a: "a = (new, hist)" by (metis surj_pair)
      obtain ms rs' where d: "drain rs = (ms, rs')" by (metis surj_pair)
      define cs2 where "cs2 = cs\<lparr>received_since_last_send := True, received_datagrams_history := hist,
        last_received_datagram_time := now, receiver := rs'\<rparr>"
      have "reasm_wf rs'" using drain_wf [OF rs] d by simp
      then have "conn_ok cs2" unfolding cs2_def using assms(1) by (intro conn_ok_receiver) simp_all
      then show ?thesis
        using assms(2) f Inr Some a d ok conn_ok_deliver [of cs2 ms r cs']
        by (cases new) (auto simp: process_incoming_datagram_def cs1_def cs2_def Let_def)
    qed
  qed
qed

lemma pack_queue_left: "pack_queue mx p q s = Some (q', s') \<Longrightarrow> queue_ok q \<Longrightarrow> queue_ok q'"
proof (induction q arbitrary: s)
  case (Cons m q)
  then show ?case by (auto simp: queue_ok_def Let_def split: prod.splits if_splits)
qed simp

lemma pack_queue_tracks:
  "pack_queue mx p q s = Some (q', s') \<Longrightarrow> queue_ok q \<Longrightarrow> p < length (to_resend (pk_dgram s)) \<Longrightarrow>
     list_all queue_ok (to_resend (pk_dgram s)) \<Longrightarrow>
     list_all queue_ok (to_resend (pk_dgram s')) \<and> length (to_resend (pk_dgram s')) = length (to_resend (pk_dgram s))"
proof (induction q arbitrary: s)
  case (Cons m q)
  obtain ws wr wc c where pl: "plan_frame m (pk_ctx s) = ((ws, wr, wc), c)" by (metis surj_pair)
  have q: "sendable m" "queue_ok q" using Cons.prems(2) by (simp_all add: queue_ok_def)
  show ?case
  proof (cases "length (mdata m) + message_header_size m ws wr wc
      > mx - datagram_header_size - length (wdata (pk_payload s))")
    case True
    then show ?thesis using Cons.prems pl by (auto split: if_splits)
  next
    case False
    let ?s = "\<lparr>pk_ctx = wrote_frame m c,
      pk_payload = write_bytes (mdata m) (write_message_header m ws wr wc (pk_payload s)),
      pk_dgram = track_resend p m (pk_dgram s)\<rparr>"
    have "pack_queue mx p q ?s = Some (q', s')" using Cons.prems(1) pl False by (simp split: if_splits)
    moreover have "list_all queue_ok (to_resend (pk_dgram ?s))"
    proof -
      have "queue_ok [m]" using q(1) by (simp add: queue_ok_def)
      then show ?thesis using Cons.prems(3,4) by (simp add: track_resend_def queue_ok_append_at)
    qed
    moreover have "length (to_resend (pk_dgram ?s)) = length (to_resend (pk_dgram s))"
      by (simp add: track_resend_def)
    ultimately show ?thesis using Cons.IH [of ?s] q(2) Cons.prems(3) by simp
  qed
qed simp

lemma pack_queues_tracks:
  "pack_queues mx p qs s = Some (ls, s') \<Longrightarrow> list_all queue_ok qs \<Longrightarrow>
     p + length qs \<le> length (to_resend (pk_dgram s)) \<Longrightarrow> list_all queue_ok (to_resend (pk_dgram s)) \<Longrightarrow>
     list_all queue_ok ls \<and> length ls = length qs \<and> list_all queue_ok (to_resend (pk_dgram s'))
     \<and> length (to_resend (pk_dgram s')) = length (to_resend (pk_dgram s))"
proof (induction qs arbitrary: p s ls)
  case (Cons q qs)
  obtain l s1 ls' where q: "pack_queue mx p q s = Some (l, s1)"
    "pack_queues mx (p + 1) qs s1 = Some (ls', s')" "ls = l # ls'"
    using Cons.prems(1) by (auto split: option.splits)
  from Cons.IH [OF q(2)] pack_queue_tracks [OF q(1)] pack_queue_left [OF q(1)] Cons.prems q(3)
  show ?case by simp
qed simp

lemma conn_ok_generate:
  assumes "conn_ok cs" "generate_datagram compress now mx cs = Some (r, cs')"
  shows "conn_ok cs'"
proof -
  let ?s = "packer_init now (seq_next (datagram_seq_num cs))"
  obtain ls s where g: "pack_queues mx 0 (to_send cs) ?s = Some (ls, s)"
    using assms(2) by (auto simp: generate_datagram_def Let_def split: option.splits)
  have init: "list_all queue_ok (to_resend (pk_dgram ?s))" "length (to_resend (pk_dgram ?s)) = priority_max"
    by (simp_all add: datagram_data_new_def list_all_iff queue_ok_def)
  have "list_all queue_ok ls" "length ls = priority_max" "list_all queue_ok (to_resend (pk_dgram s))"
    "length (to_resend (pk_dgram s)) = priority_max"
    using pack_queues_tracks [OF g] init assms(1) by (simp_all add: conn_ok_def)
  then show ?thesis
    using assms g by (auto simp: generate_datagram_def conn_ok_def Let_def split: if_splits)
qed

lemma conn_ok_queue_ack: "conn_ok cs \<Longrightarrow> queue_ack now cs = Some cs' \<Longrightarrow> conn_ok cs'"
  by (auto simp: queue_ack_def write_ack_data_def Let_def split: option.splits dest!: conn_ok_queue_message [rotated])

lemma conn_ok_prepare:
  "conn_ok cs \<Longrightarrow> prepare_outgoing_datagram compress now mx cs = Some (r, cs') \<Longrightarrow> conn_ok cs'"
  by (auto simp: prepare_outgoing_datagram_def split: option.splits if_splits
      dest: conn_ok_queue_ack conn_ok_generate)

lemma conn_ok_pop: "conn_ok cs \<Longrightarrow> pop_ready_message ch cs = (x, cs') \<Longrightarrow> conn_ok cs'"
  by (auto simp: pop_ready_message_def conn_ok_def split: list.splits)

section \<open>Runs of a connection\<close>

text \<open>Every way the rest of the carrier changes a connection.\<close>

inductive conn_step ::
    "(bytes \<Rightarrow> bytes) \<Rightarrow> (bytes \<Rightarrow> nat \<Rightarrow> bytes option) \<Rightarrow> connection_state \<Rightarrow> connection_state \<Rightarrow> bool"
  for compress decompress where
  send: "queue_message m p cs = Some cs' \<Longrightarrow> conn_step compress decompress cs cs'"
| request: "conn_step compress decompress cs (queue_connect_request cs)"
| reply: "conn_step compress decompress cs (queue_connect_ack cs)"
| retry: "conn_step compress decompress cs (schedule_next_retry now cs)"
| connected: "conn_step compress decompress cs (cs\<lparr>cs_is_connecting := False\<rparr>)"
| resend: "conn_step compress decompress cs (snd (process_resends now cs))"
| incoming: "process_incoming_datagram decompress now d cs = Some (r, cs') \<Longrightarrow> conn_step compress decompress cs cs'"
| outgoing: "prepare_outgoing_datagram compress now mx cs = Some (e, cs') \<Longrightarrow> conn_step compress decompress cs cs'"
| deliver: "pop_ready_message ch cs = (x, cs') \<Longrightarrow> conn_step compress decompress cs cs'"

inductive_cases conn_stepE: "conn_step compress decompress cs cs'"

lemmas conn_ok_intros = conn_ok_queue_message conn_ok_handshake conn_ok_resends conn_ok_incoming
  conn_ok_prepare conn_ok_pop

lemma conn_step_ok: "conn_step compress decompress cs cs' \<Longrightarrow> conn_ok cs \<Longrightarrow> conn_ok cs'"
  by (induction rule: conn_step.induct) (auto intro: conn_ok_intros)

text \<open>
  C22. Every state a connection can reach is well formed: four priority queues and four channels,
  every queued or recorded message on a valid channel with at least one chunk, frames staged on
  their own channel. This is what rules out the index panics of the source.
\<close>

theorem connection_invariant:
  assumes "(conn_step compress decompress)\<^sup>*\<^sup>* (connection_new now compressed version) cs"
  shows "conn_ok cs"
  using assms by (induction rule: rtranclp_induct) (auto intro: conn_ok_new conn_step_ok)

theorem connection_invariant_witness:
  "conn_ok (queue_connect_request (connection_new 0 True 1))"
  by (rule connection_invariant [where compress = id and decompress = "\<lambda>b n. Some b", of 0 True 1])
    (auto intro: conn_step.request)

lemma queue_ack_total:
  assumes "conn_ok cs" "history_ok (received_datagrams_history cs)"
  shows "\<exists>cs'. queue_ack now cs = Some cs' \<and> conn_ok cs' \<and> history_ok (received_datagrams_history cs')"
proof -
  obtain la h wb where w: "write_ack_history (received_datagrams_history cs) write_carrier = Some (la, h, wb)"
    "history_ok h" "length (wdata wb) \<le> 67"
    using write_ack_history_total [OF assms(2)] by metis
  define cs1 where "cs1 = (case la of None \<Rightarrow> cs\<lparr>received_datagrams_history := h\<rparr>
    | Some s \<Rightarrow> cs\<lparr>received_datagrams_history := h, last_acked_datagram := s\<rparr>)"
  let ?m = "message_new\<lparr>channel := system_channel, reliability := Unreliable,
    is_connecting := cs_is_connecting cs1, mdata := wdata wb @ [sm_ct_acks]\<rparr>"
  have c1: "conn_ok cs1" "received_datagrams_history cs1 = h"
    using assms(1) by (simp_all add: cs1_def split: option.split)
  obtain cs2 where q: "queue_message ?m 0 cs1 = Some cs2" "received_datagrams_history cs2 = h"
    using w(3) c1(2)
    by (auto simp: queue_message_def queue_message_chunk_def carrier_consts message_new_def mtu_defs Let_def)
  have "queue_ack now cs = Some (cs2\<lparr>last_ack_send_time := now, received_since_last_send := False\<rparr>)"
    using w(1) q(1) by (simp add: queue_ack_def write_ack_data_def cs1_def Let_def split: option.splits)
  then show ?thesis using conn_ok_queue_message [OF c1(1) q(1)] q(2) w(2) by simp
qed

lemma generate_datagram_total:
  assumes "conn_ok cs"
  shows "\<exists>d cs'. generate_datagram compress now mx cs = Some (d, cs')
    \<and> received_datagrams_history cs' = received_datagrams_history cs"
proof -
  obtain ls s where "pack_queues mx 0 (to_send cs) (packer_init now (seq_next (datagram_seq_num cs))) = Some (ls, s)"
    using pack_queues_total assms unfolding conn_ok_def by metis
  then show ?thesis
    by (cases "wdata (pk_payload s) = []") (simp_all add: generate_datagram_def Let_def)
qed

text \<open>
  Preparing a datagram always returns and leaves the connection and its history well formed:
  no index is out of range, no ring walk runs on, no counter underflows.
\<close>

lemma prepare_outgoing_total:
  assumes "conn_ok cs" "history_ok (received_datagrams_history cs)"
  shows "\<exists>r cs'. prepare_outgoing_datagram compress now mx cs = Some (r, cs')
    \<and> conn_ok cs' \<and> history_ok (received_datagrams_history cs')"
proof -
  obtain cs1 where c: "(if should_send_ack now cs then queue_ack now cs else Some cs) = Some cs1"
    "conn_ok cs1" "history_ok (received_datagrams_history cs1)"
    using queue_ack_total [OF assms] assms by (cases "should_send_ack now cs") auto
  obtain d cs2 where g: "generate_datagram compress now mx cs1 = Some (d, cs2)"
    "received_datagrams_history cs2 = received_datagrams_history cs1"
    using generate_datagram_total [OF c(2)] by metis
  show ?thesis
    using c g conn_ok_generate [OF c(2) g(1)]
    by (simp add: prepare_outgoing_datagram_def)
qed

end
