(* ===== verification/Packing.thy ===== *)
theory Packing
  imports Queueing
begin

text \<open>
  Progress of the packing loops of \<open>generate_datagram\<close>, for the clients that repeat it: what is left of a
  queue is a suffix of it, a datagram takes at least one message from the queues, and a message of
  legal size waiting anywhere makes a datagram.
\<close>

section \<open>What is left is a suffix\<close>

lemma pack_queue_suffix: "pack_queue mx p q s = Some (q', s') \<Longrightarrow> \<exists>xs. q = xs @ q'"
proof (induction q arbitrary: s)
  case (Cons m q)
  obtain ws wr wc c where pl: "plan_frame m (pk_ctx s) = ((ws, wr, wc), c)" by (metis surj_pair)
  then show ?case
    using Cons.prems by (auto split: if_splits dest!: Cons.IH)
qed simp

lemma pack_queues_suffix:
  "pack_queues mx p qs s = Some (ls, s') \<Longrightarrow> length ls = length qs \<and> (\<forall>i < length qs. \<exists>xs. qs ! i = xs @ ls ! i)"
proof (induction qs arbitrary: p s ls)
  case (Cons q qs)
  obtain l s1 ls' where q: "pack_queue mx p q s = Some (l, s1)"
    "pack_queues mx (p + 1) qs s1 = Some (ls', s')" "ls = l # ls'"
    using Cons.prems(1) by (auto split: option.splits)
  show ?case using pack_queue_suffix [OF q(1)] Cons.IH [OF q(2)] q(3) by (auto simp: nth_Cons split: nat.split)
qed simp

lemma pack_queues_left_all:
  assumes "pack_queues mx p qs s = Some (ls, s')" "list_all (list_all P) qs"
  shows "list_all (list_all P) ls"
proof (unfold list_all_length, intro allI impI)
  fix i j assume i: "i < length ls" "j < length (ls ! i)"
  obtain xs where xs: "length ls = length qs" "qs ! i = xs @ ls ! i" using pack_queues_suffix [OF assms(1)] i(1) by metis
  moreover have "list_all P (qs ! i)" using assms(2) i(1) xs(1) by (simp add: list_all_length)
  ultimately show "P (ls ! i ! j)" using i(2) by (simp add: list_all_iff)
qed

section \<open>A message of legal size is packed\<close>

lemma header_size_le: "message_header_size m ws wr wc \<le> max_message_header_size"
  by (simp add: message_header_size_def mtu_defs)

lemma pack_queues_length: "pack_queues mx p qs s = Some (ls, s') \<Longrightarrow> length (concat ls) \<le> length (concat qs)"
proof (induction qs arbitrary: p s ls)
  case (Cons q qs)
  obtain l s1 ls' where q: "pack_queue mx p q s = Some (l, s1)"
    "pack_queues mx (p + 1) qs s1 = Some (ls', s')" "ls = l # ls'"
    using Cons.prems(1) by (auto split: option.splits)
  from pack_queue_suffix [OF q(1)] Cons.IH [OF q(2)] q(3) show ?case by auto
qed simp

lemma pack_queues_progress:
  assumes "list_all queue_ok qs" "concat qs = m # rest" "wdata (pk_payload s) = []"
    "length (mdata m) + max_message_header_size \<le> mx - datagram_header_size"
    "pack_queues mx p qs s = Some (ls, s')"
  shows "length (concat ls) < length (concat qs) \<and> wdata (pk_payload s') \<noteq> []"
  using assms
proof (induction qs arbitrary: p ls)
  case (Cons q qs)
  show ?case
  proof (cases q)
    case Nil
    then show ?thesis using Cons by auto
  next
    case (Cons x q')
    then have x: "x = m" "sendable m" using Cons.prems(1,2) by (auto simp: queue_ok_def)
    obtain ws wr wc c where pl: "plan_frame m (pk_ctx s) = ((ws, wr, wc), c)" by (metis surj_pair)
    obtain l s1 ls' where q: "pack_queue mx p q s = Some (l, s1)"
      "pack_queues mx (p + 1) qs s1 = Some (ls', s')" "ls = l # ls'"
      using Cons.prems(5) by (auto split: option.splits)
    let ?s = "\<lparr>pk_ctx = wrote_frame m c,
      pk_payload = write_bytes (mdata m) (write_message_header m ws wr wc (pk_payload s)),
      pk_dgram = track_resend p m (pk_dgram s)\<rparr>"
    have one: "pack_queue mx p q' ?s = Some (l, s1)"
      using q(1) Cons x pl Cons.prems(3,4) header_size_le [of m ws wr wc]
      by (auto simp: sendable_def split: if_splits)
    have "length (concat ls') \<le> length (concat qs)"
      using pack_queues_length [OF q(2)] .
    moreover have "length l < length q"
      using pack_queue_suffix [OF one] Cons by auto
    moreover have "wdata (pk_payload s') \<noteq> []"
      using pack_queue_nothing [OF one] pack_queues_nothing [OF q(2)]
        wdata_write_message_header [of m ws wr wc "pk_payload s"]
      by (auto simp: message_header_size_def)
    ultimately show ?thesis using q(3) by simp
  qed
qed simp

lemma generate_progress:
  assumes "conn_ok S" "concat (to_send S) = m # rest"
    "length (mdata m) \<le> max_message_data_size" "max_datagram_size \<le> mx"
  obtains d S' where "generate_datagram compress now mx S = Some (Some d, S')"
    "length (concat (to_send S')) < length (concat (to_send S))"
proof -
  have qs: "list_all queue_ok (to_send S)" using assms(1) by (simp add: conn_ok_def)
  obtain ls s where q: "pack_queues mx 0 (to_send S) (packer_init now (seq_next (datagram_seq_num S))) = Some (ls, s)"
    using pack_queues_total [OF qs] by metis
  have "length (mdata m) + max_message_header_size \<le> mx - datagram_header_size"
    using assms(3,4) by (simp add: mtu_defs)
  then have "length (concat ls) < length (concat (to_send S)) \<and> wdata (pk_payload s) \<noteq> []"
    using pack_queues_progress [OF qs assms(2) _ _ q] by simp
  then show thesis using that q by (auto simp: generate_datagram_def Let_def)
qed

section \<open>A datagram takes messages from the queues\<close>

lemma pack_queue_shrinks:
  "pack_queue mx p q s = Some (q', s') \<Longrightarrow>
     length q' \<le> length q \<and> (length q' = length q \<longrightarrow> pk_payload s' = pk_payload s)"
proof (induction q arbitrary: s)
  case (Cons m q)
  then show ?case by (fastforce simp: Let_def split: prod.splits if_splits)
qed simp

lemma pack_queues_shrinks:
  "pack_queues mx p qs s = Some (ls, s') \<Longrightarrow>
     length (concat ls) \<le> length (concat qs)
     \<and> (length (concat ls) = length (concat qs) \<longrightarrow> pk_payload s' = pk_payload s)"
proof (induction qs arbitrary: p s ls)
  case (Cons q qs)
  obtain l s1 ls' where "pack_queue mx p q s = Some (l, s1)" "pack_queues mx (p + 1) qs s1 = Some (ls', s')"
    "ls = l # ls'"
    using Cons.prems by (auto split: option.splits)
  then show ?case
    using Cons.IH [of "p + 1" s1 ls'] pack_queue_shrinks [of mx p q s l s1] by auto
qed simp

lemma generated_datagram_shrinks:
  assumes "generate_datagram compress now mx cs = Some (Some dg, cs')"
  shows "length (concat (to_send cs')) < length (concat (to_send cs))"
proof -
  obtain ls s where g: "pack_queues mx 0 (to_send cs) (packer_init now (seq_next (datagram_seq_num cs))) = Some (ls, s)"
    "wdata (pk_payload s) \<noteq> []" "to_send cs' = ls"
    using generate_datagram_cases [OF assms] by metis
  then show ?thesis
    using pack_queues_shrinks [OF g(1)] by fastforce
qed

end
