(* ===== verification/Link.thy ===== *)
theory Link
  imports Packing
begin

text \<open>
  Two connections joined by a link that loses nothing and keeps the order: what one application
  queues, the other receives. The abstract service is a first-in first-out queue of payloads per
  channel; \<open>link\<close> relates a pair of connection states to the messages still in flight, and every
  datagram moved from one to the other is a step of that queue.
\<close>

section \<open>Draining with an incomplete last message\<close>

lemma next_ready_incomplete:
  assumes "group_ok s g" "g = xs @ ys" "ys \<noteq> []" "staging r ! ch = xs"
  shows "next_ready ch r = (None, r)"
proof (cases xs)
  case Nil
  then show ?thesis using assms by (simp add: next_ready_def)
next
  case (Cons h t)
  then have "unat (num_chunks h) = length xs + length ys" "reliability h = Reliable"
    using assms by (auto simp: group_ok_def)
  then show ?thesis
    using assms(3,4) Cons by (cases ys) (auto simp: next_ready_def Let_def)
qed

lemma drain_channel_partial:
  assumes "reasm_wf r" "ch < max_channels" "staging r ! ch @ ys = concat gs"
    "groups_ok (received_reliable_seq_num r ! ch) gs"
  shows "\<exists>gs1 gs2. gs = gs1 @ gs2 \<and> fst (drain_channel ch r) = map (delivered ch) gs1
    \<and> staging (snd (drain_channel ch r)) ! ch @ ys = concat gs2
    \<and> groups_ok (received_reliable_seq_num (snd (drain_channel ch r)) ! ch) gs2 \<and> (ys = [] \<longrightarrow> gs2 = [])
    \<and> received_reliable_seq_num (snd (drain_channel ch r)) ! ch
        = received_reliable_seq_num r ! ch + of_nat (length (concat gs1))"
  using assms
proof (induction gs arbitrary: r)
  case Nil
  then have "drain_channel ch r = ([], r)"
    by (intro drain_channel_unfold) (simp_all add: reasm_wf_def next_ready_def)
  then show ?case using Nil by simp
next
  case (Cons g gs)
  have len: "ch < length (staging r)" using Cons.prems by (simp add: reasm_wf_def)
  have g: "group_ok (received_reliable_seq_num r ! ch) g" using Cons.prems(4) by simp
  consider (whole) q where "staging r ! ch = g @ q" "q @ ys = concat gs"
    | (part) z where "g = (staging r ! ch) @ z" "z \<noteq> []"
    using Cons.prems(3) by (auto simp: append_eq_append_conv2) blast
  then show ?case
  proof cases
    case whole
    obtain r' where r': "next_ready ch r = (Some (delivered ch g), r')" "staging r' ! ch = q"
      "received_reliable_seq_num r' ! ch = received_reliable_seq_num r ! ch + of_nat (length g)"
      using next_ready_group [OF Cons.prems(1,2) whole(1) g] .
    have "reasm_wf r'" by (rule next_ready_wf [OF Cons.prems(1,2) r'(1)])
    then obtain gs1 gs2 where "gs = gs1 @ gs2" "fst (drain_channel ch r') = map (delivered ch) gs1"
      "staging (snd (drain_channel ch r')) ! ch @ ys = concat gs2"
      "groups_ok (received_reliable_seq_num (snd (drain_channel ch r')) ! ch) gs2" "ys = [] \<longrightarrow> gs2 = []"
      "received_reliable_seq_num (snd (drain_channel ch r')) ! ch
        = received_reliable_seq_num r' ! ch + of_nat (length (concat gs1))"
      using Cons.IH [of r'] Cons.prems(2,4) r'(2,3) whole(2) by auto
    then show ?thesis
      using r'(3)
      by (intro exI [of _ "g # gs1"] exI [of _ gs2])
        (simp add: drain_channel_unfold(2) [OF len r'(1)] add.assoc)
  next
    case part
    then have "drain_channel ch r = ([], r)"
      using next_ready_incomplete [OF g part refl] drain_channel_unfold(1) [OF len] by blast
    moreover have "ys \<noteq> []" using part Cons.prems(3) by auto
    ultimately show ?thesis using Cons.prems by (intro exI [of _ "[]"] exI [of _ "g # gs"]) simp
  qed
qed

lemma drain_channel_empty:
  "reasm_wf r \<Longrightarrow> c < max_channels \<Longrightarrow> staging r ! c = [] \<Longrightarrow> drain_channel c r = ([], r)"
  by (intro drain_channel_unfold) (simp_all add: reasm_wf_def next_ready_def)

lemma drain_from_empty:
  "reasm_wf r \<Longrightarrow> \<forall>c \<in> set cs. c < max_channels \<and> staging r ! c = [] \<Longrightarrow> drain_from cs r = ([], r)"
  by (induction cs) (simp_all add: drain_channel_empty)

lemma drain_from_append:
  "drain_from (as @ bs) r =
     (let (x, r1) = drain_from as r; (y, r2) = drain_from bs r1 in (x @ y, r2))"
  by (induction as arbitrary: r) (simp_all add: Let_def case_prod_beta)

lemma drain_one_channel:
  assumes wf: "reasm_wf r" and ch: "ch < max_channels"
    and empty: "\<And>c. c < max_channels \<Longrightarrow> c \<noteq> ch \<Longrightarrow> staging r ! c = []"
  shows "drain r = (map (\<lambda>m. (of_nat ch, m)) (fst (drain_channel ch r)), snd (drain_channel ch r))"
proof -
  let ?r = "snd (drain_channel ch r)"
  have split: "[0..<max_channels] = [0..<ch] @ ch # [Suc ch..<max_channels]"
    using ch by (metis less_imp_le_nat upt_add_eq_append upt_conv_Cons le_add_diff_inverse zero_le)
  have "drain_from [0..<ch] r = ([], r)" using wf ch empty by (intro drain_from_empty) auto
  moreover have "drain_from [Suc ch..<max_channels] ?r = ([], ?r)"
    using drain_channel_wf [OF wf ch] run_frame [OF drain_channel_run [OF wf ch]] empty
    by (intro drain_from_empty) auto
  ultimately show ?thesis
    unfolding drain_def split drain_from_append by (simp add: Let_def case_prod_beta)
qed

section \<open>Delivery to the application\<close>

lemma deliver_application:
  assumes "ch < unat system_channel" "ch < length (to_receive cs)"
  shows "deliver_messages (map (\<lambda>m. (of_nat ch, m)) ms) cs =
    (Ok (), cs\<lparr>to_receive := append_at ch ms (to_receive cs)\<rparr>)"
  using assms(2)
proof (induction ms arbitrary: cs)
  case (Cons m ms)
  have u: "unat (of_nat ch :: u8) = ch" "(of_nat ch :: u8) \<noteq> system_channel"
    using assms(1) by (auto simp: system_channel_def unat_of_nat take_bit_nat_eq_self word_unat_eq_iff)
  then show ?case using Cons by (simp add: append_at_def)
qed simp

section \<open>The link relation\<close>

text \<open>
  \<open>gs\<close> are the messages in flight, each as its list of chunks: the chunks staged at the receiver
  followed by those queued at the sender. \<open>k\<close> datagrams numbered from \<open>b\<close> have arrived.
\<close>

definition arrivals :: "nat \<Rightarrow> seqno \<Rightarrow> datagram_history \<Rightarrow> bool" where
  "arrivals k b h \<longleftrightarrow> (if k = 0 then history_ok h \<and> num_active_elements h = 0 else ring b 0 (k - 1) h)"

lemma arrivals_insert:
  assumes "arrivals k b h" "k < max_elements"
  shows "\<exists>h'. history_insert (b + of_nat k) h = Some (True, h') \<and> arrivals (Suc k) b h'"
proof (cases k)
  case 0
  then have "length (elements h) = max_elements" "num_active_elements h = 0" "\<forall>i < max_elements. \<not> is_valid h i"
    using assms by (simp_all add: arrivals_def history_ok_def)
  then obtain h' where "history_insert b h = Some (True, h')" "ring b 0 0 h'"
    using insert_empty [of h b] by blast
  then show ?thesis using 0 by (simp add: arrivals_def)
next
  case (Suc n)
  have r: "ring b 0 n h" using assms(1) Suc by (simp add: arrivals_def)
  then have w: "window b 0 n h" by (simp add: ring_def)
  have k: "k = unat (b + of_nat k - b)"
    using assms(2) by (simp add: unat_of_nat take_bit_nat_eq_self max_elements_def)
  have "\<not> history_contains h (b + of_nat k)"
  proof
    assume "history_contains h (b + of_nat k)"
    then obtain j where "j \<le> n" "b + of_nat k = b + (of_nat j :: seqno)"
      using history_contains_window [OF w] by auto
    then have eq: "unat (of_nat k :: seqno) = unat (of_nat j :: seqno)" by simp
    have "unat (of_nat i :: seqno) = i" if "i \<le> k" for i
      using that assms(2) by (simp add: unat_of_nat take_bit_nat_eq_self max_elements_def)
    then have "k = j" using eq \<open>j \<le> n\<close> unfolding Suc by (metis le_SucI order_refl)
    then show False using \<open>j \<le> n\<close> Suc by simp
  qed
  moreover obtain h' where "history_insert (b + of_nat k) h = Some (\<not> history_contains h (b + of_nat k), h')"
    "ring b 0 (max n k) h'"
    using insert_ring [OF r k] assms(2) by metis
  ultimately show ?thesis using Suc by (simp add: arrivals_def max_def)
qed

definition link ::
    "nat \<Rightarrow> nat \<Rightarrow> nat \<Rightarrow> message_data list list \<Rightarrow> connection_state \<Rightarrow> connection_state \<Rightarrow> bool" where
  "link ch p k gs S R \<longleftrightarrow> conn_ok S \<and> conn_ok R \<and> ch < unat system_channel \<and> p < priority_max
     \<and> (\<forall>i < priority_max. i \<noteq> p \<longrightarrow> to_send S ! i = [])
     \<and> (\<forall>c < max_channels. c \<noteq> ch \<longrightarrow> staging (receiver R) ! c = [])
     \<and> list_all (\<lambda>m. unat (channel m) = ch) (concat gs)
     \<and> staging (receiver R) ! ch @ to_send S ! p = concat gs
     \<and> groups_ok (received_reliable_seq_num (receiver R) ! ch) gs \<and> (to_send S ! p = [] \<longrightarrow> gs = [])
     \<and> cs_send_reliable_seq_num S ! ch
         = received_reliable_seq_num (receiver R) ! ch + of_nat (length (concat gs))
     \<and> arrivals k (seq_next (datagram_seq_num S) - of_nat k) (received_datagrams_history R)"

lemma only_head_nonempty:
  assumes "\<forall>i < length (q # qs). i \<noteq> 0 \<longrightarrow> (q # qs) ! i = []"
  shows "concat qs = []"
proof -
  have "qs ! i = []" if "i < length qs" for i
    using assms [rule_format, of "Suc i"] that by simp
  then show ?thesis by (auto simp: in_set_conv_nth)
qed

lemma concat_single:
  "\<lbrakk>\<forall>i < length qs. i \<noteq> p \<longrightarrow> qs ! i = []; p < length qs\<rbrakk> \<Longrightarrow> concat qs = qs ! p"
proof (induction qs arbitrary: p)
  case (Cons q qs)
  show ?case
  proof (cases p)
    case 0
    then show ?thesis using only_head_nonempty [of q qs] Cons.prems(1) by simp
  next
    case (Suc p')
    have "concat qs = qs ! p'" using Cons.prems Suc by (intro Cons.IH) auto
    then show ?thesis using Suc Cons.prems(1) by force
  qed
qed simp

lemma clean_left_single:
  "length ls = length qs \<Longrightarrow> \<forall>i < length qs. i \<noteq> p \<longrightarrow> qs ! i = [] \<Longrightarrow>
     \<forall>i < length qs. i \<noteq> p \<longrightarrow> ls ! i = [] \<Longrightarrow> clean_left qs ls"
proof (induction qs ls arbitrary: p rule: clean_left.induct)
  case (1 q qs l ls)
  show ?case
  proof (cases p)
    case 0
    then show ?thesis using only_head_nonempty [of q qs] "1.prems"(2) by simp
  next
    case (Suc p')
    then have "clean_left qs ls" using "1.prems" by (intro "1.IH" [of p']) auto
    then show ?thesis using "1.prems"(3) Suc by force
  qed
qed simp_all

lemma generate_keeps_counters:
  "generate_datagram compress now mx S = Some (r, S') \<Longrightarrow>
     cs_send_reliable_seq_num S' = cs_send_reliable_seq_num S"
  by (auto simp: generate_datagram_def Let_def split: option.splits if_splits)

lemma link_generate:
  assumes L: "link ch p k gs S R" and lz: "lz4_ok compress decompress" and mx: "mx \<le> max_decompressed_bytes"
    and g: "generate_datagram compress now mx S = Some (Some d, S')"
  obtains dd where "decode_datagram decompress d = Ok dd"
    "dh_sequence_number (dd_header dd) = seq_next (datagram_seq_num S)"
    "to_send S ! p = dd_frames dd @ to_send S' ! p"
    "\<forall>i < priority_max. i \<noteq> p \<longrightarrow> to_send S' ! i = []" "conn_ok S'"
    "datagram_seq_num S' = seq_next (datagram_seq_num S)"
    "cs_send_reliable_seq_num S' = cs_send_reliable_seq_num S"
proof -
  have ok: "conn_ok S" "p < priority_max" "length (to_send S) = priority_max"
    and em: "\<forall>i < priority_max. i \<noteq> p \<longrightarrow> to_send S ! i = []"
    using L by (simp_all add: link_def conn_ok_def)
  obtain ls s where q: "pack_queues mx 0 (to_send S) (packer_init now (seq_next (datagram_seq_num S))) = Some (ls, s)"
    "to_send S' = ls" "datagram_seq_num S' = seq_next (datagram_seq_num S)"
    using generate_datagram_cases [OF g] by metis
  have len: "length ls = priority_max" and em': "\<forall>i < priority_max. i \<noteq> p \<longrightarrow> ls ! i = []"
    using pack_queues_suffix [OF q(1)] ok(3) em by auto
  have "clean_left (to_send S) (to_send S')"
    using clean_left_single [of ls "to_send S" p] len ok(3) em em' q(2) by simp
  then obtain dd where dd: "decode_datagram decompress d = Ok dd"
    "dh_sequence_number (dd_header dd) = seq_next (datagram_seq_num S)"
    "concat (to_send S) = dd_frames dd @ concat (to_send S')"
    using generate_decodes [OF ok(1) lz mx g] by blast
  have "concat (to_send S) = to_send S ! p" "concat (to_send S') = to_send S' ! p"
    using concat_single [of "to_send S" p] concat_single [of ls p] ok em em' len q(2) by simp_all
  then show thesis
    using that [OF dd(1,2)] dd(3) em' q(2,3) conn_ok_generate [OF ok(1) g] generate_keeps_counters [OF g]
    by simp
qed

lemma link_receive:
  assumes L: "link ch p k gs S R" and k: "k < max_elements"
    and dd: "decode_datagram decompress d = Ok dd" "dh_sequence_number (dd_header dd) = seq_next (datagram_seq_num S)"
      "to_send S ! p = dd_frames dd @ ys"
  obtains gs1 gs2 r' h' where "gs = gs1 @ gs2"
    "process_incoming_datagram decompress now d R = Some (Ok (), R\<lparr>received_since_last_send := True,
       receiver := r', received_datagrams_history := h', last_received_datagram_time := now,
       to_receive := append_at ch (map (delivered ch) gs1) (to_receive R)\<rparr>)"
    "reasm_wf r'" "\<forall>c < max_channels. c \<noteq> ch \<longrightarrow> staging r' ! c = []" "staging r' ! ch @ ys = concat gs2"
    "groups_ok (received_reliable_seq_num r' ! ch) gs2" "ys = [] \<longrightarrow> gs2 = []"
    "received_reliable_seq_num r' ! ch
       = received_reliable_seq_num (receiver R) ! ch + of_nat (length (concat gs1))"
    "arrivals (Suc k) (seq_next (datagram_seq_num S) - of_nat k) h'"
proof -
  let ?r = "receiver R" and ?sn = "seq_next (datagram_seq_num S)"
  define r1 where "r1 = fold accept (dd_frames dd) ?r"
  have ok: "conn_ok R" "ch < unat system_channel" "ch < max_channels"
    using L by (simp_all add: link_def carrier_consts)
  have wf: "reasm_wf ?r" and len: "length (to_receive R) = max_channels" using ok(1) by (simp_all add: conn_ok_def)
  have all: "list_all (\<lambda>m. unat (channel m) = ch) (dd_frames dd)"
    and gs: "staging ?r ! ch @ dd_frames dd @ ys = concat gs"
    and cur: "groups_ok (received_reliable_seq_num ?r ! ch) gs"
    and em: "\<forall>c < max_channels. c \<noteq> ch \<longrightarrow> staging ?r ! c = []"
  proof -
    show gs: "staging ?r ! ch @ dd_frames dd @ ys = concat gs" using L dd(3) by (simp add: link_def)
    have "list_all (\<lambda>m. unat (channel m) = ch) (staging ?r ! ch @ dd_frames dd @ ys)"
      unfolding gs using L by (simp add: link_def)
    then show "list_all (\<lambda>m. unat (channel m) = ch) (dd_frames dd)" by simp
  qed (use L in \<open>simp_all add: link_def\<close>)
  have wf1: "reasm_wf r1" using reasm_wf_fold_accept [OF wf] by (simp add: r1_def)
  have "filter (\<lambda>m. unat (channel m) = ch) (dd_frames dd) = dd_frames dd"
    "filter (\<lambda>m. unat (channel m) = c) (dd_frames dd) = []" if "c \<noteq> ch" for c
    using all that by (auto simp: list_all_iff filter_empty_conv)
  then have st: "staging r1 ! ch = staging ?r ! ch @ dd_frames dd"
    "\<And>c. c < max_channels \<Longrightarrow> c \<noteq> ch \<Longrightarrow> staging r1 ! c = []"
    using fold_accept_staging [OF wf] ok(3) em all
    by (auto simp: r1_def list_all_iff filter_id_conv)
  obtain gs1 gs2 where p: "gs = gs1 @ gs2" "fst (drain_channel ch r1) = map (delivered ch) gs1"
    "staging (snd (drain_channel ch r1)) ! ch @ ys = concat gs2"
    "groups_ok (received_reliable_seq_num (snd (drain_channel ch r1)) ! ch) gs2" "ys = [] \<longrightarrow> gs2 = []"
    "received_reliable_seq_num (snd (drain_channel ch r1)) ! ch
       = received_reliable_seq_num ?r ! ch + of_nat (length (concat gs1))"
    using drain_channel_partial [OF wf1 ok(3), of ys gs] gs cur st(1) by (auto simp: r1_def)
  let ?r' = "snd (drain_channel ch r1)"
  have dr: "drain r1 = (map (\<lambda>m. (of_nat ch, m)) (map (delivered ch) gs1), ?r')"
    using drain_one_channel [OF wf1 ok(3) st(2)] p(2) by simp
  have arr: "arrivals k (?sn - of_nat k) (received_datagrams_history R)" using L by (simp add: link_def)
  obtain h' where h: "history_insert ?sn (received_datagrams_history R) = Some (True, h')"
    "arrivals (Suc k) (?sn - of_nat k) h'"
    using arrivals_insert [OF arr k] by auto
  have "process_incoming_datagram decompress now d R = Some (Ok (), R\<lparr>received_since_last_send := True,
       receiver := ?r', received_datagrams_history := h', last_received_datagram_time := now,
       to_receive := append_at ch (map (delivered ch) gs1) (to_receive R)\<rparr>)"
    using dd h(1) dr deliver_application [OF ok(2), where ms = "map (delivered ch) gs1"] ok(3) len
    by (simp add: process_incoming_datagram_def feed_def r1_def [symmetric] Let_def)
  moreover have "\<forall>c < max_channels. c \<noteq> ch \<longrightarrow> staging ?r' ! c = []"
    using run_frame [OF drain_channel_run [OF wf1 ok(3)]] st(2) by auto
  ultimately show thesis using that p(1,3-6) drain_channel_wf [OF wf1 ok(3)] h(2) by blast
qed

lemma link_step:
  assumes L: "link ch p k gs S R" and k: "k < max_elements" and lz: "lz4_ok compress decompress"
    and mx: "mx \<le> max_decompressed_bytes" and g: "generate_datagram compress now mx S = Some (Some d, S')"
  shows "\<exists>gs1 gs2 R'. gs = gs1 @ gs2 \<and> process_incoming_datagram decompress now' d R = Some (Ok (), R')
    \<and> link ch p (Suc k) gs2 S' R'
    \<and> to_receive R' = append_at ch (map (delivered ch) gs1) (to_receive R)"
proof -
  obtain dd where dd: "decode_datagram decompress d = Ok dd"
    "dh_sequence_number (dd_header dd) = seq_next (datagram_seq_num S)"
    "to_send S ! p = dd_frames dd @ to_send S' ! p"
    "\<forall>i < priority_max. i \<noteq> p \<longrightarrow> to_send S' ! i = []" "conn_ok S'"
    "datagram_seq_num S' = seq_next (datagram_seq_num S)"
    "cs_send_reliable_seq_num S' = cs_send_reliable_seq_num S"
    using link_generate [OF L lz mx g] .
  obtain gs1 gs2 r' h' where r: "gs = gs1 @ gs2"
    "process_incoming_datagram decompress now' d R = Some (Ok (), R\<lparr>received_since_last_send := True,
       receiver := r', received_datagrams_history := h', last_received_datagram_time := now',
       to_receive := append_at ch (map (delivered ch) gs1) (to_receive R)\<rparr>)"
    "reasm_wf r'" "\<forall>c < max_channels. c \<noteq> ch \<longrightarrow> staging r' ! c = []" "staging r' ! ch @ to_send S' ! p = concat gs2"
    "groups_ok (received_reliable_seq_num r' ! ch) gs2" "to_send S' ! p = [] \<longrightarrow> gs2 = []"
    "received_reliable_seq_num r' ! ch
       = received_reliable_seq_num (receiver R) ! ch + of_nat (length (concat gs1))"
    "arrivals (Suc k) (seq_next (datagram_seq_num S) - of_nat k) h'"
    using link_receive [OF L k dd(1-3)] .
  have "seq_next (datagram_seq_num S') - of_nat (Suc k) = seq_next (datagram_seq_num S) - of_nat k"
    by (simp add: dd(6) seq_next_def)
  then have "arrivals (Suc k) (seq_next (datagram_seq_num S') - of_nat (Suc k)) h'"
    using r(9) by (simp only:)
  then have "link ch p (Suc k) gs2 S' (R\<lparr>received_since_last_send := True,
       receiver := r', received_datagrams_history := h', last_received_datagram_time := now',
       to_receive := append_at ch (map (delivered ch) gs1) (to_receive R)\<rparr>)"
    using L dd(4,5) r(1,4-8) dd(7) conn_ok_incoming [OF _ r(2)] unfolding link_def
    by (simp add: r(3) del: of_nat_Suc)
  then show ?thesis using r(1,2) by (intro exI) auto
qed

text \<open>Progress: a chunk at the front of the only queue always fits an empty datagram.\<close>

section \<open>Moving everything\<close>

text \<open>
  The link at work: generate a datagram, hand it to the peer, and again until there is nothing to
  generate. The fuel bounds the number of datagrams.
\<close>

fun transfer ::
    "(bytes \<Rightarrow> bytes) \<Rightarrow> (bytes \<Rightarrow> nat \<Rightarrow> bytes option) \<Rightarrow> instant \<Rightarrow> nat \<Rightarrow> nat \<Rightarrow>
     connection_state \<Rightarrow> connection_state \<Rightarrow> (connection_state \<times> connection_state) option" where
  "transfer compress decompress now mx fuel S R =
     (case generate_datagram compress now mx S of
        None \<Rightarrow> None
      | Some (None, S') \<Rightarrow> Some (S', R)
      | Some (Some d, S') \<Rightarrow>
          (case fuel of 0 \<Rightarrow> None
           | Suc n \<Rightarrow>
               (case process_incoming_datagram decompress now d R of
                  Some (Inr _, R') \<Rightarrow> transfer compress decompress now mx n S' R'
                | _ \<Rightarrow> None)))"

declare transfer.simps [simp del]

lemma transfer_link:
  assumes "lz4_ok compress decompress" "max_datagram_size \<le> mx" "mx \<le> max_decompressed_bytes"
  shows "link ch p k gs S R \<Longrightarrow> list_all (\<lambda>m. length (mdata m) \<le> max_message_data_size) (concat gs) \<Longrightarrow>
    length (to_send S ! p) \<le> fuel \<Longrightarrow> k + fuel \<le> max_elements \<Longrightarrow>
    \<exists>S' R'. transfer compress decompress now mx fuel S R = Some (S', R') \<and> concat (to_send S') = []
      \<and> to_receive R' = append_at ch (map (delivered ch) gs) (to_receive R)"
proof (induction fuel arbitrary: k gs S R)
  case 0
  then have S: "concat (to_send S) = []" "gs = []" and ok: "conn_ok S"
    using concat_single [of "to_send S" p] by (simp_all add: link_def conn_ok_def)
  have "generate_datagram compress now mx S = Some (None, S)"
    using pack_queues_empty [OF S(1)] by (simp add: generate_datagram_def Let_def)
  then show ?case using S by (subst transfer.simps) simp
next
  case (Suc fuel)
  have ok: "conn_ok S" and q: "concat (to_send S) = to_send S ! p"
    and pre: "staging (receiver R) ! ch @ to_send S ! p = concat gs" "to_send S ! p = [] \<longrightarrow> gs = []"
    using Suc.prems(1) concat_single [of "to_send S" p] by (simp_all add: link_def conn_ok_def)
  show ?case
  proof (cases "to_send S ! p")
    case Nil
    then have S: "concat (to_send S) = []" "gs = []" using q pre by simp_all
    have "generate_datagram compress now mx S = Some (None, S)"
      using pack_queues_empty [OF S(1)] by (simp add: generate_datagram_def Let_def)
    then show ?thesis using S by (subst transfer.simps) simp
  next
    case (Cons m rest)
    have "m \<in> set (concat gs)" unfolding pre(1) [symmetric] using Cons by simp
    then have "length (mdata m) \<le> max_message_data_size" using Suc.prems(2) by (auto simp: list_all_iff)
    then obtain d S1 where g: "generate_datagram compress now mx S = Some (Some d, S1)"
      "length (concat (to_send S1)) < length (concat (to_send S))"
      using generate_progress [OF ok, of m rest mx compress now] q Cons assms(2) by auto
    obtain gs1 gs2 R1 where st: "gs = gs1 @ gs2"
      "process_incoming_datagram decompress now d R = Some (Ok (), R1)" "link ch p (Suc k) gs2 S1 R1"
      "to_receive R1 = append_at ch (map (delivered ch) gs1) (to_receive R)"
      using link_step [OF Suc.prems(1) _ assms(1,3) g(1), of now] Suc.prems(4) by auto
    have "concat (to_send S1) = to_send S1 ! p"
      using st(3) concat_single [of "to_send S1" p] by (simp add: link_def conn_ok_def)
    then have "length (to_send S1 ! p) \<le> fuel" using g(2) q Suc.prems(3) by simp
    then obtain S' R' where "transfer compress decompress now mx fuel S1 R1 = Some (S', R')"
      "concat (to_send S') = []" "to_receive R' = append_at ch (map (delivered ch) gs2) (to_receive R1)"
      using Suc.IH [OF st(3)] Suc.prems(2,4) st(1) by auto
    moreover have "ch < length (to_receive R)"
      using Suc.prems(1) by (simp add: link_def conn_ok_def carrier_consts)
    ultimately show ?thesis using g(1) st by (subst transfer.simps) simp
  qed
qed

section \<open>Queueing on a linked connection\<close>

lemma groups_ok_snoc:
  "groups_ok s (gs @ [g]) \<longleftrightarrow> groups_ok s gs \<and> group_ok (s + of_nat (length (concat gs))) g"
  by (induction gs arbitrary: s) (auto simp: add.assoc)

lemma chunk_series_all:
  "chunk_series c s r xs \<Longrightarrow> list_all (\<lambda>m. channel m = c \<and> length (mdata m) \<le> max_message_data_size) xs"
  by (induction xs arbitrary: s r) auto

lemma link_send:
  assumes L: "link ch p k gs S R" and m: "unat (channel m) = ch" "reliability m = Reliable"
    "chunks_needed (length (mdata m)) \<le> max_num_chunks"
  shows "\<exists>g S'. queue_message m p S = Some S' \<and> link ch p k (gs @ [g]) S' R \<and> concat (map mdata g) = mdata m
    \<and> length g = chunks_needed (length (mdata m)) \<and> list_all (\<lambda>x. length (mdata x) \<le> max_message_data_size) g
    \<and> to_send S' ! p = to_send S ! p @ g"
proof -
  have ok: "conn_ok S" "p < priority_max" "ch < max_channels" using L by (auto simp: link_def carrier_consts)
  have pp: "prio p = p" using ok(2) by (simp add: prio_def)
  obtain g where q: "queue_message m p S = Some (sent_on p ch g S)"
    "chunk_series (channel m) (send_seq_num S ! ch) (cs_send_reliable_seq_num S ! ch) g"
    "concat (map mdata g) = mdata m" "length g = chunks_needed (length (mdata m))"
    using fragments [OF ok(1) _ m(2,3), of p] ok(3) m(1) pp by auto
  have ne: "g \<noteq> []" using q(4) by (auto simp: chunks_needed_def split: if_splits)
  have len: "length (to_send S) = priority_max" "length (cs_send_reliable_seq_num S) = max_channels"
    using ok(1) by (simp_all add: conn_ok_def)
  have all: "list_all (\<lambda>x. unat (channel x) = ch \<and> length (mdata x) \<le> max_message_data_size) g"
    using chunk_series_all [OF q(2)] m(1) by (simp add: list_all_iff)
  have ach: "list_all (\<lambda>x. unat (channel x) = ch) g" using all by (simp add: list_all_iff)
  have "conn_ok (sent_on p ch g S)"
    using conn_ok_queue_message [OF ok(1) q(1)] .
  moreover have "group_ok (cs_send_reliable_seq_num S ! ch) g"
    using chunk_series_group [OF q(2) ne] .
  ultimately have "link ch p k (gs @ [g]) (sent_on p ch g S) R"
    using L len ok ne ach
    by (simp add: link_def groups_ok_snoc sent_on_def append_at_def add.assoc)
  then show ?thesis
    using q(1,3,4) all len ok(2)
    by (intro exI [of _ g] exI [of _ "sent_on p ch g S"]) (simp add: list_all_iff sent_on_def append_at_def)
qed

fun queue_all :: "message_data list \<Rightarrow> nat \<Rightarrow> connection_state \<Rightarrow> connection_state option" where
  "queue_all [] p cs = Some cs"
| "queue_all (m # ms) p cs =
     (case queue_message m p cs of None \<Rightarrow> None | Some cs' \<Rightarrow> queue_all ms p cs')"

definition total_chunks :: "message_data list \<Rightarrow> nat" where
  "total_chunks ms = (\<Sum>m \<leftarrow> ms. chunks_needed (length (mdata m)))"

lemma link_queue_all:
  "link ch p k gs S R \<Longrightarrow>
     list_all (\<lambda>m. unat (channel m) = ch \<and> reliability m = Reliable) ms \<Longrightarrow> total_chunks ms \<le> max_num_chunks \<Longrightarrow>
     \<exists>hs S'. queue_all ms p S = Some S' \<and> link ch p k (gs @ hs) S' R
       \<and> map (\<lambda>g. concat (map mdata g)) hs = map mdata ms
       \<and> list_all (\<lambda>x. length (mdata x) \<le> max_message_data_size) (concat hs) \<and> list_all (\<lambda>g. g \<noteq> []) hs
       \<and> length (to_send S' ! p) = length (to_send S ! p) + total_chunks ms"
proof (induction ms arbitrary: gs S)
  case Nil
  then show ?case by (intro exI [of _ "[]"]) (simp add: total_chunks_def)
next
  case (Cons m ms)
  obtain g S1 where m: "queue_message m p S = Some S1" "link ch p k (gs @ [g]) S1 R" "concat (map mdata g) = mdata m"
    "length g = chunks_needed (length (mdata m))" "list_all (\<lambda>x. length (mdata x) \<le> max_message_data_size) g"
    "to_send S1 ! p = to_send S ! p @ g"
    using link_send [OF Cons.prems(1), of m] Cons.prems(2,3) by (auto simp: total_chunks_def)
  have "g \<noteq> []" using m(4) by (auto simp: chunks_needed_def split: if_splits)
  moreover obtain hs S' where "queue_all ms p S1 = Some S'" "link ch p k ((gs @ [g]) @ hs) S' R"
    "map (\<lambda>g. concat (map mdata g)) hs = map mdata ms"
    "list_all (\<lambda>x. length (mdata x) \<le> max_message_data_size) (concat hs)" "list_all (\<lambda>g. g \<noteq> []) hs"
    "length (to_send S' ! p) = length (to_send S1 ! p) + total_chunks ms"
    using Cons.IH [OF m(2)] Cons.prems(2,3) by (auto simp: total_chunks_def)
  ultimately show ?case
    using m by (intro exI [of _ "g # hs"] exI [of _ S']) (simp add: total_chunks_def)
qed

lemma link_new:
  assumes "ch < unat system_channel" "p < priority_max"
  shows "link ch p 0 [] (connection_new t1 c1 v1) (connection_new t2 c2 v2)"
proof -
  have "arrivals 0 b history_new" for b
    by (simp add: arrivals_def history_new_ok) (simp add: history_new_def)
  then show ?thesis
    using assms conn_ok_new [of t1 c1 v1] conn_ok_new [of t2 c2 v2]
    by (simp add: link_def connection_new_def reassembler_new_def carrier_consts)
qed

text \<open>
  C1. In-order reliable delivery of one batch. Between two fresh connections on a link without loss, any list
  of reliable messages queued on one application channel at one priority, of whatever sizes and so
  fragmented and packed however the code decides, arrives complete: the transfer ends with nothing left
  to send, and the receiver's inbox holds the payloads, in the order they were queued. Nothing else is
  queued at the sender and no datagram goes back, so the batch is at most the 512 datagrams (and chunks)
  the receiver's history spans without an acknowledgement. With several priorities a message that does
  not fit can misroute another one: \<open>message_that_does_not_fit_misroutes_the_next\<close> of \<open>Link_Failures\<close>.
\<close>

theorem reliable_fifo_delivery:
  assumes "lz4_ok compress decompress" "max_datagram_size \<le> mx" "mx \<le> max_decompressed_bytes"
    "ch < unat system_channel" "p < priority_max"
    "list_all (\<lambda>m. unat (channel m) = ch \<and> reliability m = Reliable) ms" "total_chunks ms \<le> max_elements"
  shows "\<exists>S S' R'. queue_all ms p (connection_new t1 c1 v1) = Some S
    \<and> transfer compress decompress now mx (total_chunks ms) S (connection_new t2 c2 v2) = Some (S', R')
    \<and> concat (to_send S') = [] \<and> map mdata (to_receive R' ! ch) = map mdata ms"
proof -
  let ?S = "connection_new t1 c1 v1" and ?R = "connection_new t2 c2 v2"
  have "total_chunks ms \<le> max_num_chunks" using assms(7) by (simp add: mtu_defs max_elements_def)
  then obtain gs S where q: "queue_all ms p ?S = Some S" "link ch p 0 gs S ?R"
    "map (\<lambda>g. concat (map mdata g)) gs = map mdata ms"
    "list_all (\<lambda>x. length (mdata x) \<le> max_message_data_size) (concat gs)" "list_all (\<lambda>g. g \<noteq> []) gs"
    "length (to_send S ! p) = length (to_send ?S ! p) + total_chunks ms"
    using link_queue_all [OF link_new [OF assms(4,5)] assms(6)] by fastforce
  have "to_send ?S ! p = []" using assms(5) by (simp add: connection_new_def)
  then obtain S' R' where t: "transfer compress decompress now mx (total_chunks ms) S ?R = Some (S', R')"
    "concat (to_send S') = []" "to_receive R' = append_at ch (map (delivered ch) gs) (to_receive ?R)"
    using transfer_link [OF assms(1-3) q(2,4), of "total_chunks ms" now] q(6) assms(7) by auto
  have "to_receive R' ! ch = map (delivered ch) gs"
    using assms(4) by (simp add: t(3) append_at_def connection_new_def carrier_consts)
  then have "map mdata (to_receive R' ! ch) = map (\<lambda>g. concat (map mdata g)) gs"
    using q(5) by (simp add: mdata_delivered list_all_iff)
  then show ?thesis using q(1,3) t(1,2) by auto
qed

theorem reliable_fifo_delivery_witness:
  "\<exists>S S' R'. queue_all [message_reliable 1 (replicate 3000 7), message_reliable 1 [1]] 2 (connection_new 0 False 1) = Some S
    \<and> transfer id (\<lambda>b n. Some b) 0 1129
        (total_chunks [message_reliable 1 (replicate 3000 7), message_reliable 1 [1]])
        S (connection_new 0 False 1) = Some (S', R')
    \<and> concat (to_send S') = []
    \<and> map mdata (to_receive R' ! 1) = map mdata [message_reliable 1 (replicate 3000 7), message_reliable 1 [1]]"
  by (rule reliable_fifo_delivery [OF lz4_ok_id])
    (simp_all add: mtu_defs max_decompressed_bytes_def carrier_consts message_reliable_def message_new_def
      total_chunks_def chunks_needed_def max_elements_def)

end
