(* ===== verification/Link_Failures.thy ===== *)
theory Link_Failures
  imports Link
begin

text \<open>
  Runs in which the carrier does not deliver what was queued, each evaluated on the model: what the
  packing loop, the retransmission queue and the reassembler do with messages that do not fit,
  are empty, or arrive out of order or twice.
\<close>

text \<open>
  Scenarios on fresh connections without compression: \<open>sends\<close> queues a reliable message and
  \<open>next_datagram\<close> generates one datagram of the default size.
\<close>

definition next_datagram :: "instant \<Rightarrow> connection_state \<Rightarrow> bytes \<times> connection_state" where
  "next_datagram now cs = (case generate_datagram id now max_datagram_size cs of
     Some (Some d, cs') \<Rightarrow> (d, cs') | Some (None, cs') \<Rightarrow> ([], cs') | None \<Rightarrow> ([], cs))"

definition sends :: "u8 \<Rightarrow> nat \<Rightarrow> bytes \<Rightarrow> connection_state \<Rightarrow> connection_state" where
  "sends ch p bs cs = the (queue_message (message_reliable ch bs) p cs)"

abbreviation fresh :: connection_state where
  "fresh \<equiv> connection_new 0 False 1"

text \<open>
  A message that does not fit still changes the writer's context. With a small message on
  channel 0 at high priority, a full-size message on channel 1 that does not fit behind it, and a
  small one on channel 1 at low priority, the last frame is written without its channel: the peer
  decodes it on channel 0.
\<close>

lemma message_that_does_not_fit_misroutes_the_next:
  "let cs = sends 1 2 [9] (sends 1 1 (replicate 1115 5) (sends 0 0 [1] fresh))
   in map (\<lambda>m. (channel m, mdata m)) (walk_frames (drop 4 (fst (next_datagram 0 cs)))) = [(0, [1]), (0, [9])]"
  by code_simp


lemma empty_message_datagram:
  "send_datagrams (snd (next_datagram 0 (sends 0 2 [] fresh))) =
     [\<lparr>flow_control = \<lparr>fc_sequence_number = 2, fc_size = 11, fc_effective_size = 0, fc_sent_time = 0\<rparr>,
       resend_data_size = 0,
       to_resend = [[], [], [(message_reliable 0 [])\<lparr>sequence_number := 0, send_reliable_seq_num := 0\<rparr>], []]\<rparr>]"
  by code_simp

lemma empty_message_queue: "to_send (snd (next_datagram 0 (sends 0 2 [] fresh))) = [[], [], [], []]"
  by code_simp

text \<open>
  An empty reliable message is not retransmitted. Its datagram records it, but with a resend
  size of zero, and when that datagram expires the size decides: the message is in no queue and in
  no record any more.
\<close>

lemma empty_reliable_message_not_resent:
  "let cs = snd (next_datagram 0 (sends 0 2 [] fresh)); cs' = snd (process_resends (millis 2000) cs)
   in size (reliable_stock cs) = 1 \<and> reliable_stock cs' = {#}"
  by (simp add: Let_def process_resends_def reliable_stock_def empty_message_datagram empty_message_queue
      lost_packet_timeout_def)

section \<open>The order of retransmissions\<close>

definition expired :: "instant \<Rightarrow> datagram_data \<Rightarrow> bool" where
  "expired now d \<longleftrightarrow> lost_packet_timeout < now - fc_sent_time (flow_control d)"

lemma requeue_nth: "p < length lost \<Longrightarrow> p < length qs \<Longrightarrow> requeue lost qs ! p = lost ! p @ qs ! p"
  by (simp add: requeue_def)

lemma resend_expired_order:
  assumes "list_all (\<lambda>d. expired now d \<and> resend_data_size d > 0 \<and> length (to_resend d) = priority_max) ds"
    "length qs = priority_max" "p < priority_max" "rest = [] \<or> \<not> expired now (hd rest)"
  shows "\<exists>qs'. resend_expired now (ds @ rest) qs = (length ds, rest, qs')
    \<and> qs' ! p = concat (rev (map (\<lambda>d. to_resend d ! p) ds)) @ qs ! p"
  using assms(1,2)
proof (induction ds arbitrary: qs)
  case Nil
  then show ?case using assms(4) by (cases rest) (auto simp: expired_def)
next
  case (Cons d ds)
  have d: "\<not> now - fc_sent_time (flow_control d) \<le> lost_packet_timeout" "0 < resend_data_size d"
    "length (to_resend d) = priority_max"
    using Cons.prems(1) by (auto simp: expired_def)
  have "length (requeue (to_resend d) qs) = priority_max" using d(3) Cons.prems(2) by (simp add: requeue_def)
  then obtain qs' where "resend_expired now (ds @ rest) (requeue (to_resend d) qs) = (length ds, rest, qs')"
    "qs' ! p = concat (rev (map (\<lambda>d. to_resend d ! p) ds)) @ requeue (to_resend d) qs ! p"
    using Cons.IH Cons.prems(1) by auto
  then show ?case
    using d Cons.prems(2) assms(3) by (simp add: Let_def requeue_nth)
qed

text \<open>
  Datagrams that expire together are queued again in the reverse of the order in which they
  were sent: of several lost datagrams, the messages of the last one come first. A receiver that
  takes reliable frames only in order then has the wrong one at the head of its channel.
\<close>

lemma resends_reverse_lost_datagrams:
  assumes "conn_ok cs" "p < priority_max" "send_datagrams cs = ds @ rest"
    "list_all (\<lambda>d. expired now d \<and> resend_data_size d > 0) ds" "rest = [] \<or> \<not> expired now (hd rest)"
  shows "fst (process_resends now cs) = length ds
    \<and> send_datagrams (snd (process_resends now cs)) = rest
    \<and> to_send (snd (process_resends now cs)) ! p
        = concat (rev (map (\<lambda>d. to_resend d ! p) ds)) @ to_send cs ! p"
proof -
  have "list_all (\<lambda>d. expired now d \<and> resend_data_size d > 0 \<and> length (to_resend d) = priority_max) ds"
    "length (to_send cs) = priority_max"
    using assms(1,3,4) by (auto simp: conn_ok_def list_all_iff)
  then obtain qs' where "resend_expired now (ds @ rest) (to_send cs) = (length ds, rest, qs')"
    "qs' ! p = concat (rev (map (\<lambda>d. to_resend d ! p) ds)) @ to_send cs ! p"
    using resend_expired_order [OF _ _ assms(2,5)] by blast
  then show ?thesis using assms(3) by (simp add: process_resends_def)
qed

section \<open>Duplicate datagrams\<close>

text \<open>
  A datagram whose number is in the history is refused as a duplicate, but its frames have
  been staged by then: they are in the reassembler and are drained with the next datagram, so an
  unreliable message is delivered twice and a reliable one blocks its channel.
\<close>

lemma duplicate_datagram_is_staged:
  assumes "decode_datagram decompress d = Ok dd" "history_ok (received_datagrams_history cs)"
    "in_window (dh_sequence_number (dd_header dd)) (received_datagrams_history cs)"
    "history_contains (received_datagrams_history cs) (dh_sequence_number (dd_header dd))"
  shows "\<exists>cs'. process_incoming_datagram decompress now d cs = Some (Err DuplicateDatagram, cs')
    \<and> receiver cs' = fold accept (dd_frames dd) (receiver cs) \<and> to_receive cs' = to_receive cs"
proof -
  obtain h where "history_insert (dh_sequence_number (dd_header dd)) (received_datagrams_history cs) = Some (False, h)"
    using history_insert_law [OF assms(2,3)] assms(4) by auto
  then show ?thesis
    using assms(1) by (simp add: process_incoming_datagram_def feed_def Let_def)
qed

end
