(* ===== verification/Vlq.thy ===== *)
theory Vlq
  imports Buffer
begin

text \<open>
  \<^verbatim>\<open>src/src/serialize/vlq.rs\<close>: the variable-length integers of the wire format. The number of
  leading one bits of the first byte gives the number of bytes that follow; the value is little
  endian above the remaining bits of the first byte. The three writers and readers are written
  branch by branch as in the source; each is shown to be a \<open>wire_codec\<close>.
\<close>

definition byte :: "u64 \<Rightarrow> u8" where
  "byte v = ucast (v AND 0xff)"

section \<open>The 32-bit codec\<close>

definition vlq32_bytes :: "u32 \<Rightarrow> bytes" where
  "vlq32_bytes v =
     (if v < 0x80 then [byte (ucast v)]
      else if v < 0x4000 then
        [0x80 OR byte (ucast (v AND 0x3f)), byte (ucast (drop_bit 6 (v AND 0x3fc0)))]
      else if v < 0x200000 then
        [0xc0 OR byte (ucast (v AND 0x1f)), byte (ucast (drop_bit 5 (v AND 0x1fe0))),
         byte (ucast (drop_bit 13 (v AND 0x1fe000)))]
      else if v < 0x10000000 then
        [0xe0 OR byte (ucast (v AND 0x0f)), byte (ucast (drop_bit 4 (v AND 0x00000ff0))),
         byte (ucast (drop_bit 12 (v AND 0x000ff000))), byte (ucast (drop_bit 20 (v AND 0x0ff00000)))]
      else
        [0xf0 OR byte (ucast (v AND 0x07)), byte (ucast (drop_bit 3 (v AND 0x000007f8))),
         byte (ucast (drop_bit 11 (v AND 0x0007f800))), byte (ucast (drop_bit 19 (v AND 0x07f80000))),
         byte (ucast (drop_bit 27 (v AND 0xf8000000)))])"

definition vlq32_marshal :: "u32 \<Rightarrow> write_buffer \<Rightarrow> write_buffer" where
  "vlq32_marshal v wb = write_bytes (vlq32_bytes v) wb"

definition vlq32_unmarshal :: "u32 reader" where
  "vlq32_unmarshal = rbind read_u8 (\<lambda>first.
     if first < 0x80 then rreturn (ucast first)
     else if first < 0xc0 then
       rbind read_u8 (\<lambda>b1.
         rreturn (ucast (first AND NOT 0xc0) OR push_bit 6 (ucast b1)))
     else if first < 0xe0 then
       rbind read_u8 (\<lambda>b1. rbind read_u8 (\<lambda>b2.
         rreturn (ucast (first AND NOT 0xe0) OR push_bit 5 (ucast b1)
          OR push_bit 13 (ucast b2))))
     else if first < 0xf0 then
       rbind read_u8 (\<lambda>b1. rbind read_u8 (\<lambda>b2. rbind read_u8 (\<lambda>b3.
         rreturn (ucast (first AND NOT 0xf0) OR push_bit 4 (ucast b1) OR push_bit 12 (ucast b2)
          OR push_bit 20 (ucast b3)))))
     else
       rbind read_u8 (\<lambda>b1. rbind read_u8 (\<lambda>b2. rbind read_u8 (\<lambda>b3.
       rbind read_u8 (\<lambda>b4.
         rreturn (ucast (first AND NOT 0xf8) OR push_bit 3 (ucast b1) OR push_bit 11 (ucast b2)
          OR push_bit 19 (ucast b3) OR push_bit 27 (ucast b4)))))))"


section \<open>The 16-bit codec\<close>

definition vlq16_bytes :: "u16 \<Rightarrow> bytes" where
  "vlq16_bytes v =
     (let v32 = (ucast v :: u32) in
      if v < 0x80 then [byte (ucast v)]
      else if v < 0x4000 then
        [0x80 OR byte (ucast (v32 AND 0x3f)), byte (ucast (drop_bit 6 (v32 AND 0x3fc0)))]
      else
        [0xc0 OR byte (ucast (v32 AND 0x1f)), byte (ucast (drop_bit 5 (v32 AND 0x1fe0))),
         byte (ucast (drop_bit 13 (v32 AND 0x1fe000)))])"

definition vlq16_marshal :: "u16 \<Rightarrow> write_buffer \<Rightarrow> write_buffer" where
  "vlq16_marshal v wb = write_bytes (vlq16_bytes v) wb"

definition vlq16_unmarshal :: "u16 reader" where
  "vlq16_unmarshal = rbind vlq32_unmarshal (\<lambda>v.
     if v > 0xffff then rfail (ContainerOverflow (unat v) 65535) else rreturn (ucast v))"

section \<open>The 64-bit codec\<close>

text \<open>
  The bound of the five-byte branch is \<open>0x0800_0000 = 2 ^ 27\<close>, below the bound \<open>2 ^ 28\<close> of the
  branch before it, as in the source.
\<close>

definition byte_after_bits :: "u64 \<Rightarrow> nat \<Rightarrow> u8" where
  "byte_after_bits v k = byte (drop_bit k v)"

definition vlq64_bytes :: "u64 \<Rightarrow> bytes" where
  "vlq64_bytes v =
     (if v < 0x80 then [byte v]
      else if v < 0x4000 then
        [0x80 OR byte (v AND 0x3f), byte_after_bits v 6]
      else if v < 0x200000 then
        [0xc0 OR byte (v AND 0x1f), byte_after_bits v 5, byte_after_bits v 13]
      else if v < 0x10000000 then
        [0xe0 OR byte (v AND 0x0f), byte_after_bits v 4, byte_after_bits v 12,
         byte_after_bits v 20]
      else if v < 0x0000000008000000 then
        [0xf0 OR byte (v AND 0x07), byte_after_bits v 3, byte_after_bits v 11,
         byte_after_bits v 19, byte_after_bits v 27]
      else if v < 0x0000040000000000 then
        [0xF8 OR byte (v AND 0x03), byte_after_bits v 2, byte_after_bits v 10,
         byte_after_bits v 18, byte_after_bits v 26, byte_after_bits v 34]
      else if v < 0x0002000000000000 then
        [0xFC OR byte (v AND 0x01), byte_after_bits v 1, byte_after_bits v 9,
         byte_after_bits v 17, byte_after_bits v 25, byte_after_bits v 33, byte_after_bits v 41]
      else if v < 0x0100000000000000 then
        [0xFE, byte_after_bits v 0, byte_after_bits v 8, byte_after_bits v 16,
         byte_after_bits v 24, byte_after_bits v 32, byte_after_bits v 40, byte_after_bits v 48]
      else
        [0xFF, byte_after_bits v 0, byte_after_bits v 8, byte_after_bits v 16,
         byte_after_bits v 24, byte_after_bits v 32, byte_after_bits v 40, byte_after_bits v 48,
         byte_after_bits v 56])"

definition vlq64_marshal :: "u64 \<Rightarrow> write_buffer \<Rightarrow> write_buffer" where
  "vlq64_marshal v wb = write_bytes (vlq64_bytes v) wb"

definition vlq64_unmarshal :: "u64 reader" where
  "vlq64_unmarshal = rbind read_u8 (\<lambda>first.
     if first < 0x80 then rreturn (ucast first)
     else if first < 0xc0 then
       rbind read_u8 (\<lambda>b1.
         rreturn (ucast (first AND NOT 0xc0) OR push_bit 6 (ucast b1)))
     else if first < 0xe0 then
       rbind read_u8 (\<lambda>b1. rbind read_u8 (\<lambda>b2.
         rreturn (ucast (first AND NOT 0xe0) OR push_bit 5 (ucast b1)
          OR push_bit 13 (ucast b2))))
     else if first < 0xf0 then
       rbind read_u8 (\<lambda>b1. rbind read_u8 (\<lambda>b2. rbind read_u8 (\<lambda>b3.
         rreturn (ucast (first AND NOT 0xf0) OR push_bit 4 (ucast b1) OR push_bit 12 (ucast b2)
          OR push_bit 20 (ucast b3)))))
     else if first < 0xF8 then
       rbind read_u8 (\<lambda>b1. rbind read_u8 (\<lambda>b2. rbind read_u8 (\<lambda>b3.
       rbind read_u8 (\<lambda>b4.
         rreturn (ucast (first AND NOT 0xf8) OR push_bit 3 (ucast b1) OR push_bit 11 (ucast b2)
          OR push_bit 19 (ucast b3) OR push_bit 27 (ucast b4))))))
     else if first < 0xFC then
       rbind read_u8 (\<lambda>b1. rbind read_u8 (\<lambda>b2. rbind read_u8 (\<lambda>b3.
       rbind read_u8 (\<lambda>b4. rbind read_u8 (\<lambda>b5.
         rreturn (ucast (first AND NOT 0xFC) OR push_bit 2 (ucast b1) OR push_bit 10 (ucast b2)
          OR push_bit 18 (ucast b3) OR push_bit 26 (ucast b4) OR push_bit 34 (ucast b5)))))))
     else if first < 0xFE then
       rbind read_u8 (\<lambda>b1. rbind read_u8 (\<lambda>b2. rbind read_u8 (\<lambda>b3.
       rbind read_u8 (\<lambda>b4. rbind read_u8 (\<lambda>b5. rbind read_u8 (\<lambda>b6.
         rreturn (ucast (first AND NOT 0xFE) OR push_bit 1 (ucast b1) OR push_bit 9 (ucast b2)
          OR push_bit 17 (ucast b3) OR push_bit 25 (ucast b4) OR push_bit 33 (ucast b5)
          OR push_bit 41 (ucast b6))))))))
     else if first < 0xFF then
       rbind read_u8 (\<lambda>b1. rbind read_u8 (\<lambda>b2. rbind read_u8 (\<lambda>b3.
       rbind read_u8 (\<lambda>b4. rbind read_u8 (\<lambda>b5. rbind read_u8 (\<lambda>b6.
       rbind read_u8 (\<lambda>b7.
         rreturn (ucast b1 OR push_bit 8 (ucast b2) OR push_bit 16 (ucast b3)
          OR push_bit 24 (ucast b4) OR push_bit 32 (ucast b5) OR push_bit 40 (ucast b6)
          OR push_bit 48 (ucast b7)))))))))
     else
       rbind read_u8 (\<lambda>b1. rbind read_u8 (\<lambda>b2. rbind read_u8 (\<lambda>b3.
       rbind read_u8 (\<lambda>b4. rbind read_u8 (\<lambda>b5. rbind read_u8 (\<lambda>b6.
       rbind read_u8 (\<lambda>b7. rbind read_u8 (\<lambda>b8.
         rreturn (ucast b1 OR push_bit 8 (ucast b2) OR push_bit 16 (ucast b3)
          OR push_bit 24 (ucast b4) OR push_bit 32 (ucast b5) OR push_bit 40 (ucast b6)
          OR push_bit 48 (ucast b7) OR push_bit 56 (ucast b8)))))))))))"

section \<open>Normal form of the encoders\<close>

text \<open>The writer's bytes in normal form: a tagged first byte and plain byte slices.\<close>

lemma byte_eq: "byte v = ucast v"
  unfolding byte_def mask_numerals by (rule bit_word_eqI) (auto simp: bit_simps)

lemma byte_ucast32: "byte (ucast (v :: u32)) = ucast v"
  unfolding byte_eq by (rule bit_word_eqI) (auto simp: bit_simps)

lemma ucast8_and:
  "ucast ((v :: 'a::len word) AND m) = (ucast v :: u8) AND ucast m"
  by (rule bit_word_eqI) (auto simp: bit_simps)

lemma ucast8_and_ff [simp]: "(w :: u8) AND 0xff = w"
  unfolding mask_numerals by (rule bit_word_eqI) (auto simp: bit_simps)

lemma ucast8_top5:
  "(ucast (drop_bit 27 (v :: u32)) :: u8) AND 31 = ucast (drop_bit 27 v)"
  unfolding mask_numerals
  by (rule bit_word_eqI) (auto simp: bit_simps dest: bit_imp_le_length)

lemma vlq32_bytes_eq:
  "vlq32_bytes v =
     (if v < 0x80 then [ucast v]
      else if v < 0x4000 then [0x80 OR (ucast v AND 0x3f), ucast (drop_bit 6 v)]
      else if v < 0x200000 then
        [0xc0 OR (ucast v AND 0x1f), ucast (drop_bit 5 v), ucast (drop_bit 13 v)]
      else if v < 0x10000000 then
        [0xe0 OR (ucast v AND 0x0f), ucast (drop_bit 4 v), ucast (drop_bit 12 v),
         ucast (drop_bit 20 v)]
      else [0xf0 OR (ucast v AND 0x07), ucast (drop_bit 3 v), ucast (drop_bit 11 v),
            ucast (drop_bit 19 v), ucast (drop_bit 27 v)])"
  by (simp add: vlq32_bytes_def byte_ucast32 ucast8_and ucast8_top5)

lemma dead_bound: "(v :: u64) < 0x8000000 \<Longrightarrow> v < 0x10000000"
  by (erule less_trans) simp

lemma vlq64_bytes_eq:
  "vlq64_bytes v =
     (if v < 0x80 then [ucast v]
      else if v < 0x4000 then
        [0x80 OR (ucast v AND 0x3f), ucast (drop_bit 6 v)]
      else if v < 0x200000 then
        [0xc0 OR (ucast v AND 0x1f), ucast (drop_bit 5 v), ucast (drop_bit 13 v)]
      else if v < 0x10000000 then
        [0xe0 OR (ucast v AND 0x0f), ucast (drop_bit 4 v), ucast (drop_bit 12 v),
         ucast (drop_bit 20 v)]
      else if v < 0x0000040000000000 then
        [0xF8 OR (ucast v AND 0x03), ucast (drop_bit 2 v), ucast (drop_bit 10 v),
         ucast (drop_bit 18 v), ucast (drop_bit 26 v), ucast (drop_bit 34 v)]
      else if v < 0x0002000000000000 then
        [0xFC OR (ucast v AND 0x01), ucast (drop_bit 1 v), ucast (drop_bit 9 v),
         ucast (drop_bit 17 v), ucast (drop_bit 25 v), ucast (drop_bit 33 v),
         ucast (drop_bit 41 v)]
      else if v < 0x0100000000000000 then
        [0xFE, ucast v, ucast (drop_bit 8 v), ucast (drop_bit 16 v), ucast (drop_bit 24 v),
         ucast (drop_bit 32 v), ucast (drop_bit 40 v), ucast (drop_bit 48 v)]
      else
        [0xFF, ucast v, ucast (drop_bit 8 v), ucast (drop_bit 16 v), ucast (drop_bit 24 v),
         ucast (drop_bit 32 v), ucast (drop_bit 40 v), ucast (drop_bit 48 v),
         ucast (drop_bit 56 v)])"
  using dead_bound [of v] by (auto simp: vlq64_bytes_def byte_after_bits_def byte_eq ucast8_and)

lemma vlq16_bytes_eq: "vlq16_bytes v = vlq32_bytes (ucast v)"
proof -
  have "(ucast v :: u32) < numeral k \<longleftrightarrow> v < numeral k" if "numeral k < (2::nat) ^ 16" for k
    using that by (simp add: unat_less_numeral_iff power_numeral less_trans)
  then have "((ucast v :: u32) < 0x80) = (v < 0x80)" "((ucast v :: u32) < 0x4000) = (v < 0x4000)"
    by simp_all
  moreover have "(ucast v :: u32) < 0x200000"
    using unat_u16_less [of v] by (simp add: unat_less_numeral_iff)
  moreover have "byte (ucast v) = byte (ucast (ucast v :: u32))"
    unfolding byte_eq by (rule bit_word_eqI) (auto simp: bit_simps)
  ultimately show ?thesis
    by (simp add: vlq16_bytes_def vlq32_bytes_def Let_def)
qed

lemma small_byte:
  fixes v :: "'a::len word"
  assumes "v < 2 ^ 7" and "8 \<le> LENGTH('a)"
  shows "ucast (ucast v :: u8) = v" and "(ucast v :: u8) < 0x80"
proof -
  have v: "v AND mask 7 = v" using assms(1) by (rule less_mask_eq)
  have "ucast (ucast (v AND mask 7) :: u8) = v AND mask 7"
    using assms(2) by (intro bit_word_eqI) (auto simp: bit_simps)
  then show "ucast (ucast v :: u8) = v" by (simp only: v)
  have "(ucast (v AND mask 7) :: u8) = 0 OR (ucast v AND mask 7)"
    using assms(2) by (intro bit_word_eqI) (auto simp: bit_simps)
  also have "\<dots> < 0x80" by (rule tag_less) (simp add: mask_eq_exp_minus_1)
  finally show "(ucast v :: u8) < 0x80" by (simp only: v)
qed

text \<open>Range and untagging of each first byte the writers emit.\<close>

lemma tag_ranges:
  fixes w :: u8
  shows "\<not> 0x80 OR (w AND 0x3f) < 0x80" "0x80 OR (w AND 0x3f) < 0xc0"
    "\<not> 0xc0 OR (w AND 0x1f) < 0x80" "\<not> 0xc0 OR (w AND 0x1f) < 0xc0" "0xc0 OR (w AND 0x1f) < 0xe0"
    "\<not> 0xe0 OR (w AND 0x0f) < 0x80" "\<not> 0xe0 OR (w AND 0x0f) < 0xc0"
    "\<not> 0xe0 OR (w AND 0x0f) < 0xe0" "0xe0 OR (w AND 0x0f) < 0xf0"
    "\<not> 0xf0 OR (w AND 0x07) < 0x80" "\<not> 0xf0 OR (w AND 0x07) < 0xc0"
    "\<not> 0xf0 OR (w AND 0x07) < 0xe0" "\<not> 0xf0 OR (w AND 0x07) < 0xf0" "0xf0 OR (w AND 0x07) < 0xf8"
    "\<not> 0xf8 OR (w AND 0x03) < 0x80" "\<not> 0xf8 OR (w AND 0x03) < 0xc0"
    "\<not> 0xf8 OR (w AND 0x03) < 0xe0" "\<not> 0xf8 OR (w AND 0x03) < 0xf0"
    "\<not> 0xf8 OR (w AND 0x03) < 0xf8" "0xf8 OR (w AND 0x03) < 0xfc"
    "\<not> 0xfc OR (w AND 0x01) < 0x80" "\<not> 0xfc OR (w AND 0x01) < 0xc0"
    "\<not> 0xfc OR (w AND 0x01) < 0xe0" "\<not> 0xfc OR (w AND 0x01) < 0xf0"
    "\<not> 0xfc OR (w AND 0x01) < 0xf8" "\<not> 0xfc OR (w AND 0x01) < 0xfc"
    "0xfc OR (w AND 0x01) < 0xfe"
  by (rule tag_less tag_not_less; simp)+

lemmas tag_strips =
  tag_strip [of "0x80 :: u8" "NOT 0xc0" "0x3f", simplified]
  tag_strip [of "0xc0 :: u8" "NOT 0xe0" "0x1f", simplified]
  tag_strip [of "0xe0 :: u8" "NOT 0xf0" "0x0f", simplified]
  tag_strip [of "0xf0 :: u8" "NOT 0xf8" "0x07", simplified]
  tag_strip [of "0xf8 :: u8" "NOT 0xfc" "0x03", simplified]
  tag_strip [of "0xfc :: u8" "NOT 0xfe" "0x01", simplified]

lemma ucast_tag_numerals:
  fixes v :: "'a::len word"
  assumes "8 \<le> LENGTH('a)"
  shows "ucast ((ucast v :: u8) AND 0x3f) = take_bit 6 v"
    "ucast ((ucast v :: u8) AND 0x1f) = take_bit 5 v" "ucast ((ucast v :: u8) AND 0x0f) = take_bit 4 v"
    "ucast ((ucast v :: u8) AND 0x07) = take_bit 3 v" "ucast ((ucast v :: u8) AND 0x03) = take_bit 2 v"
    "ucast ((ucast v :: u8) AND 0x01) = take_bit (Suc 0) v"
  using ucast_tag_bits [OF _ assms, of 6 v] ucast_tag_bits [OF _ assms, of 5 v]
    ucast_tag_bits [OF _ assms, of 4 v] ucast_tag_bits [OF _ assms, of 3 v]
    ucast_tag_bits [OF _ assms, of 2 v] ucast_tag_bits [OF _ assms, of "Suc 0" v]
  by (simp_all add: mask_eq_exp_minus_1)

lemmas vlq_simps = tag_ranges tag_strips ucast_tag_numerals

section \<open>Decoding inverts encoding\<close>

lemma vlq32_decode:
  assumes "remaining rb = vlq32_bytes v @ bs"
  shows "vlq32_unmarshal rb = (Inr v, advance (length (vlq32_bytes v)) rb)"
proof -
  consider "v < 0x80" | "\<not> v < 0x80" "v < 0x4000" | "\<not> v < 0x80" "\<not> v < 0x4000" "v < 0x200000"
    | "\<not> v < 0x80" "\<not> v < 0x4000" "\<not> v < 0x200000" "v < 0x10000000"
    | "\<not> v < 0x80" "\<not> v < 0x4000" "\<not> v < 0x200000" "\<not> v < 0x10000000" by blast
  then show ?thesis
  proof cases
    case 1
    then show ?thesis using assms small_byte [of v]
      by (simp add: vlq32_bytes_eq vlq32_unmarshal_def)
  next
    case 2
    then show ?thesis using assms take_byte_or [of 6 v] take_bit_less_exp [of v 14]
      by (simp add: vlq32_bytes_eq vlq32_unmarshal_def vlq_simps)
  next
    case 3
    then show ?thesis
      using assms take_byte_or [of 5 v] take_byte_or [of 13 v] take_bit_less_exp [of v 21]
      by (simp add: vlq32_bytes_eq vlq32_unmarshal_def vlq_simps flip: or.assoc)
  next
    case 4
    then show ?thesis using assms take_byte_or [of 4 v] take_byte_or [of 12 v] take_byte_or [of 20 v]
        take_bit_less_exp [of v 28]
      by (simp add: vlq32_bytes_eq vlq32_unmarshal_def vlq_simps flip: or.assoc)
  next
    case 5
    then show ?thesis using assms take_byte_or [of 3 v] take_byte_or [of 11 v] take_byte_or [of 19 v]
        take_byte_or [of 27 v] take_bit_full [of 35 v]
      by (simp add: vlq32_bytes_eq vlq32_unmarshal_def vlq_simps flip: or.assoc)
  qed
qed

lemma reader_ok_vlq32 [reader_safe]: "reader_ok vlq32_unmarshal"
  unfolding vlq32_unmarshal_def by (intro reader_safe)

interpretation vlq32: wire_codec "\<lambda>_. True" "\<lambda>_. vlq32_bytes" vlq32_marshal vlq32_unmarshal
  by unfold_locales (auto simp: vlq32_marshal_def vlq32_decode intro: reader_safe)

lemma vlq64_decode_short:
  assumes "remaining rb = vlq64_bytes v @ bs" and "v < 0x10000000"
  shows "vlq64_unmarshal rb = (Inr v, advance (length (vlq64_bytes v)) rb)"
proof -
  consider "v < 0x80" | "\<not> v < 0x80" "v < 0x4000" | "\<not> v < 0x80" "\<not> v < 0x4000" "v < 0x200000"
    | "\<not> v < 0x80" "\<not> v < 0x4000" "\<not> v < 0x200000" by blast
  then show ?thesis
  proof cases
    case 1
    then show ?thesis using assms small_byte [of v]
      by (simp add: vlq64_bytes_eq vlq64_unmarshal_def)
  next
    case 2
    then show ?thesis using assms take_byte_or [of 6 v] take_bit_less_exp [of v 14]
      by (simp add: vlq64_bytes_eq vlq64_unmarshal_def vlq_simps)
  next
    case 3
    then show ?thesis
      using assms take_byte_or [of 5 v] take_byte_or [of 13 v] take_bit_less_exp [of v 21]
      by (simp add: vlq64_bytes_eq vlq64_unmarshal_def vlq_simps flip: or.assoc)
  next
    case 4
    then show ?thesis using assms take_byte_or [of 4 v] take_byte_or [of 12 v] take_byte_or [of 20 v]
        take_bit_less_exp [of v 28]
      by (simp add: vlq64_bytes_eq vlq64_unmarshal_def vlq_simps flip: or.assoc)
  qed
qed

lemma vlq64_long_not_less:
  assumes "\<not> v < 0x10000000"
  shows "\<not> v < (0x80 :: u64)" "\<not> v < (0x4000 :: u64)" "\<not> v < (0x200000 :: u64)"
  using assms by (auto simp: word_less_nat_alt)

lemma vlq64_decode_long:
  assumes "remaining rb = vlq64_bytes v @ bs" and "\<not> v < 0x10000000"
  shows "vlq64_unmarshal rb = (Inr v, advance (length (vlq64_bytes v)) rb)"
proof -
  note long = vlq64_long_not_less [OF assms(2)] assms
  consider "v < 0x40000000000" | "\<not> v < 0x40000000000" "v < 0x2000000000000"
    | "\<not> v < 0x40000000000" "\<not> v < 0x2000000000000" "v < 0x100000000000000"
    | "\<not> v < 0x40000000000" "\<not> v < 0x2000000000000" "\<not> v < 0x100000000000000" by blast
  then show ?thesis
  proof cases
    case 1
    then show ?thesis
      using long take_byte_or [of 2 v] take_byte_or [of 10 v] take_byte_or [of 18 v]
        take_byte_or [of 26 v] take_byte_or [of 34 v] take_bit_less_exp [of v 42]
      by (simp add: vlq64_bytes_eq vlq64_unmarshal_def vlq_simps flip: or.assoc)
  next
    case 2
    then show ?thesis
      using long take_byte_or [of "Suc 0" v] take_byte_or [of 9 v] take_byte_or [of 17 v]
        take_byte_or [of 25 v] take_byte_or [of 33 v] take_byte_or [of 41 v] take_bit_less_exp [of v 49]
      by (simp add: vlq64_bytes_eq vlq64_unmarshal_def vlq_simps flip: or.assoc)
  next
    case 3
    then show ?thesis
      using long ucast_ucast8 [of v] take_byte_or [of 8 v] take_byte_or [of 16 v] take_byte_or [of 24 v]
        take_byte_or [of 32 v] take_byte_or [of 40 v] take_byte_or [of 48 v] take_bit_less_exp [of v 56]
      by (simp add: vlq64_bytes_eq vlq64_unmarshal_def flip: or.assoc)
  next
    case 4
    then show ?thesis
      using long ucast_ucast8 [of v] take_byte_or [of 8 v] take_byte_or [of 16 v] take_byte_or [of 24 v]
        take_byte_or [of 32 v] take_byte_or [of 40 v] take_byte_or [of 48 v] take_byte_or [of 56 v]
        take_bit_full [of 64 v]
      by (simp add: vlq64_bytes_eq vlq64_unmarshal_def flip: or.assoc)
  qed
qed

lemma reader_ok_vlq64 [reader_safe]: "reader_ok vlq64_unmarshal"
  unfolding vlq64_unmarshal_def by (intro reader_safe)

interpretation vlq64: wire_codec "\<lambda>_. True" "\<lambda>_. vlq64_bytes" vlq64_marshal vlq64_unmarshal
  by unfold_locales
    (auto simp: vlq64_marshal_def intro: reader_safe vlq64_decode_short vlq64_decode_long)

lemma reader_ok_vlq16 [reader_safe]: "reader_ok vlq16_unmarshal"
  unfolding vlq16_unmarshal_def by (intro reader_safe)

lemma ucast_u16_not_over: "\<not> 0xffff < (ucast (v :: u16) :: u32)"
  using unat_u16_less [of v] by (simp add: word_less_nat_alt not_less)

lemma ucast_u16_u32_u16 [simp]: "ucast (ucast (v :: u16) :: u32) = v"
  by (rule bit_word_eqI) (auto simp: bit_simps)

interpretation vlq16: wire_codec "\<lambda>_. True" "\<lambda>_. vlq16_bytes" vlq16_marshal vlq16_unmarshal
  by unfold_locales
    (auto simp: vlq16_marshal_def vlq16_unmarshal_def vlq16_bytes_eq vlq32_decode ucast_u16_not_over
      intro: reader_safe)

section \<open>Properties\<close>

text \<open>
  C24. Each of the three VLQ codecs returns the value that was written, for every value of its
  width and either byte order, whatever bytes follow, and leaves exactly those bytes unread.
\<close>

theorem vlq_roundtrip:
  "reads_back vlq16_marshal vlq16_unmarshal e a rest
    \<and> reads_back vlq32_marshal vlq32_unmarshal e b rest
    \<and> reads_back vlq64_marshal vlq64_unmarshal e c rest"
  by (simp add: vlq16.reads_back_valid vlq32.reads_back_valid vlq64.reads_back_valid)

lemma vlq64_five_byte_decode:
  assumes "v < 0x800000000"
  shows "vlq64_unmarshal (read_new e [0xf0 OR (ucast v AND 0x07), ucast (drop_bit 3 v),
      ucast (drop_bit 11 v), ucast (drop_bit 19 v), ucast (drop_bit 27 v)]) =
    (Ok v, advance 5 (read_new e [0xf0 OR (ucast v AND 0x07), ucast (drop_bit 3 v),
      ucast (drop_bit 11 v), ucast (drop_bit 19 v), ucast (drop_bit 27 v)]))"
  using assms take_byte_or [of 3 v] take_byte_or [of 11 v] take_byte_or [of 19 v]
    take_byte_or [of 27 v] take_bit_less_exp [of v 35]
  by (simp add: vlq64_unmarshal_def vlq_simps flip: or.assoc)

text \<open>
  The writer of 64-bit values never emits the five-byte form: its bound is \<open>2 ^ 27\<close>, below the
  bound \<open>2 ^ 28\<close> of the four-byte branch. Every value from \<open>2 ^ 28\<close> to \<open>2 ^ 35 - 1\<close> takes six
  bytes although the reader decodes a five-byte encoding of it.
\<close>

lemma vlq64_five_byte_form_unused:
  assumes "0x10000000 \<le> v" and "v < 0x800000000"
  shows "length (vlq64_bytes v) = 6
    \<and> (\<exists>bs. length bs = 5 \<and> fst (vlq64_unmarshal (read_new e bs)) = Ok v)"
proof
  have "\<not> v < 0x10000000" using assms(1) by simp
  moreover have "v < 0x40000000000" using assms(2) by (rule less_trans) simp
  ultimately show "length (vlq64_bytes v) = 6"
    using vlq64_long_not_less [of v] by (simp add: vlq64_bytes_eq)
  show "\<exists>bs. length bs = 5 \<and> fst (vlq64_unmarshal (read_new e bs)) = Ok v"
    by (rule exI, rule conjI [rotated], subst vlq64_five_byte_decode [OF assms(2)]) simp_all
qed

text \<open>
  The reader of 16-bit values accepts exactly the 32-bit encodings of values up to \<open>65535\<close>:
  on the encoding of any 32-bit value it returns the value when it fits and the overflow error,
  naming the value and the limit, when it does not.
\<close>

lemma vlq16_bounds_check:
  "fst (vlq16_unmarshal (read_new e (vlq32_bytes v @ rest))) =
     (if unat v \<le> 65535 then Ok (ucast v) else Err (ContainerOverflow (unat v) 65535))"
  by (simp add: vlq16_unmarshal_def vlq32_decode word_less_nat_alt not_le)

lemma length_vlq32_bytes: "1 \<le> length (vlq32_bytes v) \<and> length (vlq32_bytes v) \<le> 5"
  by (simp add: vlq32_bytes_eq)

lemma length_vlq64_bytes: "1 \<le> length (vlq64_bytes v) \<and> length (vlq64_bytes v) \<le> 9"
  by (simp add: vlq64_bytes_eq)

lemma length_vlq16_bytes: "1 \<le> length (vlq16_bytes v) \<and> length (vlq16_bytes v) \<le> 3"
  by (simp add: vlq16_bytes_def Let_def)

end
