(* ===== verification/Codecs.thy ===== *)
theory Codecs
  imports Vlq
begin

text \<open>
  The codec layer above the buffers: the \<open>Codec\<close> trait of \<^verbatim>\<open>serialize/marshaler.rs\<close> as a record of
  functions, the scalar impls of \<^verbatim>\<open>data_marshal.rs\<close>, the utility codecs of \<^verbatim>\<open>utility_marshal.rs\<close>
  and the combinators of \<^verbatim>\<open>composite_marshal.rs\<close>.

  A trait bound \<open>M: Codec<T>\<close> is an argument of type \<open>'t codec\<close>. Writing can panic (a container
  count that does not fit its prefix), so \<open>c_marshal\<close> returns an option. Signed integers and floats
  are written through their bit patterns (\<open>cast_unsigned\<close>, \<open>to_bits\<close>), so their codecs are those of
  the unsigned integer of the same width. A \<open>String\<close> is the list of its UTF-8 bytes.

  The locale \<open>lawful_codec\<close> is the contract of a codec; the lemmas of \<open>lawful\<close> build the contract
  of a combinator from the contracts of its arguments.
\<close>

named_theorems lawful

section \<open>The codec trait\<close>

record 'a codec =
  c_size :: nat
  c_marshal :: "'a \<Rightarrow> write_buffer \<Rightarrow> write_buffer option"
  c_unmarshal :: "'a reader"

definition is_fixed_codec :: "'a codec \<Rightarrow> bool" where
  "is_fixed_codec c \<longleftrightarrow> c_size c \<noteq> 0"

text \<open>\<open>DefaultMarshaler\<close>: a value that marshals itself, with the writer that cannot panic.\<close>

definition default_marshaler ::
    "nat \<Rightarrow> ('a \<Rightarrow> write_buffer \<Rightarrow> write_buffer) \<Rightarrow> 'a reader \<Rightarrow> 'a codec" where
  "default_marshaler n m u = \<lparr>c_size = n, c_marshal = (\<lambda>v wb. Some (m v wb)), c_unmarshal = u\<rparr>"

locale lawful_codec =
  fixes c :: "'a codec" and valid :: "'a \<Rightarrow> bool" and enc :: "endian \<Rightarrow> 'a \<Rightarrow> bytes"
  assumes marshal_enc: "valid v \<Longrightarrow> c_marshal c v wb = Some (write_bytes (enc (wendian wb) v) wb)"
    and unmarshal_enc: "valid v \<Longrightarrow> remaining rb = enc (rendian rb) v @ bs \<Longrightarrow>
      c_unmarshal c rb = (Ok v, advance (length (enc (rendian rb) v)) rb)"
    and unmarshal_safe: "reader_ok (c_unmarshal c)"
    and size_fixed: "valid v \<Longrightarrow> c_size c \<noteq> 0 \<Longrightarrow> length (enc e v) = c_size c"
begin

lemma codec_roundtrip:
  assumes "valid v"
  shows "\<exists>wb. c_marshal c v (write_new e) = Some wb
    \<and> c_unmarshal c (read_new e (wdata wb @ rest)) =
        (Ok v, advance (length (wdata wb)) (read_new e (wdata wb @ rest)))"
proof -
  have "c_unmarshal c (read_new e (enc e v @ rest)) =
    (Ok v, advance (length (enc e v)) (read_new e (enc e v @ rest)))"
    using unmarshal_enc [OF assms, of "read_new e (enc e v @ rest)" rest] by simp
  with assms show ?thesis by (simp add: marshal_enc write_bytes_def write_new_def)
qed

lemma codec_prefix_free:
  assumes "valid v" and "valid w" and "enc e v @ xs = enc e w @ ys"
  shows "v = w"
  using unmarshal_enc [OF assms(1), of "read_new e (enc e v @ xs)" xs]
    unmarshal_enc [OF assms(2), of "read_new e (enc e w @ ys)" ys] assms(3)
  by simp

end

context wire_codec
begin

lemma lawful_default:
  "(\<And>v e. n \<noteq> 0 \<Longrightarrow> length (enc e v) = n) \<Longrightarrow> lawful_codec (default_marshaler n marshal unmarshal) valid enc"
  by unfold_locales (auto simp: default_marshaler_def marshal_enc unmarshal_enc unmarshal_safe)

end

lemmas lawfulD = lawful_codec.marshal_enc lawful_codec.unmarshal_enc

section \<open>Scalars\<close>

definition be_bytes64 :: "u64 \<Rightarrow> bytes" where
  "be_bytes64 v = [ucast (drop_bit 56 v), ucast (drop_bit 48 v), ucast (drop_bit 40 v),
     ucast (drop_bit 32 v), ucast (drop_bit 24 v), ucast (drop_bit 16 v), ucast (drop_bit 8 v), ucast v]"

definition of_be64 :: "bytes \<Rightarrow> u64" where
  "of_be64 bs =
     ucast (bs ! 7) OR push_bit 8 (ucast (bs ! 6)) OR push_bit 16 (ucast (bs ! 5))
     OR push_bit 24 (ucast (bs ! 4)) OR push_bit 32 (ucast (bs ! 3)) OR push_bit 40 (ucast (bs ! 2))
     OR push_bit 48 (ucast (bs ! 1)) OR push_bit 56 (ucast (bs ! 0))"

definition bytes64 :: "endian \<Rightarrow> u64 \<Rightarrow> bytes" where
  "bytes64 e v = (case e of BigEndian \<Rightarrow> be_bytes64 v | LittleEndian \<Rightarrow> rev (be_bytes64 v))"

definition of_bytes64 :: "endian \<Rightarrow> bytes \<Rightarrow> u64" where
  "of_bytes64 e bs = (case e of BigEndian \<Rightarrow> of_be64 bs | LittleEndian \<Rightarrow> of_be64 (rev bs))"

definition write_u64 :: "u64 \<Rightarrow> write_buffer \<Rightarrow> write_buffer" where
  "write_u64 v wb = write_bytes (bytes64 (wendian wb) v) wb"

definition read_u64 :: "u64 reader" where
  "read_u64 = rbind (read_bytes 8) (\<lambda>bs rb. (Ok (of_bytes64 (rendian rb) bs), rb))"

lemma of_be64_be_bytes64 [simp]: "of_be64 (be_bytes64 v) = v"
  unfolding of_be64_def be_bytes64_def
  using take_byte_or [of 8 v] take_byte_or [of 16 v] take_byte_or [of 24 v] take_byte_or [of 32 v]
    take_byte_or [of 40 v] take_byte_or [of 48 v] take_byte_or [of 56 v]
    ucast_ucast8 [of v] take_bit_full [of 64 v]
  by (simp flip: or.assoc)

lemma length_be_bytes64 [simp]: "length (be_bytes64 v) = 8"
  by (simp add: be_bytes64_def)

lemma length_bytes64 [simp]: "length (bytes64 e v) = 8"
  by (simp add: bytes64_def split: endian.split)

lemma of_bytes64_bytes64 [simp]: "of_bytes64 e (bytes64 e v) = v"
  by (simp add: of_bytes64_def bytes64_def split: endian.split)

lemma read_u64_enc: "remaining rb = bytes64 (rendian rb) v @ bs \<Longrightarrow> read_u64 rb = (Ok v, advance 8 rb)"
  by (simp add: read_u64_def)

lemma reader_ok_read_u64 [reader_safe]: "reader_ok read_u64"
  unfolding read_u64_def by (intro reader_safe) (auto simp: reader_ok_def)

interpretation u64c: fixed_codec "\<lambda>_. True" bytes64 write_u64 read_u64 8
  by unfold_locales (auto simp: write_u64_def read_u64_enc intro: reader_safe)

definition u8_codec :: "u8 codec" where "u8_codec = default_marshaler 1 write_u8 read_u8"
definition u16_codec :: "u16 codec" where "u16_codec = default_marshaler 2 write_u16 read_u16"
definition u32_codec :: "u32 codec" where "u32_codec = default_marshaler 4 write_u32 read_u32"
definition u64_codec :: "u64 codec" where "u64_codec = default_marshaler 8 write_u64 read_u64"
definition bool_codec :: "bool codec" where "bool_codec = default_marshaler 1 write_raw read_raw"
definition vlq32_codec :: "u32 codec" where "vlq32_codec = default_marshaler 0 vlq32_marshal vlq32_unmarshal"
definition vlq64_codec :: "u64 codec" where "vlq64_codec = default_marshaler 0 vlq64_marshal vlq64_unmarshal"

lemma lawful_scalars [lawful]:
  "lawful_codec u8_codec (\<lambda>_. True) (\<lambda>_ v. [v])"
  "lawful_codec u16_codec (\<lambda>_. True) bytes16"
  "lawful_codec u32_codec (\<lambda>_. True) bytes32"
  "lawful_codec u64_codec (\<lambda>_. True) bytes64"
  "lawful_codec bool_codec (\<lambda>_. True) (\<lambda>_ b. [if b then 1 else 0])"
  "lawful_codec vlq32_codec (\<lambda>_. True) (\<lambda>_. vlq32_bytes)"
  "lawful_codec vlq64_codec (\<lambda>_. True) (\<lambda>_. vlq64_bytes)"
  by (simp_all add: u8_codec_def u16_codec_def u32_codec_def u64_codec_def bool_codec_def
      vlq32_codec_def vlq64_codec_def u8c.lawful_default u16c.lawful_default u32c.lawful_default
      u64c.lawful_default boolc.lawful_default vlq32.lawful_default vlq64.lawful_default)

section \<open>Combinators\<close>

text \<open>\<open>Option<T>\<close> and \<open>OptionalCodec<M>\<close>: a discriminant byte, then the value.\<close>

definition option_marshal :: "'a codec \<Rightarrow> 'a option \<Rightarrow> write_buffer \<Rightarrow> write_buffer option" where
  "option_marshal c v wb = (case v of
     Some inner \<Rightarrow> c_marshal c inner (write_u8 1 wb)
   | None \<Rightarrow> Some (write_u8 0 wb))"

definition option_unmarshal :: "'a codec \<Rightarrow> 'a option reader" where
  "option_unmarshal c = rbind read_u8 (\<lambda>d.
     if d = 0 then rreturn None
     else if d = 1 then rmap Some (c_unmarshal c)
     else rfail (InvalidDiscriminant d))"

definition optional_codec :: "'a codec \<Rightarrow> 'a option codec" where
  "optional_codec c = \<lparr>c_size = 0, c_marshal = option_marshal c, c_unmarshal = option_unmarshal c\<rparr>"

definition option_enc :: "(endian \<Rightarrow> 'a \<Rightarrow> bytes) \<Rightarrow> endian \<Rightarrow> 'a option \<Rightarrow> bytes" where
  "option_enc enc e v = (case v of None \<Rightarrow> [0] | Some x \<Rightarrow> 1 # enc e x)"

lemma lawful_option [lawful]:
  assumes "lawful_codec c valid enc"
  shows "lawful_codec (optional_codec c) (pred_option valid) (option_enc enc)"
proof -
  note c = lawfulD [OF assms] lawful_codec.unmarshal_safe [OF assms]
  show ?thesis
  proof unfold_locales
    fix v wb show "pred_option valid v \<Longrightarrow> c_marshal (optional_codec c) v wb =
        Some (write_bytes (option_enc enc (wendian wb) v) wb)"
      by (cases v) (simp_all add: optional_codec_def option_marshal_def option_enc_def c
          write_u8_def write_bytes_def)
    fix rb :: read_buffer and bs
    assume v: "pred_option valid v" "remaining rb = option_enc enc (rendian rb) v @ bs"
    show "c_unmarshal (optional_codec c) rb =
        (Ok v, advance (length (option_enc enc (rendian rb) v)) rb)"
    proof (cases v)
      case (Some x)
      then have "c_unmarshal c (advance 1 rb) = (Ok x, advance (length (enc (rendian rb) x)) (advance 1 rb))"
        using c(2) [of x "advance 1 rb" bs] v by (simp add: option_enc_def)
      with Some v show ?thesis
        by (simp add: optional_codec_def option_unmarshal_def option_enc_def)
    qed (use v in \<open>simp add: optional_codec_def option_unmarshal_def option_enc_def\<close>)
  next
    show "reader_ok (c_unmarshal (optional_codec c))"
      unfolding optional_codec_def option_unmarshal_def using c(3)
      by (auto intro!: reader_safe)
  qed (simp add: optional_codec_def)
qed

text \<open>
  Tuples: the members in order, through their own marshalers or through \<open>TupleCodec\<close>. The macros
  expand to one such chain per arity; a longer tuple is a pair whose second part is a tuple.
\<close>

definition pair_marshal :: "'a codec \<Rightarrow> 'b codec \<Rightarrow> 'a \<times> 'b \<Rightarrow> write_buffer \<Rightarrow> write_buffer option" where
  "pair_marshal a b v wb = (case c_marshal a (fst v) wb of None \<Rightarrow> None | Some wb' \<Rightarrow> c_marshal b (snd v) wb')"

definition pair_unmarshal :: "'a codec \<Rightarrow> 'b codec \<Rightarrow> ('a \<times> 'b) reader" where
  "pair_unmarshal a b = rbind (c_unmarshal a) (\<lambda>x. rmap (Pair x) (c_unmarshal b))"

definition tuple_codec :: "'a codec \<Rightarrow> 'b codec \<Rightarrow> ('a \<times> 'b) codec" where
  "tuple_codec a b =
     \<lparr>c_size = (if c_size a \<noteq> 0 \<and> c_size b \<noteq> 0 then c_size a + c_size b else 0),
      c_marshal = pair_marshal a b, c_unmarshal = pair_unmarshal a b\<rparr>"

definition pair_enc :: "(endian \<Rightarrow> 'a \<Rightarrow> bytes) \<Rightarrow> (endian \<Rightarrow> 'b \<Rightarrow> bytes) \<Rightarrow> endian \<Rightarrow> 'a \<times> 'b \<Rightarrow> bytes" where
  "pair_enc ea eb e v = ea e (fst v) @ eb e (snd v)"

lemma lawful_tuple [lawful]:
  assumes "lawful_codec a va ea" and "lawful_codec b vb eb"
  shows "lawful_codec (tuple_codec a b) (\<lambda>v. va (fst v) \<and> vb (snd v)) (pair_enc ea eb)"
proof -
  note a = lawfulD [OF assms(1)] lawful_codec.unmarshal_safe [OF assms(1)]
  note b = lawfulD [OF assms(2)] lawful_codec.unmarshal_safe [OF assms(2)]
  show ?thesis
  proof unfold_locales
    fix v wb show "va (fst v) \<and> vb (snd v) \<Longrightarrow> c_marshal (tuple_codec a b) v wb =
        Some (write_bytes (pair_enc ea eb (wendian wb) v) wb)"
      by (simp add: tuple_codec_def pair_marshal_def pair_enc_def a b write_bytes_def)
    fix rb :: read_buffer and bs
    assume v: "va (fst v) \<and> vb (snd v)" "remaining rb = pair_enc ea eb (rendian rb) v @ bs"
    let ?n = "length (ea (rendian rb) (fst v))"
    have "c_unmarshal a rb = (Ok (fst v), advance ?n rb)"
      using a(2) [of "fst v" rb] v by (simp add: pair_enc_def)
    moreover have "c_unmarshal b (advance ?n rb) =
        (Ok (snd v), advance (length (eb (rendian rb) (snd v))) (advance ?n rb))"
      using b(2) [of "snd v" "advance ?n rb" bs] v by (simp add: pair_enc_def)
    ultimately show "c_unmarshal (tuple_codec a b) rb =
        (Ok v, advance (length (pair_enc ea eb (rendian rb) v)) rb)"
      by (simp add: tuple_codec_def pair_unmarshal_def pair_enc_def)
  next
    show "reader_ok (c_unmarshal (tuple_codec a b))"
      unfolding tuple_codec_def pair_unmarshal_def using a(3) b(3) by (auto intro!: reader_safe)
  next
    fix v e show "va (fst v) \<and> vb (snd v) \<Longrightarrow> c_size (tuple_codec a b) \<noteq> 0 \<Longrightarrow>
        length (pair_enc ea eb e v) = c_size (tuple_codec a b)"
      using lawful_codec.size_fixed [OF assms(1)] lawful_codec.size_fixed [OF assms(2)]
      by (auto simp: tuple_codec_def pair_enc_def split: if_splits)
  qed
qed

text \<open>\<open>BooleanChoice\<close>: a boolean, then the payload it selects.\<close>

datatype ('f, 't) boolean_choice = ChoiceFalse 'f | ChoiceTrue 't

definition boolean_choice_marshal ::
    "'f codec \<Rightarrow> 't codec \<Rightarrow> ('f, 't) boolean_choice \<Rightarrow> write_buffer \<Rightarrow> write_buffer option" where
  "boolean_choice_marshal fm tm v wb = (case v of
     ChoiceFalse x \<Rightarrow> c_marshal fm x (write_raw False wb)
   | ChoiceTrue x \<Rightarrow> c_marshal tm x (write_raw True wb))"

definition boolean_choice_unmarshal :: "'f codec \<Rightarrow> 't codec \<Rightarrow> ('f, 't) boolean_choice reader" where
  "boolean_choice_unmarshal fm tm = rbind read_raw (\<lambda>b.
     if b then rmap ChoiceTrue (c_unmarshal tm) else rmap ChoiceFalse (c_unmarshal fm))"

definition boolean_choice_codec :: "'f codec \<Rightarrow> 't codec \<Rightarrow> ('f, 't) boolean_choice codec" where
  "boolean_choice_codec fm tm = \<lparr>c_size = 0, c_marshal = boolean_choice_marshal fm tm,
     c_unmarshal = boolean_choice_unmarshal fm tm\<rparr>"

definition choice_enc ::
    "(endian \<Rightarrow> 'f \<Rightarrow> bytes) \<Rightarrow> (endian \<Rightarrow> 't \<Rightarrow> bytes) \<Rightarrow> endian \<Rightarrow> ('f, 't) boolean_choice \<Rightarrow> bytes" where
  "choice_enc ef et e v = (case v of ChoiceFalse x \<Rightarrow> 0 # ef e x | ChoiceTrue x \<Rightarrow> 1 # et e x)"

lemma read_raw_enc: "remaining rb = (if b then 1 else 0) # bs \<Longrightarrow> read_raw rb = (Ok b, advance 1 rb)"
  using boolc.unmarshal_fixed [of rb b bs] by simp

lemma lawful_choice [lawful]:
  assumes "lawful_codec fm vf ef" and "lawful_codec tm vt et"
  shows "lawful_codec (boolean_choice_codec fm tm)
    (\<lambda>v. case v of ChoiceFalse x \<Rightarrow> vf x | ChoiceTrue x \<Rightarrow> vt x) (choice_enc ef et)"
proof -
  note f = lawfulD [OF assms(1)] lawful_codec.unmarshal_safe [OF assms(1)]
  note t = lawfulD [OF assms(2)] lawful_codec.unmarshal_safe [OF assms(2)]
  note defs = boolean_choice_codec_def boolean_choice_marshal_def boolean_choice_unmarshal_def
    choice_enc_def
  show ?thesis
  proof unfold_locales
    fix v wb show "(case v of ChoiceFalse x \<Rightarrow> vf x | ChoiceTrue x \<Rightarrow> vt x) \<Longrightarrow>
        c_marshal (boolean_choice_codec fm tm) v wb =
          Some (write_bytes (choice_enc ef et (wendian wb) v) wb)"
      by (cases v) (simp_all add: defs f t write_raw_def write_u8_def write_bytes_def)
    fix rb :: read_buffer and bs
    assume v: "case v of ChoiceFalse x \<Rightarrow> vf x | ChoiceTrue x \<Rightarrow> vt x"
      "remaining rb = choice_enc ef et (rendian rb) v @ bs"
    show "c_unmarshal (boolean_choice_codec fm tm) rb =
        (Ok v, advance (length (choice_enc ef et (rendian rb) v)) rb)"
    proof (cases v)
      case (ChoiceFalse x)
      then have "read_raw rb = (Ok False, advance 1 rb)"
        "c_unmarshal fm (advance 1 rb) = (Ok x, advance (length (ef (rendian rb) x)) (advance 1 rb))"
        using v read_raw_enc [of rb False] f(2) [of x "advance 1 rb" bs] by (simp_all add: defs)
      with ChoiceFalse show ?thesis by (simp add: defs rbind_def)
    next
      case (ChoiceTrue x)
      then have "read_raw rb = (Ok True, advance 1 rb)"
        "c_unmarshal tm (advance 1 rb) = (Ok x, advance (length (et (rendian rb) x)) (advance 1 rb))"
        using v read_raw_enc [of rb True] t(2) [of x "advance 1 rb" bs] by (simp_all add: defs)
      with ChoiceTrue show ?thesis by (simp add: defs rbind_def)
    qed
  next
    show "reader_ok (c_unmarshal (boolean_choice_codec fm tm))"
      unfolding defs using f(3) t(3) by (auto intro!: reader_safe)
  qed (simp add: boolean_choice_codec_def)
qed

section \<open>Utility codecs\<close>

text \<open>\<open>Sentinel\<close>: \<open>None\<close> is \<open>u32::MAX\<close>.\<close>

definition sentinel_marshal :: "u32 option \<Rightarrow> write_buffer \<Rightarrow> write_buffer" where
  "sentinel_marshal v = (case v of Some x \<Rightarrow> write_u32 x | None \<Rightarrow> write_u32 0xffffffff)"

definition sentinel_unmarshal :: "u32 option reader" where
  "sentinel_unmarshal = rmap (\<lambda>v. if v = 0xffffffff then None else Some v) read_u32"

definition sentinel_codec :: "u32 option codec" where
  "sentinel_codec = default_marshaler 4 sentinel_marshal sentinel_unmarshal"

interpretation sentinel: fixed_codec "\<lambda>v. v \<noteq> Some 0xffffffff"
  "\<lambda>e v. bytes32 e (case v of Some x \<Rightarrow> x | None \<Rightarrow> 0xffffffff)" sentinel_marshal sentinel_unmarshal 4
  by unfold_locales
    (auto simp: sentinel_marshal_def sentinel_unmarshal_def write_u32_def rmap_def
      intro!: reader_safe split: option.split option.splits)

text \<open>\<open>RawSequenceNumber\<close>: eight bytes in the byte order of the platform, an argument here.\<close>

definition raw_sequence_marshal :: "endian \<Rightarrow> u64 \<Rightarrow> write_buffer \<Rightarrow> write_buffer" where
  "raw_sequence_marshal native v = write_bytes (bytes64 native v)"

definition raw_sequence_unmarshal :: "endian \<Rightarrow> u64 reader" where
  "raw_sequence_unmarshal native = rmap (of_bytes64 native) (read_bytes 8)"

interpretation raw_sequence: fixed_codec "\<lambda>_. True" "\<lambda>_. bytes64 native"
  "raw_sequence_marshal native" "raw_sequence_unmarshal native" 8
  by unfold_locales
    (auto simp: raw_sequence_marshal_def raw_sequence_unmarshal_def intro: reader_safe)

text \<open>\<open>Duration\<close>, in nanoseconds: whole milliseconds, clamped to the range of \<open>u32\<close>.\<close>

definition duration_marshal :: "nat \<Rightarrow> write_buffer \<Rightarrow> write_buffer" where
  "duration_marshal d = write_u32 (of_nat (min (d div 1000000) 0xffffffff))"

definition duration_unmarshal :: "nat reader" where
  "duration_unmarshal = rmap (\<lambda>ms. unat ms * 1000000) read_u32"

interpretation duration: fixed_codec "\<lambda>d. 1000000 dvd d \<and> d \<le> 0xffffffff * 1000000"
  "\<lambda>e d. bytes32 e (of_nat (min (d div 1000000) 0xffffffff))" duration_marshal duration_unmarshal 4
proof unfold_locales
  fix d rb bs
  assume d: "1000000 dvd d \<and> d \<le> 0xffffffff * 1000000"
    and rb: "remaining rb = bytes32 (rendian rb) (of_nat (min (d div 1000000) 0xffffffff)) @ bs"
  have le: "d div 1000000 \<le> 0xffffffff" using d by (auto elim!: dvdE)
  then have "unat (of_nat (d div 1000000) :: u32) = d div 1000000"
    by (simp add: unsigned_of_nat take_bit_nat_eq_self)
  with d le have "unat (of_nat (min (d div 1000000) 0xffffffff) :: u32) * 1000000 = d"
    by (simp add: min_def)
  with rb show "duration_unmarshal rb =
      (Ok d, advance (length (bytes32 (rendian rb) (of_nat (min (d div 1000000) 0xffffffff)))) rb)"
    by (simp add: duration_unmarshal_def rmap_def)
qed (auto simp: duration_marshal_def duration_unmarshal_def write_u32_def intro: reader_safe)

text \<open>\<open>Uuid\<close>: sixteen raw bytes; \<open>Uuid::from_slice\<close> fails on any other length.\<close>

definition uuid_marshal :: "bytes \<Rightarrow> write_buffer \<Rightarrow> write_buffer" where
  "uuid_marshal u = write_bytes u"

definition uuid_unmarshal :: "bytes reader" where
  "uuid_unmarshal = rbind (read_bytes 16) (\<lambda>bs. if length bs = 16 then rreturn bs else rfail Uuid)"

definition uuid_codec :: "bytes codec" where
  "uuid_codec = default_marshaler 16 uuid_marshal uuid_unmarshal"

interpretation uuidc: wire_codec "\<lambda>u. length u = 16" "\<lambda>_ u. u" uuid_marshal uuid_unmarshal
  by unfold_locales (auto simp: uuid_marshal_def uuid_unmarshal_def intro!: reader_safe)

text \<open>\<open>BitSet<WORDS>\<close>: a list of \<open>WORDS\<close> words.\<close>

definition bitset_get :: "nat \<Rightarrow> u64 list \<Rightarrow> bool" where
  "bitset_get i ws =
     (let word_idx = i div 64; bit_idx = i mod 64
      in word_idx < length ws \<and> ws ! word_idx AND push_bit bit_idx 1 \<noteq> 0)"

definition bitset_set :: "nat \<Rightarrow> bool \<Rightarrow> u64 list \<Rightarrow> u64 list" where
  "bitset_set i v ws =
     (let word_idx = i div 64; bit_idx = i mod 64
      in if word_idx \<ge> length ws then ws
         else if v then ws[word_idx := ws ! word_idx OR push_bit bit_idx 1]
         else ws[word_idx := ws ! word_idx AND NOT (push_bit bit_idx 1)])"

definition bitset_marshal :: "u64 list \<Rightarrow> write_buffer \<Rightarrow> write_buffer" where
  "bitset_marshal ws wb = fold write_u64 ws wb"

fun bitset_unmarshal :: "nat \<Rightarrow> u64 list reader" where
  "bitset_unmarshal 0 = rreturn []"
| "bitset_unmarshal (Suc n) = rbind read_u64 (\<lambda>w. rmap (Cons w) (bitset_unmarshal n))"

lemma and_exp_64: "(w :: u64) AND 2 ^ k \<noteq> 0 \<longleftrightarrow> bit w k"
  by (auto simp: and_exp_eq_0_iff_not_bit dest: bit_imp_le_length)

lemma bitset_get_bit: "bitset_get i ws \<longleftrightarrow> i div 64 < length ws \<and> bit (ws ! (i div 64)) (i mod 64)"
  by (simp add: bitset_get_def Let_def push_bit_of_1 and_exp_64)

lemma bitset_get_set:
  "bitset_get j (bitset_set i v ws) =
     (if j = i \<and> i < 64 * length ws then v else bitset_get j ws)"
proof -
  have len: "i div 64 < length ws \<longleftrightarrow> i < 64 * length ws"
    by (simp add: div_less_iff_less_mult mult.commute)
  have ij: "j = i \<longleftrightarrow> i div 64 = j div 64 \<and> j mod 64 = i mod 64"
    by (metis div_mult_mod_eq)
  have m: "bit (push_bit (i mod 64) (1 :: u64)) k \<longleftrightarrow> k = i mod 64" for k
    by (auto simp: bit_simps)
  show ?thesis
    unfolding bitset_get_bit
    by (auto simp: bitset_set_def Let_def len [symmetric] bit_simps m nth_list_update ij
        simp del: div_mult_mod_eq)
qed

lemma fold_write_u64:
  "fold write_u64 ws wb = write_bytes (concat (map (bytes64 (wendian wb)) ws)) wb"
  by (induction ws arbitrary: wb) (simp_all add: write_u64_def write_bytes_def)

lemma bitset_unmarshal_enc:
  "remaining rb = concat (map (bytes64 (rendian rb)) ws) @ bs \<Longrightarrow>
     bitset_unmarshal (length ws) rb =
       (Ok ws, advance (length (concat (map (bytes64 (rendian rb)) ws))) rb)"
proof (induction ws arbitrary: rb)
  case (Cons w ws)
  from Cons.prems have "read_u64 rb = (Ok w, advance 8 rb)"
    by (intro read_u64_enc) simp
  with Cons.IH [of "advance 8 rb"] Cons.prems show ?case by simp
qed simp

lemma reader_ok_bitset [reader_safe]: "reader_ok (bitset_unmarshal n)"
proof (induction n)
  case 0
  show ?case unfolding bitset_unmarshal.simps by (rule reader_safe)
next
  case (Suc n)
  then show ?case unfolding bitset_unmarshal.simps by (intro reader_safe)
qed

interpretation bitset: wire_codec "\<lambda>ws. length ws = words" "\<lambda>e ws. concat (map (bytes64 e) ws)"
  bitset_marshal "bitset_unmarshal words"
  by unfold_locales
    (auto simp: bitset_marshal_def fold_write_u64 bitset_unmarshal_enc intro: reader_safe)

lemma lawful_utility [lawful]:
  "lawful_codec sentinel_codec (\<lambda>v. v \<noteq> Some 0xffffffff)
     (\<lambda>e v. bytes32 e (case v of Some x \<Rightarrow> x | None \<Rightarrow> 0xffffffff))"
  by (simp_all add: sentinel_codec_def sentinel.lawful_default)

lemma lawful_uuid [lawful]: "lawful_codec uuid_codec (\<lambda>u. length u = 16) (\<lambda>_ u. u)"
  by unfold_locales
    (auto simp: uuid_codec_def default_marshaler_def uuidc.marshal_enc uuidc.unmarshal_enc
      uuidc.unmarshal_safe)

end
