(* ===== verification/Hub_Sequence.thy ===== *)
theory Hub_Sequence
  imports Codecs
begin

text \<open>
  \<^verbatim>\<open>hub/sequence_number.rs\<close>: the replication sequence number of the hub. Its \<open>PartialEq\<close> compares
  raw values, so it is not the equality of the datatype (\<open>Seq 0\<close> and \<open>ValidNonSequence\<close> are equal
  for it): it is \<open>hub_eq\<close>. Its \<open>Ord\<close> is a total preorder, which instantiates \<open>preorder\<close>, and the
  comparisons of the component theories are those of this instance. \<open>debug_assert!\<close> has no effect
  in the release build that is modelled.
\<close>

datatype hub_seq = Invalid | ValidNonSequence | Seq u64

definition invalid_sequence_value :: u64 where "invalid_sequence_value = 0xffffffffffffffff"
definition valid_non_sequence_value :: u64 where "valid_non_sequence_value = 0"
definition starting_sequence_value :: u64 where "starting_sequence_value = 1"

definition raw_value :: "hub_seq \<Rightarrow> u64" where
  "raw_value s = (case s of
     Invalid \<Rightarrow> invalid_sequence_value | ValidNonSequence \<Rightarrow> valid_non_sequence_value | Seq n \<Rightarrow> n)"

definition from_raw :: "u64 \<Rightarrow> hub_seq" where
  "from_raw n =
     (if n = valid_non_sequence_value then ValidNonSequence
      else if n = invalid_sequence_value then Invalid else Seq n)"

definition starting_sequence :: hub_seq where
  "starting_sequence = Seq starting_sequence_value"

definition seq_is_valid :: "hub_seq \<Rightarrow> bool" where
  "seq_is_valid s \<longleftrightarrow> raw_value s \<noteq> invalid_sequence_value"

definition as_seq :: "hub_seq \<Rightarrow> u64 option" where
  "as_seq s =
     (let n = raw_value s in
      if n = valid_non_sequence_value \<or> n = invalid_sequence_value then None else Some n)"

definition hub_next :: "hub_seq \<Rightarrow> hub_seq" where
  "hub_next s =
     (if raw_value s = invalid_sequence_value then Invalid else from_raw (raw_value s + 1))"

definition hub_eq :: "hub_seq \<Rightarrow> hub_seq \<Rightarrow> bool" where
  "hub_eq a b \<longleftrightarrow> raw_value a = raw_value b"

datatype ordering = Less | Equal | Greater

definition u64_cmp :: "u64 \<Rightarrow> u64 \<Rightarrow> ordering" where
  "u64_cmp a b = (if a < b then Less else if a = b then Equal else Greater)"

definition hub_cmp :: "hub_seq \<Rightarrow> hub_seq \<Rightarrow> ordering" where
  "hub_cmp a b =
     (let l = raw_value a; r = raw_value b in
      case (l = invalid_sequence_value, r = invalid_sequence_value) of
        (True, True) \<Rightarrow> Equal
      | (True, False) \<Rightarrow> Less
      | (False, True) \<Rightarrow> Greater
      | (False, False) \<Rightarrow> u64_cmp l r)"

text \<open>\<open>rank\<close>: the position in the order, with the invalid numbers below all others.\<close>

definition rank :: "hub_seq \<Rightarrow> nat" where
  "rank s = (if raw_value s = invalid_sequence_value then 0 else unat (raw_value s) + 1)"

lemma rank_eq_iff: "rank a = rank b \<longleftrightarrow> raw_value a = raw_value b"
  by (auto simp: rank_def simp flip: word_unat_eq_iff)

lemma hub_cmp_rank:
  "hub_cmp a b = (if rank a < rank b then Less else if rank a = rank b then Equal else Greater)"
  by (auto simp: hub_cmp_def Let_def rank_def u64_cmp_def word_less_nat_alt
      simp flip: word_unat_eq_iff)

instantiation hub_seq :: preorder
begin

definition less_hub_seq :: "hub_seq \<Rightarrow> hub_seq \<Rightarrow> bool" where
  "less_hub_seq a b \<longleftrightarrow> hub_cmp a b = Less"

definition less_eq_hub_seq :: "hub_seq \<Rightarrow> hub_seq \<Rightarrow> bool" where
  "less_eq_hub_seq a b \<longleftrightarrow> hub_cmp a b \<noteq> Greater"

instance
  by standard (auto simp: less_hub_seq_def less_eq_hub_seq_def hub_cmp_rank split: if_splits)

end

lemma hub_less_rank: "a < b \<longleftrightarrow> rank a < rank b" for a b :: hub_seq
  by (simp add: less_hub_seq_def hub_cmp_rank)

lemma hub_le_rank: "a \<le> b \<longleftrightarrow> rank a \<le> rank b" for a b :: hub_seq
  by (auto simp: less_eq_hub_seq_def hub_cmp_rank)

lemmas hub_seq_defs = raw_value_def from_raw_def invalid_sequence_value_def valid_non_sequence_value_def

lemma raw_from_raw [simp]: "raw_value (from_raw n) = n"
  by (simp add: hub_seq_defs)

lemma hub_linear: "a < b \<or> hub_eq a b \<or> b < a" for a b :: hub_seq
  by (auto simp: hub_less_rank hub_eq_def simp flip: rank_eq_iff)

lemma not_less_Invalid [simp]: "\<not> a < Invalid"
  by (simp add: hub_less_rank rank_def hub_seq_defs)

lemma Invalid_less_iff [simp]: "Invalid < a \<longleftrightarrow> seq_is_valid a"
  by (auto simp: hub_less_rank rank_def seq_is_valid_def raw_value_def)

lemma seq_is_valid_simps [simp]: "\<not> seq_is_valid Invalid" "seq_is_valid ValidNonSequence"
  by (simp_all add: seq_is_valid_def hub_seq_defs)

lemma seq_is_valid_Seq: "seq_is_valid (Seq n) \<longleftrightarrow> n \<noteq> 0xffffffffffffffff"
  by (simp add: seq_is_valid_def hub_seq_defs)

section \<open>Wire form\<close>

definition hub_seq_marshal :: "hub_seq \<Rightarrow> write_buffer \<Rightarrow> write_buffer option" where
  "hub_seq_marshal s wb =
     option_marshal vlq64_codec
       (case from_raw (raw_value s) of Invalid \<Rightarrow> None | ValidNonSequence \<Rightarrow> Some 0 | Seq n \<Rightarrow> Some n) wb"

definition hub_seq_unmarshal :: "hub_seq reader" where
  "hub_seq_unmarshal = rmap (\<lambda>v. case v of None \<Rightarrow> Invalid | Some n \<Rightarrow> from_raw n)
     (option_unmarshal vlq64_codec)"

definition hub_seq_codec :: "hub_seq codec" where
  "hub_seq_codec = \<lparr>c_size = 0, c_marshal = hub_seq_marshal, c_unmarshal = hub_seq_unmarshal\<rparr>"

text \<open>The values the conversions produce: \<open>Seq\<close> never holds one of the two sentinels.\<close>

definition normal :: "hub_seq \<Rightarrow> bool" where
  "normal s \<longleftrightarrow> s = from_raw (raw_value s)"

lemma normal_simps [simp]: "normal Invalid" "normal ValidNonSequence" "normal (from_raw n)"
  by (simp_all add: normal_def hub_seq_defs)

lemma normal_Seq: "normal (Seq n) \<longleftrightarrow> n \<noteq> 0 \<and> n \<noteq> 0xffffffffffffffff"
  by (simp add: normal_def hub_seq_defs)

lemma hub_eq_normal: "normal a \<Longrightarrow> normal b \<Longrightarrow> hub_eq a b \<longleftrightarrow> a = b"
  unfolding normal_def hub_eq_def by metis

definition hub_seq_enc :: "hub_seq \<Rightarrow> bytes" where
  "hub_seq_enc s = (if raw_value s = invalid_sequence_value then [0] else 1 # vlq64_bytes (raw_value s))"

lemma hub_seq_option:
  "(case from_raw (raw_value s) of Invalid \<Rightarrow> None | ValidNonSequence \<Rightarrow> Some 0 | Seq n \<Rightarrow> Some n) =
     (if raw_value s = invalid_sequence_value then None else Some (raw_value s))"
  by (auto simp: from_raw_def valid_non_sequence_value_def invalid_sequence_value_def)

lemma hub_seq_marshal_enc: "hub_seq_marshal s wb = Some (write_bytes (hub_seq_enc s) wb)"
  using lawful_codec.marshal_enc [OF lawful_option [OF lawful_scalars(7)]]
  unfolding hub_seq_marshal_def hub_seq_option optional_codec_def
  by (simp add: option_enc_def hub_seq_enc_def)

lemma hub_seq_unmarshal_enc:
  assumes "remaining rb = hub_seq_enc s @ bs"
  shows "hub_seq_unmarshal rb = (Ok (from_raw (raw_value s)), advance (length (hub_seq_enc s)) rb)"
proof -
  let ?o = "if raw_value s = invalid_sequence_value then None else Some (raw_value s)"
  have e: "option_enc (\<lambda>_. vlq64_bytes) (rendian rb) ?o = hub_seq_enc s"
    by (simp add: option_enc_def hub_seq_enc_def)
  have "c_unmarshal (optional_codec vlq64_codec) rb =
      (Ok ?o, advance (length (option_enc (\<lambda>_. vlq64_bytes) (rendian rb) ?o)) rb)"
    using assms e by (intro lawful_codec.unmarshal_enc [OF lawful_option [OF lawful_scalars(7)]]) auto
  then have "option_unmarshal vlq64_codec rb = (Ok ?o, advance (length (hub_seq_enc s)) rb)"
    unfolding e by (simp add: optional_codec_def)
  then show ?thesis
    by (auto simp: hub_seq_unmarshal_def from_raw_def invalid_sequence_value_def
        valid_non_sequence_value_def)
qed

lemma lawful_hub_seq [lawful]: "lawful_codec hub_seq_codec normal (\<lambda>_. hub_seq_enc)"
proof unfold_locales
  show "reader_ok (c_unmarshal hub_seq_codec)"
    using lawful_codec.unmarshal_safe [OF lawful_option [OF lawful_scalars(7)]]
    by (simp add: hub_seq_codec_def hub_seq_unmarshal_def optional_codec_def reader_safe)
qed (auto simp: hub_seq_codec_def hub_seq_marshal_enc hub_seq_unmarshal_enc normal_def)

text \<open>
  The hub sequence order and its wire form: comparison is total, \<open>Invalid\<close> is below every
  valid number, the successor of a valid number is above it unless the counter is at its last
  value, in which case it becomes \<open>Invalid\<close> and so falls below every valid number; and a number
  survives the wire up to the comparison of the code.
\<close>

lemma hub_sequence_order:
  "(a < b \<or> hub_eq a b \<or> b < a) \<and> \<not> a < Invalid
   \<and> (if raw_value a = 0xfffffffffffffffe then hub_next a = Invalid
      else seq_is_valid a = (a < hub_next a))
   \<and> (case hub_seq_marshal a (write_new e) of
        None \<Rightarrow> False
      | Some wb \<Rightarrow> (case hub_seq_unmarshal (read_new e (wdata wb @ rest)) of
          (Inl err, rb) \<Rightarrow> False
        | (Inr b, rb) \<Rightarrow> hub_eq b a \<and> remaining rb = rest))"
proof -
  have n: "if raw_value a = 0xfffffffffffffffe then hub_next a = Invalid
      else seq_is_valid a = (a < hub_next a)"
  proof (cases "raw_value a = 0xfffffffffffffffe \<or> raw_value a = 0xffffffffffffffff")
    case True
    then show ?thesis
      by (auto simp: hub_next_def seq_is_valid_def hub_less_rank rank_def from_raw_def raw_value_def
          invalid_sequence_value_def valid_non_sequence_value_def)
  next
    case False
    then have "raw_value a + 1 \<noteq> 0" "raw_value a + 1 \<noteq> 0xffffffffffffffff"
      by (auto simp: add_eq_0_iff eq_diff_eq [symmetric])
    then have "unat (raw_value a + 1) = unat (raw_value a) + 1"
      by (simp add: unatSuc add.commute)
    with False \<open>raw_value a + 1 \<noteq> 0xffffffffffffffff\<close> show ?thesis
      by (simp add: hub_next_def seq_is_valid_def hub_less_rank rank_def invalid_sequence_value_def)
  qed
  have "hub_seq_unmarshal (read_new e (hub_seq_enc a @ rest)) =
      (Ok (from_raw (raw_value a)), advance (length (hub_seq_enc a)) (read_new e (hub_seq_enc a @ rest)))"
    by (intro hub_seq_unmarshal_enc) simp
  with n hub_linear [of a b] show ?thesis
    by (simp add: hub_seq_marshal_enc write_bytes_def write_new_def hub_eq_def)
qed

end
