(* ===== verification/Containers.thy ===== *)
theory Containers
  imports Codecs "HOL-Library.AList" "HOL-Library.Multiset"
begin

text \<open>
  \<^verbatim>\<open>serialize/container_marshal.rs\<close> and the \<open>String\<close> and \<open>EntityRef\<close> impls of \<^verbatim>\<open>data_marshal.rs\<close>:
  an element count, either a VLQ32 bounded by a capacity or a raw \<open>u16\<close>, and then the elements in
  iteration order.

  \<open>Vec\<close>, \<open>ArrayVec\<close> and arrays are lists. \<open>IndexSet\<close> and \<open>IndexMap\<close> are lists without
  repetitions in insertion order, \<open>BTreeSet\<close> and \<open>BTreeMap\<close> lists in key order. The iteration order
  of \<open>HashSet\<close> and \<open>HashMap\<close> is not specified: it is an argument \<open>iter\<close> of their codecs that
  permutes the contents. All readers share the loop \<open>read_into\<close>, which inserts the decoded elements
  into the collection one by one.
\<close>

section \<open>Counts\<close>

definition wire_vec_cap :: nat where "wire_vec_cap = 0x02000000"

definition marshal_wire_count :: "nat \<Rightarrow> write_buffer \<Rightarrow> write_buffer option" where
  "marshal_wire_count len wb = (if len < 2 ^ 32 then Some (vlq32_marshal (of_nat len) wb) else None)"

definition unmarshal_wire_count :: "nat \<Rightarrow> nat reader" where
  "unmarshal_wire_count capacity = rbind vlq32_unmarshal (\<lambda>v. let len = unat v in
     if len > capacity then rfail (ContainerOverflow len capacity) else rreturn len)"

definition wire_count :: "nat \<Rightarrow> nat codec" where
  "wire_count capacity = \<lparr>c_size = 0, c_marshal = marshal_wire_count, c_unmarshal = unmarshal_wire_count capacity\<rparr>"

definition marshal_len :: "nat \<Rightarrow> write_buffer \<Rightarrow> write_buffer option" where
  "marshal_len len wb = (if len < 2 ^ 16 then Some (write_u16 (of_nat len) wb) else None)"

definition unmarshal_len :: "nat reader" where
  "unmarshal_len = rmap unat read_u16"

text \<open>The raw count, with the check that the container impls put after it.\<close>

definition checked_len :: "(nat \<Rightarrow> bool) \<Rightarrow> nat \<Rightarrow> nat codec" where
  "checked_len ok capacity = \<lparr>c_size = 0, c_marshal = marshal_len,
     c_unmarshal = rbind unmarshal_len (\<lambda>len.
       if \<not> ok len then rfail (ContainerOverflow len capacity) else rreturn len)\<rparr>"

lemma lawful_wire_count [lawful]:
  "lawful_codec (wire_count cap) (\<lambda>n. n \<le> cap \<and> n < 2 ^ 32) (\<lambda>_ n. vlq32_bytes (of_nat n))"
proof unfold_locales
  fix n rb bs
  assume n: "n \<le> cap \<and> n < 2 ^ 32" and rb: "remaining rb = vlq32_bytes (of_nat n) @ bs"
  have "unat (of_nat n :: u32) = n" using n by (simp add: unsigned_of_nat take_bit_nat_eq_self)
  with n rb vlq32.unmarshal_enc [of rb "of_nat n" bs]
  show "c_unmarshal (wire_count cap) rb = (Ok n, advance (length (vlq32_bytes (of_nat n))) rb)"
    by (simp add: wire_count_def unmarshal_wire_count_def)
next
  show "reader_ok (c_unmarshal (wire_count cap))"
    by (auto simp: wire_count_def unmarshal_wire_count_def Let_def intro!: reader_safe)
qed (simp_all add: wire_count_def marshal_wire_count_def vlq32.marshal_enc)

lemma lawful_checked_len [lawful]:
  "lawful_codec (checked_len ok cap) (\<lambda>n. ok n \<and> n < 2 ^ 16) (\<lambda>e n. bytes16 e (of_nat n))"
proof unfold_locales
  fix n rb bs
  assume n: "ok n \<and> n < 2 ^ 16" and rb: "remaining rb = bytes16 (rendian rb) (of_nat n) @ bs"
  have "unat (of_nat n :: u16) = n" using n by (simp add: unsigned_of_nat take_bit_nat_eq_self)
  with n rb show "c_unmarshal (checked_len ok cap) rb =
      (Ok n, advance (length (bytes16 (rendian rb) (of_nat n))) rb)"
    by (simp add: checked_len_def unmarshal_len_def rmap_def)
next
  show "reader_ok (c_unmarshal (checked_len ok cap))"
    by (auto simp: checked_len_def unmarshal_len_def intro!: reader_safe)
qed (simp_all add: checked_len_def marshal_len_def write_u16_def)

section \<open>The element loops\<close>

fun marshal_items :: "'a codec \<Rightarrow> 'a list \<Rightarrow> write_buffer \<Rightarrow> write_buffer option" where
  "marshal_items c [] wb = Some wb"
| "marshal_items c (x # xs) wb =
     (case c_marshal c x wb of None \<Rightarrow> None | Some wb' \<Rightarrow> marshal_items c xs wb')"

fun read_into :: "('a \<Rightarrow> 'm \<Rightarrow> 'm) \<Rightarrow> 'a reader \<Rightarrow> nat \<Rightarrow> 'm \<Rightarrow> 'm reader" where
  "read_into ins r 0 m = rreturn m"
| "read_into ins r (Suc n) m = rbind r (\<lambda>x. read_into ins r n (ins x m))"

lemma reader_ok_read_into [reader_safe]: "reader_ok r \<Longrightarrow> reader_ok (read_into ins r n m)"
proof (induction n arbitrary: m)
  case 0
  show ?case unfolding read_into.simps by (rule reader_safe)
next
  case (Suc n)
  then show ?case unfolding read_into.simps by (intro reader_safe)
qed

lemma marshal_items_enc:
  assumes "lawful_codec c valid enc"
  shows "list_all valid xs \<Longrightarrow>
    marshal_items c xs wb = Some (write_bytes (concat (map (enc (wendian wb)) xs)) wb)"
proof (induction xs arbitrary: wb)
  case (Cons x xs)
  then show ?case by (simp add: lawfulD(1) [OF assms] write_bytes_def)
qed (simp add: write_bytes_def)

lemma read_into_enc:
  assumes "lawful_codec c valid enc"
  shows "list_all valid xs \<Longrightarrow> remaining rb = concat (map (enc (rendian rb)) xs) @ bs \<Longrightarrow>
    read_into ins (c_unmarshal c) (length xs) m rb =
      (Ok (fold ins xs m), advance (length (concat (map (enc (rendian rb)) xs))) rb)"
proof (induction xs arbitrary: rb m)
  case (Cons x xs)
  let ?n = "length (enc (rendian rb) x)"
  have "c_unmarshal c rb = (Ok x, advance ?n rb)"
    using Cons.prems by (intro lawfulD(2) [OF assms]) simp_all
  with Cons.IH [of "advance ?n rb"] Cons.prems show ?case by simp
qed simp

text \<open>A count, then the elements: the shape of every container impl.\<close>

definition counted_marshal ::
    "nat codec \<Rightarrow> ('m \<Rightarrow> 'a list) \<Rightarrow> 'a codec \<Rightarrow> 'm \<Rightarrow> write_buffer \<Rightarrow> write_buffer option" where
  "counted_marshal cc iter c m wb =
     (case c_marshal cc (length (iter m)) wb of None \<Rightarrow> None | Some wb' \<Rightarrow> marshal_items c (iter m) wb')"

definition counted_unmarshal ::
    "nat codec \<Rightarrow> ('a \<Rightarrow> 'm \<Rightarrow> 'm) \<Rightarrow> 'm \<Rightarrow> 'a codec \<Rightarrow> 'm reader" where
  "counted_unmarshal cc ins new c = rbind (c_unmarshal cc) (\<lambda>n. read_into ins (c_unmarshal c) n new)"

definition counted_codec ::
    "nat codec \<Rightarrow> ('a \<Rightarrow> 'm \<Rightarrow> 'm) \<Rightarrow> 'm \<Rightarrow> ('m \<Rightarrow> 'a list) \<Rightarrow> 'a codec \<Rightarrow> 'm codec" where
  "counted_codec cc ins new iter c = \<lparr>c_size = 0, c_marshal = counted_marshal cc iter c,
     c_unmarshal = counted_unmarshal cc ins new c\<rparr>"

definition counted_enc ::
    "(endian \<Rightarrow> nat \<Rightarrow> bytes) \<Rightarrow> ('m \<Rightarrow> 'a list) \<Rightarrow> (endian \<Rightarrow> 'a \<Rightarrow> bytes) \<Rightarrow> endian \<Rightarrow> 'm \<Rightarrow> bytes" where
  "counted_enc ce iter enc e m = ce e (length (iter m)) @ concat (map (enc e) (iter m))"

lemma counted_marshal_enc:
  assumes "lawful_codec cc lim ce" and "lawful_codec c valid enc"
    and "lim (length (iter m))" and "list_all valid (iter m)"
  shows "counted_marshal cc iter c m wb = Some (write_bytes (counted_enc ce iter enc (wendian wb) m) wb)"
  using assms
  by (simp add: counted_marshal_def lawfulD(1) [OF assms(1)] marshal_items_enc [OF assms(2)]
      counted_enc_def write_bytes_def)

lemma counted_unmarshal_enc:
  assumes "lawful_codec cc lim ce" and "lawful_codec c valid enc"
    and "lim (length (iter m))" and "list_all valid (iter m)"
    and "remaining rb = counted_enc ce iter enc (rendian rb) m @ bs"
  shows "counted_unmarshal cc ins new c rb =
    (Ok (fold ins (iter m) new), advance (length (counted_enc ce iter enc (rendian rb) m)) rb)"
proof -
  let ?n = "length (ce (rendian rb) (length (iter m)))"
  have "c_unmarshal cc rb = (Ok (length (iter m)), advance ?n rb)"
    using assms(3,5) by (intro lawfulD(2) [OF assms(1)]) (auto simp: counted_enc_def)
  moreover have "read_into ins (c_unmarshal c) (length (iter m)) new (advance ?n rb) =
      (Ok (fold ins (iter m) new),
       advance (length (concat (map (enc (rendian rb)) (iter m)))) (advance ?n rb))"
    using read_into_enc [OF assms(2,4), of "advance ?n rb" bs ins new] assms(5)
    by (simp add: counted_enc_def)
  ultimately show ?thesis by (simp add: counted_unmarshal_def counted_enc_def)
qed

lemma reader_ok_counted:
  "lawful_codec cc lim ce \<Longrightarrow> lawful_codec c valid enc \<Longrightarrow> reader_ok (counted_unmarshal cc ins new c)"
  unfolding counted_unmarshal_def
  by (intro reader_safe) (auto dest: lawful_codec.unmarshal_safe)

lemma lawful_counted:
  assumes "lawful_codec cc lim ce" and "lawful_codec c valid enc"
    and "\<And>m. ok m \<Longrightarrow> fold ins (iter m) new = m"
  shows "lawful_codec (counted_codec cc ins new iter c)
    (\<lambda>m. ok m \<and> lim (length (iter m)) \<and> list_all valid (iter m)) (counted_enc ce iter enc)"
proof unfold_locales
  fix m rb bs
  assume m: "ok m \<and> lim (length (iter m)) \<and> list_all valid (iter m)"
    and rb: "remaining rb = counted_enc ce iter enc (rendian rb) m @ bs"
  then have "counted_unmarshal cc ins new c rb =
      (Ok (fold ins (iter m) new), advance (length (counted_enc ce iter enc (rendian rb) m)) rb)"
    by (intro counted_unmarshal_enc [OF assms(1,2)]) simp_all
  with m assms(3) show "c_unmarshal (counted_codec cc ins new iter c) rb =
      (Ok m, advance (length (counted_enc ce iter enc (rendian rb) m)) rb)"
    by (simp add: counted_codec_def)
qed (simp_all add: counted_codec_def counted_marshal_enc [OF assms(1,2)]
      reader_ok_counted [OF assms(1,2)])

section \<open>Sequences\<close>

definition push :: "'a \<Rightarrow> 'a list \<Rightarrow> 'a list" where
  "push x xs = xs @ [x]"

lemma fold_push [simp]: "fold push xs ys = ys @ xs"
  by (induction xs arbitrary: ys) (simp_all add: push_def)

definition vec_codec :: "'a codec \<Rightarrow> 'a list codec" where
  "vec_codec c = counted_codec (wire_count wire_vec_cap) push [] (\<lambda>xs. xs) c"

definition array_vec_codec :: "nat \<Rightarrow> 'a codec \<Rightarrow> 'a list codec" where
  "array_vec_codec N c = counted_codec (wire_count N) push [] (\<lambda>xs. xs) c"

definition container_vec :: "'a codec \<Rightarrow> 'a list codec" where
  "container_vec c = counted_codec (checked_len (\<lambda>_. True) 0) push [] (\<lambda>xs. xs) c"

definition container_array_vec :: "nat \<Rightarrow> 'a codec \<Rightarrow> 'a list codec" where
  "container_array_vec N c = counted_codec (checked_len (\<lambda>n. n \<le> N) N) push [] (\<lambda>xs. xs) c"

definition container_array :: "nat \<Rightarrow> 'a codec \<Rightarrow> 'a list codec" where
  "container_array N c = counted_codec (checked_len (\<lambda>n. n = N) N) push [] (\<lambda>xs. xs) c"

text \<open>\<open>[T; N]\<close>: no count. The conversion error after the loop cannot be reached.\<close>

definition array_codec :: "nat \<Rightarrow> 'a codec \<Rightarrow> 'a list codec" where
  "array_codec N c = \<lparr>c_size = (if c_size c = 0 then 0 else N * c_size c),
     c_marshal = marshal_items c, c_unmarshal = read_into push (c_unmarshal c) N []\<rparr>"

lemma lawful_sequences [lawful]:
  assumes "lawful_codec c valid enc"
  shows "lawful_codec (vec_codec c)
      (\<lambda>xs. (length xs \<le> wire_vec_cap \<and> length xs < 2 ^ 32) \<and> list_all valid xs)
      (counted_enc (\<lambda>_ n. vlq32_bytes (of_nat n)) (\<lambda>xs. xs) enc)"
    and "lawful_codec (array_vec_codec N c)
      (\<lambda>xs. (length xs \<le> N \<and> length xs < 2 ^ 32) \<and> list_all valid xs)
      (counted_enc (\<lambda>_ n. vlq32_bytes (of_nat n)) (\<lambda>xs. xs) enc)"
    and "lawful_codec (container_vec c)
      (\<lambda>xs. length xs < 2 ^ 16 \<and> list_all valid xs)
      (counted_enc (\<lambda>e n. bytes16 e (of_nat n)) (\<lambda>xs. xs) enc)"
    and "lawful_codec (container_array_vec N c)
      (\<lambda>xs. (length xs \<le> N \<and> length xs < 2 ^ 16) \<and> list_all valid xs)
      (counted_enc (\<lambda>e n. bytes16 e (of_nat n)) (\<lambda>xs. xs) enc)"
    and "lawful_codec (container_array N c)
      (\<lambda>xs. (length xs = N \<and> length xs < 2 ^ 16) \<and> list_all valid xs)
      (counted_enc (\<lambda>e n. bytes16 e (of_nat n)) (\<lambda>xs. xs) enc)"
  using lawful_counted [OF lawful_wire_count [of wire_vec_cap] assms, of "\<lambda>_. True" push "\<lambda>xs. xs" "[]"]
    lawful_counted [OF lawful_wire_count [of N] assms, of "\<lambda>_. True" push "\<lambda>xs. xs" "[]"]
    lawful_counted [OF lawful_checked_len [of "\<lambda>_. True" 0] assms, of "\<lambda>_. True" push "\<lambda>xs. xs" "[]"]
    lawful_counted [OF lawful_checked_len [of "\<lambda>n. n \<le> N" N] assms, of "\<lambda>_. True" push "\<lambda>xs. xs" "[]"]
    lawful_counted [OF lawful_checked_len [of "\<lambda>n. n = N" N] assms, of "\<lambda>_. True" push "\<lambda>xs. xs" "[]"]
  by (simp_all add: vec_codec_def array_vec_codec_def container_vec_def container_array_vec_def
      container_array_def)

lemma length_concat_fixed:
  "(\<And>x. x \<in> set xs \<Longrightarrow> length (f x) = n) \<Longrightarrow> length (concat (map f xs)) = length xs * n"
  by (induction xs) simp_all

lemma lawful_array [lawful]:
  assumes "lawful_codec c valid enc"
  shows "lawful_codec (array_codec N c) (\<lambda>xs. length xs = N \<and> list_all valid xs)
    (\<lambda>e xs. concat (map (enc e) xs))"
proof unfold_locales
  fix xs rb bs
  assume "length xs = N \<and> list_all valid xs" "remaining rb = concat (map (enc (rendian rb)) xs) @ bs"
  then show "c_unmarshal (array_codec N c) rb =
      (Ok xs, advance (length (concat (map (enc (rendian rb)) xs))) rb)"
    using read_into_enc [OF assms, of xs rb bs push "[]"] by (auto simp: array_codec_def)
next
  show "reader_ok (c_unmarshal (array_codec N c))"
    using lawful_codec.unmarshal_safe [OF assms] by (simp add: array_codec_def reader_safe)
next
  fix xs e assume "length xs = N \<and> list_all valid xs" "c_size (array_codec N c) \<noteq> 0"
  then show "length (concat (map (enc e) xs)) = c_size (array_codec N c)"
    using lawful_codec.size_fixed [OF assms, of _ e]
    by (subst length_concat_fixed) (auto simp: array_codec_def list_all_iff split: if_splits)
qed (auto simp: array_codec_def marshal_items_enc [OF assms])

section \<open>Sets and maps\<close>

text \<open>\<open>IndexSet::insert\<close> keeps the position of a member; \<open>IndexMap::insert\<close> is \<open>AList.update\<close>.\<close>

definition set_insert :: "'a \<Rightarrow> 'a list \<Rightarrow> 'a list" where
  "set_insert x xs = (if x \<in> set xs then xs else xs @ [x])"

definition map_insert :: "'k \<times> 'v \<Rightarrow> ('k \<times> 'v) list \<Rightarrow> ('k \<times> 'v) list" where
  "map_insert kv m = AList.update (fst kv) (snd kv) m"

fun btree_set_insert :: "'a::linorder \<Rightarrow> 'a list \<Rightarrow> 'a list" where
  "btree_set_insert x [] = [x]"
| "btree_set_insert x (y # ys) =
     (if x < y then x # y # ys else if x = y then y # ys else y # btree_set_insert x ys)"

fun btree_map_insert :: "'k::linorder \<times> 'v \<Rightarrow> ('k \<times> 'v) list \<Rightarrow> ('k \<times> 'v) list" where
  "btree_map_insert kv [] = [kv]"
| "btree_map_insert kv (p # ps) =
     (if fst kv < fst p then kv # p # ps
      else if fst kv = fst p then (fst p, snd kv) # ps else p # btree_map_insert kv ps)"

lemma fold_set_insert: "distinct (ys @ xs) \<Longrightarrow> fold set_insert xs ys = ys @ xs"
  by (induction xs arbitrary: ys) (simp_all add: set_insert_def)

lemma map_insert_new: "k \<notin> fst ` set m \<Longrightarrow> map_insert (k, v) m = m @ [(k, v)]"
  by (induction m) (auto simp: map_insert_def)

lemma fold_map_insert: "distinct (map fst (ys @ xs)) \<Longrightarrow> fold map_insert xs ys = ys @ xs"
  by (induction xs arbitrary: ys) (auto simp: map_insert_new)

lemma btree_set_insert_last: "(\<forall>y\<in>set ys. y < x) \<Longrightarrow> btree_set_insert x ys = ys @ [x]"
  by (induction ys) auto

lemma fold_btree_set_insert: "sorted_wrt (<) (ys @ xs) \<Longrightarrow> fold btree_set_insert xs ys = ys @ xs"
  by (induction xs arbitrary: ys) (auto simp: btree_set_insert_last sorted_wrt_append)

lemma btree_map_insert_last:
  "(\<forall>p\<in>set ps. fst p < fst kv) \<Longrightarrow> btree_map_insert kv ps = ps @ [kv]"
  by (induction ps) auto

lemma fold_btree_map_insert:
  "sorted_wrt (<) (map fst (ys @ xs)) \<Longrightarrow> fold btree_map_insert xs ys = ys @ xs"
  by (induction xs arbitrary: ys) (auto simp: btree_map_insert_last sorted_wrt_append)

definition index_set_codec :: "'a codec \<Rightarrow> 'a list codec" where
  "index_set_codec c = counted_codec (wire_count wire_vec_cap) set_insert [] (\<lambda>xs. xs) c"

definition btree_set_codec :: "'a::linorder codec \<Rightarrow> 'a list codec" where
  "btree_set_codec c = counted_codec (wire_count wire_vec_cap) btree_set_insert [] (\<lambda>xs. xs) c"

definition hash_set_codec :: "('a list \<Rightarrow> 'a list) \<Rightarrow> 'a codec \<Rightarrow> 'a list codec" where
  "hash_set_codec iter c = counted_codec (wire_count wire_vec_cap) set_insert [] iter c"

definition index_map_codec :: "'k codec \<Rightarrow> 'v codec \<Rightarrow> ('k \<times> 'v) list codec" where
  "index_map_codec km vm =
     counted_codec (wire_count wire_vec_cap) map_insert [] (\<lambda>m. m) (tuple_codec km vm)"

definition btree_map_codec :: "'k::linorder codec \<Rightarrow> 'v codec \<Rightarrow> ('k \<times> 'v) list codec" where
  "btree_map_codec km vm =
     counted_codec (wire_count wire_vec_cap) btree_map_insert [] (\<lambda>m. m) (tuple_codec km vm)"

definition hash_map_codec ::
    "(('k \<times> 'v) list \<Rightarrow> ('k \<times> 'v) list) \<Rightarrow> 'k codec \<Rightarrow> 'v codec \<Rightarrow> ('k \<times> 'v) list codec" where
  "hash_map_codec iter km vm =
     counted_codec (wire_count wire_vec_cap) map_insert [] iter (tuple_codec km vm)"

text \<open>The same collections behind a raw \<open>u16\<close> count.\<close>

definition container_index_set :: "'a codec \<Rightarrow> 'a list codec" where
  "container_index_set c = counted_codec (checked_len (\<lambda>_. True) 0) set_insert [] (\<lambda>xs. xs) c"

definition container_btree_set :: "'a::linorder codec \<Rightarrow> 'a list codec" where
  "container_btree_set c = counted_codec (checked_len (\<lambda>_. True) 0) btree_set_insert [] (\<lambda>xs. xs) c"

definition container_hash_set :: "('a list \<Rightarrow> 'a list) \<Rightarrow> 'a codec \<Rightarrow> 'a list codec" where
  "container_hash_set iter c = counted_codec (checked_len (\<lambda>_. True) 0) set_insert [] iter c"

definition map_container_index :: "'k codec \<Rightarrow> 'v codec \<Rightarrow> ('k \<times> 'v) list codec" where
  "map_container_index km vm =
     counted_codec (checked_len (\<lambda>_. True) 0) map_insert [] (\<lambda>m. m) (tuple_codec km vm)"

definition map_container_btree :: "'k::linorder codec \<Rightarrow> 'v codec \<Rightarrow> ('k \<times> 'v) list codec" where
  "map_container_btree km vm =
     counted_codec (checked_len (\<lambda>_. True) 0) btree_map_insert [] (\<lambda>m. m) (tuple_codec km vm)"

definition map_container_hash ::
    "(('k \<times> 'v) list \<Rightarrow> ('k \<times> 'v) list) \<Rightarrow> 'k codec \<Rightarrow> 'v codec \<Rightarrow> ('k \<times> 'v) list codec" where
  "map_container_hash iter km vm =
     counted_codec (checked_len (\<lambda>_. True) 0) map_insert [] iter (tuple_codec km vm)"

lemma lawful_sets [lawful]:
  assumes "lawful_codec c valid enc"
  shows "lawful_codec (index_set_codec c)
      (\<lambda>xs. distinct xs \<and> (length xs \<le> wire_vec_cap \<and> length xs < 2 ^ 32) \<and> list_all valid xs)
      (counted_enc (\<lambda>_ n. vlq32_bytes (of_nat n)) (\<lambda>xs. xs) enc)"
    and "lawful_codec (container_index_set c)
      (\<lambda>xs. distinct xs \<and> length xs < 2 ^ 16 \<and> list_all valid xs)
      (counted_enc (\<lambda>e n. bytes16 e (of_nat n)) (\<lambda>xs. xs) enc)"
  using lawful_counted [OF lawful_wire_count [of wire_vec_cap] assms, of distinct set_insert "\<lambda>xs. xs" "[]"]
    lawful_counted [OF lawful_checked_len [of "\<lambda>_. True" 0] assms, of distinct set_insert "\<lambda>xs. xs" "[]"]
  by (simp_all add: index_set_codec_def container_index_set_def fold_set_insert)

lemma lawful_btree_sets [lawful]:
  assumes "lawful_codec c valid enc"
  shows "lawful_codec (btree_set_codec c)
      (\<lambda>xs. sorted_wrt (<) xs \<and> (length xs \<le> wire_vec_cap \<and> length xs < 2 ^ 32) \<and> list_all valid xs)
      (counted_enc (\<lambda>_ n. vlq32_bytes (of_nat n)) (\<lambda>xs. xs) enc)"
    and "lawful_codec (container_btree_set c)
      (\<lambda>xs. sorted_wrt (<) xs \<and> length xs < 2 ^ 16 \<and> list_all valid xs)
      (counted_enc (\<lambda>e n. bytes16 e (of_nat n)) (\<lambda>xs. xs) enc)"
  using lawful_counted [OF lawful_wire_count [of wire_vec_cap] assms,
      of "sorted_wrt (<)" btree_set_insert "\<lambda>xs. xs" "[]"]
    lawful_counted [OF lawful_checked_len [of "\<lambda>_. True" 0] assms,
      of "sorted_wrt (<)" btree_set_insert "\<lambda>xs. xs" "[]"]
  by (simp_all add: btree_set_codec_def container_btree_set_def fold_btree_set_insert)

abbreviation entry_ok :: "('k \<Rightarrow> bool) \<Rightarrow> ('v \<Rightarrow> bool) \<Rightarrow> 'k \<times> 'v \<Rightarrow> bool" where
  "entry_ok vk vv \<equiv> \<lambda>p. vk (fst p) \<and> vv (snd p)"

lemma lawful_maps [lawful]:
  assumes "lawful_codec km vk ek" and "lawful_codec vm vv ev"
  shows "lawful_codec (index_map_codec km vm)
      (\<lambda>m. distinct (map fst m) \<and> (length m \<le> wire_vec_cap \<and> length m < 2 ^ 32)
         \<and> list_all (entry_ok vk vv) m)
      (counted_enc (\<lambda>_ n. vlq32_bytes (of_nat n)) (\<lambda>m. m) (pair_enc ek ev))"
    and "lawful_codec (map_container_index km vm)
      (\<lambda>m. distinct (map fst m) \<and> length m < 2 ^ 16 \<and> list_all (entry_ok vk vv) m)
      (counted_enc (\<lambda>e n. bytes16 e (of_nat n)) (\<lambda>m. m) (pair_enc ek ev))"
  using lawful_counted [OF lawful_wire_count [of wire_vec_cap] lawful_tuple [OF assms],
      of "\<lambda>m. distinct (map fst m)" map_insert "\<lambda>m. m" "[]"]
    lawful_counted [OF lawful_checked_len [of "\<lambda>_. True" 0] lawful_tuple [OF assms],
      of "\<lambda>m. distinct (map fst m)" map_insert "\<lambda>m. m" "[]"]
  by (simp_all add: index_map_codec_def map_container_index_def fold_map_insert)

lemma lawful_btree_maps [lawful]:
  assumes "lawful_codec km vk ek" and "lawful_codec vm vv ev"
  shows "lawful_codec (btree_map_codec km vm)
      (\<lambda>m. sorted_wrt (<) (map fst m) \<and> (length m \<le> wire_vec_cap \<and> length m < 2 ^ 32)
         \<and> list_all (entry_ok vk vv) m)
      (counted_enc (\<lambda>_ n. vlq32_bytes (of_nat n)) (\<lambda>m. m) (pair_enc ek ev))"
    and "lawful_codec (map_container_btree km vm)
      (\<lambda>m. sorted_wrt (<) (map fst m) \<and> length m < 2 ^ 16 \<and> list_all (entry_ok vk vv) m)
      (counted_enc (\<lambda>e n. bytes16 e (of_nat n)) (\<lambda>m. m) (pair_enc ek ev))"
  using lawful_counted [OF lawful_wire_count [of wire_vec_cap] lawful_tuple [OF assms],
      of "\<lambda>m. sorted_wrt (<) (map fst m)" btree_map_insert "\<lambda>m. m" "[]"]
    lawful_counted [OF lawful_checked_len [of "\<lambda>_. True" 0] lawful_tuple [OF assms],
      of "\<lambda>m. sorted_wrt (<) (map fst m)" btree_map_insert "\<lambda>m. m" "[]"]
  by (simp_all add: btree_map_codec_def map_container_btree_def fold_btree_map_insert)

text \<open>
  A hash map is written in an order that is not specified, and read back into a map with the same
  associations.
\<close>

lemma fold_map_insert_perm:
  assumes "distinct (map fst m)" and "mset xs = mset m"
  shows "map_of (fold map_insert xs []) = map_of m" and "length (fold map_insert xs []) = length m"
proof -
  have "mset (map fst xs) = mset (map fst m)" using assms(2) by simp
  with assms(1) have d: "distinct (map fst xs)" by (metis mset_eq_imp_distinct_iff)
  then have f: "fold map_insert xs [] = xs" by (simp add: fold_map_insert)
  have "set xs = set m" using assms(2) by (metis set_mset_mset)
  with assms(1) d f show "map_of (fold map_insert xs []) = map_of m"
    by (metis map_of_inject_set)
  show "length (fold map_insert xs []) = length m"
    using f assms(2) by (metis size_mset)
qed

text \<open>
  A hash map is read back with the same associations whatever the iteration order of the
  writer: for lawful key and value codecs and an iteration order that permutes the entries, the
  reader returns a map with the same lookups and the same size and leaves the bytes after it.
\<close>

lemma hash_map_roundtrip:
  assumes "lawful_codec km vk ek" and "lawful_codec vm vv ev"
    and "mset (iter m) = mset m" and "distinct (map fst m)"
    and "length m \<le> wire_vec_cap" and "list_all (entry_ok vk vv) m"
  shows "case c_marshal (hash_map_codec iter km vm) m (write_new e) of
      None \<Rightarrow> False
    | Some wb \<Rightarrow> (case c_unmarshal (hash_map_codec iter km vm) (read_new e (wdata wb @ rest)) of
        (Inl err, rb) \<Rightarrow> False
      | (Inr m', rb) \<Rightarrow> map_of m' = map_of m \<and> length m' = length m \<and> remaining rb = rest)"
proof -
  let ?cc = "wire_count wire_vec_cap" and ?ce = "\<lambda>_ n. vlq32_bytes (of_nat n)"
  let ?enc = "counted_enc ?ce iter (pair_enc ek ev)"
  have len: "length (iter m) = length m" using assms(3) by (metis size_mset)
  then have lim: "length (iter m) \<le> wire_vec_cap \<and> length (iter m) < 2 ^ 32"
    using assms(5) by (simp add: wire_vec_cap_def)
  have "set (iter m) = set m" using assms(3) by (metis set_mset_mset)
  with assms(6) have v: "list_all (entry_ok vk vv) (iter m)" by (simp add: list_all_iff)
  note t = lawful_tuple [OF assms(1,2)]
  have w: "c_marshal (hash_map_codec iter km vm) m (write_new e) =
      Some (write_bytes (?enc e m) (write_new e))"
    using counted_marshal_enc [OF lawful_wire_count t, where iter = iter and m = m, OF lim v, of "write_new e"]
    by (simp add: hash_map_codec_def counted_codec_def write_new_def)
  have "c_unmarshal (hash_map_codec iter km vm) (read_new e (?enc e m @ rest)) =
      (Ok (fold map_insert (iter m) []), advance (length (?enc e m)) (read_new e (?enc e m @ rest)))"
    using counted_unmarshal_enc [OF lawful_wire_count t, where iter = iter and m = m, OF lim v,
        of "read_new e (?enc e m @ rest)" rest]
    by (simp add: hash_map_codec_def counted_codec_def)
  with w fold_map_insert_perm [OF assms(4,3)] show ?thesis
    by (simp add: write_bytes_def write_new_def)
qed

section \<open>Strings\<close>

text \<open>\<open>std::str::from_utf8\<close>: the well-formed byte sequences of UTF-8.\<close>

definition utf8_cont :: "u8 \<Rightarrow> bool" where
  "utf8_cont b \<longleftrightarrow> 0x80 \<le> b \<and> b \<le> 0xbf"

function utf8_valid :: "bytes \<Rightarrow> bool" where
  "utf8_valid [] = True"
| "utf8_valid (a # bs) =
     (if a < 0x80 then utf8_valid bs
      else if 0xc2 \<le> a \<and> a \<le> 0xdf then
        (case bs of b # r \<Rightarrow> utf8_cont b \<and> utf8_valid r | _ \<Rightarrow> False)
      else if 0xe0 \<le> a \<and> a \<le> 0xef then
        (case bs of b # c # r \<Rightarrow>
             (if a = 0xe0 then 0xa0 \<le> b \<and> b \<le> 0xbf
              else if a = 0xed then 0x80 \<le> b \<and> b \<le> 0x9f else utf8_cont b)
             \<and> utf8_cont c \<and> utf8_valid r
         | _ \<Rightarrow> False)
      else if 0xf0 \<le> a \<and> a \<le> 0xf4 then
        (case bs of b # c # d # r \<Rightarrow>
             (if a = 0xf0 then 0x90 \<le> b \<and> b \<le> 0xbf
              else if a = 0xf4 then 0x80 \<le> b \<and> b \<le> 0x8f else utf8_cont b)
             \<and> utf8_cont c \<and> utf8_cont d \<and> utf8_valid r
         | _ \<Rightarrow> False)
      else False)"
  by pat_completeness auto
termination
  by (relation "measure length") auto

definition read_utf8 :: "nat \<Rightarrow> bytes reader" where
  "read_utf8 len = rbind (read_bytes len) (\<lambda>bs. if utf8_valid bs then rreturn bs else rfail Utf8)"

definition string_marshal :: "nat codec \<Rightarrow> bytes \<Rightarrow> write_buffer \<Rightarrow> write_buffer option" where
  "string_marshal cc s wb =
     (case c_marshal cc (length s) wb of None \<Rightarrow> None | Some wb' \<Rightarrow> Some (write_bytes s wb'))"

definition string_codec :: "bytes codec" where
  "string_codec = \<lparr>c_size = 0, c_marshal = string_marshal (wire_count wire_vec_cap),
     c_unmarshal = rbind (unmarshal_wire_count wire_vec_cap) read_utf8\<rparr>"

definition container_string :: "bytes codec" where
  "container_string = \<lparr>c_size = 0, c_marshal = string_marshal (checked_len (\<lambda>_. True) 0),
     c_unmarshal = rbind unmarshal_len read_utf8\<rparr>"

text \<open>\<open>ArrayString<N>\<close>: the capacity is checked first, so pushing the string cannot overflow.\<close>

definition array_string_codec :: "nat \<Rightarrow> bytes codec" where
  "array_string_codec N = \<lparr>c_size = 0, c_marshal = string_marshal (wire_count wire_vec_cap),
     c_unmarshal = rbind vlq32_unmarshal (\<lambda>v. let len = unat v in
       if len > N then rfail (StringOverflow len N) else read_utf8 len)\<rparr>"

definition container_array_string :: "nat \<Rightarrow> bytes codec" where
  "container_array_string N = \<lparr>c_size = 0, c_marshal = string_marshal (checked_len (\<lambda>_. True) 0),
     c_unmarshal = rbind unmarshal_len (\<lambda>len.
       if len > N then rfail (StringOverflow len N) else read_utf8 len)\<rparr>"

lemma read_bytes_at:
  "rpos rb \<le> length (rdata rb) \<Longrightarrow> remaining rb = xs @ ys \<Longrightarrow>
     read_bytes (length xs) rb = (Ok xs, advance (length xs) rb)"
  using remaining_ConsD [of rb xs ys]
  by (auto simp: read_bytes_def advance_def simp flip: remaining_def)

lemma read_utf8_at:
  "rpos rb \<le> length (rdata rb) \<Longrightarrow> remaining rb = s @ ys \<Longrightarrow> utf8_valid s \<Longrightarrow>
     read_utf8 (length s) rb = (Ok s, advance (length s) rb)"
  by (simp add: read_utf8_def read_bytes_at)

lemma rpos_after: "remaining rb = xs @ ys \<Longrightarrow> xs \<noteq> [] \<Longrightarrow> rpos (advance (length xs) rb) \<le> length (rdata rb)"
  using remaining_ConsD [of rb xs ys] by auto

lemma reader_ok_utf8 [reader_safe]: "reader_ok (read_utf8 n)"
  unfolding read_utf8_def by (intro reader_safe)

lemma reader_ok_unmarshal_wire_count [reader_safe]: "reader_ok (unmarshal_wire_count n)"
  using lawful_codec.unmarshal_safe [OF lawful_wire_count [of n]] by (simp add: wire_count_def)

lemma vlq32_bytes_not_Nil [simp]: "vlq32_bytes v \<noteq> []"
  using length_vlq32_bytes [of v] by auto

lemma lawful_string [lawful]:
  "lawful_codec string_codec (\<lambda>s. utf8_valid s \<and> length s \<le> wire_vec_cap)
     (\<lambda>_ s. vlq32_bytes (of_nat (length s)) @ s)"
proof unfold_locales
  fix s wb assume "utf8_valid s \<and> length s \<le> wire_vec_cap"
  then show "c_marshal string_codec s wb =
      Some (write_bytes (vlq32_bytes (of_nat (length s)) @ s) wb)"
    by (simp add: string_codec_def string_marshal_def wire_vec_cap_def write_bytes_def
        lawfulD(1) [OF lawful_wire_count])
next
  fix s rb bs
  assume s: "utf8_valid s \<and> length s \<le> wire_vec_cap"
    and rb: "remaining rb = (vlq32_bytes (of_nat (length s)) @ s) @ bs"
  let ?n = "length (vlq32_bytes (of_nat (length s)))"
  have "unmarshal_wire_count wire_vec_cap rb = (Ok (length s), advance ?n rb)"
    using s rb lawfulD(2) [OF lawful_wire_count, of "length s" wire_vec_cap rb "s @ bs"]
    by (simp add: wire_count_def wire_vec_cap_def)
  moreover have "read_utf8 (length s) (advance ?n rb) = (Ok s, advance (length s) (advance ?n rb))"
    using s rb rpos_after [of rb "vlq32_bytes (of_nat (length s))" "s @ bs"]
    by (intro read_utf8_at) simp_all
  ultimately show "c_unmarshal string_codec rb =
      (Ok s, advance (length (vlq32_bytes (of_nat (length s)) @ s)) rb)"
    by (simp add: string_codec_def)
next
  show "reader_ok (c_unmarshal string_codec)"
    by (simp add: string_codec_def reader_safe)
qed (simp add: string_codec_def)

end
