(* ===== verification/Masks.thy ===== *)
theory Masks
  imports Buffer
begin

text \<open>
  The three bit-pack helpers of \<^verbatim>\<open>src/serialize\<close>: the self-delimiting field mask of
  \<^verbatim>\<open>mask_chain.rs\<close> (seven fields per byte and a continuation bit), the fixed-width mask of
  \<^verbatim>\<open>flat_bitmask.rs\<close>, and the batches of \<^verbatim>\<open>live_mask.rs\<close> (a mask byte in front of up to eight
  entries).

  The closures of \<open>read_live_mask_batches\<close> and \<open>write_live_mask_batches\<close> are \<open>FnMut\<close>: the state
  they capture is passed along explicitly. An entry writer can panic (a count that does not fit
  its prefix), which is \<open>None\<close>.
\<close>

section \<open>Packing flags into a byte\<close>

text \<open>The inner loop that all three share: \<open>byte |= 1 << bit\<close> for every set flag.\<close>

definition pack_flags :: "bool list \<Rightarrow> u8" where
  "pack_flags flags =
     fold (\<lambda>(i, flag) b. if flag then b OR push_bit i 1 else b) (enumerate 0 flags) 0"

definition flag_set :: "u8 \<Rightarrow> nat \<Rightarrow> bool" where
  "flag_set b i \<longleftrightarrow> b AND push_bit i 1 \<noteq> 0"

lemma flag_set_bit: "flag_set b i \<longleftrightarrow> bit b i"
  by (auto simp: flag_set_def and_exp_eq_0_iff_not_bit push_bit_of_1 dest: bit_imp_le_length)

lemma fold_pack_bit:
  "bit (fold (\<lambda>(i, flag) b. if flag then b OR push_bit i 1 else b) (enumerate n flags) b) j
     \<longleftrightarrow> bit b j \<or> (j < 8 \<and> n \<le> j \<and> j - n < length flags \<and> flags ! (j - n))" for b :: u8
proof (induction flags arbitrary: n b)
  case (Cons f fs)
  have "bit (push_bit n (1 :: u8)) j \<longleftrightarrow> j = n \<and> j < 8"
    by (auto simp: bit_simps)
  with Cons show ?case
    by (cases "j = n") (auto simp: bit_simps nth_Cons' Suc_le_eq)
qed simp

lemma pack_flags_bit: "bit (pack_flags flags) j \<longleftrightarrow> j < 8 \<and> j < length flags \<and> flags ! j"
  by (simp add: pack_flags_def fold_pack_bit)

text \<open>The chunk of a flag slice that goes into byte \<open>k\<close> of a mask with \<open>n\<close> flags per byte.\<close>

definition flag_chunk :: "nat \<Rightarrow> bool list \<Rightarrow> nat \<Rightarrow> bool list" where
  "flag_chunk n flags k =
     (let s = k * n; e = min (s + n) (length flags) in take (e - s) (drop s flags))"

definition div_ceil :: "nat \<Rightarrow> nat \<Rightarrow> nat" where
  "div_ceil a b = (a + b - 1) div b"

lemma less_div_ceil: "0 < b \<Longrightarrow> k < div_ceil a b \<longleftrightarrow> k * b < a"
  unfolding div_ceil_def Suc_le_eq [symmetric] by (auto simp: less_eq_div_iff_mult_less_eq)

lemma flag_chunk_nth:
  assumes "0 < n"
  shows "i mod n < length (flag_chunk n flags (i div n)) \<longleftrightarrow> i < length flags"
    and "i < length flags \<Longrightarrow> flag_chunk n flags (i div n) ! (i mod n) = flags ! i"
proof -
  define q where "q = i div n * n"
  define r where "r = i mod n"
  have i: "i = q + r" "r < n" using assms by (simp_all add: q_def r_def)
  show 1: "i mod n < length (flag_chunk n flags (i div n)) \<longleftrightarrow> i < length flags"
    unfolding flag_chunk_def Let_def q_def [symmetric] r_def [symmetric]
    using i by (simp add: min_def) arith
  show "i < length flags \<Longrightarrow> flag_chunk n flags (i div n) ! (i mod n) = flags ! i"
    unfolding flag_chunk_def Let_def q_def [symmetric] r_def [symmetric]
    using i by simp
qed

lemma length_flag_chunk: "length (flag_chunk n flags k) \<le> n"
  by (simp add: flag_chunk_def Let_def)

section \<open>MaskChain\<close>

record mask_chain =
  mc_bytes :: bytes

definition mc_fields_per_byte :: nat where "mc_fields_per_byte = 7"
definition continuation_bit :: u8 where "continuation_bit = 0x80"

definition mask_chain_empty :: mask_chain where
  "mask_chain_empty = \<lparr>mc_bytes = [0]\<rparr>"

definition from_dirty_fields :: "bool list \<Rightarrow> mask_chain" where
  "from_dirty_fields dirty =
     (if dirty = [] then mask_chain_empty
      else let byte_count = div_ceil (length dirty) mc_fields_per_byte
        in \<lparr>mc_bytes = map (\<lambda>k. let b = pack_flags (flag_chunk mc_fields_per_byte dirty k)
                            in if k + 1 < byte_count then b OR continuation_bit else b)
                        [0..<byte_count]\<rparr>)"

definition mc_is_field_set :: "mask_chain \<Rightarrow> nat \<Rightarrow> bool" where
  "mc_is_field_set c i =
     (let byte_idx = i div mc_fields_per_byte; bit_idx = i mod mc_fields_per_byte
      in byte_idx < length (mc_bytes c) \<and> flag_set (mc_bytes c ! byte_idx) bit_idx)"

definition mask_chain_is_empty :: "mask_chain \<Rightarrow> bool" where
  "mask_chain_is_empty c = list_all (\<lambda>b. b AND NOT continuation_bit = 0) (mc_bytes c)"

definition mask_chain_marshal :: "mask_chain \<Rightarrow> write_buffer \<Rightarrow> write_buffer" where
  "mask_chain_marshal c = write_bytes (mc_bytes c)"

text \<open>
  The read loops: they end because every round consumes a byte, so the number of bytes left
  bounds the rounds.
\<close>

function mask_chain_skip :: "unit reader" where
  "mask_chain_skip rb =
     (case read_u8 rb of
        (Inl e, rb') \<Rightarrow> (Err e, rb')
      | (Inr m, rb') \<Rightarrow> if m AND continuation_bit = 0 then (Ok (), rb') else mask_chain_skip rb')"
  by pat_completeness auto
termination
  by (relation "measure left") (auto simp: read_u8_def left_def split: if_splits)

function read_chain :: "bytes \<Rightarrow> mask_chain reader" where
  "read_chain acc rb =
     (case read_u8 rb of
        (Inl e, rb') \<Rightarrow> (Err e, rb')
      | (Inr m, rb') \<Rightarrow>
          if m AND continuation_bit = 0 then (Ok \<lparr>mc_bytes = acc @ [m]\<rparr>, rb')
          else read_chain (acc @ [m]) rb')"
  by pat_completeness auto
termination
  by (relation "measure (\<lambda>(acc, rb). left rb)") (auto simp: read_u8_def left_def split: if_splits)

declare mask_chain_skip.simps [simp del] read_chain.simps [simp del]

definition mask_chain_unmarshal :: "mask_chain reader" where
  "mask_chain_unmarshal = read_chain []"

text \<open>What the type documents: bit 7 set on every byte but the last.\<close>

fun chain_ok :: "bytes \<Rightarrow> bool" where
  "chain_ok [] = False"
| "chain_ok [b] = (b AND continuation_bit = 0)"
| "chain_ok (b # bs) = (b AND continuation_bit \<noteq> 0 \<and> chain_ok bs)"

lemma chain_ok_Cons:
  "chain_ok (b # bs) \<longleftrightarrow>
     (if bs = [] then b AND continuation_bit = 0 else b AND continuation_bit \<noteq> 0 \<and> chain_ok bs)"
  by (cases bs) simp_all

lemma chain_ok_iff:
  "chain_ok bs \<longleftrightarrow> bs \<noteq> [] \<and>
     (\<forall>k<length bs. bs ! k AND continuation_bit \<noteq> 0 \<longleftrightarrow> k + 1 < length bs)"
proof (induction bs)
  case (Cons b bs)
  then show ?case
    by (cases "bs = []") (auto simp: chain_ok_Cons All_less_Suc2)
qed simp

lemma continuation_bit_iff: "b AND continuation_bit \<noteq> 0 \<longleftrightarrow> bit b 7"
  using flag_set_bit [of b 7] by (simp add: flag_set_def continuation_bit_def)

lemma from_dirty_fields_bytes:
  assumes "k < length (mc_bytes (from_dirty_fields dirty))"
  shows "bit (mc_bytes (from_dirty_fields dirty) ! k) j \<longleftrightarrow>
    (if j = 7 then k + 1 < length (mc_bytes (from_dirty_fields dirty))
     else j < 7 \<and> j < length (flag_chunk 7 dirty k) \<and> flag_chunk 7 dirty k ! j)"
proof -
  have c: "bit continuation_bit j \<longleftrightarrow> j = 7"
    using bit_push_bit_iff [of 7 "1 :: u8" j] by (auto simp: continuation_bit_def bit_simps)
  have "\<not> 7 < length (flag_chunk 7 dirty k)"
    using length_flag_chunk [of 7 dirty k] by simp
  with assms c show ?thesis
    by (auto simp: from_dirty_fields_def mask_chain_empty_def mc_fields_per_byte_def Let_def
        bit_simps pack_flags_bit flag_chunk_def split: if_splits)
qed

lemma from_dirty_fields_ok: "chain_ok (mc_bytes (from_dirty_fields dirty))"
proof -
  have "dirty \<noteq> [] \<Longrightarrow> 0 < div_ceil (length dirty) 7"
    by (simp add: less_div_ceil)
  then have "mc_bytes (from_dirty_fields dirty) \<noteq> []"
    by (auto simp: from_dirty_fields_def mask_chain_empty_def mc_fields_per_byte_def Let_def)
  then show ?thesis
    by (simp add: chain_ok_iff continuation_bit_iff from_dirty_fields_bytes)
qed

lemma length_from_dirty_fields:
  "length (mc_bytes (from_dirty_fields dirty)) = max 1 (div_ceil (length dirty) 7)"
  using less_div_ceil [of 7 0 "length dirty"]
  by (auto simp: from_dirty_fields_def mask_chain_empty_def mc_fields_per_byte_def Let_def
      div_ceil_def)

lemma mask_chain_field:
  "mc_is_field_set (from_dirty_fields dirty) i \<longleftrightarrow> i < length dirty \<and> dirty ! i"
proof (cases "i < length dirty")
  case True
  then have k: "i div 7 < length (mc_bytes (from_dirty_fields dirty))"
    by (auto simp: length_from_dirty_fields less_max_iff_disj less_div_ceil
        intro: le_less_trans [OF div_times_less_eq_dividend])
  moreover have "i mod 7 < length (flag_chunk 7 dirty (i div 7))"
    "flag_chunk 7 dirty (i div 7) ! (i mod 7) = dirty ! i"
    using flag_chunk_nth [of 7 i dirty] True by simp_all
  moreover obtain j where "i mod 7 = j" "j < 7" by simp
  ultimately show ?thesis
    using True unfolding mc_is_field_set_def mc_fields_per_byte_def Let_def flag_set_bit
    by (simp add: from_dirty_fields_bytes)
next
  case False
  then have "\<not> i mod 7 < length (flag_chunk 7 dirty (i div 7))"
    using flag_chunk_nth(1) [of 7 i dirty] by simp
  moreover obtain j where "i mod 7 = j" "j < 7" by simp
  ultimately show ?thesis
    using False unfolding mc_is_field_set_def mc_fields_per_byte_def Let_def flag_set_bit
    by (auto simp: from_dirty_fields_bytes)
qed

lemma read_chain_enc:
  "chain_ok bs \<Longrightarrow> remaining rb = bs @ rest \<Longrightarrow>
     read_chain acc rb = (Ok \<lparr>mc_bytes = acc @ bs\<rparr>, advance (length bs) rb)"
proof (induction bs arbitrary: acc rb)
  case (Cons b bs)
  then show ?case
    by (cases bs) (simp_all add: read_chain.simps [of acc rb])
qed simp

lemma read_chain_safe: "cursor_step rb (snd (read_chain acc rb))"
proof (induction acc rb rule: read_chain.induct)
  case (1 acc rb)
  have "cursor_step rb (snd (read_u8 rb))"
    using reader_ok_read_u8 by (simp add: reader_ok_def)
  with 1 show ?case
    by (subst read_chain.simps) (auto split: prod.split sum.split intro: cursor_step_trans)
qed

interpretation maskc: wire_codec "\<lambda>c. chain_ok (mc_bytes c)" "\<lambda>_. mc_bytes"
  mask_chain_marshal mask_chain_unmarshal
  by unfold_locales
    (auto simp: mask_chain_marshal_def mask_chain_unmarshal_def read_chain_enc reader_ok_def
      read_chain_safe)

lemma skip_read_chain:
  "mask_chain_skip rb = (map_sum id (\<lambda>_. ()) (fst (read_chain acc rb)), snd (read_chain acc rb))"
proof (induction acc rb rule: read_chain.induct)
  case (1 acc rb)
  then show ?case
    by (subst mask_chain_skip.simps, subst (1 2) read_chain.simps)
      (auto simp: id_def split: prod.split sum.split)
qed

section \<open>FlatBitmask\<close>

record flat_bitmask =
  fb_bytes :: bytes

definition fb_fields_per_byte :: nat where "fb_fields_per_byte = 8"

definition from_dirty :: "bool list \<Rightarrow> flat_bitmask" where
  "from_dirty dirty =
     (if dirty = [] then \<lparr>fb_bytes = [0]\<rparr>
      else \<lparr>fb_bytes = map (\<lambda>k. pack_flags (flag_chunk fb_fields_per_byte dirty k))
                         [0..<div_ceil (length dirty) fb_fields_per_byte]\<rparr>)"

definition fb_is_field_set :: "bytes \<Rightarrow> nat \<Rightarrow> bool" where
  "fb_is_field_set masks i =
     (let byte_idx = i div fb_fields_per_byte; bit_idx = i mod fb_fields_per_byte
      in byte_idx < length masks \<and> flag_set (masks ! byte_idx) bit_idx)"

definition flat_bitmask_marshal :: "flat_bitmask \<Rightarrow> write_buffer \<Rightarrow> write_buffer" where
  "flat_bitmask_marshal m = write_bytes (fb_bytes m)"

lemma from_dirty_bytes:
  "k < length (fb_bytes (from_dirty dirty)) \<Longrightarrow> j < 8 \<Longrightarrow>
     bit (fb_bytes (from_dirty dirty) ! k) j \<longleftrightarrow>
       j < length (flag_chunk 8 dirty k) \<and> flag_chunk 8 dirty k ! j"
  by (auto simp: from_dirty_def fb_fields_per_byte_def pack_flags_bit flag_chunk_def
      split: if_splits)

lemma length_from_dirty: "length (fb_bytes (from_dirty dirty)) = max 1 (div_ceil (length dirty) 8)"
  using less_div_ceil [of 8 0 "length dirty"]
  by (auto simp: from_dirty_def fb_fields_per_byte_def div_ceil_def)

lemma flat_bitmask_field:
  "fb_is_field_set (fb_bytes (from_dirty dirty)) i \<longleftrightarrow> i < length dirty \<and> dirty ! i"
proof (cases "i < length dirty")
  case True
  then have k: "i div 8 < length (fb_bytes (from_dirty dirty))"
    by (auto simp: length_from_dirty less_max_iff_disj less_div_ceil
        intro: le_less_trans [OF div_times_less_eq_dividend])
  with True show ?thesis
    using flag_chunk_nth [of 8 i dirty]
    by (simp add: fb_is_field_set_def fb_fields_per_byte_def Let_def flag_set_bit from_dirty_bytes)
next
  case False
  then show ?thesis
    using flag_chunk_nth(1) [of 8 i dirty]
    by (auto simp: fb_is_field_set_def fb_fields_per_byte_def Let_def flag_set_bit from_dirty_bytes)
qed

section \<open>Live-mask batches\<close>

fun read_batch :: "('s \<Rightarrow> bool \<Rightarrow> ('t \<times> 's) reader) \<Rightarrow> u8 \<Rightarrow> nat list \<Rightarrow> 't list \<Rightarrow> 's \<Rightarrow>
    ('t list \<times> 's) reader" where
  "read_batch f mb [] out s = rreturn (out, s)"
| "read_batch f mb (i # is) out s =
     rbind (f s (flag_set mb i)) (\<lambda>(x, s'). read_batch f mb is (out @ [x]) s')"

function read_batches :: "('s \<Rightarrow> bool \<Rightarrow> ('t \<times> 's) reader) \<Rightarrow> nat \<Rightarrow> 't list \<Rightarrow> 's \<Rightarrow>
    ('t list \<times> 's) reader" where
  "read_batches f left_over out s =
     (if left_over = 0 then rreturn (out, s)
      else rbind read_u8 (\<lambda>mb. let batch = min left_over 8 in
             rbind (read_batch f mb [0..<batch] out s) (\<lambda>(out', s').
               read_batches f (left_over - batch) out' s')))"
  by pat_completeness auto
termination
  by (relation "measure (\<lambda>(f, n, out, s). n)") auto

declare read_batches.simps [simp del]

definition read_live_mask_batches ::
    "('s \<Rightarrow> bool \<Rightarrow> ('t \<times> 's) reader) \<Rightarrow> nat \<Rightarrow> 's \<Rightarrow> ('t list \<times> 's) reader" where
  "read_live_mask_batches f n s = read_batches f n [] s"

fun write_batch ::
    "('t \<Rightarrow> bool) \<Rightarrow> ('s \<Rightarrow> 't \<Rightarrow> bool \<Rightarrow> write_buffer \<Rightarrow> ('s \<times> write_buffer) option) \<Rightarrow> 't list \<Rightarrow>
     's \<Rightarrow> write_buffer \<Rightarrow> ('s \<times> write_buffer) option" where
  "write_batch is_live emit [] s wb = Some (s, wb)"
| "write_batch is_live emit (x # xs) s wb =
     (case emit s x (is_live x) wb of
        None \<Rightarrow> None
      | Some (s', wb') \<Rightarrow> write_batch is_live emit xs s' wb')"

function write_live_mask_batches ::
    "('t \<Rightarrow> bool) \<Rightarrow> ('s \<Rightarrow> 't \<Rightarrow> bool \<Rightarrow> write_buffer \<Rightarrow> ('s \<times> write_buffer) option) \<Rightarrow> 't list \<Rightarrow>
     's \<Rightarrow> write_buffer \<Rightarrow> ('s \<times> write_buffer) option" where
  "write_live_mask_batches is_live emit entries s wb =
     (if entries = [] then Some (s, wb)
      else let chunk = take 8 entries in
        case write_batch is_live emit chunk s (write_u8 (pack_flags (map is_live chunk)) wb) of
          None \<Rightarrow> None
        | Some (s', wb') \<Rightarrow> write_live_mask_batches is_live emit (drop 8 entries) s' wb')"
  by pat_completeness auto
termination
  by (relation "measure (\<lambda>(l, f, xs, s, wb). length xs)") auto

declare write_live_mask_batches.simps [simp del]

text \<open>
  The encoding of the batches, given the encoding of an entry in a writer state and the state
  after it.
\<close>

fun batch_enc :: "('s \<Rightarrow> 't \<Rightarrow> bytes) \<Rightarrow> ('s \<Rightarrow> 't \<Rightarrow> 's) \<Rightarrow> 's \<Rightarrow> 't list \<Rightarrow> bytes" where
  "batch_enc enc nxt s [] = []"
| "batch_enc enc nxt s (x # xs) = enc s x @ batch_enc enc nxt (nxt s x) xs"

function batches_enc ::
    "('t \<Rightarrow> bool) \<Rightarrow> ('s \<Rightarrow> 't \<Rightarrow> bytes) \<Rightarrow> ('s \<Rightarrow> 't \<Rightarrow> 's) \<Rightarrow> 's \<Rightarrow> 't list \<Rightarrow> bytes" where
  "batches_enc is_live enc nxt s xs =
     (if xs = [] then []
      else pack_flags (map is_live (take 8 xs)) # batch_enc enc nxt s (take 8 xs)
           @ batches_enc is_live enc nxt (foldl nxt s (take 8 xs)) (drop 8 xs))"
  by pat_completeness auto
termination
  by (relation "measure (\<lambda>(l, e, n, s, xs). length xs)") auto

declare batches_enc.simps [simp del]

text \<open>
  What a pair of closures has to promise for the batches to be read back: the writer appends an
  encoding that depends on its state and the entry, and the reader, in a state related to the
  writer's, inverts it when it gets the same live bit, and ends in a related state. \<open>image\<close> is
  what the reader makes of an entry.
\<close>

locale live_entries =
  fixes valid :: "'t \<Rightarrow> bool"
    and is_live :: "'t \<Rightarrow> bool"
    and emit :: "'s \<Rightarrow> 't \<Rightarrow> bool \<Rightarrow> write_buffer \<Rightarrow> ('s \<times> write_buffer) option"
    and enc :: "endian \<Rightarrow> 's \<Rightarrow> 't \<Rightarrow> bytes"
    and nxt :: "'s \<Rightarrow> 't \<Rightarrow> 's"
    and f :: "'r \<Rightarrow> bool \<Rightarrow> ('u \<times> 'r) reader"
    and rel :: "'s \<Rightarrow> 'r \<Rightarrow> bool"
    and image :: "'t \<Rightarrow> 'u"
  assumes emit_enc: "valid x \<Longrightarrow>
      emit s x (is_live x) wb = Some (nxt s x, write_bytes (enc (wendian wb) s x) wb)"
    and read_enc: "valid x \<Longrightarrow> rel s r \<Longrightarrow> remaining rb = enc (rendian rb) s x @ bs \<Longrightarrow>
      \<exists>r'. rel (nxt s x) r'
        \<and> f r (is_live x) rb = (Ok (image x, r'), advance (length (enc (rendian rb) s x)) rb)"
begin

lemma write_batch_enc:
  "list_all valid xs \<Longrightarrow> write_batch is_live emit xs s wb =
     Some (foldl nxt s xs, write_bytes (batch_enc (enc (wendian wb)) nxt s xs) wb)"
proof (induction xs arbitrary: s wb)
  case (Cons x xs)
  then show ?case by (simp add: emit_enc write_bytes_def)
qed (simp add: write_bytes_def)

lemma write_batches_enc:
  "list_all valid xs \<Longrightarrow> write_live_mask_batches is_live emit xs s wb =
     Some (foldl nxt s xs, write_bytes (batches_enc is_live (enc (wendian wb)) nxt s xs) wb)"
proof (induction xs arbitrary: s wb rule: length_induct)
  case (1 xs)
  show ?case
  proof (cases "xs = []")
    case False
    have v: "list_all valid (take 8 xs)" "list_all valid (drop 8 xs)"
      using "1.prems" by (auto simp: list_all_iff dest: in_set_takeD in_set_dropD)
    have "foldl nxt (foldl nxt s (take 8 xs)) (drop 8 xs) = foldl nxt s xs"
      by (metis append_take_drop_id foldl_append)
    moreover have "length (drop 8 xs) < length xs" using False by simp
    ultimately show ?thesis
      using False v "1.IH"
      by (subst write_live_mask_batches.simps, subst batches_enc.simps)
        (simp add: Let_def write_batch_enc write_u8_def write_bytes_def)
  qed (simp add: write_live_mask_batches.simps batches_enc.simps write_bytes_def)
qed

lemma read_batch_enc:
  assumes "list_all valid xs" and "rel s r"
    and "remaining rb = batch_enc (enc (rendian rb)) nxt s xs @ bs"
    and "length is = length xs" and "\<And>k. k < length xs \<Longrightarrow> flag_set mb (is ! k) = is_live (xs ! k)"
  shows "\<exists>r'. rel (foldl nxt s xs) r' \<and> read_batch f mb is out r rb =
    (Ok (out @ map image xs, r'), advance (length (batch_enc (enc (rendian rb)) nxt s xs)) rb)"
  using assms
proof (induction xs arbitrary: s r rb "is" out)
  case (Cons x xs)
  let ?n = "length (enc (rendian rb) s x)"
  obtain i is' where is_eq: "is = i # is'" using Cons.prems(4) by (cases "is") auto
  have fl: "flag_set mb i = is_live x" using Cons.prems(5) [of 0] is_eq by simp
  obtain r1 where r1: "rel (nxt s x) r1" "f r (is_live x) rb = (Ok (image x, r1), advance ?n rb)"
    using read_enc [of x s r rb] Cons.prems(1-3) by auto
  have "remaining (advance ?n rb) = batch_enc (enc (rendian (advance ?n rb))) nxt (nxt s x) xs @ bs"
    using Cons.prems(3) by simp
  moreover have "flag_set mb (is' ! k) = is_live (xs ! k)" if "k < length xs" for k
    using Cons.prems(5) [of "Suc k"] is_eq that by simp
  ultimately obtain r' where "rel (foldl nxt (nxt s x) xs) r'"
    "read_batch f mb is' (out @ [image x]) r1 (advance ?n rb) =
      (Ok ((out @ [image x]) @ map image xs, r'),
       advance (length (batch_enc (enc (rendian (advance ?n rb))) nxt (nxt s x) xs)) (advance ?n rb))"
    using Cons.IH [OF _ r1(1), of "advance ?n rb" is' "out @ [image x]"] Cons.prems(1,4) is_eq
    by auto
  with r1 fl is_eq show ?case by auto
qed simp

lemma read_batches_enc:
  assumes "list_all valid xs" and "rel s r"
    and "remaining rb = batches_enc is_live (enc (rendian rb)) nxt s xs @ bs"
  shows "\<exists>r'. rel (foldl nxt s xs) r' \<and> read_batches f (length xs) out r rb =
    (Ok (out @ map image xs, r'),
     advance (length (batches_enc is_live (enc (rendian rb)) nxt s xs)) rb)"
  using assms
proof (induction xs arbitrary: s r rb out rule: length_induct)
  case (1 xs)
  show ?case
  proof (cases "xs = []")
    case False
    let ?e = "enc (rendian rb)" and ?c = "take 8 xs" and ?s = "foldl nxt s (take 8 xs)"
    let ?m = "pack_flags (map is_live ?c)" and ?rb = "advance 1 rb"
    let ?n = "length (batch_enc ?e nxt s ?c)"
    have rem: "remaining rb = ?m # batch_enc ?e nxt s ?c @ batches_enc is_live ?e nxt ?s (drop 8 xs) @ bs"
      using "1.prems"(3) False by (subst (asm) batches_enc.simps) simp
    have v: "list_all valid ?c" "list_all valid (drop 8 xs)"
      using "1.prems"(1) by (auto simp: list_all_iff dest: in_set_takeD in_set_dropD)
    have "\<exists>r'. rel ?s r' \<and> read_batch f ?m [0..<length ?c] out r ?rb =
      (Ok (out @ map image ?c, r'), advance (length (batch_enc (enc (rendian ?rb)) nxt s ?c)) ?rb)"
      using v(1) "1.prems"(2) rem
      by (intro read_batch_enc) (auto simp: flag_set_bit pack_flags_bit)
    then obtain r1 where r1: "rel ?s r1" "read_batch f ?m [0..<length ?c] out r ?rb =
      (Ok (out @ map image ?c, r1), advance ?n ?rb)"
      by auto
    have len: "length ?c = min (length xs) 8" by simp
    have shorter: "length (drop 8 xs) < length xs" using False by simp
    have rem': "remaining (advance ?n ?rb) =
      batches_enc is_live (enc (rendian (advance ?n ?rb))) nxt ?s (drop 8 xs) @ bs"
      using rem by simp
    obtain r' where r': "rel (foldl nxt ?s (drop 8 xs)) r'"
      "read_batches f (length (drop 8 xs)) (out @ map image ?c) r1 (advance ?n ?rb) =
        (Ok ((out @ map image ?c) @ map image (drop 8 xs), r'),
         advance (length (batches_enc is_live ?e nxt ?s (drop 8 xs))) (advance ?n ?rb))"
      using "1.IH" [rule_format, OF shorter v(2) r1(1) rem', of "out @ map image ?c"]
      by (simp only: advance_simps) blast
    have "foldl nxt ?s (drop 8 xs) = foldl nxt s xs" "map image ?c @ map image (drop 8 xs) = map image xs"
      by (metis append_take_drop_id foldl_append) (metis append_take_drop_id map_append)
    moreover have "length xs - min (length xs) 8 = length (drop 8 xs)" by simp
    ultimately show ?thesis
      using False rem r1(2) r' len
      by (subst read_batches.simps, subst batches_enc.simps)
        (auto simp: Let_def simp del: length_take length_drop simp flip: map_append)
  qed (use "1.prems" in \<open>auto simp: read_batches.simps batches_enc.simps\<close>)
qed

lemma batches_roundtrip:
  assumes "list_all valid xs" and "rel s r"
    and "remaining rb = batches_enc is_live (enc (rendian rb)) nxt s xs @ bs"
  shows "\<exists>r'. read_live_mask_batches f (length xs) r rb =
    (Ok (map image xs, r'), advance (length (batches_enc is_live (enc (rendian rb)) nxt s xs)) rb)"
  using read_batches_enc [OF assms, of "[]"] by (auto simp: read_live_mask_batches_def)

end

section \<open>Properties\<close>

text \<open>
  A mask chain built from field flags answers exactly those flags, and answers absent for
  every field past the end; its wire form takes one byte per seven fields (one byte when there
  are none) and is read back from in front of any other bytes.
\<close>

lemma mask_chain_roundtrip:
  "mc_is_field_set (from_dirty_fields dirty) i = (i < length dirty \<and> dirty ! i)
   \<and> length (mc_bytes (from_dirty_fields dirty)) = max 1 (div_ceil (length dirty) 7)
   \<and> reads_back mask_chain_marshal mask_chain_unmarshal e (from_dirty_fields dirty) rest"
  by (simp add: mask_chain_field length_from_dirty_fields from_dirty_fields_ok
      maskc.reads_back_valid)

text \<open>
  Skipping a mask chain is equivalent to decoding it and dropping the result: on every input,
  malformed input included, it fails with the same error or succeeds when the decoder does, and
  leaves the cursor at the same place.
\<close>

lemma mask_chain_skip_equiv:
  "mask_chain_skip rb =
     (map_sum id (\<lambda>_. ()) (fst (mask_chain_unmarshal rb)), snd (mask_chain_unmarshal rb))"
  unfolding mask_chain_unmarshal_def by (rule skip_read_chain)

end
