(* ===== verification/Replicated_Container.thy ===== *)
theory Replicated_Container
  imports Hub_Sequence Containers Masks
begin

text \<open>
  \<^verbatim>\<open>serialize/replicated_container.rs\<close>: a container with a change list, a journal of ten change
  sets, snapshot and delta wire forms, and the merge of incoming data.

  The trait \<open>ReplicatedContainerStorage\<close> is the record \<open>storage\<close>, and its three impls are
  \<open>vec_storage\<close>, \<open>hash_map_storage\<close> and \<open>index_map_storage\<close>, built from the key and value codecs
  (\<open>KM\<close>, \<open>VM\<close>) and the default value. Writers return \<open>None\<close> where a count does not fit \<open>u32\<close>,
  which panics. \<open>debug_assert!\<close> has no effect in the release build that is modelled. \<open>usize\<close> has 64
  bits, so the index conversions cannot fail. The two type mismatch branches of the merge cannot
  occur, because the model is typed.
\<close>

section \<open>Changes\<close>

datatype change_op = OpAdd | OpUpdate | OpRemove

datatype ('k, 'v) change =
    Add 'k "'v option" hub_seq
  | Update 'k "'v option" hub_seq
  | Remove 'k hub_seq

definition change_add :: "'k \<Rightarrow> 'v \<Rightarrow> hub_seq \<Rightarrow> ('k, 'v) change" where
  "change_add k v s = Add k (Some v) s"

definition change_update :: "'k \<Rightarrow> 'v \<Rightarrow> hub_seq \<Rightarrow> ('k, 'v) change" where
  "change_update k v s = Update k (Some v) s"

definition change_remove :: "'k \<Rightarrow> hub_seq \<Rightarrow> ('k, 'v) change" where
  "change_remove k s = Remove k s"

definition change_delta :: "'k \<Rightarrow> 'v option \<Rightarrow> hub_seq \<Rightarrow> ('k, 'v) change" where
  "change_delta k v s = (case v of Some x \<Rightarrow> change_update k x s | None \<Rightarrow> change_remove k s)"

definition add_key :: "'k \<Rightarrow> hub_seq \<Rightarrow> ('k, 'v) change" where
  "add_key k s = Add k None s"

definition update_key :: "'k \<Rightarrow> hub_seq \<Rightarrow> ('k, 'v) change" where
  "update_key k s = Update k None s"

fun op_of :: "('k, 'v) change \<Rightarrow> change_op" where
  "op_of (Add _ _ _) = OpAdd"
| "op_of (Update _ _ _) = OpUpdate"
| "op_of (Remove _ _) = OpRemove"

fun key_of :: "('k, 'v) change \<Rightarrow> 'k" where
  "key_of (Add k _ _) = k"
| "key_of (Update k _ _) = k"
| "key_of (Remove k _) = k"

fun value_of :: "('k, 'v) change \<Rightarrow> 'v option" where
  "value_of (Add _ v _) = v"
| "value_of (Update _ v _) = v"
| "value_of (Remove _ _) = None"

fun sequence_of :: "('k, 'v) change \<Rightarrow> hub_seq" where
  "sequence_of (Add _ _ s) = s"
| "sequence_of (Update _ _ s) = s"
| "sequence_of (Remove _ s) = s"

fun is_live :: "('k, 'v) change \<Rightarrow> bool" where
  "is_live (Add _ _ _) = True"
| "is_live (Update _ _ _) = True"
| "is_live (Remove _ _) = False"

fun fill_value :: "'v \<Rightarrow> ('k, 'v) change \<Rightarrow> bool \<times> ('k, 'v) change" where
  "fill_value v (Add k None s) = (True, Add k (Some v) s)"
| "fill_value v (Update k None s) = (True, Update k (Some v) s)"
| "fill_value v ch = (False, ch)"

record ('k, 'v) change_set =
  cset_sequence :: hub_seq
  cset_changes :: "('k, 'v) change list"

section \<open>Flags\<close>

type_synonym container_flags = u8

definition initialize_change_flag :: u8 where "initialize_change_flag = 1"
definition pending_delta_flag :: u8 where "pending_delta_flag = 2"
definition default_value_flag :: u8 where "default_value_flag = 4"
definition new_network_data_flag :: u8 where "new_network_data_flag = 8"

definition flags_default :: container_flags where "flags_default = initialize_change_flag"
definition flags_delta :: container_flags where "flags_delta = pending_delta_flag"

definition flags_contains :: "u8 \<Rightarrow> container_flags \<Rightarrow> bool" where
  "flags_contains flag f \<longleftrightarrow> f AND flag \<noteq> 0"

definition flags_set :: "u8 \<Rightarrow> bool \<Rightarrow> container_flags \<Rightarrow> container_flags" where
  "flags_set flag v f = (if v then f OR flag else f AND NOT flag)"

abbreviation initialize_change where "initialize_change \<equiv> flags_contains initialize_change_flag"
abbreviation pending_delta_changes where "pending_delta_changes \<equiv> flags_contains pending_delta_flag"
abbreviation default_value where "default_value \<equiv> flags_contains default_value_flag"
abbreviation new_network_data where "new_network_data \<equiv> flags_contains new_network_data_flag"

lemmas flag_defs = initialize_change_flag_def pending_delta_flag_def default_value_flag_def
  new_network_data_flag_def

lemma flags_contains_set_same: "flag \<noteq> 0 \<Longrightarrow> flags_contains flag (flags_set flag v f) = v"
proof -
  assume "flag \<noteq> 0"
  moreover have "(f OR flag) AND flag = flag" "(f AND NOT flag) AND flag = 0"
    by (auto simp: bit_eq_iff bit_simps)
  ultimately show ?thesis by (simp add: flags_contains_def flags_set_def)
qed

lemma flags_contains_set_other:
  "flag AND other = 0 \<Longrightarrow> flags_contains flag (flags_set other v f) = flags_contains flag f"
proof -
  assume d: "flag AND other = 0"
  have "(f OR other) AND flag = f AND flag" "(f AND NOT other) AND flag = f AND flag"
    using d by (auto simp: bit_eq_iff bit_simps)
  then show ?thesis by (simp add: flags_contains_def flags_set_def)
qed

lemma flags_simps [simp]:
  "initialize_change (flags_set initialize_change_flag v f) = v"
  "initialize_change (flags_set pending_delta_flag v f) = initialize_change f"
  "initialize_change (flags_set default_value_flag v f) = initialize_change f"
  "initialize_change (flags_set new_network_data_flag v f) = initialize_change f"
  "pending_delta_changes (flags_set pending_delta_flag v f) = v"
  "pending_delta_changes (flags_set initialize_change_flag v f) = pending_delta_changes f"
  "pending_delta_changes (flags_set default_value_flag v f) = pending_delta_changes f"
  "pending_delta_changes (flags_set new_network_data_flag v f) = pending_delta_changes f"
  "default_value (flags_set default_value_flag v f) = v"
  "default_value (flags_set initialize_change_flag v f) = default_value f"
  "default_value (flags_set pending_delta_flag v f) = default_value f"
  "default_value (flags_set new_network_data_flag v f) = default_value f"
  "new_network_data (flags_set new_network_data_flag v f) = v"
  "new_network_data (flags_set initialize_change_flag v f) = new_network_data f"
  "new_network_data (flags_set pending_delta_flag v f) = new_network_data f"
  "new_network_data (flags_set default_value_flag v f) = new_network_data f"
  "initialize_change flags_default" "\<not> pending_delta_changes flags_default"
  "\<not> default_value flags_default" "\<not> new_network_data flags_default"
  "\<not> initialize_change flags_delta" "pending_delta_changes flags_delta"
  "\<not> default_value flags_delta" "\<not> new_network_data flags_delta"
  by (simp_all add: flags_contains_set_same flags_contains_set_other flag_defs)
    (simp_all add: flags_contains_def flags_default_def flags_delta_def flag_defs)

section \<open>Storage\<close>

record ('c, 'k, 'v) storage =
  st_empty :: 'c
  st_len :: "'c \<Rightarrow> nat"
  st_marshal_entries :: "'c \<Rightarrow> write_buffer \<Rightarrow> write_buffer option"
  st_unmarshal_entries :: "nat \<Rightarrow> 'c reader"
  st_key :: "'k codec"
  st_value :: "'v codec"
  st_default :: 'v
  st_change_value :: "'c \<Rightarrow> 'k \<Rightarrow> 'v option"
  st_apply_change :: "('k, 'v) change \<Rightarrow> 'c \<Rightarrow> 'c"

definition populate_change_value ::
    "('c, 'k, 'v) storage \<Rightarrow> 'c \<Rightarrow> ('k, 'v) change \<Rightarrow> ('k, 'v) change" where
  "populate_change_value st c ch =
     (if \<not> is_live ch \<or> value_of ch \<noteq> None then ch
      else case st_change_value st c (key_of ch) of
             Some v \<Rightarrow> snd (fill_value v ch)
           | None \<Rightarrow> ch)"

definition apply_changes :: "('c, 'k, 'v) storage \<Rightarrow> ('k, 'v) change list \<Rightarrow> 'c \<Rightarrow> 'c" where
  "apply_changes st chs c = fold (st_apply_change st) chs c"

text \<open>\<open>Vec<T>\<close>: an update at the length appends; anything past the end is ignored.\<close>

definition vec_change_value :: "'v list \<Rightarrow> u64 \<Rightarrow> 'v option" where
  "vec_change_value xs k = (if unat k < length xs then Some (xs ! unat k) else None)"

definition vec_apply_change :: "(u64, 'v) change \<Rightarrow> 'v list \<Rightarrow> 'v list" where
  "vec_apply_change ch xs =
     (let index = unat (key_of ch) in
      case (op_of ch, value_of ch) of
        (OpRemove, _) \<Rightarrow>
          if index < length xs then take index xs @ drop (Suc index) xs else xs
      | (_, Some v) \<Rightarrow>
          if index < length xs then xs[index := v]
          else if index = length xs then xs @ [v] else xs
      | (_, None) \<Rightarrow> xs)"

definition vec_storage :: "u64 codec \<Rightarrow> 'v codec \<Rightarrow> 'v \<Rightarrow> ('v list, u64, 'v) storage" where
  "vec_storage km vm d =
     \<lparr>st_empty = [], st_len = length, st_marshal_entries = marshal_items vm,
      st_unmarshal_entries = (\<lambda>n. read_into push (c_unmarshal vm) n []), st_key = km, st_value = vm,
      st_default = d, st_change_value = vec_change_value, st_apply_change = vec_apply_change\<rparr>"

text \<open>\<open>IndexMap\<close> and \<open>HashMap\<close>: insertion and removal by key.\<close>

definition map_change_value :: "('k \<times> 'v) list \<Rightarrow> 'k \<Rightarrow> 'v option" where
  "map_change_value m k = map_of m k"

definition map_apply_change :: "('k, 'v) change \<Rightarrow> ('k \<times> 'v) list \<Rightarrow> ('k \<times> 'v) list" where
  "map_apply_change ch m =
     (case (op_of ch, value_of ch) of
        (OpRemove, _) \<Rightarrow> AList.delete (key_of ch) m
      | (_, Some v) \<Rightarrow> map_insert (key_of ch, v) m
      | (_, None) \<Rightarrow> m)"

definition index_map_storage :: "'k codec \<Rightarrow> 'v codec \<Rightarrow> 'v \<Rightarrow> (('k \<times> 'v) list, 'k, 'v) storage" where
  "index_map_storage km vm d =
     \<lparr>st_empty = [], st_len = length, st_marshal_entries = marshal_items (tuple_codec km vm),
      st_unmarshal_entries = (\<lambda>n. read_into map_insert (pair_unmarshal km vm) n []),
      st_key = km, st_value = vm, st_default = d,
      st_change_value = map_change_value, st_apply_change = map_apply_change\<rparr>"

definition hash_map_storage ::
    "(('k \<times> 'v) list \<Rightarrow> ('k \<times> 'v) list) \<Rightarrow> 'k codec \<Rightarrow> 'v codec \<Rightarrow> 'v \<Rightarrow>
     (('k \<times> 'v) list, 'k, 'v) storage" where
  "hash_map_storage iter km vm d =
     \<lparr>st_empty = [], st_len = length,
      st_marshal_entries = (\<lambda>m. marshal_items (tuple_codec km vm) (iter m)),
      st_unmarshal_entries = (\<lambda>n. read_into map_insert (pair_unmarshal km vm) n []),
      st_key = km, st_value = vm, st_default = d,
      st_change_value = map_change_value, st_apply_change = map_apply_change\<rparr>"

section \<open>The container\<close>

definition journal_capacity :: nat where "journal_capacity = 10"

record ('c, 'k, 'v) rcontainer =
  last_modified :: hub_seq
  last_modified_marshal_full :: hub_seq
  rvalues :: 'c
  current_changes :: "('k, 'v) change list"
  journal :: "('k, 'v) change_set list"
  rflags :: container_flags
  seq_of_last_processed_change :: hub_seq

definition rc_new :: "hub_seq \<Rightarrow> 'c \<Rightarrow> ('c, 'k, 'v) rcontainer" where
  "rc_new s vals =
     \<lparr>last_modified = s, last_modified_marshal_full = Invalid, rvalues = vals, current_changes = [],
      journal = [], rflags = flags_default, seq_of_last_processed_change = Invalid\<rparr>"

definition rc_default :: "('c, 'k, 'v) storage \<Rightarrow> ('c, 'k, 'v) rcontainer" where
  "rc_default st = rc_new Invalid (st_empty st)"

definition rc_delta :: "('c, 'k, 'v) storage \<Rightarrow> ('k, 'v) change list \<Rightarrow> ('c, 'k, 'v) rcontainer" where
  "rc_delta st chs = (rc_default st)\<lparr>current_changes := chs, rflags := flags_delta,
     last_modified := ValidNonSequence\<rparr>"

definition rc_is_delta :: "('c, 'k, 'v) rcontainer \<Rightarrow> bool" where
  "rc_is_delta r \<longleftrightarrow> current_changes r \<noteq> []"

definition rc_has_value :: "('c, 'k, 'v) rcontainer \<Rightarrow> bool" where
  "rc_has_value r \<longleftrightarrow> seq_is_valid (last_modified r) \<or> default_value (rflags r)"

definition push_journal ::
    "('k, 'v) change_set \<Rightarrow> ('c, 'k, 'v) rcontainer \<Rightarrow> ('c, 'k, 'v) rcontainer" where
  "push_journal cs r =
     r\<lparr>journal := (if length (journal r) = journal_capacity then tl (journal r) else journal r) @ [cs]\<rparr>"

definition has_change_set :: "hub_seq \<Rightarrow> ('c, 'k, 'v) rcontainer \<Rightarrow> bool" where
  "has_change_set s r = list_ex (\<lambda>cs. hub_eq (cset_sequence cs) s) (journal r)"

definition begin_change_set_sequence_number :: "('c, 'k, 'v) rcontainer \<Rightarrow> hub_seq" where
  "begin_change_set_sequence_number r =
     (case journal r of [] \<Rightarrow> Invalid | cs # _ \<Rightarrow> cset_sequence cs)"

definition end_change_set_sequence_number :: "('c, 'k, 'v) rcontainer \<Rightarrow> hub_seq" where
  "end_change_set_sequence_number r =
     (if journal r = [] then Invalid else cset_sequence (last (journal r)))"

definition clear_current_changes :: "('c, 'k, 'v) rcontainer \<Rightarrow> ('c, 'k, 'v) rcontainer" where
  "clear_current_changes r =
     r\<lparr>current_changes := [], rflags := flags_set initialize_change_flag False (rflags r)\<rparr>"

definition clear_journal :: "('c, 'k, 'v) rcontainer \<Rightarrow> ('c, 'k, 'v) rcontainer" where
  "clear_journal r = r\<lparr>journal := []\<rparr>"

definition clear_all_change_sets :: "('c, 'k, 'v) rcontainer \<Rightarrow> ('c, 'k, 'v) rcontainer" where
  "clear_all_change_sets r = clear_current_changes (r\<lparr>journal := []\<rparr>)"

definition current_value_changes :: "('c, 'k, 'v) rcontainer \<Rightarrow> ('k \<times> 'v \<times> hub_seq) list" where
  "current_value_changes r =
     List.map_filter (\<lambda>ch. map_option (\<lambda>v. (key_of ch, v, sequence_of ch)) (value_of ch)) (current_changes r)"

definition values_with_current_changes :: "('c, 'k, 'v) storage \<Rightarrow> ('c, 'k, 'v) rcontainer \<Rightarrow> 'c" where
  "values_with_current_changes st r = apply_changes st (current_changes r) (rvalues r)"

definition push_initialize_change :: "('c, 'k, 'v) rcontainer \<Rightarrow> ('c, 'k, 'v) rcontainer" where
  "push_initialize_change r0 =
     (let r = r0\<lparr>last_modified := ValidNonSequence,
               rflags := flags_set default_value_flag False (rflags r0)\<rparr>;
          r = (if \<not> initialize_change (rflags r)
               then r\<lparr>rflags := flags_set initialize_change_flag True (rflags r), current_changes := []\<rparr>
               else r)
      in r\<lparr>rflags := flags_set pending_delta_flag False (rflags r)\<rparr>)"

definition push_change ::
    "('c, 'k, 'v) storage \<Rightarrow> ('k, 'v) change \<Rightarrow> ('c, 'k, 'v) rcontainer \<Rightarrow> ('c, 'k, 'v) rcontainer" where
  "push_change st ch r0 =
     (let r = r0\<lparr>last_modified := ValidNonSequence,
               rflags := flags_set default_value_flag False (rflags r0)\<rparr>;
          r = (if \<not> initialize_change (rflags r)
               then if length (current_changes r) > st_len st (rvalues r) then push_initialize_change r
                    else r\<lparr>current_changes := current_changes r @ [ch]\<rparr>
               else r)
      in r\<lparr>rflags := flags_set pending_delta_flag False (rflags r)\<rparr>)"

definition push_add ::
    "('c, 'k, 'v) storage \<Rightarrow> 'k \<Rightarrow> 'v \<Rightarrow> ('c, 'k, 'v) rcontainer \<Rightarrow> ('c, 'k, 'v) rcontainer" where
  "push_add st k v r =
     push_change st (add_key k Invalid)
       (r\<lparr>rvalues := st_apply_change st (change_add k v ValidNonSequence) (rvalues r)\<rparr>)"

definition push_update ::
    "('c, 'k, 'v) storage \<Rightarrow> 'k \<Rightarrow> 'v \<Rightarrow> ('c, 'k, 'v) rcontainer \<Rightarrow> ('c, 'k, 'v) rcontainer" where
  "push_update st k v r =
     push_change st (update_key k Invalid)
       (r\<lparr>rvalues := st_apply_change st (change_update k v ValidNonSequence) (rvalues r)\<rparr>)"

definition push_remove ::
    "('c, 'k, 'v) storage \<Rightarrow> 'k \<Rightarrow> ('c, 'k, 'v) rcontainer \<Rightarrow> ('c, 'k, 'v) rcontainer" where
  "push_remove st k r =
     push_change st (change_remove k Invalid)
       (r\<lparr>rvalues := st_apply_change st (change_remove k ValidNonSequence) (rvalues r)\<rparr>)"

definition client_update_sequence_of_last_processed_change ::
    "hub_seq \<Rightarrow> ('c, 'k, 'v) rcontainer \<Rightarrow> ('c, 'k, 'v) rcontainer" where
  "client_update_sequence_of_last_processed_change s r =
     (if seq_of_last_processed_change r < s then r\<lparr>seq_of_last_processed_change := s\<rparr> else r)"

definition copy_container_from ::
    "('c, 'k, 'v) rcontainer \<Rightarrow> hub_seq \<Rightarrow> ('c, 'k, 'v) rcontainer \<Rightarrow> ('c, 'k, 'v) rcontainer" where
  "copy_container_from incoming s r =
     r\<lparr>rvalues := rvalues incoming, seq_of_last_processed_change := s\<rparr>"

definition apply_change_set ::
    "('c, 'k, 'v) storage \<Rightarrow> hub_seq \<Rightarrow> ('k, 'v) change list \<Rightarrow> ('c, 'k, 'v) rcontainer \<Rightarrow>
     ('c, 'k, 'v) rcontainer" where
  "apply_change_set st s chs r =
     push_journal \<lparr>cset_sequence = s, cset_changes = chs\<rparr> (r\<lparr>rvalues := apply_changes st chs (rvalues r)\<rparr>)"

definition merge_change_sets ::
    "('c, 'k, 'v) storage \<Rightarrow> ('c, 'k, 'v) rcontainer \<Rightarrow> hub_seq \<Rightarrow> ('c, 'k, 'v) rcontainer \<Rightarrow>
     ('c, 'k, 'v) rcontainer" where
  "merge_change_sets st incoming s r0 =
     (let end_sequence = end_change_set_sequence_number r0;
          r = fold (\<lambda>cs r. if end_sequence < cset_sequence cs
                           then apply_change_set st (cset_sequence cs) (cset_changes cs) r else r)
                (journal incoming) r0
      in if current_changes incoming \<noteq> [] then apply_change_set st s (current_changes incoming) r else r)"

section \<open>Choosing a delta\<close>

text \<open>
  The efficiency test is in \<open>f32\<close> arithmetic: \<open>changes as f32 > values as f32 * efficiency\<close>. A
  non-negative \<open>f32\<close> of this range is a natural number rounded to 24 significant bits, to nearest
  and ties to even; the efficiency is given as its numerator over \<open>2 ^ 24\<close>, and a product is
  rounded once more. \<open>0.8\<close> as \<open>f32\<close> is \<open>13421773 / 2 ^ 24\<close>.
\<close>

fun bit_len :: "nat \<Rightarrow> nat" where
  "bit_len n = (if n = 0 then 0 else Suc (bit_len (n div 2)))"

declare bit_len.simps [simp del]

definition usize_to_f32 :: "nat \<Rightarrow> nat" where
  "usize_to_f32 n =
     (let k = bit_len n - 24; q = n div 2 ^ k; r = n mod 2 ^ k
      in if k = 0 then n
         else (if 2 * r > 2 ^ k \<or> (2 * r = 2 ^ k \<and> odd q) then q + 1 else q) * 2 ^ k)"

definition efficiency_0_8 :: nat where "efficiency_0_8 = 13421773"

definition exceeds_efficiency :: "nat \<Rightarrow> nat \<Rightarrow> nat \<Rightarrow> bool" where
  "exceeds_efficiency changes vals efficiency \<longleftrightarrow>
     usize_to_f32 changes * 2 ^ 24 > usize_to_f32 (usize_to_f32 vals * efficiency)"

definition summarize_changes ::
    "('c, 'k, 'v) storage \<Rightarrow> hub_seq \<Rightarrow> nat \<Rightarrow> ('c, 'k, 'v) rcontainer \<Rightarrow> ('k, 'v) change list" where
  "summarize_changes st baseline efficiency r =
     (if initialize_change (rflags r) then []
      else let changes = concat (map cset_changes (filter (\<lambda>cs. baseline < cset_sequence cs) (journal r)))
                   @ current_changes r;
               changes = map (populate_change_value st (rvalues r)) changes
        in if changes \<noteq> [] \<and> exceeds_efficiency (length changes) (st_len st (rvalues r)) efficiency
           then [] else changes)"

section \<open>Wire forms\<close>

definition marshal_full ::
    "('c, 'k, 'v) storage \<Rightarrow> ('c, 'k, 'v) rcontainer \<Rightarrow> write_buffer \<Rightarrow> write_buffer option" where
  "marshal_full st r wb =
     (case hub_seq_marshal (last_modified r) (vlq32_marshal 0 wb) of
        None \<Rightarrow> None
      | Some wb1 \<Rightarrow> (case marshal_wire_count (st_len st (rvalues r)) wb1 of
            None \<Rightarrow> None
          | Some wb2 \<Rightarrow> st_marshal_entries st (rvalues r) wb2))"

text \<open>The value a live change is written with.\<close>

definition wire_value :: "('c, 'k, 'v) storage \<Rightarrow> 'c \<Rightarrow> ('k, 'v) change \<Rightarrow> 'v" where
  "wire_value st vals ch =
     (case value_of ch of
        Some v \<Rightarrow> v
      | None \<Rightarrow> (case st_change_value st vals (key_of ch) of Some v \<Rightarrow> v | None \<Rightarrow> st_default st))"

definition emit_change ::
    "('c, 'k, 'v) storage \<Rightarrow> 'c \<Rightarrow> hub_seq \<Rightarrow> ('k, 'v) change \<Rightarrow> bool \<Rightarrow> write_buffer \<Rightarrow>
     (hub_seq \<times> write_buffer) option" where
  "emit_change st vals previous ch live wb =
     (case c_marshal (st_key st) (key_of ch) wb of
        None \<Rightarrow> None
      | Some wb1 \<Rightarrow>
          let s = sequence_of ch; same = hub_eq s previous in
          case hub_seq_marshal (if same then ValidNonSequence else s) wb1 of
            None \<Rightarrow> None
          | Some wb2 \<Rightarrow>
              let previous' = (if same then previous else s) in
              if live then map_option (Pair previous') (c_marshal (st_value st) (wire_value st vals ch) wb2)
              else Some (previous', wb2))"

definition marshal_changes ::
    "('c, 'k, 'v) storage \<Rightarrow> ('k, 'v) change list \<Rightarrow> ('c, 'k, 'v) rcontainer \<Rightarrow> write_buffer \<Rightarrow>
     write_buffer option" where
  "marshal_changes st chs r wb =
     (case marshal_wire_count (length chs) wb of
        None \<Rightarrow> None
      | Some wb1 \<Rightarrow>
          map_option snd (write_live_mask_batches is_live (emit_change st (rvalues r)) chs Invalid wb1))"

definition vlq_two_byte_change_limit :: nat where "vlq_two_byte_change_limit = 2 ^ 14"

definition marshal_since ::
    "('c, 'k, 'v) storage \<Rightarrow> hub_seq \<Rightarrow> ('c, 'k, 'v) rcontainer \<Rightarrow> write_buffer \<Rightarrow> write_buffer option" where
  "marshal_since st baseline r wb =
     (if \<not> seq_is_valid baseline then marshal_full st r wb
      else let changes = summarize_changes st baseline efficiency_0_8 r in
        if changes = [] \<or> length changes \<ge> vlq_two_byte_change_limit then marshal_full st r wb
        else marshal_changes st changes r wb)"

definition rc_marshal ::
    "('c, 'k, 'v) storage \<Rightarrow> ('c, 'k, 'v) rcontainer \<Rightarrow> write_buffer \<Rightarrow> write_buffer option" where
  "rc_marshal st r wb =
     (if current_changes r = [] then marshal_full st r wb
      else marshal_changes st (current_changes r) r wb)"

definition check_count :: "nat \<Rightarrow> nat \<Rightarrow> unit reader" where
  "check_count cnt capacity =
     (if cnt > capacity then rfail (ContainerOverflow cnt capacity) else rreturn ())"

definition read_change ::
    "('c, 'k, 'v) storage \<Rightarrow> hub_seq \<Rightarrow> bool \<Rightarrow> (('k, 'v) change \<times> hub_seq) reader" where
  "read_change st previous live =
     rbind (c_unmarshal (st_key st)) (\<lambda>k.
     rbind hub_seq_unmarshal (\<lambda>raw.
       let s = (if hub_eq raw ValidNonSequence then previous else raw) in
       rmap (\<lambda>v. (change_delta k v s, s))
         (if live then rmap Some (c_unmarshal (st_value st)) else rreturn None)))"

definition rc_unmarshal :: "('c, 'k, 'v) storage \<Rightarrow> nat \<Rightarrow> ('c, 'k, 'v) rcontainer reader" where
  "rc_unmarshal st cap =
     rbind vlq32_unmarshal (\<lambda>m. let mode = unat m in
     if mode = 0 then
       rbind hub_seq_unmarshal (\<lambda>full.
       rbind vlq32_unmarshal (\<lambda>c. let cnt = unat c in
       rbind (check_count cnt cap) (\<lambda>_.
       rmap (\<lambda>vals. push_initialize_change ((rc_default st)\<lparr>last_modified_marshal_full := full,
               rvalues := vals, seq_of_last_processed_change := full,
               rflags := flags_set new_network_data_flag True flags_default\<rparr>))
         (st_unmarshal_entries st cnt))))
     else
       rbind (check_count mode cap) (\<lambda>_.
       rmap (\<lambda>(chs, _). (rc_default st)\<lparr>last_modified := ValidNonSequence, rvalues := st_empty st,
               current_changes := chs, rflags := flags_set new_network_data_flag True flags_delta\<rparr>)
         (read_live_mask_batches (read_change st) mode Invalid)))"

section \<open>The field handler\<close>

definition rc_set_current_value_as_default :: "('c, 'k, 'v) rcontainer \<Rightarrow> ('c, 'k, 'v) rcontainer" where
  "rc_set_current_value_as_default r =
     r\<lparr>rflags := flags_set default_value_flag True (rflags r), last_modified := Invalid,
       current_changes := []\<rparr>"

definition rc_is_dirty :: "hub_seq \<Rightarrow> ('c, 'k, 'v) rcontainer \<Rightarrow> bool" where
  "rc_is_dirty baseline r \<longleftrightarrow> baseline < last_modified r"

definition rc_reset_has_new_network_data :: "('c, 'k, 'v) rcontainer \<Rightarrow> ('c, 'k, 'v) rcontainer" where
  "rc_reset_has_new_network_data r =
     r\<lparr>rflags := flags_set new_network_data_flag False (rflags r)\<rparr>"

definition rc_unmarshal_field ::
    "('c, 'k, 'v) storage \<Rightarrow> nat \<Rightarrow> ('c, 'k, 'v) rcontainer \<Rightarrow> read_buffer \<Rightarrow>
     (marshaler_error + unit) \<times> ('c, 'k, 'v) rcontainer \<times> read_buffer" where
  "rc_unmarshal_field st cap r rb =
     (case rc_unmarshal st cap rb of
        (Inl e, rb') \<Rightarrow> (Err e, r, rb')
      | (Inr r', rb') \<Rightarrow> (Ok (), r', rb'))"

definition set_new_network_data :: "bool \<Rightarrow> ('c, 'k, 'v) rcontainer \<Rightarrow> ('c, 'k, 'v) rcontainer" where
  "set_new_network_data b r = r\<lparr>rflags := flags_set new_network_data_flag b (rflags r)\<rparr>"

text \<open>
  \<open>merge_and_update_sequence\<close>: \<open>same\<close> is the pointer comparison of old and new value. The result
  is whether new data was detected, the merged container and the incoming one, whose changes are
  cleared. What is incoming counts as new when it holds changes or a snapshot later than what was
  processed, or a later journal.
\<close>

definition incoming_is_new :: "('c, 'k, 'v) rcontainer \<Rightarrow> ('c, 'k, 'v) rcontainer \<Rightarrow> bool" where
  "incoming_is_new old new =
     (let processed = seq_of_last_processed_change old;
          new_current_changes = (current_changes new \<noteq> []);
          new_initialization = initialize_change (rflags new);
          new_current_changes =
            (if seq_is_valid processed \<and> current_changes new \<noteq> []
             then new_current_changes \<and> processed < sequence_of (last (current_changes new))
             else new_current_changes);
          new_initialization =
            (if seq_is_valid processed
             then new_initialization \<and> processed < last_modified_marshal_full new
             else new_initialization);
          new_change_set =
            (end_change_set_sequence_number old < end_change_set_sequence_number new)
      in new_current_changes \<or> new_initialization \<or> new_change_set)"

definition merge_base ::
    "('c, 'k, 'v) rcontainer \<Rightarrow> ('c, 'k, 'v) rcontainer \<Rightarrow> ('c, 'k, 'v) rcontainer" where
  "merge_base old self =
     (set_new_network_data False (clear_all_change_sets self))
       \<lparr>seq_of_last_processed_change := seq_of_last_processed_change old\<rparr>"

definition merge_and_update_sequence ::
    "('c, 'k, 'v) storage \<Rightarrow> bool \<Rightarrow> ('c, 'k, 'v) rcontainer \<Rightarrow> ('c, 'k, 'v) rcontainer \<Rightarrow> hub_seq \<Rightarrow>
     bool \<Rightarrow> ('c, 'k, 'v) rcontainer \<Rightarrow> bool \<times> ('c, 'k, 'v) rcontainer \<times> ('c, 'k, 'v) rcontainer" where
  "merge_and_update_sequence st same old new s inherit self =
     (let base = merge_base old self;
          new_set = \<lparr>cset_sequence = s, cset_changes = current_changes new\<rparr>;
          processed_new = seq_of_last_processed_change new;
          processed_old = seq_of_last_processed_change old
      in if same then
           (True,
            if seq_is_valid (last_modified new) then
              let r = copy_container_from new processed_new (base\<lparr>last_modified := s\<rparr>);
                  r = (if \<not> initialize_change (rflags new) then r\<lparr>journal := journal new\<rparr> else r)
              in set_new_network_data True (push_journal new_set r)
            else base,
            clear_current_changes new)
         else if seq_is_valid (last_modified new) \<and> incoming_is_new old new then
           let r = set_new_network_data True (base\<lparr>last_modified := s\<rparr>) in
           (True,
            if initialize_change (rflags new) then
              push_journal new_set (copy_container_from new processed_new r)
            else if \<not> pending_delta_changes (rflags new) then
              let r = copy_container_from new processed_new r in
              if current_changes new = [] then r\<lparr>journal := journal new\<rparr>
              else push_journal new_set (r\<lparr>journal := journal old\<rparr>)
            else
              merge_change_sets st new s
                ((copy_container_from old processed_old r)\<lparr>journal := journal old\<rparr>),
            clear_current_changes new)
         else
           let r = (copy_container_from old processed_old (base\<lparr>last_modified := min s (last_modified old)\<rparr>))
                     \<lparr>journal := journal old\<rparr> in
           (False,
            if inherit then set_new_network_data (new_network_data (rflags old)) r else r,
            clear_current_changes new))"

end
