(* ===== verification/Container_Wire.thy ===== *)
theory Container_Wire
  imports Replicated_Container
begin

text \<open>
  The wire forms of the replicated container are read back: the storage contract, its instances
  for the three storages, and the round trips of snapshots and deltas.
\<close>

section \<open>The storage contract\<close>

text \<open>
  What a storage promises to the container: lawful key and value codecs, entries that are read
  back up to \<open>view\<close> (the value itself, or the associations of a hash map), and lookups that return
  values the codec can carry.
\<close>

locale container_storage =
  fixes st :: "('c, 'k, 'v) storage" and stored :: "'c \<Rightarrow> bool"
    and vk :: "'k \<Rightarrow> bool" and ek :: "endian \<Rightarrow> 'k \<Rightarrow> bytes"
    and vv :: "'v \<Rightarrow> bool" and ev :: "endian \<Rightarrow> 'v \<Rightarrow> bytes"
    and ec :: "endian \<Rightarrow> 'c \<Rightarrow> bytes" and view :: "'c \<Rightarrow> 'x"
  assumes key_lawful: "lawful_codec (st_key st) vk ek"
    and value_lawful: "lawful_codec (st_value st) vv ev"
    and default_valid: "vv (st_default st)"
    and entries_marshal: "stored c \<Longrightarrow>
      st_marshal_entries st c wb = Some (write_bytes (ec (wendian wb) c) wb)"
    and entries_unmarshal: "stored c \<Longrightarrow> remaining rb = ec (rendian rb) c @ bs \<Longrightarrow>
      \<exists>c'. view c' = view c \<and>
        st_unmarshal_entries st (st_len st c) rb = (Ok c', advance (length (ec (rendian rb) c)) rb)"
    and lookup_valid: "stored c \<Longrightarrow> st_change_value st c k = Some v \<Longrightarrow> vv v"

lemma vec_container_storage:
  assumes "lawful_codec km vk ek" and "lawful_codec vm vv ev" and "vv d"
  shows "container_storage (vec_storage km vm d) (list_all vv) vk ek vv ev
    (\<lambda>e xs. concat (map (ev e) xs)) (\<lambda>xs. xs)"
  using assms
  by (intro container_storage.intro)
    (auto simp: vec_storage_def marshal_items_enc read_into_enc vec_change_value_def list_all_length
      split: if_splits)

lemma index_map_container_storage:
  assumes "lawful_codec km vk ek" and "lawful_codec vm vv ev" and "vv d"
  shows "container_storage (index_map_storage km vm d)
    (\<lambda>m. distinct (map fst m) \<and> list_all (entry_ok vk vv) m) vk ek vv ev
    (\<lambda>e m. concat (map (pair_enc ek ev e) m)) (\<lambda>m. m)"
proof -
  note t = lawful_tuple [OF assms(1,2)]
  have u: "c_unmarshal (tuple_codec km vm) = pair_unmarshal km vm" by (simp add: tuple_codec_def)
  show ?thesis
    using assms read_into_enc [OF t, where ins = map_insert and m = "[]", unfolded u]
    by (intro container_storage.intro)
      (auto simp: index_map_storage_def marshal_items_enc [OF t] fold_map_insert
        map_change_value_def list_all_iff dest!: map_of_SomeD)
qed

lemma hash_map_container_storage:
  assumes "lawful_codec km vk ek" and "lawful_codec vm vv ev" and "vv d"
  shows "container_storage (hash_map_storage iter km vm d)
    (\<lambda>m. distinct (map fst m) \<and> list_all (entry_ok vk vv) m \<and> mset (iter m) = mset m) vk ek vv ev
    (\<lambda>e m. concat (map (pair_enc ek ev e) (iter m))) map_of"
proof -
  note t = lawful_tuple [OF assms(1,2)]
  have u: "c_unmarshal (tuple_codec km vm) = pair_unmarshal km vm" by (simp add: tuple_codec_def)
  have iter: "list_all (entry_ok vk vv) (iter m)" "length (iter m) = length m"
    if "list_all (entry_ok vk vv) m" "mset (iter m) = mset m" for m
    using that mset_eq_setD [OF that(2)] mset_eq_length [OF that(2)] by (simp_all add: list_all_iff)
  show ?thesis
  proof (rule container_storage.intro)
    fix m rb bs
    assume m: "distinct (map fst m) \<and> list_all (entry_ok vk vv) m \<and> mset (iter m) = mset m"
      and rb: "remaining rb = concat (map (pair_enc ek ev (rendian rb)) (iter m)) @ bs"
    show "\<exists>c'. map_of c' = map_of m \<and>
        st_unmarshal_entries (hash_map_storage iter km vm d) (st_len (hash_map_storage iter km vm d) m) rb =
          (Ok c', advance (length (concat (map (pair_enc ek ev (rendian rb)) (iter m)))) rb)"
      using read_into_enc [OF t iter(1) rb, of map_insert "[]"] m iter(2) fold_map_insert_perm(1)
      by (auto simp: hash_map_storage_def u)
  next
    fix m wb
    assume m: "distinct (map fst m) \<and> list_all (entry_ok vk vv) m \<and> mset (iter m) = mset m"
    show "st_marshal_entries (hash_map_storage iter km vm d) m wb =
        Some (write_bytes (concat (map (pair_enc ek ev (wendian wb)) (iter m))) wb)"
      using m iter(1) by (simp add: hash_map_storage_def marshal_items_enc [OF t])
  next
    fix m k v
    assume "distinct (map fst m) \<and> list_all (entry_ok vk vv) m \<and> mset (iter m) = mset m"
      "st_change_value (hash_map_storage iter km vm d) m k = Some v"
    then show "vv v"
      by (auto simp: hash_map_storage_def map_change_value_def list_all_iff dest: map_of_SomeD)
  qed (use assms in \<open>simp_all add: hash_map_storage_def\<close>)
qed

text \<open>The contract on two containers of the program: a vector of integers, a map to bytes.\<close>

interpretation u32_vec: container_storage "vec_storage vlq64_codec u32_codec 0" "list_all (\<lambda>_. True)"
  "\<lambda>_. True" "\<lambda>_. vlq64_bytes" "\<lambda>_. True" bytes32 "\<lambda>e xs. concat (map (bytes32 e) xs)" "\<lambda>xs. xs"
  by (rule vec_container_storage) (simp_all add: lawful)

interpretation u8_map: container_storage "index_map_storage u32_codec u8_codec 0"
  "\<lambda>m. distinct (map fst m) \<and> list_all (entry_ok (\<lambda>_. True) (\<lambda>_. True)) m"
  "\<lambda>_. True" bytes32 "\<lambda>_. True" "\<lambda>_ v. [v]"
  "\<lambda>e m. concat (map (pair_enc bytes32 (\<lambda>_ v. [v]) e) m)" "\<lambda>m. m"
  by (rule index_map_container_storage) (simp_all add: lawful)

section \<open>Delta entries\<close>

text \<open>Sequence numbers a delta can carry: \<open>ValidNonSequence\<close> means "the previous one" there.\<close>

definition delta_seq :: "hub_seq \<Rightarrow> bool" where
  "delta_seq s \<longleftrightarrow> normal s \<and> s \<noteq> ValidNonSequence"

definition change_ok :: "('k \<Rightarrow> bool) \<Rightarrow> ('v \<Rightarrow> bool) \<Rightarrow> ('k, 'v) change \<Rightarrow> bool" where
  "change_ok vk vv ch \<longleftrightarrow> vk (key_of ch) \<and> pred_option vv (value_of ch) \<and> delta_seq (sequence_of ch)"

definition previous_sequence :: "hub_seq \<Rightarrow> ('k, 'v) change \<Rightarrow> hub_seq" where
  "previous_sequence previous ch =
     (if hub_eq (sequence_of ch) previous then previous else sequence_of ch)"

definition change_enc ::
    "(endian \<Rightarrow> 'k \<Rightarrow> bytes) \<Rightarrow> (endian \<Rightarrow> 'v \<Rightarrow> bytes) \<Rightarrow> ('c, 'k, 'v) storage \<Rightarrow> 'c \<Rightarrow> endian \<Rightarrow>
     hub_seq \<Rightarrow> ('k, 'v) change \<Rightarrow> bytes" where
  "change_enc ek ev st vals e previous ch =
     ek e (key_of ch)
     @ hub_seq_enc (if hub_eq (sequence_of ch) previous then ValidNonSequence else sequence_of ch)
     @ (if is_live ch then ev e (wire_value st vals ch) else [])"

text \<open>What the reader makes of a change: additions and updates are one on the wire.\<close>

definition wire_change :: "('c, 'k, 'v) storage \<Rightarrow> 'c \<Rightarrow> ('k, 'v) change \<Rightarrow> ('k, 'v) change" where
  "wire_change st vals ch =
     change_delta (key_of ch) (if is_live ch then Some (wire_value st vals ch) else None) (sequence_of ch)"

context container_storage
begin

lemma wire_value_valid: "stored vals \<Longrightarrow> change_ok vk vv ch \<Longrightarrow> vv (wire_value st vals ch)"
  by (auto simp: wire_value_def change_ok_def default_valid lookup_valid split: option.split)

lemma delta_live:
  assumes "stored vals"
  shows "live_entries (change_ok vk vv) is_live (emit_change st vals) (change_enc ek ev st vals)
    previous_sequence (read_change st) (\<lambda>s r. r = s \<and> normal s) (wire_change st vals)"
proof unfold_locales
  fix ch s wb
  assume "change_ok vk vv ch"
  then show "emit_change st vals s ch (is_live ch) wb =
      Some (previous_sequence s ch, write_bytes (change_enc ek ev st vals (wendian wb) s ch) wb)"
    using assms wire_value_valid
    by (simp add: emit_change_def change_enc_def previous_sequence_def Let_def hub_seq_marshal_enc
        lawfulD(1) [OF key_lawful] lawfulD(1) [OF value_lawful] change_ok_def write_bytes_def)
next
  fix ch s r rb bs
  assume ch: "change_ok vk vv ch" and r: "r = s \<and> normal s"
    and rb: "remaining rb = change_enc ek ev st vals (rendian rb) s ch @ bs"
  let ?q = "if hub_eq (sequence_of ch) s then ValidNonSequence else sequence_of ch"
  let ?k = "length (ek (rendian rb) (key_of ch))" and ?n = "length (hub_seq_enc ?q)"
  have q: "normal ?q" "hub_eq ?q ValidNonSequence \<longleftrightarrow> sequence_of ch = s"
    using ch r by (auto simp: change_ok_def delta_seq_def hub_eq_normal)
  have "c_unmarshal (st_key st) rb = (Ok (key_of ch), advance ?k rb)"
    using ch rb by (intro lawfulD(2) [OF key_lawful]) (simp_all add: change_ok_def change_enc_def)
  moreover have "hub_seq_unmarshal (advance ?k rb) = (Ok ?q, advance ?n (advance ?k rb))"
    using rb q(1) hub_seq_unmarshal_enc [of "advance ?k rb" ?q]
    by (simp add: change_enc_def normal_def)
  moreover have "c_unmarshal (st_value st) (advance ?n (advance ?k rb)) =
      (Ok (wire_value st vals ch),
       advance (length (ev (rendian rb) (wire_value st vals ch))) (advance ?n (advance ?k rb)))"
    if "is_live ch"
    using that rb wire_value_valid [OF assms ch]
      lawfulD(2) [OF value_lawful, of "wire_value st vals ch" "advance ?n (advance ?k rb)" bs]
    by (simp add: change_enc_def)
  moreover have "(if hub_eq ?q ValidNonSequence then r else ?q) = sequence_of ch"
    using q(2) r ch by (auto simp: hub_eq_normal change_ok_def delta_seq_def)
  moreover have "previous_sequence s ch = sequence_of ch"
    using r ch by (auto simp: previous_sequence_def hub_eq_normal change_ok_def delta_seq_def)
  moreover have "normal (sequence_of ch)" using ch by (simp add: change_ok_def delta_seq_def)
  ultimately show "\<exists>r'. (r' = previous_sequence s ch \<and> normal (previous_sequence s ch)) \<and>
      read_change st r (is_live ch) rb =
        (Ok (wire_change st vals ch, r'), advance (length (change_enc ek ev st vals (rendian rb) s ch)) rb)"
    by (cases "is_live ch")
      (simp_all add: read_change_def wire_change_def change_enc_def Let_def rbind_def rmap_def)
qed

lemma marshal_changes_enc:
  assumes "stored (rvalues r)" and "list_all (change_ok vk vv) chs" and "length chs < 2 ^ 32"
  shows "marshal_changes st chs r wb =
    Some (write_bytes (vlq32_bytes (of_nat (length chs))
      @ batches_enc is_live (change_enc ek ev st (rvalues r) (wendian wb)) previous_sequence Invalid chs) wb)"
  using live_entries.write_batches_enc [OF delta_live [OF assms(1)] assms(2)] assms(3)
  by (simp add: marshal_changes_def marshal_wire_count_def vlq32.marshal_enc write_bytes_def)

lemma read_delta:
  assumes "stored vals" and "list_all (change_ok vk vv) chs" and "chs \<noteq> []"
    and "length chs \<le> cap" and "length chs < 2 ^ 32"
    and "remaining rb = vlq32_bytes (of_nat (length chs))
      @ batches_enc is_live (change_enc ek ev st vals (rendian rb)) previous_sequence Invalid chs @ bs"
  shows "\<exists>n. rc_unmarshal st cap rb =
    (Ok ((rc_default st)\<lparr>last_modified := ValidNonSequence, rvalues := st_empty st,
       current_changes := map (wire_change st vals) chs,
       rflags := flags_set new_network_data_flag True flags_delta\<rparr>), advance n rb)
    \<and> remaining (advance n rb) = bs"
proof -
  let ?n = "length (vlq32_bytes (of_nat (length chs)))"
  let ?body = "batches_enc is_live (change_enc ek ev st vals (rendian rb)) previous_sequence Invalid chs"
  have u: "unat (of_nat (length chs) :: u32) = length chs"
    using assms(5) by (simp add: unsigned_of_nat take_bit_nat_eq_self)
  have "vlq32_unmarshal rb = (Ok (of_nat (length chs)), advance ?n rb)"
    using assms(6) by (intro vlq32.unmarshal_enc) simp_all
  moreover obtain r' where "read_live_mask_batches (read_change st) (length chs) Invalid (advance ?n rb) =
      (Ok (map (wire_change st vals) chs, r'), advance (length ?body) (advance ?n rb))"
    using live_entries.batches_roundtrip [OF delta_live [OF assms(1)] assms(2),
        of Invalid Invalid "advance ?n rb" bs] assms(6)
    by auto
  ultimately show ?thesis
    using assms(3,4,6) u
    by (intro exI [of _ "?n + length ?body"])
      (simp add: rc_unmarshal_def Let_def check_count_def rbind_def rmap_def)
qed

lemma read_snapshot:
  assumes "stored vals" and "st_len st vals \<le> cap" and "st_len st vals < 2 ^ 32"
    and "remaining rb = vlq32_bytes 0 @ hub_seq_enc s @ vlq32_bytes (of_nat (st_len st vals))
      @ ec (rendian rb) vals @ bs"
  shows "\<exists>n c'. view c' = view vals \<and> remaining (advance n rb) = bs \<and> rc_unmarshal st cap rb =
    (Ok (push_initialize_change ((rc_default st)\<lparr>last_modified_marshal_full := from_raw (raw_value s),
       rvalues := c', seq_of_last_processed_change := from_raw (raw_value s),
       rflags := flags_set new_network_data_flag True flags_default\<rparr>)), advance n rb)"
proof -
  let ?a = "length (vlq32_bytes 0)" and ?b = "length (hub_seq_enc s)"
  let ?c = "length (vlq32_bytes (of_nat (st_len st vals)))"
  let ?rb1 = "advance ?a rb" let ?rb2 = "advance ?b ?rb1" let ?rb3 = "advance ?c ?rb2"
  have u: "unat (of_nat (st_len st vals) :: u32) = st_len st vals"
    using assms(3) by (simp add: unsigned_of_nat take_bit_nat_eq_self)
  have "vlq32_unmarshal rb = (Ok 0, ?rb1)"
    using assms(4) by (intro vlq32.unmarshal_enc) simp_all
  moreover have "hub_seq_unmarshal ?rb1 = (Ok (from_raw (raw_value s)), ?rb2)"
    using assms(4) by (intro hub_seq_unmarshal_enc) simp
  moreover have "vlq32_unmarshal ?rb2 = (Ok (of_nat (st_len st vals)), ?rb3)"
    using assms(4) by (intro vlq32.unmarshal_enc) simp_all
  moreover obtain c' where "view c' = view vals" "st_unmarshal_entries st (st_len st vals) ?rb3 =
      (Ok c', advance (length (ec (rendian rb) vals)) ?rb3)"
    using entries_unmarshal [OF assms(1), of ?rb3 bs] assms(4) by auto
  ultimately show ?thesis
    using assms(2,4) u
    by (intro exI [of _ "?a + ?b + ?c + length (ec (rendian rb) vals)"] exI [of _ c'])
      (simp add: rc_unmarshal_def Let_def check_count_def rbind_def rmap_def add.assoc)
qed

lemma marshal_full_enc:
  assumes "stored (rvalues r)" and "st_len st (rvalues r) < 2 ^ 32"
  shows "marshal_full st r wb = Some (write_bytes (vlq32_bytes 0 @ hub_seq_enc (last_modified r)
    @ vlq32_bytes (of_nat (st_len st (rvalues r))) @ ec (wendian wb) (rvalues r)) wb)"
  using assms
  by (simp add: marshal_full_def vlq32.marshal_enc hub_seq_marshal_enc marshal_wire_count_def
      entries_marshal write_bytes_def)

end

interpretation u32_vec_delta: live_entries "change_ok (\<lambda>_. True) (\<lambda>_. True)" is_live
  "emit_change (vec_storage vlq64_codec u32_codec 0) vals"
  "change_enc (\<lambda>_. vlq64_bytes) bytes32 (vec_storage vlq64_codec u32_codec 0) vals" previous_sequence
  "read_change (vec_storage vlq64_codec u32_codec 0)" "\<lambda>s r. r = s \<and> normal s"
  "wire_change (vec_storage vlq64_codec u32_codec 0) vals"
  by (rule u32_vec.delta_live) (simp add: list_all_iff)

lemma push_initialize_fields [simp]:
  "rvalues (push_initialize_change r) = rvalues r"
  "last_modified (push_initialize_change r) = ValidNonSequence"
  "last_modified_marshal_full (push_initialize_change r) = last_modified_marshal_full r"
  "seq_of_last_processed_change (push_initialize_change r) = seq_of_last_processed_change r"
  "journal (push_initialize_change r) = journal r"
  "initialize_change (rflags (push_initialize_change r))"
  "\<not> pending_delta_changes (rflags (push_initialize_change r))"
  "new_network_data (rflags (push_initialize_change r)) = new_network_data (rflags r)"
  "current_changes (push_initialize_change r) =
     (if initialize_change (rflags r) then current_changes r else [])"
  by (simp_all add: push_initialize_change_def Let_def)

lemma rc_default_fields [simp]:
  "rvalues (rc_default st) = st_empty st" "last_modified (rc_default st) = Invalid"
  "current_changes (rc_default st) = []" "journal (rc_default st) = []"
  "seq_of_last_processed_change (rc_default st) = Invalid" "rflags (rc_default st) = flags_default"
  "last_modified_marshal_full (rc_default st) = Invalid"
  by (simp_all add: rc_default_def rc_new_def)

lemma wdata_fresh [simp]: "wdata (write_bytes bs (write_new e)) = bs"
  by (simp add: write_bytes_def write_new_def)

section \<open>Round trips\<close>

text \<open>Two containers for the examples.\<close>

definition sample_vec :: "(u32 list, u64, u32) rcontainer" where
  "sample_vec = rc_new (Seq 7) [10, 20, 30]"

definition sample_map :: "((u32 \<times> u8) list, u32, u8) rcontainer" where
  "sample_map = rc_new (Seq 7) [(4, 40)]"

definition sample_changes :: "(u32, u8) change list" where
  "sample_changes = [change_update 10 2 (Seq 5), add_key 4 (Seq 5), change_remove 11 (Seq 5)]"

text \<open>
  A snapshot is read back: for every storage that keeps the contract, writing a container in
  snapshot form and reading it gives the same contents (as an association for a hash map), records
  the sender's sequence number as the last full snapshot and as the last processed change, marks
  the value as an initialisation with new network data, and leaves the bytes that follow.
\<close>

lemma container_snapshot_roundtrip:
  assumes "container_storage st stored vk ek vv ev ec view"
    and "stored (rvalues r)" and "st_len st (rvalues r) \<le> cap" and "cap < 2 ^ 32"
  shows "case marshal_full st r (write_new e) of
      None \<Rightarrow> False
    | Some wb \<Rightarrow> (case rc_unmarshal st cap (read_new e (wdata wb @ rest)) of
        (Inl err, rb) \<Rightarrow> False
      | (Inr d, rb) \<Rightarrow> view (rvalues d) = view (rvalues r)
          \<and> hub_eq (last_modified_marshal_full d) (last_modified r)
          \<and> hub_eq (seq_of_last_processed_change d) (last_modified r)
          \<and> last_modified d = ValidNonSequence \<and> current_changes d = [] \<and> journal d = []
          \<and> initialize_change (rflags d) \<and> \<not> pending_delta_changes (rflags d)
          \<and> new_network_data (rflags d) \<and> remaining rb = rest)"
proof -
  let ?bs = "vlq32_bytes 0 @ hub_seq_enc (last_modified r)
    @ vlq32_bytes (of_nat (st_len st (rvalues r))) @ ec e (rvalues r)"
  have len: "st_len st (rvalues r) < 2 ^ 32" using assms(3,4) by simp
  have w: "marshal_full st r (write_new e) = Some (write_bytes ?bs (write_new e))"
    using container_storage.marshal_full_enc [OF assms(1,2) len, of "write_new e"]
    by (simp add: write_new_def)
  obtain n c' where c: "view c' = view (rvalues r)" "remaining (advance n (read_new e (?bs @ rest))) = rest"
    "rc_unmarshal st cap (read_new e (?bs @ rest)) =
      (Ok (push_initialize_change ((rc_default st)\<lparr>last_modified_marshal_full :=
         from_raw (raw_value (last_modified r)), rvalues := c',
         seq_of_last_processed_change := from_raw (raw_value (last_modified r)),
         rflags := flags_set new_network_data_flag True flags_default\<rparr>)), advance n (read_new e (?bs @ rest)))"
    using container_storage.read_snapshot [OF assms(1,2,3) len, of "read_new e (?bs @ rest)"
        "last_modified r" rest]
    by auto
  then show ?thesis
    by (simp add: w hub_eq_def)
qed

text \<open>
  A delta is read back: a non-empty list of changes whose sequence numbers are real or invalid
  (not the marker that stands for the previous one), written with the run-length elision of equal
  sequence numbers and the live-mask batches, is read as the same keys, sequence numbers and
  values, an addition as an update, and a live change without a value with the stored value or the
  default.
\<close>

lemma container_delta_roundtrip:
  assumes "container_storage st stored vk ek vv ev ec view"
    and "stored (rvalues r)" and "list_all (change_ok vk vv) chs" and "chs \<noteq> []"
    and "length chs \<le> cap" and "cap < 2 ^ 32"
  shows "case marshal_changes st chs r (write_new e) of
      None \<Rightarrow> False
    | Some wb \<Rightarrow> (case rc_unmarshal st cap (read_new e (wdata wb @ rest)) of
        (Inl err, rb) \<Rightarrow> False
      | (Inr d, rb) \<Rightarrow> current_changes d = map (wire_change st (rvalues r)) chs
          \<and> last_modified d = ValidNonSequence \<and> rvalues d = st_empty st \<and> journal d = []
          \<and> \<not> initialize_change (rflags d) \<and> pending_delta_changes (rflags d)
          \<and> new_network_data (rflags d) \<and> remaining rb = rest)"
proof -
  let ?bs = "vlq32_bytes (of_nat (length chs))
    @ batches_enc is_live (change_enc ek ev st (rvalues r) e) previous_sequence Invalid chs"
  have len: "length chs < 2 ^ 32" using assms(5,6) by simp
  have w: "marshal_changes st chs r (write_new e) = Some (write_bytes ?bs (write_new e))"
    using container_storage.marshal_changes_enc [OF assms(1,2,3) len, of "write_new e"]
    by (simp add: write_new_def)
  obtain n where c: "remaining (advance n (read_new e (?bs @ rest))) = rest"
    "rc_unmarshal st cap (read_new e (?bs @ rest)) =
      (Ok ((rc_default st)\<lparr>last_modified := ValidNonSequence, rvalues := st_empty st,
        current_changes := map (wire_change st (rvalues r)) chs,
        rflags := flags_set new_network_data_flag True flags_delta\<rparr>), advance n (read_new e (?bs @ rest)))"
    using container_storage.read_delta [OF assms(1-5) len, of "read_new e (?bs @ rest)" rest]
    by auto
  then show ?thesis
    by (simp add: w)
qed

end
