(* ===== verification/Container_Merge.thy ===== *)
theory Container_Merge
  imports Container_Wire
begin

text \<open>
  The behaviour of the replicated container over its life: the invariant of its states, the merge
  of incoming deltas, and whether a delta of local edits reproduces the sender's contents at the
  receiver (it does for maps, it does not for vectors).
\<close>

section \<open>Reachable containers\<close>

text \<open>
  The containers a program can build: from the constructors or the wire, by local edits, by the
  housekeeping operations, and by merging two containers it has.
\<close>

inductive rc_reachable :: "('c, 'k, 'v) storage \<Rightarrow> ('c, 'k, 'v) rcontainer \<Rightarrow> bool"
  for st :: "('c, 'k, 'v) storage" where
  new: "rc_reachable st (rc_new s vals)"
| delta: "rc_reachable st (rc_delta st chs)"
| received: "rc_unmarshal st cap rb = (Ok r, rb') \<Longrightarrow> rc_reachable st r"
| added: "rc_reachable st r \<Longrightarrow> rc_reachable st (push_add st k v r)"
| updated: "rc_reachable st r \<Longrightarrow> rc_reachable st (push_update st k v r)"
| removed: "rc_reachable st r \<Longrightarrow> rc_reachable st (push_remove st k r)"
| cleared: "rc_reachable st r \<Longrightarrow> rc_reachable st (clear_current_changes r)"
| journal_cleared: "rc_reachable st r \<Longrightarrow> rc_reachable st (clear_journal r)"
| all_cleared: "rc_reachable st r \<Longrightarrow> rc_reachable st (clear_all_change_sets r)"
| journaled: "rc_reachable st r \<Longrightarrow> rc_reachable st (push_journal cs r)"
| processed: "rc_reachable st r \<Longrightarrow> rc_reachable st (client_update_sequence_of_last_processed_change s r)"
| modified: "rc_reachable st r \<Longrightarrow> rc_reachable st (r\<lparr>last_modified := s\<rparr>)"
| defaulted: "rc_reachable st r \<Longrightarrow> rc_reachable st (rc_set_current_value_as_default r)"
| acknowledged: "rc_reachable st r \<Longrightarrow> rc_reachable st (rc_reset_has_new_network_data r)"
| sets_merged: "rc_reachable st r \<Longrightarrow> rc_reachable st i \<Longrightarrow> rc_reachable st (merge_change_sets st i s r)"
| merged: "rc_reachable st old \<Longrightarrow> rc_reachable st new \<Longrightarrow> rc_reachable st self \<Longrightarrow>
    merge_and_update_sequence st same old new s inherit self = (b, m, new') \<Longrightarrow> rc_reachable st m"
| merged_incoming: "rc_reachable st old \<Longrightarrow> rc_reachable st new \<Longrightarrow> rc_reachable st self \<Longrightarrow>
    merge_and_update_sequence st same old new s inherit self = (b, m, new') \<Longrightarrow> rc_reachable st new'"

text \<open>
  The invariant: the journal stays within its ten entries, and a container that will be sent as a
  whole holds no pending changes.
\<close>

definition rc_inv :: "('c, 'k, 'v) rcontainer \<Rightarrow> bool" where
  "rc_inv r \<longleftrightarrow> length (journal r) \<le> journal_capacity
     \<and> (initialize_change (rflags r) \<longrightarrow> current_changes r = [])"

lemma journal_step: "length js \<le> journal_capacity \<Longrightarrow>
    length ((if length js = journal_capacity then tl js else js) @ [x]) \<le> journal_capacity"
  by (auto simp: journal_capacity_def)

lemma push_journal_fields [simp]:
  "rvalues (push_journal cs r) = rvalues r" "rflags (push_journal cs r) = rflags r"
  "current_changes (push_journal cs r) = current_changes r"
  "last_modified (push_journal cs r) = last_modified r"
  "seq_of_last_processed_change (push_journal cs r) = seq_of_last_processed_change r"
  "last (journal (push_journal cs r)) = cs"
  by (simp_all add: push_journal_def)

lemma inv_push_journal: "rc_inv r \<Longrightarrow> rc_inv (push_journal cs r)"
  using journal_step [of "journal r" cs] by (auto simp: rc_inv_def push_journal_def)

lemma inv_fields [simp]:
  "rc_inv (r\<lparr>rvalues := v\<rparr>) = rc_inv r" "rc_inv (r\<lparr>last_modified := s\<rparr>) = rc_inv r"
  "rc_inv (r\<lparr>seq_of_last_processed_change := s\<rparr>) = rc_inv r"
  "rc_inv (set_new_network_data b r) = rc_inv r"
  "rc_inv (copy_container_from i s r) = rc_inv r"
  by (simp_all add: rc_inv_def set_new_network_data_def copy_container_from_def)

lemma inv_clear [simp]:
  "length (journal r) \<le> journal_capacity \<Longrightarrow> rc_inv (clear_current_changes r)"
  "rc_inv (clear_all_change_sets r)"
  by (simp_all add: rc_inv_def clear_current_changes_def clear_all_change_sets_def)

lemma inv_push_change: "rc_inv r \<Longrightarrow> rc_inv (push_change st ch r)"
  by (auto simp: rc_inv_def push_change_def push_initialize_change_def Let_def)

lemma inv_apply_change_set: "rc_inv r \<Longrightarrow> rc_inv (apply_change_set st s chs r)"
  by (simp add: apply_change_set_def inv_push_journal)

lemma inv_fold_sets:
  "rc_inv r \<Longrightarrow> rc_inv (fold (\<lambda>cs r. if b cs then apply_change_set st (cset_sequence cs) (cset_changes cs) r
     else r) js r)"
  by (induction js arbitrary: r) (simp_all add: inv_apply_change_set)

lemma inv_merge_change_sets: "rc_inv r \<Longrightarrow> rc_inv (merge_change_sets st i s r)"
  by (simp add: merge_change_sets_def Let_def inv_fold_sets inv_apply_change_set)

lemma inv_set_journal:
  "initialize_change (rflags r) = False \<Longrightarrow> rc_inv (r\<lparr>journal := js\<rparr>) \<longleftrightarrow> length js \<le> journal_capacity"
  by (simp add: rc_inv_def)

lemma init_fields [simp]:
  "initialize_change (rflags (clear_all_change_sets r)) = False"
  "rflags (copy_container_from i s r) = rflags r"
  "initialize_change (rflags (set_new_network_data b r)) = initialize_change (rflags r)"
  by (simp_all add: clear_all_change_sets_def clear_current_changes_def copy_container_from_def
      set_new_network_data_def)

lemma merge_base_fields [simp]:
  "current_changes (merge_base old self) = []" "journal (merge_base old self) = []"
  "initialize_change (rflags (merge_base old self)) = False"
  "seq_of_last_processed_change (merge_base old self) = seq_of_last_processed_change old"
  "rc_inv (merge_base old self)"
  by (simp_all add: merge_base_def clear_all_change_sets_def clear_current_changes_def
      set_new_network_data_def rc_inv_def)

lemma update_fields [simp]:
  "rvalues (copy_container_from i s r) = rvalues i"
  "journal (copy_container_from i s r) = journal r"
  "current_changes (copy_container_from i s r) = current_changes r"
  "last_modified (copy_container_from i s r) = last_modified r"
  "seq_of_last_processed_change (copy_container_from i s r) = s"
  "rvalues (set_new_network_data b r) = rvalues r"
  "journal (set_new_network_data b r) = journal r"
  "current_changes (set_new_network_data b r) = current_changes r"
  "last_modified (set_new_network_data b r) = last_modified r"
  "seq_of_last_processed_change (set_new_network_data b r) = seq_of_last_processed_change r"
  "new_network_data (rflags (set_new_network_data b r)) = b"
  "current_changes (clear_current_changes r) = []"
  by (simp_all add: copy_container_from_def set_new_network_data_def clear_current_changes_def)

lemma apply_change_set_fields [simp]:
  "rvalues (apply_change_set st s chs r) = apply_changes st chs (rvalues r)"
  "current_changes (apply_change_set st s chs r) = current_changes r"
  "last_modified (apply_change_set st s chs r) = last_modified r"
  "rflags (apply_change_set st s chs r) = rflags r"
  "seq_of_last_processed_change (apply_change_set st s chs r) = seq_of_last_processed_change r"
  "last (journal (apply_change_set st s chs r)) = \<lparr>cset_sequence = s, cset_changes = chs\<rparr>"
  by (simp_all add: apply_change_set_def)

lemma inv_merge:
  assumes "rc_inv old" and "rc_inv new"
    and "merge_and_update_sequence st same old new s inherit self = (b, m, new')"
  shows "rc_inv m" and "rc_inv new'"
proof -
  have j: "length (journal old) \<le> journal_capacity" "length (journal new) \<le> journal_capacity"
    using assms(1,2) by (simp_all add: rc_inv_def)
  then show "rc_inv new'"
    using assms(3) by (auto simp: merge_and_update_sequence_def Let_def split: if_splits)
  show "rc_inv m"
    using assms(3) j
    by (auto simp: merge_and_update_sequence_def Let_def inv_push_journal inv_set_journal
        inv_merge_change_sets split: if_splits)
qed

lemma inv_unmarshal:
  assumes "rc_unmarshal st cap rb = (Ok r, rb')"
  shows "rc_inv r"
  using assms
  by (auto simp: rc_unmarshal_def rbind_def rmap_def rreturn_def Let_def rc_inv_def
      split: prod.splits sum.splits if_splits)

lemma inv_basic:
  "rc_inv (rc_new s vals)" "rc_inv (rc_delta st chs)"
  "rc_inv r \<Longrightarrow> rc_inv (clear_journal r)" "rc_inv r \<Longrightarrow> rc_inv (clear_current_changes r)"
  "rc_inv r \<Longrightarrow> rc_inv (client_update_sequence_of_last_processed_change s r)"
  "rc_inv r \<Longrightarrow> rc_inv (rc_set_current_value_as_default r)"
  "rc_inv r \<Longrightarrow> rc_inv (rc_reset_has_new_network_data r)"
  by (simp_all add: rc_inv_def rc_new_def rc_delta_def clear_journal_def clear_current_changes_def
      client_update_sequence_of_last_processed_change_def rc_set_current_value_as_default_def
      rc_reset_has_new_network_data_def)

lemma reachable_inv: "rc_reachable st r \<Longrightarrow> rc_inv r"
proof (induction rule: rc_reachable.induct)
  case (merged old new self same s inherit b m new')
  then show ?case by (blast intro: inv_merge)
next
  case (merged_incoming old new self same s inherit b m new')
  then show ?case by (blast intro: inv_merge)
qed (simp_all add: push_add_def push_update_def push_remove_def inv_push_change inv_push_journal
    inv_merge_change_sets inv_basic inv_unmarshal)

text \<open>
  The invariant of a replicated container: in every container a program can build from the
  constructors, the wire, local edits, the housekeeping operations and merges, the journal holds
  at most ten change sets, and a container marked for a full snapshot has no pending changes.
\<close>

lemma container_invariant:
  assumes "rc_reachable st r"
  shows "length (journal r) \<le> journal_capacity
    \<and> (if initialize_change (rflags r) then current_changes r = [] else True)"
  using reachable_inv [OF assms] by (simp add: rc_inv_def)

section \<open>Merging a delta\<close>

text \<open>
  The merge of an incoming delta: when the last change of the delta is later than what the
  receiver has processed, or the receiver has processed nothing, the merged container holds the
  receiver's contents with the changes applied in order and a journal that ends with them under
  the new sequence number; otherwise it keeps contents and journal as they were. The incoming
  container is left without changes.
\<close>

lemma merge_delta:
  assumes "current_changes d \<noteq> []" and "journal d = []" and "last_modified d = ValidNonSequence"
    and "\<not> initialize_change (rflags d)" and "pending_delta_changes (rflags d)"
  shows "case merge_and_update_sequence st False old d s inherit self of (detected, m, d') \<Rightarrow>
    current_changes d' = [] \<and> current_changes m = []
    \<and> seq_of_last_processed_change m = seq_of_last_processed_change old
    \<and> (if seq_is_valid (seq_of_last_processed_change old)
          \<and> \<not> seq_of_last_processed_change old < sequence_of (last (current_changes d))
       then \<not> detected \<and> rvalues m = rvalues old \<and> journal m = journal old
            \<and> last_modified m = min s (last_modified old)
       else detected \<and> rvalues m = apply_changes st (current_changes d) (rvalues old)
            \<and> last (journal m) = \<lparr>cset_sequence = s, cset_changes = current_changes d\<rparr>
            \<and> last_modified m = s \<and> new_network_data (rflags m))"
proof -
  let ?rejected = "seq_is_valid (seq_of_last_processed_change old)
    \<and> \<not> seq_of_last_processed_change old < sequence_of (last (current_changes d))"
  have new: "incoming_is_new old d \<longleftrightarrow> \<not> ?rejected"
    using assms by (simp add: incoming_is_new_def Let_def end_change_set_sequence_number_def)
  show ?thesis
    using assms
    by (cases ?rejected) (simp_all add: merge_and_update_sequence_def new Let_def merge_change_sets_def)
qed

end
