(* ===== verification/Container_Edits.thy ===== *)
theory Container_Edits
  imports Container_Merge
begin

text \<open>
  From a local edit to the peer: the sender edits a container through \<open>push_add\<close>, \<open>push_update\<close> and
  \<open>push_remove\<close>, writes what changed since a baseline with \<open>marshal_since\<close>, and the receiver decodes
  and merges it. For maps the receiver reaches the sender's contents, provided it has recorded no
  processed sequence number; with one recorded, the merge refuses the delta. For vectors the
  changes carry positions that later edits have moved.
\<close>

section \<open>Local edits\<close>

datatype ('k, 'v) edit = EditAdd 'k 'v | EditUpdate 'k 'v | EditRemove 'k

fun apply_edit ::
    "('c, 'k, 'v) storage \<Rightarrow> ('k, 'v) edit \<Rightarrow> ('c, 'k, 'v) rcontainer \<Rightarrow> ('c, 'k, 'v) rcontainer" where
  "apply_edit st (EditAdd k v) r = push_add st k v r"
| "apply_edit st (EditUpdate k v) r = push_update st k v r"
| "apply_edit st (EditRemove k) r = push_remove st k r"

fun edit_ok :: "('k \<Rightarrow> bool) \<Rightarrow> ('v \<Rightarrow> bool) \<Rightarrow> ('k, 'v) edit \<Rightarrow> bool" where
  "edit_ok vk vv (EditAdd k v) = (vk k \<and> vv v)"
| "edit_ok vk vv (EditUpdate k v) = (vk k \<and> vv v)"
| "edit_ok vk vv (EditRemove k) = vk k"

definition apply_edits ::
    "('c, 'k, 'v) storage \<Rightarrow> ('k, 'v) edit list \<Rightarrow> ('c, 'k, 'v) rcontainer \<Rightarrow> ('c, 'k, 'v) rcontainer" where
  "apply_edits st es r = fold (apply_edit st) es r"

lemma apply_edits_snoc: "apply_edits st (es @ [ed]) r = apply_edit st ed (apply_edits st es r)"
  by (simp add: apply_edits_def)

text \<open>The change an edit records, and the change it makes to the contents.\<close>

fun edit_record :: "('k, 'v) edit \<Rightarrow> ('k, 'v) change" where
  "edit_record (EditAdd k v) = add_key k Invalid"
| "edit_record (EditUpdate k v) = update_key k Invalid"
| "edit_record (EditRemove k) = change_remove k Invalid"

fun edit_effect :: "('k, 'v) edit \<Rightarrow> ('k, 'v) change" where
  "edit_effect (EditAdd k v) = change_add k v ValidNonSequence"
| "edit_effect (EditUpdate k v) = change_update k v ValidNonSequence"
| "edit_effect (EditRemove k) = change_remove k ValidNonSequence"

lemma apply_edit_eq:
  "apply_edit st ed r =
     push_change st (edit_record ed) (r\<lparr>rvalues := st_apply_change st (edit_effect ed) (rvalues r)\<rparr>)"
  by (cases ed) (simp_all add: push_add_def push_update_def push_remove_def)

lemma push_change_fields [simp]:
  "rvalues (push_change st ch r) = rvalues r" "journal (push_change st ch r) = journal r"
  "last_modified (push_change st ch r) = ValidNonSequence"
  "initialize_change (rflags r) \<Longrightarrow> initialize_change (rflags (push_change st ch r))"
  "\<not> pending_delta_changes (rflags (push_change st ch r))"
  by (simp_all add: push_change_def push_initialize_change_def Let_def)

lemma push_change_records:
  "\<not> initialize_change (rflags (push_change st ch r)) \<Longrightarrow>
     current_changes (push_change st ch r) = current_changes r @ [ch] \<and> \<not> initialize_change (rflags r)"
  by (auto simp: push_change_def push_initialize_change_def Let_def split: if_splits)

lemma apply_edit_fields:
  "rvalues (apply_edit st ed r) = st_apply_change st (edit_effect ed) (rvalues r)"
  "journal (apply_edit st ed r) = journal r"
  "\<not> initialize_change (rflags (apply_edit st ed r)) \<Longrightarrow>
     current_changes (apply_edit st ed r) = current_changes r @ [edit_record ed]
     \<and> \<not> initialize_change (rflags r)"
  using push_change_records [of st "edit_record ed"
      "r\<lparr>rvalues := st_apply_change st (edit_effect ed) (rvalues r)\<rparr>"]
  by (simp_all add: apply_edit_eq)

lemma apply_edits_journal [simp]: "journal (apply_edits st es r) = journal r"
  by (induction es rule: rev_induct) (simp_all add: apply_edits_snoc apply_edit_fields, simp add: apply_edits_def)

lemma apply_edits_records:
  "\<not> initialize_change (rflags (apply_edits st es r)) \<Longrightarrow>
     current_changes (apply_edits st es r) = current_changes r @ map edit_record es"
proof (induction es rule: rev_induct)
  case (snoc ed es)
  then show ?case
    using apply_edit_fields(3) [of st ed "apply_edits st es r"] by (simp add: apply_edits_snoc)
qed (simp add: apply_edits_def)

lemma edit_record_simps [simp]:
  "value_of (edit_record ed) = None" "sequence_of (edit_record ed) = Invalid"
  by (cases ed; simp add: add_key_def update_key_def change_remove_def)+

section \<open>Replaying on a map\<close>

abbreviation last_change :: "'k \<Rightarrow> ('k, 'v) change list \<Rightarrow> ('k, 'v) change option" where
  "last_change k chs \<equiv> find (\<lambda>ch. key_of ch = k) (rev chs)"

lemma map_apply_change_lookup:
  "map_of (map_apply_change (change_delta k v s) m) k' =
     (if k' = k then v else map_of m k')"
  by (cases v) (auto simp: map_apply_change_def change_delta_def change_update_def change_remove_def
      map_insert_def update_conv' delete_conv')

lemma edit_effect_lookup:
  "map_of (map_apply_change (edit_effect ed) m) k =
     (if k = key_of (edit_record ed)
      then (case ed of EditAdd _ v \<Rightarrow> Some v | EditUpdate _ v \<Rightarrow> Some v | EditRemove _ \<Rightarrow> None)
      else map_of m k)"
  by (cases ed) (auto simp: map_apply_change_def change_add_def change_update_def change_remove_def
      map_insert_def update_conv' delete_conv' add_key_def update_key_def)

text \<open>After replaying a list of changes, a key has what the last change on it says.\<close>

lemma replay_lookup:
  "map_of (fold map_apply_change
       (map (\<lambda>ch. change_delta (key_of ch) (if is_live ch then Some (g ch) else None) (sequence_of ch)) chs)
       base) k =
     (case last_change k chs of
        None \<Rightarrow> map_of base k
      | Some ch \<Rightarrow> if is_live ch then Some (g ch) else None)"
  by (induction chs rule: rev_induct) (auto simp: map_apply_change_lookup)

text \<open>The records of a list of edits say which keys changed and which of them are still there.\<close>

lemma edits_lookup:
  assumes "st_apply_change st = map_apply_change"
  shows "case last_change k (map edit_record es) of
      None \<Rightarrow> map_of (rvalues (apply_edits st es r)) k = map_of (rvalues r) k
    | Some ch \<Rightarrow> is_live ch = (map_of (rvalues (apply_edits st es r)) k \<noteq> None)"
proof (induction es rule: rev_induct)
  case (snoc ed es)
  have l: "map_of (rvalues (apply_edits st (es @ [ed]) r)) k =
     (if k = key_of (edit_record ed)
      then (case ed of EditAdd _ v \<Rightarrow> Some v | EditUpdate _ v \<Rightarrow> Some v | EditRemove _ \<Rightarrow> None)
      else map_of (rvalues (apply_edits st es r)) k)"
    by (simp add: apply_edits_snoc apply_edit_fields assms edit_effect_lookup)
  have "is_live (edit_record ed) = (case ed of EditRemove _ \<Rightarrow> False | _ \<Rightarrow> True)"
    by (cases ed) (simp_all add: add_key_def update_key_def change_remove_def)
  with snoc show ?case
    unfolding l by (auto split: edit.split)
qed (simp add: apply_edits_def)

lemma populate_wire:
  assumes "value_of ch = None"
  shows "wire_change st c (populate_change_value st c ch) =
    change_delta (key_of ch)
      (if is_live ch then Some (case st_change_value st c (key_of ch) of Some v \<Rightarrow> v | None \<Rightarrow> st_default st)
       else None) (sequence_of ch)"
  using assms
  by (cases ch) (auto simp: wire_change_def populate_change_value_def wire_value_def split: option.split)

lemma replay_edits:
  assumes "st_apply_change st = map_apply_change" and "st_change_value st = map_change_value"
  shows "map_of (apply_changes st
      (map (\<lambda>ch. wire_change st (rvalues (apply_edits st es r))
              (populate_change_value st (rvalues (apply_edits st es r)) ch)) (map edit_record es))
      (rvalues r)) k = map_of (rvalues (apply_edits st es r)) k"
proof -
  let ?c = "rvalues (apply_edits st es r)"
  let ?g = "\<lambda>ch. case st_change_value st ?c (key_of ch) of Some v \<Rightarrow> v | None \<Rightarrow> st_default st"
  have eq: "map (\<lambda>ch. wire_change st ?c (populate_change_value st ?c ch)) (map edit_record es) =
    map (\<lambda>ch. change_delta (key_of ch) (if is_live ch then Some (?g ch) else None) (sequence_of ch))
      (map edit_record es)"
    by (rule map_cong [OF refl]) (auto simp: populate_wire)
  have key: "key_of ch = k" if "last_change k (map edit_record es) = Some ch" for ch
    using that by (auto simp: find_Some_iff)
  show ?thesis
    unfolding eq apply_changes_def assms(1) replay_lookup
    using edits_lookup [OF assms(1), where k = k and es = es and r = r] key
    by (auto simp: assms(2) map_change_value_def split: option.splits)
qed

section \<open>The delta of a list of edits on a map\<close>

lemma set_update_subset: "set (AList.update k v m) \<subseteq> insert (k, v) (set m)"
  by (induction m) auto

lemma edit_stored:
  assumes "distinct (map fst m) \<and> list_all (entry_ok vk vv) m" and "edit_ok vk vv ed"
  shows "distinct (map fst (map_apply_change (edit_effect ed) m))
    \<and> list_all (entry_ok vk vv) (map_apply_change (edit_effect ed) m)"
proof -
  have "list_all (entry_ok vk vv) (AList.update k v m)" if "vk k" "vv v" for k v
    using assms(1) that set_update_subset [of k v m] by (auto simp: list_all_iff)
  moreover have "list_all (entry_ok vk vv) (AList.delete k m)" for k
    using assms(1) by (auto simp: list_all_iff AList.delete_eq)
  ultimately show ?thesis
    using assms
    by (cases ed) (simp_all add: map_apply_change_def change_add_def change_update_def change_remove_def
        map_insert_def distinct_update distinct_delete)
qed

lemma edits_stored:
  assumes "st_apply_change st = map_apply_change" and "list_all (edit_ok vk vv) es"
    and "distinct (map fst (rvalues r)) \<and> list_all (entry_ok vk vv) (rvalues r)"
  shows "distinct (map fst (rvalues (apply_edits st es r)))
    \<and> list_all (entry_ok vk vv) (rvalues (apply_edits st es r))"
  using assms(2)
proof (induction es rule: rev_induct)
  case (snoc ed es)
  then show ?case
    using edit_stored [of "rvalues (apply_edits st es r)" vk vv ed]
    by (simp add: apply_edits_snoc apply_edit_fields assms(1))
qed (use assms(3) in \<open>simp add: apply_edits_def\<close>)

lemma summarize_edits:
  assumes "\<not> initialize_change (rflags r)" and "current_changes r = []"
    and "list_all (\<lambda>cs. \<not> baseline < cset_sequence cs) (journal r)"
    and "summarize_changes st baseline eff (apply_edits st es r) \<noteq> []"
  shows "summarize_changes st baseline eff (apply_edits st es r) =
    map (populate_change_value st (rvalues (apply_edits st es r))) (map edit_record es)"
proof -
  have "\<not> initialize_change (rflags (apply_edits st es r))"
    using assms(4) by (auto simp: summarize_changes_def)
  moreover have "filter (\<lambda>cs. baseline < cset_sequence cs) (journal r) = []"
    using assms(3) by (auto simp: list_all_iff filter_empty_conv)
  ultimately show ?thesis
    using assms(2,4) by (auto simp: summarize_changes_def Let_def apply_edits_records split: if_splits)
qed

lemma populate_fields [simp]:
  "key_of (populate_change_value st c ch) = key_of ch"
  "sequence_of (populate_change_value st c ch) = sequence_of ch"
  by (cases ch; auto simp: populate_change_value_def split: option.split elim: option.exhaust)+

lemma populate_ok:
  assumes "container_storage st stored vk ek vv ev ec view" and "stored c"
    and "vk (key_of ch)" and "value_of ch = None" and "delta_seq (sequence_of ch)"
  shows "change_ok vk vv (populate_change_value st c ch)"
proof -
  have "vv v" if "st_change_value st c (key_of ch) = Some v" for v
    using container_storage.lookup_valid [OF assms(1,2) that] .
  with assms(3-5) have "pred_option vv (value_of (populate_change_value st c ch))"
    by (cases ch) (auto simp: populate_change_value_def split: option.split)
  with assms(3,5) show ?thesis by (simp add: change_ok_def)
qed

text \<open>
  What the receiver decodes: a delta when the baseline is valid and the summary is not empty and
  not too long, the sender's contents otherwise.
\<close>

lemma edits_decoded:
  fixes km vm d r es baseline
  defines "st \<equiv> index_map_storage km vm d"
  assumes km: "lawful_codec km vk ek" and vm: "lawful_codec vm vv ev" and d: "vv d"
    and r: "\<not> initialize_change (rflags r)" "current_changes r = []"
      "list_all (\<lambda>cs. \<not> baseline < cset_sequence cs) (journal r)"
    and stored: "distinct (map fst (rvalues r)) \<and> list_all (entry_ok vk vv) (rvalues r)"
    and es: "list_all (edit_ok vk vv) es"
    and len: "length (rvalues (apply_edits st es r)) \<le> wire_vec_cap"
  defines "sender \<equiv> apply_edits st es r"
  defines "summary \<equiv> summarize_changes st baseline efficiency_0_8 sender"
  shows "\<exists>wb i rb. marshal_since st baseline sender (write_new e) = Some wb
    \<and> rc_unmarshal st wire_vec_cap (read_new e (wdata wb)) = (Ok i, rb)
    \<and> last_modified i = ValidNonSequence \<and> journal i = []
    \<and> (if seq_is_valid baseline \<and> summary \<noteq> [] \<and> length summary < vlq_two_byte_change_limit
       then \<not> initialize_change (rflags i) \<and> pending_delta_changes (rflags i)
            \<and> current_changes i = map (wire_change st (rvalues sender)) summary
       else initialize_change (rflags i) \<and> rvalues i = rvalues sender)"
proof -
  let ?ec = "\<lambda>e m. concat (map (pair_enc ek ev e) m)"
  have cs: "container_storage st (\<lambda>m. distinct (map fst m) \<and> list_all (entry_ok vk vv) m) vk ek vv ev
      ?ec (\<lambda>m. m)"
    unfolding st_def by (rule index_map_container_storage [OF km vm d])
  have app: "st_apply_change st = map_apply_change" and slen: "st_len st = length"
    by (simp_all add: st_def index_map_storage_def)
  have st': "distinct (map fst (rvalues sender)) \<and> list_all (entry_ok vk vv) (rvalues sender)"
    unfolding sender_def by (rule edits_stored [OF app es stored])
  show ?thesis
  proof (cases "seq_is_valid baseline \<and> summary \<noteq> [] \<and> length summary < vlq_two_byte_change_limit")
    case True
    have sum: "summary = map (populate_change_value st (rvalues sender)) (map edit_record es)"
      using True r unfolding summary_def sender_def by (intro summarize_edits) auto
    have "vk (key_of (edit_record ed))" if "ed \<in> set es" for ed
      using es that by (cases ed) (auto simp: list_all_iff add_key_def update_key_def change_remove_def)
    then have ok: "list_all (change_ok vk vv) summary"
      unfolding sum using populate_ok [OF cs st']
      by (auto simp: list_all_iff delta_seq_def)
    have l: "length summary \<le> wire_vec_cap" "length summary < 2 ^ 32"
      using True by (simp_all add: vlq_two_byte_change_limit_def wire_vec_cap_def)
    let ?bs = "vlq32_bytes (of_nat (length summary))
      @ batches_enc is_live (change_enc ek ev st (rvalues sender) e) previous_sequence Invalid summary"
    have "marshal_since st baseline sender (write_new e) = Some (write_bytes ?bs (write_new e))"
      using True container_storage.marshal_changes_enc [OF cs st' ok l(2), of "write_new e"]
      by (simp add: marshal_since_def summary_def [symmetric] Let_def write_new_def)
    moreover obtain n where "rc_unmarshal st wire_vec_cap (read_new e ?bs) =
        (Ok ((rc_default st)\<lparr>last_modified := ValidNonSequence, rvalues := st_empty st,
          current_changes := map (wire_change st (rvalues sender)) summary,
          rflags := flags_set new_network_data_flag True flags_delta\<rparr>), advance n (read_new e ?bs))"
      using container_storage.read_delta [OF cs st' ok _ l, of "read_new e ?bs" "[]"] True by auto
    ultimately show ?thesis using True by simp
  next
    case False
    have l: "st_len st (rvalues sender) < 2 ^ 32" "st_len st (rvalues sender) \<le> wire_vec_cap"
      using len by (simp_all add: slen sender_def wire_vec_cap_def)
    let ?bs = "vlq32_bytes 0 @ hub_seq_enc (last_modified sender)
      @ vlq32_bytes (of_nat (st_len st (rvalues sender))) @ ?ec e (rvalues sender)"
    have "marshal_since st baseline sender (write_new e) = Some (write_bytes ?bs (write_new e))"
      using False container_storage.marshal_full_enc [OF cs st' l(1), of "write_new e"]
      by (auto simp: marshal_since_def summary_def [symmetric] Let_def write_new_def)
    moreover obtain n c' where "c' = rvalues sender" "rc_unmarshal st wire_vec_cap (read_new e ?bs) =
        (Ok (push_initialize_change ((rc_default st)\<lparr>last_modified_marshal_full :=
           from_raw (raw_value (last_modified sender)), rvalues := c',
           seq_of_last_processed_change := from_raw (raw_value (last_modified sender)),
           rflags := flags_set new_network_data_flag True flags_default\<rparr>)), advance n (read_new e ?bs))"
      using container_storage.read_snapshot [OF cs st' l(2,1), of "read_new e ?bs" "last_modified sender" "[]"]
      by auto
    ultimately show ?thesis using False by simp
  qed
qed

text \<open>A snapshot replaces the contents of a receiver that has processed nothing.\<close>

lemma merge_snapshot:
  assumes "initialize_change (rflags i)" and "last_modified i = ValidNonSequence"
    and "\<not> seq_is_valid (seq_of_last_processed_change old)"
    and "merge_and_update_sequence st False old i s inherit self = (b, m, i')"
  shows "b" and "rvalues m = rvalues i"
  using assms
  by (auto simp: merge_and_update_sequence_def incoming_is_new_def Let_def)

lemma merge_pending_delta:
  assumes "\<not> initialize_change (rflags i)" and "pending_delta_changes (rflags i)"
    and "last_modified i = ValidNonSequence" and "journal i = []" and "current_changes i \<noteq> []"
    and "merge_and_update_sequence st False old i s inherit self = (b, m, i')"
  shows "b \<longleftrightarrow> seq_is_valid (seq_of_last_processed_change old) \<longrightarrow>
      seq_of_last_processed_change old < sequence_of (last (current_changes i))"
    and "rvalues m = (if b then apply_changes st (current_changes i) (rvalues old) else rvalues old)"
proof -
  let ?rejected = "seq_is_valid (seq_of_last_processed_change old)
    \<and> \<not> seq_of_last_processed_change old < sequence_of (last (current_changes i))"
  have new: "incoming_is_new old i \<longleftrightarrow> \<not> ?rejected"
    using assms(1-5) by (simp add: incoming_is_new_def Let_def end_change_set_sequence_number_def)
  have "b = (\<not> ?rejected) \<and>
      rvalues m = (if b then apply_changes st (current_changes i) (rvalues old) else rvalues old)"
    using assms
    by (cases ?rejected)
      (auto simp: merge_and_update_sequence_def new Let_def merge_change_sets_def)
  then show "b \<longleftrightarrow> seq_is_valid (seq_of_last_processed_change old) \<longrightarrow>
      seq_of_last_processed_change old < sequence_of (last (current_changes i))"
    "rvalues m = (if b then apply_changes st (current_changes i) (rvalues old) else rvalues old)"
    by auto
qed

section \<open>Properties\<close>

text \<open>
  C3. Replication of a map to a receiver that has processed no numbered change: whatever local edits the
  sender makes since a baseline, and whichever form \<open>marshal_since\<close> chooses (a full snapshot, or a delta whose values are taken from the sender's
  contents at the end), a receiver that holds the contents of the baseline and has recorded no
  processed sequence number decodes the bytes, accepts them, and then has the sender's
  associations. The abstract operation that edit, encode, decode and merge refine is: copy the
  sender's map. A receiver that has a valid processed number refuses the delta instead, which is the
  next property.
\<close>

theorem map_edits_replicate:
  assumes "lawful_codec km vk ek" and "lawful_codec vm vv ev" and "vv d"
    and "\<not> initialize_change (rflags r)" and "current_changes r = []"
    and "list_all (\<lambda>cs. \<not> baseline < cset_sequence cs) (journal r)"
    and "distinct (map fst (rvalues r)) \<and> list_all (entry_ok vk vv) (rvalues r)"
    and "list_all (edit_ok vk vv) es"
    and "length (rvalues (apply_edits (index_map_storage km vm d) es r)) \<le> wire_vec_cap"
    and "rvalues old = rvalues r" and "\<not> seq_is_valid (seq_of_last_processed_change old)"
  shows "case marshal_since (index_map_storage km vm d) baseline
        (apply_edits (index_map_storage km vm d) es r) (write_new e) of
      None \<Rightarrow> False
    | Some wb \<Rightarrow> (case rc_unmarshal (index_map_storage km vm d) wire_vec_cap (read_new e (wdata wb)) of
        (Inl err, rb) \<Rightarrow> False
      | (Inr i, rb) \<Rightarrow>
          (case merge_and_update_sequence (index_map_storage km vm d) False old i s inherit self of
             (accepted, m, i') \<Rightarrow> accepted
               \<and> map_of (rvalues m) = map_of (rvalues (apply_edits (index_map_storage km vm d) es r))))"
proof -
  let ?st = "index_map_storage km vm d"
  let ?sender = "apply_edits ?st es r"
  let ?sum = "summarize_changes ?st baseline efficiency_0_8 ?sender"
  obtain wb i rb where w: "marshal_since ?st baseline ?sender (write_new e) = Some wb"
    and u: "rc_unmarshal ?st wire_vec_cap (read_new e (wdata wb)) = (Ok i, rb)"
    and i: "last_modified i = ValidNonSequence" "journal i = []"
    and c: "if seq_is_valid baseline \<and> ?sum \<noteq> [] \<and> length ?sum < vlq_two_byte_change_limit
       then \<not> initialize_change (rflags i) \<and> pending_delta_changes (rflags i)
            \<and> current_changes i = map (wire_change ?st (rvalues ?sender)) ?sum
       else initialize_change (rflags i) \<and> rvalues i = rvalues ?sender"
    using edits_decoded [OF assms(1-9), of e] by blast
  obtain b m i' where m: "merge_and_update_sequence ?st False old i s inherit self = (b, m, i')"
    by (metis prod.exhaust)
  have "b \<and> map_of (rvalues m) = map_of (rvalues ?sender)"
  proof (cases "initialize_change (rflags i)")
    case True
    with c merge_snapshot [OF True i(1) assms(11) m] show ?thesis by (auto split: if_splits)
  next
    case False
    with c have d: "pending_delta_changes (rflags i)" "?sum \<noteq> []"
      "current_changes i = map (wire_change ?st (rvalues ?sender)) ?sum"
      by (auto split: if_splits)
    then have ne: "current_changes i \<noteq> []" by simp
    have "rvalues m = apply_changes ?st (current_changes i) (rvalues r)" "b"
      using merge_pending_delta [OF False d(1) i ne m] assms(10,11) by auto
    moreover have "map_of (apply_changes ?st (current_changes i) (rvalues r)) = map_of (rvalues ?sender)"
      unfolding d(3) summarize_edits [OF assms(4-6) d(2)] map_map comp_def
      using replay_edits [of ?st es r, unfolded map_map comp_def]
      by (intro ext) (simp add: index_map_storage_def)
    ultimately show ?thesis by simp
  qed
  with w u m show ?thesis by simp
qed

text \<open>The example: a map of four entries, and two edits.\<close>

definition start_map :: "((u32 \<times> u8) list, u32, u8) rcontainer" where
  "start_map = clear_current_changes (rc_new (Seq 7) [(1, 10), (2, 20), (3, 30), (4, 40)])"

definition fresh_map :: "((u32 \<times> u8) list, u32, u8) rcontainer" where
  "fresh_map = rc_new (Seq 7) [(1, 10), (2, 20), (3, 30), (4, 40)]"

definition seen_map :: "((u32 \<times> u8) list, u32, u8) rcontainer" where
  "seen_map = client_update_sequence_of_last_processed_change (Seq 7) fresh_map"

definition two_edits :: "(u32, u8) edit list" where
  "two_edits = [EditUpdate 2 22, EditRemove 3]"

lemma start_map_simps [simp]:
  "\<not> initialize_change (rflags start_map)" "current_changes start_map = []" "journal start_map = []"
  "rvalues start_map = [(1, 10), (2, 20), (3, 30), (4, 40)]"
  by (simp_all add: start_map_def clear_current_changes_def rc_new_def)

lemma two_edits_values:
  "rvalues (apply_edits (index_map_storage u32_codec u8_codec 0) two_edits start_map) =
     [(1, 10), (2, 22), (4, 40)]"
  by (simp add: apply_edits_def two_edits_def push_update_def push_remove_def index_map_storage_def
      map_apply_change_def change_update_def change_remove_def map_insert_def)

lemma small_delta_efficient:
  "\<not> exceeds_efficiency (Suc (Suc 0)) (Suc (Suc (Suc 0))) efficiency_0_8"
  "\<not> exceeds_efficiency (Suc (Suc 0)) (Suc (Suc (Suc (Suc 0)))) efficiency_0_8"
  by (simp_all add: exceeds_efficiency_def efficiency_0_8_def usize_to_f32_def bit_len.simps)

lemma two_edits_summary:
  "summarize_changes (index_map_storage u32_codec u8_codec 0) (Seq 7) efficiency_0_8
     (apply_edits (index_map_storage u32_codec u8_codec 0) two_edits start_map) =
   [Update 2 (Some 22) Invalid, Remove 3 Invalid]"
  using small_delta_efficient
  by (simp add: apply_edits_def two_edits_def push_update_def push_remove_def index_map_storage_def
      map_apply_change_def change_update_def change_remove_def map_insert_def push_change_def
      summarize_changes_def populate_change_value_def map_change_value_def update_key_def
      push_initialize_change_def)

theorem map_edits_replicate_witness:
  "case marshal_since (index_map_storage u32_codec u8_codec 0) (Seq 7)
       (apply_edits (index_map_storage u32_codec u8_codec 0) two_edits start_map) (write_new BigEndian) of
     None \<Rightarrow> False
   | Some wb \<Rightarrow> (case rc_unmarshal (index_map_storage u32_codec u8_codec 0) wire_vec_cap
         (read_new BigEndian (wdata wb)) of
       (Inl err, rb) \<Rightarrow> False
     | (Inr i, rb) \<Rightarrow>
         (case merge_and_update_sequence (index_map_storage u32_codec u8_codec 0) False fresh_map i
             (Seq 8) False fresh_map of
            (accepted, m, i') \<Rightarrow> accepted \<and> map_of (rvalues m) =
              map_of (rvalues (apply_edits (index_map_storage u32_codec u8_codec 0) two_edits start_map))))"
  by (rule map_edits_replicate [OF lawful_scalars(3) lawful_scalars(1)])
    (simp_all add: two_edits_values fresh_map_def rc_new_def wire_vec_cap_def, simp_all add: two_edits_def)

text \<open>
  C29. A delta of local edits is lost on a receiver that has already processed something: the
  changes that local edits record carry an invalid sequence number, which is below every valid
  one, so the merge takes the delta for old and leaves the receiver's contents as they were.
\<close>

theorem local_delta_refused:
  assumes "lawful_codec km vk ek" and "lawful_codec vm vv ev" and "vv d"
    and "\<not> initialize_change (rflags r)" and "current_changes r = []"
    and "list_all (\<lambda>cs. \<not> baseline < cset_sequence cs) (journal r)"
    and "distinct (map fst (rvalues r)) \<and> list_all (entry_ok vk vv) (rvalues r)"
    and "list_all (edit_ok vk vv) es"
    and "length (rvalues (apply_edits (index_map_storage km vm d) es r)) \<le> wire_vec_cap"
    and "seq_is_valid baseline" and "seq_is_valid (seq_of_last_processed_change old)"
    and "summarize_changes (index_map_storage km vm d) baseline efficiency_0_8
          (apply_edits (index_map_storage km vm d) es r) \<noteq> []"
    and "length (summarize_changes (index_map_storage km vm d) baseline efficiency_0_8
          (apply_edits (index_map_storage km vm d) es r)) < vlq_two_byte_change_limit"
  shows "case marshal_since (index_map_storage km vm d) baseline
        (apply_edits (index_map_storage km vm d) es r) (write_new e) of
      None \<Rightarrow> False
    | Some wb \<Rightarrow> (case rc_unmarshal (index_map_storage km vm d) wire_vec_cap (read_new e (wdata wb)) of
        (Inl err, rb) \<Rightarrow> False
      | (Inr i, rb) \<Rightarrow>
          (case merge_and_update_sequence (index_map_storage km vm d) False old i s inherit self of
             (accepted, m, i') \<Rightarrow> \<not> accepted \<and> rvalues m = rvalues old))"
proof -
  let ?st = "index_map_storage km vm d"
  let ?sender = "apply_edits ?st es r"
  let ?sum = "summarize_changes ?st baseline efficiency_0_8 ?sender"
  obtain wb i rb where w: "marshal_since ?st baseline ?sender (write_new e) = Some wb"
    and u: "rc_unmarshal ?st wire_vec_cap (read_new e (wdata wb)) = (Ok i, rb)"
    and i: "last_modified i = ValidNonSequence" "journal i = []"
    and c: "\<not> initialize_change (rflags i)" "pending_delta_changes (rflags i)"
      "current_changes i = map (wire_change ?st (rvalues ?sender)) ?sum"
    using edits_decoded [OF assms(1-9), of e] assms(10,12,13) by auto
  obtain b m i' where m: "merge_and_update_sequence ?st False old i s inherit self = (b, m, i')"
    by (metis prod.exhaust)
  have "sequence_of (wire_change ?st v ch) = sequence_of ch" for v ch
    by (simp add: wire_change_def change_delta_def change_update_def change_remove_def)
  moreover have "es \<noteq> []" using assms(12) summarize_edits [OF assms(4-6,12)] by auto
  ultimately have "sequence_of (last (current_changes i)) = Invalid" "current_changes i \<noteq> []"
    unfolding c(3) summarize_edits [OF assms(4-6,12)] by (simp_all add: last_map)
  then have "\<not> b \<and> rvalues m = rvalues old"
    using merge_pending_delta [OF c(1,2) i _ m] assms(11) by auto
  with w u m show ?thesis by simp
qed

theorem local_delta_refused_witness:
  "case marshal_since (index_map_storage u32_codec u8_codec 0) (Seq 7)
       (apply_edits (index_map_storage u32_codec u8_codec 0) two_edits start_map) (write_new BigEndian) of
     None \<Rightarrow> False
   | Some wb \<Rightarrow> (case rc_unmarshal (index_map_storage u32_codec u8_codec 0) wire_vec_cap
         (read_new BigEndian (wdata wb)) of
       (Inl err, rb) \<Rightarrow> False
     | (Inr i, rb) \<Rightarrow>
         (case merge_and_update_sequence (index_map_storage u32_codec u8_codec 0) False seen_map i
             (Seq 8) False seen_map of
            (accepted, m, i') \<Rightarrow> \<not> accepted \<and> rvalues m = rvalues seen_map))"
  by (rule local_delta_refused [OF lawful_scalars(3) lawful_scalars(1)])
    (simp_all add: two_edits_values two_edits_summary seen_map_def fresh_map_def rc_new_def
      client_update_sequence_of_last_processed_change_def seq_is_valid_Seq wire_vec_cap_def
      vlq_two_byte_change_limit_def, simp_all add: two_edits_def)

text \<open>
  A delta of a vector can deliver wrong contents: a change records a position, and its value is
  looked up at that position when the delta is written, after later removals have shifted the
  elements. Updating the last of five elements and then removing the first makes the receiver
  store the default value in place of the update.
\<close>

lemma vector_delta_delivers_default:
  "rvalues (apply_edits (vec_storage vlq64_codec u32_codec 0) [EditUpdate 4 9, EditRemove 0]
     (clear_current_changes (rc_new (Seq 1) [1, 2, 3, 4, 5]))) = [2, 3, 4, 9]
   \<and> apply_changes (vec_storage vlq64_codec u32_codec 0)
       (map (wire_change (vec_storage vlq64_codec u32_codec 0) [2, 3, 4, 9])
          (summarize_changes (vec_storage vlq64_codec u32_codec 0) (Seq 1) efficiency_0_8
             (apply_edits (vec_storage vlq64_codec u32_codec 0) [EditUpdate 4 9, EditRemove 0]
                (clear_current_changes (rc_new (Seq 1) [1, 2, 3, 4, 5])))))
       [1, 2, 3, 4, 5] = [2, 3, 4, 0]"
  using small_delta_efficient
  by (simp add: apply_edits_def push_update_def push_remove_def vec_storage_def
      vec_apply_change_def change_update_def change_remove_def push_change_def
      summarize_changes_def populate_change_value_def vec_change_value_def update_key_def
      push_initialize_change_def clear_current_changes_def rc_new_def wire_change_def wire_value_def
      change_delta_def apply_changes_def Let_def)

end
