(* ===== verification/Carrier_Driver.thy ===== *)
theory Carrier_Driver
  imports Packing
begin

text \<open>
  \<^verbatim>\<open>carrier/carrier_thread.rs\<close> with \<^verbatim>\<open>thread_message.rs\<close> and \<^verbatim>\<open>receive_stream.rs\<close>: the task that drives
  one connection. Its state is the connection, the role, the shutdown flag, and two logs: the
  events sent to the owning task and the datagrams handed to the transport. Sends to the owning
  task are recorded whether or not it still listens, as the code ignores their result. The text of
  an error event is represented by the data it is formatted from. The debug-only datagram capture
  is left out.

  What the driver gets from outside is the argument \<open>env\<close> (the LZ4 routines, and whether the
  transport takes a datagram) and one instant per handled event. An operation is \<open>None\<close> when it
  panics or does not return; the send loop has fuel for every queued message and three more
  rounds, and \<open>send_loop_total\<close> below shows that this is enough.
\<close>

section \<open>Commands, events and state\<close>

datatype carrier_command =
    SendMessage message_data nat
  | Disconnect disconnect_reason

datatype carrier_error =
    DatagramFailed incoming_error
  | SendFailed
  | RequestVersionMismatch u32 u32
  | AckVersionMismatch u32 u32
  | DtlsFailed

datatype carrier_event =
    Connected u32
  | Disconnected disconnect_reason
  | MessageReceived u8 bytes
  | CarrierFailed carrier_error

datatype carrier_role = Initiator | Responder

record carrier_env =
  env_compress :: "bytes \<Rightarrow> bytes"
  env_decompress :: "bytes \<Rightarrow> nat \<Rightarrow> bytes option"
  env_write_ok :: "bytes \<Rightarrow> bool"

record carrier_driver =
  thread_conn :: connection_state
  role :: carrier_role
  shutdown_flag :: bool
  to_main :: "carrier_event list"
  written :: "bytes list"

definition driver_new :: "connection_state \<Rightarrow> carrier_role \<Rightarrow> carrier_driver" where
  "driver_new cs r =
     \<lparr>thread_conn = cs, role = r, shutdown_flag = False, to_main = [], written = []\<rparr>"

definition notify :: "carrier_event \<Rightarrow> carrier_driver \<Rightarrow> carrier_driver" where
  "notify ev d = d\<lparr>to_main := to_main d @ [ev]\<rparr>"

section \<open>Sending\<close>

fun send_loop :: "carrier_env \<Rightarrow> instant \<Rightarrow> nat \<Rightarrow> carrier_driver \<Rightarrow> carrier_driver option" where
  "send_loop env now 0 d = None"
| "send_loop env now (Suc fuel) d =
     (case prepare_outgoing_datagram (env_compress env) now max_datagram_size (thread_conn d) of
        None \<Rightarrow> None
      | Some (Inr (Some datagram), cs) \<Rightarrow>
          if env_write_ok env datagram
          then send_loop env now fuel (d\<lparr>thread_conn := cs, written := written d @ [datagram]\<rparr>)
          else Some (notify (CarrierFailed SendFailed) (d\<lparr>thread_conn := cs\<rparr>))
      | Some (Inr None, cs) \<Rightarrow> Some (d\<lparr>thread_conn := cs\<rparr>)
      | Some (Inl e, cs) \<Rightarrow> Some (d\<lparr>thread_conn := cs\<rparr>))"

definition queued :: "connection_state \<Rightarrow> nat" where
  "queued cs = length (concat (to_send cs))"

definition send_pending_data :: "carrier_env \<Rightarrow> instant \<Rightarrow> carrier_driver \<Rightarrow> carrier_driver option" where
  "send_pending_data env now d = send_loop env now (queued (thread_conn d) + 3) d"

section \<open>System messages and delivery\<close>

definition handle_system_message :: "bytes \<Rightarrow> carrier_driver \<Rightarrow> carrier_driver" where
  "handle_system_message data d =
     (if data = [] then d
      else let msg_id = last data; body = butlast data; expected = protocol_version (thread_conn d) in
        if msg_id = sm_connect_request \<and> length data \<ge> 5 \<and> role d = Responder then
          (case fst (read_u32 (read_carrier body)) of
             Inl _ \<Rightarrow> d
           | Inr version \<Rightarrow>
               if version \<noteq> expected
               then notify (CarrierFailed (RequestVersionMismatch version expected)) d
               else notify (Connected version)
                      (d\<lparr>thread_conn := (queue_connect_ack (thread_conn d))\<lparr>cs_is_connecting := False\<rparr>\<rparr>))
        else if msg_id = 0x02 \<and> length data \<ge> 5 then
          (case fst (read_u32 (read_carrier body)) of
             Inl _ \<Rightarrow> d
           | Inr version \<Rightarrow>
               if version = expected
               then notify (Connected version) (d\<lparr>thread_conn := (thread_conn d)\<lparr>cs_is_connecting := False\<rparr>\<rparr>)
               else notify (CarrierFailed (AckVersionMismatch version expected)) d)
        else if msg_id = 0x03 then
          let raw_reason = res_ok (fst (read_u8 (read_carrier body)));
              reason = (case Option.bind raw_reason disconnect_reason_try_from of
                          Some r \<Rightarrow> r | None \<Rightarrow> BadPackets)
          in (notify (Disconnected reason) d)\<lparr>shutdown_flag := True\<rparr>
        else d)"

text \<open>
  \<open>poll_next\<close>. The inboxes are an array of \<open>MAX_CHANNELS\<close> queues, so the second condition says no
  more than the first on the states of the program; it makes the model total on the others.
\<close>

definition stream_next :: "nat \<Rightarrow> connection_state \<Rightarrow> message_data option \<times> connection_state" where
  "stream_next ch cs = (if ch < max_channels \<and> ch < length (to_receive cs) then pop_ready_message ch cs else (None, cs))"

definition forward_message :: "nat \<Rightarrow> message_data \<Rightarrow> carrier_driver \<Rightarrow> carrier_driver" where
  "forward_message ch m d =
     (if of_nat ch = system_channel then handle_system_message (mdata m) d
      else notify (MessageReceived (of_nat ch) (mdata m)) d)"

lemma handle_system_message_inbox [simp]:
  "to_receive (thread_conn (handle_system_message data d)) = to_receive (thread_conn d)"
  by (auto simp: handle_system_message_def Let_def notify_def queue_connect_ack_def split: sum.split)

lemma forward_message_inbox [simp]:
  "to_receive (thread_conn (forward_message ch m d)) = to_receive (thread_conn d)"
  by (simp add: forward_message_def notify_def)

text \<open>The loop over one channel ends because each round takes a message from its inbox.\<close>

function forward_channel :: "nat \<Rightarrow> carrier_driver \<Rightarrow> carrier_driver" where
  "forward_channel ch d =
     (case stream_next ch (thread_conn d) of
        (None, _) \<Rightarrow> d
      | (Some m, cs) \<Rightarrow> forward_channel ch (forward_message ch m (d\<lparr>thread_conn := cs\<rparr>)))"
  by pat_completeness auto
termination
  by (relation "measure (\<lambda>(ch, d). length (to_receive (thread_conn d) ! ch))")
    (auto simp: stream_next_def pop_ready_message_def split: list.splits if_splits)

declare forward_channel.simps [simp del]

definition forward_messages :: "carrier_driver \<Rightarrow> carrier_driver" where
  "forward_messages d = fold forward_channel [0..<max_channels] d"

section \<open>Event handlers\<close>

text \<open>The outcome of a transport read: a datagram, a retryable error, or a fatal one.\<close>

datatype read_result = ReadData bytes | ReadRetryable | ReadFatal

text \<open>The first component is the \<open>Err(true)\<close> of the source: leave the loop.\<close>

definition handle_network_data ::
    "carrier_env \<Rightarrow> instant \<Rightarrow> read_result \<Rightarrow> carrier_driver \<Rightarrow> (bool \<times> carrier_driver) option" where
  "handle_network_data env now r d =
     (case r of
        ReadData plaintext \<Rightarrow>
          (case process_incoming_datagram (env_decompress env) now plaintext (thread_conn d) of
             None \<Rightarrow> None
           | Some (Inr _, cs) \<Rightarrow> Some (False, d\<lparr>thread_conn := cs\<rparr>)
           | Some (Inl e, cs) \<Rightarrow>
               Some (False, notify (CarrierFailed (DatagramFailed e)) (d\<lparr>thread_conn := cs\<rparr>)))
      | ReadRetryable \<Rightarrow> Some (False, d)
      | ReadFatal \<Rightarrow> Some (True, notify (CarrierFailed DtlsFailed) d))"

text \<open>The batch drain over what \<open>try_recv\<close> returns; the list ends where it has no more packets.\<close>

datatype try_recv_result = Received bytes | RecvFailed

fun drain_batch ::
    "carrier_env \<Rightarrow> instant \<Rightarrow> try_recv_result list \<Rightarrow> carrier_driver \<Rightarrow> carrier_driver option" where
  "drain_batch env now [] d = Some d"
| "drain_batch env now (RecvFailed # rs) d = Some d"
| "drain_batch env now (Received plaintext # rs) d =
     (case handle_network_data env now (ReadData plaintext) d of
        None \<Rightarrow> None
      | Some (stop, d') \<Rightarrow> if stop then Some d' else drain_batch env now rs d')"

definition disconnect_message :: "disconnect_reason \<Rightarrow> message_data" where
  "disconnect_message reason =
     message_new\<lparr>channel := system_channel, reliability := Unreliable,
       mdata := [disconnect_reason_to_u8 reason, 0x03]\<rparr>"

text \<open>\<open>handle_command\<close>: the flag says that the loop ends.\<close>

definition handle_command ::
    "carrier_env \<Rightarrow> instant \<Rightarrow> carrier_command \<Rightarrow> carrier_driver \<Rightarrow> (bool \<times> carrier_driver) option" where
  "handle_command env now msg d =
     (case msg of
        SendMessage m priority \<Rightarrow>
          (case queue_message m priority (thread_conn d) of
             None \<Rightarrow> None
           | Some cs \<Rightarrow> map_option (Pair False) (send_pending_data env now (d\<lparr>thread_conn := cs\<rparr>)))
      | Disconnect reason \<Rightarrow>
          (case queue_message (disconnect_message reason) 0 (thread_conn d) of
             None \<Rightarrow> None
           | Some cs \<Rightarrow>
               map_option (\<lambda>d. (True, (notify (Disconnected reason) d)\<lparr>shutdown_flag := True\<rparr>))
                 (send_pending_data env now (d\<lparr>thread_conn := cs\<rparr>))))"

definition keepalive_message :: message_data where
  "keepalive_message = message_new\<lparr>channel := system_channel, reliability := Unreliable,
     is_connecting := True, mdata := [0x20, 0x06]\<rparr>"

definition handle_handshake_retry :: "carrier_env \<Rightarrow> instant \<Rightarrow> carrier_driver \<Rightarrow> carrier_driver option" where
  "handle_handshake_retry env now d =
     (if role d \<noteq> Initiator then Some d
      else let cs = queue_connect_request (thread_conn d);
               cs = cs\<lparr>to_send := push_back 0 keepalive_message (to_send cs)\<rparr>
        in map_option (\<lambda>d. d\<lparr>thread_conn := schedule_next_retry now (thread_conn d)\<rparr>)
             (send_pending_data env now (d\<lparr>thread_conn := cs\<rparr>)))"

definition resend_and_send :: "carrier_env \<Rightarrow> instant \<Rightarrow> carrier_driver \<Rightarrow> carrier_driver option" where
  "resend_and_send env now d =
     send_pending_data env now (d\<lparr>thread_conn := snd (process_resends now (thread_conn d))\<rparr>)"

datatype loop_event =
    NetworkData read_result "try_recv_result list"
  | Command "carrier_command option"
  | HandshakeRetry
  | AckCheck
  | Heartbeat

text \<open>One round of \<open>run\<close> after the select; the flag says that the loop is left.\<close>

definition handle_event ::
    "carrier_env \<Rightarrow> instant \<Rightarrow> loop_event \<Rightarrow> carrier_driver \<Rightarrow> (bool \<times> carrier_driver) option" where
  "handle_event env now ev d =
     (case ev of
        NetworkData r rs \<Rightarrow>
          (case handle_network_data env now r d of
             None \<Rightarrow> None
           | Some (True, d') \<Rightarrow> Some (True, d')
           | Some (False, d') \<Rightarrow>
               (case drain_batch env now rs d' of
                  None \<Rightarrow> None
                | Some d'' \<Rightarrow> map_option (Pair False) (resend_and_send env now (forward_messages d''))))
      | Command (Some msg) \<Rightarrow> handle_command env now msg d
      | Command None \<Rightarrow> Some (True, d)
      | HandshakeRetry \<Rightarrow>
          if cs_is_connecting (thread_conn d) then map_option (Pair False) (handle_handshake_retry env now d)
          else Some (False, d)
      | AckCheck \<Rightarrow> map_option (\<lambda>d. (False, forward_messages d)) (resend_and_send env now d)
      | Heartbeat \<Rightarrow> map_option (\<lambda>d. (False, forward_messages d)) (resend_and_send env now d))"

text \<open>\<open>run\<close> over the events the select produces, each with the instant it is handled at.\<close>

fun run :: "carrier_env \<Rightarrow> (instant \<times> loop_event) list \<Rightarrow> carrier_driver \<Rightarrow> carrier_driver option" where
  "run env [] d = Some d"
| "run env ((now, ev) # evs) d =
     (if shutdown_flag d then Some d
      else case handle_event env now ev d of
             None \<Rightarrow> None
           | Some (stop, d') \<Rightarrow> if stop then Some d' else run env evs d')"

section \<open>The send loop ends and empties the queues\<close>

definition fits :: "connection_state \<Rightarrow> bool" where
  "fits cs = list_all (list_all (\<lambda>m. length (mdata m) \<le> max_message_data_size)) (to_send cs)"

lemma queue_ack_effect:
  assumes "conn_ok cs" "history_ok (received_datagrams_history cs)" "queue_ack now cs = Some cs'"
  shows "\<exists>m. to_send cs' = push_back 0 m (to_send cs) \<and> length (mdata m) \<le> max_message_data_size"
    "\<not> should_send_ack now cs'"
proof -
  obtain la h wb where w: "write_ack_history (received_datagrams_history cs) write_carrier = Some (la, h, wb)"
    "length (wdata wb) \<le> 67"
    using write_ack_history_total [OF assms(2)] by metis
  show "\<exists>m. to_send cs' = push_back 0 m (to_send cs) \<and> length (mdata m) \<le> max_message_data_size"
    using assms(3) w
    by (auto simp: queue_ack_def write_ack_data_def queue_message_def queue_message_chunk_def
        carrier_consts mtu_defs Let_def split: option.splits if_splits)
  show "\<not> should_send_ack now cs'"
    using assms(3) w
    by (auto simp: queue_ack_def write_ack_data_def should_send_ack_def Let_def split: option.splits)
qed

lemma length_append_at [simp]:
  "0 < length qs \<Longrightarrow> length (concat (append_at 0 [m] qs)) = Suc (length (concat qs))"
  by (cases qs) (simp_all add: append_at_def)

lemma fits_push_back:
  "to_send cs' = push_back 0 m (to_send cs) \<Longrightarrow> length (mdata m) \<le> max_message_data_size \<Longrightarrow> fits cs \<Longrightarrow> fits cs'"
  by (cases "to_send cs") (simp_all add: fits_def append_at_def)

lemma no_messages_queued: "\<not> has_messages_to_send cs \<Longrightarrow> queued cs = 0"
  by (auto simp: has_messages_to_send_def queued_def list_ex_iff)

text \<open>One round of the send loop.\<close>

definition round_ok :: "instant \<Rightarrow> connection_state \<Rightarrow> (prepare_error + bytes option) \<Rightarrow> connection_state \<Rightarrow> bool" where
  "round_ok now cs r cs' \<longleftrightarrow> conn_ok cs' \<and> history_ok (received_datagrams_history cs') \<and> \<not> should_send_ack now cs'
     \<and> (fits cs \<longrightarrow> fits cs')
     \<and> (case r of Inr (Some dg) \<Rightarrow> queued cs' < queued cs + (if should_send_ack now cs then 1 else 0)
        | _ \<Rightarrow> fits cs \<longrightarrow> queued cs' = 0)"

lemma generate_round:
  assumes "conn_ok cs" "history_ok (received_datagrams_history cs)" "\<not> should_send_ack now cs"
    "has_messages_to_send cs"
  shows "\<exists>dg cs'. generate_datagram compress now max_datagram_size cs = Some (dg, cs') \<and> round_ok now cs (Inr dg) cs'"
proof -
  let ?s = "packer_init now (seq_next (datagram_seq_num cs))"
  obtain dg cs' where g: "generate_datagram compress now max_datagram_size cs = Some (dg, cs')"
    "received_datagrams_history cs' = received_datagrams_history cs"
    using generate_datagram_total [OF assms(1)] by metis
  obtain ls s where pq: "pack_queues max_datagram_size 0 (to_send cs) ?s = Some (ls, s)"
    using g(1) by (auto simp: generate_datagram_def Let_def split: option.splits)
  have e: "to_send cs' = ls" "should_send_ack now cs' = should_send_ack now cs"
    using g(1) pq by (auto simp: generate_datagram_def should_send_ack_def Let_def split: if_splits)
  have f: "fits cs \<longrightarrow> fits cs'"
    using pack_queues_left_all [OF pq] by (simp add: fits_def e(1))
  obtain m rest where m: "concat (to_send cs) = m # rest"
    using assms(4) by (cases "concat (to_send cs)") (auto simp: has_messages_to_send_def list_ex_iff)
  then have "m \<in> set (concat (to_send cs))" by simp
  then have "fits cs \<longrightarrow> length (mdata m) \<le> max_message_data_size" by (auto simp: fits_def list_all_iff)
  then have "fits cs \<longrightarrow> dg \<noteq> None"
    using generate_progress [OF assms(1) m _ order.refl, of compress now] g(1) by auto
  moreover have "queued cs' < queued cs" if "dg = Some x" for x
    using generated_datagram_shrinks [of compress now max_datagram_size cs x cs'] g(1) that by (simp add: queued_def)
  ultimately have "round_ok now cs (Inr dg) cs'"
    using f e assms g(2) conn_ok_generate [OF assms(1) g(1)]
    by (auto simp: round_ok_def split: option.split)
  then show ?thesis using g(1) by metis
qed

lemma prepare_round:
  assumes "conn_ok cs" "history_ok (received_datagrams_history cs)"
  shows "\<exists>r cs'. prepare_outgoing_datagram compress now max_datagram_size cs = Some (r, cs') \<and> round_ok now cs r cs'"
proof -
  obtain cs1 where c: "(if should_send_ack now cs then queue_ack now cs else Some cs) = Some cs1"
    "conn_ok cs1" "history_ok (received_datagrams_history cs1)"
    using queue_ack_total [OF assms] assms by (cases "should_send_ack now cs") auto
  have a: "\<not> should_send_ack now cs1" "fits cs \<longrightarrow> fits cs1"
    "queued cs1 = queued cs + (if should_send_ack now cs then 1 else 0)"
    using queue_ack_effect [OF assms, of now cs1] c(1) fits_push_back [of cs1 _ cs] assms(1)
    by (auto simp: queued_def conn_ok_def carrier_consts split: if_splits)
  show ?thesis
  proof (cases "has_messages_to_send cs1")
    case True
    then obtain dg cs' where "generate_datagram compress now max_datagram_size cs1 = Some (dg, cs')"
      "round_ok now cs1 (Inr dg) cs'"
      using generate_round [OF c(2,3) a(1)] by metis
    then show ?thesis
      using c(1) a True
      by (auto simp: prepare_outgoing_datagram_def round_ok_def mtu_defs split: option.splits)
  next
    case False
    then show ?thesis
      using c a no_messages_queued [OF False] by (simp add: prepare_outgoing_datagram_def round_ok_def)
  qed
qed

lemma send_loop_total:
  assumes "conn_ok (thread_conn d)" "history_ok (received_datagrams_history (thread_conn d))"
    "queued (thread_conn d) + (if should_send_ack now (thread_conn d) then 1 else 0) < fuel"
  shows "\<exists>d'. send_loop env now fuel d = Some d' \<and> conn_ok (thread_conn d')
    \<and> history_ok (received_datagrams_history (thread_conn d'))
    \<and> ((\<forall>b. env_write_ok env b) \<and> fits (thread_conn d) \<longrightarrow>
         queued (thread_conn d') = 0 \<and> to_main d' = to_main d \<and> shutdown_flag d' = shutdown_flag d)"
  using assms
proof (induction fuel arbitrary: d)
  case (Suc fuel)
  let ?cs = "thread_conn d"
  obtain r cs' where r: "prepare_outgoing_datagram (env_compress env) now max_datagram_size ?cs = Some (r, cs')"
    "round_ok now ?cs r cs'"
    using prepare_round [OF Suc.prems(1,2)] by metis
  show ?case
  proof (cases "\<exists>dg. r = Inr (Some dg) \<and> env_write_ok env dg")
    case True
    then obtain dg where dg: "r = Inr (Some dg)" "env_write_ok env dg" by blast
    let ?d = "d\<lparr>thread_conn := cs', written := written d @ [dg]\<rparr>"
    have "queued cs' + (if should_send_ack now cs' then 1 else 0) < fuel"
      using r(2) dg(1) Suc.prems(3) by (simp add: round_ok_def split: if_splits)
    then show ?thesis
      using Suc.IH [of ?d] r dg by (simp add: round_ok_def) blast
  next
    case False
    then show ?thesis
      using r by (auto simp: round_ok_def notify_def split: sum.splits option.splits)
  qed
qed simp






lemma driver_new_simps [simp]:
  "thread_conn (driver_new cs r) = cs" "role (driver_new cs r) = r" "to_main (driver_new cs r) = []"
  "shutdown_flag (driver_new cs r) = False"
  by (simp_all add: driver_new_def)


section \<open>Handshake and disconnect\<close>

lemma read_carrier_u32 [simp]: "fst (read_u32 (read_carrier (be_bytes32 v @ bs))) = Inr v"
  using read_u32_enc [of "read_carrier (be_bytes32 v @ bs)" v bs]
  by (simp add: read_carrier_def read_new_def remaining_def carrier_endian_def bytes32_def)

lemmas read_carrier_u32_end [simp] = read_carrier_u32 [where bs = "[]", simplified]

lemma request_payload [simp]:
  "butlast (make_connect_request_payload cs) =
     be_bytes32 (protocol_version cs) @ replicate (unat (handshake_num_retries cs)) 0x01"
  "make_connect_request_payload cs \<noteq> []" "last (make_connect_request_payload cs) = sm_connect_request"
  "length (make_connect_request_payload cs) = 5 + unat (handshake_num_retries cs)"
  by (simp_all add: make_connect_request_payload_def butlast_append be_bytes32_def)

definition connect_ack_payload :: "u32 \<Rightarrow> bytes" where
  "connect_ack_payload v = be_bytes32 v @ [sm_connect_ack]"

lemma handle_connect_request:
  "role d = Responder \<Longrightarrow> handle_system_message (make_connect_request_payload cs) d =
     (if protocol_version cs = protocol_version (thread_conn d)
      then notify (Connected (protocol_version cs))
             (d\<lparr>thread_conn := (queue_connect_ack (thread_conn d))\<lparr>cs_is_connecting := False\<rparr>\<rparr>)
      else notify (CarrierFailed (RequestVersionMismatch (protocol_version cs) (protocol_version (thread_conn d)))) d)"
  by (simp add: handle_system_message_def)

lemma handle_connect_ack:
  "handle_system_message (connect_ack_payload v) d =
     (if v = protocol_version (thread_conn d)
      then notify (Connected v) (d\<lparr>thread_conn := (thread_conn d)\<lparr>cs_is_connecting := False\<rparr>\<rparr>)
      else notify (CarrierFailed (AckVersionMismatch v (protocol_version (thread_conn d)))) d)"
proof -
  have "length (connect_ack_payload v) = 5" "last (connect_ack_payload v) = 2" "connect_ack_payload v \<noteq> []"
    "butlast (connect_ack_payload v) = be_bytes32 v"
    by (simp_all add: connect_ack_payload_def carrier_consts be_bytes32_def)
  then show ?thesis by (simp add: handle_system_message_def carrier_consts)
qed

lemma queue_connect_ack_reply:
  "conn_ok cs \<Longrightarrow> to_send (queue_connect_ack cs) ! 0 =
     to_send cs ! 0 @ [connecting_message (connect_ack_payload (protocol_version cs))]"
  by (simp add: queue_connect_ack_def append_at_def conn_ok_def carrier_consts connect_ack_payload_def)

text \<open>
  A connect request of an initiator of the same protocol version connects the responder, which
  queues one reply on the system channel; the reply connects the initiator. With another version
  the responder reports both versions and changes nothing else.
\<close>

lemma handshake_completes:
  assumes "role resp = Responder" "conn_ok (thread_conn resp)"
  shows "let v = protocol_version (thread_conn init); expected = protocol_version (thread_conn resp);
       resp' = handle_system_message (make_connect_request_payload (thread_conn init)) resp;
       reply = last (to_send (thread_conn resp') ! 0);
       init' = handle_system_message (mdata reply) init
     in if v = expected then
          to_main resp' = to_main resp @ [Connected v] \<and> \<not> cs_is_connecting (thread_conn resp')
          \<and> to_send (thread_conn resp') ! 0 = to_send (thread_conn resp) ! 0 @ [reply] \<and> channel reply = system_channel
          \<and> to_main init' = to_main init @ [Connected v] \<and> \<not> cs_is_connecting (thread_conn init')
        else resp' = notify (CarrierFailed (RequestVersionMismatch v expected)) resp"
  using assms queue_connect_ack_reply [OF assms(2)]
  by (simp add: handle_connect_request Let_def notify_def connecting_message_def handle_connect_ack)

lemma queue_disconnect:
  assumes "conn_ok cs" "history_ok (received_datagrams_history cs)" "fits cs"
  shows "\<exists>cs'. queue_message (disconnect_message reason) 0 cs = Some cs' \<and> conn_ok cs'
    \<and> history_ok (received_datagrams_history cs') \<and> fits cs'"
proof -
  obtain cs' m where q: "queue_message (disconnect_message reason) 0 cs = Some cs'"
    "to_send cs' = push_back 0 m (to_send cs)" "mdata m = mdata (disconnect_message reason)"
    "received_datagrams_history cs' = received_datagrams_history cs"
    by (auto simp: queue_message_def queue_message_chunk_def disconnect_message_def carrier_consts mtu_defs Let_def)
  moreover have "length (mdata m) \<le> max_message_data_size"
    unfolding q(3) by (simp add: disconnect_message_def mtu_defs)
  ultimately show ?thesis
    using conn_ok_queue_message [OF assms(1) q(1)] fits_push_back [of cs' m cs] assms(2,3) by auto
qed

lemma handle_disconnect:
  "handle_system_message (mdata (disconnect_message reason)) d = (notify (Disconnected reason) d)\<lparr>shutdown_flag := True\<rparr>"
proof -
  have "fst (read_u8 (read_carrier [disconnect_reason_to_u8 reason])) = Inr (disconnect_reason_to_u8 reason)"
    by (simp add: read_u8_def read_carrier_def read_new_def)
  then show ?thesis
    by (simp add: handle_system_message_def disconnect_message_def carrier_consts)
qed

text \<open>
  Disconnecting flushes what is queued, tells the owning task the reason, ends the loop and sets
  the shutdown flag; a peer handed the queued notice reports the same reason and shuts down too.
\<close>

lemma disconnect_ends_both:
  assumes "conn_ok (thread_conn d)" "history_ok (received_datagrams_history (thread_conn d))"
    "fits (thread_conn d)" "\<And>b. env_write_ok env b"
  shows "(\<exists>d'. handle_command env now (Disconnect reason) d = Some (True, d')
      \<and> queued (thread_conn d') = 0 \<and> to_main d' = to_main d @ [Disconnected reason] \<and> shutdown_flag d')
    \<and> handle_system_message (mdata (disconnect_message reason)) peer =
        (notify (Disconnected reason) peer)\<lparr>shutdown_flag := True\<rparr>"
proof -
  obtain cs' where q: "queue_message (disconnect_message reason) 0 (thread_conn d) = Some cs'"
    "conn_ok cs'" "history_ok (received_datagrams_history cs')" "fits cs'"
    using queue_disconnect [OF assms(1-3)] by metis
  let ?n = "queued cs' + 3"
  have "queued cs' + (if should_send_ack now cs' then 1 else 0) < ?n" by simp
  then obtain d' where "send_loop env now ?n (d\<lparr>thread_conn := cs'\<rparr>) = Some d'"
    "queued (thread_conn d') = 0 \<and> to_main d' = to_main d"
    using send_loop_total [of "d\<lparr>thread_conn := cs'\<rparr>" now ?n env] q assms(4) by auto
  then show ?thesis
    using q(1) by (simp add: handle_command_def send_pending_data_def notify_def handle_disconnect)
qed

section \<open>A request that no longer fits\<close>

lemma first_frame_plan:
  "unat (channel m) < max_channels \<Longrightarrow> fst (plan_frame m out_ctx_init) = (True, True, channel m \<noteq> 0)"
  by (simp add: plan_frame_def out_ctx_init_def Let_def)

lemma pack_queue_blocked:
  assumes "channel m = system_channel" "length (mdata m) + 8 > mx - datagram_header_size" "num_chunks m \<le> 1"
  obtains s' where "pack_queue mx p (m # q) (packer_init now sn) = Some (m # q, s')"
proof -
  obtain ws wr wc c where pf: "plan_frame m out_ctx_init = ((ws, wr, wc), c)" by (metis prod.exhaust)
  then have "ws" "wr" "wc"
    using first_frame_plan [of m] assms(1) by (simp_all add: carrier_consts)
  then show ?thesis
    using assms that pf by (auto simp: message_header_size_def carrier_consts)
qed

text \<open>
  The connect request grows by one byte per retry and the retries have no limit. From 1113
  retries on the request fits no datagram, and it holds up what is queued behind it on the first
  priority, ACKs and disconnect notices included: every datagram leaves that queue as it was.
\<close>

lemma padded_request_blocks_queue:
  assumes "conn_ok cs" "to_send cs ! 0 = connecting_message (make_connect_request_payload req) # behind"
    "unat (handshake_num_retries req) \<ge> 1113"
  shows "\<exists>dg cs'. generate_datagram compress now max_datagram_size cs = Some (dg, cs') \<and> to_send cs' ! 0 = to_send cs ! 0"
proof -
  obtain qs where qs: "to_send cs = (connecting_message (make_connect_request_payload req) # behind) # qs"
    using assms(1,2) by (cases "to_send cs") (auto simp: conn_ok_def carrier_consts)
  let ?m = "connecting_message (make_connect_request_payload req)"
  have "channel ?m = system_channel" "num_chunks ?m \<le> 1" "mdata ?m = make_connect_request_payload req"
    by (simp_all add: connecting_message_def message_new_def)
  moreover have "length (make_connect_request_payload req) + 8 > max_datagram_size - datagram_header_size"
    using assms(3) by (simp add: mtu_defs)
  ultimately obtain s' where
    b: "pack_queue max_datagram_size 0 (to_send cs ! 0) (packer_init now (seq_next (datagram_seq_num cs)))
      = Some (to_send cs ! 0, s')"
    using pack_queue_blocked [of ?m max_datagram_size 0 behind now "seq_next (datagram_seq_num cs)"] assms(2) by metis
  obtain dg cs' where g: "generate_datagram compress now max_datagram_size cs = Some (dg, cs')"
    using generate_datagram_total [OF assms(1)] by metis
  then have "to_send cs' ! 0 = to_send cs ! 0"
    using b qs by (auto simp: generate_datagram_def Let_def split: option.splits if_splits)
  then show ?thesis using g by blast
qed

end
