(* ===== verification/Dtls_Records.thy ===== *)
theory Dtls_Records
  imports Prelude
begin

text \<open>
  \<^verbatim>\<open>carrier/connection_security.rs\<close>: the inspection of DTLS packets that steers the handshake. Reads are
  of a byte list; an index or a slice past the end is a panic, which the parsers rule out by their
  length checks and \<open>client_hello_details\<close> does not. The text it builds is represented by the values
  that are formatted.
\<close>

section \<open>Records\<close>

datatype record_type = ChangeCipherSpec | Alert | Handshake | ApplicationData | HeartbeatRecord

definition record_type_u8 :: "record_type \<Rightarrow> u8" where
  "record_type_u8 t = (case t of ChangeCipherSpec \<Rightarrow> 20 | Alert \<Rightarrow> 21 | Handshake \<Rightarrow> 22
     | ApplicationData \<Rightarrow> 23 | HeartbeatRecord \<Rightarrow> 24)"

datatype handshake_type =
    HelloRequest | ClientHello | ServerHello | HelloVerifyRequest | Certificate | ServerKeyExchange
  | CertificateRequest | ServerDone | CertificateVerify | ClientKeyExchange | Finished

definition handshake_type_u8 :: "handshake_type \<Rightarrow> u8" where
  "handshake_type_u8 t = (case t of HelloRequest \<Rightarrow> 0 | ClientHello \<Rightarrow> 1 | ServerHello \<Rightarrow> 2
     | HelloVerifyRequest \<Rightarrow> 3 | Certificate \<Rightarrow> 11 | ServerKeyExchange \<Rightarrow> 12 | CertificateRequest \<Rightarrow> 13
     | ServerDone \<Rightarrow> 14 | CertificateVerify \<Rightarrow> 15 | ClientKeyExchange \<Rightarrow> 16 | Finished \<Rightarrow> 20)"

definition dtls1_rt_header_length :: nat where "dtls1_rt_header_length = 13"
definition dtls1_hm_header_length :: nat where "dtls1_hm_header_length = 12"

definition be_int :: "bytes \<Rightarrow> nat" where
  "be_int bs = foldl (\<lambda>n b. n * 256 + unat b) 0 bs"

record record_header =
  rh_type :: u8
  rh_version :: u16
  rh_epoch :: u16
  rh_sequence_number :: u64
  rh_length :: u16

definition record_header_parse :: "bytes \<Rightarrow> record_header option" where
  "record_header_parse data =
     (if length data < dtls1_rt_header_length then None
      else Some \<lparr>rh_type = data ! 0, rh_version = of_nat (be_int [data ! 1, data ! 2]),
             rh_epoch = of_nat (be_int [data ! 3, data ! 4]),
             rh_sequence_number =
               of_nat (be_int [0, 0, data ! 5, data ! 6, data ! 7, data ! 8, data ! 9, data ! 10]),
             rh_length = of_nat (be_int [data ! 11, data ! 12])\<rparr>)"

record handshake_header =
  hs_type :: u8
  hs_length :: u32
  hs_sequence :: u16
  hs_fragment_offset :: u32
  hs_fragment_length :: u32

definition handshake_header_parse :: "bytes \<Rightarrow> handshake_header option" where
  "handshake_header_parse data =
     (if length data < dtls1_hm_header_length then None
      else Some \<lparr>hs_type = data ! 0, hs_length = of_nat (be_int [0, data ! 1, data ! 2, data ! 3]),
             hs_sequence = of_nat (be_int [data ! 4, data ! 5]),
             hs_fragment_offset = of_nat (be_int [0, data ! 6, data ! 7, data ! 8]),
             hs_fragment_length = of_nat (be_int [0, data ! 9, data ! 10, data ! 11])\<rparr>)"

definition rh_is_handshake :: "record_header \<Rightarrow> bool" where
  "rh_is_handshake h \<longleftrightarrow> rh_type h = record_type_u8 Handshake"

definition rh_is_application_data :: "record_header \<Rightarrow> bool" where
  "rh_is_application_data h \<longleftrightarrow> rh_type h = record_type_u8 ApplicationData"

section \<open>Packet classification\<close>

definition is_handshake :: "bytes \<Rightarrow> bool" where
  "is_handshake data = (case record_header_parse data of Some h \<Rightarrow> rh_is_handshake h | None \<Rightarrow> False)"

definition is_client_hello :: "bytes \<Rightarrow> bool" where
  "is_client_hello data \<longleftrightarrow>
     (if length data < 14 \<or> \<not> is_handshake data then False else data ! 13 = handshake_type_u8 ClientHello)"

definition extract_client_hello_random :: "bytes \<Rightarrow> bytes option" where
  "extract_client_hello_random data =
     (let random_offset = dtls1_rt_header_length + dtls1_hm_header_length + 2
      in if length data < random_offset + 32 then None else Some (take 32 (drop random_offset data)))"

definition is_hello_verify_request :: "bytes \<Rightarrow> bool" where
  "is_hello_verify_request data \<longleftrightarrow>
     (if length data < 14 \<or> \<not> is_handshake data then False
      else data ! 13 = handshake_type_u8 HelloVerifyRequest)"

definition extract_cookie_from_hvr :: "bytes \<Rightarrow> bytes option" where
  "extract_cookie_from_hvr data =
     (if \<not> is_hello_verify_request data then None
      else let off = dtls1_rt_header_length + dtls1_hm_header_length + 2 in
        if length data < off + 1 then None
        else let cookie_len = unat (data ! off) in
          if length data < off + 1 + cookie_len then None
          else Some (take cookie_len (drop (off + 1) data)))"

definition is_hello_request_handshake :: "bytes \<Rightarrow> bool" where
  "is_hello_request_handshake data \<longleftrightarrow>
     length data = 25 \<and> data ! 0 = record_type_u8 Handshake \<and> data ! 13 = handshake_type_u8 HelloRequest
     \<and> data ! 14 = 0 \<and> data ! 15 = 0 \<and> data ! 16 = 0"

definition handshake_names :: "(u8 \<times> string) list" where
  "handshake_names =
     [(0, ''HelloRequest''), (1, ''ClientHello''), (2, ''ServerHello''), (3, ''HelloVerifyRequest''),
      (11, ''Certificate''), (12, ''ServerKeyExchange''), (13, ''CertificateRequest''), (14, ''ServerDone''),
      (15, ''CertificateVerify''), (16, ''ClientKeyExchange''), (20, ''Finished'')]"

definition type_to_string :: "bytes \<Rightarrow> string" where
  "type_to_string data =
     (if data = [] then ''Empty''
      else let t = data ! 0 in
        if t = 20 then ''ChangeCipherSpec'' else if t = 21 then ''Alert''
        else if t = 23 then ''ApplicationData'' else if t = 24 then ''Heartbeat''
        else if t = 22 \<and> length data \<ge> 14
          then (case map_of handshake_names (data ! 13) of Some s \<Rightarrow> s | None \<Rightarrow> ''UnknownHandshake'')
        else ''Unknown'')"

text \<open>
  \<open>print_client_hello_details\<close>: the values printed, or \<open>None\<close> for a panic. From 25 bytes on it reads
  the version and the random without checking that they are there.
\<close>

datatype hello_detail =
    DRecord record_header
  | DHandshake handshake_header
  | DVersion u16
  | DRandom bytes
  | DSessionIdLength u8
  | DCookieLength u8
  | DCookie bytes

definition client_hello_details :: "bytes \<Rightarrow> hello_detail list option" where
  "client_hello_details data =
     (case record_header_parse data of
        None \<Rightarrow> Some []
      | Some h \<Rightarrow>
          if length data < 25 then Some [DRecord h]
          else if length data < 59 then None
          else Some (DRecord h
            # (case handshake_header_parse (drop 13 data) of None \<Rightarrow> [] | Some hs \<Rightarrow> [DHandshake hs])
            @ [DVersion (of_nat (be_int [data ! 25, data ! 26])), DRandom (take 32 (drop 27 data))]
            @ (if length data \<ge> 60 then [DSessionIdLength (data ! 59)] else [])
            @ (if length data \<ge> 61
               then let cookie_len = data ! 60 in
                 DCookieLength cookie_len
                 # (if cookie_len > 0 \<and> length data \<ge> 61 + unat cookie_len
                    then [DCookie (take (unat cookie_len) (drop 61 data))] else [])
               else [])))"

section \<open>What the inspection relies on\<close>

lemmas record_codes = record_type_u8_def handshake_type_u8_def dtls1_rt_header_length_def
  dtls1_hm_header_length_def

lemma is_handshake_iff: "is_handshake data \<longleftrightarrow> 13 \<le> length data \<and> data ! 0 = 22"
  by (auto simp: is_handshake_def record_header_parse_def rh_is_handshake_def record_codes)

text \<open>The two packets that steer the client are told apart, and the names agree with the tests.\<close>

lemma hello_kinds_disjoint: "is_hello_verify_request data \<Longrightarrow> \<not> is_hello_request_handshake data"
  by (auto simp: is_hello_verify_request_def is_hello_request_handshake_def record_codes split: if_splits)

lemma type_to_string_agrees:
  "is_hello_verify_request data \<Longrightarrow> type_to_string data = ''HelloVerifyRequest''"
  "is_client_hello data \<Longrightarrow> type_to_string data = ''ClientHello''"
  "is_hello_request_handshake data \<Longrightarrow> type_to_string data = ''HelloRequest''"
  by (auto simp: is_hello_verify_request_def is_client_hello_def is_hello_request_handshake_def
      is_handshake_iff type_to_string_def handshake_names_def record_codes split: if_splits)

text \<open>A cookie that is extracted lies in the packet and has the announced length.\<close>

lemma cookie_bounds:
  "extract_cookie_from_hvr data = Some c \<Longrightarrow>
     length c = unat (data ! 27) \<and> length data \<ge> 28 + length c \<and> c = take (length c) (drop 28 data)"
  by (auto simp: extract_cookie_from_hvr_def record_codes Let_def min_def split: if_splits)

text \<open>The diagnostic printer panics exactly on packets of 25 to 58 bytes.\<close>

lemma client_hello_details_panics: "client_hello_details data = None \<longleftrightarrow> 25 \<le> length data \<and> length data < 59"
  by (auto simp: client_hello_details_def record_header_parse_def record_codes Let_def)

end
