(* ===== verification/Dtls_Handshake.thy ===== *)
theory Dtls_Handshake
  imports Dtls_Records
begin

text \<open>
  The client side of the DTLS handshake: the state machine of \<^verbatim>\<open>carrier/state.rs\<close> and the loop
  \<open>process_connection\<close> of \<^verbatim>\<open>driver/secure_connection.rs\<close> that feeds it and acts on its results.

  OpenSSL and the socket are the argument \<open>env\<close>, over a state \<open>'ssl\<close> that holds the session and its two
  memory buffers. Instants are in nanoseconds; one instant stands for the readings of the clock within
  one dispatch or one round of the loop. Logging is left out.
\<close>

section \<open>The state machine\<close>

datatype dtls_state =
    Top | Active | SendHelloRequestState | AcceptState | CookieExchange | Connect | Established | DisconnectedState

datatype dtls_event =
    Enter | Exit | Update | NewIncomingDgram | NewOutgoingDgram | StatefulHandshake | CookieExchangeCompleted

datatype state_result =
    Handled | Unhandled | Transition | SendHelloRequest | SslAccept | SslConnect | SslRead | SslWrite
  | ForceDtlsTimeout | RecreateSSL

record state_machine =
  current_state :: dtls_state
  previous_state :: dtls_state
  creation_time :: nat
  next_hello_request_resend :: nat
  hello_request_resend_interval :: nat
  next_handshake_retry :: nat
  handshake_retry_interval :: nat
  timeout_ms :: u64

abbreviation ms :: "nat \<Rightarrow> nat" where "ms n \<equiv> n * 1000000"

definition new_client :: "nat \<Rightarrow> u64 \<Rightarrow> state_machine" where
  "new_client now timeout =
     (let retry = unat (timeout div 10) in
      \<lparr>current_state = CookieExchange, previous_state = Top, creation_time = now,
       next_hello_request_resend = now, hello_request_resend_interval = ms 100,
       next_handshake_retry = now + ms retry, handshake_retry_interval = ms retry, timeout_ms = timeout\<rparr>)"

definition new_server :: "nat \<Rightarrow> u64 \<Rightarrow> state_machine" where
  "new_server now timeout =
     \<lparr>current_state = SendHelloRequestState, previous_state = Top, creation_time = now,
      next_hello_request_resend = now, hello_request_resend_interval = ms 100,
      next_handshake_retry = now + ms 30, handshake_retry_interval = ms 30, timeout_ms = timeout\<rparr>"

definition transition :: "dtls_state \<Rightarrow> state_machine \<Rightarrow> state_machine" where
  "transition s sm = sm\<lparr>previous_state := current_state sm, current_state := s\<rparr>"

definition check_timeout :: "nat \<Rightarrow> state_machine \<Rightarrow> bool" where
  "check_timeout now sm \<longleftrightarrow> (now - creation_time sm) div 1000000 mod 2 ^ 64 > unat (timeout_ms sm)"

definition sm_should_retry :: "nat \<Rightarrow> state_machine \<Rightarrow> bool" where
  "sm_should_retry now sm \<longleftrightarrow> now \<ge> next_handshake_retry sm"

definition update_retry_timer :: "nat \<Rightarrow> state_machine \<Rightarrow> state_machine" where
  "update_retry_timer now sm =
     (let retry = ms (unat (timeout_ms sm div 10))
      in sm\<lparr>handshake_retry_interval := retry, next_handshake_retry := now + retry\<rparr>)"

definition on_state_active :: "nat \<Rightarrow> dtls_event \<Rightarrow> state_machine \<Rightarrow> state_result \<times> state_machine" where
  "on_state_active now ev sm =
     (case ev of
        Enter \<Rightarrow> (Handled, sm\<lparr>creation_time := now\<rparr>)
      | Update \<Rightarrow> if check_timeout now sm then (Transition, transition DisconnectedState sm) else (Unhandled, sm)
      | _ \<Rightarrow> (Unhandled, sm))"

definition on_state_send_hello_request :: "nat \<Rightarrow> dtls_event \<Rightarrow> state_machine \<Rightarrow> state_result \<times> state_machine" where
  "on_state_send_hello_request now ev sm =
     (case ev of
        Enter \<Rightarrow> (SendHelloRequest,
          sm\<lparr>hello_request_resend_interval := ms 100, next_hello_request_resend := now + ms 100\<rparr>)
      | StatefulHandshake \<Rightarrow> (Transition, transition AcceptState sm)
      | Update \<Rightarrow>
          if now > next_hello_request_resend sm
          then (SendHelloRequest,
            sm\<lparr>next_hello_request_resend := now + hello_request_resend_interval sm,
               hello_request_resend_interval := min (hello_request_resend_interval sm * 2) (ms 1000)\<rparr>)
          else (Unhandled, sm)
      | _ \<Rightarrow> (Unhandled, sm))"

definition on_state_accept :: "dtls_event \<Rightarrow> state_machine \<Rightarrow> state_result \<times> state_machine" where
  "on_state_accept ev sm =
     (if ev = Enter \<or> ev = NewIncomingDgram \<or> ev = Update then (SslAccept, sm) else (Unhandled, sm))"

definition on_state_cookie_exchange :: "nat \<Rightarrow> dtls_event \<Rightarrow> state_machine \<Rightarrow> state_result \<times> state_machine" where
  "on_state_cookie_exchange now ev sm =
     (case ev of
        Enter \<Rightarrow> (SslConnect, update_retry_timer now sm)
      | CookieExchangeCompleted \<Rightarrow> (Transition, transition Connect sm)
      | NewIncomingDgram \<Rightarrow> (SslConnect, sm)
      | Update \<Rightarrow>
          if sm_should_retry now sm then (ForceDtlsTimeout, update_retry_timer now sm) else (Unhandled, sm)
      | _ \<Rightarrow> (Unhandled, sm))"

definition on_state_connect :: "nat \<Rightarrow> dtls_event \<Rightarrow> state_machine \<Rightarrow> state_result \<times> state_machine" where
  "on_state_connect now ev sm =
     (case ev of
        Enter \<Rightarrow> (SslConnect, update_retry_timer now sm)
      | NewIncomingDgram \<Rightarrow> (SslConnect, sm)
      | Update \<Rightarrow>
          if sm_should_retry now sm then (ForceDtlsTimeout, update_retry_timer now sm) else (Unhandled, sm)
      | _ \<Rightarrow> (Unhandled, sm))"

definition on_state_established :: "dtls_event \<Rightarrow> state_machine \<Rightarrow> state_result \<times> state_machine" where
  "on_state_established ev sm =
     (case ev of Enter \<Rightarrow> (Handled, sm) | NewIncomingDgram \<Rightarrow> (SslRead, sm) | NewOutgoingDgram \<Rightarrow> (SslWrite, sm)
      | _ \<Rightarrow> (Unhandled, sm))"

definition on_state_disconnected :: "dtls_event \<Rightarrow> state_machine \<Rightarrow> state_result \<times> state_machine" where
  "on_state_disconnected ev sm = (if ev = Enter then (Handled, sm) else (Unhandled, sm))"

definition dispatch :: "nat \<Rightarrow> dtls_event \<Rightarrow> state_machine \<Rightarrow> state_result \<times> state_machine" where
  "dispatch now ev sm =
     (case current_state sm of
        Top \<Rightarrow> (Unhandled, sm)
      | Active \<Rightarrow> on_state_active now ev sm
      | SendHelloRequestState \<Rightarrow> on_state_send_hello_request now ev sm
      | AcceptState \<Rightarrow> on_state_accept ev sm
      | CookieExchange \<Rightarrow> on_state_cookie_exchange now ev sm
      | Connect \<Rightarrow> on_state_connect now ev sm
      | Established \<Rightarrow> on_state_established ev sm
      | DisconnectedState \<Rightarrow> on_state_disconnected ev sm)"

section \<open>The client loop\<close>

datatype driver_error = SslError | IoError | ConnectionClosedDuringHandshake | ConnectionTimeout

text \<open>The outcome of \<open>SSL_connect\<close>: done, needs more input or output, or a fatal error.\<close>

datatype connect_outcome = ConnectDone | ConnectWants | ConnectFatal

record 'ssl dtls_env =
  ssl_connect :: "'ssl \<Rightarrow> connect_outcome \<times> 'ssl"
  ssl_handle_timeout :: "'ssl \<Rightarrow> 'ssl"
  ssl_create :: "'ssl \<Rightarrow> 'ssl option"
  bio_feed :: "bytes \<Rightarrow> 'ssl \<Rightarrow> 'ssl option"
  bio_drain :: "'ssl \<Rightarrow> bytes \<times> 'ssl"
  socket_send :: "bytes \<Rightarrow> bool"

record 'ssl secure_connection =
  sc_machine :: state_machine
  sc_ssl :: 'ssl
  sc_sent :: "bytes list"

text \<open>Like the source, these return their error with the connection as it is at that point.\<close>

type_synonym 'ssl outcome = "driver_error option \<times> 'ssl secure_connection"

definition flush_encrypted_data :: "'ssl dtls_env \<Rightarrow> 'ssl secure_connection \<Rightarrow> 'ssl outcome" where
  "flush_encrypted_data env c =
     (let (pending, ssl) = bio_drain env (sc_ssl c); c = c\<lparr>sc_ssl := ssl\<rparr> in
      if pending = [] then (None, c)
      else if socket_send env pending then (None, c\<lparr>sc_sent := sc_sent c @ [pending]\<rparr>)
      else (Some IoError, c))"

text \<open>A call of \<open>SSL_connect\<close>, what its result does to the state machine, and the flush after it.\<close>

definition run_ssl_connect :: "'ssl dtls_env \<Rightarrow> 'ssl secure_connection \<Rightarrow> 'ssl outcome" where
  "run_ssl_connect env c =
     (let (r, ssl) = ssl_connect env (sc_ssl c); c = c\<lparr>sc_ssl := ssl\<rparr> in
      case r of
        ConnectDone \<Rightarrow> flush_encrypted_data env (c\<lparr>sc_machine := transition Established (sc_machine c)\<rparr>)
      | ConnectWants \<Rightarrow> flush_encrypted_data env c
      | ConnectFatal \<Rightarrow> (Some SslError, c\<lparr>sc_machine := transition DisconnectedState (sc_machine c)\<rparr>))"

definition handle_state_result_direct :: "'ssl dtls_env \<Rightarrow> state_result \<Rightarrow> 'ssl secure_connection \<Rightarrow> 'ssl outcome" where
  "handle_state_result_direct env r c =
     (case r of
        SslConnect \<Rightarrow> run_ssl_connect env c
      | RecreateSSL \<Rightarrow>
          (case ssl_create env (sc_ssl c) of
             None \<Rightarrow> (Some SslError, c)
           | Some ssl \<Rightarrow> run_ssl_connect env (c\<lparr>sc_ssl := ssl\<rparr>))
      | ForceDtlsTimeout \<Rightarrow> flush_encrypted_data env (c\<lparr>sc_ssl := ssl_handle_timeout env (sc_ssl c)\<rparr>)
      | _ \<Rightarrow> (None, c))"

text \<open>
  The loop of \<open>handle_state_result_internal\<close>. It goes round only on \<open>Transition\<close>, with the result of
  entering the new state, and no state answers \<open>Enter\<close> with another transition, so two rounds are all
  there can be (\<open>enter_no_transition\<close>).
\<close>

definition handle_state_result :: "'ssl dtls_env \<Rightarrow> nat \<Rightarrow> state_result \<Rightarrow> 'ssl secure_connection \<Rightarrow> 'ssl outcome" where
  "handle_state_result env now r c =
     (case r of
        Handled \<Rightarrow> (None, c)
      | Unhandled \<Rightarrow> (None, c)
      | Transition \<Rightarrow>
          (let (r', sm) = dispatch now Enter (sc_machine c); c = c\<lparr>sc_machine := sm\<rparr> in
           case r' of Handled \<Rightarrow> (None, c) | Unhandled \<Rightarrow> (None, c) | _ \<Rightarrow> handle_state_result_direct env r' c)
      | _ \<Rightarrow> handle_state_result_direct env r c)"

definition dispatch_and_handle :: "'ssl dtls_env \<Rightarrow> nat \<Rightarrow> dtls_event \<Rightarrow> 'ssl secure_connection \<Rightarrow> 'ssl outcome" where
  "dispatch_and_handle env now ev c =
     (let (r, sm) = dispatch now ev (sc_machine c) in handle_state_result env now r (c\<lparr>sc_machine := sm\<rparr>))"

text \<open>A received packet: what it does to the state machine first, and whether OpenSSL gets it.\<close>

definition steer :: "'ssl dtls_env \<Rightarrow> nat \<Rightarrow> bytes \<Rightarrow> 'ssl secure_connection \<Rightarrow> bool \<times> 'ssl outcome" where
  "steer env now packet c =
     (let s = current_state (sc_machine c) in
      if is_hello_verify_request packet \<and> s = CookieExchange
        then (True, dispatch_and_handle env now CookieExchangeCompleted c)
      else if is_hello_request_handshake packet then
        (if s = CookieExchange then (False, dispatch_and_handle env now CookieExchangeCompleted c)
         else if s = Connect then (False, handle_state_result env now RecreateSSL c)
         else (True, (None, c)))
      else (True, (None, c)))"

definition receive_packet :: "'ssl dtls_env \<Rightarrow> nat \<Rightarrow> bytes \<Rightarrow> 'ssl secure_connection \<Rightarrow> 'ssl outcome" where
  "receive_packet env now packet c =
     (case steer env now packet c of
        (keep, Some e, c) \<Rightarrow> (Some e, c)
      | (False, None, c) \<Rightarrow> (None, c)
      | (True, None, c) \<Rightarrow>
          (case bio_feed env packet (sc_ssl c) of
             None \<Rightarrow> (Some SslError, c)
           | Some ssl \<Rightarrow> dispatch_and_handle env now NewIncomingDgram (c\<lparr>sc_ssl := ssl\<rparr>)))"

text \<open>What the select of one round yields.\<close>

datatype socket_event = Packet bytes | RecvError | TimerFired

datatype 'ssl handshake_end = HandshakeDone "'ssl secure_connection" | HandshakeFailed driver_error
  | HandshakeWaiting "'ssl secure_connection"

text \<open>The checks at the head of the loop, or the connection to go on with.\<close>

definition round_head :: "nat \<Rightarrow> 'ssl secure_connection \<Rightarrow> 'ssl handshake_end" where
  "round_head now c =
     (if current_state (sc_machine c) = Established then HandshakeDone c
      else if current_state (sc_machine c) = DisconnectedState then HandshakeFailed ConnectionClosedDuringHandshake
      else if check_timeout now (sc_machine c) then HandshakeFailed ConnectionTimeout
      else HandshakeWaiting c)"

definition round_body :: "'ssl dtls_env \<Rightarrow> nat \<Rightarrow> socket_event \<Rightarrow> 'ssl secure_connection \<Rightarrow> 'ssl outcome" where
  "round_body env now ev c =
     (case ev of
        Packet p \<Rightarrow> receive_packet env now p c
      | RecvError \<Rightarrow> (Some IoError, c)
      | TimerFired \<Rightarrow>
          if current_state (sc_machine c) \<noteq> Established then dispatch_and_handle env now Update c else (None, c))"

text \<open>
  The rounds over the events the select yields, each with the instant its head is run at and the
  instant the event is handled at. It is still waiting when the events end before the loop does.
\<close>

fun handshake_rounds ::
    "'ssl dtls_env \<Rightarrow> (nat \<times> nat \<times> socket_event) list \<Rightarrow> 'ssl secure_connection \<Rightarrow> 'ssl handshake_end" where
  "handshake_rounds env [] c = HandshakeWaiting c"
| "handshake_rounds env ((t, now, ev) # evs) c =
     (case round_head t c of
        HandshakeWaiting c \<Rightarrow>
          (case round_body env now ev c of
             (Some e, _) \<Rightarrow> HandshakeFailed e
           | (None, c) \<Rightarrow> handshake_rounds env evs c)
      | r \<Rightarrow> r)"

definition process_connection ::
    "'ssl dtls_env \<Rightarrow> nat \<Rightarrow> (nat \<times> nat \<times> socket_event) list \<Rightarrow> 'ssl secure_connection \<Rightarrow> 'ssl handshake_end" where
  "process_connection env now evs c =
     (case dispatch_and_handle env now Enter c of
        (Some e, _) \<Rightarrow> HandshakeFailed e
      | (None, c) \<Rightarrow> handshake_rounds env evs c)"

section \<open>The loop and the clock\<close>

lemma enter_no_transition: "fst (dispatch now Enter sm) \<noteq> Transition"
  by (auto simp: dispatch_def on_state_active_def on_state_send_hello_request_def on_state_accept_def
      on_state_cookie_exchange_def on_state_connect_def on_state_established_def on_state_disconnected_def
      split: dtls_state.split)

lemmas dispatch_defs = dispatch_def on_state_cookie_exchange_def on_state_connect_def on_state_established_def
  on_state_disconnected_def update_retry_timer_def transition_def

lemmas handler_defs = dispatch_and_handle_def handle_state_result_def handle_state_result_direct_def
  run_ssl_connect_def flush_encrypted_data_def

text \<open>
  The abstract protocol of the client: the cookie exchange may lead to the connect phase; from either
  the handshake completes or fails; both ends are final.
\<close>

inductive client_step :: "dtls_state \<Rightarrow> dtls_state \<Rightarrow> bool" where
  cookie: "client_step CookieExchange Connect"
| complete: "s \<in> {CookieExchange, Connect} \<Longrightarrow> client_step s Established"
| fail: "s \<in> {CookieExchange, Connect} \<Longrightarrow> client_step s DisconnectedState"

inductive_cases client_stepE: "client_step s s'"

definition client_state :: "dtls_state \<Rightarrow> bool" where
  "client_state s \<longleftrightarrow> s \<in> {CookieExchange, Connect, Established, DisconnectedState}"

abbreviation sc_state :: "'ssl secure_connection \<Rightarrow> dtls_state" where
  "sc_state c \<equiv> current_state (sc_machine c)"

text \<open>
  The last transition a machine has made is a step of the protocol. \<open>previous_state\<close> is \<open>Top\<close> as long as
  there was none.
\<close>

definition last_step_ok :: "state_machine \<Rightarrow> bool" where
  "last_step_ok sm \<longleftrightarrow> previous_state sm = Top \<or> client_step (previous_state sm) (current_state sm)"

text \<open>What a handler keeps: the clock of the machine, and the order of the protocol.\<close>

definition client_follows :: "'ssl secure_connection \<Rightarrow> 'ssl secure_connection \<Rightarrow> bool" where
  "client_follows c c' \<longleftrightarrow> client_step\<^sup>*\<^sup>* (sc_state c) (sc_state c')
     \<and> creation_time (sc_machine c') = creation_time (sc_machine c)
     \<and> timeout_ms (sc_machine c') = timeout_ms (sc_machine c)
     \<and> (last_step_ok (sc_machine c) \<longrightarrow> last_step_ok (sc_machine c'))"

lemma client_follows_refl [simp]: "client_follows c c"
  by (simp add: client_follows_def)

lemma client_follows_trans: "client_follows a b \<Longrightarrow> client_follows b c \<Longrightarrow> client_follows a c"
  by (auto simp: client_follows_def)

lemma client_follows_ssl [simp]:
  "client_follows c (c'\<lparr>sc_ssl := x\<rparr>) = client_follows c c'" "client_follows (c\<lparr>sc_ssl := x\<rparr>) c' = client_follows c c'"
  "client_follows c (c'\<lparr>sc_sent := y\<rparr>) = client_follows c c'"
  by (simp_all add: client_follows_def)

lemma client_follows_transition:
  "client_step (sc_state c) s \<Longrightarrow> client_follows c (c\<lparr>sc_machine := transition s (sc_machine c)\<rparr>)"
  by (auto simp: client_follows_def transition_def last_step_ok_def)

lemma follows_flush: "flush_encrypted_data env c = (e, c') \<Longrightarrow> client_follows c c'"
  by (auto simp: flush_encrypted_data_def Let_def split: prod.splits if_splits)

lemma follows_connect:
  assumes "run_ssl_connect env c = (e, c')" "sc_state c \<in> {CookieExchange, Connect}"
  shows "client_follows c c'"
proof -
  obtain r ssl where r: "ssl_connect env (sc_ssl c) = (r, ssl)" by (metis prod.exhaust)
  let ?c = "c\<lparr>sc_ssl := ssl\<rparr>"
  have "client_follows ?c (?c\<lparr>sc_machine := transition Established (sc_machine c)\<rparr>)"
    "client_follows ?c (?c\<lparr>sc_machine := transition DisconnectedState (sc_machine c)\<rparr>)"
    using client_follows_transition [of ?c Established] client_follows_transition [of ?c DisconnectedState] assms(2)
    by (auto intro: client_step.intros)
  then show ?thesis
    using assms(1) r
    by (auto simp: run_ssl_connect_def Let_def split: connect_outcome.splits
        dest!: follows_flush intro: client_follows_trans)
qed

lemma update_retry_timer_simps [simp]:
  "current_state (update_retry_timer now sm) = current_state sm"
  "creation_time (update_retry_timer now sm) = creation_time sm"
  "timeout_ms (update_retry_timer now sm) = timeout_ms sm"
  "previous_state (update_retry_timer now sm) = previous_state sm"
  "last_step_ok (update_retry_timer now sm) = last_step_ok sm"
  by (simp_all add: update_retry_timer_def last_step_ok_def Let_def)

lemma client_follows_timer [simp]:
  "client_follows (c\<lparr>sc_machine := update_retry_timer now (sc_machine c)\<rparr>) c' = client_follows c c'"
  "client_follows c (c\<lparr>sc_machine := update_retry_timer now (sc_machine c)\<rparr>)"
  by (simp_all add: client_follows_def)

lemma follows_recreate:
  assumes "handle_state_result env now RecreateSSL c = (e, c')" "sc_state c \<in> {CookieExchange, Connect}"
  shows "client_follows c c'"
  using assms
  by (auto simp: handle_state_result_def handle_state_result_direct_def split: option.splits dest!: follows_connect)

text \<open>The cookie exchange is completed by entering the connect phase and calling \<open>SSL_connect\<close> there.\<close>

lemma complete_cookie_exchange:
  "sc_state c = CookieExchange \<Longrightarrow> dispatch_and_handle env now CookieExchangeCompleted c =
     run_ssl_connect env (c\<lparr>sc_machine := update_retry_timer now (transition Connect (sc_machine c))\<rparr>)"
  by (simp add: dispatch_and_handle_def dispatch_def on_state_cookie_exchange_def on_state_connect_def
      handle_state_result_def handle_state_result_direct_def transition_def)

lemma follows_complete:
  assumes "sc_state c = CookieExchange" "dispatch_and_handle env now CookieExchangeCompleted c = (e, c')"
  shows "client_follows c c'"
proof -
  let ?c = "c\<lparr>sc_machine := update_retry_timer now (transition Connect (sc_machine c))\<rparr>"
  have "client_follows c ?c"
    using assms(1) by (auto simp: client_follows_def transition_def last_step_ok_def intro: client_step.intros)
  moreover have "client_follows ?c c'"
    using assms(2) follows_connect [of env ?c e c'] by (simp add: complete_cookie_exchange [OF assms(1)] transition_def)
  ultimately show ?thesis by (rule client_follows_trans)
qed

lemma client_follows_force:
  "flush_encrypted_data env (c\<lparr>sc_machine := update_retry_timer now (sc_machine c), sc_ssl := x\<rparr>) = (e, c') \<Longrightarrow>
     client_follows c c'"
  by (drule follows_flush) (simp add: client_follows_def)

lemma follows_dispatch:
  assumes "client_state (sc_state c)" "dispatch_and_handle env now ev c = (e, c')"
  shows "client_follows c c'"
proof (cases "sc_state c = CookieExchange \<and> ev = CookieExchangeCompleted")
  case True
  then show ?thesis using follows_complete assms(2) by blast
next
  case False
  show ?thesis
  proof (cases "sc_state c \<in> {CookieExchange, Connect}")
    case True
    let ?c = "c\<lparr>sc_machine := update_retry_timer now (sc_machine c)\<rparr>"
    have "client_follows c c'" if "run_ssl_connect env ?c = (e, c')"
      using follows_connect [OF that] True by simp
    moreover have "client_follows c c'" if "run_ssl_connect env c = (e, c')"
      using follows_connect [OF that] True by simp
    ultimately show ?thesis
      using assms(2) False True
      by (auto simp: dispatch_and_handle_def dispatch_def on_state_cookie_exchange_def on_state_connect_def
          handle_state_result_def handle_state_result_direct_def split: dtls_event.splits if_splits
          dest: client_follows_force)
  next
    case False
    then show ?thesis
      using assms
      by (auto simp: client_state_def dispatch_and_handle_def dispatch_def on_state_established_def
          on_state_disconnected_def handle_state_result_def handle_state_result_direct_def
          split: dtls_event.splits if_splits)
  qed
qed

lemma client_state_follows: "client_follows c c' \<Longrightarrow> client_state (sc_state c) \<Longrightarrow> client_state (sc_state c')"
proof -
  assume "client_follows c c'" "client_state (sc_state c)"
  then have "client_step\<^sup>*\<^sup>* (sc_state c) (sc_state c')" by (simp add: client_follows_def)
  then show ?thesis using \<open>client_state (sc_state c)\<close>
    by (induction rule: rtranclp_induct) (auto simp: client_state_def elim: client_stepE)
qed

lemma follows_steer: "client_state (sc_state c) \<Longrightarrow> steer env now p c = (k, e, c') \<Longrightarrow> client_follows c c'"
  by (auto simp: steer_def Let_def split: if_splits dest: follows_complete follows_recreate)

lemma follows_receive:
  assumes "client_state (sc_state c)" "receive_packet env now p c = (e, c')"
  shows "client_follows c c'"
proof -
  obtain k e1 c1 where st: "steer env now p c = (k, e1, c1)" by (metis prod.exhaust)
  note f = follows_steer [OF assms(1) st]
  have "client_follows c1 c'"
    using assms(2) st follows_dispatch [of "c1\<lparr>sc_ssl := x\<rparr>" env now NewIncomingDgram e c' for x]
      client_state_follows [OF f assms(1)]
    by (auto simp: receive_packet_def split: option.splits bool.splits)
  with f show ?thesis by (rule client_follows_trans)
qed

lemma follows_round:
  "client_state (sc_state c) \<Longrightarrow> round_body env now ev c = (e, c') \<Longrightarrow> client_follows c c'"
  by (auto simp: round_body_def split: socket_event.splits if_splits dest: follows_dispatch follows_receive)

lemma round_head_cases:
  "round_head t c = HandshakeWaiting c' \<Longrightarrow> c' = c \<and> \<not> check_timeout t (sc_machine c)"
  "round_head t c = HandshakeDone c' \<Longrightarrow> c' = c \<and> sc_state c = Established"
  by (auto simp: round_head_def split: if_splits)

definition end_connection :: "'ssl handshake_end \<Rightarrow> 'ssl secure_connection option" where
  "end_connection r = (case r of HandshakeDone c \<Rightarrow> Some c | HandshakeWaiting c \<Rightarrow> Some c | HandshakeFailed _ \<Rightarrow> None)"

lemma follows_rounds:
  "client_state (sc_state c) \<Longrightarrow> end_connection (handshake_rounds env evs c) = Some c' \<Longrightarrow> client_follows c c'"
proof (induction evs arbitrary: c)
  case (Cons e evs)
  obtain t now ev where e: "e = (t, now, ev)" by (metis prod.exhaust)
  show ?case
  proof (cases "round_head t c")
    case (HandshakeWaiting c1)
    then have c1: "c1 = c" using round_head_cases by blast
    obtain er c2 where b: "round_body env now ev c = (er, c2)" by (metis prod.exhaust)
    note f = follows_round [OF Cons.prems(1) b]
    have "er = None" "end_connection (handshake_rounds env evs c2) = Some c'"
      using Cons.prems(2) HandshakeWaiting c1 b e by (auto simp: end_connection_def split: option.splits)
    then show ?thesis
      using Cons.IH [of c2] client_state_follows [OF f Cons.prems(1)] client_follows_trans [OF f] by blast
  next
    case (HandshakeDone c1)
    then show ?thesis using Cons.prems(2) e round_head_cases(2) [of t c c1] by (simp add: end_connection_def)
  next
    case (HandshakeFailed x)
    then show ?thesis using Cons.prems(2) e by (simp add: end_connection_def)
  qed
qed (simp add: end_connection_def)

definition client_start :: "nat \<Rightarrow> u64 \<Rightarrow> 'ssl \<Rightarrow> 'ssl secure_connection" where
  "client_start now timeout ssl = \<lparr>sc_machine = new_client now timeout, sc_ssl = ssl, sc_sent = []\<rparr>"

lemma client_start_simps [simp]:
  "sc_state (client_start now timeout ssl) = CookieExchange"
  "creation_time (sc_machine (client_start now timeout ssl)) = now"
  "timeout_ms (sc_machine (client_start now timeout ssl)) = timeout"
  "last_step_ok (sc_machine (client_start now timeout ssl))"
  by (simp_all add: client_start_def new_client_def last_step_ok_def Let_def)

lemma process_start:
  assumes "process_connection env now evs (client_start t0 timeout ssl) = r" "\<nexists>e. r = HandshakeFailed e"
  obtains c where "client_follows (client_start t0 timeout ssl) c" "handshake_rounds env evs c = r"
proof -
  obtain e c where d: "dispatch_and_handle env now Enter (client_start t0 timeout ssl) = (e, c)" by (metis prod.exhaust)
  have "client_follows (client_start t0 timeout ssl) c"
    using follows_dispatch [OF _ d] by (simp add: client_state_def)
  then show ?thesis
    using that assms d by (auto simp: process_connection_def split: option.splits)
qed

lemma rounds_done: "handshake_rounds env evs c = HandshakeDone c' \<Longrightarrow> sc_state c' = Established"
  by (induction evs arbitrary: c)
    (auto split: handshake_end.splits option.splits prod.splits dest: round_head_cases)

lemma handshake_rounds_append:
  "handshake_rounds env (evs @ evs') c =
     (case handshake_rounds env evs c of HandshakeWaiting c' \<Rightarrow> handshake_rounds env evs' c' | r \<Rightarrow> r)"
  by (induction evs arbitrary: c) (auto split: handshake_end.splits option.splits prod.splits)

lemma process_connection_append:
  "process_connection env now (evs @ evs') c =
     (case process_connection env now evs c of HandshakeWaiting c' \<Rightarrow> handshake_rounds env evs' c' | r \<Rightarrow> r)"
  by (auto simp: process_connection_def handshake_rounds_append split: option.splits prod.splits)

lemma process_follows:
  assumes "process_connection env now evs (client_start t0 timeout ssl) = r" "end_connection r = Some c"
  shows "client_follows (client_start t0 timeout ssl) c"
proof -
  obtain c0 where c0: "client_follows (client_start t0 timeout ssl) c0" "handshake_rounds env evs c0 = r"
  proof -
    have "\<nexists>e. r = HandshakeFailed e" using assms(2) by (auto simp: end_connection_def)
    then show ?thesis using process_start [OF assms(1)] that by blast
  qed
  have "client_state (sc_state c0)" using client_state_follows [OF c0(1)] by (simp add: client_state_def)
  then show ?thesis using follows_rounds [of c0 env evs c] c0 assms(2) by (auto intro: client_follows_trans)
qed

lemma process_done: "process_connection env now evs (client_start t0 timeout ssl) = HandshakeDone c \<Longrightarrow> sc_state c = Established"
  using process_start by (metis handshake_end.distinct(1) rounds_done)

text \<open>The abstract handshake has no cycle, so a state that is left is never entered again.\<close>

lemma client_step_irrefl: "client_step\<^sup>+\<^sup>+ s s' \<Longrightarrow> s \<noteq> s'"
proof -
  define rank :: "dtls_state \<Rightarrow> nat" where
    "rank s = (case s of CookieExchange \<Rightarrow> 0 | Connect \<Rightarrow> 1 | _ \<Rightarrow> 2)" for s
  have step: "client_step a b \<Longrightarrow> rank a < rank b" for a b by (auto simp: rank_def elim!: client_stepE)
  assume "client_step\<^sup>+\<^sup>+ s s'"
  then have "rank s < rank s'" by (induction rule: tranclp_induct) (auto dest!: step)
  then show "s \<noteq> s'" by auto
qed

lemma client_step_antisym: "client_step\<^sup>*\<^sup>* s s' \<Longrightarrow> client_step\<^sup>*\<^sup>* s' s \<Longrightarrow> s = s'"
  by (metis client_step_irrefl rtranclp_tranclp_tranclp rtranclpD)

text \<open>
  C10. The client loop only moves forward along the abstract handshake, whatever packets, timers and
  OpenSSL results it meets. Cut its input anywhere: if it waits there in one state, then where it stands
  after the rest of the input, or when it ends, is a state the protocol reaches from that one; the protocol
  has no cycle (\<open>client_step_antisym\<close>), so a state that was left is not entered again. The last transition the machine made is
  a single step of the protocol, the deadline never changes, an end is final, and the loop ends
  successfully only in the established state.
\<close>

theorem dtls_client_refines:
  "case process_connection env now evs (client_start t0 timeout ssl) of
     HandshakeWaiting c \<Rightarrow>
       client_step\<^sup>*\<^sup>* CookieExchange (sc_state c) \<and> last_step_ok (sc_machine c) \<and>
       creation_time (sc_machine c) = t0 \<and> timeout_ms (sc_machine c) = timeout \<and>
       (case process_connection env now (evs @ evs') (client_start t0 timeout ssl) of
          HandshakeWaiting c' \<Rightarrow>
            client_step\<^sup>*\<^sup>* (sc_state c) (sc_state c') \<and> last_step_ok (sc_machine c')
        | HandshakeDone c' \<Rightarrow> client_step\<^sup>*\<^sup>* (sc_state c) (sc_state c') \<and> sc_state c' = Established
        | HandshakeFailed e \<Rightarrow> True)
   | HandshakeDone c \<Rightarrow>
       sc_state c = Established \<and> last_step_ok (sc_machine c) \<and>
       process_connection env now (evs @ evs') (client_start t0 timeout ssl) = HandshakeDone c
   | HandshakeFailed e \<Rightarrow> process_connection env now (evs @ evs') (client_start t0 timeout ssl) = HandshakeFailed e"
proof -
  let ?c0 = "client_start t0 timeout ssl"
  let ?r = "process_connection env now evs ?c0" and ?r' = "process_connection env now (evs @ evs') ?c0"
  have start: "client_step\<^sup>*\<^sup>* CookieExchange (sc_state c)" "last_step_ok (sc_machine c)"
      "creation_time (sc_machine c) = t0" "timeout_ms (sc_machine c) = timeout" "client_state (sc_state c)"
    if "end_connection ?r = Some c" for c
    using process_follows [OF refl that] client_state_follows [OF process_follows [OF refl that]]
    by (simp_all add: client_follows_def client_state_def)
  have rest: "client_step\<^sup>*\<^sup>* (sc_state c) (sc_state c') \<and> last_step_ok (sc_machine c')"
    if "?r = HandshakeWaiting c" "end_connection ?r' = Some c'" for c c'
    using follows_rounds [of c env evs' c'] start [of c] that
    by (simp add: process_connection_append end_connection_def client_follows_def)
  note app = process_connection_append [of env now evs evs' ?c0]
  show ?thesis
  proof (cases ?r)
    case (HandshakeDone c)
    then show ?thesis using start(2) [of c] process_done [OF HandshakeDone] by (simp add: app end_connection_def)
  next
    case (HandshakeWaiting c)
    have w: "end_connection ?r = Some c" by (simp add: HandshakeWaiting end_connection_def)
    show ?thesis
    proof (cases ?r')
      case (HandshakeDone c')
      then show ?thesis
        using HandshakeWaiting start [OF w] rest [of c c'] process_done [OF HandshakeDone] by (simp add: end_connection_def)
    next
      case (HandshakeWaiting c')
      then show ?thesis using \<open>?r = HandshakeWaiting c\<close> start [OF w] rest [of c c'] by (simp add: end_connection_def)
    next
      case (HandshakeFailed e)
      then show ?thesis using HandshakeWaiting start [OF w] by simp
    qed
  qed (simp add: app)
qed

section \<open>The deadline\<close>

text \<open>
  C28. The handshake is bounded in time: once a round starts more than the timeout after the
  creation of the connection the loop has ended, in success or with an error, and never goes on to
  wait for the peer. (The millisecond count is a 64-bit integer.)
\<close>

theorem dtls_handshake_deadline:
  assumes "(t - t0) div 1000000 > unat timeout" "(t - t0) div 1000000 < 2 ^ 64"
  shows "case process_connection env now (evs @ (t, now', ev) # evs') (client_start t0 timeout ssl) of
      HandshakeDone c \<Rightarrow> sc_state c = Established | HandshakeFailed e \<Rightarrow> True | HandshakeWaiting c \<Rightarrow> False"
proof (rule ccontr)
  let ?r = "process_connection env now (evs @ (t, now', ev) # evs') (client_start t0 timeout ssl)"
  assume a: "\<not> ?thesis"
  then have nf: "\<nexists>e. ?r = HandshakeFailed e" by auto
  then obtain c where c: "client_follows (client_start t0 timeout ssl) c"
      "handshake_rounds env (evs @ (t, now', ev) # evs') c = ?r"
    using process_start [OF refl nf] by blast
  have st: "client_state (sc_state c)" using client_state_follows [OF c(1)] by (simp add: client_state_def)
  show False
  proof (cases "handshake_rounds env evs c")
    case (HandshakeWaiting c1)
    then have "client_follows c c1" using follows_rounds [OF st, of env evs c1] by (simp add: end_connection_def)
    then have "check_timeout t (sc_machine c1)"
      using c(1) assms by (simp add: client_follows_def check_timeout_def)
    then show ?thesis
      using a c(2) HandshakeWaiting
      by (auto simp: handshake_rounds_append round_head_def split: if_splits handshake_end.splits)
  next
    case (HandshakeDone c1)
    then show ?thesis using a c(2) rounds_done [OF HandshakeDone] by (auto simp: handshake_rounds_append split: handshake_end.splits)
  next
    case (HandshakeFailed e)
    then have "handshake_rounds env (evs @ (t, now', ev) # evs') c = HandshakeFailed e"
      by (simp add: handshake_rounds_append)
    then show ?thesis using nf c(2) by metis
  qed
qed

definition silent_env :: "unit dtls_env" where
  "silent_env = \<lparr>ssl_connect = (\<lambda>s. (ConnectWants, s)), ssl_handle_timeout = id, ssl_create = Some,
     bio_feed = (\<lambda>p s. Some s), bio_drain = (\<lambda>s. ([], s)), socket_send = (\<lambda>_. True)\<rparr>"

theorem dtls_handshake_deadline_witness:
  "case process_connection silent_env 0 [(0, 1, TimerFired), (5001000000, 5001000000, Packet [])] (client_start 0 5000 ()) of
     HandshakeDone c \<Rightarrow> sc_state c = Established | HandshakeFailed e \<Rightarrow> True | HandshakeWaiting c \<Rightarrow> False"
  using dtls_handshake_deadline [of 5000 5001000000 0 silent_env 0 "[(0, 1, TimerFired)]" 5001000000 "Packet []" "[]" "()"]
  by simp

section \<open>Only OpenSSL completes the handshake\<close>

definition never_completes :: "'ssl dtls_env \<Rightarrow> bool" where
  "never_completes env \<longleftrightarrow> (\<forall>s. fst (ssl_connect env s) \<noteq> ConnectDone)"

lemma never_completesD: "never_completes env \<Longrightarrow> ssl_connect env s = (r, s') \<Longrightarrow> r \<noteq> ConnectDone"
  unfolding never_completes_def by (metis fst_conv)

lemma flush_state [simp]: "flush_encrypted_data env c = (e, c') \<Longrightarrow> sc_machine c' = sc_machine c"
  by (auto simp: flush_encrypted_data_def Let_def split: prod.splits if_splits)

lemma connect_state:
  "never_completes env \<Longrightarrow> run_ssl_connect env c = (e, c') \<Longrightarrow> sc_state c \<noteq> Established \<Longrightarrow> sc_state c' \<noteq> Established"
  by (auto simp: run_ssl_connect_def transition_def Let_def split: prod.splits connect_outcome.splits
      dest: never_completesD)

lemma direct_state:
  "never_completes env \<Longrightarrow> handle_state_result_direct env r c = (e, c') \<Longrightarrow> sc_state c \<noteq> Established \<Longrightarrow>
     sc_state c' \<noteq> Established"
  by (auto simp: handle_state_result_direct_def split: state_result.splits option.splits dest: connect_state)

lemma dispatch_state: "sc_state c \<noteq> Established \<Longrightarrow> current_state (snd (dispatch now ev (sc_machine c))) \<noteq> Established"
  by (auto simp: dispatch_def on_state_active_def on_state_send_hello_request_def on_state_accept_def
      on_state_cookie_exchange_def on_state_connect_def on_state_disconnected_def transition_def
      split: dtls_state.split dtls_event.split)

lemma result_state:
  assumes "never_completes env" "handle_state_result env now r c = (e, c')" "sc_state c \<noteq> Established"
  shows "sc_state c' \<noteq> Established"
proof -
  obtain r' sm where "dispatch now Enter (sc_machine c) = (r', sm)" by (metis prod.exhaust)
  moreover from this have "current_state sm \<noteq> Established" using dispatch_state [OF assms(3)] by (metis snd_conv)
  ultimately show ?thesis
    using assms
    by (auto simp: handle_state_result_def Let_def split: state_result.splits dest: direct_state)
qed

lemma dispatch_handle_state:
  "never_completes env \<Longrightarrow> dispatch_and_handle env now ev c = (e, c') \<Longrightarrow> sc_state c \<noteq> Established \<Longrightarrow>
     sc_state c' \<noteq> Established"
  using dispatch_state [of c now ev]
  by (auto simp: dispatch_and_handle_def Let_def split: prod.splits dest: result_state)

lemma steer_state:
  "never_completes env \<Longrightarrow> steer env now p c = (k, e, c') \<Longrightarrow> sc_state c \<noteq> Established \<Longrightarrow> sc_state c' \<noteq> Established"
  by (auto simp: steer_def Let_def split: if_splits dest: dispatch_handle_state result_state)

lemma receive_state:
  assumes "never_completes env" "receive_packet env now p c = (e, c')" "sc_state c \<noteq> Established"
  shows "sc_state c' \<noteq> Established"
proof -
  obtain k e1 c1 where st: "steer env now p c = (k, e1, c1)" by (metis prod.exhaust)
  then show ?thesis
    using assms(2) steer_state [OF assms(1) st assms(3)]
      dispatch_handle_state [OF assms(1), of now NewIncomingDgram "c1\<lparr>sc_ssl := x\<rparr>" e c' for x]
    by (auto simp: receive_packet_def split: option.splits bool.splits)
qed

lemma round_state:
  "never_completes env \<Longrightarrow> round_body env now ev c = (e, c') \<Longrightarrow> sc_state c \<noteq> Established \<Longrightarrow> sc_state c' \<noteq> Established"
  by (auto simp: round_body_def split: socket_event.splits dest: receive_state dispatch_handle_state)

lemma rounds_state:
  "never_completes env \<Longrightarrow> sc_state c \<noteq> Established \<Longrightarrow> handshake_rounds env evs c \<noteq> HandshakeDone c'"
proof (induction evs arbitrary: c)
  case (Cons e evs)
  obtain t now ev where e: "e = (t, now, ev)" by (metis prod.exhaust)
  show ?case
    using Cons.prems Cons.IH round_state [OF Cons.prems(1), of now ev c] e
    by (auto simp: round_head_def split: option.splits prod.splits)
qed simp

text \<open>
  C21. A client connection counts as established only when \<open>SSL_connect\<close> has reported success: with an
  OpenSSL that never does, no packet, HelloVerifyRequest or HelloRequest included, completes it.
\<close>

theorem dtls_established_only_by_ssl:
  assumes "never_completes env"
  shows "process_connection env now evs (client_start t0 timeout ssl) \<noteq> HandshakeDone c"
proof -
  obtain e c1 where d: "dispatch_and_handle env now Enter (client_start t0 timeout ssl) = (e, c1)" by (metis prod.exhaust)
  then show ?thesis
    using rounds_state [OF assms, of c1 evs c] dispatch_handle_state [OF assms d]
    by (simp add: process_connection_def split: option.split)
qed

theorem dtls_established_only_by_ssl_witness:
  "process_connection silent_env 0 [(0, 1, Packet []), (2, 3, TimerFired)] (client_start 0 5000 ()) \<noteq>
     HandshakeDone (client_start 0 5000 ())"
  by (rule dtls_established_only_by_ssl) (simp add: never_completes_def silent_env_def)

section \<open>The server's HelloRequest backoff\<close>

text \<open>Resending doubles the interval from 100 ms up to one second.\<close>

lemma hello_request_backoff:
  assumes "now > next_hello_request_resend sm" "hello_request_resend_interval sm = ms (min (100 * 2 ^ n) 1000)"
    "current_state sm = SendHelloRequestState"
  shows "fst (dispatch now Update sm) = SendHelloRequest"
    "hello_request_resend_interval (snd (dispatch now Update sm)) = ms (min (100 * 2 ^ Suc n) 1000)"
    "next_hello_request_resend (snd (dispatch now Update sm)) = now + ms (min (100 * 2 ^ n) 1000)"
  using assms by (auto simp: dispatch_def on_state_send_hello_request_def min_def)

end
