(* ===== verification/Replicated_Field.thy ===== *)
theory Replicated_Field
  imports Hub_Sequence Masks
begin

text \<open>
  \<^verbatim>\<open>serialize/replicated_field.rs\<close>: the handler of one replicated field, the macros that write and read
  a struct of fields under presence masks, the counter that is split into a high and a low byte and
  the four-byte timer. The policy \<open>M: Codec<T>\<close> of a handler is a \<open>codec\<close> argument of the operations
  that write or read it, \<open>T::default()\<close> an argument \<open>dflt\<close> of those that need it. The pointer comparison
  at the head of the merge is the flag \<open>same\<close>.

  Not modelled: the half-float and quantising policies and the handlers over \<open>f32\<close> vectors.
\<close>

record 'a field_handler =
  fh_value :: "'a option"
  fh_last_modified :: hub_seq
  fh_default_value :: "'a option"
  fh_has_new_network_data :: bool
  fh_equals :: "('a \<Rightarrow> 'a \<Rightarrow> bool) option"

section \<open>Construction and queries\<close>

definition field_default :: "'a field_handler" where
  "field_default = \<lparr>fh_value = None, fh_last_modified = Invalid, fh_default_value = None,
     fh_has_new_network_data = False, fh_equals = None\<rparr>"

definition field_new :: "'a option \<Rightarrow> 'a field_handler" where
  "field_new v = \<lparr>fh_value = v, fh_last_modified = (if v \<noteq> None then ValidNonSequence else Invalid),
     fh_default_value = None, fh_has_new_network_data = False, fh_equals = None\<rparr>"

definition field_with_equals :: "('a \<Rightarrow> 'a \<Rightarrow> bool) \<Rightarrow> 'a field_handler" where
  "field_with_equals eq = field_default\<lparr>fh_equals := Some eq\<rparr>"

definition field_new_with_equals :: "'a option \<Rightarrow> ('a \<Rightarrow> 'a \<Rightarrow> bool) \<Rightarrow> 'a field_handler" where
  "field_new_with_equals v eq = (field_new v)\<lparr>fh_equals := Some eq\<rparr>"

definition field_some :: "'a \<Rightarrow> 'a field_handler" where
  "field_some v = field_new (Some v)"

definition is_field_valid :: "'a field_handler \<Rightarrow> bool" where
  "is_field_valid f \<longleftrightarrow> seq_is_valid (fh_last_modified f)"

definition is_dirty_since :: "hub_seq \<Rightarrow> 'a field_handler \<Rightarrow> bool" where
  "is_dirty_since baseline f \<longleftrightarrow> seq_is_valid (fh_last_modified f) \<and> baseline < fh_last_modified f"

definition has_field_payload :: "'a field_handler \<Rightarrow> bool" where
  "has_field_payload f \<longleftrightarrow> fh_value f \<noteq> None"

definition values_equal :: "'a field_handler \<Rightarrow> 'a \<Rightarrow> 'a \<Rightarrow> bool" where
  "values_equal f a b \<longleftrightarrow> (case fh_equals f of Some eq \<Rightarrow> eq a b | None \<Rightarrow> a = b)"

definition is_default_value :: "'a field_handler \<Rightarrow> bool" where
  "is_default_value f \<longleftrightarrow>
     (case (fh_default_value f, fh_value f) of (Some d, Some v) \<Rightarrow> values_equal f d v | _ \<Rightarrow> False)"

definition has_value :: "'a field_handler \<Rightarrow> bool" where
  "has_value f \<longleftrightarrow> is_field_valid f \<or> is_default_value f"

definition is_field_equal :: "'a \<Rightarrow> 'a field_handler \<Rightarrow> bool" where
  "is_field_equal rhs f \<longleftrightarrow>
     has_value f \<and> (case fh_value f of Some v \<Rightarrow> values_equal f v rhs | None \<Rightarrow> False)"

definition effective_value :: "'a \<Rightarrow> 'a field_handler \<Rightarrow> 'a" where
  "effective_value dflt f = (case fh_value f of Some v \<Rightarrow> v | None \<Rightarrow> dflt)"

definition field_eq :: "'a field_handler \<Rightarrow> 'a field_handler \<Rightarrow> bool" where
  "field_eq f g \<longleftrightarrow> has_value f = has_value g \<and> (\<not> has_value f \<or> fh_value f = fh_value g)"

section \<open>Local writes\<close>

definition set_last_modified :: "hub_seq \<Rightarrow> 'a field_handler \<Rightarrow> 'a field_handler" where
  "set_last_modified s f = f\<lparr>fh_last_modified := s\<rparr>"

definition reset_has_new_network_data :: "'a field_handler \<Rightarrow> 'a field_handler" where
  "reset_has_new_network_data f = f\<lparr>fh_has_new_network_data := False\<rparr>"

definition clear_value :: "'a field_handler \<Rightarrow> 'a field_handler" where
  "clear_value f = f\<lparr>fh_value := None, fh_last_modified := Invalid, fh_has_new_network_data := False\<rparr>"

definition set_equals_policy :: "('a \<Rightarrow> 'a \<Rightarrow> bool) \<Rightarrow> 'a field_handler \<Rightarrow> 'a field_handler" where
  "set_equals_policy eq f = f\<lparr>fh_equals := Some eq\<rparr>"

definition set_default_value :: "'a \<Rightarrow> 'a field_handler \<Rightarrow> 'a field_handler" where
  "set_default_value d f =
     (if \<not> seq_is_valid (fh_last_modified f) then f\<lparr>fh_value := Some d, fh_default_value := Some d\<rparr> else f)"

definition set_value :: "'a \<Rightarrow> 'a field_handler \<Rightarrow> 'a field_handler" where
  "set_value v f =
     f\<lparr>fh_value := Some v,
       fh_last_modified :=
         (case fh_default_value f of
            Some d \<Rightarrow> if values_equal f d v then Invalid else ValidNonSequence
          | None \<Rightarrow> ValidNonSequence)\<rparr>"

definition set_optional_value :: "'a option \<Rightarrow> 'a field_handler \<Rightarrow> 'a field_handler" where
  "set_optional_value v f = (case v of Some x \<Rightarrow> set_value x f | None \<Rightarrow> clear_value f)"

text \<open>The callback of \<open>access\<close> returns the value it leaves behind and whether it changed it.\<close>

definition field_access :: "'a \<Rightarrow> ('a \<Rightarrow> 'a \<times> bool) \<Rightarrow> 'a field_handler \<Rightarrow> 'a field_handler" where
  "field_access dflt cb f =
     (case fh_value f of
        Some v \<Rightarrow>
          (let (v', changed) = cb v; f = f\<lparr>fh_value := Some v'\<rparr>
           in if changed then f\<lparr>fh_last_modified := ValidNonSequence\<rparr> else f)
      | None \<Rightarrow>
          (let (v', changed) = cb dflt
           in if changed then f\<lparr>fh_value := Some v', fh_last_modified := ValidNonSequence\<rparr> else f))"

definition set_current_value_as_default :: "'a \<Rightarrow> 'a field_handler \<Rightarrow> 'a field_handler" where
  "set_current_value_as_default dflt f =
     (let v = effective_value dflt f
      in f\<lparr>fh_value := Some v, fh_default_value := Some v, fh_last_modified := Invalid\<rparr>)"

section \<open>Merge\<close>

text \<open>The destination is \<open>self\<close>; the result is what the merge detects and the destination after it.\<close>

definition field_merge ::
    "'a \<Rightarrow> bool \<Rightarrow> 'a field_handler \<Rightarrow> 'a field_handler \<Rightarrow> hub_seq \<Rightarrow> bool \<Rightarrow> 'a field_handler \<Rightarrow>
     bool \<times> 'a field_handler" where
  "field_merge dflt same old new seq inherit self =
     (let old_seq = fh_last_modified old; self = self\<lparr>fh_has_new_network_data := False\<rparr> in
      if same then
        (True,
         if seq_is_valid (fh_last_modified new)
           then self\<lparr>fh_last_modified := seq, fh_value := fh_value new, fh_has_new_network_data := True\<rparr>
         else if fh_default_value new \<noteq> None then self\<lparr>fh_value := fh_value new\<rparr>
         else self)
      else
        let self = self\<lparr>fh_default_value :=
              (case fh_default_value old of Some d \<Rightarrow> Some d | None \<Rightarrow> fh_default_value new)\<rparr>;
            old_effective = effective_value dflt old; new_effective = effective_value dflt new in
        if is_default_value new then
          let old_equals_new = values_equal self new_effective old_effective in
          if \<not> seq_is_valid (fh_last_modified old) \<and> old_equals_new then
            (False, self\<lparr>fh_last_modified := Invalid, fh_value := Some new_effective,
               fh_has_new_network_data := (if inherit then fh_has_new_network_data old else False)\<rparr>)
          else if old_equals_new then
            (False, self\<lparr>fh_last_modified := old_seq, fh_value := Some new_effective,
               fh_has_new_network_data := fh_has_new_network_data old\<rparr>)
          else
            (True, self\<lparr>fh_last_modified := seq, fh_value := Some new_effective, fh_has_new_network_data := True\<rparr>)
        else if seq_is_valid (fh_last_modified new) then
          if seq_is_valid old_seq \<and> values_equal self new_effective old_effective then
            (False, self\<lparr>fh_last_modified := old_seq, fh_value := fh_value old,
               fh_has_new_network_data := (if inherit then fh_has_new_network_data old else False)\<rparr>)
          else
            (True, self\<lparr>fh_last_modified := seq, fh_value := fh_value new, fh_has_new_network_data := True\<rparr>)
        else
          (False, self\<lparr>fh_last_modified := old_seq, fh_value := fh_value old,
             fh_has_new_network_data := (if inherit then fh_has_new_network_data old else False)\<rparr>))"

section \<open>Wire form\<close>

definition field_marshal :: "'a codec \<Rightarrow> 'a field_handler \<Rightarrow> write_buffer \<Rightarrow> write_buffer option" where
  "field_marshal c f wb = (case fh_value f of Some v \<Rightarrow> c_marshal c v wb | None \<Rightarrow> Some wb)"

definition field_unmarshal :: "'a codec \<Rightarrow> 'a field_handler reader" where
  "field_unmarshal c = rmap (\<lambda>v. \<lparr>fh_value = Some v, fh_last_modified = ValidNonSequence, fh_default_value = None,
     fh_has_new_network_data = True, fh_equals = None\<rparr>) (c_unmarshal c)"

text \<open>
  \<open>marshal_replicated_fields!\<close>: groups of eight fields, a presence mask in front of each group, then the
  fields of the group that have a value.
\<close>

fun marshal_group :: "('a codec \<times> 'a field_handler) list \<Rightarrow> write_buffer \<Rightarrow> write_buffer option" where
  "marshal_group [] wb = Some wb"
| "marshal_group ((c, f) # fs) wb =
     (case if has_field_payload f then field_marshal c f wb else Some wb of
        None \<Rightarrow> None
      | Some wb \<Rightarrow> marshal_group fs wb)"

function marshal_replicated_fields ::
    "('a codec \<times> 'a field_handler) list \<Rightarrow> write_buffer \<Rightarrow> write_buffer option" where
  "marshal_replicated_fields fs wb =
     (if fs = [] then Some wb
      else case marshal_group (take 8 fs)
                  (write_u8 (pack_flags (map (\<lambda>(c, f). has_field_payload f) (take 8 fs))) wb) of
             None \<Rightarrow> None
           | Some wb \<Rightarrow> marshal_replicated_fields (drop 8 fs) wb)"
  by pat_completeness auto
termination by (relation "measure (\<lambda>(fs, wb). length fs)") auto

declare marshal_replicated_fields.simps [simp del]

text \<open>\<open>unmarshal_replicated_fields!\<close>: a mask is read at every eighth field; an absent field keeps its handler.\<close>

fun unmarshal_fields_from :: "nat \<Rightarrow> u8 \<Rightarrow> ('a codec \<times> 'a field_handler) list \<Rightarrow> 'a field_handler list reader" where
  "unmarshal_fields_from i bitmask [] = rreturn []"
| "unmarshal_fields_from i bitmask ((c, f) # fs) =
     rbind (if i mod 8 = 0 then read_u8 else rreturn bitmask) (\<lambda>bitmask.
     rbind (if flag_set bitmask (i mod 8) then field_unmarshal c else rreturn f) (\<lambda>f'.
     rmap ((#) f') (unmarshal_fields_from (i + 1) bitmask fs)))"

definition unmarshal_replicated_fields :: "('a codec \<times> 'a field_handler) list \<Rightarrow> 'a field_handler list reader" where
  "unmarshal_replicated_fields fs = unmarshal_fields_from 0 0 fs"

section \<open>The trait of all field handlers\<close>

text \<open>
  \<open>ReplicatedFieldHandlerBase\<close> as the record of its operations, together with the \<open>Marshal\<close> and \<open>Unmarshal\<close>
  of the handler type; a generated state uses its fields through it. The merge takes the old value, the
  new one and the destination, and gives back what it detects, the destination and the new value,
  which some handlers change.
\<close>

record 's handler =
  hb_is_default_value :: "'s \<Rightarrow> bool"
  hb_set_current_value_as_default :: "'s \<Rightarrow> 's"
  hb_is_dirty :: "hub_seq \<Rightarrow> 's \<Rightarrow> bool"
  hb_has_value :: "'s \<Rightarrow> bool"
  hb_marshal :: "'s \<Rightarrow> write_buffer \<Rightarrow> write_buffer option"
  hb_unmarshal :: "'s reader"
  hb_merge :: "'s \<Rightarrow> 's \<Rightarrow> hub_seq \<Rightarrow> bool \<Rightarrow> 's \<Rightarrow> bool \<times> 's \<times> 's"
  hb_last_modified :: "'s \<Rightarrow> hub_seq"
  hb_set_last_modified :: "hub_seq \<Rightarrow> 's \<Rightarrow> 's"
  hb_reset_has_new_network_data :: "'s \<Rightarrow> 's"
  hb_has_new_network_data :: "'s \<Rightarrow> bool"

definition field_base :: "'a codec \<Rightarrow> 'a \<Rightarrow> 'a field_handler handler" where
  "field_base c dflt =
     \<lparr>hb_is_default_value = is_default_value, hb_set_current_value_as_default = set_current_value_as_default dflt,
      hb_is_dirty = is_dirty_since, hb_has_value = has_value, hb_marshal = field_marshal c,
      hb_unmarshal = field_unmarshal c,
      hb_merge = (\<lambda>old new seq inherit self. let (detected, m) = field_merge dflt False old new seq inherit self
                  in (detected, m, new)),
      hb_last_modified = fh_last_modified, hb_set_last_modified = set_last_modified,
      hb_reset_has_new_network_data = reset_has_new_network_data,
      hb_has_new_network_data = fh_has_new_network_data\<rparr>"

section \<open>Byte policies, the counter and the timer\<close>

definition byte_from_u16 :: "u16 \<Rightarrow> u8" where "byte_from_u16 v = ucast (v AND 0x00ff)"
definition byte_from_u32 :: "u32 \<Rightarrow> u8" where "byte_from_u32 v = ucast (v AND 0x000000ff)"

definition omit_lower_byte_codec :: "u16 codec" where
  "omit_lower_byte_codec = \<lparr>c_size = 1, c_marshal = (\<lambda>v wb. Some (write_u8 (ucast (drop_bit 8 v)) wb)),
     c_unmarshal = rmap (\<lambda>b. push_bit 8 (ucast b)) read_u8\<rparr>"

definition delta_u16_codec :: "u16 codec" where
  "delta_u16_codec = \<lparr>c_size = 1, c_marshal = (\<lambda>v wb. Some (write_u8 (byte_from_u16 v) wb)),
     c_unmarshal = rmap ucast read_u8\<rparr>"

definition delta_u32_codec :: "u32 codec" where
  "delta_u32_codec = \<lparr>c_size = 1, c_marshal = (\<lambda>v wb. Some (write_u8 (byte_from_u32 v) wb)),
     c_unmarshal = rmap ucast read_u8\<rparr>"

record delta_counter =
  absolute_portion :: "u16 field_handler"
  relative_portion :: "u16 field_handler"

definition counter_default :: delta_counter where
  "counter_default = \<lparr>absolute_portion = field_default, relative_portion = field_default\<rparr>"

definition values_in_byte :: u16 where "values_in_byte = 255"

definition counter_is_within_delta :: "u16 \<Rightarrow> delta_counter \<Rightarrow> bool" where
  "counter_is_within_delta v c \<longleftrightarrow>
     (let a = effective_value 0 (absolute_portion c) in a \<le> v \<and> v - a \<le> values_in_byte)"

definition counter_set_value :: "u16 \<Rightarrow> delta_counter \<Rightarrow> delta_counter" where
  "counter_set_value v c =
     (if \<not> is_field_valid (absolute_portion c) \<or> \<not> counter_is_within_delta v c then
        let rel = v mod (values_in_byte + 1)
        in c\<lparr>absolute_portion := set_value (v - rel) (absolute_portion c),
             relative_portion := set_value rel (relative_portion c)\<rparr>
      else c\<lparr>relative_portion := set_value (v - effective_value 0 (absolute_portion c)) (relative_portion c)\<rparr>)"

definition counter_value :: "delta_counter \<Rightarrow> u16" where
  "counter_value c = effective_value 0 (absolute_portion c) + effective_value 0 (relative_portion c)"

text \<open>
  The timer after its float has been quantised: four byte fields that hold a 32-bit number, of which
  only the bytes from the highest one that changes are set.
\<close>

definition timer_raw :: "u8 field_handler list \<Rightarrow> u32" where
  "timer_raw data =
     (let b = (\<lambda>i. ucast (effective_value 0 (data ! i)) :: u32)
      in push_bit 24 (b 3) OR push_bit 16 (b 2) OR push_bit 8 (b 1) OR b 0)"

definition timer_bytes_required :: "u32 \<Rightarrow> u32 \<Rightarrow> nat" where
  "timer_bytes_required new old =
     (let diff = new XOR old in
      if diff AND 0xff000000 \<noteq> 0 then 4 else if diff AND 0xffff0000 \<noteq> 0 then 3
      else if diff AND 0x0000ff00 \<noteq> 0 then 2 else 1)"

definition timer_set_quantized :: "u32 \<Rightarrow> u8 field_handler list \<Rightarrow> u8 field_handler list" where
  "timer_set_quantized q data =
     (let n = (if list_all is_field_valid data then timer_bytes_required q (timer_raw data) else 4);
          set_byte = (\<lambda>i data. data[i := set_value (byte_from_u32 (drop_bit (8 * i) q)) (data ! i)]);
          data = (if n \<ge> 4 then set_byte 3 data else data);
          data = (if n \<ge> 3 then set_byte 2 data else data);
          data = (if n \<ge> 2 then set_byte 1 data else data)
      in set_byte 0 data)"

section \<open>A field reaches the client\<close>

definition field_ok :: "'a field_handler \<Rightarrow> bool" where
  "field_ok f \<longleftrightarrow> (is_field_valid f \<longrightarrow> fh_value f \<noteq> None)"

text \<open>The operations of an owner keep a valid field from losing its value.\<close>

lemma field_ok_ops:
  "field_ok field_default" "field_ok (field_new v)" "field_ok (clear_value f)" "field_ok (set_value x f)"
  "field_ok (set_current_value_as_default d f)" "field_ok f \<Longrightarrow> field_ok (field_access d cb f)"
  "field_ok f \<Longrightarrow> field_ok (set_default_value x f)" "field_ok f \<Longrightarrow> field_ok (reset_has_new_network_data f)"
  by (auto simp: field_ok_def is_field_valid_def field_default_def field_new_def clear_value_def set_value_def
      set_current_value_as_default_def field_access_def set_default_value_def reset_has_new_network_data_def Let_def
      split: option.splits prod.splits)

lemma default_value_Some: "is_default_value f \<Longrightarrow> fh_value f \<noteq> None"
  by (auto simp: is_default_value_def split: option.splits)

lemma field_ok_merge:
  "field_ok old \<Longrightarrow> field_ok new \<Longrightarrow> field_ok (snd (field_merge d False old new seq inh self))"
  by (auto simp: field_merge_def field_ok_def is_field_valid_def Let_def)

lemma merge_value:
  assumes "fh_equals self = None"
  shows "effective_value d (snd (field_merge d False old new seq inh self)) =
    (if is_default_value new \<or> is_field_valid new then effective_value d new else effective_value d old)"
  using assms
  by (auto simp: field_merge_def effective_value_def values_equal_def is_field_valid_def Let_def split: option.splits)

lemma merge_sequence:
  assumes "fh_equals self = None"
  shows "(let m = snd (field_merge d False old new seq inh self) in
     fh_last_modified m = seq \<or>
     (effective_value d m = effective_value d old
      \<and> fh_last_modified m \<in> {Invalid, fh_last_modified old}))"
  using assms by (auto simp: field_merge_def effective_value_def values_equal_def Let_def split: option.splits)

lemma not_dirty_Invalid: "fh_last_modified f = Invalid \<Longrightarrow> \<not> is_dirty_since b f"
  by (simp add: is_dirty_since_def)

text \<open>A merged field that is sent, read back and merged by the client gives the client its value.\<close>

lemma field_sent:
  assumes "lawful_codec c valid enc" "fh_value m = Some v" "valid v" "fh_equals self = None"
  shows "\<exists>wb g. field_marshal c m (write_new e) = Some wb
    \<and> fst (field_unmarshal c (read_new e (wdata wb @ rest))) = Ok g
    \<and> effective_value d (snd (field_merge d False client g seq inh self)) = v"
proof -
  obtain wb where wb: "c_marshal c v (write_new e) = Some wb"
    "c_unmarshal c (read_new e (wdata wb @ rest)) = (Ok v, advance (length (wdata wb)) (read_new e (wdata wb @ rest)))"
    using lawful_codec.codec_roundtrip [OF assms(1,3)] by metis
  let ?g = "\<lparr>fh_value = Some v, fh_last_modified = ValidNonSequence, fh_default_value = None,
     fh_has_new_network_data = True, fh_equals = None\<rparr>"
  have "fst (field_unmarshal c (read_new e (wdata wb @ rest))) = Ok ?g"
    using wb(2) by (simp add: field_unmarshal_def)
  moreover have "effective_value d (snd (field_merge d False client ?g seq inh self)) = v"
    using merge_value [OF assms(4), of d client ?g seq inh] by (simp add: is_field_valid_def effective_value_def)
  ultimately show ?thesis using wb(1) assms(2) by (auto simp: field_marshal_def)
qed

text \<open>
  A change of a replicated field reaches a client that was up to date at the baseline: the server
  merges the new field under a sequence number above the baseline and sends it when it is dirty since
  the baseline; after the client has merged what it received, or received nothing, it has the value
  of the server, which is that of the new field when that one is valid or at its default.
\<close>

lemma field_update_reaches_client:
  assumes codec: "lawful_codec c valid enc" "valid (effective_value d new)"
    and eq: "fh_equals self = None" "fh_equals self' = None"
    and ok: "field_ok old" "field_ok new"
    and current: "effective_value d client = effective_value d old" "\<not> is_dirty_since b old"
    and seq: "seq_is_valid seq" "b < seq"
  shows "let m = snd (field_merge d False old new seq inh self) in
    effective_value d m = (if is_default_value new \<or> is_field_valid new then effective_value d new else effective_value d old)
    \<and> (if is_dirty_since b m
       then \<exists>wb g. field_marshal c m (write_new e) = Some wb
         \<and> fst (field_unmarshal c (read_new e (wdata wb @ rest))) = Ok g
         \<and> effective_value d (snd (field_merge d False client g seq' inh' self')) = effective_value d m
       else effective_value d client = effective_value d m)"
proof -
  let ?m = "snd (field_merge d False old new seq inh self)"
  have v: "effective_value d ?m = (if is_default_value new \<or> is_field_valid new then effective_value d new else effective_value d old)"
    by (rule merge_value [OF eq(1)])
  show ?thesis
  proof (cases "is_dirty_since b ?m")
    case True
    then have "fh_last_modified ?m \<noteq> Invalid" "\<not> (fh_last_modified ?m = fh_last_modified old)"
      using current(2) by (auto simp: is_dirty_since_def)
    then have "fh_value ?m = Some (effective_value d new)"
      using ok default_value_Some [of new] eq(1)
      by (auto simp: field_merge_def effective_value_def field_ok_def is_field_valid_def Let_def split: if_splits option.splits)
    then show ?thesis
      using True v field_sent [OF codec(1) _ codec(2) eq(2), of ?m e rest d client seq' inh']
      by (simp add: effective_value_def)
  next
    case False
    then have "fh_last_modified ?m \<noteq> seq" using seq by (auto simp: is_dirty_since_def)
    then have "effective_value d ?m = effective_value d old"
      using merge_sequence [OF eq(1), of d old new seq inh] by (simp add: Let_def)
    then show ?thesis using False v current(1) by (simp add: Let_def)
  qed
qed

text \<open>
  Merging the same incoming field again changes nothing and detects nothing: the value and the
  sequence number of the first merge stay.
\<close>

theorem field_merge_idempotent:
  assumes "fh_equals self = None" "fh_equals self' = None" "seq_is_valid seq"
  shows "let m = snd (field_merge d False old new seq inh self); r = field_merge d False m new seq' inh' self'
    in fst r = False \<and> fh_value (snd r) = fh_value m \<and> fh_last_modified (snd r) = fh_last_modified m"
  using assms default_value_Some [of new]
  by (auto simp: field_merge_def effective_value_def values_equal_def Let_def split: option.splits)


theorem field_merge_idempotent_witness:
  "let m = snd (field_merge 0 False (field_some 3) (field_some 7) (Seq 5) False field_default);
       r = field_merge 0 False m (field_some 7 :: u8 field_handler) (Seq 6) False field_default
   in fst r = False \<and> fh_value (snd r) = fh_value m \<and> fh_last_modified (snd r) = fh_last_modified m"
  by (rule field_merge_idempotent) (simp_all add: field_default_def seq_is_valid_Seq)

section \<open>A struct of fields is read back\<close>

definition received_field :: "'a \<Rightarrow> 'a field_handler" where
  "received_field v = \<lparr>fh_value = Some v, fh_last_modified = ValidNonSequence, fh_default_value = None,
     fh_has_new_network_data = True, fh_equals = None\<rparr>"

definition field_enc :: "('a codec \<Rightarrow> endian \<Rightarrow> 'a \<Rightarrow> bytes) \<Rightarrow> endian \<Rightarrow> 'a codec \<times> 'a field_handler \<Rightarrow> bytes" where
  "field_enc enc e = (\<lambda>(c, f). case fh_value f of Some v \<Rightarrow> enc c e v | None \<Rightarrow> [])"

lemma field_enc_simps [simp]:
  "fh_value f = Some v \<Longrightarrow> field_enc enc e (c, f) = enc c e v" "fh_value f = None \<Longrightarrow> field_enc enc e (c, f) = []"
  by (simp_all add: field_enc_def)

definition wire_field_ok ::
    "('a codec \<Rightarrow> 'a \<Rightarrow> bool) \<Rightarrow> ('a codec \<Rightarrow> endian \<Rightarrow> 'a \<Rightarrow> bytes) \<Rightarrow> 'a codec \<times> 'a field_handler \<Rightarrow> bool" where
  "wire_field_ok valid enc = (\<lambda>(c, f). lawful_codec c (valid c) (enc c)
     \<and> (case fh_value f of Some v \<Rightarrow> valid c v | None \<Rightarrow> True))"

definition payload_flags :: "('a codec \<times> 'a field_handler) list \<Rightarrow> bool list" where
  "payload_flags fs = map (\<lambda>(c, f). has_field_payload f) fs"

function fields_enc ::
    "('a codec \<Rightarrow> endian \<Rightarrow> 'a \<Rightarrow> bytes) \<Rightarrow> endian \<Rightarrow> ('a codec \<times> 'a field_handler) list \<Rightarrow> bytes" where
  "fields_enc enc e fs =
     (if fs = [] then []
      else pack_flags (payload_flags (take 8 fs)) # concat (map (field_enc enc e) (take 8 fs)) @ fields_enc enc e (drop 8 fs))"
  by pat_completeness auto
termination by (relation "measure (\<lambda>(enc, e, fs). length fs)") auto

declare fields_enc.simps [simp del]

lemma write_bytes_write [simp]:
  "write_bytes b (write_bytes a wb) = write_bytes (a @ b) wb" "write_bytes a (write_u8 x wb) = write_bytes (x # a) wb"
  "write_bytes [] wb = wb" "wendian (write_bytes a wb) = wendian wb" "wendian (write_u8 x wb) = wendian wb"
  by (simp_all add: write_bytes_def write_u8_def)

lemma marshal_group_enc:
  "list_all (wire_field_ok valid enc) fs \<Longrightarrow>
     marshal_group fs wb = Some (write_bytes (concat (map (field_enc enc (wendian wb)) fs)) wb)"
proof (induction fs arbitrary: wb)
  case (Cons p fs)
  obtain c f where p: "p = (c, f)" by (metis prod.exhaust)
  show ?case
  proof (cases "fh_value f")
    case None
    then show ?thesis using Cons p by (simp add: has_field_payload_def)
  next
    case (Some v)
    then have "c_marshal c v wb = Some (write_bytes (enc c (wendian wb) v) wb)"
      using Cons.prems p lawful_codec.marshal_enc by (fastforce simp: wire_field_ok_def)
    then show ?thesis
      using Cons p Some by (simp add: has_field_payload_def field_marshal_def)
  qed
qed simp

lemma marshal_fields_enc:
  "list_all (wire_field_ok valid enc) fs \<Longrightarrow>
     marshal_replicated_fields fs wb = Some (write_bytes (fields_enc enc (wendian wb) fs) wb)"
proof (induction fs wb rule: marshal_replicated_fields.induct)
  case (1 fs wb)
  show ?case
  proof (cases "fs = []")
    case False
    let ?wb = "write_u8 (pack_flags (map (\<lambda>(c, f). has_field_payload f) (take 8 fs))) wb"
    have ok: "list_all (wire_field_ok valid enc) (take 8 fs)" "list_all (wire_field_ok valid enc) (drop 8 fs)"
      using 1(2) by (auto simp: list_all_iff dest: in_set_takeD in_set_dropD)
    show ?thesis
      using 1(1) [OF False marshal_group_enc [OF ok(1), of ?wb] ok(2)] False marshal_group_enc [OF ok(1), of ?wb]
      by (simp add: marshal_replicated_fields.simps [of fs] fields_enc.simps [of enc _ fs] payload_flags_def)
  qed (simp add: marshal_replicated_fields.simps fields_enc.simps)
qed

text \<open>What is left to read in the middle of a group: its remaining fields, then the groups after it.\<close>

definition rest_enc ::
    "('a codec \<Rightarrow> endian \<Rightarrow> 'a \<Rightarrow> bytes) \<Rightarrow> endian \<Rightarrow> nat \<Rightarrow> ('a codec \<times> 'a field_handler) list \<Rightarrow> bytes" where
  "rest_enc enc e k fs =
     (if k = 0 then fields_enc enc e fs
      else concat (map (field_enc enc e) (take (8 - k) fs)) @ fields_enc enc e (drop (8 - k) fs))"

lemma rest_enc_Cons:
  "0 < k \<Longrightarrow> k < 8 \<Longrightarrow> rest_enc enc e k (p # fs) = field_enc enc e p @ rest_enc enc e (Suc k mod 8) fs"
  by (cases "k = 7") (auto simp: rest_enc_def take_Cons' drop_Cons')

lemma rest_enc_first:
  "rest_enc enc e 0 (p # fs) = pack_flags (payload_flags (take 8 (p # fs))) # field_enc enc e p @ rest_enc enc e 1 fs"
  by (simp add: rest_enc_def fields_enc.simps [of enc e "p # fs"])

definition mask_matches :: "u8 \<Rightarrow> nat \<Rightarrow> ('a codec \<times> 'a field_handler) list \<Rightarrow> bool" where
  "mask_matches m k fs \<longleftrightarrow> (\<forall>j < min (8 - k) (length fs). flag_set m (k + j) = payload_flags fs ! j)"

lemma mask_matches_first: "mask_matches (pack_flags (payload_flags (take 8 fs))) 0 fs"
  by (auto simp: mask_matches_def flag_set_bit pack_flags_bit payload_flags_def)

lemma mask_matches_Cons:
  assumes "mask_matches m k (p # fs)" "k < 8"
  shows "flag_set m k = has_field_payload (snd p)" "Suc k < 8 \<Longrightarrow> mask_matches m (Suc k) fs"
proof -
  have *: "flag_set m (k + j) = payload_flags (p # fs) ! j" if "j < min (8 - k) (Suc (length fs))" for j
    using assms that by (simp add: mask_matches_def)
  show "flag_set m k = has_field_payload (snd p)" using * [of 0] assms(2) by (simp add: payload_flags_def split: prod.splits)
  show "mask_matches m (Suc k) fs" if "Suc k < 8"
    unfolding mask_matches_def
  proof (intro allI impI)
    fix j assume "j < min (8 - Suc k) (length fs)"
    then show "flag_set m (Suc k + j) = payload_flags fs ! j"
      using * [of "Suc j"] by (simp add: payload_flags_def less_diff_conv)
  qed
qed


lemma field_unmarshal_enc:
  assumes "wire_field_ok valid enc (c, f)" "fh_value f = Some v" "remaining rb = field_enc enc (rendian rb) (c, f) @ bs"
  shows "\<exists>rb'. field_unmarshal c rb = (Ok (received_field v), rb') \<and> remaining rb' = bs \<and> rendian rb' = rendian rb"
proof -
  have l: "lawful_codec c (valid c) (enc c)" "valid c v" using assms(1,2) by (simp_all add: wire_field_ok_def)
  have r: "remaining rb = enc c (rendian rb) v @ bs" using assms(2,3) by simp
  then have "c_unmarshal c rb = (Ok v, advance (length (enc c (rendian rb) v)) rb)"
    by (rule lawful_codec.unmarshal_enc [OF l])
  then show ?thesis using r by (simp add: field_unmarshal_def received_field_def)
qed

definition merge_received :: "'a codec \<times> 'a field_handler \<Rightarrow> 'a field_handler \<Rightarrow> 'a field_handler" where
  "merge_received = (\<lambda>(c, f) g. case fh_value f of Some v \<Rightarrow> received_field v | None \<Rightarrow> g)"

text \<open>One field: its presence bit, then its value if it has one.\<close>

lemma read_one_field:
  assumes "wire_field_ok valid enc (c, f)" "flag_set m k = has_field_payload f"
    "remaining rb = field_enc enc (rendian rb) (c, f) @ bs"
  shows "\<exists>rb'. (if flag_set m k then field_unmarshal c else rreturn g) rb = (Ok (merge_received (c, f) g), rb')
    \<and> remaining rb' = bs \<and> rendian rb' = rendian rb"
proof (cases "fh_value f")
  case None
  then show ?thesis using assms(2,3) by (simp add: has_field_payload_def merge_received_def)
next
  case (Some v)
  then show ?thesis
    using assms(2) field_unmarshal_enc [OF assms(1) Some assms(3)] by (simp add: has_field_payload_def merge_received_def)
qed

lemma unmarshal_fields_enc:
  assumes "list_all (wire_field_ok valid enc) fs" "length gs = length fs"
    "i mod 8 \<noteq> 0 \<Longrightarrow> mask_matches m (i mod 8) fs" "remaining rb = rest_enc enc (rendian rb) (i mod 8) fs @ bs"
  shows "\<exists>rb'. unmarshal_fields_from i m (zip (map fst fs) gs) rb = (Ok (map2 merge_received fs gs), rb') \<and> remaining rb' = bs"
  using assms
proof (induction fs arbitrary: i m gs rb)
  case Nil
  then show ?case by (cases "i mod 8 = 0") (simp_all add: rest_enc_def fields_enc.simps)
next
  case (Cons p fs)
  obtain c f g gs' where p: "p = (c, f)" "gs = g # gs'" by (metis Cons.prems(2) length_Suc_conv prod.exhaust list.size(4))
  let ?k = "i mod 8"
  have k: "?k < 8" "(i + 1) mod 8 = Suc ?k mod 8" by (simp_all add: mod_Suc_eq)
  obtain m1 rb1 where m1: "(if ?k = 0 then read_u8 else rreturn m) rb = (Ok m1, rb1)" "rendian rb1 = rendian rb"
    "mask_matches m1 ?k (p # fs)" "remaining rb1 = field_enc enc (rendian rb) p @ rest_enc enc (rendian rb) (Suc ?k mod 8) fs @ bs"
  proof (cases "?k = 0")
    case True
    then have r: "remaining rb = pack_flags (payload_flags (take 8 (p # fs))) #
        field_enc enc (rendian rb) p @ rest_enc enc (rendian rb) 1 fs @ bs"
      using Cons.prems(4) by (simp add: rest_enc_first)
    show ?thesis
      using that True read_u8_Cons [OF r] mask_matches_first [of "p # fs"] r by simp
  next
    case False
    then show ?thesis using that Cons.prems(3,4) k(1) by (simp add: rest_enc_Cons)
  qed
  obtain rb2 where rb2: "(if flag_set m1 ?k then field_unmarshal c else rreturn g) rb1 = (Ok (merge_received p g), rb2)"
    "remaining rb2 = rest_enc enc (rendian rb) (Suc ?k mod 8) fs @ bs" "rendian rb2 = rendian rb"
    using read_one_field [of valid enc c f m1 ?k rb1 _ g] mask_matches_Cons(1) [OF m1(3) k(1)] Cons.prems(1) m1(2,4) p(1)
    by auto
  have "Suc ?k mod 8 \<noteq> 0 \<Longrightarrow> mask_matches m1 (Suc ?k mod 8) fs"
    using mask_matches_Cons(2) [OF m1(3) k(1)] k(1) by (cases "Suc ?k = 8") auto
  then obtain rb3 where "unmarshal_fields_from (i + 1) m1 (zip (map fst fs) gs') rb2 = (Ok (map2 merge_received fs gs'), rb3)"
    "remaining rb3 = bs"
    using Cons.IH [of gs' "i + 1" m1 rb2] Cons.prems(1,2) p(2) rb2(2,3) k(2) by auto
  then show ?case using m1(1) rb2(1) p by simp
qed

text \<open>
  A struct of replicated fields is read back: every field that has a value is received with that
  value, every other field keeps what the receiver had, for any number of fields, and the bytes after
  the struct are left.
\<close>

theorem replicated_fields_roundtrip:
  assumes "list_all (wire_field_ok valid enc) fs" "length gs = length fs"
  shows "\<exists>wb rb'. marshal_replicated_fields fs (write_new e) = Some wb
    \<and> unmarshal_replicated_fields (zip (map fst fs) gs) (read_new e (wdata wb @ rest)) =
        (Ok (map2 merge_received fs gs), rb') \<and> remaining rb' = rest"
proof -
  have "\<exists>rb'. unmarshal_fields_from 0 0 (zip (map fst fs) gs) (read_new e (fields_enc enc e fs @ rest)) =
      (Ok (map2 merge_received fs gs), rb') \<and> remaining rb' = rest"
    by (rule unmarshal_fields_enc [OF assms]) (simp_all add: rest_enc_def read_new_def remaining_def)
  then show ?thesis
    using marshal_fields_enc [OF assms(1), of "write_new e"]
    by (simp add: unmarshal_replicated_fields_def write_bytes_def write_new_def)
qed


theorem replicated_fields_roundtrip_witness:
  "\<exists>wb rb'. marshal_replicated_fields [(u8_codec, field_some 3), (u8_codec, field_default)] (write_new BigEndian) = Some wb
    \<and> unmarshal_replicated_fields (zip [u8_codec, u8_codec] [field_default, field_some 9]) (read_new BigEndian (wdata wb @ [1])) =
        (Ok [received_field 3, field_some 9], rb') \<and> remaining rb' = [1]"
  using replicated_fields_roundtrip [of "\<lambda>_ _. True" "\<lambda>_ _ v. [v]" "[(u8_codec, field_some 3), (u8_codec, field_default)]"
      "[field_default, field_some 9]" BigEndian "[1]"] lawful_scalars(1)
  by (simp add: wire_field_ok_def field_some_def field_new_def field_default_def merge_received_def)

section \<open>The counter\<close>

definition counter_ok :: "delta_counter \<Rightarrow> bool" where
  "counter_ok c \<longleftrightarrow> fh_default_value (absolute_portion c) = None \<and> field_ok (absolute_portion c)
     \<and> push_bit 8 (drop_bit 8 (effective_value 0 (absolute_portion c))) = effective_value 0 (absolute_portion c)
     \<and> effective_value 0 (relative_portion c) \<le> 255"

lemma set_value_simps [simp]:
  "effective_value d (set_value v f) = v" "fh_default_value (set_value v f) = fh_default_value f"
  "fh_default_value f = None \<Longrightarrow> is_field_valid (set_value v f)"
  by (simp_all add: set_value_def effective_value_def is_field_valid_def split: option.splits)

lemma u16_split: "v - v mod 256 = push_bit 8 (drop_bit 8 v)" for v :: u16
proof -
  have "v mod 256 = take_bit 8 v" by (simp add: take_bit_eq_mod)
  moreover have "push_bit 8 (drop_bit 8 v) + take_bit 8 v = v" by (rule bits_ident)
  ultimately show ?thesis by (metis add_diff_cancel_right')
qed

lemma high_byte_idem: "push_bit 8 (drop_bit 8 (push_bit 8 (drop_bit 8 v))) = push_bit 8 (drop_bit 8 v)" for v :: u16
  by (rule bit_word_eqI) (auto simp: bit_simps)

lemma counter_set:
  assumes "counter_ok c"
  shows "counter_ok (counter_set_value v c) \<and> counter_value (counter_set_value v c) = v"
proof (cases "is_field_valid (absolute_portion c) \<and> counter_is_within_delta v c")
  case True
  then show ?thesis
    using assms
    by (auto simp: counter_set_value_def counter_value_def counter_ok_def counter_is_within_delta_def
        values_in_byte_def Let_def)
next
  case False
  let ?hi = "push_bit 8 (drop_bit 8 v)"
  have "v mod 256 \<le> 255" using word_mod_less_divisor [of 256 v] by (simp add: word_le_nat_alt word_less_nat_alt)
  moreover have "?hi + v mod 256 = v" using u16_split [of v] by (metis diff_add_cancel)
  moreover have "counter_set_value v c = c\<lparr>absolute_portion := set_value ?hi (absolute_portion c),
      relative_portion := set_value (v mod 256) (relative_portion c)\<rparr>"
    using False by (auto simp: counter_set_value_def values_in_byte_def Let_def u16_split)
  ultimately show ?thesis
    using assms high_byte_idem [of v] field_ok_ops(4)
    by (simp only: counter_value_def counter_ok_def) simp
qed

lemma counter_set_portions:
  "counter_ok c \<Longrightarrow> fh_value (absolute_portion (counter_set_value v c)) \<noteq> None
     \<and> fh_value (relative_portion (counter_set_value v c)) \<noteq> None"
  by (auto simp: counter_set_value_def counter_ok_def field_ok_def set_value_def Let_def)

lemma counter_sets:
  "counter_ok c \<Longrightarrow> counter_ok (fold counter_set_value vs c)
    \<and> (vs \<noteq> [] \<longrightarrow> counter_value (fold counter_set_value vs c) = last vs
        \<and> fh_value (absolute_portion (fold counter_set_value vs c)) \<noteq> None
        \<and> fh_value (relative_portion (fold counter_set_value vs c)) \<noteq> None)"
  by (induction vs arbitrary: c) (simp_all add: counter_set counter_set_portions del: not_None_eq)

text \<open>What the one-byte policies lose is not used: the portions of a counter survive the wire.\<close>

lemma portions_on_wire:
  assumes "counter_ok c"
  shows "push_bit 8 (ucast (ucast (drop_bit 8 (effective_value 0 (absolute_portion c))) :: u8)) =
      effective_value 0 (absolute_portion c)"
    and "ucast (byte_from_u16 (effective_value 0 (relative_portion c))) = effective_value 0 (relative_portion c)"
proof -
  let ?a = "effective_value 0 (absolute_portion c)" and ?r = "effective_value 0 (relative_portion c)"
  have "push_bit 8 (ucast (ucast (drop_bit 8 ?a) :: u8)) = push_bit 8 (drop_bit 8 ?a)"
    by (rule bit_word_eqI) (auto simp: bit_simps)
  then show "push_bit 8 (ucast (ucast (drop_bit 8 ?a) :: u8)) = ?a" using assms by (simp add: counter_ok_def)
  have "?r < 256" using assms by (simp add: counter_ok_def word_le_nat_alt word_less_nat_alt)
  then have "take_bit 8 ?r = ?r" by (simp add: take_bit_eq_mod mod_word_less)
  moreover have "ucast (byte_from_u16 ?r) = take_bit 8 ?r"
    unfolding byte_from_u16_def by (rule bit_word_eqI) (auto simp: bit_simps mask_numerals)
  ultimately show "ucast (byte_from_u16 ?r) = ?r" by simp
qed

text \<open>
  A delta-compressed counter holds the value last set, for every sequence of values, and loses
  nothing on the wire although each of its two portions is sent as one byte.
\<close>

lemma counter_tracks_value:
  "let c = fold counter_set_value vs (counter_set_value v counter_default);
       sent = (\<lambda>codec f. wdata (the (field_marshal codec f (write_new e))))
   in counter_value c = last (v # vs)
     \<and> (\<exists>f g. fst (field_unmarshal omit_lower_byte_codec (read_new e (sent omit_lower_byte_codec (absolute_portion c)))) = Ok f
        \<and> fst (field_unmarshal delta_u16_codec (read_new e (sent delta_u16_codec (relative_portion c)))) = Ok g
        \<and> counter_value \<lparr>absolute_portion = f, relative_portion = g\<rparr> = last (v # vs))"
proof -
  let ?c = "fold counter_set_value (v # vs) counter_default"
  have "counter_ok counter_default"
    by (simp add: counter_ok_def counter_default_def field_ok_ops) (simp add: field_default_def effective_value_def)
  from counter_sets [OF this, of "v # vs"]
  have ok: "counter_ok ?c" "counter_value ?c = last (v # vs)"
    and set: "fh_value (absolute_portion ?c) \<noteq> None" "fh_value (relative_portion ?c) \<noteq> None"
    by simp_all
  have "\<exists>f. fst (field_unmarshal omit_lower_byte_codec
      (read_new e (wdata (the (field_marshal omit_lower_byte_codec (absolute_portion ?c) (write_new e)))))) = Ok f
      \<and> effective_value 0 f = effective_value 0 (absolute_portion ?c)"
    using set(1) portions_on_wire(1) [OF ok(1)]
    by (auto simp: field_marshal_def field_unmarshal_def omit_lower_byte_codec_def effective_value_def write_u8_def
        write_new_def read_u8_def read_new_def)
  moreover have "\<exists>g. fst (field_unmarshal delta_u16_codec
      (read_new e (wdata (the (field_marshal delta_u16_codec (relative_portion ?c) (write_new e)))))) = Ok g
      \<and> effective_value 0 g = effective_value 0 (relative_portion ?c)"
    using set(2) portions_on_wire(2) [OF ok(1)]
    by (auto simp: field_marshal_def field_unmarshal_def delta_u16_codec_def effective_value_def write_u8_def
        write_new_def read_u8_def read_new_def)
  ultimately show ?thesis
    using ok(2) by (auto simp: counter_value_def)
qed

section \<open>The timer\<close>

lemma u8_bit_high: "8 \<le> n \<Longrightarrow> \<not> bit b n" for b :: u8
  by (auto dest: bit_imp_le_length)

lemma bit_timer_raw:
  assumes "j < 4" "r < 8"
  shows "bit (timer_raw data) (8 * j + r) = bit (effective_value 0 (data ! j)) r"
proof -
  have "j = 0 \<or> j = 1 \<or> j = 2 \<or> j = 3" using assms(1) by linarith
  then show ?thesis
    using assms(2)
    by (elim disjE) (simp_all add: timer_raw_def Let_def bit_simps u8_bit_high)
qed

lemma field_bits_clear:
  fixes x :: u32
  assumes "x AND push_bit n (mask m) = 0" "n \<le> k" "k < n + m"
  shows "\<not> bit x k"
proof
  assume "bit x k"
  moreover have "bit (push_bit n (mask m :: u32)) k"
    using assms(2,3) \<open>bit x k\<close> by (auto simp: bit_simps dest: bit_imp_le_length)
  ultimately have "bit (x AND push_bit n (mask m)) k" by (simp add: bit_and_iff)
  then show False using assms(1) by simp
qed

lemma timer_masks:
  "(0xff000000 :: u32) = push_bit 24 (mask 8)" "(0xffff0000 :: u32) = push_bit 16 (mask 16)"
  "(0x0000ff00 :: u32) = push_bit 8 (mask 8)"
  by (simp_all add: mask_eq_exp_minus_1)

text \<open>The bytes that are not set again agree already.\<close>

lemma timer_rest_agrees:
  assumes "timer_bytes_required q old \<le> j" "j < 4" "r < 8"
  shows "bit q (8 * j + r) = bit old (8 * j + r)"
proof -
  have "j = 1 \<and> (q XOR old) AND 0x0000ff00 = 0 \<or> 2 \<le> j \<and> (q XOR old) AND 0xffff0000 = 0 \<or> j = 3 \<and> (q XOR old) AND 0xff000000 = 0"
    using assms(1,2) by (auto simp: timer_bytes_required_def Let_def split: if_splits)
  then have "\<not> bit (q XOR old) (8 * j + r)"
  proof (elim disjE conjE)
    assume "j = 1" "(q XOR old) AND 0x0000ff00 = 0"
    then show ?thesis using assms(3) unfolding timer_masks by (intro field_bits_clear [of _ 8 8]) auto
  next
    assume "2 \<le> j" "(q XOR old) AND 0xffff0000 = 0"
    then show ?thesis using assms(2,3) unfolding timer_masks by (intro field_bits_clear [of _ 16 16]) auto
  next
    assume "j = 3" "(q XOR old) AND 0xff000000 = 0"
    then show ?thesis using assms(3) unfolding timer_masks by (intro field_bits_clear [of _ 24 8]) auto
  qed
  then show ?thesis by (simp add: bit_xor_iff)
qed

lemma bit_timer_byte: "r < 8 \<Longrightarrow> bit (byte_from_u32 (drop_bit (8 * j) q)) r = bit q (8 * j + r)"
  by (auto simp: byte_from_u32_def bit_simps mask_numerals)

lemma timer_set_nth:
  assumes "length data = 4" "j < 4"
  shows "effective_value 0 (timer_set_quantized q data ! j) =
    (if j < (if list_all is_field_valid data then timer_bytes_required q (timer_raw data) else 4)
     then byte_from_u32 (drop_bit (8 * j) q) else effective_value 0 (data ! j))"
proof -
  have "timer_bytes_required q (timer_raw data) \<ge> 1" by (simp add: timer_bytes_required_def Let_def)
  moreover have "j = 0 \<or> j = 1 \<or> j = 2 \<or> j = 3" using assms(2) by linarith
  ultimately show ?thesis
    using assms(1)
    by (elim disjE) (simp_all add: timer_set_quantized_def Let_def nth_list_update)
qed

text \<open>
  The timer holds the number last set: the bytes that are left alone are those on which the old and
  the new number agree.
\<close>

lemma timer_tracks_value:
  assumes "length data = 4"
  shows "timer_raw (timer_set_quantized q data) = q"
proof (rule bit_word_eqI)
  fix k :: nat assume "k < LENGTH(32)"
  then have "k = 8 * (k div 8) + k mod 8" "k div 8 < 4" "k mod 8 < 8" by auto
  then obtain j r where k: "k = 8 * j + r" "j < 4" "r < 8" by blast
  show "bit (timer_raw (timer_set_quantized q data)) k = bit q k"
    using timer_rest_agrees [of q "timer_raw data" j r] bit_timer_raw [OF k(2,3), of data] k assms
    by (auto simp: bit_timer_raw timer_set_nth bit_timer_byte)
qed

end
