(* ===== verification/Replicated_State.thy ===== *)
theory Replicated_State
  imports Replicated_Field Containers
begin

text \<open>
  \<^verbatim>\<open>hub/replicated_state.rs\<close>: the header of a replicated fragment. It holds the filter groups (a
  reference-counted whitelist of clients and the bits of the fields at their default), the outcome of
  the last merge, and the wire form of the group attributes. A correlation id is the 16 bytes of a UUID. The
  fields that \<open>calculate_default_bits\<close> and \<open>apply_default_bits\<close> visit are those of one group of the
  concrete state, each given with the operations of its handler type.

  The masks are computed with shifts by an index below 64; the code asserts the bound in debug builds
  and the release shift takes the index modulo 64.
\<close>

definition max_fields_per_replicated_state :: nat where "max_fields_per_replicated_state = 64"
definition max_filtergroups_per_replicated_state :: nat where "max_filtergroups_per_replicated_state = 10"

section \<open>Filter groups\<close>

record filter_value =
  fv_value :: u64
  fv_ref_count :: u64

definition filter_value_codec :: "filter_value codec" where
  "filter_value_codec =
     \<lparr>c_size = 16, c_marshal = (\<lambda>v wb. Some (write_u64 (fv_ref_count v) (write_u64 (fv_value v) wb))),
      c_unmarshal = rbind read_u64 (\<lambda>v. rmap (\<lambda>n. \<lparr>fv_value = v, fv_ref_count = n\<rparr>) read_u64)\<rparr>"

text \<open>\<open>ReplicatedDefaultBits\<close> is a 64-bit word.\<close>

definition default_bits_get :: "nat \<Rightarrow> u64 \<Rightarrow> bool" where
  "default_bits_get i b \<longleftrightarrow> i < max_fields_per_replicated_state \<and> b AND push_bit i 1 \<noteq> 0"

definition default_bits_set :: "nat \<Rightarrow> bool \<Rightarrow> u64 \<Rightarrow> u64" where
  "default_bits_set i v b =
     (if i \<ge> max_fields_per_replicated_state then b
      else if v then b OR push_bit i 1 else b AND NOT (push_bit i 1))"

record filter_group =
  explicit_client_targets :: "filter_value list field_handler"
  default_bits :: "u64 field_handler"

definition filter_group_default :: filter_group where
  "filter_group_default = \<lparr>explicit_client_targets = field_some [], default_bits = field_some 0\<rparr>"

definition client_targets :: "filter_group \<Rightarrow> filter_value list" where
  "client_targets g = effective_value [] (explicit_client_targets g)"

definition group_default_bits :: "filter_group \<Rightarrow> u64" where
  "group_default_bits g = effective_value 0 (default_bits g)"

record merge_outcome =
  mo_last_modified :: hub_seq
  mo_has_new_network_data :: bool
  mo_detected_new_data :: bool

definition merge_outcome_default :: merge_outcome where
  "merge_outcome_default = \<lparr>mo_last_modified = Invalid, mo_has_new_network_data = False, mo_detected_new_data = False\<rparr>"

record replicated_state =
  correlation_id :: bytes
  filter_groups :: "filter_group list"
  attr_count :: nat
  rs_has_new_network_data :: bool
  rs_detected_new_data_in_last_merge :: bool
  rs_sequence :: hub_seq
  rs_last_modified :: hub_seq
  is_fully_merged_state :: bool

definition with_reserved_groups :: "nat \<Rightarrow> replicated_state" where
  "with_reserved_groups n =
     \<lparr>correlation_id = replicate 16 0, filter_groups = (if n \<noteq> 0 then [filter_group_default] else []), attr_count = 0,
      rs_has_new_network_data = False, rs_detected_new_data_in_last_merge = False, rs_sequence = Invalid,
      rs_last_modified = Invalid, is_fully_merged_state = False\<rparr>"

definition replicated_state_new :: replicated_state where
  "replicated_state_new = with_reserved_groups 1"

definition ensure_filter_groups :: "nat \<Rightarrow> replicated_state \<Rightarrow> replicated_state" where
  "ensure_filter_groups n s =
     (let target = min n max_filtergroups_per_replicated_state in
      s\<lparr>filter_groups := filter_groups s @ replicate (target - length (filter_groups s)) filter_group_default\<rparr>)"

definition add_filter_group :: "replicated_state \<Rightarrow> nat \<times> replicated_state" where
  "add_filter_group s =
     (let i = length (filter_groups s) in
      (i, if i < max_filtergroups_per_replicated_state
          then s\<lparr>filter_groups := filter_groups s @ [filter_group_default]\<rparr> else s))"

definition register_attribute :: "replicated_state \<Rightarrow> replicated_state" where
  "register_attribute s = s\<lparr>attr_count := attr_count s + 1\<rparr>"

definition finish_merge :: "hub_seq \<Rightarrow> bytes \<Rightarrow> merge_outcome \<Rightarrow> replicated_state \<Rightarrow> replicated_state" where
  "finish_merge seq cid oc s =
     s\<lparr>rs_sequence := seq, rs_last_modified := mo_last_modified oc, is_fully_merged_state := True,
       rs_has_new_network_data := mo_has_new_network_data oc,
       rs_detected_new_data_in_last_merge := mo_detected_new_data oc, correlation_id := cid\<rparr>"

definition rs_reset_has_new_network_data :: "replicated_state \<Rightarrow> replicated_state" where
  "rs_reset_has_new_network_data s = s\<lparr>rs_has_new_network_data := False\<rparr>"

definition reset_filter_group_attribute_network_data :: "replicated_state \<Rightarrow> replicated_state" where
  "reset_filter_group_attribute_network_data s =
     s\<lparr>filter_groups := map (\<lambda>g. g\<lparr>explicit_client_targets := reset_has_new_network_data (explicit_client_targets g),
         default_bits := reset_has_new_network_data (default_bits g)\<rparr>) (filter_groups s)\<rparr>"

definition set_has_new_network_data_on_initial_state :: "replicated_state \<Rightarrow> replicated_state" where
  "set_has_new_network_data_on_initial_state s =
     s\<lparr>rs_has_new_network_data := True, rs_detected_new_data_in_last_merge := True\<rparr>"

section \<open>Whitelists\<close>

definition should_send_to_client :: "u64 \<Rightarrow> nat \<Rightarrow> replicated_state \<Rightarrow> bool" where
  "should_send_to_client client g s \<longleftrightarrow>
     (if g \<ge> max_filtergroups_per_replicated_state then False
      else if g \<ge> length (filter_groups s) then True
      else let ts = client_targets (filter_groups s ! g)
        in ts = [] \<or> list_ex (\<lambda>e. fv_value e = client) ts)"

definition update_targets ::
    "nat \<Rightarrow> (filter_value list \<Rightarrow> filter_value list \<times> bool) \<Rightarrow> replicated_state \<Rightarrow> replicated_state" where
  "update_targets g cb s =
     (if g < length (filter_groups s)
      then s\<lparr>filter_groups := (filter_groups s)[g := (filter_groups s ! g)\<lparr>explicit_client_targets :=
             field_access [] cb (explicit_client_targets (filter_groups s ! g))\<rparr>]\<rparr>
      else s)"

fun target_add :: "u64 \<Rightarrow> filter_value list \<Rightarrow> filter_value list" where
  "target_add client [] = [\<lparr>fv_value = client, fv_ref_count = 1\<rparr>]"
| "target_add client (e # es) =
     (if fv_value e = client
      then e\<lparr>fv_ref_count := (if fv_ref_count e = - 1 then - 1 else fv_ref_count e + 1)\<rparr> # es
      else e # target_add client es)"

fun target_remove :: "u64 \<Rightarrow> filter_value list \<Rightarrow> filter_value list" where
  "target_remove client [] = []"
| "target_remove client (e # es) =
     (if fv_value e = client
      then if fv_ref_count e > 1 then e\<lparr>fv_ref_count := fv_ref_count e - 1\<rparr> # es else es
      else e # target_remove client es)"

definition add_client_to_replication_whitelist :: "u64 \<Rightarrow> nat \<Rightarrow> replicated_state \<Rightarrow> replicated_state" where
  "add_client_to_replication_whitelist client g s =
     update_targets g (\<lambda>ts. (target_add client ts, True)) (ensure_filter_groups (g + 1) s)"

definition remove_client_from_replication_whitelist :: "u64 \<Rightarrow> nat \<Rightarrow> replicated_state \<Rightarrow> replicated_state" where
  "remove_client_from_replication_whitelist client g s =
     update_targets g (\<lambda>ts. if list_ex (\<lambda>e. fv_value e = client) ts then (target_remove client ts, True)
                            else (ts, False)) s"

definition clear_replication_whitelist :: "nat \<Rightarrow> replicated_state \<Rightarrow> replicated_state" where
  "clear_replication_whitelist g s = update_targets g (\<lambda>ts. ([], ts \<noteq> [])) s"

section \<open>Default bits\<close>

definition default_bits_of :: "bool list \<Rightarrow> u64" where
  "default_bits_of flags = fold (\<lambda>(i, v) b. default_bits_set i v b) (enumerate 0 flags) 0"

definition calculate_default_bits ::
    "nat \<Rightarrow> ('s handler \<times> 's) list \<Rightarrow> replicated_state \<Rightarrow> u64 \<times> replicated_state" where
  "calculate_default_bits g fs s =
     (let bits = default_bits_of (map (\<lambda>(h, f). hb_is_default_value h f) fs) in
      (bits, if g < length (filter_groups s)
             then s\<lparr>filter_groups := (filter_groups s)[g := (filter_groups s ! g)\<lparr>default_bits :=
                    set_value bits (default_bits (filter_groups s ! g))\<rparr>]\<rparr>
             else s))"

definition apply_default_bits ::
    "nat \<Rightarrow> replicated_state \<Rightarrow> ('s handler \<times> 's) list \<Rightarrow> ('s handler \<times> 's) list" where
  "apply_default_bits g s fs =
     (if g < length (filter_groups s)
      then map (\<lambda>(i, (h, f)). if default_bits_get i (group_default_bits (filter_groups s ! g))
                then (h, hb_set_current_value_as_default h f) else (h, f)) (enumerate 0 fs)
      else fs)"

section \<open>Merging group attributes\<close>

definition seq_max :: "hub_seq \<Rightarrow> hub_seq \<Rightarrow> hub_seq" where
  "seq_max a b = (if a \<le> b then b else a)"

definition outcome_add :: "bool \<Rightarrow> hub_seq \<Rightarrow> bool \<Rightarrow> merge_outcome \<Rightarrow> merge_outcome" where
  "outcome_add detected modified network oc =
     oc\<lparr>mo_detected_new_data := mo_detected_new_data oc \<or> detected,
       mo_last_modified := seq_max (mo_last_modified oc) modified,
       mo_has_new_network_data := mo_has_new_network_data oc \<or> network\<rparr>"

definition merge_group ::
    "hub_seq \<Rightarrow> bool \<Rightarrow> filter_group \<Rightarrow> filter_group \<Rightarrow> filter_group \<Rightarrow> merge_outcome \<Rightarrow> filter_group \<times> merge_outcome" where
  "merge_group seq inherit old new merged oc =
     (let (d1, t) = field_merge [] False (explicit_client_targets old) (explicit_client_targets new) seq inherit
            (explicit_client_targets merged);
          (d2, b) = field_merge 0 False (default_bits old) (default_bits new) seq inherit (default_bits merged)
      in (\<lparr>explicit_client_targets = t, default_bits = b\<rparr>,
          outcome_add d2 (fh_last_modified b) (fh_has_new_network_data b)
            (outcome_add d1 (fh_last_modified t) (fh_has_new_network_data t) oc)))"

definition group_at :: "nat \<Rightarrow> replicated_state \<Rightarrow> filter_group" where
  "group_at g s = (if g < length (filter_groups s) then filter_groups s ! g else filter_group_default)"

definition merge_filter_group_attributes ::
    "replicated_state \<Rightarrow> replicated_state \<Rightarrow> hub_seq \<Rightarrow> bool \<Rightarrow> replicated_state \<times> merge_outcome \<Rightarrow>
     replicated_state \<times> merge_outcome" where
  "merge_filter_group_attributes old new seq inherit = (\<lambda>(self, oc).
     let self = ensure_filter_groups (max (length (filter_groups old)) (length (filter_groups new))) self in
     fold (\<lambda>g (self, oc).
             let (grp, oc) = merge_group seq inherit (group_at g old) (group_at g new) (filter_groups self ! g) oc
             in (self\<lparr>filter_groups := (filter_groups self)[g := grp]\<rparr>, oc))
       [0..<length (filter_groups self)] (self, oc))"

section \<open>Wire form of the group attributes\<close>

definition mask_bit :: "nat \<Rightarrow> u64" where "mask_bit i = push_bit (i mod 64) 1"

definition targets_codec :: "filter_value list codec" where
  "targets_codec = container_vec filter_value_codec"

definition attribute_mask :: "hub_seq \<Rightarrow> filter_group list \<Rightarrow> u64" where
  "attribute_mask baseline gs =
     fold (\<lambda>(i, g) m.
         let m = (if is_dirty_since baseline (explicit_client_targets g) then m OR mask_bit (i * 2) else m)
         in if is_dirty_since baseline (default_bits g) then m OR mask_bit (i * 2 + 1) else m)
       (enumerate 0 gs) 0"

fun marshal_attributes_from :: "u64 \<Rightarrow> nat \<Rightarrow> filter_group list \<Rightarrow> write_buffer \<Rightarrow> write_buffer option" where
  "marshal_attributes_from m i [] wb = Some wb"
| "marshal_attributes_from m i (g # gs) wb =
     (case if m AND mask_bit (i * 2) \<noteq> 0 then field_marshal targets_codec (explicit_client_targets g) wb else Some wb of
        None \<Rightarrow> None
      | Some wb \<Rightarrow>
          (case if m AND mask_bit (i * 2 + 1) \<noteq> 0 then field_marshal u64_codec (default_bits g) wb else Some wb of
             None \<Rightarrow> None
           | Some wb \<Rightarrow> marshal_attributes_from m (i + 1) gs wb))"

definition marshal_filter_group_attributes :: "hub_seq \<Rightarrow> replicated_state \<Rightarrow> write_buffer \<Rightarrow> write_buffer option" where
  "marshal_filter_group_attributes baseline s wb =
     (let m = attribute_mask baseline (filter_groups s) in
      if m = 0 then Some (write_u8 0 wb)
      else marshal_attributes_from m 0 (filter_groups s) (vlq64_marshal m wb))"

fun unmarshal_attributes_from :: "u64 \<Rightarrow> nat \<Rightarrow> filter_group list \<Rightarrow> filter_group list reader" where
  "unmarshal_attributes_from m i [] = rreturn []"
| "unmarshal_attributes_from m i (g # gs) =
     rbind (if m AND mask_bit (i * 2) \<noteq> 0 then field_unmarshal targets_codec
            else rreturn (explicit_client_targets g)) (\<lambda>t.
     rbind (if m AND mask_bit (i * 2 + 1) \<noteq> 0 then field_unmarshal u64_codec else rreturn (default_bits g)) (\<lambda>b.
     rmap ((#) \<lparr>explicit_client_targets = t, default_bits = b\<rparr>) (unmarshal_attributes_from m (i + 1) gs)))"

definition unmarshal_filter_group_attributes :: "replicated_state \<Rightarrow> (bool \<times> replicated_state) reader" where
  "unmarshal_filter_group_attributes s =
     rbind vlq64_unmarshal (\<lambda>m.
       if m = 0 then rreturn (False, s)
       else let s = ensure_filter_groups (max (length (filter_groups s)) 1) s in
         rmap (\<lambda>gs. (True, s\<lparr>filter_groups := gs\<rparr>)) (unmarshal_attributes_from m 0 (filter_groups s)))"

fun marshal_metadata_from :: "filter_group list \<Rightarrow> write_buffer \<Rightarrow> write_buffer option" where
  "marshal_metadata_from [] wb = Some wb"
| "marshal_metadata_from (g # gs) wb =
     Option.bind (hub_seq_marshal (fh_last_modified (explicit_client_targets g)) wb) (\<lambda>wb.
     Option.bind (hub_seq_marshal (fh_last_modified (default_bits g)) wb) (marshal_metadata_from gs))"

definition marshal_filter_group_attribute_metadata :: "replicated_state \<Rightarrow> write_buffer \<Rightarrow> write_buffer option" where
  "marshal_filter_group_attribute_metadata s = marshal_metadata_from (filter_groups s)"

fun unmarshal_metadata_from :: "filter_group list \<Rightarrow> filter_group list reader" where
  "unmarshal_metadata_from [] = rreturn []"
| "unmarshal_metadata_from (g # gs) =
     rbind hub_seq_unmarshal (\<lambda>t. rbind hub_seq_unmarshal (\<lambda>b.
       rmap ((#) (g\<lparr>explicit_client_targets := set_last_modified t (explicit_client_targets g),
                    default_bits := set_last_modified b (default_bits g)\<rparr>)) (unmarshal_metadata_from gs)))"

definition unmarshal_filter_group_attribute_metadata :: "replicated_state \<Rightarrow> replicated_state reader" where
  "unmarshal_filter_group_attribute_metadata s =
     rmap (\<lambda>gs. s\<lparr>filter_groups := gs\<rparr>) (unmarshal_metadata_from (filter_groups s))"

definition sanity_check_field_count :: "nat \<Rightarrow> nat \<Rightarrow> replicated_state \<Rightarrow> bool" where
  "sanity_check_field_count g n s \<longleftrightarrow> g < length (filter_groups s) \<and> n \<le> max_fields_per_replicated_state"

section \<open>Whitelists count their clients\<close>

text \<open>
  The abstract whitelist is the multiset of the adds that have not been undone. The concrete one has
  an entry for each client in it, with its multiplicity.
\<close>

definition targets_ok :: "filter_value list \<Rightarrow> bool" where
  "targets_ok ts \<longleftrightarrow> distinct (map fv_value ts) \<and> list_all (\<lambda>e. fv_ref_count e \<noteq> 0) ts"

definition targets_mset :: "filter_value list \<Rightarrow> u64 multiset" where
  "targets_mset ts = (\<Sum>e\<leftarrow>ts. replicate_mset (unat (fv_ref_count e)) (fv_value e))"

lemma targets_simps [simp]:
  "targets_ok []" "targets_mset [] = {#}"
  "targets_ok (e # es) \<longleftrightarrow> fv_ref_count e \<noteq> 0 \<and> fv_value e \<notin> fv_value ` set es \<and> targets_ok es"
  "targets_mset (e # es) = replicate_mset (unat (fv_ref_count e)) (fv_value e) + targets_mset es"
  by (auto simp: targets_ok_def targets_mset_def)

lemma in_targets_mset: "targets_ok ts \<Longrightarrow> c \<in># targets_mset ts \<longleftrightarrow> list_ex (\<lambda>e. fv_value e = c) ts"
  by (induction ts) (auto simp: unat_eq_zero)

lemma targets_mset_empty: "targets_ok ts \<Longrightarrow> targets_mset ts = {#} \<longleftrightarrow> ts = []"
  by (cases ts) (auto simp: unat_eq_zero)

lemma set_target_add: "fv_value ` set (target_add c ts) = insert c (fv_value ` set ts)"
  by (induction ts) auto

lemma set_target_remove: "fv_value ` set (target_remove c ts) \<subseteq> fv_value ` set ts"
  by (induction ts) auto

lemma target_add_mset:
  "targets_ok ts \<Longrightarrow> list_all (\<lambda>e. fv_ref_count e \<noteq> - 1) ts \<Longrightarrow>
     targets_ok (target_add c ts) \<and> targets_mset (target_add c ts) = add_mset c (targets_mset ts)"
proof (induction ts)
  case (Cons e es)
  have "fv_ref_count e \<noteq> - 1" using Cons.prems by simp
  then have "fv_ref_count e + 1 \<noteq> 0" by (metis eq_neg_iff_add_eq_0)
  then have "unat (fv_ref_count e + 1) = Suc (unat (fv_ref_count e))" by (metis unatSuc add.commute)
  then show ?case
    using Cons set_target_add [of c es] \<open>fv_ref_count e + 1 \<noteq> 0\<close> by auto
qed simp

lemma target_remove_mset:
  "targets_ok ts \<Longrightarrow> list_ex (\<lambda>e. fv_value e = c) ts \<Longrightarrow>
     targets_ok (target_remove c ts) \<and> add_mset c (targets_mset (target_remove c ts)) = targets_mset ts"
proof (induction ts)
  case (Cons e es)
  then have nz: "fv_ref_count e \<noteq> 0" by simp
  then have suc: "unat (fv_ref_count e) = Suc (unat (fv_ref_count e - 1))"
    using unat_gt_0 [of "fv_ref_count e"] by (simp add: unat_minus_one)
  show ?case
  proof (cases "fv_value e = c")
    case False
    then show ?thesis using Cons set_target_remove [of c es] by auto
  next
    case True
    show ?thesis
    proof (cases "fv_ref_count e > 1")
      case True
      then have "fv_ref_count e - 1 \<noteq> 0" by auto
      then show ?thesis using Cons.prems True suc \<open>fv_value e = c\<close> by simp
    next
      case False
      then have "unat (fv_ref_count e) = 1" using suc by (simp add: word_less_nat_alt)
      then show ?thesis using Cons.prems False \<open>fv_value e = c\<close> by simp
    qed
  qed
qed simp

definition whitelist :: "nat \<Rightarrow> replicated_state \<Rightarrow> u64 multiset" where
  "whitelist g s = targets_mset (client_targets (group_at g s))"

definition whitelists_ok :: "replicated_state \<Rightarrow> bool" where
  "whitelists_ok s \<longleftrightarrow> list_all (\<lambda>g. targets_ok (client_targets g)) (filter_groups s)"

lemma client_targets_default [simp]: "client_targets filter_group_default = []"
  by (simp add: client_targets_def filter_group_default_def field_some_def field_new_def effective_value_def)

lemma whitelists_ok_iff: "whitelists_ok s \<longleftrightarrow> (\<forall>g. targets_ok (client_targets (group_at g s)))"
  by (auto simp: whitelists_ok_def group_at_def list_all_length)

lemma effective_access:
  "(\<And>v. \<not> snd (cb v) \<Longrightarrow> fst (cb v) = v) \<Longrightarrow> effective_value d (field_access d cb f) = fst (cb (effective_value d f))"
  by (auto simp: field_access_def effective_value_def Let_def split: option.splits prod.splits) (metis fst_conv snd_conv)+

lemma group_at_ensure [simp]: "group_at g (ensure_filter_groups n s) = group_at g s"
  by (auto simp: group_at_def ensure_filter_groups_def Let_def nth_append)

lemma targets_update:
  assumes "\<And>v. \<not> snd (cb v) \<Longrightarrow> fst (cb v) = v" "g < length (filter_groups s)"
  shows "client_targets (group_at h (update_targets g cb s)) =
    (if h = g then fst (cb (client_targets (group_at g s))) else client_targets (group_at h s))"
  using assms effective_access [of cb "[]"]
  by (simp add: update_targets_def group_at_def client_targets_def nth_list_update)

lemma targets_update_out:
  "g \<ge> length (filter_groups s) \<Longrightarrow> group_at h (update_targets g cb s) = group_at h s"
  by (simp add: update_targets_def)

lemma targets_outside: "g \<ge> length (filter_groups s) \<Longrightarrow> client_targets (group_at g s) = []"
  by (simp add: group_at_def)

lemma length_ensure: "g < max_filtergroups_per_replicated_state \<Longrightarrow>
    g < length (filter_groups (ensure_filter_groups (g + 1) s))"
  by (simp add: ensure_filter_groups_def Let_def)

text \<open>
  The whitelists of a state are multisets of clients: adding a client adds one occurrence to the
  whitelist of that group, removing takes one away if there is one, clearing empties it, no other
  group changes, and a group is sent to a client exactly when its whitelist is empty or has the
  client in it. Below the saturation of the 64-bit reference counts.
\<close>

lemma whitelist_refines_multiset:
  assumes "whitelists_ok s" "g < max_filtergroups_per_replicated_state"
    "list_all (\<lambda>e. fv_ref_count e \<noteq> - 1) (client_targets (group_at g s))"
  shows "whitelist h (add_client_to_replication_whitelist c g s) = (if h = g then add_mset c (whitelist g s) else whitelist h s)
    \<and> whitelist h (remove_client_from_replication_whitelist c g s) = (if h = g then whitelist g s - {#c#} else whitelist h s)
    \<and> whitelist h (clear_replication_whitelist g s) = (if h = g then {#} else whitelist h s)
    \<and> should_send_to_client c g s = (whitelist g s = {#} \<or> c \<in># whitelist g s)
    \<and> whitelists_ok (add_client_to_replication_whitelist c g s)
    \<and> whitelists_ok (remove_client_from_replication_whitelist c g s)
    \<and> whitelists_ok (clear_replication_whitelist g s)"
proof -
  let ?ts = "client_targets (group_at g s)"
  let ?rem = "\<lambda>ts. if list_ex (\<lambda>e. fv_value e = c) ts then (target_remove c ts, True) else (ts, False)"
  have ok: "targets_ok ?ts" using assms(1) by (simp add: whitelists_ok_iff)
  have add: "client_targets (group_at h (add_client_to_replication_whitelist c g s)) =
      (if h = g then target_add c ?ts else client_targets (group_at h s))" for h
    using targets_update [OF _ length_ensure [OF assms(2), of s], of "\<lambda>ts. (target_add c ts, True)" h]
    by (simp add: add_client_to_replication_whitelist_def)
  have rem: "client_targets (group_at h (remove_client_from_replication_whitelist c g s)) =
      (if h = g then fst (?rem ?ts) else client_targets (group_at h s))" for h
  proof (cases "g < length (filter_groups s)")
    case True
    have "fst (?rem v) = v" if "\<not> snd (?rem v)" for v using that by (simp split: if_splits)
    from targets_update [of ?rem, OF this True, of h] show ?thesis
      by (simp add: remove_client_from_replication_whitelist_def)
  qed (auto simp: remove_client_from_replication_whitelist_def targets_update_out targets_outside)
  have clr: "client_targets (group_at h (clear_replication_whitelist g s)) =
      (if h = g then [] else client_targets (group_at h s))" for h
  proof (cases "g < length (filter_groups s)")
    case True
    with targets_update [of "\<lambda>ts. ([], ts \<noteq> [])" g s h] show ?thesis
      by (simp add: clear_replication_whitelist_def)
  qed (auto simp: clear_replication_whitelist_def targets_update_out targets_outside)
  have a: "targets_ok (target_add c ?ts)" "targets_mset (target_add c ?ts) = add_mset c (targets_mset ?ts)"
    using target_add_mset [OF ok assms(3)] by simp_all
  have r: "targets_ok (fst (?rem ?ts))" "targets_mset (fst (?rem ?ts)) = targets_mset ?ts - {#c#}"
    using target_remove_mset [OF ok, of c] in_targets_mset [OF ok, of c] ok
    by (auto simp: diff_single_trivial) (metis add_mset_remove_trivial)
  have "should_send_to_client c g s = (whitelist g s = {#} \<or> c \<in># whitelist g s)"
    using assms(2) in_targets_mset [OF ok, of c] targets_mset_empty [OF ok]
    by (auto simp: should_send_to_client_def whitelist_def group_at_def Let_def)
  then show ?thesis
    using a r assms(1) by (simp add: whitelist_def whitelists_ok_iff add rem clr split: if_splits)
qed

end
