(* ===== verification/Derived_State.thy ===== *)
theory Derived_State
  imports Replicated_State
begin

text \<open>
  The code that \<open>#[replicated_state]\<close> generates for a state (\<^verbatim>\<open>nw-network-derive/src/replicated_state.rs\<close>)
  and the marshal context and fragment defaults of \<^verbatim>\<open>hub/fragment.rs\<close> it relies on. A state is its header
  and, for each descriptor group in the order of the group numbers, its fields with the operations of
  their handler types. The macro unrolls its loops over groups and fields; here they are recursive
  functions, with the same masks: one descriptor mask for eight groups and one field mask for seven
  fields, whose top bit says that a later chunk has a field.

  \<open>Self::default()\<close> is an argument of the operations that create a state. A decode that fails leaves a
  state that its caller drops; the model keeps only the error.
\<close>

record 's derived_state =
  hub :: replicated_state
  field_groups :: "(nat \<times> ('s handler \<times> 's) list) list"

section \<open>Marshal context\<close>

record marshal_context =
  baseline_seq :: hub_seq
  filter_target :: "u64 option"
  group_baselines :: "hub_seq list option"

definition marshal_context_default :: marshal_context where
  "marshal_context_default = \<lparr>baseline_seq = Invalid, filter_target = None, group_baselines = None\<rparr>"

definition baseline_for :: "hub_seq list \<Rightarrow> nat \<Rightarrow> hub_seq \<Rightarrow> hub_seq" where
  "baseline_for bs g fallback = (if g < length bs then bs ! g else fallback)"

definition group_baseline :: "marshal_context \<Rightarrow> nat \<Rightarrow> hub_seq" where
  "group_baseline mc g =
     (case group_baselines mc of Some bs \<Rightarrow> baseline_for bs g (baseline_seq mc) | None \<Rightarrow> baseline_seq mc)"

definition n_groups :: "'s derived_state \<Rightarrow> nat" where
  "n_groups s = foldr max (map fst (field_groups s)) 0 + 1"

definition should_send_to_client_group :: "u64 \<Rightarrow> nat \<Rightarrow> 's derived_state \<Rightarrow> bool" where
  "should_send_to_client_group target g s \<longleftrightarrow> g < n_groups s \<and> should_send_to_client target g (hub s)"

definition should_send_to_client_any_group :: "u64 \<Rightarrow> 's derived_state \<Rightarrow> bool" where
  "should_send_to_client_any_group target s \<longleftrightarrow>
     list_ex (\<lambda>g. should_send_to_client_group target g s) [0..<n_groups s]"

section \<open>Writing the contents\<close>

definition field_dirty :: "marshal_context \<Rightarrow> nat \<Rightarrow> 's handler \<times> 's \<Rightarrow> bool" where
  "field_dirty mc g = (\<lambda>(h, f). hb_is_dirty h (group_baseline mc g) f)"

definition group_visible :: "marshal_context \<Rightarrow> nat \<Rightarrow> 's derived_state \<Rightarrow> bool" where
  "group_visible mc g s \<longleftrightarrow>
     (case filter_target mc of Some target \<Rightarrow> should_send_to_client_group target g s | None \<Rightarrow> True)"

definition descriptor_dirty :: "marshal_context \<Rightarrow> 's derived_state \<Rightarrow> nat \<Rightarrow> bool" where
  "descriptor_dirty mc s g \<longleftrightarrow>
     (case map_of (field_groups s) g of
        Some fs \<Rightarrow> group_visible mc g s \<and> list_ex (field_dirty mc g) fs
      | None \<Rightarrow> False)"

fun marshal_payloads :: "(('s handler \<times> 's) \<times> bool) list \<Rightarrow> write_buffer \<Rightarrow> write_buffer option" where
  "marshal_payloads [] wb = Some wb"
| "marshal_payloads (((h, f), dirty) # fs) wb =
     (case if dirty then hb_marshal h f wb else Some wb of
        None \<Rightarrow> None
      | Some wb \<Rightarrow> marshal_payloads fs wb)"

definition chunk_mask :: "bool list \<Rightarrow> bool \<Rightarrow> u8" where
  "chunk_mask flags later = pack_flags flags OR (if later then 0x80 else 0)"

function marshal_field_chunks ::
    "bool \<Rightarrow> (('s handler \<times> 's) \<times> bool) list \<Rightarrow> write_buffer \<Rightarrow> write_buffer option" where
  "marshal_field_chunks first fs wb =
     (if fs = [] then Some wb
      else let field_mask = chunk_mask (map snd (take 7 fs)) (list_ex snd (drop 7 fs)) in
        case if first \<or> field_mask \<noteq> 0 then marshal_payloads (take 7 fs) (write_u8 field_mask wb) else Some wb of
          None \<Rightarrow> None
        | Some wb \<Rightarrow> marshal_field_chunks False (drop 7 fs) wb)"
  by pat_completeness auto
termination by (relation "measure (\<lambda>(first, fs, wb). length fs)") auto

declare marshal_field_chunks.simps [simp del]

fun marshal_descriptors :: "marshal_context \<Rightarrow> 's derived_state \<Rightarrow> nat list \<Rightarrow> write_buffer \<Rightarrow> write_buffer option" where
  "marshal_descriptors mc s [] wb = Some wb"
| "marshal_descriptors mc s (g # gs) wb =
     (let wb = (if g mod 8 = 0
                then write_u8 (pack_flags (map (descriptor_dirty mc s) [g..<min (g + 8) (n_groups s)])) wb else wb) in
      case if descriptor_dirty mc s g
           then marshal_field_chunks True (map (\<lambda>p. (p, field_dirty mc g p)) (the (map_of (field_groups s) g))) wb
           else Some wb of
        None \<Rightarrow> None
      | Some wb \<Rightarrow> marshal_descriptors mc s gs wb)"

definition marshal_contents_with ::
    "marshal_context \<Rightarrow> 's derived_state \<Rightarrow> write_buffer \<Rightarrow> (bool \<times> write_buffer) option" where
  "marshal_contents_with mc s wb =
     (if \<not> list_ex (descriptor_dirty mc s) [0..<n_groups s] then Some (False, wb)
      else map_option (Pair True) (marshal_descriptors mc s [0..<n_groups s] wb))"

definition marshal_contents :: "'s derived_state \<Rightarrow> write_buffer \<Rightarrow> (bool \<times> write_buffer) option" where
  "marshal_contents = marshal_contents_with marshal_context_default"

section \<open>Reading the contents\<close>

fun unmarshal_group_fields ::
    "nat \<Rightarrow> nat \<Rightarrow> u8 \<Rightarrow> bool \<Rightarrow> ('s handler \<times> 's) list \<Rightarrow> (('s handler \<times> 's) list \<times> bool) reader" where
  "unmarshal_group_fields field_count i field_mask descriptor_done [] = rreturn ([], descriptor_done)"
| "unmarshal_group_fields field_count i field_mask descriptor_done ((h, f) # fs) =
     (if descriptor_done
      then rmap (apfst ((#) (h, f))) (unmarshal_group_fields field_count (i + 1) field_mask True fs)
      else rbind (if i mod 7 = 0 then read_u8 else rreturn field_mask) (\<lambda>field_mask.
           rbind (if flag_set field_mask (i mod 7) then hb_unmarshal h else rreturn f) (\<lambda>f'.
           rmap (apfst ((#) (h, f')))
             (unmarshal_group_fields field_count (i + 1) field_mask
                ((i mod 7 = 6 \<or> i + 1 = field_count) \<and> field_mask AND 0x80 = 0) fs))))"

definition unmarshal_group :: "('s handler \<times> 's) list \<Rightarrow> ('s handler \<times> 's) list reader" where
  "unmarshal_group fs =
     rbind (unmarshal_group_fields (length fs) 0 0 False fs) (\<lambda>(fs', descriptor_done).
       if length fs \<noteq> 0 \<and> length fs mod 7 = 0 \<and> \<not> descriptor_done
       then rmap (\<lambda>_. fs') mask_chain_skip else rreturn fs')"

text \<open>The groups not yet visited, in order; a group number that the state does not have is skipped.\<close>

fun unmarshal_descriptors ::
    "nat list \<Rightarrow> u8 \<Rightarrow> (nat \<times> ('s handler \<times> 's) list) list \<Rightarrow> (nat \<times> ('s handler \<times> 's) list) list reader" where
  "unmarshal_descriptors [] descriptor_mask groups = rreturn groups"
| "unmarshal_descriptors (g # gs) descriptor_mask groups =
     rbind (if g mod 8 = 0 then read_u8 else rreturn descriptor_mask) (\<lambda>descriptor_mask.
       case groups of
         (k, fs) # groups' \<Rightarrow>
           if k = g
           then rbind (if flag_set descriptor_mask (g mod 8) then unmarshal_group fs else rreturn fs) (\<lambda>fs'.
                rmap ((#) (k, fs')) (unmarshal_descriptors gs descriptor_mask groups'))
           else rbind (if flag_set descriptor_mask (g mod 8) then mask_chain_skip else rreturn ()) (\<lambda>_.
                unmarshal_descriptors gs descriptor_mask groups)
       | [] \<Rightarrow> rbind (if flag_set descriptor_mask (g mod 8) then mask_chain_skip else rreturn ()) (\<lambda>_.
                unmarshal_descriptors gs descriptor_mask groups))"

definition unmarshal_contents :: "'s derived_state \<Rightarrow> 's derived_state reader" where
  "unmarshal_contents s =
     rmap (\<lambda>gs. s\<lparr>field_groups := gs\<rparr>) (unmarshal_descriptors [0..<n_groups s] 0 (field_groups s))"

text \<open>\<open>Unmarshal\<close> of a state: an empty buffer is the default state.\<close>

definition state_unmarshal :: "'s derived_state \<Rightarrow> 's derived_state reader" where
  "state_unmarshal dflt rb = (if remaining rb = [] then (Ok dflt, rb) else unmarshal_contents dflt rb)"

section \<open>Attributes and field metadata\<close>

definition calculate_all_default_bits :: "'s derived_state \<Rightarrow> replicated_state" where
  "calculate_all_default_bits s =
     fold (\<lambda>(g, fs) hb. snd (calculate_default_bits g fs hb)) (field_groups s) (ensure_filter_groups (n_groups s) (hub s))"

definition marshal_attributes :: "marshal_context \<Rightarrow> 's derived_state \<Rightarrow> write_buffer \<Rightarrow> write_buffer option" where
  "marshal_attributes mc s = marshal_filter_group_attributes (baseline_seq mc) (calculate_all_default_bits s)"

definition unmarshal_attributes :: "'s derived_state \<Rightarrow> (bool \<times> 's derived_state) reader" where
  "unmarshal_attributes s =
     rmap (\<lambda>(read_any, hb). (read_any, s\<lparr>hub := hb,
         field_groups := map (\<lambda>(g, fs). (g, apply_default_bits g hb fs)) (field_groups s)\<rparr>))
       (unmarshal_filter_group_attributes (ensure_filter_groups (n_groups s) (hub s)))"

fun marshal_fields_metadata :: "('s handler \<times> 's) list \<Rightarrow> write_buffer \<Rightarrow> write_buffer option" where
  "marshal_fields_metadata [] wb = Some wb"
| "marshal_fields_metadata ((h, f) # fs) wb =
     Option.bind (hub_seq_marshal (hb_last_modified h f) wb) (marshal_fields_metadata fs)"

fun unmarshal_fields_metadata :: "('s handler \<times> 's) list \<Rightarrow> ('s handler \<times> 's) list reader" where
  "unmarshal_fields_metadata [] = rreturn []"
| "unmarshal_fields_metadata ((h, f) # fs) =
     rbind hub_seq_unmarshal (\<lambda>s. rmap ((#) (h, hb_set_last_modified h s f)) (unmarshal_fields_metadata fs))"

fun unmarshal_groups_metadata ::
    "(nat \<times> ('s handler \<times> 's) list) list \<Rightarrow> (nat \<times> ('s handler \<times> 's) list) list reader" where
  "unmarshal_groups_metadata [] = rreturn []"
| "unmarshal_groups_metadata ((g, fs) # gs) =
     rbind (unmarshal_fields_metadata fs) (\<lambda>fs'. rmap ((#) (g, fs')) (unmarshal_groups_metadata gs))"

definition marshal_field_metadata :: "'s derived_state \<Rightarrow> write_buffer \<Rightarrow> write_buffer option" where
  "marshal_field_metadata s wb =
     Option.bind (marshal_fields_metadata (concat (map snd (field_groups s))) wb)
       (marshal_filter_group_attribute_metadata (calculate_all_default_bits s))"

definition unmarshal_field_metadata :: "'s derived_state \<Rightarrow> 's derived_state reader" where
  "unmarshal_field_metadata s =
     rbind (unmarshal_groups_metadata (field_groups s)) (\<lambda>gs.
     rmap (\<lambda>hb. s\<lparr>hub := hb, field_groups := gs\<rparr>)
       (unmarshal_filter_group_attribute_metadata (ensure_filter_groups (n_groups s) (hub s))))"

text \<open>The whole fragment: contents, attributes, metadata.\<close>

definition full_marshal :: "marshal_context \<Rightarrow> 's derived_state \<Rightarrow> write_buffer \<Rightarrow> write_buffer option" where
  "full_marshal mc s wb =
     Option.bind (marshal_contents_with mc s wb) (\<lambda>(_, wb).
     Option.bind (marshal_attributes mc s wb) (marshal_field_metadata s))"

definition full_unmarshal :: "'s derived_state \<Rightarrow> 's derived_state reader" where
  "full_unmarshal s =
     rbind (unmarshal_contents s) (\<lambda>s. rbind (unmarshal_attributes s) (\<lambda>(_, s). unmarshal_field_metadata s))"

section \<open>Merging states\<close>

text \<open>The fields of the destination, of the old and of the new state run in step.\<close>

fun merge_fields ::
    "hub_seq \<Rightarrow> bool \<Rightarrow> ('s handler \<times> 's) list \<Rightarrow> ('s handler \<times> 's) list \<Rightarrow> ('s handler \<times> 's) list \<Rightarrow> merge_outcome \<Rightarrow>
     ('s handler \<times> 's) list \<times> ('s handler \<times> 's) list \<times> merge_outcome" where
  "merge_fields seq inherit ((h, old) # olds) ((_, new) # news) ((_, self) # selfs) oc =
     (let (detected, merged, new') = hb_merge h old new seq inherit self;
          oc = outcome_add detected (hb_last_modified h merged) (hb_has_new_network_data h merged) oc;
          (ms, ns, oc) = merge_fields seq inherit olds news selfs oc
      in ((h, merged) # ms, (h, new') # ns, oc))"
| "merge_fields seq inherit _ news selfs oc = (selfs, news, oc)"

fun merge_groups ::
    "hub_seq \<Rightarrow> bool \<Rightarrow> (nat \<times> ('s handler \<times> 's) list) list \<Rightarrow> (nat \<times> ('s handler \<times> 's) list) list \<Rightarrow>
     (nat \<times> ('s handler \<times> 's) list) list \<Rightarrow> merge_outcome \<Rightarrow>
     (nat \<times> ('s handler \<times> 's) list) list \<times> (nat \<times> ('s handler \<times> 's) list) list \<times> merge_outcome" where
  "merge_groups seq inherit ((g, old) # olds) ((_, new) # news) ((_, self) # selfs) oc =
     (let (merged, new', oc) = merge_fields seq inherit old new self oc;
          (ms, ns, oc) = merge_groups seq inherit olds news selfs oc
      in ((g, merged) # ms, (g, new') # ns, oc))"
| "merge_groups seq inherit _ news selfs oc = (selfs, news, oc)"

definition state_merge ::
    "'s derived_state \<Rightarrow> 's derived_state \<Rightarrow> 's derived_state \<Rightarrow> hub_seq \<Rightarrow> bool \<Rightarrow> 's derived_state \<times> 's derived_state" where
  "state_merge dflt old new seq inherit =
     (let (merged, news, oc) = merge_groups seq inherit (field_groups old) (field_groups new) (field_groups dflt) merge_outcome_default;
          (hb, oc) = merge_filter_group_attributes (hub old) (hub new) seq inherit
                       (ensure_filter_groups (n_groups dflt) (hub dflt), oc)
      in (\<lparr>hub = finish_merge seq (correlation_id (hub new)) oc hb, field_groups = merged\<rparr>,
          new\<lparr>field_groups := news\<rparr>))"

definition state_reset_has_new_network_data :: "'s derived_state \<Rightarrow> 's derived_state" where
  "state_reset_has_new_network_data s =
     \<lparr>hub = rs_reset_has_new_network_data (reset_filter_group_attribute_network_data (hub s)),
      field_groups = map (\<lambda>(g, fs). (g, map (\<lambda>(h, f). (h, hb_reset_has_new_network_data h f)) fs)) (field_groups s)\<rparr>"

definition is_fragment_dirty :: "hub_seq \<Rightarrow> 's derived_state \<Rightarrow> bool" where
  "is_fragment_dirty baseline s \<longleftrightarrow> baseline < rs_last_modified (hub s)"

section \<open>What a handler promises on the wire\<close>

locale wire_handler =
  fixes h :: "'s handler" and ok :: "'s \<Rightarrow> bool" and enc :: "endian \<Rightarrow> 's \<Rightarrow> bytes" and received :: "'s \<Rightarrow> 's"
  assumes hb_marshal_enc: "ok f \<Longrightarrow> hb_marshal h f wb = Some (write_bytes (enc (wendian wb) f) wb)"
    and hb_unmarshal_enc: "ok f \<Longrightarrow> remaining rb = enc (rendian rb) f @ bs \<Longrightarrow>
      hb_unmarshal h rb = (Ok (received f), advance (length (enc (rendian rb) f)) rb)"
begin

lemma hb_read_back:
  assumes "ok f" "remaining rb = enc (rendian rb) f @ bs"
  shows "\<exists>rb'. hb_unmarshal h rb = (Ok (received f), rb') \<and> remaining rb' = bs \<and> rendian rb' = rendian rb"
  using hb_unmarshal_enc [OF assms] assms(2) by simp

end

definition has_valid :: "('a \<Rightarrow> bool) \<Rightarrow> 'a field_handler \<Rightarrow> bool" where
  "has_valid valid f \<longleftrightarrow> (case fh_value f of Some v \<Rightarrow> valid v | None \<Rightarrow> False)"

definition value_enc :: "(endian \<Rightarrow> 'a \<Rightarrow> bytes) \<Rightarrow> endian \<Rightarrow> 'a field_handler \<Rightarrow> bytes" where
  "value_enc enc e f = (case fh_value f of Some v \<Rightarrow> enc e v | None \<Rightarrow> [])"

definition received_from :: "'a field_handler \<Rightarrow> 'a field_handler" where
  "received_from f = received_field (the (fh_value f))"

text \<open>A field handler over a lawful codec keeps the promise.\<close>

sublocale lawful_codec \<subseteq> fb: wire_handler "field_base c d" "has_valid valid" "value_enc enc" received_from for d
  by unfold_locales
    (auto simp: field_base_def has_valid_def value_enc_def received_from_def received_field_def field_marshal_def
      field_unmarshal_def marshal_enc unmarshal_enc split: option.splits)

context lawful_codec
begin

lemma wire_field: "wire_handler (field_base c d) (has_valid valid) (value_enc enc) received_from"
  by unfold_locales

end

type_synonym 's handler_wire = "'s handler \<Rightarrow> ('s \<Rightarrow> bool) \<times> (endian \<Rightarrow> 's \<Rightarrow> bytes) \<times> ('s \<Rightarrow> 's)"

definition entry_wire_ok :: "'s handler_wire \<Rightarrow> 's handler \<times> 's \<Rightarrow> bool" where
  "entry_wire_ok w = (\<lambda>(h, f). let (ok, enc, rcv) = w h in wire_handler h ok enc rcv \<and> ok f)"

definition entry_enc :: "'s handler_wire \<Rightarrow> endian \<Rightarrow> 's handler \<times> 's \<Rightarrow> bytes" where
  "entry_enc w e = (\<lambda>(h, f). fst (snd (w h)) e f)"

definition entry_received :: "'s handler_wire \<Rightarrow> 's handler \<times> 's \<Rightarrow> 's handler \<times> 's" where
  "entry_received w = (\<lambda>(h, f). (h, snd (snd (w h)) f))"

lemma entry_marshal:
  "entry_wire_ok w (h, f) \<Longrightarrow> hb_marshal h f wb = Some (write_bytes (entry_enc w (wendian wb) (h, f)) wb)"
  by (auto simp: entry_wire_ok_def entry_enc_def wire_handler.hb_marshal_enc split: prod.splits)

lemma entry_unmarshal:
  assumes "entry_wire_ok w (h, f)" "remaining rb = entry_enc w (rendian rb) (h, f) @ bs"
  shows "\<exists>f' rb'. hb_unmarshal h rb = (Ok f', rb') \<and> entry_received w (h, f) = (h, f')
    \<and> remaining rb' = bs \<and> rendian rb' = rendian rb"
proof -
  obtain ok enc rcv where w: "w h = (ok, enc, rcv)" by (metis prod_cases3)
  have "wire_handler h ok enc rcv" "ok f" using assms(1) w by (simp_all add: entry_wire_ok_def)
  moreover have "remaining rb = enc (rendian rb) f @ bs" using assms(2) w by (simp add: entry_enc_def)
  ultimately show ?thesis using wire_handler.hb_read_back w by (fastforce simp: entry_received_def)
qed

section \<open>One group is read back\<close>

definition payload_enc :: "'s handler_wire \<Rightarrow> endian \<Rightarrow> (('s handler \<times> 's) \<times> bool) list \<Rightarrow> bytes" where
  "payload_enc w e fs = concat (map (\<lambda>(p, dirty). if dirty then entry_enc w e p else []) fs)"

lemma payload_enc_simps [simp]:
  "payload_enc w e [] = []"
  "payload_enc w e ((p, dirty) # fs) = (if dirty then entry_enc w e p else []) @ payload_enc w e fs"
  by (simp_all add: payload_enc_def)

function chunks_enc :: "'s handler_wire \<Rightarrow> endian \<Rightarrow> (('s handler \<times> 's) \<times> bool) list \<Rightarrow> bytes" where
  "chunks_enc w e fs =
     (if fs = [] then []
      else chunk_mask (map snd (take 7 fs)) (list_ex snd (drop 7 fs)) # payload_enc w e (take 7 fs)
           @ (if list_ex snd (drop 7 fs) then chunks_enc w e (drop 7 fs) else []))"
  by pat_completeness auto
termination by (relation "measure (\<lambda>(w, e, fs). length fs)") auto

declare chunks_enc.simps [simp del]

definition dirty_ok :: "'s handler_wire \<Rightarrow> ('s handler \<times> 's) \<times> bool \<Rightarrow> bool" where
  "dirty_ok w = (\<lambda>(p, dirty). dirty \<longrightarrow> entry_wire_ok w p)"

lemma bit_u8_80: "bit (0x80 :: u8) j \<longleftrightarrow> j = 7"
proof -
  have "(0x80 :: u8) = push_bit 7 1" by simp
  then show ?thesis by (simp only: bit_push_bit_iff) (auto simp: bit_1_iff)
qed

lemma bit_chunk_mask: "bit (chunk_mask flags later) j \<longleftrightarrow> j < 8 \<and> j < length flags \<and> flags ! j \<or> later \<and> j = 7"
  by (auto simp: chunk_mask_def bit_or_iff pack_flags_bit bit_u8_80 simp del: bit_numeral_word_iff)

lemma chunk_mask_continues: "length flags \<le> 7 \<Longrightarrow> chunk_mask flags later AND 0x80 = 0 \<longleftrightarrow> \<not> later"
  using flag_set_bit [of "chunk_mask flags later" 7] by (auto simp: flag_set_def bit_chunk_mask)

lemma chunk_mask_zero:
  assumes "length flags \<le> 7"
  shows "chunk_mask flags later = 0 \<longleftrightarrow> \<not> list_ex id flags \<and> \<not> later"
proof (cases later)
  case True
  then show ?thesis using chunk_mask_continues [OF assms, of later] by auto
next
  case False
  then show ?thesis
    using assms by (auto simp: bit_eq_iff [where ?'a = "8 word"] bit_chunk_mask list_ex_length)
qed

lemma marshal_payloads_enc:
  "list_all (dirty_ok w) fs \<Longrightarrow> marshal_payloads fs wb = Some (write_bytes (payload_enc w (wendian wb) fs) wb)"
proof (induction fs arbitrary: wb)
  case (Cons x fs)
  obtain h f dirty where x: "x = ((h, f), dirty)" by (metis prod.exhaust)
  show ?case
    using Cons x entry_marshal [of w h f] by (cases dirty) (simp_all add: dirty_ok_def)
qed simp

lemma marshal_chunks_enc:
  "list_all (dirty_ok w) fs \<Longrightarrow> marshal_field_chunks first fs wb =
     Some (write_bytes (if first \<or> list_ex snd fs then chunks_enc w (wendian wb) fs else []) wb)"
proof (induction first fs wb rule: marshal_field_chunks.induct)
  case (1 first fs wb)
  show ?case
  proof (cases "fs = []")
    case False
    let ?a = "take 7 fs" and ?b = "drop 7 fs"
    let ?m = "chunk_mask (map snd ?a) (list_ex snd ?b)"
    have ok: "list_all (dirty_ok w) ?a" "list_all (dirty_ok w) ?b"
      using 1(2) by (auto simp: list_all_iff dest: in_set_takeD in_set_dropD)
    have ex: "list_ex snd fs \<longleftrightarrow> list_ex snd ?a \<or> list_ex snd ?b"
      by (metis append_take_drop_id list_ex_append)
    have z: "?m = 0 \<longleftrightarrow> \<not> list_ex snd fs" using ex by (simp add: chunk_mask_zero list_ex_iff)
    show ?thesis
      using 1(1) [OF False refl _ ok(2)] marshal_payloads_enc [OF ok(1)] False z ex
      by (auto simp: marshal_field_chunks.simps [of first fs] chunks_enc.simps [of w _ fs] Let_def)
  qed (simp add: marshal_field_chunks.simps chunks_enc.simps)
qed

text \<open>
  Reading in the middle of a chunk: \<open>k\<close> fields of it have been read, the mask \<open>m\<close> says which of the
  others follow and whether a later chunk does.
\<close>

definition later_enc :: "'s handler_wire \<Rightarrow> endian \<Rightarrow> (('s handler \<times> 's) \<times> bool) list \<Rightarrow> bytes" where
  "later_enc w e fs = (if list_ex snd fs then chunks_enc w e fs else [])"

definition chunk_rest :: "'s handler_wire \<Rightarrow> endian \<Rightarrow> nat \<Rightarrow> (('s handler \<times> 's) \<times> bool) list \<Rightarrow> bytes" where
  "chunk_rest w e k fs = payload_enc w e (take (7 - k) fs) @ later_enc w e (drop (7 - k) fs)"

definition mask_fits :: "u8 \<Rightarrow> nat \<Rightarrow> ('p \<times> bool) list \<Rightarrow> bool" where
  "mask_fits m k fs \<longleftrightarrow> (\<forall>j < min (7 - k) (length fs). flag_set m (k + j) = snd (fs ! j))
     \<and> (m AND 0x80 = 0 \<longleftrightarrow> \<not> list_ex snd (drop (7 - k) fs))"

definition reads_at ::
    "'s handler_wire \<Rightarrow> endian \<Rightarrow> nat \<Rightarrow> u8 \<Rightarrow> bool \<Rightarrow> (('s handler \<times> 's) \<times> bool) list \<Rightarrow> bytes \<Rightarrow> bool" where
  "reads_at w e i m dn fs bs \<longleftrightarrow>
     (if dn then \<not> list_ex snd fs \<and> bs = []
      else fs \<noteq> [] \<and> (if i mod 7 = 0 then bs = chunks_enc w e fs
                      else mask_fits m (i mod 7) fs \<and> bs = chunk_rest w e (i mod 7) fs))"

lemma mask_fits_first: "mask_fits (chunk_mask (map snd (take 7 fs)) (list_ex snd (drop 7 fs))) 0 fs"
  by (auto simp: mask_fits_def flag_set_bit bit_chunk_mask chunk_mask_continues)

lemma mask_fits_Cons:
  assumes "mask_fits m k (x # fs)" "k < 7"
  shows "flag_set m k = snd x" "Suc k < 7 \<Longrightarrow> mask_fits m (Suc k) fs"
proof -
  have *: "flag_set m (k + j) = snd ((x # fs) ! j)" if "j < min (7 - k) (Suc (length fs))" for j
    using assms that by (simp add: mask_fits_def)
  show "flag_set m k = snd x" using * [of 0] assms(2) by simp
  show "mask_fits m (Suc k) fs" if "Suc k < 7"
    unfolding mask_fits_def
  proof (intro conjI allI impI)
    show "flag_set m (Suc k + j) = snd (fs ! j)" if "j < min (7 - Suc k) (length fs)" for j
      using * [of "Suc j"] that by (simp add: less_diff_conv)
    show "(m AND 0x80 = 0) = (\<not> list_ex snd (drop (7 - Suc k) fs))"
      using assms that by (simp add: mask_fits_def drop_Cons' Suc_diff_Suc numeral_eq_Suc)
  qed
qed

lemma chunk_rest_Cons:
  "k < 7 \<Longrightarrow> chunk_rest w e k ((p, dirty) # fs) = (if dirty then entry_enc w e p else []) @ chunk_rest w e (Suc k) fs"
  by (auto simp: chunk_rest_def take_Cons' drop_Cons')

lemma chunks_enc_first:
  "fs \<noteq> [] \<Longrightarrow> chunks_enc w e fs = chunk_mask (map snd (take 7 fs)) (list_ex snd (drop 7 fs)) # chunk_rest w e 0 fs"
  by (simp add: chunks_enc.simps [of w e fs] chunk_rest_def later_enc_def)

text \<open>After a field the reader stands at the next one, at a new chunk, or has read all that was sent.\<close>

lemma reads_at_next:
  assumes "mask_fits m (i mod 7) (x # fs)" "n = Suc (i + length fs)"
  shows "reads_at w e (Suc i) m ((i mod 7 = 6 \<or> Suc i = n) \<and> m AND 0x80 = 0) fs (chunk_rest w e (Suc (i mod 7)) fs)"
proof (cases "i mod 7 = 6")
  case True
  then have "Suc i mod 7 = 0" by presburger
  with True show ?thesis
    using assms by (auto simp: reads_at_def mask_fits_def chunk_rest_def later_enc_def)
next
  case False
  then have k: "Suc i mod 7 = Suc (i mod 7)" "Suc (i mod 7) < 7" by presburger+
  then show ?thesis
    using mask_fits_Cons(2) [OF assms(1) _ k(2)] assms False
    by (cases fs) (auto simp: reads_at_def mask_fits_def chunk_rest_def later_enc_def drop_Cons')
qed

definition pick :: "'s handler_wire \<Rightarrow> ('s handler \<times> 's) \<times> bool \<Rightarrow> 's handler \<times> 's \<Rightarrow> 's handler \<times> 's" where
  "pick w = (\<lambda>(p, dirty) q. if dirty then entry_received w p else q)"

lemma read_entry:
  assumes "dirty_ok w ((h, f), dirty)" "flag_set m k = dirty"
    "remaining rb = (if dirty then entry_enc w (rendian rb) (h, f) else []) @ bs"
  shows "\<exists>f' rb'. (if flag_set m k then hb_unmarshal h else rreturn g) rb = (Ok f', rb')
    \<and> pick w ((h, f), dirty) (h, g) = (h, f') \<and> remaining rb' = bs \<and> rendian rb' = rendian rb"
  using assms entry_unmarshal [of w h f rb bs] by (cases dirty) (auto simp: dirty_ok_def pick_def)

lemma unmarshal_group_fields_enc:
  assumes "list_all (dirty_ok w) fs" "list_all2 (\<lambda>x y. fst (fst x) = fst y) fs gs" "n = i + length fs"
    "remaining rb = rs @ bs" "reads_at w (rendian rb) i m dn fs rs"
  shows "\<exists>rb'. unmarshal_group_fields n i m dn gs rb = (Ok (map2 (pick w) fs gs, True), rb')
    \<and> remaining rb' = bs \<and> rendian rb' = rendian rb"
  using assms
proof (induction fs arbitrary: gs i m dn rb rs)
  case Nil
  then show ?case by (auto simp: reads_at_def split: if_splits)
next
  case (Cons x fs)
  obtain h f dirty g gs' where x: "x = ((h, f), dirty)" "gs = (h, g) # gs'" "list_all2 (\<lambda>x y. fst (fst x) = fst y) fs gs'"
    using Cons.prems(2) by (cases x; cases gs) auto
  show ?case
  proof (cases dn)
    case True
    then have "\<not> list_ex snd fs" "\<not> dirty" "rs = []" using Cons.prems(5) x by (auto simp: reads_at_def)
    moreover have "\<exists>rb'. unmarshal_group_fields n (Suc i) m True gs' rb = (Ok (map2 (pick w) fs gs', True), rb')
        \<and> remaining rb' = bs \<and> rendian rb' = rendian rb"
      using Cons.prems(1,3,4) calculation by (intro Cons.IH [OF _ x(3), where rs = "[]"]) (simp_all add: reads_at_def)
    ultimately show ?thesis using True x by (auto simp: pick_def)
  next
    case False
    let ?k = "i mod 7"
    obtain m1 rb1 where m1: "(if ?k = 0 then read_u8 else rreturn m) rb = (Ok m1, rb1)" "rendian rb1 = rendian rb"
      "mask_fits m1 ?k (x # fs)" "remaining rb1 = chunk_rest w (rendian rb) ?k (x # fs) @ bs"
    proof (cases "?k = 0")
      case True
      then have r: "remaining rb = chunk_mask (map snd (take 7 (x # fs))) (list_ex snd (drop 7 (x # fs))) #
          chunk_rest w (rendian rb) 0 (x # fs) @ bs"
        using Cons.prems(4,5) False by (simp add: reads_at_def chunks_enc_first)
      show ?thesis using that True read_u8_Cons [OF r] mask_fits_first [of "x # fs"] r by simp
    next
      case nz: False
      then show ?thesis using that Cons.prems(4,5) False by (simp add: reads_at_def)
    qed
    have k: "?k < 7" by simp
    obtain f' rb2 where rb2: "(if flag_set m1 ?k then hb_unmarshal h else rreturn g) rb1 = (Ok f', rb2)"
      "pick w x (h, g) = (h, f')" "remaining rb2 = chunk_rest w (rendian rb) (Suc ?k) fs @ bs" "rendian rb2 = rendian rb"
    proof -
      have "dirty_ok w ((h, f), dirty)" using Cons.prems(1) x(1) by simp
      moreover have "flag_set m1 ?k = dirty" using mask_fits_Cons(1) [OF m1(3) k] x(1) by simp
      moreover have "remaining rb1 = (if dirty then entry_enc w (rendian rb1) (h, f) else []) @
          chunk_rest w (rendian rb) (Suc ?k) fs @ bs"
        using m1(2,4) by (simp only: x(1) chunk_rest_Cons [OF k] append_assoc)
      ultimately show thesis using read_entry [of w h f dirty m1 ?k rb1 _ g] that m1(2) x(1) by metis
    qed
    let ?dn = "(?k = 6 \<or> Suc i = n) \<and> m1 AND 0x80 = 0"
    have "reads_at w (rendian rb2) (Suc i) m1 ?dn fs (chunk_rest w (rendian rb) (Suc ?k) fs)"
      using reads_at_next [OF m1(3)] Cons.prems(3) rb2(4) by simp
    then obtain rb3 where "unmarshal_group_fields n (Suc i) m1 ?dn gs' rb2 = (Ok (map2 (pick w) fs gs', True), rb3)"
      "remaining rb3 = bs" "rendian rb3 = rendian rb"
      using Cons.IH [OF _ x(3) _ rb2(3), of "Suc i" m1 ?dn] Cons.prems(1,3) rb2(4) by auto
    moreover have "unmarshal_group_fields n i m dn gs rb =
        rmap (apfst ((#) (h, f'))) (unmarshal_group_fields n (Suc i) m1 ?dn gs') rb2"
      using m1(1) rb2(1) False by (simp only: x(2) unmarshal_group_fields.simps if_False rbind_def Suc_eq_plus1) simp
    ultimately show ?thesis using rb2(2) x(2) by simp
  qed
qed

lemma unmarshal_group_enc:
  assumes "list_all (dirty_ok w) fs" "list_all2 (\<lambda>x y. fst (fst x) = fst y) fs gs" "fs \<noteq> []"
    "remaining rb = chunks_enc w (rendian rb) fs @ bs"
  shows "\<exists>rb'. unmarshal_group gs rb = (Ok (map2 (pick w) fs gs), rb') \<and> remaining rb' = bs \<and> rendian rb' = rendian rb"
proof -
  have "length gs = length fs" using assms(2) by (simp add: list_all2_lengthD)
  then show ?thesis
    using unmarshal_group_fields_enc [OF assms(1,2) _ assms(4), of "length fs" 0 0 False] assms(3)
    by (auto simp: unmarshal_group_def reads_at_def)
qed

section \<open>A state is read back\<close>

definition schema_ok :: "'s derived_state \<Rightarrow> bool" where
  "schema_ok s \<longleftrightarrow> sorted_wrt (<) (map fst (field_groups s)) \<and> list_all (\<lambda>(g, fs). fs \<noteq> []) (field_groups s)"

definition same_fields :: "nat \<times> ('s handler \<times> 's) list \<Rightarrow> nat \<times> ('s handler \<times> 's) list \<Rightarrow> bool" where
  "same_fields = (\<lambda>(g, fs) (g', fs'). g = g' \<and> map fst fs = map fst fs')"

definition same_schema :: "'s derived_state \<Rightarrow> 's derived_state \<Rightarrow> bool" where
  "same_schema s d \<longleftrightarrow> list_all2 same_fields (field_groups s) (field_groups d)"

definition flagged :: "marshal_context \<Rightarrow> nat \<Rightarrow> ('s handler \<times> 's) list \<Rightarrow> (('s handler \<times> 's) \<times> bool) list" where
  "flagged mc g fs = map (\<lambda>p. (p, field_dirty mc g p)) fs"

definition contents_wire_ok :: "'s handler_wire \<Rightarrow> marshal_context \<Rightarrow> 's derived_state \<Rightarrow> bool" where
  "contents_wire_ok w mc s \<longleftrightarrow> list_all (\<lambda>(g, fs). group_visible mc g s \<longrightarrow> list_all (dirty_ok w) (flagged mc g fs)) (field_groups s)"

definition descriptor_mask_at :: "marshal_context \<Rightarrow> 's derived_state \<Rightarrow> nat \<Rightarrow> u8" where
  "descriptor_mask_at mc s g = pack_flags (map (descriptor_dirty mc s) [g..<min (g + 8) (n_groups s)])"

fun descriptors_enc :: "'s handler_wire \<Rightarrow> marshal_context \<Rightarrow> 's derived_state \<Rightarrow> endian \<Rightarrow> nat list \<Rightarrow> bytes" where
  "descriptors_enc w mc s e [] = []"
| "descriptors_enc w mc s e (g # gs) =
     (if g mod 8 = 0 then [descriptor_mask_at mc s g] else [])
     @ (if descriptor_dirty mc s g then chunks_enc w e (flagged mc g (the (map_of (field_groups s) g))) else [])
     @ descriptors_enc w mc s e gs"

lemma wire_ok_group:
  "contents_wire_ok w mc s \<Longrightarrow> map_of (field_groups s) g = Some fs \<Longrightarrow> descriptor_dirty mc s g \<Longrightarrow>
     list_all (dirty_ok w) (flagged mc g fs)"
  by (auto simp: contents_wire_ok_def descriptor_dirty_def list_all_iff dest: map_of_SomeD)

lemma marshal_descriptors_enc:
  assumes "contents_wire_ok w mc s"
  shows "marshal_descriptors mc s gs wb = Some (write_bytes (descriptors_enc w mc s (wendian wb) gs) wb)"
proof (induction gs arbitrary: wb)
  case (Cons g gs)
  let ?wb = "if g mod 8 = 0 then write_u8 (descriptor_mask_at mc s g) wb else wb"
  have "(if descriptor_dirty mc s g then marshal_field_chunks True (flagged mc g (the (map_of (field_groups s) g))) ?wb else Some ?wb)
      = Some (write_bytes (if descriptor_dirty mc s g
          then chunks_enc w (wendian wb) (flagged mc g (the (map_of (field_groups s) g))) else []) ?wb)"
    using marshal_chunks_enc [OF wire_ok_group [OF assms, of g], where first = True]
    by (cases "map_of (field_groups s) g") (simp_all add: descriptor_dirty_def write_bytes_def write_u8_def)
  then show ?case
    using Cons by (cases "descriptor_dirty mc s g"; cases "g mod 8 = 0")
      (simp_all add: flagged_def [symmetric] descriptor_mask_at_def [symmetric])
qed simp

definition pick_group ::
    "'s handler_wire \<Rightarrow> marshal_context \<Rightarrow> 's derived_state \<Rightarrow> nat \<times> ('s handler \<times> 's) list \<Rightarrow>
     nat \<times> ('s handler \<times> 's) list \<Rightarrow> nat \<times> ('s handler \<times> 's) list" where
  "pick_group w mc s = (\<lambda>(g, fs) (g', fs'). (g', if descriptor_dirty mc s g then map2 (pick w) (flagged mc g fs) fs' else fs'))"

definition received_state ::
    "'s handler_wire \<Rightarrow> marshal_context \<Rightarrow> 's derived_state \<Rightarrow> 's derived_state \<Rightarrow> 's derived_state" where
  "received_state w mc s d = d\<lparr>field_groups := map2 (pick_group w mc s) (field_groups s) (field_groups d)\<rparr>"

definition mask_shows :: "marshal_context \<Rightarrow> 's derived_state \<Rightarrow> u8 \<Rightarrow> nat \<Rightarrow> bool" where
  "mask_shows mc s m i \<longleftrightarrow>
     (\<forall>j. i \<le> j \<and> j < n_groups s \<and> j div 8 = i div 8 \<longrightarrow> flag_set m (j mod 8) = descriptor_dirty mc s j)"

lemma mask_shows_first: "i mod 8 = 0 \<Longrightarrow> mask_shows mc s (descriptor_mask_at mc s i) i"
  unfolding mask_shows_def
proof (intro allI impI)
  fix j assume i: "i mod 8 = 0" and j: "i \<le> j \<and> j < n_groups s \<and> j div 8 = i div 8"
  define r where "r = j mod 8"
  have "j = 8 * (i div 8) + r" "i = 8 * (i div 8)"
    using j i div_mult_mod_eq [of j 8] div_mult_mod_eq [of i 8] by (simp_all add: r_def mult.commute)
  then have r: "j = i + r" "r < 8" by (simp_all add: r_def)
  have "map (descriptor_dirty mc s) [i..<min (i + 8) (n_groups s)] ! r = descriptor_dirty mc s (i + r)"
    using r j by (subst nth_map) (auto simp: min_def)
  then show "flag_set (descriptor_mask_at mc s i) (j mod 8) = descriptor_dirty mc s j"
    using r j unfolding r_def [symmetric] by (auto simp: descriptor_mask_at_def flag_set_bit pack_flags_bit)
qed

lemma mask_shows_Suc: "mask_shows mc s m i \<Longrightarrow> Suc i mod 8 \<noteq> 0 \<Longrightarrow> mask_shows mc s m (Suc i)"
proof -
  assume m: "mask_shows mc s m i" and "Suc i mod 8 \<noteq> 0"
  then have "Suc i div 8 = i div 8" by presburger
  then show ?thesis using m by (simp add: mask_shows_def)
qed

lemma unmarshal_descriptors_enc:
  assumes ok: "contents_wire_ok w mc s" "schema_ok s"
    and "list_all2 same_fields ss ds" "sorted_wrt (<) (map fst ss)" "\<forall>g \<in> fst ` set ss. i \<le> g \<and> g < n_groups s"
    and "\<And>g. i \<le> g \<Longrightarrow> map_of (field_groups s) g = map_of ss g"
    and "i \<le> n_groups s" "i mod 8 \<noteq> 0 \<Longrightarrow> mask_shows mc s m i"
    and "remaining rb = descriptors_enc w mc s (rendian rb) [i..<n_groups s] @ bs"
  shows "\<exists>rb'. unmarshal_descriptors [i..<n_groups s] m ds rb = (Ok (map2 (pick_group w mc s) ss ds), rb')
    \<and> remaining rb' = bs \<and> rendian rb' = rendian rb"
  using assms(3-)
proof (induction "n_groups s - i" arbitrary: i m ss ds rb)
  case 0
  then have "ss = []" by (cases ss) auto
  then show ?case using 0 by simp
next
  case (Suc k)
  then have i: "i < n_groups s" "[i..<n_groups s] = i # [Suc i..<n_groups s]" "k = n_groups s - Suc i"
    by (simp_all add: upt_conv_Cons)
  obtain m1 rb1 where m1: "(if i mod 8 = 0 then read_u8 else rreturn m) rb = (Ok m1, rb1)" "rendian rb1 = rendian rb"
    "mask_shows mc s m1 i" "remaining rb1 = (if descriptor_dirty mc s i
        then chunks_enc w (rendian rb) (flagged mc i (the (map_of (field_groups s) i))) else [])
      @ descriptors_enc w mc s (rendian rb) [Suc i..<n_groups s] @ bs"
  proof (cases "i mod 8 = 0")
    case True
    then have r: "remaining rb = descriptor_mask_at mc s i # (if descriptor_dirty mc s i
        then chunks_enc w (rendian rb) (flagged mc i (the (map_of (field_groups s) i))) else [])
      @ descriptors_enc w mc s (rendian rb) [Suc i..<n_groups s] @ bs"
      using Suc.prems(7) by (simp add: i(2))
    show ?thesis using that True read_u8_Cons [OF r] mask_shows_first [OF True, of mc s] r by simp
  next
    case False
    then show ?thesis using that Suc.prems(6,7) by (simp add: i(2))
  qed
  have fl: "flag_set m1 (i mod 8) = descriptor_dirty mc s i" using m1(3) i(1) by (simp add: mask_shows_def)
  have m2: "Suc i mod 8 \<noteq> 0 \<Longrightarrow> mask_shows mc s m1 (Suc i)" by (rule mask_shows_Suc [OF m1(3)])
  show ?case
  proof (cases "\<exists>fs ss'. ss = (i, fs) # ss'")
    case True
    then obtain fs ss' fs' ds' where ss: "ss = (i, fs) # ss'" "ds = (i, fs') # ds'" "map fst fs = map fst fs'"
      "list_all2 same_fields ss' ds'"
      using Suc.prems(1) by (cases ds) (auto simp: same_fields_def)
    have fs: "map_of (field_groups s) i = Some fs" using Suc.prems(4) [of i] ss(1) by simp
    obtain rb2 where rb2: "(if flag_set m1 (i mod 8) then unmarshal_group fs' else rreturn fs') rb1 =
        (Ok (snd (pick_group w mc s (i, fs) (i, fs'))), rb2)"
      "remaining rb2 = descriptors_enc w mc s (rendian rb) [Suc i..<n_groups s] @ bs" "rendian rb2 = rendian rb"
    proof (cases "descriptor_dirty mc s i")
      case True
      have "list_all2 (\<lambda>x y. fst (fst x) = fst y) (flagged mc i fs) fs'"
        using ss(3) by (simp add: flagged_def list_all2_conv_all_nth) (metis length_map nth_map)
      moreover have "flagged mc i fs \<noteq> []" using map_of_SomeD [OF fs] ok(2) by (auto simp: schema_ok_def flagged_def list_all_iff)
      ultimately show ?thesis
        using that unmarshal_group_enc [OF wire_ok_group [OF ok(1) fs True], of fs' rb1] m1(2,4) True fl fs
        by (auto simp: pick_group_def)
    next
      case False
      then show ?thesis using that m1(2,4) fl by (simp add: pick_group_def)
    qed
    have "\<exists>rb'. unmarshal_descriptors [Suc i..<n_groups s] m1 ds' rb2 = (Ok (map2 (pick_group w mc s) ss' ds'), rb')
        \<and> remaining rb' = bs \<and> rendian rb' = rendian rb2"
      using Suc.prems(2-4) i(1) m2 rb2(2,3) ss
      by (intro Suc.hyps(1) [OF i(3) ss(4)]) (fastforce simp: Suc_le_eq split: if_splits)+
    then show ?thesis using m1(1) rb2(1,3) by (auto simp: i(2) ss pick_group_def)
  next
    case False
    have "map_of ss i = None" using False Suc.prems(2,3) by (cases ss) (auto simp: map_of_eq_None_iff)
    then have nd: "\<not> descriptor_dirty mc s i" using Suc.prems(4) [of i] by (simp add: descriptor_dirty_def)
    have ds: "\<not> (\<exists>fs ds'. ds = (i, fs) # ds')" using False Suc.prems(1) by (cases ss; cases ds) (auto simp: same_fields_def)
    have "\<exists>rb'. unmarshal_descriptors [Suc i..<n_groups s] m1 ds rb1 = (Ok (map2 (pick_group w mc s) ss ds), rb')
        \<and> remaining rb' = bs \<and> rendian rb' = rendian rb1"
      using Suc.prems(2-4) i(1) m2 m1(2,4) nd False
      by (intro Suc.hyps(1) [OF i(3) Suc.prems(1)]) (cases ss; force simp: Suc_le_eq)+
    then show ?thesis using m1(1,2) nd fl ds by (auto simp: i(2) split: list.splits)
  qed
qed

lemma n_groups_above: "(g, fs) \<in> set (field_groups s) \<Longrightarrow> g < n_groups s"
proof -
  have "g \<in> set xs \<Longrightarrow> g \<le> foldr max xs 0" for xs by (induction xs) auto
  moreover assume "(g, fs) \<in> set (field_groups s)"
  ultimately show ?thesis by (force simp: n_groups_def less_Suc_eq_le)
qed

lemma same_schema_groups: "same_schema s d \<Longrightarrow> map fst (field_groups s) = map fst (field_groups d)"
proof -
  have "list_all2 same_fields xs ys \<Longrightarrow> map fst xs = map fst ys" for xs ys :: "(nat \<times> ('a handler \<times> 'a) list) list"
    by (induction rule: list_all2_induct) (auto simp: same_fields_def)
  then show "same_schema s d \<Longrightarrow> map fst (field_groups s) = map fst (field_groups d)"
    by (simp add: same_schema_def)
qed

lemma same_schema_n_groups: "same_schema s d \<Longrightarrow> n_groups s = n_groups d"
  by (simp add: n_groups_def same_schema_groups)

lemma contents_read_back:
  assumes "contents_wire_ok w mc s" "schema_ok s" "same_schema s d" "list_ex (descriptor_dirty mc s) [0..<n_groups s]"
  shows "\<exists>wb rb'. marshal_contents_with mc s (write_new e) = Some (True, wb)
    \<and> unmarshal_contents d (read_new e (wdata wb @ rest)) = (Ok (received_state w mc s d), rb') \<and> remaining rb' = rest"
proof -
  let ?bs = "descriptors_enc w mc s e [0..<n_groups s]"
  have "\<exists>rb'. unmarshal_descriptors [0..<n_groups s] 0 (field_groups d) (read_new e (?bs @ rest)) =
      (Ok (map2 (pick_group w mc s) (field_groups s) (field_groups d)), rb') \<and> remaining rb' = rest
      \<and> rendian rb' = rendian (read_new e (?bs @ rest))"
    using assms(2,3) n_groups_above
    by (intro unmarshal_descriptors_enc [OF assms(1,2)]) (auto simp: schema_ok_def same_schema_def)
  then show ?thesis
    using assms(4) same_schema_n_groups [OF assms(3)] marshal_descriptors_enc [OF assms(1), of _ "write_new e"]
    by (auto simp: marshal_contents_with_def unmarshal_contents_def received_state_def write_new_def write_bytes_def)
qed

text \<open>
  The contents of a state are read back, for any number of groups and of fields in a group: a field
  that is dirty for the context in a group the target may see is received, every other field is the one
  the receiver had, and the bytes after the contents are left.
\<close>

lemma contents_roundtrip:
  assumes "contents_wire_ok w mc s" "schema_ok s" "same_schema s d" "list_ex (descriptor_dirty mc s) [0..<n_groups s]"
  shows "\<exists>wb rb'. marshal_contents_with mc s (write_new e) = Some (True, wb)
    \<and> unmarshal_contents d (read_new e (wdata wb @ rest)) = (Ok (received_state w mc s d), rb') \<and> remaining rb' = rest"
  by (rule contents_read_back [OF assms])

text \<open>A state with one group of a single byte.\<close>

definition byte_state :: "u8 field_handler \<Rightarrow> u8 field_handler derived_state" where
  "byte_state f = \<lparr>hub = replicated_state_new, field_groups = [(0, [(field_base u8_codec 0, f)])]\<rparr>"

definition byte_wire :: "u8 field_handler handler_wire" where
  "byte_wire = (\<lambda>_. (has_valid (\<lambda>_. True), value_enc (\<lambda>_ v. [v]), received_from))"

lemma byte_state_facts:
  "n_groups (byte_state f) = 1" "schema_ok (byte_state f)" "same_schema (byte_state f) (byte_state g)"
  "descriptor_dirty marshal_context_default (byte_state f) 0 \<longleftrightarrow> is_dirty_since Invalid f"
  "contents_wire_ok byte_wire marshal_context_default (byte_state (field_some v))"
  using lawful_codec.wire_field [OF lawful_scalars(1), of 0]
  by (simp_all add: byte_state_def byte_wire_def n_groups_def schema_ok_def same_schema_def same_fields_def
      descriptor_dirty_def group_visible_def field_dirty_def field_base_def group_baseline_def marshal_context_default_def
      contents_wire_ok_def flagged_def dirty_ok_def entry_wire_ok_def has_valid_def field_some_def field_new_def)

section \<open>What a client does not see\<close>

lemma marshal_descriptors_cong:
  assumes "\<And>g. descriptor_dirty mc s g = descriptor_dirty mc s' g" "n_groups s = n_groups s'"
    "\<And>g. descriptor_dirty mc s g \<Longrightarrow> map_of (field_groups s) g = map_of (field_groups s') g"
  shows "marshal_descriptors mc s gs wb = marshal_descriptors mc s' gs wb"
proof (induction gs arbitrary: wb)
  case (Cons g gs)
  have d: "descriptor_dirty mc s' = descriptor_dirty mc s" using assms(1) by auto
  show ?case
    using Cons assms(3) [of g] by (cases "descriptor_dirty mc s g") (simp_all add: d assms(2) split: option.splits)
qed simp

lemma map_of_agree:
  "list_all2 (\<lambda>(g, a) (g', b). g = g' \<and> (P g \<longrightarrow> a = b)) xs ys \<Longrightarrow>
     (map_of xs g = None \<longleftrightarrow> map_of ys g = None) \<and> (P g \<longrightarrow> map_of xs g = map_of ys g)"
  by (induction xs ys rule: list_all2_induct) auto

text \<open>
  C6. A client learns nothing from the contents about a group that is not whitelisted for it: two states
  that agree on the groups the client may see are written with the same bytes.
\<close>

theorem contents_hide_groups:
  assumes "filter_target mc = Some t"
    and "\<And>g. should_send_to_client t g (hub s) = should_send_to_client t g (hub s')"
    and "list_all2 (\<lambda>(g, fs) (g', fs'). g = g' \<and> (should_send_to_client t g (hub s) \<longrightarrow> fs = fs')) (field_groups s) (field_groups s')"
  shows "marshal_contents_with mc s wb = marshal_contents_with mc s' wb"
proof -
  have keys: "map fst (field_groups s) = map fst (field_groups s')"
    using assms(3) by (induction rule: list_all2_induct) auto
  then have n: "n_groups s = n_groups s'" by (simp add: n_groups_def)
  have m: "(map_of (field_groups s) g = None \<longleftrightarrow> map_of (field_groups s') g = None)
      \<and> (should_send_to_client t g (hub s) \<longrightarrow> map_of (field_groups s) g = map_of (field_groups s') g)" for g
    using map_of_agree [OF assms(3), of g] .
  have d: "descriptor_dirty mc s g = descriptor_dirty mc s' g" for g
    using m [of g] assms(1,2) n
    by (auto simp: descriptor_dirty_def group_visible_def should_send_to_client_group_def split: option.splits)
  have "map_of (field_groups s) g = map_of (field_groups s') g" if "descriptor_dirty mc s g" for g
    using that m [of g] assms(1)
    by (auto simp: descriptor_dirty_def group_visible_def should_send_to_client_group_def split: option.splits)
  then have "marshal_descriptors mc s gs wb = marshal_descriptors mc s' gs wb" for gs
    by (rule marshal_descriptors_cong [OF d n])
  moreover have "descriptor_dirty mc s = descriptor_dirty mc s'" using d by blast
  ultimately show ?thesis by (simp add: marshal_contents_with_def n)
qed

text \<open>Client 9 does not see the group that is whitelisted for client 7.\<close>

theorem contents_hide_groups_witness:
  "let hb = add_client_to_replication_whitelist 7 0 replicated_state_new; mc = marshal_context_default\<lparr>filter_target := Some 9\<rparr>
   in marshal_contents_with mc (byte_state (field_some 1)\<lparr>hub := hb\<rparr>) (write_new BigEndian) =
      marshal_contents_with mc (byte_state (field_some 2)\<lparr>hub := hb\<rparr>) (write_new BigEndian)"
  unfolding Let_def
  by (rule contents_hide_groups [where t = 9])
    (simp_all add: byte_state_def should_send_to_client_def add_client_to_replication_whitelist_def update_targets_def
      ensure_filter_groups_def replicated_state_new_def with_reserved_groups_def filter_group_default_def
      max_filtergroups_per_replicated_state_def client_targets_def field_access_def field_some_def field_new_def
      effective_value_def marshal_context_default_def Let_def)

end
