(* ===== verification/State_Replication.thy ===== *)
theory State_Replication
  imports Derived_State
begin

text \<open>
  From the server to the client: the server merges an update into its state and writes what changed since
  the baseline; the client reads it into a fresh state and merges that into its own. The contract of a
  handler says what this does to one field; the state follows from it for any mix of handlers.
\<close>

section \<open>The contract of a replicated handler\<close>

record ('s, 'v) handler_model =
  hm_ok :: "'s \<Rightarrow> bool"
  hm_enc :: "endian \<Rightarrow> 's \<Rightarrow> bytes"
  hm_received :: "'s \<Rightarrow> 's"
  hm_view :: "'s \<Rightarrow> 'v"
  hm_wf :: "'s \<Rightarrow> bool"
  hm_blank :: 's

definition merged :: "'s handler \<Rightarrow> hub_seq \<Rightarrow> bool \<Rightarrow> 's \<Rightarrow> 's \<Rightarrow> 's \<Rightarrow> 's" where
  "merged h seq inherit old new self = fst (snd (hb_merge h old new seq inherit self))"

text \<open>
  \<open>hm_view\<close> is what the owner of the state reads, \<open>hm_blank\<close> the field of a fresh state. An update either
  leaves the view alone or makes the field dirty, and a client that merges what it received has the view
  of the sender; a field that was not sent leaves the client as it was.
\<close>

locale replicated_handler =
  wire_handler h "hm_ok m" "hm_enc m" "hm_received m" for h :: "'s handler" and m :: "('s, 'v) handler_model" +
  assumes merge_clean: "hm_wf m old \<Longrightarrow> hm_wf m new \<Longrightarrow> \<not> hb_is_dirty h b old \<Longrightarrow> seq_is_valid seq \<Longrightarrow> b < seq \<Longrightarrow>
      \<not> hb_is_dirty h b (merged h seq inherit old new (hm_blank m)) \<Longrightarrow>
      hm_view m (merged h seq inherit old new (hm_blank m)) = hm_view m old"
    and merge_dirty: "hm_wf m old \<Longrightarrow> hm_wf m new \<Longrightarrow> \<not> hb_is_dirty h b old \<Longrightarrow>
      hb_is_dirty h b (merged h seq inherit old new (hm_blank m)) \<Longrightarrow> hm_ok m (merged h seq inherit old new (hm_blank m))"
    and merge_received_view: "hm_ok m f \<Longrightarrow> hm_view m (merged h seq inherit client (hm_received m f) (hm_blank m)) = hm_view m f"
    and merge_blank_view: "hm_view m (merged h seq inherit client (hm_blank m) (hm_blank m)) = hm_view m client"
begin

lemma update_reaches_client:
  assumes "hm_wf m old" "hm_wf m new" "\<not> hb_is_dirty h b old" "seq_is_valid seq" "b < seq"
    and "hm_view m client = hm_view m old"
  shows "let f = merged h seq inherit old new (hm_blank m) in hm_view m (merged h seq' inherit' client (if hb_is_dirty h b f then hm_received m f else hm_blank m) (hm_blank m))
    = hm_view m f"
  using merge_clean [OF assms(1-5)] merge_dirty [OF assms(1-3)] assms(6)
  by (auto simp: Let_def merge_received_view merge_blank_view)

end

definition field_model :: "('a \<Rightarrow> bool) \<Rightarrow> (endian \<Rightarrow> 'a \<Rightarrow> bytes) \<Rightarrow> 'a \<Rightarrow> ('a field_handler, 'a) handler_model" where
  "field_model valid enc d =
     \<lparr>hm_ok = has_valid valid, hm_enc = value_enc enc, hm_received = received_from, hm_view = effective_value d,
      hm_wf = (\<lambda>f. field_ok f \<and> valid (effective_value d f)), hm_blank = field_default\<rparr>"

lemma merged_field: "merged (field_base c d) seq inherit old new self = snd (field_merge d False old new seq inherit self)"
  by (simp add: merged_def field_base_def split: prod.splits)

lemma blank_field: "fh_equals field_default = None" "\<not> is_default_value field_default" "\<not> is_field_valid field_default"
  by (simp_all add: field_default_def is_default_value_def is_field_valid_def)

text \<open>A field handler without a registered default keeps the contract.\<close>

sublocale lawful_codec \<subseteq> field: replicated_handler "field_base c d" "field_model valid enc d" for d
proof (intro replicated_handler.intro replicated_handler_axioms.intro)
  show "wire_handler (field_base c d) (hm_ok (field_model valid enc d)) (hm_enc (field_model valid enc d))
      (hm_received (field_model valid enc d))"
    using wire_field by (simp add: field_model_def)
next
  fix old new :: "'a field_handler" and b seq inherit
  assume a: "\<not> hb_is_dirty (field_base c d) b old" "seq_is_valid seq" "b < seq"
    "\<not> hb_is_dirty (field_base c d) b (merged (field_base c d) seq inherit old new (hm_blank (field_model valid enc d)))"
  let ?m = "snd (field_merge d False old new seq inherit field_default)"
  have "\<not> is_dirty_since b ?m" using a(4) by (simp add: merged_field field_model_def) (simp add: field_base_def)
  then have "fh_last_modified ?m \<noteq> seq" using a(2,3) by (auto simp: is_dirty_since_def)
  then show "hm_view (field_model valid enc d) (merged (field_base c d) seq inherit old new (hm_blank (field_model valid enc d)))
      = hm_view (field_model valid enc d) old"
    using merge_sequence [OF blank_field(1), of d old new seq inherit] by (simp add: merged_field field_model_def Let_def)
next
  fix old new :: "'a field_handler" and b seq inherit
  assume a: "hm_wf (field_model valid enc d) old" "hm_wf (field_model valid enc d) new" "\<not> hb_is_dirty (field_base c d) b old"
    "hb_is_dirty (field_base c d) b (merged (field_base c d) seq inherit old new (hm_blank (field_model valid enc d)))"
  let ?m = "snd (field_merge d False old new seq inherit field_default)"
  have dirty: "is_dirty_since b ?m" "\<not> is_dirty_since b old"
    using a(3,4) by (simp_all add: merged_field field_model_def) (simp_all add: field_base_def)
  then have "fh_last_modified ?m \<noteq> Invalid" "fh_last_modified ?m \<noteq> fh_last_modified old"
    by (auto simp: is_dirty_since_def)
  then have "fh_value ?m = Some (effective_value d new)"
    using a(1,2) default_value_Some [of new] blank_field(1)
    by (auto simp: field_model_def field_merge_def effective_value_def field_ok_def is_field_valid_def Let_def
        split: if_splits option.splits)
  then show "hm_ok (field_model valid enc d) (merged (field_base c d) seq inherit old new (hm_blank (field_model valid enc d)))"
    using a(2) by (simp add: merged_field field_model_def has_valid_def)
next
  fix f client :: "'a field_handler" and seq inherit
  assume "hm_ok (field_model valid enc d) f"
  then obtain v where "fh_value f = Some v" by (auto simp: field_model_def has_valid_def split: option.splits)
  then show "hm_view (field_model valid enc d)
      (merged (field_base c d) seq inherit client (hm_received (field_model valid enc d) f) (hm_blank (field_model valid enc d)))
      = hm_view (field_model valid enc d) f"
    using merge_value [OF blank_field(1), of d client "received_from f" seq inherit]
    by (simp add: merged_field field_model_def received_from_def received_field_def is_field_valid_def effective_value_def)
next
  fix client :: "'a field_handler" and seq inherit
  show "hm_view (field_model valid enc d)
      (merged (field_base c d) seq inherit client (hm_blank (field_model valid enc d)) (hm_blank (field_model valid enc d)))
      = hm_view (field_model valid enc d) client"
    using merge_value [OF blank_field(1), of d client field_default seq inherit]
    by (simp add: merged_field field_model_def blank_field)
qed

context lawful_codec
begin

lemma replicated_field: "replicated_handler (field_base c d) (field_model valid enc d)"
  by unfold_locales

end

section \<open>Merging the fields of a state\<close>

text \<open>The head of a list of fields with the handler types of another.\<close>

lemma same_head:
  assumes "map fst (x # xs) = map fst ys"
  shows "\<exists>f ys'. ys = (fst x, f) # ys' \<and> map fst xs = map fst ys'"
proof (cases ys)
  case (Cons y ys')
  have "ys = (fst x, snd y) # ys'" "map fst xs = map fst ys'" using assms Cons by (cases y, simp)+
  then show ?thesis by blast
qed (use assms in simp)

lemma merge_fields_merged:
  "map fst olds = map fst news \<Longrightarrow> map fst olds = map fst selfs \<Longrightarrow>
     fst (merge_fields seq inherit olds news selfs oc) =
     map (\<lambda>((h, old), (_, new), (_, self)). (h, merged h seq inherit old new self)) (zip olds (zip news selfs))"
proof (induction olds arbitrary: news selfs oc)
  case (Cons x olds)
  obtain new news' where n: "news = (fst x, new) # news'" "map fst olds = map fst news'" using same_head [OF Cons.prems(1)] by blast
  obtain self selfs' where s: "selfs = (fst x, self) # selfs'" "map fst olds = map fst selfs'" using same_head [OF Cons.prems(2)] by blast
  show ?case unfolding n(1) s(1) by (cases x) (simp add: merged_def split_beta Let_def Cons.IH [OF n(2) s(2)])
qed simp

definition merged_group ::
    "hub_seq \<Rightarrow> bool \<Rightarrow> ('s handler \<times> 's) list \<Rightarrow> ('s handler \<times> 's) list \<Rightarrow> ('s handler \<times> 's) list \<Rightarrow> ('s handler \<times> 's) list" where
  "merged_group seq inherit olds news selfs =
     map (\<lambda>((h, old), (_, new), (_, self)). (h, merged h seq inherit old new self)) (zip olds (zip news selfs))"

lemma merge_groups_merged:
  "list_all2 same_fields olds news \<Longrightarrow> list_all2 same_fields olds selfs \<Longrightarrow>
     fst (merge_groups seq inherit olds news selfs oc) =
     map (\<lambda>((g, old), (_, new), (_, self)). (g, merged_group seq inherit old new self)) (zip olds (zip news selfs))"
proof (induction olds arbitrary: news selfs oc)
  case (Cons x olds)
  obtain new news' self selfs' where ys: "news = (fst x, new) # news'" "selfs = (fst x, self) # selfs'"
    "list_all2 same_fields olds news'" "list_all2 same_fields olds selfs'" "map fst (snd x) = map fst new" "map fst (snd x) = map fst self"
    using Cons.prems by (cases x; cases news; cases selfs) (auto simp: same_fields_def)
  show ?case unfolding ys(1,2)
    by (cases x) (use ys(5,6) in \<open>simp add: split_beta Cons.IH [OF ys(3,4)] merged_group_def merge_fields_merged\<close>)
qed simp

lemma field_groups_merge:
  assumes "same_schema old new" "same_schema old dflt"
  shows "field_groups (fst (state_merge dflt old new seq inherit)) =
    map (\<lambda>((g, o'), (_, n), (_, s)). (g, merged_group seq inherit o' n s))
      (zip (field_groups old) (zip (field_groups new) (field_groups dflt)))"
  using merge_groups_merged [of "field_groups old" "field_groups new" "field_groups dflt" seq inherit merge_outcome_default] assms
  by (simp add: same_schema_def state_merge_def Let_def split_beta)

lemma merged_group_fst:
  "map fst olds = map fst news \<Longrightarrow> map fst olds = map fst selfs \<Longrightarrow> map fst (merged_group seq inherit olds news selfs) = map fst olds"
proof (induction olds arbitrary: news selfs)
  case (Cons x olds)
  obtain new news' where n: "news = (fst x, new) # news'" "map fst olds = map fst news'" using same_head [OF Cons.prems(1)] by blast
  obtain self selfs' where s: "selfs = (fst x, self) # selfs'" "map fst olds = map fst selfs'" using same_head [OF Cons.prems(2)] by blast
  show ?case unfolding n(1) s(1) using Cons.IH [OF n(2) s(2)] by (simp add: merged_group_def split_beta)
qed (simp add: merged_group_def)

text \<open>One group, seen by the client.\<close>

type_synonym ('s, 'v) model = "'s handler \<Rightarrow> ('s, 'v) handler_model"

definition wire_of :: "('s, 'v) model \<Rightarrow> 's handler_wire" where
  "wire_of w = (\<lambda>h. (hm_ok (w h), hm_enc (w h), hm_received (w h)))"

definition group_view :: "('s, 'v) model \<Rightarrow> ('s handler \<times> 's) list \<Rightarrow> 'v list" where
  "group_view w fs = map (\<lambda>(h, f). hm_view (w h) f) fs"

definition fresh_group :: "('s, 'v) model \<Rightarrow> ('s handler \<times> 's) list \<Rightarrow> bool" where
  "fresh_group w fs \<longleftrightarrow> list_all (\<lambda>(h, f). replicated_handler h (w h) \<and> f = hm_blank (w h)) fs"

definition wf_group :: "('s, 'v) model \<Rightarrow> ('s handler \<times> 's) list \<Rightarrow> bool" where
  "wf_group w fs \<longleftrightarrow> list_all (\<lambda>(h, f). hm_wf (w h) f) fs"

definition pick_dirty ::
    "('s, 'v) model \<Rightarrow> marshal_context \<Rightarrow> nat \<Rightarrow> ('s handler \<times> 's) list \<Rightarrow> ('s handler \<times> 's) list \<Rightarrow> ('s handler \<times> 's) list" where
  "pick_dirty w mc g ms bs = map2 (pick (wire_of w)) (flagged mc g ms) bs"

lemma group_update:
  assumes "map fst os = map fst ns" "map fst os = map fst bs" "map fst os = map fst cs"
    and "fresh_group w bs" "wf_group w os" "wf_group w ns" "\<not> list_ex (field_dirty mc g) os"
    and "seq_is_valid seq" "group_baseline mc g < seq" "group_view w cs = group_view w os"
  shows "let ms = merged_group seq inherit os ns bs in list_all (dirty_ok (wire_of w)) (flagged mc g ms)
    \<and> group_view w (merged_group seq' inherit' cs (pick_dirty w mc g ms bs) bs) = group_view w ms"
  using assms(1-7,10) unfolding Let_def
proof (induction os arbitrary: ns bs cs)
  case Nil
  then show ?case by (simp add: merged_group_def flagged_def group_view_def)
next
  case (Cons x os)
  let ?h = "fst x" and ?old = "snd x"
  obtain new ns' where n: "ns = (?h, new) # ns'" "map fst os = map fst ns'" using same_head [OF Cons.prems(1)] by blast
  obtain b bs' where b: "bs = (?h, b) # bs'" "map fst os = map fst bs'" using same_head [OF Cons.prems(2)] by blast
  obtain client cs' where c: "cs = (?h, client) # cs'" "map fst os = map fst cs'" using same_head [OF Cons.prems(3)] by blast
  have rh: "replicated_handler ?h (w ?h)" using Cons.prems(4) b(1) by (simp add: fresh_group_def)
  have facts: "b = hm_blank (w ?h)" "hm_wf (w ?h) ?old" "hm_wf (w ?h) new" "\<not> hb_is_dirty ?h (group_baseline mc g) ?old"
    "hm_view (w ?h) client = hm_view (w ?h) ?old"
    using Cons.prems(4-8) by (simp_all add: n(1) b(1) c(1) fresh_group_def wf_group_def field_dirty_def group_view_def split_beta)
  have "list_all (dirty_ok (wire_of w)) (flagged mc g (merged_group seq inherit os ns' bs'))
    \<and> group_view w (merged_group seq' inherit' cs' (pick_dirty w mc g (merged_group seq inherit os ns' bs') bs') bs') =
      group_view w (merged_group seq inherit os ns' bs')"
    using Cons.prems(4-8) n(2) b(2) c(2) by (intro Cons.IH) (simp_all add: n(1) b(1) c(1) fresh_group_def wf_group_def group_view_def)
  moreover
  let ?f = "merged ?h seq inherit ?old new (hm_blank (w ?h))"
  have m: "merged_group seq inherit (x # os) ns bs = (?h, ?f) # merged_group seq inherit os ns' bs'"
    by (simp add: merged_group_def n(1) b(1) facts(1) split_beta)
  have p: "pick_dirty w mc g ((?h, ?f) # ms') bs =
      (?h, if hb_is_dirty ?h (group_baseline mc g) ?f then hm_received (w ?h) ?f else hm_blank (w ?h)) # pick_dirty w mc g ms' bs'" for ms'
    by (simp add: pick_dirty_def flagged_def pick_def field_dirty_def entry_received_def wire_of_def b(1) facts(1))
  have "hm_view (w ?h) (merged ?h seq' inherit' client
      (if hb_is_dirty ?h (group_baseline mc g) ?f then hm_received (w ?h) ?f else hm_blank (w ?h)) (hm_blank (w ?h))) = hm_view (w ?h) ?f"
    using replicated_handler.update_reaches_client [OF rh facts(2-4) assms(8,9) facts(5)] by (simp add: Let_def)
  then have "group_view w (merged_group seq' inherit' cs (pick_dirty w mc g ((?h, ?f) # ms') bs) bs) =
      hm_view (w ?h) ?f # group_view w (merged_group seq' inherit' cs' (pick_dirty w mc g ms' bs') bs')" for ms'
    unfolding p by (simp add: b(1) c(1) facts(1) merged_group_def group_view_def)
  moreover have "dirty_ok (wire_of w) ((?h, ?f), field_dirty mc g (?h, ?f))"
    using replicated_handler.merge_dirty [OF rh facts(2-4)] replicated_handler.axioms(1) [OF rh]
    by (simp add: dirty_ok_def entry_wire_ok_def wire_of_def field_dirty_def)
  ultimately show ?case
    unfolding m by (simp add: flagged_def) (simp add: group_view_def)
qed

section \<open>A state reaches the client\<close>

definition fresh_state :: "('s, 'v) model \<Rightarrow> 's derived_state \<Rightarrow> bool" where
  "fresh_state w d \<longleftrightarrow> schema_ok d \<and> list_all (\<lambda>(g, fs). fresh_group w fs) (field_groups d)"

definition wf_state :: "('s, 'v) model \<Rightarrow> 's derived_state \<Rightarrow> bool" where
  "wf_state w s \<longleftrightarrow> list_all (\<lambda>(g, fs). wf_group w fs) (field_groups s)"

text \<open>What the target of a context may see of a state; the whitelists are those of the sender \<open>m\<close>.\<close>

definition visible_view :: "('s, 'v) model \<Rightarrow> marshal_context \<Rightarrow> 's derived_state \<Rightarrow> 's derived_state \<Rightarrow> (nat \<times> 'v list) list" where
  "visible_view w mc m s =
     map (\<lambda>(g, fs). (g, group_view w fs)) (filter (\<lambda>(g, fs). group_visible mc g m) (field_groups s))"

definition nothing_dirty :: "marshal_context \<Rightarrow> 's derived_state \<Rightarrow> bool" where
  "nothing_dirty mc s \<longleftrightarrow> list_all (\<lambda>(g, fs). \<not> list_ex (field_dirty mc g) fs) (field_groups s)"

definition merged_groups ::
    "hub_seq \<Rightarrow> bool \<Rightarrow> (nat \<times> ('s handler \<times> 's) list) list \<Rightarrow> (nat \<times> ('s handler \<times> 's) list) list \<Rightarrow>
     (nat \<times> ('s handler \<times> 's) list) list \<Rightarrow> (nat \<times> ('s handler \<times> 's) list) list" where
  "merged_groups seq inherit os ns ss =
     map (\<lambda>((g, old), (_, new), (_, self)). (g, merged_group seq inherit old new self)) (zip os (zip ns ss))"

lemma merged_groups_Cons:
  "merged_groups seq inherit ((g, old) # os) ((g', new) # ns) ((g'', self) # ss) =
     (g, merged_group seq inherit old new self) # merged_groups seq inherit os ns ss"
  by (simp add: merged_groups_def)

text \<open>The group a client decodes, whether or not its descriptor was sent.\<close>

definition decoded_group ::
    "('s, 'v) model \<Rightarrow> marshal_context \<Rightarrow> 's derived_state \<Rightarrow> nat \<times> ('s handler \<times> 's) list \<Rightarrow> nat \<times> ('s handler \<times> 's) list \<Rightarrow>
     nat \<times> ('s handler \<times> 's) list" where
  "decoded_group w mc m = (\<lambda>(g, ms) (_, bs). (g, if group_visible mc g m then pick_dirty w mc g ms bs else bs))"

lemma pick_none:
  "\<not> list_ex (field_dirty mc g) ms \<Longrightarrow> length ms = length bs \<Longrightarrow> pick_dirty w mc g ms bs = bs"
  by (induction ms bs rule: list_induct2') (auto simp: pick_dirty_def flagged_def pick_def)

lemma pick_group_decoded:
  assumes "map_of (field_groups m) g = Some ms" "length ms = length bs"
  shows "pick_group (wire_of w) mc m (g, ms) (g, bs) = decoded_group w mc m (g, ms) (g, bs)"
  using assms pick_none [of mc g ms bs w]
  by (auto simp: pick_group_def decoded_group_def descriptor_dirty_def pick_dirty_def)

lemma groups_update:
  assumes "list_all2 same_fields os ns" "list_all2 same_fields os bs" "list_all2 same_fields os cs"
    and "list_all (\<lambda>(g, fs). fresh_group w fs) bs" "list_all (\<lambda>(g, fs). wf_group w fs) os" "list_all (\<lambda>(g, fs). wf_group w fs) ns"
    and "list_all (\<lambda>(g, fs). \<not> list_ex (field_dirty mc g) fs) os"
    and "seq_is_valid seq" "\<And>g. group_baseline mc g < seq"
    and "map (\<lambda>(g, fs). (g, group_view w fs)) (filter (\<lambda>(g, fs). group_visible mc g m) cs)
       = map (\<lambda>(g, fs). (g, group_view w fs)) (filter (\<lambda>(g, fs). group_visible mc g m) os)"
  shows "let ms = merged_groups seq inherit os ns bs in
    list_all (\<lambda>(g, fs). group_visible mc g m \<longrightarrow> list_all (dirty_ok (wire_of w)) (flagged mc g fs)) ms
    \<and> list_all2 same_fields os ms
    \<and> map (\<lambda>(g, fs). (g, group_view w fs)) (filter (\<lambda>(g, fs). group_visible mc g m)
         (merged_groups seq' inherit' cs (map2 (decoded_group w mc m) ms bs) bs))
       = map (\<lambda>(g, fs). (g, group_view w fs)) (filter (\<lambda>(g, fs). group_visible mc g m) ms)"
  using assms(1-7,10) unfolding Let_def
proof (induction os arbitrary: ns bs cs)
  case Nil
  then show ?case by (simp add: merged_groups_def)
next
  case (Cons x os)
  obtain g old new b client ns' bs' cs' where x: "x = (g, old)" "ns = (g, new) # ns'" "bs = (g, b) # bs'" "cs = (g, client) # cs'"
    "map fst old = map fst new" "map fst old = map fst b" "map fst old = map fst client"
    using Cons.prems(1-3) by (cases x; cases ns; cases bs; cases cs) (auto simp: same_fields_def)
  have view: "group_visible mc g m \<Longrightarrow> group_view w client = group_view w old"
    "map (\<lambda>(g, fs). (g, group_view w fs)) (filter (\<lambda>(g, fs). group_visible mc g m) cs')
       = map (\<lambda>(g, fs). (g, group_view w fs)) (filter (\<lambda>(g, fs). group_visible mc g m) os)"
    using Cons.prems(8) by (simp_all add: x split: if_splits)
  let ?ms = "merged_groups seq inherit os ns' bs'"
  have IH: "list_all (\<lambda>(g, fs). group_visible mc g m \<longrightarrow> list_all (dirty_ok (wire_of w)) (flagged mc g fs)) ?ms
    \<and> list_all2 same_fields os ?ms
    \<and> map (\<lambda>(g, fs). (g, group_view w fs)) (filter (\<lambda>(g, fs). group_visible mc g m)
         (merged_groups seq' inherit' cs' (map2 (decoded_group w mc m) ?ms bs') bs'))
       = map (\<lambda>(g, fs). (g, group_view w fs)) (filter (\<lambda>(g, fs). group_visible mc g m) ?ms)"
    using Cons.prems(1-7) view(2) by (intro Cons.IH) (simp_all add: x)
  have g: "fresh_group w b" "wf_group w old" "wf_group w new" "\<not> list_ex (field_dirty mc g) old"
    using Cons.prems(4-7) by (simp_all add: x)
  have s: "map fst old = map fst (merged_group seq inherit old new b)"
    using x(5,6) by (rule merged_group_fst [symmetric])
  show ?case
    using group_update [OF x(5-7) g assms(8,9) view(1), of inherit seq' inherit'] IH s
    by (simp add: x(1-4) merged_groups_Cons decoded_group_def same_fields_def Let_def)
qed

lemma received_groups:
  assumes "schema_ok m" "same_schema m d"
  shows "field_groups (received_state (wire_of w) mc m d) = map2 (decoded_group w mc m) (field_groups m) (field_groups d)"
proof -
  have "pick_group (wire_of w) mc m x y = decoded_group w mc m x y" if xy_in: "(x, y) \<in> set (zip (field_groups m) (field_groups d))" for x y
  proof -
    obtain g ms bs where xy: "x = (g, ms)" "y = (g, bs)" "map fst ms = map fst bs"
    proof -
      have "same_fields x y" using xy_in assms(2) by (auto simp: same_schema_def list_all2_iff)
      then show thesis using that [of "fst x" "snd x" "snd y"] by (cases x; cases y) (simp add: same_fields_def)
    qed
    have "distinct (map fst (field_groups m))"
      using assms(1) by (simp add: schema_ok_def strict_sorted_iff)
    then have "map_of (field_groups m) g = Some ms"
      using xy_in xy(1) by (auto dest: set_zip_leftD)
    moreover have "length ms = length bs" using xy(3) by (metis length_map)
    ultimately show ?thesis using pick_group_decoded xy(1,2) by blast
  qed
  then show ?thesis by (auto simp: received_state_def)
qed

lemma received_nothing:
  assumes "same_schema m d" "\<not> list_ex (descriptor_dirty mc m) [0..<n_groups m]"
  shows "received_state w mc m d = d"
proof -
  have "pick_group w mc m x y = y" if "(x, y) \<in> set (zip (field_groups m) (field_groups d))" for x y
  proof -
    have "fst x < n_groups m" using n_groups_above [of "fst x" "snd x" m] set_zip_leftD [OF that] by simp
    then show ?thesis using assms(2) by (auto simp: pick_group_def list_ex_iff split_beta)
  qed
  then have "map2 (pick_group w mc m) (field_groups m) (field_groups d) = map snd (zip (field_groups m) (field_groups d))"
    by (intro map_cong) auto
  also have "\<dots> = field_groups d"
    using assms(1) by (simp add: same_schema_def list_all2_lengthD)
  finally show ?thesis by (simp add: received_state_def)
qed

lemma contents_delivered:
  assumes "contents_wire_ok w mc m" "schema_ok m" "same_schema m d"
  shows "\<exists>sent wb. marshal_contents_with mc m (write_new e) = Some (sent, wb)
    \<and> fst (state_unmarshal d (read_new e (wdata wb))) = Ok (received_state w mc m d)"
proof (cases "list_ex (descriptor_dirty mc m) [0..<n_groups m]")
  case True
  obtain wb rb' where wb: "marshal_contents_with mc m (write_new e) = Some (True, wb)"
    "unmarshal_contents d (read_new e (wdata wb @ [])) = (Ok (received_state w mc m d), rb')"
    using contents_read_back [OF assms True] by blast
  have "wdata wb = descriptors_enc w mc m e [0..<n_groups m]"
    using wb(1) True marshal_descriptors_enc [OF assms(1), of _ "write_new e"]
    by (auto simp: marshal_contents_with_def write_bytes_def write_new_def)
  moreover have "[0..<n_groups m] = 0 # [Suc 0..<n_groups m]" by (simp add: n_groups_def upt_conv_Cons)
  ultimately have "wdata wb \<noteq> []" by simp
  then show ?thesis using wb by (intro exI [of _ True] exI [of _ wb]) (simp add: state_unmarshal_def)
next
  case False
  then show ?thesis
    using received_nothing [OF assms(3) False, of w]
    by (intro exI [of _ False] exI [of _ "write_new e"]) (simp add: marshal_contents_with_def state_unmarshal_def write_new_def)
qed

lemma same_fields_iff: "list_all2 same_fields xs ys \<longleftrightarrow>
    map (\<lambda>(g, fs). (g, map fst fs)) xs = map (\<lambda>(g, fs). (g, map fst fs)) ys"
proof (induction xs arbitrary: ys)
  case (Cons x xs)
  then show ?case by (cases x; cases ys) (auto simp: same_fields_def)
qed auto

lemma same_fields_trans: "list_all2 same_fields xs ys \<Longrightarrow> list_all2 same_fields xs zs \<Longrightarrow> list_all2 same_fields ys zs"
  by (simp add: same_fields_iff)

lemma same_fields_sym: "list_all2 same_fields xs ys \<Longrightarrow> list_all2 same_fields ys xs"
  by (simp add: same_fields_iff)

lemma same_schema_ok: "same_schema m d \<Longrightarrow> schema_ok d \<Longrightarrow> schema_ok m"
proof -
  assume a: "same_schema m d" "schema_ok d"
  have "list_all2 same_fields xs ys \<Longrightarrow> list_all (\<lambda>(g, fs). fs \<noteq> []) ys \<Longrightarrow> list_all (\<lambda>(g, fs). fs \<noteq> []) xs"
    for xs ys :: "(nat \<times> ('a handler \<times> 'a) list) list"
    by (induction rule: list_all2_induct) (auto simp: same_fields_def)
  then show "schema_ok m" using a same_schema_groups [OF a(1)] by (auto simp: schema_ok_def same_schema_def)
qed

lemma decoded_same_fields:
  "list_all2 same_fields ms bs \<Longrightarrow> list_all2 same_fields bs (map2 (decoded_group w mc m) ms bs)"
proof (induction rule: list_all2_induct)
  case (Cons x xs y ys)
  obtain g fs bs where xy: "x = (g, fs)" "y = (g, bs)" "map fst fs = map fst bs"
    using Cons(1) by (cases x; cases y) (simp add: same_fields_def)
  have "map fst (pick_dirty w mc g fs bs) = map fst bs"
    using xy(3) by (induction fs bs rule: list_induct2') (auto simp: pick_dirty_def flagged_def pick_def entry_received_def split_beta)
  then show ?case using Cons(3) xy by (simp add: decoded_group_def same_fields_def)
qed simp

text \<open>
  C5. An update of a state reaches a client that was up to date at the baseline. The handlers are any mix
  that keeps the contract \<open>replicated_handler\<close>, which fields without a registered default do (one
  with a registered default can lose its value, shown below); the server's state had nothing newer than the baselines of the client, and the
  client's view of what it may see was the server's. Then after the server has merged the update and the client has read and merged what
  was sent to it, the client sees of the groups it may see what the server has.
\<close>

theorem state_update_reaches_client:
  assumes "fresh_state w d" "same_schema old new" "same_schema old d" "same_schema old client"
    and "wf_state w old" "wf_state w new" "nothing_dirty mc old" "seq_is_valid seq" "\<And>g. group_baseline mc g < seq"
    and "visible_view w mc (fst (state_merge d old new seq inherit)) client = visible_view w mc (fst (state_merge d old new seq inherit)) old"
  shows "let m = fst (state_merge d old new seq inherit) in
    \<exists>sent wb r. marshal_contents_with mc m (write_new e) = Some (sent, wb)
      \<and> fst (state_unmarshal d (read_new e (wdata wb))) = Ok r
      \<and> visible_view w mc m (fst (state_merge d client r seq' inherit')) = visible_view w mc m m"
proof -
  let ?m = "fst (state_merge d old new seq inherit)"
  have groups: "field_groups ?m = merged_groups seq inherit (field_groups old) (field_groups new) (field_groups d)"
    using field_groups_merge [OF assms(2,3)] by (simp add: merged_groups_def)
  have upd: "list_all (\<lambda>(g, fs). group_visible mc g ?m \<longrightarrow> list_all (dirty_ok (wire_of w)) (flagged mc g fs)) (field_groups ?m)"
    "list_all2 same_fields (field_groups old) (field_groups ?m)"
    "map (\<lambda>(g, fs). (g, group_view w fs)) (filter (\<lambda>(g, fs). group_visible mc g ?m)
         (merged_groups seq' inherit' (field_groups client) (map2 (decoded_group w mc ?m) (field_groups ?m) (field_groups d)) (field_groups d)))
       = map (\<lambda>(g, fs). (g, group_view w fs)) (filter (\<lambda>(g, fs). group_visible mc g ?m) (field_groups ?m))"
    using groups_update [of "field_groups old" "field_groups new" "field_groups d" "field_groups client" w mc seq ?m inherit
        seq' inherit'] assms
    by (simp_all add: groups same_schema_def fresh_state_def wf_state_def nothing_dirty_def visible_view_def Let_def)
  have schema: "same_schema ?m d"
    using same_fields_trans [OF upd(2)] assms(3) by (simp add: same_schema_def)
  then have "schema_ok ?m"
    using assms(1) same_schema_ok [OF schema] by (simp add: fresh_state_def)
  moreover have "contents_wire_ok (wire_of w) mc ?m" using upd(1) by (simp add: contents_wire_ok_def)
  ultimately obtain sent wb where sent: "marshal_contents_with mc ?m (write_new e) = Some (sent, wb)"
    "fst (state_unmarshal d (read_new e (wdata wb))) = Ok (received_state (wire_of w) mc ?m d)"
    using contents_delivered schema by blast
  let ?r = "received_state (wire_of w) mc ?m d"
  have r: "field_groups ?r = map2 (decoded_group w mc ?m) (field_groups ?m) (field_groups d)"
    by (rule received_groups) fact+
  have "same_schema d ?r"
    using decoded_same_fields schema unfolding same_schema_def r by blast
  moreover have "same_schema client d"
    using same_fields_trans assms(3,4) by (auto simp: same_schema_def)
  moreover have "same_schema client ?r"
    using calculation same_fields_trans [of "field_groups d" "field_groups client"] same_fields_sym
    by (auto simp: same_schema_def)
  ultimately have "field_groups (fst (state_merge d client ?r seq' inherit')) =
      merged_groups seq' inherit' (field_groups client) (field_groups ?r) (field_groups d)"
    using field_groups_merge by (simp add: merged_groups_def)
  then show ?thesis using sent upd(3) by (auto simp: Let_def visible_view_def r)
qed

definition byte_model :: "(u8 field_handler, u8) model" where
  "byte_model = (\<lambda>_. field_model (\<lambda>_. True) (\<lambda>_ v. [v]) 0)"

theorem state_update_reaches_client_witness:
  "let old = byte_state (set_last_modified (Seq 4) (field_some 3)); new = byte_state (field_some 7);
       d = byte_state field_default; mc = marshal_context_default\<lparr>baseline_seq := Seq 4\<rparr>;
       m = fst (state_merge d old new (Seq 5) False)
   in \<exists>sent wb r. marshal_contents_with mc m (write_new BigEndian) = Some (sent, wb)
      \<and> fst (state_unmarshal d (read_new BigEndian (wdata wb))) = Ok r
      \<and> visible_view byte_model mc m (fst (state_merge d old r (Seq 6) False)) = visible_view byte_model mc m m"
  unfolding Let_def
proof (rule state_update_reaches_client [OF _ byte_state_facts(3) byte_state_facts(3) byte_state_facts(3), where mc = "marshal_context_default\<lparr>baseline_seq := Seq 4\<rparr>", unfolded Let_def])
  have "replicated_handler (field_base u8_codec 0) (byte_model (field_base u8_codec 0))"
    unfolding byte_model_def by (rule lawful_codec.replicated_field [OF lawful_scalars(1)])
  then show "fresh_state byte_model (byte_state field_default)"
    using byte_state_facts(2) [of field_default]
    by (simp add: fresh_state_def fresh_group_def byte_state_def byte_model_def field_model_def)
qed (simp_all add: wf_state_def wf_group_def nothing_dirty_def byte_state_def byte_model_def field_model_def
    field_dirty_def field_base_def group_baseline_def marshal_context_default_def is_dirty_since_def set_last_modified_def
    field_some_def field_new_def field_ok_def seq_is_valid_Seq hub_less_rank rank_def hub_seq_defs)

section \<open>Registered defaults\<close>

definition pair_state :: "u8 field_handler \<Rightarrow> u8 field_handler \<Rightarrow> u8 field_handler derived_state" where
  "pair_state f g =
     \<lparr>hub = replicated_state_new, field_groups = [(0, [(field_base u8_codec 0, f), (field_base u8_codec 0, g)])]\<rparr>"

lemma pair_state_facts:
  "schema_ok (pair_state f g)" "same_schema (pair_state f g) (pair_state f' g')" "n_groups (pair_state f g) = 1"
  by (simp_all add: pair_state_def schema_ok_def same_schema_def same_fields_def n_groups_def)

text \<open>Merging the field of a fresh state that has a registered default.\<close>

lemma merge_registered_default:
  assumes "effective_value d old \<noteq> v" "fh_equals old = None" "fh_default_value old = Some v"
  shows "let m = snd (field_merge d False old (set_default_value v field_default) seq inherit (set_default_value v field_default))
    in effective_value d m = v \<and> fh_last_modified m = seq \<and> fh_has_new_network_data m"
  using assms
  by (simp add: field_merge_def set_default_value_def field_default_def is_default_value_def values_equal_def effective_value_def
      seq_is_valid_def raw_value_def invalid_sequence_value_def Let_def split: option.splits)

text \<open>
  C30. In a state of two one-byte fields, the one with a registered default loses its value when an update
  carries only the other: the default is
  registered in the constructor of the state, a delta that leaves the field out is read into a state
  from that constructor, where the field counts as being at its default, and the merge of the client
  takes that for news and resets the field.
\<close>

theorem registered_default_reset:
  assumes "is_dirty_since b f" "fh_value f \<noteq> None" "\<not> is_dirty_since b g"
    and "effective_value 0 client \<noteq> v" "fh_equals client = None" "fh_default_value client = Some v"
  shows "let d = pair_state field_default (set_default_value v field_default); mc = marshal_context_default\<lparr>baseline_seq := b\<rparr>
    in \<exists>wb r f' g'. marshal_contents_with mc (pair_state f g) (write_new e) = Some (True, wb)
      \<and> fst (state_unmarshal d (read_new e (wdata wb))) = Ok r
      \<and> map (map snd \<circ> snd) (field_groups (fst (state_merge d (pair_state cf client) r seq inherit))) = [[f', g']]
      \<and> effective_value 0 g' = v \<and> fh_last_modified g' = seq \<and> fh_has_new_network_data g'"
proof -
  let ?d = "pair_state field_default (set_default_value v field_default)"
  let ?mc = "marshal_context_default\<lparr>baseline_seq := b\<rparr>" and ?s = "pair_state f g"
  have dirty: "field_dirty ?mc 0 (field_base u8_codec 0, f)" "\<not> field_dirty ?mc 0 (field_base u8_codec 0, g)"
    using assms(1,3) by (simp_all add: field_dirty_def field_base_def group_baseline_def marshal_context_default_def)
  have desc: "descriptor_dirty ?mc ?s 0"
    using dirty(1) by (simp add: descriptor_dirty_def pair_state_def group_visible_def marshal_context_default_def)
  have "entry_wire_ok byte_wire (field_base u8_codec 0, f)"
    using lawful_codec.wire_field [OF lawful_scalars(1), of 0] assms(2)
    by (auto simp: entry_wire_ok_def byte_wire_def has_valid_def)
  then have ok: "contents_wire_ok byte_wire ?mc ?s"
    using dirty(2) by (simp add: contents_wire_ok_def pair_state_def flagged_def dirty_ok_def)
  obtain wb where wb: "marshal_contents_with ?mc ?s (write_new e) = Some (True, wb)"
    "fst (state_unmarshal ?d (read_new e (wdata wb))) = Ok (received_state byte_wire ?mc ?s ?d)"
  proof -
    have d: "list_ex (descriptor_dirty ?mc ?s) [0..<n_groups ?s]" using desc by (simp add: pair_state_facts(3))
    obtain wb1 where "marshal_contents_with ?mc ?s (write_new e) = Some (True, wb1)"
      using contents_read_back [OF ok pair_state_facts(1,2) d] by blast
    moreover obtain sent wb2 where "marshal_contents_with ?mc ?s (write_new e) = Some (sent, wb2)"
      "fst (state_unmarshal ?d (read_new e (wdata wb2))) = Ok (received_state byte_wire ?mc ?s ?d)"
      using contents_delivered [OF ok pair_state_facts(1,2)] by blast
    ultimately show thesis using that by simp
  qed
  obtain f1 where r: "field_groups (received_state byte_wire ?mc ?s ?d) =
      [(0, [(field_base u8_codec 0, f1), (field_base u8_codec 0, set_default_value v field_default)])]"
    using dirty desc by (auto simp: received_state_def pair_state_def pick_group_def flagged_def pick_def entry_received_def)
  let ?m = "field_merge 0 False client (set_default_value v field_default) seq inherit (set_default_value v field_default)"
  have "\<exists>f'. map (map snd \<circ> snd) (field_groups (fst (state_merge ?d (pair_state cf client)
      (received_state byte_wire ?mc ?s ?d) seq inherit))) = [[f', snd ?m]]"
    using r by (simp add: state_merge_def pair_state_def field_base_def split_beta Let_def)
  then show ?thesis
    using wb merge_registered_default [OF assms(4-6), of seq inherit] by (auto simp: Let_def)
qed

theorem registered_default_reset_witness:
  "let d = pair_state field_default (set_default_value 0 field_default); mc = marshal_context_default\<lparr>baseline_seq := Seq 4\<rparr>;
       client = set_last_modified (Seq 3) (set_value 1 (set_default_value 0 field_default))
   in \<exists>wb r f' g'. marshal_contents_with mc (pair_state (set_last_modified (Seq 5) (field_some 7)) client) (write_new BigEndian) = Some (True, wb)
      \<and> fst (state_unmarshal d (read_new BigEndian (wdata wb))) = Ok r
      \<and> map (map snd \<circ> snd) (field_groups (fst (state_merge d (pair_state (field_some 6) client) r (Seq 5) False))) = [[f', g']]
      \<and> effective_value 0 g' = 0 \<and> fh_last_modified g' = Seq 5 \<and> fh_has_new_network_data g'"
  unfolding Let_def
  by (rule registered_default_reset [unfolded Let_def])
    (simp_all add: is_dirty_since_def set_last_modified_def field_some_def field_new_def set_value_def set_default_value_def
      field_default_def effective_value_def values_equal_def seq_is_valid_Seq hub_less_rank rank_def hub_seq_defs seq_is_valid_def)

end
