(* ===== verification/State_Bundle.thy ===== *)
theory State_Bundle
  imports Derived_State
begin

text \<open>
  \<^verbatim>\<open>hub/replicated_state_bundle.rs\<close> and \<^verbatim>\<open>hub/state_bundle_view.rs\<close>: the
  message that carries one update of a client context, its replication control ids, and the writers and
  readers of the stream of state records inside it. The ids of \<^verbatim>\<open>hub/ids.rs\<close> are the words they wrap.

  The fragment registry (\<^verbatim>\<open>hub/fragment.rs\<close>) is filled by the linker from all the states of a program;
  it is an argument of the operations that look a fragment type up. The closures that write a record or
  visit the fragments are functions on the record writer and on the read buffer.
\<close>

type_synonym interest_id = u16
type_synonym fragment_key = u32

definition max_bundle_buffer_size :: nat where "max_bundle_buffer_size = 250 * 1024"
definition max_replication_control_ids :: nat where "max_replication_control_ids = 100"
definition max_replication_control_message_ids :: nat where "max_replication_control_message_ids = 0x200"

definition capped_len_u32 :: "nat \<Rightarrow> u32 option" where
  "capped_len_u32 n = (if n \<le> 0xffffffff then Some (of_nat n) else None)"

section \<open>Performance counters\<close>

record performance_data =
  collection_period_ms :: u16
  count_bundles :: u32
  count_throttled :: u32
  count_overflows :: u32
  count_characters_intended :: u32
  count_characters_actual :: u32
  characters_missed_due_to_rate_limiter :: u32
  objects_missed_due_to_rate_limiter :: u32
  characters_missed_due_to_overflow :: u32
  objects_missed_due_to_overflow :: u32
  characters_added_during_period :: u32
  objects_added_during_period :: u32

definition performance_default :: performance_data where
  "performance_default = \<lparr>collection_period_ms = 0, count_bundles = 0, count_throttled = 0, count_overflows = 0,
     count_characters_intended = 0, count_characters_actual = 0, characters_missed_due_to_rate_limiter = 0,
     objects_missed_due_to_rate_limiter = 0, characters_missed_due_to_overflow = 0, objects_missed_due_to_overflow = 0,
     characters_added_during_period = 0, objects_added_during_period = 0\<rparr>"

definition performance_reset :: "performance_data \<Rightarrow> performance_data" where
  "performance_reset p = performance_default\<lparr>collection_period_ms := collection_period_ms p\<rparr>"

definition performance_add :: "performance_data \<Rightarrow> performance_data \<Rightarrow> performance_data" where
  "performance_add p rhs =
     \<lparr>collection_period_ms = collection_period_ms rhs,
      count_bundles = count_bundles p + count_bundles rhs,
      count_throttled = count_throttled p + count_throttled rhs,
      count_overflows = count_overflows p + count_overflows rhs,
      count_characters_intended = count_characters_intended p + count_characters_intended rhs,
      count_characters_actual = count_characters_actual p + count_characters_actual rhs,
      characters_missed_due_to_rate_limiter =
        characters_missed_due_to_rate_limiter p + characters_missed_due_to_rate_limiter rhs,
      objects_missed_due_to_rate_limiter = objects_missed_due_to_rate_limiter p + objects_missed_due_to_rate_limiter rhs,
      characters_missed_due_to_overflow = characters_missed_due_to_overflow p + characters_missed_due_to_overflow rhs,
      objects_missed_due_to_overflow = objects_missed_due_to_overflow p + objects_missed_due_to_overflow rhs,
      characters_added_during_period = characters_added_during_period p + characters_added_during_period rhs,
      objects_added_during_period = objects_added_during_period p + objects_added_during_period rhs\<rparr>"

section \<open>Replication control\<close>

fun write_ids :: "interest_id list \<Rightarrow> write_buffer \<Rightarrow> write_buffer" where
  "write_ids [] wb = wb"
| "write_ids (i # is) wb = write_ids is (write_u16 i wb)"

fun read_ids :: "nat \<Rightarrow> interest_id list reader" where
  "read_ids 0 = rreturn []"
| "read_ids (Suc n) = rbind read_u16 (\<lambda>i. rmap ((#) i) (read_ids n))"

text \<open>The stand-alone message.\<close>

record replication_control =
  ctl_seq :: hub_seq
  ctl_client_context_instance_id :: u8
  ctl_pause_start_idx :: u32
  ctl_interest_ids :: "interest_id list"

definition control_new :: "hub_seq \<Rightarrow> u8 \<Rightarrow> replication_control" where
  "control_new s c = \<lparr>ctl_seq = s, ctl_client_context_instance_id = c, ctl_pause_start_idx = 0, ctl_interest_ids = []\<rparr>"

definition control_from_ids ::
    "hub_seq \<Rightarrow> u8 \<Rightarrow> interest_id list \<Rightarrow> interest_id list \<Rightarrow> marshaler_error + replication_control" where
  "control_from_ids s c stop pause =
     (let len = length stop + length pause in
      if len > max_replication_control_message_ids
      then Err (ContainerOverflow len max_replication_control_message_ids)
      else Ok \<lparr>ctl_seq = s, ctl_client_context_instance_id = c, ctl_pause_start_idx = of_nat (length stop),
               ctl_interest_ids = stop @ pause\<rparr>)"

definition control_pause_start :: "replication_control \<Rightarrow> nat" where
  "control_pause_start c = min (unat (ctl_pause_start_idx c)) (length (ctl_interest_ids c))"

definition control_stop_ids :: "replication_control \<Rightarrow> interest_id list" where
  "control_stop_ids c = take (control_pause_start c) (ctl_interest_ids c)"

definition control_pause_ids :: "replication_control \<Rightarrow> interest_id list" where
  "control_pause_ids c = drop (control_pause_start c) (ctl_interest_ids c)"

definition control_marshal :: "replication_control \<Rightarrow> write_buffer \<Rightarrow> write_buffer option" where
  "control_marshal c wb =
     Option.bind (hub_seq_marshal (ctl_seq c) wb) (\<lambda>wb.
     Option.bind (capped_len_u32 (length (ctl_interest_ids c))) (\<lambda>n.
     Some (write_ids (ctl_interest_ids c)
       (vlq32_marshal n (vlq32_marshal (ctl_pause_start_idx c)
         (write_u8 (ctl_client_context_instance_id c) wb))))))"

definition control_unmarshal :: "replication_control reader" where
  "control_unmarshal =
     rbind hub_seq_unmarshal (\<lambda>s. rbind read_u8 (\<lambda>c. rbind vlq32_unmarshal (\<lambda>p. rbind vlq32_unmarshal (\<lambda>n.
       if unat n > max_replication_control_message_ids
       then rfail (ContainerOverflow (unat n) max_replication_control_message_ids)
       else rmap (\<lambda>ids. \<lparr>ctl_seq = s, ctl_client_context_instance_id = c, ctl_pause_start_idx = p, ctl_interest_ids = ids\<rparr>)
              (read_ids (unat n))))))"

text \<open>The optional part of a bundle. A slice past the end would panic; the split never is.\<close>

record control_data =
  cd_pause_start_idx :: u32
  cd_interest_ids :: "interest_id list"

definition control_data_default :: control_data where
  "control_data_default = \<lparr>cd_pause_start_idx = 0, cd_interest_ids = []\<rparr>"

definition control_data_from_ids :: "interest_id list \<Rightarrow> interest_id list \<Rightarrow> marshaler_error + control_data" where
  "control_data_from_ids stop pause =
     (let len = length stop + length pause in
      if len > max_replication_control_ids then Err (ContainerOverflow len max_replication_control_ids)
      else Ok \<lparr>cd_pause_start_idx = of_nat (length stop), cd_interest_ids = stop @ pause\<rparr>)"

definition pause_start :: "control_data \<Rightarrow> nat" where
  "pause_start c = unat (cd_pause_start_idx c)"

definition stop_replication_ids :: "control_data \<Rightarrow> interest_id list" where
  "stop_replication_ids c = take (pause_start c) (cd_interest_ids c)"

definition pause_replication_ids :: "control_data \<Rightarrow> interest_id list" where
  "pause_replication_ids c = drop (pause_start c) (cd_interest_ids c)"

definition pause_replication_count :: "control_data \<Rightarrow> u32 option" where
  "pause_replication_count c =
     map_option (\<lambda>n. n - cd_pause_start_idx c) (capped_len_u32 (length (cd_interest_ids c)))"

definition push_stop_replication_id :: "interest_id \<Rightarrow> control_data \<Rightarrow> (marshaler_error + unit) \<times> control_data" where
  "push_stop_replication_id i c =
     (if length (cd_interest_ids c) = max_replication_control_ids
      then (Err (ContainerOverflow (length (cd_interest_ids c) + 1) max_replication_control_ids), c)
      else (Ok (), \<lparr>cd_pause_start_idx = cd_pause_start_idx c + 1,
                    cd_interest_ids = take (pause_start c) (cd_interest_ids c) @ i # drop (pause_start c) (cd_interest_ids c)\<rparr>))"

definition push_pause_replication_id :: "interest_id \<Rightarrow> control_data \<Rightarrow> (marshaler_error + unit) \<times> control_data" where
  "push_pause_replication_id i c =
     (if length (cd_interest_ids c) = max_replication_control_ids
      then (Err (ContainerOverflow (length (cd_interest_ids c) + 1) max_replication_control_ids), c)
      else (Ok (), c\<lparr>cd_interest_ids := cd_interest_ids c @ [i]\<rparr>))"

definition control_data_reset :: "control_data \<Rightarrow> control_data" where
  "control_data_reset c = \<lparr>cd_pause_start_idx = 0, cd_interest_ids = []\<rparr>"

fun position_of :: "'a \<Rightarrow> 'a list \<Rightarrow> nat option" where
  "position_of x [] = None"
| "position_of x (y # ys) = (if y = x then Some 0 else map_option Suc (position_of x ys))"

definition remove_pending_stop_id :: "interest_id \<Rightarrow> control_data \<Rightarrow> bool \<times> control_data" where
  "remove_pending_stop_id i c =
     (case position_of i (stop_replication_ids c) of
        None \<Rightarrow> (False, c)
      | Some k \<Rightarrow> (True, \<lparr>cd_pause_start_idx = cd_pause_start_idx c - 1,
                         cd_interest_ids = take k (cd_interest_ids c) @ drop (Suc k) (cd_interest_ids c)\<rparr>))"

definition len_u8 :: "nat \<Rightarrow> u8 option" where
  "len_u8 n = (if n \<le> 255 then Some (of_nat n) else None)"

definition control_data_marshal :: "control_data \<Rightarrow> write_buffer \<Rightarrow> write_buffer option" where
  "control_data_marshal c wb =
     Option.bind (len_u8 (length (cd_interest_ids c))) (\<lambda>n.
     Option.bind (len_u8 (unat (cd_pause_start_idx c))) (\<lambda>p.
     Some (write_ids (cd_interest_ids c) (write_u8 p (write_u8 n wb)))))"

definition control_data_unmarshal :: "control_data reader" where
  "control_data_unmarshal =
     rbind read_u8 (\<lambda>n.
       if unat n > max_replication_control_ids then rfail (ContainerOverflow (unat n) max_replication_control_ids)
       else rbind read_u8 (\<lambda>p.
         if unat p > unat n then rfail (InvalidRange (ucast p) 0 (ucast n))
         else rmap (\<lambda>ids. \<lparr>cd_pause_start_idx = ucast p, cd_interest_ids = ids\<rparr>) (read_ids (unat n))))"

section \<open>Bundles\<close>

record state_bundle =
  sb_seq :: hub_seq
  client_context_instance_id :: u8
  bandwidth_mode :: u8
  is_unreliable :: bool
  sb_control :: "control_data option"
  bundle_buffer :: bytes

definition bundle_default :: state_bundle where
  "bundle_default = \<lparr>sb_seq = Invalid, client_context_instance_id = 0, bandwidth_mode = 0, is_unreliable = False,
     sb_control = None, bundle_buffer = []\<rparr>"

definition bundle_new :: "u8 \<Rightarrow> u8 \<Rightarrow> state_bundle" where
  "bundle_new c m = bundle_default\<lparr>client_context_instance_id := c, bandwidth_mode := m\<rparr>"

definition bundle_with_seq :: "hub_seq \<Rightarrow> u8 \<Rightarrow> u8 \<Rightarrow> state_bundle" where
  "bundle_with_seq s c m = bundle_default\<lparr>sb_seq := s, client_context_instance_id := c, bandwidth_mode := m\<rparr>"

definition with_bundle_buffer :: "bytes \<Rightarrow> state_bundle" where
  "with_bundle_buffer bs = bundle_default\<lparr>bundle_buffer := bs\<rparr>"

definition set_seq :: "hub_seq \<Rightarrow> state_bundle \<Rightarrow> state_bundle" where
  "set_seq s b = b\<lparr>sb_seq := s\<rparr>"

definition set_unreliable :: "state_bundle \<Rightarrow> state_bundle" where
  "set_unreliable b = b\<lparr>is_unreliable := True\<rparr>"

definition ensure_replication_control :: "state_bundle \<Rightarrow> control_data \<times> state_bundle" where
  "ensure_replication_control b =
     (let c = (case sb_control b of Some c \<Rightarrow> c | None \<Rightarrow> control_data_default) in (c, b\<lparr>sb_control := Some c\<rparr>))"

definition include_replication_control :: "state_bundle \<Rightarrow> state_bundle" where
  "include_replication_control b = snd (ensure_replication_control b)"

definition replication_control_count :: "state_bundle \<Rightarrow> nat" where
  "replication_control_count b = (case sb_control b of Some c \<Rightarrow> length (cd_interest_ids c) | None \<Rightarrow> 0)"

definition has_state_records_payload :: "state_bundle \<Rightarrow> bool" where
  "has_state_records_payload b \<longleftrightarrow> bundle_buffer b \<noteq> []"

definition add_stop_id :: "interest_id \<Rightarrow> state_bundle \<Rightarrow> (marshaler_error + unit) \<times> state_bundle" where
  "add_stop_id i b =
     (let (c, b) = ensure_replication_control b; (r, c) = push_stop_replication_id i c in (r, b\<lparr>sb_control := Some c\<rparr>))"

definition add_pause_id :: "interest_id \<Rightarrow> state_bundle \<Rightarrow> (marshaler_error + unit) \<times> state_bundle" where
  "add_pause_id i b =
     (let (c, b) = ensure_replication_control b; (r, c) = push_pause_replication_id i c in (r, b\<lparr>sb_control := Some c\<rparr>))"

definition bundle_stop_ids :: "state_bundle \<Rightarrow> interest_id list" where
  "bundle_stop_ids b = (case sb_control b of Some c \<Rightarrow> stop_replication_ids c | None \<Rightarrow> [])"

definition bundle_pause_ids :: "state_bundle \<Rightarrow> interest_id list" where
  "bundle_pause_ids b = (case sb_control b of Some c \<Rightarrow> pause_replication_ids c | None \<Rightarrow> [])"

definition reset_replication_control :: "state_bundle \<Rightarrow> state_bundle" where
  "reset_replication_control b = b\<lparr>sb_control := map_option control_data_reset (sb_control b)\<rparr>"

definition bundle_remove_pending_stop_id :: "interest_id \<Rightarrow> state_bundle \<Rightarrow> bool \<times> state_bundle" where
  "bundle_remove_pending_stop_id i b =
     (case sb_control b of
        None \<Rightarrow> (False, b)
      | Some c \<Rightarrow> (let (r, c) = remove_pending_stop_id i c in (r, b\<lparr>sb_control := Some c\<rparr>)))"

definition vlq_u32_len :: "u32 \<Rightarrow> nat" where
  "vlq_u32_len v =
     (if v < 0x80 then 1 else if v < 0x4000 then 2 else if v < 0x200000 then 3 else if v < 0x10000000 then 4 else 5)"

definition vlq_u64_len :: "u64 \<Rightarrow> nat" where
  "vlq_u64_len v =
     (if v < 0x80 then 1 else if v < 0x4000 then 2 else if v < 0x200000 then 3 else if v < 0x10000000 then 4
      else if v < 0x08000000 then 5 else if v < 0x0000040000000000 then 6 else if v < 0x0002000000000000 then 7
      else if v < 0x0100000000000000 then 8 else 9)"

definition sequence_number_wire_len :: "hub_seq \<Rightarrow> nat" where
  "sequence_number_wire_len s =
     (case s of Invalid \<Rightarrow> 1 | ValidNonSequence \<Rightarrow> 1 + vlq_u64_len 0 | Seq n \<Rightarrow> 1 + vlq_u64_len n)"

definition control_data_wire_len :: "control_data \<Rightarrow> nat" where
  "control_data_wire_len c = 1 + 1 + length (cd_interest_ids c) * 2"

definition bundle_buffer_wire_len :: "bytes \<Rightarrow> nat option" where
  "bundle_buffer_wire_len bs = map_option (\<lambda>n. vlq_u32_len n + length bs) (capped_len_u32 (length bs))"

definition total_bundle_size :: "state_bundle \<Rightarrow> nat option" where
  "total_bundle_size b =
     map_option (\<lambda>n. sequence_number_wire_len (sb_seq b) + 1 + 1 + 1 + 1
         + (case sb_control b of Some c \<Rightarrow> control_data_wire_len c | None \<Rightarrow> 0) + n)
       (bundle_buffer_wire_len (bundle_buffer b))"

definition marshal_bundle_buffer :: "bytes \<Rightarrow> write_buffer \<Rightarrow> write_buffer option" where
  "marshal_bundle_buffer bs wb =
     map_option (\<lambda>n. write_bytes bs (vlq32_marshal n wb)) (capped_len_u32 (length bs))"

definition read_bundle_buffer :: "bytes reader" where
  "read_bundle_buffer =
     rbind vlq32_unmarshal (\<lambda>n.
       if unat n > max_bundle_buffer_size then rfail (ContainerOverflow (unat n) max_bundle_buffer_size)
       else read_bytes (unat n))"

definition bundle_marshal :: "state_bundle \<Rightarrow> write_buffer \<Rightarrow> write_buffer option" where
  "bundle_marshal b wb =
     Option.bind (hub_seq_marshal (sb_seq b) wb) (\<lambda>wb.
     let wb = write_raw (sb_control b \<noteq> None) (write_raw (is_unreliable b)
                (write_u8 (bandwidth_mode b) (write_u8 (client_context_instance_id b) wb))) in
     Option.bind (case sb_control b of Some c \<Rightarrow> control_data_marshal c wb | None \<Rightarrow> Some wb)
       (marshal_bundle_buffer (bundle_buffer b)))"

text \<open>The borrowed view has the fields of a bundle and the size it was read from.\<close>

record bundle_view =
  view_bundle :: state_bundle
  view_total_bundle_size :: nat

definition read_bundle_fields :: "state_bundle reader" where
  "read_bundle_fields =
     rbind hub_seq_unmarshal (\<lambda>s. rbind read_u8 (\<lambda>ctx. rbind read_u8 (\<lambda>mode. rbind read_raw (\<lambda>unreliable.
     rbind read_raw (\<lambda>includes. rbind (if includes then rmap Some control_data_unmarshal else rreturn None) (\<lambda>control.
     rmap (\<lambda>bs. \<lparr>sb_seq = s, client_context_instance_id = ctx, bandwidth_mode = mode, is_unreliable = unreliable,
               sb_control = control, bundle_buffer = bs\<rparr>) read_bundle_buffer))))))"

definition view_read_from :: "bundle_view reader" where
  "view_read_from rb =
     (case read_bundle_fields rb of
        (Inl e, rb') \<Rightarrow> (Inl e, rb')
      | (Inr b, rb') \<Rightarrow> (Inr \<lparr>view_bundle = b, view_total_bundle_size = rpos rb' - rpos rb\<rparr>, rb'))"

definition bundle_unmarshal :: "state_bundle reader" where
  "bundle_unmarshal = rmap view_bundle view_read_from"

section \<open>The control ids are two lists\<close>

definition control_data_ok :: "control_data \<Rightarrow> bool" where
  "control_data_ok c \<longleftrightarrow> pause_start c \<le> length (cd_interest_ids c) \<and> length (cd_interest_ids c) \<le> max_replication_control_ids"

definition control_lists :: "control_data \<Rightarrow> interest_id list \<times> interest_id list" where
  "control_lists c = (stop_replication_ids c, pause_replication_ids c)"

lemma position_of_None: "position_of x xs = None \<Longrightarrow> x \<notin> set xs"
  by (induction xs) (auto split: if_splits)

lemma position_of_Some:
  "position_of x xs = Some k \<Longrightarrow> k < length xs \<and> x \<in> set xs \<and> take k xs @ drop (Suc k) xs = remove1 x xs"
  by (induction xs arbitrary: k) (auto split: if_splits)

lemma control_data_ok_simps:
  assumes "control_data_ok c"
  shows "length (stop_replication_ids c) = pause_start c" "cd_interest_ids c = stop_replication_ids c @ pause_replication_ids c"
    "pause_start c \<le> 100" "unat (cd_pause_start_idx c + 1) = Suc (pause_start c)"
proof -
  show "length (stop_replication_ids c) = pause_start c" "cd_interest_ids c = stop_replication_ids c @ pause_replication_ids c"
    and 1: "pause_start c \<le> 100"
    using assms by (simp_all add: control_data_ok_def stop_replication_ids_def pause_replication_ids_def max_replication_control_ids_def)
  have "unat (cd_pause_start_idx c + 1) = (unat (cd_pause_start_idx c) + 1) mod 2 ^ 32"
    by (simp add: unat_word_ariths)
  then show "unat (cd_pause_start_idx c + 1) = Suc (pause_start c)" using 1 by (simp add: pause_start_def)
qed

text \<open>A block whose split lies at the end of \<open>xs\<close> holds the two lists.\<close>

lemma control_lists_split:
  assumes "unat p = length xs" "length (xs @ ys) \<le> max_replication_control_ids"
  shows "control_lists \<lparr>cd_pause_start_idx = p, cd_interest_ids = xs @ ys\<rparr> = (xs, ys)"
    "control_data_ok \<lparr>cd_pause_start_idx = p, cd_interest_ids = xs @ ys\<rparr>"
  using assms by (simp_all add: control_lists_def stop_replication_ids_def pause_replication_ids_def pause_start_def control_data_ok_def)

lemma push_stop_lists:
  assumes "control_data_ok c" "length (cd_interest_ids c) < max_replication_control_ids"
  shows "fst (push_stop_replication_id i c) = Ok () \<and> control_data_ok (snd (push_stop_replication_id i c))
    \<and> control_lists (snd (push_stop_replication_id i c)) = (stop_replication_ids c @ [i], pause_replication_ids c)"
proof -
  have l: "length (cd_interest_ids c) = pause_start c + length (pause_replication_ids c)"
    using control_data_ok_simps(1,2) [OF assms(1)] by (metis length_append)
  have "snd (push_stop_replication_id i c) =
      \<lparr>cd_pause_start_idx = cd_pause_start_idx c + 1, cd_interest_ids = (stop_replication_ids c @ [i]) @ pause_replication_ids c\<rparr>"
    using assms(2) by (simp add: push_stop_replication_id_def stop_replication_ids_def pause_replication_ids_def)
  moreover have "fst (push_stop_replication_id i c) = Ok ()" using assms(2) by (simp add: push_stop_replication_id_def)
  ultimately show ?thesis
    using control_lists_split [of "cd_pause_start_idx c + 1" "stop_replication_ids c @ [i]" "pause_replication_ids c"]
      control_data_ok_simps(1,4) [OF assms(1)] assms(2) l
    by simp
qed

lemma push_pause_lists:
  assumes "control_data_ok c" "length (cd_interest_ids c) < max_replication_control_ids"
  shows "fst (push_pause_replication_id i c) = Ok () \<and> control_data_ok (snd (push_pause_replication_id i c))
    \<and> control_lists (snd (push_pause_replication_id i c)) = (stop_replication_ids c, pause_replication_ids c @ [i])"
  using assms
  by (auto simp: push_pause_replication_id_def control_data_ok_def control_lists_def stop_replication_ids_def
      pause_replication_ids_def pause_start_def)

lemma remove_stop_lists:
  assumes "control_data_ok c"
  shows "fst (remove_pending_stop_id i c) = (i \<in> set (stop_replication_ids c)) \<and> control_data_ok (snd (remove_pending_stop_id i c))
    \<and> control_lists (snd (remove_pending_stop_id i c)) = (remove1 i (stop_replication_ids c), pause_replication_ids c)"
proof (cases "position_of i (stop_replication_ids c)")
  case None
  then show ?thesis
    using position_of_None [OF None] assms by (simp add: remove_pending_stop_id_def control_lists_def remove1_idem)
next
  case (Some k)
  have k: "k < pause_start c" "i \<in> set (stop_replication_ids c)"
    "take k (stop_replication_ids c) @ drop (Suc k) (stop_replication_ids c) = remove1 i (stop_replication_ids c)"
    using position_of_Some [OF Some] control_data_ok_simps(1) [OF assms] by auto
  have "cd_pause_start_idx c \<noteq> 0" using k(1) by (auto simp: pause_start_def)
  then have u: "unat (cd_pause_start_idx c - 1) = pause_start c - 1" by (simp add: unat_minus_one pause_start_def)
  have l: "length (remove1 i (stop_replication_ids c)) = pause_start c - 1"
    using k(2) control_data_ok_simps(1) [OF assms] by (simp add: length_remove1)
  have ids: "take k (cd_interest_ids c) @ drop (Suc k) (cd_interest_ids c) =
      remove1 i (stop_replication_ids c) @ pause_replication_ids c"
    using k(1) control_data_ok_simps(1) [OF assms]
    by (subst (1 2) control_data_ok_simps(2) [OF assms]) (simp add: k(3) [symmetric])
  have n: "length (remove1 i (stop_replication_ids c) @ pause_replication_ids c) \<le> max_replication_control_ids"
    using assms control_data_ok_simps(1,2) [OF assms] l
    by (metis control_data_ok_def diff_le_self le_trans length_append add_le_mono1)
  show ?thesis
    using control_lists_split [of "cd_pause_start_idx c - 1", OF _ n] u l k(2)
    by (simp add: remove_pending_stop_id_def Some ids)
qed

text \<open>
  C25. The control ids of a bundle refine a list of stop ids and a list of pause ids: each push appends
  to its list or, when the message is full, is refused and changes nothing; removing takes the first
  occurrence out of the stop list; and the partition stays within the id list.
\<close>

theorem control_ids_refine_lists:
  assumes "control_data_ok c"
  shows "(if length (stop_replication_ids c) + length (pause_replication_ids c) < max_replication_control_ids
     then fst (push_stop_replication_id i c) = Ok ()
       \<and> control_lists (snd (push_stop_replication_id i c)) = (stop_replication_ids c @ [i], pause_replication_ids c)
       \<and> fst (push_pause_replication_id i c) = Ok ()
       \<and> control_lists (snd (push_pause_replication_id i c)) = (stop_replication_ids c, pause_replication_ids c @ [i])
     else push_stop_replication_id i c = (Err (ContainerOverflow 101 100), c)
       \<and> push_pause_replication_id i c = (Err (ContainerOverflow 101 100), c))
    \<and> fst (remove_pending_stop_id i c) = (i \<in> set (stop_replication_ids c))
    \<and> control_lists (snd (remove_pending_stop_id i c)) = (remove1 i (stop_replication_ids c), pause_replication_ids c)
    \<and> control_lists (control_data_reset c) = ([], [])
    \<and> control_data_ok (snd (push_stop_replication_id i c)) \<and> control_data_ok (snd (push_pause_replication_id i c))
    \<and> control_data_ok (snd (remove_pending_stop_id i c)) \<and> control_data_ok (control_data_reset c)"
proof (cases "length (cd_interest_ids c) < max_replication_control_ids")
  case True
  moreover have "length (stop_replication_ids c) + length (pause_replication_ids c) = length (cd_interest_ids c)"
    using control_data_ok_simps(2) [OF assms] by (metis length_append)
  ultimately show ?thesis
    using push_stop_lists [OF assms, of i] push_pause_lists [OF assms, of i] remove_stop_lists [OF assms, of i]
    by (simp add: control_data_reset_def control_lists_def control_data_ok_def pause_start_def stop_replication_ids_def
        pause_replication_ids_def)
next
  case False
  then have f: "length (cd_interest_ids c) = 100" using assms by (simp add: control_data_ok_def max_replication_control_ids_def)
  moreover have "length (stop_replication_ids c) + length (pause_replication_ids c) = length (cd_interest_ids c)"
    using control_data_ok_simps(2) [OF assms] by (metis length_append)
  moreover have "control_lists (control_data_reset c) = ([], []) \<and> control_data_ok (control_data_reset c)"
    by (simp add: control_data_reset_def control_lists_def control_data_ok_def pause_start_def stop_replication_ids_def
        pause_replication_ids_def)
  ultimately show ?thesis
    using remove_stop_lists [OF assms, of i] assms
    by (simp add: push_stop_replication_id_def push_pause_replication_id_def max_replication_control_ids_def)
qed

theorem control_ids_refine_lists_witness:
  "control_lists (snd (push_stop_replication_id 7 \<lparr>cd_pause_start_idx = 1, cd_interest_ids = [3, 9]\<rparr>)) = ([3, 7], [9])"
  using control_ids_refine_lists [of "\<lparr>cd_pause_start_idx = 1, cd_interest_ids = [3, 9]\<rparr>" 7]
  by (simp add: control_data_ok_def pause_start_def stop_replication_ids_def pause_replication_ids_def max_replication_control_ids_def)

section \<open>Readers in sequence\<close>

text \<open>
  \<open>decodes e r bs x\<close>: in front of any other bytes the reader takes exactly \<open>bs\<close> and gives \<open>x\<close>. Readers in
  sequence decode the concatenation.
\<close>

definition decodes :: "endian \<Rightarrow> 'a reader \<Rightarrow> bytes \<Rightarrow> 'a \<Rightarrow> bool" where
  "decodes e r bs x \<longleftrightarrow>
     (\<forall>rb rest. rendian rb = e \<and> rpos rb \<le> length (rdata rb) \<and> remaining rb = bs @ rest \<longrightarrow>
        r rb = (Ok x, advance (length bs) rb))"

lemma decodesI:
  "(\<And>rb rest. rendian rb = e \<Longrightarrow> rpos rb \<le> length (rdata rb) \<Longrightarrow> remaining rb = bs @ rest \<Longrightarrow>
     r rb = (Ok x, advance (length bs) rb)) \<Longrightarrow> decodes e r bs x"
  by (simp add: decodes_def)

lemma decodesD:
  "decodes e r bs x \<Longrightarrow> rendian rb = e \<Longrightarrow> rpos rb \<le> length (rdata rb) \<Longrightarrow> remaining rb = bs @ rest \<Longrightarrow>
     r rb = (Ok x, advance (length bs) rb)"
  by (simp add: decodes_def)

lemma advance_in_range:
  assumes "remaining rb = bs @ rest" "rpos rb \<le> length (rdata rb)"
  shows "rpos (advance (length bs) rb) \<le> length (rdata (advance (length bs) rb))"
proof -
  have "length bs \<le> length (remaining rb)" using assms(1) by simp
  then show ?thesis using assms(2) by (simp add: remaining_def)
qed

lemma decodes_bind:
  assumes "decodes e r as x" "decodes e (f x) bs y"
  shows "decodes e (rbind r f) (as @ bs) y"
proof (rule decodesI)
  fix rb rest assume rb: "rendian rb = e" "rpos rb \<le> length (rdata rb)" "remaining rb = (as @ bs) @ rest"
  then have 1: "r rb = (Ok x, advance (length as) rb)" using decodesD [OF assms(1)] by simp
  have "f x (advance (length as) rb) = (Ok y, advance (length bs) (advance (length as) rb))"
    using rb by (intro decodesD [OF assms(2), of _ rest] advance_in_range [of _ _ "bs @ rest"]) simp_all
  with 1 show "rbind r f rb = (Ok y, advance (length (as @ bs)) rb)" by simp
qed

lemma decodes_map: "decodes e r bs x \<Longrightarrow> decodes e (rmap f r) bs (f x)"
  by (simp add: decodes_def)

lemma decodes_return: "decodes e (rreturn x) [] x"
  by (simp add: decodes_def)

lemma decodes_cond: "\<not> c \<Longrightarrow> decodes e r bs x \<Longrightarrow> decodes e (if c then r' else r) bs x"
  by simp

lemma decodes_u8: "decodes e read_u8 [b] b"
  using read_u8_Cons by (fastforce simp: decodes_def)

lemma decodes_raw: "decodes e read_raw [if b then 1 else 0] b"
  using boolc.unmarshal_enc by (fastforce simp: decodes_def)

lemma decodes_u16: "decodes e read_u16 (bytes16 e v) v"
  using read_u16_enc by (fastforce simp: decodes_def)

lemma decodes_vlq32: "decodes e vlq32_unmarshal (vlq32_bytes v) v"
  using vlq32_decode by (fastforce simp: decodes_def)

lemma decodes_hub_seq: "normal s \<Longrightarrow> decodes e hub_seq_unmarshal (hub_seq_enc s) s"
  using hub_seq_unmarshal_enc by (fastforce simp: decodes_def normal_def)

lemma decodes_bytes: "n = length bs \<Longrightarrow> decodes e (read_bytes n) bs bs"
proof (rule decodesI)
  fix rb rest assume n: "n = length bs" "rpos rb \<le> length (rdata rb)" "remaining rb = bs @ rest"
  show "read_bytes n rb = (Ok bs, advance (length bs) rb)"
    using n advance_in_range [OF n(3,2)] by (simp add: read_bytes_def advance_def remaining_def)
qed

section \<open>The bundle on the wire\<close>

definition ids_enc :: "endian \<Rightarrow> interest_id list \<Rightarrow> bytes" where
  "ids_enc e is = concat (map (bytes16 e) is)"

lemma write_ids_enc: "write_ids is wb = write_bytes (ids_enc (wendian wb) is) wb"
  by (induction "is" arbitrary: wb) (simp_all add: ids_enc_def write_u16_def)

lemma length_ids_enc [simp]: "length (ids_enc e is) = 2 * length is"
  by (induction "is") (auto simp: ids_enc_def bytes16_def be_bytes16_def le_bytes16_def split: endian.splits)

lemma decodes_ids: "decodes e (read_ids (length is)) (ids_enc e is) is"
proof (induction "is")
  case (Cons i "is")
  have "decodes e (rbind read_u16 (\<lambda>j. rmap ((#) j) (read_ids (length is)))) (bytes16 e i @ ids_enc e is) (i # is)"
    using Cons by (intro decodes_bind [OF decodes_u16] decodes_map)
  then show ?case by (simp add: ids_enc_def)
qed (simp add: decodes_def ids_enc_def)

lemma length_vlq32: "length (vlq32_bytes v) = vlq_u32_len v"
  by (simp add: vlq32_bytes_def vlq_u32_len_def Let_def)

lemma length_vlq64: "length (vlq64_bytes v) = vlq_u64_len v"
  using dead_bound [of v] by (simp add: vlq64_bytes_eq vlq_u64_len_def)

lemma length_hub_seq_enc: "normal s \<Longrightarrow> length (hub_seq_enc s) = sequence_number_wire_len s"
  by (cases s) (auto simp: hub_seq_enc_def sequence_number_wire_len_def length_vlq64 normal_Seq hub_seq_defs)

definition control_data_enc :: "endian \<Rightarrow> control_data \<Rightarrow> bytes" where
  "control_data_enc e c =
     of_nat (length (cd_interest_ids c)) # of_nat (pause_start c) # ids_enc e (cd_interest_ids c)"

lemma control_data_marshal_enc:
  "control_data_ok c \<Longrightarrow> control_data_marshal c wb = Some (write_bytes (control_data_enc (wendian wb) c) wb)"
  by (simp add: control_data_marshal_def control_data_ok_def len_u8_def control_data_enc_def pause_start_def
      max_replication_control_ids_def write_ids_enc)

lemma decodes_control_data:
  assumes "control_data_ok c"
  shows "decodes e control_data_unmarshal (control_data_enc e c) c"
proof -
  let ?n = "length (cd_interest_ids c)"
  have small: "?n \<le> 100" "pause_start c \<le> ?n" using assms(1) by (simp_all add: control_data_ok_def max_replication_control_ids_def)
  then have u: "unat (of_nat ?n :: u8) = ?n" "unat (of_nat (pause_start c) :: u8) = pause_start c"
    by (simp_all add: unat_of_nat)
  have "ucast (of_nat (pause_start c) :: u8) = (of_nat (unat (of_nat (pause_start c) :: u8)) :: u32)" by simp
  also have "\<dots> = cd_pause_start_idx c" by (simp only: u(2)) (simp add: pause_start_def)
  finally have p: "ucast (of_nat (pause_start c) :: u8) = cd_pause_start_idx c" .
  have eta: "\<lparr>cd_pause_start_idx = cd_pause_start_idx c, cd_interest_ids = cd_interest_ids c\<rparr> = c" by (cases c) simp
  have "decodes e control_data_unmarshal ([of_nat ?n] @ [of_nat (pause_start c)] @ ids_enc e (cd_interest_ids c)) c"
    unfolding control_data_unmarshal_def
  proof (rule decodes_bind [OF decodes_u8], unfold u, rule decodes_cond [OF _ decodes_bind [OF decodes_u8]])
    show "decodes e (if unat (of_nat (pause_start c) :: u8) > ?n then rfail (InvalidRange (ucast (of_nat (pause_start c) :: u8)) 0 (ucast (of_nat ?n :: u8)))
        else rmap (\<lambda>ids. \<lparr>cd_pause_start_idx = ucast (of_nat (pause_start c) :: u8), cd_interest_ids = ids\<rparr>) (read_ids ?n)) (ids_enc e (cd_interest_ids c)) c"
      using decodes_map [OF decodes_ids [of e "cd_interest_ids c"],
          where f = "\<lambda>ids. \<lparr>cd_pause_start_idx = cd_pause_start_idx c, cd_interest_ids = ids\<rparr>"]
        small u p eta by simp
  qed (use small in \<open>simp add: max_replication_control_ids_def\<close>)
  then show ?thesis by (simp add: control_data_enc_def)
qed

definition bundle_ok :: "state_bundle \<Rightarrow> bool" where
  "bundle_ok b \<longleftrightarrow> normal (sb_seq b) \<and> length (bundle_buffer b) \<le> max_bundle_buffer_size
     \<and> (case sb_control b of Some c \<Rightarrow> control_data_ok c | None \<Rightarrow> True)"

definition bundle_enc :: "endian \<Rightarrow> state_bundle \<Rightarrow> bytes" where
  "bundle_enc e b =
     hub_seq_enc (sb_seq b)
     @ [client_context_instance_id b, bandwidth_mode b, if is_unreliable b then 1 else 0, if sb_control b \<noteq> None then 1 else 0]
     @ (case sb_control b of Some c \<Rightarrow> control_data_enc e c | None \<Rightarrow> [])
     @ vlq32_bytes (of_nat (length (bundle_buffer b))) @ bundle_buffer b"

lemma bundle_marshal_enc:
  assumes "bundle_ok b"
  shows "bundle_marshal b wb = Some (write_bytes (bundle_enc (wendian wb) b) wb)"
  using assms control_data_marshal_enc
  by (auto simp: bundle_marshal_def hub_seq_marshal_enc bundle_ok_def marshal_bundle_buffer_def capped_len_u32_def
      max_bundle_buffer_size_def bundle_enc_def write_raw_def vlq32_marshal_def split: option.splits)

lemma decodes_bundle_buffer:
  assumes "length bs \<le> max_bundle_buffer_size"
  shows "decodes e read_bundle_buffer (vlq32_bytes (of_nat (length bs)) @ bs) bs"
proof -
  have "unat (of_nat (length bs) :: u32) = length bs" using assms by (simp add: unat_of_nat max_bundle_buffer_size_def)
  then show ?thesis
    unfolding read_bundle_buffer_def using assms
    by (intro decodes_bind [OF decodes_vlq32] decodes_cond decodes_bytes) simp_all
qed

lemma decodes_bundle:
  assumes "bundle_ok b"
  shows "decodes e read_bundle_fields (bundle_enc e b) b"
proof -
  let ?c = "case sb_control b of Some c \<Rightarrow> control_data_enc e c | None \<Rightarrow> []"
  have c: "decodes e (if sb_control b \<noteq> None then rmap Some control_data_unmarshal else rreturn None) ?c (sb_control b)"
    using assms decodes_map [OF decodes_control_data] decodes_return by (auto simp: bundle_ok_def split: option.splits)
  have "decodes e read_bundle_fields (hub_seq_enc (sb_seq b) @ [client_context_instance_id b] @ [bandwidth_mode b]
      @ [if is_unreliable b then 1 else 0] @ [if sb_control b \<noteq> None then 1 else 0] @ ?c
      @ vlq32_bytes (of_nat (length (bundle_buffer b))) @ bundle_buffer b)
      \<lparr>sb_seq = sb_seq b, client_context_instance_id = client_context_instance_id b, bandwidth_mode = bandwidth_mode b,
       is_unreliable = is_unreliable b, sb_control = sb_control b, bundle_buffer = bundle_buffer b\<rparr>"
    unfolding read_bundle_fields_def using assms
    by (intro decodes_bind [OF decodes_hub_seq] decodes_bind [OF decodes_u8] decodes_bind [OF decodes_raw] decodes_bind [OF c]
        decodes_map decodes_bundle_buffer) (simp_all add: bundle_ok_def)
  moreover have "\<lparr>sb_seq = sb_seq b, client_context_instance_id = client_context_instance_id b, bandwidth_mode = bandwidth_mode b,
       is_unreliable = is_unreliable b, sb_control = sb_control b, bundle_buffer = bundle_buffer b\<rparr> = b" by simp
  ultimately show ?thesis by (simp only: bundle_enc_def append_Cons append_Nil)
qed

text \<open>
  C17. A bundle is read back whole, with its replication control and its record buffer, for every bundle
  within the caps; the size it reports before it is written is the number of bytes written and the size
  the receiver reports.
\<close>

theorem bundle_roundtrip:
  assumes "bundle_ok b"
  shows "\<exists>wb rb. bundle_marshal b (write_new e) = Some wb \<and> total_bundle_size b = Some (length (wdata wb))
    \<and> view_read_from (read_new e (wdata wb @ rest)) =
        (Ok \<lparr>view_bundle = b, view_total_bundle_size = length (wdata wb)\<rparr>, rb) \<and> remaining rb = rest"
proof -
  have "length (bundle_buffer b) \<le> 0xffffffff" using assms by (simp add: bundle_ok_def max_bundle_buffer_size_def)
  then have "total_bundle_size b = Some (length (bundle_enc e b))"
    using assms
    by (auto simp: total_bundle_size_def bundle_buffer_wire_len_def capped_len_u32_def bundle_enc_def bundle_ok_def
        length_hub_seq_enc length_vlq32 control_data_wire_len_def control_data_enc_def split: option.splits)
  moreover have "read_bundle_fields (read_new e (bundle_enc e b @ rest)) =
      (Ok b, advance (length (bundle_enc e b)) (read_new e (bundle_enc e b @ rest)))"
    by (rule decodesD [OF decodes_bundle [OF assms], where rest = rest]) simp_all
  ultimately show ?thesis
    using bundle_marshal_enc [OF assms, of "write_new e"]
    by (simp add: view_read_from_def write_bytes_def write_new_def)
qed

theorem bundle_roundtrip_witness:
  "let b = \<lparr>sb_seq = Seq 5, client_context_instance_id = 1, bandwidth_mode = 2, is_unreliable = True,
       sb_control = Some \<lparr>cd_pause_start_idx = 1, cd_interest_ids = [3, 9]\<rparr>, bundle_buffer = [7, 1]\<rparr>
   in \<exists>wb rb. bundle_marshal b (write_new BigEndian) = Some wb \<and> total_bundle_size b = Some (length (wdata wb))
    \<and> view_read_from (read_new BigEndian (wdata wb @ [8])) =
        (Ok \<lparr>view_bundle = b, view_total_bundle_size = length (wdata wb)\<rparr>, rb) \<and> remaining rb = [8]"
  unfolding Let_def
  by (rule bundle_roundtrip) (simp add: bundle_ok_def normal_Seq max_bundle_buffer_size_def control_data_ok_def pause_start_def
      max_replication_control_ids_def)

end
