(* ===== verification/State_Records.thy ===== *)
theory State_Records
  imports State_Bundle
begin

text \<open>
  The record stream inside a bundle (\<^verbatim>\<open>hub/replicated_state_bundle.rs\<close> and \<^verbatim>\<open>hub/state_bundle_view.rs\<close>):
  type infos and the registry they are looked up in, record and fragment headers, the writer of a record,
  the visitor loop and the iterator over decoded fragments. Fragment bodies have no length on the wire, so
  a reader reaches the next fragment only by decoding the one before it.
\<close>

section \<open>Fragment types\<close>

datatype fragment_type_info = TypeIndex u32 | RawUuid bytes

text \<open>A registered fragment type; the \<open>consume\<close> functions of the code decode and drop the value.\<close>

record 'f registration =
  reg_uuid :: bytes
  reg_type_index :: u32
  reg_decode_contents :: "'f reader"
  reg_decode_full :: "'f reader"

record 'f registry =
  by_type_index :: "u32 \<Rightarrow> 'f registration option"
  by_uuid :: "bytes \<Rightarrow> 'f registration option"

definition registration_of :: "bytes \<Rightarrow> u32 \<Rightarrow> 's derived_state \<Rightarrow> 's derived_state registration" where
  "registration_of uuid index dflt =
     \<lparr>reg_uuid = uuid, reg_type_index = index, reg_decode_contents = unmarshal_contents dflt, reg_decode_full = full_unmarshal dflt\<rparr>"

definition type_info_registered :: "'f registry \<Rightarrow> bytes \<Rightarrow> fragment_type_info" where
  "type_info_registered reg uuid = (case by_uuid reg uuid of Some r \<Rightarrow> TypeIndex (reg_type_index r) | None \<Rightarrow> RawUuid uuid)"

definition type_info_uuid :: "'f registry \<Rightarrow> fragment_type_info \<Rightarrow> bytes option" where
  "type_info_uuid reg ti = (case ti of TypeIndex i \<Rightarrow> map_option reg_uuid (by_type_index reg i) | RawUuid u \<Rightarrow> Some u)"

definition type_info_type_index :: "'f registry \<Rightarrow> fragment_type_info \<Rightarrow> u32 option" where
  "type_info_type_index reg ti = (case ti of TypeIndex i \<Rightarrow> Some i | RawUuid u \<Rightarrow> map_option reg_type_index (by_uuid reg u))"

definition type_info_registration :: "'f registry \<Rightarrow> fragment_type_info \<Rightarrow> marshaler_error + 'f registration" where
  "type_info_registration reg ti =
     (case ti of
        TypeIndex i \<Rightarrow> (case by_type_index reg i of Some r \<Rightarrow> Ok r | None \<Rightarrow> Err (UnknownTypeIndex i))
      | RawUuid u \<Rightarrow> (case by_uuid reg u of Some r \<Rightarrow> Ok r | None \<Rightarrow> Err (UnknownClassUuid u)))"

definition decode_contents :: "'f registry \<Rightarrow> fragment_type_info \<Rightarrow> 'f reader" where
  "decode_contents reg ti = (case type_info_registration reg ti of Inl e \<Rightarrow> rfail e | Inr r \<Rightarrow> reg_decode_contents r)"

definition consume_contents :: "'f registry \<Rightarrow> fragment_type_info \<Rightarrow> unit reader" where
  "consume_contents reg ti = rmap (\<lambda>_. ()) (decode_contents reg ti)"

definition decode_full :: "'f registry \<Rightarrow> fragment_type_info \<Rightarrow> 'f reader" where
  "decode_full reg ti = (case type_info_registration reg ti of Inl e \<Rightarrow> rfail e | Inr r \<Rightarrow> reg_decode_full r)"

definition consume_full :: "'f registry \<Rightarrow> fragment_type_info \<Rightarrow> unit reader" where
  "consume_full reg ti = rmap (\<lambda>_. ()) (decode_full reg ti)"

definition read_fragment_type_info :: "fragment_type_info reader" where
  "read_fragment_type_info =
     rbind vlq32_unmarshal (\<lambda>i. if i = 0 then rmap RawUuid (read_array 16) else rreturn (TypeIndex i))"

definition write_fragment_type_info :: "fragment_type_info \<Rightarrow> write_buffer \<Rightarrow> write_buffer" where
  "write_fragment_type_info ti wb =
     (case ti of TypeIndex i \<Rightarrow> vlq32_marshal i wb | RawUuid u \<Rightarrow> write_bytes u (vlq32_marshal 0 wb))"

section \<open>Baselineable fragments\<close>

record baselineable =
  bf_type_info :: fragment_type_info
  bf_body :: bytes

definition baselineable_read_from :: "'f registry \<Rightarrow> baselineable reader" where
  "baselineable_read_from reg =
     rbind read_fragment_type_info (\<lambda>ti rb.
       case consume_full reg ti rb of
         (Inl e, rb') \<Rightarrow> (Inl e, rb')
       | (Inr _, rb') \<Rightarrow> (map_sum id (\<lambda>body. \<lparr>bf_type_info = ti, bf_body = body\<rparr>) (rb_range (rpos rb) (rpos rb') rb'), rb'))"

definition baselineable_decode :: "'f registry \<Rightarrow> baselineable \<Rightarrow> marshaler_error + 'f" where
  "baselineable_decode reg b = fst (decode_full reg (bf_type_info b) (read_carrier (bf_body b)))"

definition baselineable_encode ::
    "'f registry \<Rightarrow> bytes \<Rightarrow> marshal_context \<Rightarrow> 's derived_state \<Rightarrow> baselineable option" where
  "baselineable_encode reg uuid mc s =
     map_option (\<lambda>wb. \<lparr>bf_type_info = type_info_registered reg uuid, bf_body = wdata wb\<rparr>) (full_marshal mc s write_carrier)"

definition baselineable_marshal :: "baselineable \<Rightarrow> write_buffer \<Rightarrow> write_buffer" where
  "baselineable_marshal b wb = write_bytes (bf_body b) (write_fragment_type_info (bf_type_info b) wb)"

section \<open>Headers\<close>

record state_record_header =
  interest_id :: interest_id
  fragment_count :: nat
  rh_start :: nat
  rh_header_end :: nat

record fragment_header =
  fragment_key :: fragment_key
  type_info :: fragment_type_info
  fh_start :: nat
  fh_header_end :: nat
  body_start :: nat

definition position :: "nat reader" where "position rb = (Ok (rpos rb), rb)"

definition read_state_record_header :: "state_record_header reader" where
  "read_state_record_header =
     rbind position (\<lambda>start. rbind vlq32_unmarshal (\<lambda>i.
       if i > 0xffff then rfail (InvalidRange (ucast i) 0 0xffff)
       else rbind read_u8 (\<lambda>n. rmap (\<lambda>stop.
         \<lparr>interest_id = ucast i, fragment_count = unat n, rh_start = start, rh_header_end = stop\<rparr>) position)))"

definition read_state_fragment_header :: "fragment_header reader" where
  "read_state_fragment_header =
     rbind position (\<lambda>start. rbind vlq32_unmarshal (\<lambda>key. rbind read_fragment_type_info (\<lambda>ti. rmap (\<lambda>stop.
       \<lparr>fragment_key = key, type_info = ti, fh_start = start, fh_header_end = stop, body_start = stop\<rparr>) position)))"

section \<open>Visiting fragments\<close>

text \<open>The visitor passes its captured state along.\<close>

type_synonym 'st visitor = "'st \<Rightarrow> state_record_header \<Rightarrow> fragment_header \<Rightarrow> 'st reader"

fun visit_record :: "'st visitor \<Rightarrow> state_record_header \<Rightarrow> nat \<Rightarrow> 'st \<Rightarrow> 'st reader" where
  "visit_record visit rh 0 st = rreturn st"
| "visit_record visit rh (Suc n) st =
     rbind read_state_fragment_header (\<lambda>fh. rbind (visit st rh fh) (visit_record visit rh n))"

partial_function (option) visit_records ::
    "'st visitor \<Rightarrow> 'st \<Rightarrow> read_buffer \<Rightarrow> ((marshaler_error + 'st) \<times> read_buffer) option" where
  "visit_records visit st rb =
     (if rb_is_empty rb then Some (Inr st, rb)
      else case rbind read_state_record_header (\<lambda>rh. visit_record visit rh (fragment_count rh) st) rb of
             (Inl e, rb') \<Rightarrow> Some (Inl e, rb')
           | (Inr st', rb') \<Rightarrow> visit_records visit st' rb')"

definition visit_fragments :: "'st visitor \<Rightarrow> 'st \<Rightarrow> bytes \<Rightarrow> (marshaler_error + 'st) option" where
  "visit_fragments visit st bs = map_option fst (visit_records visit st (read_carrier bs))"

section \<open>The fragment iterator\<close>

record 'f fragment_view =
  fv_record :: state_record_header
  fv_header :: fragment_header
  fv_body :: bytes
  fv_body_range :: "nat \<times> nat"
  fv_fragment :: 'f

record fragment_iter =
  it_rb :: read_buffer
  current_record :: "state_record_header option"
  fragments_left_in_record :: nat
  exhausted :: bool

definition iter_new :: "bytes \<Rightarrow> fragment_iter" where
  "iter_new bs = \<lparr>it_rb = read_carrier bs, current_record = None, fragments_left_in_record = 0, exhausted = False\<rparr>"

definition read_next_record :: "fragment_iter \<Rightarrow> (marshaler_error + unit) option \<times> fragment_iter" where
  "read_next_record it =
     (if rb_is_empty (it_rb it) then (None, it\<lparr>exhausted := True\<rparr>)
      else case read_state_record_header (it_rb it) of
             (Inr rh, rb) \<Rightarrow> (Some (Inr ()), it\<lparr>it_rb := rb, fragments_left_in_record := fragment_count rh, current_record := Some rh\<rparr>)
           | (Inl e, rb) \<Rightarrow> (Some (Inl e), it\<lparr>it_rb := rb, exhausted := True\<rparr>))"

text \<open>The body of one fragment, decoded and borrowed.\<close>

definition read_fragment_view :: "'f registry \<Rightarrow> state_record_header \<Rightarrow> fragment_header \<Rightarrow> 'f fragment_view reader" where
  "read_fragment_view reg rh fh =
     rbind position (\<lambda>s. rbind (decode_contents reg (type_info fh)) (\<lambda>f. rbind position (\<lambda>e rb.
       (map_sum id (\<lambda>body. \<lparr>fv_record = rh, fv_header = fh, fv_body = body, fv_body_range = (s, e), fv_fragment = f\<rparr>)
          (rb_range s e rb), rb))))"

text \<open>The iterator has a current record whenever fragments are left in it.\<close>

definition read_next_fragment ::
    "'f registry \<Rightarrow> fragment_iter \<Rightarrow> (marshaler_error + 'f fragment_view) \<times> fragment_iter" where
  "read_next_fragment reg it =
     (let (r, rb) = rbind read_state_fragment_header (read_fragment_view reg (the (current_record it))) (it_rb it)
      in (r, it\<lparr>it_rb := rb,
             fragments_left_in_record := (case r of Inr _ \<Rightarrow> fragments_left_in_record it - 1 | Inl _ \<Rightarrow> fragments_left_in_record it)\<rparr>))"

partial_function (option) iter_next ::
    "'f registry \<Rightarrow> fragment_iter \<Rightarrow> ((marshaler_error + 'f fragment_view) option \<times> fragment_iter) option" where
  "iter_next reg it =
     (if exhausted it then Some (None, it)
      else if fragments_left_in_record it = 0 then
        (case read_next_record it of
           (None, it') \<Rightarrow> Some (None, it')
         | (Some (Inl e), it') \<Rightarrow> Some (Some (Inl e), it')
         | (Some (Inr _), it') \<Rightarrow> iter_next reg it')
      else
        (case read_next_fragment reg it of
           (Inr v, it') \<Rightarrow> Some (Some (Inr v), it')
         | (Inl e, it') \<Rightarrow> Some (Some (Inl e), it'\<lparr>exhausted := True\<rparr>)))"

text \<open>What a \<open>for\<close> loop over the iterator sees.\<close>

partial_function (option) iter_items ::
    "'f registry \<Rightarrow> fragment_iter \<Rightarrow> (marshaler_error + 'f fragment_view) list option" where
  "iter_items reg it =
     Option.bind (iter_next reg it) (\<lambda>(item, it').
       case item of None \<Rightarrow> Some [] | Some x \<Rightarrow> Option.bind (iter_items reg it') (\<lambda>xs. Some (x # xs)))"

section \<open>Writing records\<close>

datatype write_outcome = Written | SkippedNoPayload | SkippedOverLimit

record record_writer =
  rw_buf :: write_buffer
  rw_count :: u8

definition reserve_fragment_slot :: "record_writer \<Rightarrow> marshaler_error + unit" where
  "reserve_fragment_slot w =
     (if rw_count w = 255 then Err (ContainerOverflow (unat (rw_count w) + 1) 255) else Ok ())"

text \<open>What both writers do after the body: undo the fragment when the buffer is over its cap.\<close>

definition finish_fragment :: "nat \<Rightarrow> write_buffer \<Rightarrow> record_writer \<Rightarrow> (marshaler_error + write_outcome) \<times> record_writer" where
  "finish_fragment start wb w =
     (if length (wdata wb) > max_bundle_buffer_size
      then (Ok SkippedOverLimit, w\<lparr>rw_buf := truncate_to start wb\<rparr>)
      else (Ok Written, \<lparr>rw_buf = wb, rw_count = (if rw_count w = 255 then 255 else rw_count w + 1)\<rparr>))"

definition write_fragment_with_context ::
    "'f registry \<Rightarrow> bytes \<Rightarrow> fragment_key \<Rightarrow> 's derived_state \<Rightarrow> marshal_context \<Rightarrow> record_writer \<Rightarrow>
     ((marshaler_error + write_outcome) \<times> record_writer) option" where
  "write_fragment_with_context reg uuid key s mc w =
     (case reserve_fragment_slot w of
        Inl e \<Rightarrow> Some (Inl e, w)
      | Inr _ \<Rightarrow>
          (let start = wb_mark (rw_buf w);
               wb = write_fragment_type_info (type_info_registered reg uuid) (vlq32_marshal key (rw_buf w))
           in Option.bind (marshal_contents_with mc s wb) (\<lambda>(wrote_payload, wb).
                if \<not> wrote_payload then Some (Ok SkippedNoPayload, w\<lparr>rw_buf := truncate_to start wb\<rparr>)
                else Some (finish_fragment start wb w))))"

definition write_fragment ::
    "'f registry \<Rightarrow> bytes \<Rightarrow> fragment_key \<Rightarrow> 's derived_state \<Rightarrow> record_writer \<Rightarrow>
     ((marshaler_error + write_outcome) \<times> record_writer) option" where
  "write_fragment reg uuid key s = write_fragment_with_context reg uuid key s marshal_context_default"

definition write_raw_fragment ::
    "fragment_key \<Rightarrow> fragment_type_info \<Rightarrow> bytes \<Rightarrow> record_writer \<Rightarrow> (marshaler_error + write_outcome) \<times> record_writer" where
  "write_raw_fragment key ti body w =
     (case reserve_fragment_slot w of
        Inl e \<Rightarrow> (Inl e, w)
      | Inr _ \<Rightarrow> finish_fragment (wb_mark (rw_buf w))
                  (write_bytes body (write_fragment_type_info ti (vlq32_marshal key (rw_buf w)))) w)"

text \<open>
  The count byte is reserved before the record is written and patched after it; a record that failed or
  has no fragments is taken back.
\<close>

definition write_state_record ::
    "interest_id \<Rightarrow> (record_writer \<Rightarrow> ((marshaler_error + 'r) \<times> record_writer) option) \<Rightarrow> write_buffer \<Rightarrow>
     ((marshaler_error + 'r) \<times> write_buffer) option" where
  "write_state_record i write wb =
     (let start = wb_mark wb; wb1 = vlq32_marshal (ucast i) wb in
      Option.bind (write \<lparr>rw_buf = write_bytes [0] wb1, rw_count = 0\<rparr>) (\<lambda>(result, w).
      Option.bind (with_fixed_prefix 1 (\<lambda>_. (result, rw_buf w)) (\<lambda>_ _. [rw_count w]) wb1) (\<lambda>(result, wb2).
      Some (result, if (case result of Inl _ \<Rightarrow> True | Inr _ \<Rightarrow> False) \<or> rw_count w = 0 then truncate_to start wb2 else wb2))))"

definition write_record ::
    "interest_id \<Rightarrow> (record_writer \<Rightarrow> ((marshaler_error + 'r) \<times> record_writer) option) \<Rightarrow> state_bundle \<Rightarrow>
     ((marshaler_error + 'r) \<times> state_bundle) option" where
  "write_record i write b =
     map_option (\<lambda>(r, wb). (r, b\<lparr>bundle_buffer := wdata wb\<rparr>))
       (write_state_record i write \<lparr>wdata = bundle_buffer b, wendian = carrier_endian\<rparr>)"

section \<open>Reading always ends\<close>

declare visit_records.simps [code] iter_next.simps [code] iter_items.simps [code]

lemma reader_ok_position [reader_safe]: "reader_ok position"
  by (simp add: reader_ok_def position_def)

lemma reader_ok_type_info [reader_safe]: "reader_ok read_fragment_type_info"
  unfolding read_fragment_type_info_def by (intro reader_safe vlq32.unmarshal_safe)

lemma reader_ok_record_header [reader_safe]: "reader_ok read_state_record_header"
  unfolding read_state_record_header_def by (intro reader_safe vlq32.unmarshal_safe)

lemma reader_ok_fragment_header [reader_safe]: "reader_ok read_state_fragment_header"
  unfolding read_state_fragment_header_def by (intro reader_safe vlq32.unmarshal_safe)

text \<open>A derived state reads its contents within the cursor discipline when its handlers do.\<close>

definition handlers_safe :: "(nat \<times> ('s handler \<times> 's) list) list \<Rightarrow> bool" where
  "handlers_safe = list_all (\<lambda>(g, fs). list_all (\<lambda>(h, f). reader_ok (hb_unmarshal h)) fs)"

lemma reader_ok_chain_skip [reader_safe]: "reader_ok mask_chain_skip"
proof -
  have "reader_ok (read_chain [])" using read_chain_safe by (simp add: reader_ok_def)
  then show ?thesis by (simp add: reader_ok_def skip_read_chain [of _ "[]"])
qed

lemma reader_ok_group_fields:
  "list_all (\<lambda>(h, f). reader_ok (hb_unmarshal h)) fs \<Longrightarrow> reader_ok (unmarshal_group_fields n i m d fs)"
  by (induction n i m d fs rule: unmarshal_group_fields.induct) (auto intro!: reader_safe)

lemma reader_ok_descriptors: "handlers_safe gs \<Longrightarrow> reader_ok (unmarshal_descriptors ns m gs)"
proof (induction ns arbitrary: m gs)
  case (Cons n ns)
  have "reader_ok (unmarshal_group fs)" if "list_all (\<lambda>(h, f). reader_ok (hb_unmarshal h)) fs"
    for fs :: "('a handler \<times> 'a) list"
    unfolding unmarshal_group_def using reader_ok_group_fields [OF that] by (auto intro!: reader_safe split: prod.splits)
  then show ?case
    using Cons by (cases gs) (auto simp: handlers_safe_def intro!: reader_safe)
qed (auto intro: reader_safe)

lemma reader_ok_unmarshal_contents: "handlers_safe (field_groups s) \<Longrightarrow> reader_ok (unmarshal_contents s)"
  unfolding unmarshal_contents_def by (intro reader_safe reader_ok_descriptors)

text \<open>\<open>consumes\<close>: a reader that keeps the cursor discipline and takes at least one byte when it succeeds.\<close>

definition consumes :: "'a reader \<Rightarrow> bool" where
  "consumes r \<longleftrightarrow> reader_ok r \<and> (\<forall>rb x rb'. r rb = (Inr x, rb') \<longrightarrow> left rb' < left rb)"

lemma left_mono: "cursor_step rb rb' \<Longrightarrow> left rb' \<le> left rb"
  by (auto simp: cursor_step_def left_def)

lemma consumesI:
  "reader_ok r \<Longrightarrow> (\<And>rb x rb'. r rb = (Inr x, rb') \<Longrightarrow> left rb' < left rb) \<Longrightarrow> consumes r"
  by (simp add: consumes_def)

lemma rbind_Inr:
  "rbind r f rb = (Inr y, rb'') \<longleftrightarrow> (\<exists>x rb'. r rb = (Inr x, rb') \<and> f x rb' = (Inr y, rb''))"
  by (cases "r rb"; cases "fst (r rb)") auto

lemma consumes_first: "consumes r \<Longrightarrow> (\<And>x. reader_ok (f x)) \<Longrightarrow> consumes (rbind r f)"
  unfolding consumes_def rbind_Inr
  by (intro conjI reader_ok_bind) (simp_all, metis left_mono order.strict_trans1 reader_okD)

lemma consumes_second: "reader_ok r \<Longrightarrow> (\<And>x. consumes (f x)) \<Longrightarrow> consumes (rbind r f)"
  unfolding consumes_def rbind_Inr
  by (intro conjI reader_ok_bind) (simp_all, metis left_mono order.strict_trans2 reader_okD)

lemma consumes_u8: "consumes read_u8"
  by (rule consumesI [OF reader_ok_read_u8]) (auto simp: read_u8_def left_def split: if_splits)

lemma reader_ok_continue:
  "r rb = (Inr x, rb1) \<Longrightarrow> reader_ok (f x) \<Longrightarrow> rbind r f rb = (y, rb') \<Longrightarrow> cursor_step rb1 rb'"
  by (simp add: reader_okD)

lemma consumes_vlq32: "consumes vlq32_unmarshal"
proof (rule consumesI [OF vlq32.unmarshal_safe])
  fix rb x rb' assume u: "vlq32_unmarshal rb = (Inr x, rb')"
  then obtain b rb1 where 1: "read_u8 rb = (Inr b, rb1)"
    unfolding vlq32_unmarshal_def rbind_Inr by blast
  then have "left rb1 < left rb" using consumes_u8 by (auto simp: consumes_def)
  moreover have "cursor_step rb1 rb'"
    using 1 _ u unfolding vlq32_unmarshal_def
    by (rule reader_ok_continue) (auto simp: Let_def intro!: reader_safe)
  ultimately show "left rb' < left rb" using left_mono by fastforce
qed

lemma consumes_record_header: "consumes read_state_record_header"
  unfolding read_state_record_header_def
  by (intro consumes_second reader_ok_position consumes_first [OF consumes_vlq32] reader_safe)

lemma consumes_fragment_header: "consumes read_state_fragment_header"
  unfolding read_state_fragment_header_def
  by (intro consumes_second reader_ok_position consumes_first [OF consumes_vlq32] reader_safe)

lemma reader_ok_visit_record:
  "(\<And>st rh fh. reader_ok (visit st rh fh)) \<Longrightarrow> reader_ok (visit_record visit rh n st)"
  by (induction n arbitrary: st) (auto intro!: reader_safe)

lemma visit_records_total:
  assumes "\<And>st rh fh. reader_ok (visit st rh fh)"
  shows "\<exists>r. visit_records visit st rb = Some r"
proof (induction "left rb" arbitrary: st rb rule: less_induct)
  case less
  let ?m = "rbind read_state_record_header (\<lambda>rh. visit_record visit rh (fragment_count rh) st)"
  have "consumes ?m" using assms by (intro consumes_first [OF consumes_record_header] reader_ok_visit_record)
  then have *: "?m rb = (Inr st', rb') \<Longrightarrow> left rb' < left rb" for st' rb' by (simp add: consumes_def)
  show ?case
    using less * by (subst visit_records.simps) (auto split: prod.splits sum.splits)
qed

text \<open>
  Visiting the fragments of a bundle buffer ends for every buffer, malformed ones included, and every
  visitor that does not move the cursor backwards.
\<close>

lemma visit_fragments_total:
  assumes "\<And>st rh fh. reader_ok (visit st rh fh)"
  shows "\<exists>r. visit_fragments visit st bs = Some r"
  using visit_records_total [OF assms] by (force simp: visit_fragments_def)

section \<open>The iterator and the visitor agree\<close>

definition view_visitor :: "'f registry \<Rightarrow> 'f fragment_view list visitor" where
  "view_visitor reg acc rh fh = rmap (\<lambda>v. acc @ [v]) (read_fragment_view reg rh fh)"

text \<open>\<open>collect::<Result<Vec<_>, _>>\<close>.\<close>

fun collect :: "('e + 'v) list \<Rightarrow> 'e + 'v list" where
  "collect [] = Inr []"
| "collect (Inl e # xs) = Inl e"
| "collect (Inr v # xs) = map_sum id ((#) v) (collect xs)"

definition iter_at :: "read_buffer \<Rightarrow> state_record_header option \<Rightarrow> nat \<Rightarrow> fragment_iter" where
  "iter_at rb rh n = \<lparr>it_rb = rb, current_record = rh, fragments_left_in_record = n, exhausted = False\<rparr>"

definition visit_from :: "'st visitor \<Rightarrow> state_record_header \<Rightarrow> nat \<Rightarrow> 'st \<Rightarrow> read_buffer \<Rightarrow> (marshaler_error + 'st) option" where
  "visit_from visit rh n st rb =
     (case visit_record visit rh n st rb of
        (Inl e, rb') \<Rightarrow> Some (Inl e)
      | (Inr st', rb') \<Rightarrow> map_option fst (visit_records visit st' rb'))"

lemma reader_ok_view:
  assumes "\<And>ti. reader_ok (decode_contents reg ti)"
  shows "reader_ok (read_fragment_view reg rh fh)"
proof -
  have "reader_ok (\<lambda>rb. (map_sum id f (rb_range s e rb), rb))" for f :: "bytes \<Rightarrow> 'a fragment_view" and s e
    by (simp add: reader_ok_def)
  then show ?thesis
    unfolding read_fragment_view_def by (intro reader_safe assms) (simp add: reader_ok_def)
qed

lemma exhausted_items: "exhausted it \<Longrightarrow> iter_items reg it = Some []"
  by (subst iter_items.simps, subst iter_next.simps) simp

lemma iter_agrees:
  assumes ok: "\<And>ti. reader_ok (decode_contents reg ti)"
  shows "n = 0 \<or> cr = Some rh \<Longrightarrow> \<exists>items. iter_items reg (iter_at rb cr n) = Some items
    \<and> visit_from (view_visitor reg) rh n acc rb = Some (map_sum id ((@) acc) (collect items))"
proof (induction "left rb" arbitrary: rb n cr rh acc rule: less_induct)
  case less
  show ?case
  proof (cases n)
    case 0
    show ?thesis
    proof (cases "rb_is_empty rb")
      case True
      have "iter_items reg (iter_at rb cr 0) = Some []"
        by (subst iter_items.simps, subst iter_next.simps) (simp add: iter_at_def read_next_record_def True)
      moreover have "visit_from (view_visitor reg) rh 0 acc rb = Some (Inr acc)"
        by (simp add: visit_from_def visit_records.simps True)
      ultimately show ?thesis using 0 by simp
    next
      case ne: False
      obtain r rb' where h: "read_state_record_header rb = (r, rb')" by force
      show ?thesis
      proof (cases r)
        case (Inl e)
        have "iter_items reg (iter_at rb cr 0) = Some [Inl e]"
          by (subst iter_items.simps, subst iter_next.simps)
            (simp add: iter_at_def read_next_record_def ne h Inl exhausted_items)
        moreover have "visit_from (view_visitor reg) rh 0 acc rb = Some (Inl e)"
          by (simp add: visit_from_def visit_records.simps [of _ _ rb] ne h Inl)
        ultimately show ?thesis using 0 by simp
      next
        case (Inr rh')
        have "left rb' < left rb" using consumes_record_header h Inr by (auto simp: consumes_def)
        from less(1) [OF this, of "fragment_count rh'" "Some rh'" rh' acc]
        obtain items where items: "iter_items reg (iter_at rb' (Some rh') (fragment_count rh')) = Some items"
          "visit_from (view_visitor reg) rh' (fragment_count rh') acc rb' = Some (map_sum id ((@) acc) (collect items))"
          by blast
        have "iter_next reg (iter_at rb cr 0) = iter_next reg (iter_at rb' (Some rh') (fragment_count rh'))"
          by (subst iter_next.simps) (simp add: iter_at_def read_next_record_def ne h Inr)
        then have "iter_items reg (iter_at rb cr 0) = Some items"
          using items(1) by (metis iter_items.simps)
        moreover have "visit_from (view_visitor reg) rh 0 acc rb = visit_from (view_visitor reg) rh' (fragment_count rh') acc rb'"
          using ne h Inr by (simp add: visit_from_def visit_records.simps [of _ _ rb] split: prod.splits sum.splits)
        ultimately show ?thesis using 0 items(2) by simp
      qed
    qed
  next
    case (Suc k)
    then have cr: "cr = Some rh" using less(2) by simp
    let ?m = "rbind read_state_fragment_header (read_fragment_view reg rh)"
    have "consumes ?m" using reader_ok_view [OF ok] by (intro consumes_first [OF consumes_fragment_header])
    obtain r rb' where h: "?m rb = (r, rb')" by force
    have v: "visit_record (view_visitor reg) rh n acc rb =
        (case ?m rb of (Inl e, rb') \<Rightarrow> (Inl e, rb') | (Inr x, rb') \<Rightarrow> visit_record (view_visitor reg) rh k (acc @ [x]) rb')"
      by (simp add: Suc rbind_def view_visitor_def rmap_def split: prod.splits sum.splits)
    show ?thesis
    proof (cases r)
      case (Inl e)
      have "iter_items reg (iter_at rb cr n) = Some [Inl e]"
        using h Inl cr Suc
        by (subst iter_items.simps, subst iter_next.simps)
          (simp add: iter_at_def read_next_fragment_def exhausted_items)
      moreover have "visit_from (view_visitor reg) rh n acc rb = Some (Inl e)"
        unfolding visit_from_def v by (simp add: h Inl)
      ultimately show ?thesis by simp
    next
      case (Inr x)
      have "left rb' < left rb" using \<open>consumes ?m\<close> h Inr by (auto simp: consumes_def)
      from less(1) [OF this, of k "Some rh" rh "acc @ [x]"]
      obtain items where items: "iter_items reg (iter_at rb' (Some rh) k) = Some items"
        "visit_from (view_visitor reg) rh k (acc @ [x]) rb' = Some (map_sum id ((@) (acc @ [x])) (collect items))"
        by blast
      have "iter_items reg (iter_at rb cr n) = Some (Inr x # items)"
        using h Inr cr Suc items(1)
        by (subst iter_items.simps, subst iter_next.simps) (simp add: iter_at_def read_next_fragment_def)
      moreover have "visit_from (view_visitor reg) rh n acc rb = visit_from (view_visitor reg) rh k (acc @ [x]) rb'"
        unfolding visit_from_def v by (simp add: h Inr)
      moreover have "map_sum id ((@) (acc @ [x])) c = map_sum id ((@) acc) (map_sum id ((#) x) c)" for c :: "marshaler_error + _"
        by (cases c) simp_all
      ultimately show ?thesis using items(2) by simp
    qed
  qed
qed

lemma iter_visit:
  assumes "\<And>ti. reader_ok (decode_contents reg ti)"
  shows "\<exists>items. iter_items reg (iter_new bs) = Some items \<and> visit_fragments (view_visitor reg) [] bs = Some (collect items)"
proof -
  obtain items where "iter_items reg (iter_at (read_carrier bs) None 0) = Some items"
    "visit_from (view_visitor reg) undefined 0 [] (read_carrier bs) = Some (map_sum id ((@) []) (collect items))"
    using iter_agrees [OF assms, of 0 None] by blast
  moreover have "map_sum id ((@) []) c = c" for c :: "marshaler_error + 'a fragment_view list" by (cases c) simp_all
  ultimately show ?thesis
    by (simp add: iter_new_def iter_at_def visit_fragments_def visit_from_def split: prod.splits)
qed

text \<open>
  C26. The iterator over the fragments of a bundle and the visitor loop are equivalent: on every buffer the
  iterator ends, and collecting its items gives what visiting with the same decoder gives, the first error
  included.
\<close>

theorem iterator_equals_visitor:
  assumes "\<And>ti. reader_ok (decode_contents reg ti)"
  shows "\<exists>items. iter_items reg (iter_new bs) = Some items \<and> visit_fragments (view_visitor reg) [] bs = Some (collect items)"
  by (rule iter_visit [OF assms])

definition byte_registry :: "u8 field_handler derived_state registry" where
  "byte_registry =
     (let r = registration_of (replicate 16 1) 2 (byte_state field_default)
      in \<lparr>by_type_index = (\<lambda>i. if i = 2 then Some r else None), by_uuid = (\<lambda>u. if u = replicate 16 1 then Some r else None)\<rparr>)"

lemma byte_state_safe: "reader_ok (unmarshal_contents (byte_state f))"
  by (rule reader_ok_unmarshal_contents)
    (simp add: handlers_safe_def byte_state_def field_base_def field_unmarshal_def reader_safe
      lawful_codec.unmarshal_safe [OF lawful_scalars(1)])

lemma byte_registry_safe: "reader_ok (decode_contents byte_registry ti)"
  by (auto simp: decode_contents_def type_info_registration_def byte_registry_def Let_def registration_of_def byte_state_safe
      intro: reader_safe split: fragment_type_info.splits)

theorem iterator_equals_visitor_witness:
  "\<exists>items. iter_items byte_registry (iter_new [3, 2, 1, 2, 1, 1, 7, 5]) = Some items
    \<and> visit_fragments (view_visitor byte_registry) [] [3, 2, 1, 2, 1, 1, 7, 5] = Some (collect items)"
  by (rule iterator_equals_visitor [OF byte_registry_safe])

end
