(* ===== verification/Record_Stream.thy ===== *)
theory Record_Stream
  imports State_Records
begin

text \<open>
  Writing the records of a bundle and reading them back: the fragments a caller writes with
  \<^verbatim>\<open>write_record\<close>, typed and raw, are the ones the iterator of the receiver gives, and no sequence of
  writes takes the record buffer over its cap.
\<close>

section \<open>What a caller writes\<close>

datatype 's command =
    RawFragment fragment_key fragment_type_info bytes
  | TypedFragment bytes fragment_key "'s derived_state" marshal_context

fun run_command :: "'f registry \<Rightarrow> 's command \<Rightarrow> record_writer \<Rightarrow> ((marshaler_error + write_outcome) \<times> record_writer) option" where
  "run_command reg (RawFragment key ti body) w = Some (write_raw_fragment key ti body w)"
| "run_command reg (TypedFragment uuid key s mc) w = write_fragment_with_context reg uuid key s mc w"

text \<open>A closure that writes some fragments, passing an error on with \<open>?\<close>.\<close>

fun run_commands ::
    "'f registry \<Rightarrow> 's command list \<Rightarrow> record_writer \<Rightarrow> ((marshaler_error + write_outcome list) \<times> record_writer) option" where
  "run_commands reg [] w = Some (Inr [], w)"
| "run_commands reg (c # cs) w =
     Option.bind (run_command reg c w) (\<lambda>(r, w').
       case r of
         Inl e \<Rightarrow> Some (Inl e, w')
       | Inr out \<Rightarrow> map_option (apfst (map_sum id ((#) out))) (run_commands reg cs w'))"

fun write_records ::
    "'f registry \<Rightarrow> (interest_id \<times> 's command list) list \<Rightarrow> state_bundle \<Rightarrow> state_bundle option" where
  "write_records reg [] b = Some b"
| "write_records reg ((i, cs) # rs) b =
     Option.bind (write_record i (run_commands reg cs) b) (\<lambda>(r, b'). write_records reg rs b')"

section \<open>No write takes a bundle over its cap\<close>

text \<open>While a record is written, its buffer is within the cap as soon as it counts a fragment.\<close>

definition writer_within :: "record_writer \<Rightarrow> bool" where
  "writer_within w \<longleftrightarrow> rw_count w \<noteq> 0 \<longrightarrow> length (wdata (rw_buf w)) \<le> max_bundle_buffer_size"

lemma truncate_back:
  "writer_within w \<Longrightarrow> writer_within (w\<lparr>rw_buf := truncate_to (wb_mark (rw_buf w)) wb\<rparr>)"
  by (auto simp: writer_within_def truncate_to_def wb_mark_def)

lemma finish_within: "writer_within w \<Longrightarrow> writer_within (snd (finish_fragment (wb_mark (rw_buf w)) wb w))"
  using truncate_back [of w wb] by (auto simp: finish_fragment_def writer_within_def)

lemma run_command_within: "run_command reg c w = Some (r, w') \<Longrightarrow> writer_within w \<Longrightarrow> writer_within w'"
proof (cases c)
  case (RawFragment key ti body)
  assume "run_command reg c w = Some (r, w')" "writer_within w"
  then show ?thesis
    unfolding RawFragment using finish_within
    by (auto simp: write_raw_fragment_def reserve_fragment_slot_def split: if_splits) (metis snd_conv)+
next
  case (TypedFragment uuid key s mc)
  assume "run_command reg c w = Some (r, w')" "writer_within w"
  then show ?thesis
    unfolding TypedFragment using finish_within [of w] truncate_back [of w]
    by (auto simp: write_fragment_with_context_def reserve_fragment_slot_def Let_def bind_eq_Some_conv split: if_splits)
      (metis snd_conv)+
qed

lemma run_commands_within: "run_commands reg cs w = Some (r, w') \<Longrightarrow> writer_within w \<Longrightarrow> writer_within w'"
proof (induction cs arbitrary: w r)
  case (Cons c cs)
  then obtain x w1 where 1: "run_command reg c w = Some (x, w1)" by (auto simp: bind_eq_Some_conv)
  then have "writer_within w1" using Cons.prems(2) run_command_within by blast
  then show ?case using Cons 1 by (cases x) auto
qed simp

lemma write_state_record_within:
  assumes "write_state_record i (run_commands reg cs) wb = Some (r, wb')" "length (wdata wb) \<le> max_bundle_buffer_size"
  shows "length (wdata wb') \<le> max_bundle_buffer_size"
proof -
  let ?w0 = "\<lparr>rw_buf = write_bytes [0] (vlq32_marshal (ucast i) wb), rw_count = 0\<rparr>"
  obtain result w wb2 where w: "run_commands reg cs ?w0 = Some (result, w)"
    and p: "with_fixed_prefix 1 (\<lambda>_. (result, rw_buf w)) (\<lambda>_ _. [rw_count w]) (vlq32_marshal (ucast i) wb) = Some (r, wb2)"
    and wb': "wb' = (if (case r of Inl _ \<Rightarrow> True | Inr _ \<Rightarrow> False) \<or> rw_count w = 0 then truncate_to (wb_mark wb) wb2 else wb2)"
    using assms(1) by (auto simp: write_state_record_def Let_def bind_eq_Some_conv)
  have "writer_within w" using run_commands_within [OF w] by (simp add: writer_within_def)
  moreover have "length (wdata wb2) = length (wdata (rw_buf w))"
    using p by (auto simp: with_fixed_prefix_def Let_def split: if_splits)
  moreover have "length (wdata (truncate_to (wb_mark wb) wb2)) \<le> length (wdata wb)"
    by (simp add: truncate_to_def wb_mark_def)
  ultimately show ?thesis using assms(2) unfolding wb' writer_within_def by auto
qed

lemma write_records_within:
  "write_records reg rs b = Some b' \<Longrightarrow> length (bundle_buffer b) \<le> max_bundle_buffer_size \<Longrightarrow>
     length (bundle_buffer b') \<le> max_bundle_buffer_size"
proof (induction reg rs b rule: write_records.induct)
  case (2 reg i cs rs b)
  then obtain r b1 where 1: "write_record i (run_commands reg cs) b = Some (r, b1)" "write_records reg rs b1 = Some b'"
    by (auto simp: bind_eq_Some_conv)
  then have "length (bundle_buffer b1) \<le> max_bundle_buffer_size"
    using write_state_record_within 2(3) by (fastforce simp: write_record_def)
  then show ?case using 2(1) 1 by auto
qed simp

text \<open>
  C16. The record buffer of a bundle stays within its cap of 250 KiB whatever is written to it: any number of
  records with any number of typed and raw fragments, fragments that are skipped, a fragment count that
  overflows and records that fail.
\<close>

theorem records_within_cap:
  assumes "write_records reg rs (bundle_new c m) = Some b"
  shows "length (bundle_buffer b) \<le> max_bundle_buffer_size"
  using write_records_within [OF assms] by (simp add: bundle_new_def bundle_default_def)

definition empty_registry :: "u8 registry" where
  "empty_registry = \<lparr>by_type_index = (\<lambda>_. None), by_uuid = (\<lambda>_. None)\<rparr>"

theorem records_within_cap_witness:
  "\<exists>b. write_records empty_registry [(3, [RawFragment 1 (TypeIndex 2) [9] :: unit command]), (4, [])] (bundle_new 1 2) = Some b
     \<and> bundle_buffer b = [3, 1, 1, 2, 9] \<and> length (bundle_buffer b) \<le> max_bundle_buffer_size"
proof -
  let ?b = "(bundle_new 1 2)\<lparr>bundle_buffer := [3, 1, 1, 2, 9]\<rparr>"
  have "write_records empty_registry [(3, [RawFragment 1 (TypeIndex 2) [9] :: unit command]), (4, [])] (bundle_new 1 2) = Some ?b"
    by (simp add: write_record_def write_state_record_def with_fixed_prefix_def write_raw_fragment_def reserve_fragment_slot_def
        finish_fragment_def write_fragment_type_info_def vlq32_marshal_def vlq32_bytes_def write_bytes_def wb_mark_def truncate_to_def
        max_bundle_buffer_size_def bundle_new_def bundle_default_def byte_eq)
  from this records_within_cap [OF this] show ?thesis by auto
qed

section \<open>What the receiver reads\<close>

text \<open>A fragment on the wire: its key, its type info, the bytes of its body and the value they decode to.\<close>

type_synonym 'f fragment = "fragment_key \<times> fragment_type_info \<times> bytes \<times> 'f"

fun type_info_ok :: "fragment_type_info \<Rightarrow> bool" where
  "type_info_ok (TypeIndex i) \<longleftrightarrow> i \<noteq> 0"
| "type_info_ok (RawUuid u) \<longleftrightarrow> length u = 16"

fun type_info_enc :: "fragment_type_info \<Rightarrow> bytes" where
  "type_info_enc (TypeIndex i) = vlq32_bytes i"
| "type_info_enc (RawUuid u) = vlq32_bytes 0 @ u"

fun fragment_ok :: "'f registry \<Rightarrow> 'f fragment \<Rightarrow> bool" where
  "fragment_ok reg (key, ti, body, v) \<longleftrightarrow> type_info_ok ti \<and> decodes carrier_endian (decode_contents reg ti) body v"

fun fragment_enc :: "'f fragment \<Rightarrow> bytes" where
  "fragment_enc (key, ti, body, v) = vlq32_bytes key @ type_info_enc ti @ body"

fun record_enc :: "interest_id \<times> 'f fragment list \<Rightarrow> bytes" where
  "record_enc (i, fs) = vlq32_bytes (ucast i) @ [of_nat (length fs)] @ concat (map fragment_enc fs)"

definition fragment_of_view :: "'f fragment_view \<Rightarrow> interest_id \<times> 'f fragment" where
  "fragment_of_view v =
     (interest_id (fv_record v), fragment_key (fv_header v), type_info (fv_header v), fv_body v, fv_fragment v)"

lemma write_type_info_enc: "write_fragment_type_info ti wb = write_bytes (type_info_enc ti) wb"
  by (cases ti) (simp_all add: write_fragment_type_info_def vlq32_marshal_def)

lemma decodes_type_info: "type_info_ok ti \<Longrightarrow> decodes e read_fragment_type_info (type_info_enc ti) ti"
proof (cases ti)
  case (TypeIndex i)
  assume "type_info_ok ti"
  then show ?thesis
    unfolding TypeIndex read_fragment_type_info_def
    using decodes_bind [OF decodes_vlq32 decodes_cond [OF _ decodes_return]] by fastforce
next
  case (RawUuid u)
  assume "type_info_ok ti"
  then have "decodes e (read_array 16) (u @ []) u"
    unfolding RawUuid read_array_def by (intro decodes_bind [OF decodes_bytes]) (auto intro: decodes_return)
  then show ?thesis
    unfolding RawUuid read_fragment_type_info_def by (auto intro!: decodes_bind [OF decodes_vlq32] decodes_map)
qed

lemma decodes_reader_ok:
  assumes "reader_ok r"
    "\<And>rb rest. rendian rb = e \<Longrightarrow> remaining rb = bs @ rest \<Longrightarrow> \<exists>rb'. r rb = (Ok x, rb') \<and> remaining rb' = rest"
  shows "decodes e r bs x"
proof (rule decodesI)
  fix rb rest assume rb: "rendian rb = e" "rpos rb \<le> length (rdata rb)" "remaining rb = bs @ rest"
  obtain rb' where r: "r rb = (Ok x, rb')" "remaining rb' = rest" using assms(2) [OF rb(1,3)] by blast
  have step: "cursor_step rb rb'" by (rule reader_okD [OF assms(1) r(1)])
  then have "length (rdata rb) - rpos rb = length bs + (length (rdata rb) - rpos rb')"
    using rb(3) r(2) by (metis cursor_step_def left_def left_remaining length_append)
  then have "rpos rb' = rpos rb + length bs" using rb(2) step by (auto simp: cursor_step_def)
  then show "r rb = (Ok x, advance (length bs) rb)"
    using r(1) step by (simp add: cursor_step_def advance_def)
qed

section \<open>Commands as fragments\<close>

text \<open>
  \<open>command_writes hw reg c f\<close>: what the command \<open>c\<close> writes is the fragment \<open>f\<close>. For a typed command, \<open>hw\<close>
  is the wire format of the handlers of its state, which is registered with the default the receiver decodes into.
\<close>

fun command_writes :: "'s handler_wire \<Rightarrow> 's derived_state registry \<Rightarrow> 's command \<Rightarrow> 's derived_state fragment \<Rightarrow> bool" where
  "command_writes hw reg (RawFragment key ti body) (key', ti', body', v) \<longleftrightarrow>
     key' = key \<and> ti' = ti \<and> body' = body \<and> fragment_ok reg (key, ti, body, v)"
| "command_writes hw reg (TypedFragment uuid key s mc) (key', ti', body', v) \<longleftrightarrow>
     (\<exists>i dflt. by_uuid reg uuid = Some (registration_of uuid i dflt) \<and> by_type_index reg i = Some (registration_of uuid i dflt)
        \<and> i \<noteq> 0 \<and> reader_ok (unmarshal_contents dflt) \<and> same_schema s dflt
        \<and> contents_wire_ok hw mc s \<and> schema_ok s \<and> list_ex (descriptor_dirty mc s) [0..<n_groups s]
        \<and> key' = key \<and> ti' = TypeIndex i \<and> body' = descriptors_enc hw mc s carrier_endian [0..<n_groups s]
        \<and> v = received_state hw mc s dflt)"

lemma decodes_unmarshal_contents:
  assumes "contents_wire_ok hw mc s" "schema_ok s" "same_schema s d" "reader_ok (unmarshal_contents d)"
  shows "decodes e (unmarshal_contents d) (descriptors_enc hw mc s e [0..<n_groups s]) (received_state hw mc s d)"
proof (rule decodes_reader_ok [OF assms(4)])
  fix rb rest assume rb: "rendian rb = e" "remaining rb = descriptors_enc hw mc s e [0..<n_groups s] @ rest"
  have "\<exists>rb'. unmarshal_descriptors [0..<n_groups s] 0 (field_groups d) rb =
      (Ok (map2 (pick_group hw mc s) (field_groups s) (field_groups d)), rb') \<and> remaining rb' = rest \<and> rendian rb' = rendian rb"
    using assms(2,3) n_groups_above rb
    by (intro unmarshal_descriptors_enc [OF assms(1,2)]) (auto simp: schema_ok_def same_schema_def)
  then show "\<exists>rb'. unmarshal_contents d rb = (Ok (received_state hw mc s d), rb') \<and> remaining rb' = rest"
    using same_schema_n_groups [OF assms(3)] by (auto simp: unmarshal_contents_def received_state_def)
qed

lemma command_writes_ok: "command_writes hw reg c f \<Longrightarrow> fragment_ok reg f"
  by (cases c; cases f)
    (auto simp: decode_contents_def type_info_registration_def registration_of_def intro: decodes_unmarshal_contents)

lemma finish_written:
  assumes "rw_count w \<noteq> 255" "length (wdata (rw_buf w)) + length bs \<le> max_bundle_buffer_size"
  shows "finish_fragment start (write_bytes bs (rw_buf w)) w =
    (Ok Written, \<lparr>rw_buf = write_bytes bs (rw_buf w), rw_count = rw_count w + 1\<rparr>)"
  using assms by (simp add: finish_fragment_def write_bytes_def)

lemma run_command_written:
  assumes "command_writes hw reg c f" "wendian (rw_buf w) = carrier_endian" "rw_count w \<noteq> 255"
    "length (wdata (rw_buf w)) + length (fragment_enc f) \<le> max_bundle_buffer_size"
  shows "run_command reg c w = Some (Ok Written, \<lparr>rw_buf = write_bytes (fragment_enc f) (rw_buf w), rw_count = rw_count w + 1\<rparr>)"
proof -
  obtain key ti body v where f: "f = (key, ti, body, v)" by (cases f)
  have enc: "write_bytes body (write_fragment_type_info ti (vlq32_marshal key (rw_buf w))) = write_bytes (fragment_enc f) (rw_buf w)"
    by (simp add: f write_type_info_enc vlq32_marshal_def write_bytes_def)
  have slot: "reserve_fragment_slot w = Ok ()" using assms(3) by (simp add: reserve_fragment_slot_def)
  show ?thesis
  proof (cases c)
    case RawFragment
    then show ?thesis using assms(1) slot enc finish_written [OF assms(3,4)] by (simp add: f write_raw_fragment_def)
  next
    case (TypedFragment uuid key' s mc)
    let ?wb = "write_fragment_type_info ti (vlq32_marshal key (rw_buf w))"
    have ti: "type_info_registered reg uuid = ti" and c: "key' = key" "contents_wire_ok hw mc s"
        "list_ex (descriptor_dirty mc s) [0..<n_groups s]" "body = descriptors_enc hw mc s carrier_endian [0..<n_groups s]"
      using assms(1) by (auto simp: TypedFragment f type_info_registered_def registration_of_def)
    have e: "wendian ?wb = carrier_endian" using assms(2) by (simp add: write_type_info_enc vlq32_marshal_def write_bytes_def)
    have "marshal_contents_with mc s ?wb = Some (True, write_bytes body ?wb)"
      using c marshal_descriptors_enc [OF c(2), of _ ?wb] by (simp add: marshal_contents_with_def e)
    then show ?thesis
      using slot enc finish_written [OF assms(3,4)]
      by (simp add: TypedFragment write_fragment_with_context_def ti c(1) Let_def)
  qed
qed

lemma run_commands_written:
  assumes "list_all2 (command_writes hw reg) cs fs"
  shows "wendian (rw_buf w) = carrier_endian \<Longrightarrow> unat (rw_count w) + length fs \<le> 255 \<Longrightarrow>
    length (wdata (rw_buf w)) + length (concat (map fragment_enc fs)) \<le> max_bundle_buffer_size \<Longrightarrow>
    run_commands reg cs w = Some (Inr (replicate (length fs) Written),
      \<lparr>rw_buf = write_bytes (concat (map fragment_enc fs)) (rw_buf w), rw_count = rw_count w + of_nat (length fs)\<rparr>)"
  using assms
proof (induction arbitrary: w rule: list_all2_induct)
  case Nil
  then show ?case by (simp add: write_bytes_def)
next
  case (Cons c cs f fs)
  let ?w = "\<lparr>rw_buf = write_bytes (fragment_enc f) (rw_buf w), rw_count = rw_count w + 1\<rparr>"
  have n: "rw_count w \<noteq> 255" using Cons.prems(2) by auto
  have "run_command reg c w = Some (Ok Written, ?w)"
    using Cons.prems n by (intro run_command_written [OF Cons.hyps(1)]) simp_all
  moreover have "unat (rw_count w + 1) = unat (rw_count w) + 1" using Cons.prems(2) by (simp add: unat_word_ariths)
  then have "run_commands reg cs ?w = Some (Inr (replicate (length fs) Written),
      \<lparr>rw_buf = write_bytes (concat (map fragment_enc fs)) (rw_buf ?w), rw_count = rw_count ?w + of_nat (length fs)\<rparr>)"
    using Cons.prems by (intro Cons.IH) (simp_all add: write_bytes_def)
  ultimately show ?case by (simp add: write_bytes_def add.assoc)
qed

lemma write_record_written:
  assumes "list_all2 (command_writes hw reg) cs fs" "fs \<noteq> []" "length fs \<le> 255"
    "length (bundle_buffer b) + length (record_enc (i, fs)) \<le> max_bundle_buffer_size"
  shows "write_record i (run_commands reg cs) b =
    Some (Inr (replicate (length fs) Written), b\<lparr>bundle_buffer := bundle_buffer b @ record_enc (i, fs)\<rparr>)"
proof -
  let ?wb = "\<lparr>wdata = bundle_buffer b, wendian = carrier_endian\<rparr>"
  let ?w = "\<lparr>rw_buf = write_bytes [0] (vlq32_marshal (ucast i) ?wb), rw_count = 0\<rparr>"
  have "(of_nat (length fs) :: u8) \<noteq> 0" using assms(2,3) by (simp add: word_of_nat_eq_0_iff nat_dvd_not_less)
  moreover have "run_commands reg cs ?w = Some (Inr (replicate (length fs) Written),
      \<lparr>rw_buf = write_bytes (concat (map fragment_enc fs)) (rw_buf ?w), rw_count = rw_count ?w + of_nat (length fs)\<rparr>)"
    using assms by (intro run_commands_written [OF assms(1)]) (simp_all add: write_bytes_def vlq32_marshal_def)
  ultimately show ?thesis
    by (simp add: write_record_def write_state_record_def with_fixed_prefix_def vlq32_marshal_def write_bytes_def wb_mark_def)
qed

section \<open>The iterator over what was written\<close>

definition in_range :: "read_buffer \<Rightarrow> bool" where
  "in_range rb \<longleftrightarrow> rendian rb = carrier_endian \<and> rpos rb \<le> length (rdata rb)"

lemma in_range_advance: "in_range rb \<Longrightarrow> remaining rb = bs @ rest \<Longrightarrow> in_range (advance (length bs) rb)"
  using advance_in_range [of rb bs rest] by (simp add: in_range_def)

lemma remaining_after: "remaining rb = bs @ rest \<Longrightarrow> remaining (advance (length bs) rb) = rest"
  by simp

lemma read_view_decoded:
  assumes "decodes carrier_endian (decode_contents reg (type_info fh)) body v" "in_range rb" "remaining rb = body @ rest"
  shows "read_fragment_view reg rh fh rb =
    (Ok \<lparr>fv_record = rh, fv_header = fh, fv_body = body, fv_body_range = (rpos rb, rpos rb + length body), fv_fragment = v\<rparr>,
     advance (length body) rb)"
proof -
  have "decode_contents reg (type_info fh) rb = (Ok v, advance (length body) rb)"
    using decodesD [OF assms(1)] assms(2,3) by (simp add: in_range_def)
  moreover have "rpos rb + length body \<le> length (rdata rb)" "take (length body) (drop (rpos rb) (rdata rb)) = body"
    using in_range_advance [OF assms(2,3)] assms(3) by (simp_all add: in_range_def remaining_def)
  ultimately show ?thesis by (simp add: read_fragment_view_def position_def rb_range_def)
qed

lemma decodes_fragment_header:
  assumes "type_info_ok ti" "in_range rb" "remaining rb = vlq32_bytes key @ type_info_enc ti @ rest"
  shows "\<exists>fh. read_state_fragment_header rb = (Ok fh, advance (length (vlq32_bytes key @ type_info_enc ti)) rb)
    \<and> fragment_key fh = key \<and> type_info fh = ti"
proof -
  have "vlq32_unmarshal rb = (Ok key, advance (length (vlq32_bytes key)) rb)"
    using decodesD [OF decodes_vlq32] assms(2,3) by (simp add: in_range_def)
  moreover have "read_fragment_type_info (advance (length (vlq32_bytes key)) rb) =
      (Ok ti, advance (length (type_info_enc ti)) (advance (length (vlq32_bytes key)) rb))"
    using in_range_advance [OF assms(2,3)] assms(3)
    by (intro decodesD [OF decodes_type_info [OF assms(1)]]) (simp_all add: in_range_def)
  ultimately show ?thesis by (simp add: read_state_fragment_header_def position_def)
qed

lemma next_fragment:
  assumes "fragment_ok reg f" "in_range rb" "remaining rb = fragment_enc f @ rest"
  shows "\<exists>v. iter_next reg (iter_at rb (Some rh) (Suc n)) =
      Some (Some (Inr v), iter_at (advance (length (fragment_enc f)) rb) (Some rh) n)
    \<and> fragment_of_view v = (interest_id rh, f)"
proof -
  obtain key ti body v where f: "f = (key, ti, body, v)" by (cases f)
  let ?hs = "vlq32_bytes key @ type_info_enc ti"
  have rem: "remaining rb = ?hs @ body @ rest" using assms(3) by (simp add: f)
  obtain fh where fh: "read_state_fragment_header rb = (Ok fh, advance (length ?hs) rb)" "fragment_key fh = key" "type_info fh = ti"
    using decodes_fragment_header [of ti rb key "body @ rest"] assms(1,2) rem by (auto simp: f)
  have "read_fragment_view reg rh fh (advance (length ?hs) rb) =
      (Ok \<lparr>fv_record = rh, fv_header = fh, fv_body = body, fv_body_range = (rpos (advance (length ?hs) rb),
         rpos (advance (length ?hs) rb) + length body), fv_fragment = v\<rparr>, advance (length body) (advance (length ?hs) rb))"
    using assms(1) by (intro read_view_decoded [OF _ in_range_advance [OF assms(2) rem] remaining_after [OF rem]]) (simp add: f fh)
  with fh show ?thesis
    by (subst iter_next.simps) (simp add: iter_at_def read_next_fragment_def fragment_of_view_def f add.assoc)
qed

lemma next_record:
  assumes "in_range rb" "remaining rb = record_enc (i, fs) @ rest" "length fs \<le> 255"
  shows "\<exists>rh. interest_id rh = i \<and> iter_next reg (iter_at rb cr 0) =
      iter_next reg (iter_at (advance (Suc (length (vlq32_bytes (ucast i)))) rb) (Some rh) (length fs))"
proof -
  let ?bs = "vlq32_bytes (ucast i :: u32)"
  let ?h = "advance (length ?bs) rb"
  have h: "in_range ?h" "remaining ?h = of_nat (length fs) # concat (map fragment_enc fs) @ rest"
    using in_range_advance [OF assms(1), of ?bs] assms(2) by simp_all
  have "vlq32_unmarshal rb = (Ok (ucast i), ?h)"
    using decodesD [OF decodes_vlq32, of rb carrier_endian] assms(1,2) by (simp add: in_range_def)
  moreover have "read_u8 ?h = (Ok (of_nat (length fs)), advance 1 ?h)" using h(2) by simp
  moreover have "unat (of_nat (length fs) :: u8) = length fs" using assms(3) by (simp add: unat_of_nat)
  ultimately have "read_state_record_header rb = (Ok \<lparr>interest_id = i, fragment_count = length fs, rh_start = rpos rb,
      rh_header_end = rpos (advance 1 ?h)\<rparr>, advance 1 ?h)"
    using ucast_u16_not_over by (simp add: read_state_record_header_def position_def)
  moreover have "\<not> rb_is_empty rb"
    using assms(2) length_vlq32_bytes [of "ucast i"] by (auto simp: rb_is_empty_remaining)
  ultimately show ?thesis
    by (intro exI [of _ "\<lparr>interest_id = i, fragment_count = length fs, rh_start = rpos rb, rh_header_end = rpos (advance 1 ?h)\<rparr>"])
      (subst iter_next.simps, simp add: iter_at_def read_next_record_def)
qed

text \<open>The iterator gives the fragments of one record, then what follows the record.\<close>

lemma items_next:
  "iter_next reg it = Some (Some x, it') \<Longrightarrow> iter_items reg it' = Some xs \<Longrightarrow> iter_items reg it = Some (x # xs)"
  by (subst iter_items.simps) simp

lemma items_of_record:
  assumes "list_all (fragment_ok reg) fs" "in_range rb" "remaining rb = concat (map fragment_enc fs) @ rest"
    "\<And>cr. \<exists>vs. iter_items reg (iter_at (advance (length (concat (map fragment_enc fs))) rb) cr 0) = Some (map Inr vs)
      \<and> map fragment_of_view vs = out"
  shows "\<exists>vs. iter_items reg (iter_at rb (Some rh) (length fs)) = Some (map Inr vs)
    \<and> map fragment_of_view vs = map (Pair (interest_id rh)) fs @ out"
  using assms
proof (induction fs arbitrary: rb)
  case (Cons f fs)
  let ?rb = "advance (length (fragment_enc f)) rb"
  have rem: "remaining rb = fragment_enc f @ concat (map fragment_enc fs) @ rest" using Cons.prems(3) by simp
  have "fragment_ok reg f" using Cons.prems(1) by simp
  from next_fragment [OF this Cons.prems(2) rem, of rh "length fs"]
  obtain v where v: "iter_next reg (iter_at rb (Some rh) (Suc (length fs))) = Some (Some (Inr v), iter_at ?rb (Some rh) (length fs))"
    "fragment_of_view v = (interest_id rh, f)" by blast
  have "\<exists>vs. iter_items reg (iter_at ?rb (Some rh) (length fs)) = Some (map Inr vs)
      \<and> map fragment_of_view vs = map (Pair (interest_id rh)) fs @ out"
    using Cons.prems(1,4) in_range_advance [OF Cons.prems(2) rem] remaining_after [OF rem] by (intro Cons.IH) simp_all
  then obtain vs where vs: "iter_items reg (iter_at ?rb (Some rh) (length fs)) = Some (map Inr vs)"
    "map fragment_of_view vs = map (Pair (interest_id rh)) fs @ out" by blast
  have "iter_items reg (iter_at rb (Some rh) (length (f # fs))) = Some (map Inr (v # vs))"
    using items_next [OF v(1) vs(1)] by simp
  moreover have "map fragment_of_view (v # vs) = map (Pair (interest_id rh)) (f # fs) @ out" using v(2) vs(2) by simp
  ultimately show ?case by blast
qed simp

definition fragments_of :: "(interest_id \<times> 'f fragment list) list \<Rightarrow> (interest_id \<times> 'f fragment) list" where
  "fragments_of rs = concat (map (\<lambda>(i, fs). map (Pair i) fs) rs)"

lemma items_of_records:
  assumes "list_all (\<lambda>(i, fs). length fs \<le> 255 \<and> list_all (fragment_ok reg) fs) rs" "in_range rb"
    "remaining rb = concat (map record_enc rs)"
  shows "\<exists>vs. iter_items reg (iter_at rb cr 0) = Some (map Inr vs) \<and> map fragment_of_view vs = fragments_of rs"
  using assms
proof (induction rs arbitrary: rb cr)
  case Nil
  then have "iter_next reg (iter_at rb cr 0) = Some (None, (iter_at rb cr 0)\<lparr>exhausted := True\<rparr>)"
    by (subst iter_next.simps) (simp add: iter_at_def read_next_record_def rb_is_empty_remaining)
  then have "iter_items reg (iter_at rb cr 0) = Some []" by (subst iter_items.simps) simp
  then show ?case by (simp add: fragments_of_def)
next
  case (Cons r rs)
  obtain i fs where r: "r = (i, fs)" by (cases r)
  let ?n = "length (vlq32_bytes (ucast i :: u32) @ [of_nat (length fs)])"
  have rem: "remaining rb = (vlq32_bytes (ucast i) @ [of_nat (length fs)]) @ concat (map fragment_enc fs) @ concat (map record_enc rs)"
    using Cons.prems(3) by (simp add: r)
  note 1 = in_range_advance [OF Cons.prems(2) rem] and rem1 = remaining_after [OF rem]
  note 2 = in_range_advance [OF 1 rem1] and rem2 = remaining_after [OF rem1]
  obtain rh where rh: "interest_id rh = i"
    "iter_next reg (iter_at rb cr 0) = iter_next reg (iter_at (advance ?n rb) (Some rh) (length fs))"
    using next_record [of rb i fs "concat (map record_enc rs)"] Cons.prems by (auto simp: r)
  have "\<exists>vs. iter_items reg (iter_at (advance ?n rb) (Some rh) (length fs)) = Some (map Inr vs)
      \<and> map fragment_of_view vs = map (Pair (interest_id rh)) fs @ fragments_of rs"
    using Cons.prems(1) Cons.IH [OF _ 2 rem2] by (intro items_of_record [OF _ 1 rem1]) (simp_all add: r)
  moreover have "iter_items reg (iter_at rb cr 0) = iter_items reg (iter_at (advance ?n rb) (Some rh) (length fs))"
    by (subst (1 2) iter_items.simps) (simp only: rh(2))
  ultimately show ?case by (simp add: fragments_of_def r rh(1))
qed

definition record_writes ::
    "'s handler_wire \<Rightarrow> 's derived_state registry \<Rightarrow> interest_id \<times> 's command list \<Rightarrow>
     interest_id \<times> 's derived_state fragment list \<Rightarrow> bool" where
  "record_writes hw reg = (\<lambda>(i, cs) (j, fs). i = j \<and> fs \<noteq> [] \<and> length fs \<le> 255 \<and> list_all2 (command_writes hw reg) cs fs)"

lemma record_writes_ok:
  "list_all2 (record_writes hw reg) rs ws \<Longrightarrow> list_all (\<lambda>(i, fs). length fs \<le> 255 \<and> list_all (fragment_ok reg) fs) ws"
proof (induction rule: list_all2_induct)
  case (Cons r rs w ws)
  have "list_all2 (command_writes hw reg) cs fs \<Longrightarrow> list_all (fragment_ok reg) fs" for cs fs
    by (induction rule: list_all2_induct) (auto intro: command_writes_ok)
  then show ?case using Cons by (auto simp: record_writes_def)
qed simp

lemma write_records_written:
  assumes "list_all2 (record_writes hw reg) rs ws"
  shows "length (bundle_buffer b) + length (concat (map record_enc ws)) \<le> max_bundle_buffer_size \<Longrightarrow>
    write_records reg rs b = Some (b\<lparr>bundle_buffer := bundle_buffer b @ concat (map record_enc ws)\<rparr>)"
  using assms
proof (induction arbitrary: b rule: list_all2_induct)
  case (Cons r rs w ws)
  obtain i cs fs where rw: "r = (i, cs)" "w = (i, fs)" "fs \<noteq> []" "length fs \<le> 255" "list_all2 (command_writes hw reg) cs fs"
    using Cons.hyps(1) by (cases r; cases w) (auto simp: record_writes_def)
  have "write_record i (run_commands reg cs) b =
      Some (Inr (replicate (length fs) Written), b\<lparr>bundle_buffer := bundle_buffer b @ record_enc (i, fs)\<rparr>)"
    using Cons.prems by (intro write_record_written [OF rw(5,3,4)]) (simp add: rw)
  then show ?case using Cons.prems Cons.IH [of "b\<lparr>bundle_buffer := bundle_buffer b @ record_enc (i, fs)\<rparr>"] by (simp add: rw)
qed simp

text \<open>
  C4. What the sender writes into a bundle is what the receiver iterates over: every fragment of every
  record, typed and raw, in order, with its interest id, key, type, body and decoded value, whenever the
  records fit the cap and each has between one and 255 fragments.
\<close>

theorem record_stream_roundtrip:
  assumes "list_all2 (record_writes hw reg) rs ws"
    "length (concat (map record_enc ws)) \<le> max_bundle_buffer_size"
  shows "\<exists>b vs. write_records reg rs (bundle_new c m) = Some b
    \<and> iter_items reg (iter_new (bundle_buffer b)) = Some (map Inr vs) \<and> map fragment_of_view vs = fragments_of ws"
proof -
  let ?bs = "concat (map record_enc ws)"
  obtain vs where "iter_items reg (iter_at (read_carrier ?bs) None 0) = Some (map Inr vs)" "map fragment_of_view vs = fragments_of ws"
    using items_of_records [OF record_writes_ok [OF assms(1)], of "read_carrier ?bs" None] by (auto simp: in_range_def read_carrier_def read_new_def remaining_def)
  moreover have "write_records reg rs (bundle_new c m) = Some ((bundle_new c m)\<lparr>bundle_buffer := ?bs\<rparr>)"
    using write_records_written [OF assms(1), of "bundle_new c m"] assms(2) by (simp add: bundle_new_def bundle_default_def)
  ultimately show ?thesis by (simp add: iter_new_def iter_at_def)
qed

theorem record_stream_roundtrip_witness:
  "\<exists>b vs. write_records byte_registry
        [(5, [TypedFragment (replicate 16 1) 1 (byte_state (field_some 7)) marshal_context_default])] (bundle_new 1 2) = Some b
    \<and> iter_items byte_registry (iter_new (bundle_buffer b)) = Some (map Inr vs)
    \<and> map fragment_of_view vs = fragments_of
        [(5, [(1, TypeIndex 2, descriptors_enc byte_wire marshal_context_default (byte_state (field_some 7)) carrier_endian [0],
          received_state byte_wire marshal_context_default (byte_state (field_some 7)) (byte_state field_default))])]"
proof (rule record_stream_roundtrip)
  let ?s = "byte_state (field_some 7)"
  have d: "descriptor_dirty marshal_context_default ?s 0"
    by (simp add: byte_state_facts is_dirty_since_def field_some_def field_new_def hub_less_rank rank_def hub_seq_defs)
  show "list_all2 (record_writes byte_wire byte_registry) [(5, [TypedFragment (replicate 16 1) 1 ?s marshal_context_default])]
      [(5, [(1, TypeIndex 2, descriptors_enc byte_wire marshal_context_default ?s carrier_endian [0],
         received_state byte_wire marshal_context_default ?s (byte_state field_default))])]"
    using d byte_state_safe [of field_default] byte_state_facts
    by (auto simp: record_writes_def byte_registry_def Let_def intro!: exI [of _ "byte_state field_default"])
  have "chunks_enc byte_wire carrier_endian (flagged marshal_context_default 0 (the (map_of (field_groups ?s) 0))) = [1, 7]"
    by (subst chunks_enc.simps)
      (use d in \<open>simp add: byte_state_def flagged_def descriptor_dirty_def chunk_mask_def payload_enc_def entry_enc_def byte_wire_def
        value_enc_def field_some_def field_new_def pack_flags_def\<close>)
  then show "length (concat (map record_enc
      [(5, [(1, TypeIndex 2, descriptors_enc byte_wire marshal_context_default ?s carrier_endian [0],
         received_state byte_wire marshal_context_default ?s (byte_state field_default))])])) \<le> max_bundle_buffer_size"
    using d length_vlq32_bytes [of 5] length_vlq32_bytes [of 1] length_vlq32_bytes [of 2]
    by (simp add: max_bundle_buffer_size_def)
qed

end
