(* ===== verification/Fixed_State.thy ===== *)
theory Fixed_State
  imports Derived_State "HOL-Library.AList"
begin

text \<open>
  \<^verbatim>\<open>hub/fixed_replicated_state.rs\<close>: fragments whose numbers of groups and fields are compile-time
  constants, the header they share, and the code \<^verbatim>\<open>fixed_replicated_state_fields.rs\<close> generates to visit
  their fields. The number of groups \<open>n\<close> and the capacity \<open>cap\<close> of a client whitelist are const parameters
  in the code and arguments here. A correlation id is the 16 bytes of a UUID.

  The types that register as fields of a fixed state (a single handler, an array, and the handlers made of
  an absolute and a relative portion, of three portions or of four timer bytes) all visit the single
  handlers they are made of in order; none of them writes a field differently for a baseline.
\<close>

section \<open>The shared header\<close>

type_synonym fixed_merge_outcome = merge_outcome

definition whitelist_default :: "u64 list field_handler" where "whitelist_default = field_some []"

record fixed_state =
  fx_correlation_id :: bytes
  fx_groups :: "u64 list field_handler list"
  fx_is_fully_merged_state :: bool
  fx_has_new_network_data :: bool
  fx_detected_new_data :: bool
  fx_sequence :: hub_seq
  fx_last_modified :: hub_seq

definition fixed_state_default :: "nat \<Rightarrow> fixed_state" where
  "fixed_state_default n =
     \<lparr>fx_correlation_id = replicate 16 0, fx_groups = replicate n whitelist_default, fx_is_fully_merged_state = False,
      fx_has_new_network_data = False, fx_detected_new_data = False, fx_sequence = Invalid, fx_last_modified = Invalid\<rparr>"

definition ensure_groups :: "nat \<Rightarrow> fixed_state \<Rightarrow> fixed_state" where
  "ensure_groups n s = s\<lparr>fx_groups := fx_groups s @ replicate (n - length (fx_groups s)) whitelist_default\<rparr>"

definition fixed_finish_merge :: "hub_seq \<Rightarrow> bytes \<Rightarrow> fixed_merge_outcome \<Rightarrow> fixed_state \<Rightarrow> fixed_state" where
  "fixed_finish_merge seq cid oc s =
     s\<lparr>fx_sequence := seq, fx_last_modified := mo_last_modified oc, fx_is_fully_merged_state := True,
       fx_has_new_network_data := mo_has_new_network_data oc, fx_detected_new_data := mo_detected_new_data oc,
       fx_correlation_id := cid\<rparr>"

definition fixed_reset_network_data :: "fixed_state \<Rightarrow> fixed_state" where
  "fixed_reset_network_data s = s\<lparr>fx_has_new_network_data := False\<rparr>"

definition reset_client_whitelist_network_data :: "nat \<Rightarrow> fixed_state \<Rightarrow> fixed_state" where
  "reset_client_whitelist_network_data n s =
     (let s = ensure_groups n s in s\<lparr>fx_groups := map reset_has_new_network_data (fx_groups s)\<rparr>)"

definition fixed_set_network_data_on_initial_state :: "fixed_state \<Rightarrow> fixed_state" where
  "fixed_set_network_data_on_initial_state s = s\<lparr>fx_has_new_network_data := True, fx_detected_new_data := True\<rparr>"

section \<open>Client whitelists\<close>

definition client_whitelist :: "nat \<Rightarrow> fixed_state \<Rightarrow> u64 list option" where
  "client_whitelist g s =
     (if g < length (fx_groups s) then Some (case fh_value (fx_groups s ! g) of Some w \<Rightarrow> w | None \<Rightarrow> []) else None)"

definition client_whitelists :: "fixed_state \<Rightarrow> u64 list list" where
  "client_whitelists s = map (\<lambda>f. case fh_value f of Some w \<Rightarrow> w | None \<Rightarrow> []) (fx_groups s)"

definition client_whitelist_last_modified :: "nat \<Rightarrow> fixed_state \<Rightarrow> hub_seq" where
  "client_whitelist_last_modified g s =
     (if g < length (fx_groups s) then fh_last_modified (fx_groups s ! g) else ValidNonSequence)"

definition update_whitelist :: "nat \<Rightarrow> (u64 list field_handler \<Rightarrow> u64 list field_handler) \<Rightarrow> fixed_state \<Rightarrow> fixed_state" where
  "update_whitelist g f s = s\<lparr>fx_groups := (fx_groups s)[g := f (fx_groups s ! g)]\<rparr>"

definition set_client_whitelist_last_modified :: "nat \<Rightarrow> nat \<Rightarrow> hub_seq \<Rightarrow> fixed_state \<Rightarrow> bool \<times> fixed_state" where
  "set_client_whitelist_last_modified n g seq s =
     (if g \<ge> n then (False, s) else (True, update_whitelist g (set_last_modified seq) (ensure_groups n s)))"

definition fixed_should_send :: "nat \<Rightarrow> u64 \<Rightarrow> nat \<Rightarrow> fixed_state \<Rightarrow> bool" where
  "fixed_should_send n client g s \<longleftrightarrow>
     g < n \<and> (case client_whitelist g s of None \<Rightarrow> True | Some w \<Rightarrow> w = [] \<or> List.member w client)"

text \<open>The callbacks of \<open>access\<close> set a flag that the operation returns: it is whether they changed the whitelist.\<close>

definition whitelist_of :: "nat \<Rightarrow> fixed_state \<Rightarrow> u64 list" where
  "whitelist_of g s = effective_value [] (fx_groups s ! g)"

definition fixed_add_client :: "nat \<Rightarrow> nat \<Rightarrow> u64 \<Rightarrow> nat \<Rightarrow> fixed_state \<Rightarrow> bool \<times> fixed_state" where
  "fixed_add_client n cap client g s =
     (if g \<ge> n \<or> cap = 0 then (False, s)
      else let s = ensure_groups n s;
               insert = (\<lambda>w. if List.member w client \<or> length w \<ge> cap then (w, False) else (w @ [client], True))
           in (snd (insert (whitelist_of g s)), update_whitelist g (field_access [] insert) s))"

fun remove_first :: "'a \<Rightarrow> 'a list \<Rightarrow> 'a list \<times> bool" where
  "remove_first c [] = ([], False)"
| "remove_first c (x # xs) = (if x = c then (xs, True) else apfst ((#) x) (remove_first c xs))"

definition fixed_remove_client :: "nat \<Rightarrow> u64 \<Rightarrow> nat \<Rightarrow> fixed_state \<Rightarrow> bool \<times> fixed_state" where
  "fixed_remove_client n client g s =
     (if g \<ge> n then (False, s)
      else let s = ensure_groups n s
           in (snd (remove_first client (whitelist_of g s)), update_whitelist g (field_access [] (remove_first client)) s))"

definition fixed_clear_whitelist :: "nat \<Rightarrow> nat \<Rightarrow> fixed_state \<Rightarrow> bool \<times> fixed_state" where
  "fixed_clear_whitelist n g s =
     (if g \<ge> n then (False, s)
      else let s = ensure_groups n s
           in (whitelist_of g s \<noteq> [], update_whitelist g (field_access [] (\<lambda>w. ([], w \<noteq> []))) s))"

section \<open>Merging the whitelists\<close>

definition whitelist_at :: "nat \<Rightarrow> fixed_state \<Rightarrow> u64 list field_handler" where
  "whitelist_at g s = (if g < length (fx_groups s) then fx_groups s ! g else whitelist_default)"

definition merge_whitelist ::
    "fixed_state \<Rightarrow> fixed_state \<Rightarrow> hub_seq \<Rightarrow> bool \<Rightarrow> nat \<Rightarrow> fixed_state \<times> fixed_merge_outcome \<Rightarrow> fixed_state \<times> fixed_merge_outcome" where
  "merge_whitelist old new seq inherit g = (\<lambda>(self, oc).
     let (detected, m) = field_merge [] False (whitelist_at g old) (whitelist_at g new) seq inherit (fx_groups self ! g)
     in (update_whitelist g (\<lambda>_. m) self, outcome_add detected (fh_last_modified m) (fh_has_new_network_data m) oc))"

definition merge_client_whitelists ::
    "nat \<Rightarrow> fixed_state \<Rightarrow> fixed_state \<Rightarrow> hub_seq \<Rightarrow> bool \<Rightarrow> fixed_state \<times> fixed_merge_outcome \<Rightarrow> fixed_state \<times> fixed_merge_outcome" where
  "merge_client_whitelists n old new seq inherit = (\<lambda>(self, oc).
     fold (merge_whitelist old new seq inherit) [0..<n] (ensure_groups n self, oc))"

section \<open>Whitelists on the wire\<close>

definition marshal_client_whitelist :: "nat \<Rightarrow> u64 list \<Rightarrow> write_buffer \<Rightarrow> write_buffer" where
  "marshal_client_whitelist cap w wb =
     (if length w > cap then vlq32_marshal 0 wb else fold write_u64 w (vlq32_marshal (of_nat (length w)) wb))"

fun read_clients :: "nat \<Rightarrow> u64 list reader" where
  "read_clients 0 = rreturn []"
| "read_clients (Suc n) = rbind read_u64 (\<lambda>c. rmap ((#) c) (read_clients n))"

definition unmarshal_client_whitelist :: "nat \<Rightarrow> u64 list reader" where
  "unmarshal_client_whitelist cap = rbind vlq32_unmarshal (\<lambda>len.
     if unat len > cap then rfail (ContainerOverflow (unat len) cap) else read_clients (unat len))"

definition whitelist_mask :: "nat \<Rightarrow> hub_seq \<Rightarrow> fixed_state \<Rightarrow> u64" where
  "whitelist_mask n baseline s =
     fold (\<lambda>g m. let modified = client_whitelist_last_modified g s
                 in if seq_is_valid modified \<and> baseline < modified then m OR mask_bit g else m) [0..<n] 0"

definition marshal_client_whitelist_attributes :: "nat \<Rightarrow> nat \<Rightarrow> hub_seq \<Rightarrow> fixed_state \<Rightarrow> write_buffer \<Rightarrow> write_buffer" where
  "marshal_client_whitelist_attributes n cap baseline s wb =
     (let m = whitelist_mask n baseline s in
      if m = 0 then write_u8 0 wb
      else fold (\<lambda>g wb. if m AND mask_bit g \<noteq> 0
                        then marshal_client_whitelist cap (case client_whitelist g s of Some w \<Rightarrow> w | None \<Rightarrow> []) wb else wb)
             [0..<n] (vlq64_marshal m wb))"

fun unmarshal_whitelists_from :: "u64 \<Rightarrow> nat \<Rightarrow> nat list \<Rightarrow> fixed_state \<Rightarrow> fixed_state reader" where
  "unmarshal_whitelists_from m cap [] s = rreturn s"
| "unmarshal_whitelists_from m cap (g # gs) s =
     rbind (if m AND mask_bit g \<noteq> 0
            then rmap (\<lambda>w. update_whitelist g (set_value w) s) (unmarshal_client_whitelist cap) else rreturn s)
       (unmarshal_whitelists_from m cap gs)"

definition unmarshal_client_whitelist_attributes :: "nat \<Rightarrow> nat \<Rightarrow> fixed_state \<Rightarrow> (bool \<times> fixed_state) reader" where
  "unmarshal_client_whitelist_attributes n cap s =
     (let s = ensure_groups n s in
      rbind vlq64_unmarshal (\<lambda>m.
        if m = 0 then rreturn (False, s) else rmap (Pair True) (unmarshal_whitelists_from m cap [0..<n] s)))"

section \<open>Registered fields\<close>

datatype 's registered = Handler "'s handler" 's | Portions "'s registered list"

fun field_count :: "'s registered \<Rightarrow> nat" where
  "field_count (Handler h f) = 1"
| "field_count (Portions rs) = sum_list (map field_count rs)"

fun visit_registered :: "nat \<Rightarrow> 's registered \<Rightarrow> (nat \<times> 's handler \<times> 's) list"
  and visit_portions :: "nat \<Rightarrow> 's registered list \<Rightarrow> (nat \<times> 's handler \<times> 's) list" where
  "visit_registered i (Handler h f) = [(i, h, f)]"
| "visit_registered i (Portions rs) = visit_portions i rs"
| "visit_portions i [] = []"
| "visit_portions i (r # rs) = visit_registered i r @ visit_portions (i + field_count r) rs"

text \<open>A mutable visit that may fail, over a read buffer.\<close>

fun visit_registered_mut :: "(nat \<Rightarrow> 's handler \<Rightarrow> 's \<Rightarrow> 's reader) \<Rightarrow> nat \<Rightarrow> 's registered \<Rightarrow> 's registered reader"
  and visit_portions_mut :: "(nat \<Rightarrow> 's handler \<Rightarrow> 's \<Rightarrow> 's reader) \<Rightarrow> nat \<Rightarrow> 's registered list \<Rightarrow> 's registered list reader" where
  "visit_registered_mut visit i (Handler h f) = rmap (Handler h) (visit i h f)"
| "visit_registered_mut visit i (Portions rs) = rmap Portions (visit_portions_mut visit i rs)"
| "visit_portions_mut visit i [] = rreturn []"
| "visit_portions_mut visit i (r # rs) =
     rbind (visit_registered_mut visit i r) (\<lambda>r'. rmap ((#) r') (visit_portions_mut visit (i + field_count r) rs))"

text \<open>The visit of a merge, with the visitor that merges one field: destination, old and new run in step.\<close>

fun merge_registered ::
    "hub_seq \<Rightarrow> bool \<Rightarrow> 's registered \<Rightarrow> 's registered \<Rightarrow> 's registered \<Rightarrow> merge_outcome \<Rightarrow>
     's registered \<times> 's registered \<times> merge_outcome"
  and merge_portions ::
    "hub_seq \<Rightarrow> bool \<Rightarrow> 's registered list \<Rightarrow> 's registered list \<Rightarrow> 's registered list \<Rightarrow> merge_outcome \<Rightarrow>
     's registered list \<times> 's registered list \<times> merge_outcome" where
  "merge_registered seq inherit (Handler h self) (Handler _ old) (Handler h' new) oc =
     (let (detected, merged, new') = hb_merge h old new seq inherit self
      in (Handler h merged, Handler h' new', outcome_add detected (hb_last_modified h merged) (hb_has_new_network_data h merged) oc))"
| "merge_registered seq inherit (Portions selfs) (Portions olds) (Portions news) oc =
     (let (ms, ns, oc) = merge_portions seq inherit selfs olds news oc in (Portions ms, Portions ns, oc))"
| "merge_registered seq inherit self old new oc = (self, new, oc)"
| "merge_portions seq inherit (self # selfs) (old # olds) (new # news) oc =
     (let (m, n, oc) = merge_registered seq inherit self old new oc;
          (ms, ns, oc) = merge_portions seq inherit selfs olds news oc
      in (m # ms, n # ns, oc))"
| "merge_portions seq inherit selfs _ news oc = (selfs, news, oc)"

section \<open>A fixed fragment\<close>

text \<open>The groups the fragment declares fields for, each with its fields in declaration order.\<close>

record 's fixed_fragment =
  fx_base :: fixed_state
  fx_fields :: "(nat \<times> 's registered list) list"

definition fixed_group_field_count :: "'s fixed_fragment \<Rightarrow> nat \<Rightarrow> nat option" where
  "fixed_group_field_count f g = map_option (\<lambda>rs. sum_list (map field_count rs)) (map_of (fx_fields f) g)"

definition visit_fixed_fields :: "'s fixed_fragment \<Rightarrow> nat \<Rightarrow> (nat \<times> 's handler \<times> 's) list" where
  "visit_fixed_fields f g = (case map_of (fx_fields f) g of Some rs \<Rightarrow> visit_portions 0 rs | None \<Rightarrow> [])"

definition try_visit_fixed_fields_mut ::
    "(nat \<Rightarrow> 's handler \<Rightarrow> 's \<Rightarrow> 's reader) \<Rightarrow> nat \<Rightarrow> 's fixed_fragment \<Rightarrow> 's fixed_fragment reader" where
  "try_visit_fixed_fields_mut visit g f =
     (case map_of (fx_fields f) g of
        Some rs \<Rightarrow> rmap (\<lambda>rs'. f\<lparr>fx_fields := AList.update g rs' (fx_fields f)\<rparr>) (visit_portions_mut visit 0 rs)
      | None \<Rightarrow> rreturn f)"

section \<open>Contents on the wire\<close>

definition visited_mask :: "nat \<Rightarrow> hub_seq \<Rightarrow> (nat \<times> 's handler \<times> 's) list \<Rightarrow> u64" where
  "visited_mask num_fields baseline fs =
     fold (\<lambda>(i, h, f) m. if i < num_fields \<and> hb_is_dirty h baseline f then m OR mask_bit i else m) fs 0"

fun marshal_visited :: "nat \<Rightarrow> u64 \<Rightarrow> (nat \<times> 's handler \<times> 's) list \<Rightarrow> write_buffer \<Rightarrow> write_buffer option" where
  "marshal_visited num_fields m [] wb = Some wb"
| "marshal_visited num_fields m ((i, h, f) # fs) wb =
     Option.bind (if i < num_fields \<and> m AND mask_bit i \<noteq> 0 then hb_marshal h f wb else Some wb) (marshal_visited num_fields m fs)"

definition marshal_visited_fields ::
    "nat \<Rightarrow> hub_seq \<Rightarrow> (nat \<times> 's handler \<times> 's) list \<Rightarrow> write_buffer \<Rightarrow> (bool \<times> write_buffer) option" where
  "marshal_visited_fields num_fields baseline fs wb =
     (let m = visited_mask num_fields baseline fs in
      if m = 0 then Some (False, wb) else map_option (Pair True) (marshal_visited num_fields m fs (vlq64_marshal m wb)))"

definition marshal_fields :: "nat \<Rightarrow> hub_seq \<Rightarrow> 's fixed_fragment \<Rightarrow> write_buffer \<Rightarrow> (bool \<times> write_buffer) option" where
  "marshal_fields g baseline f wb =
     (case fixed_group_field_count f g of
        None \<Rightarrow> Some (False, wb)
      | Some num_fields \<Rightarrow> marshal_visited_fields num_fields baseline (visit_fixed_fields f g) wb)"

definition unmarshal_visited_fields :: "nat \<Rightarrow> nat \<Rightarrow> 's fixed_fragment \<Rightarrow> (bool \<times> 's fixed_fragment) reader" where
  "unmarshal_visited_fields g num_fields f = rbind vlq64_unmarshal (\<lambda>m.
     if m = 0 then rreturn (False, f)
     else rmap (Pair True) (try_visit_fixed_fields_mut
            (\<lambda>i h x. if i < num_fields \<and> m AND mask_bit i \<noteq> 0 then hb_unmarshal h else rreturn x) g f))"

definition unmarshal_fields :: "nat \<Rightarrow> 's fixed_fragment \<Rightarrow> (bool \<times> 's fixed_fragment) reader" where
  "unmarshal_fields g f =
     (case fixed_group_field_count f g of
        None \<Rightarrow> rreturn (False, f)
      | Some num_fields \<Rightarrow> unmarshal_visited_fields g num_fields f)"

definition flag_bytes :: "nat \<Rightarrow> nat" where "flag_bytes n = max 1 (div_ceil n 8)"

definition write_group_present_flags :: "bool list \<Rightarrow> write_buffer \<Rightarrow> write_buffer" where
  "write_group_present_flags flags wb =
     fold (\<lambda>k wb. write_u8 (pack_flags (flag_chunk 8 flags k)) wb) [0..<flag_bytes (length flags)] wb"

fun read_flag_bytes :: "nat \<Rightarrow> nat list \<Rightarrow> bool list reader" where
  "read_flag_bytes n [] = rreturn []"
| "read_flag_bytes n (k # ks) =
     rbind read_u8 (\<lambda>b. rmap (\<lambda>flags. map (flag_set b) [0..<min (k * 8 + 8) n - k * 8] @ flags) (read_flag_bytes n ks))"

definition read_group_present_flags :: "nat \<Rightarrow> bool list reader" where
  "read_group_present_flags n = read_flag_bytes n [0..<flag_bytes n]"

definition fixed_group_visible :: "nat \<Rightarrow> marshal_context \<Rightarrow> nat \<Rightarrow> 's fixed_fragment \<Rightarrow> bool" where
  "fixed_group_visible n mc g f \<longleftrightarrow>
     (case filter_target mc of Some client \<Rightarrow> fixed_should_send n client g (fx_base f) | None \<Rightarrow> True)"

fun marshal_groups ::
    "nat \<Rightarrow> marshal_context \<Rightarrow> 's fixed_fragment \<Rightarrow> nat list \<Rightarrow> write_buffer \<Rightarrow> (bool list \<times> write_buffer) option" where
  "marshal_groups n mc f [] body = Some ([], body)"
| "marshal_groups n mc f (g # gs) body =
     Option.bind (if fixed_group_visible n mc g f then marshal_fields g (group_baseline mc g) f body else Some (False, body))
       (\<lambda>(present, body). map_option (apfst ((#) present)) (marshal_groups n mc f gs body))"

definition marshal_fixed_contents :: "nat \<Rightarrow> marshal_context \<Rightarrow> 's fixed_fragment \<Rightarrow> write_buffer \<Rightarrow> (bool \<times> write_buffer) option" where
  "marshal_fixed_contents n mc f wb =
     Option.bind (marshal_groups n mc f [0..<n] (write_new (wendian wb))) (\<lambda>(present, body).
       Some (if list_ex id present then (True, write_bytes (wdata body) (write_group_present_flags present wb)) else (False, wb)))"

fun unmarshal_present :: "(nat \<times> bool) list \<Rightarrow> bool \<Rightarrow> 's fixed_fragment \<Rightarrow> (bool \<times> 's fixed_fragment) reader" where
  "unmarshal_present [] any f = rreturn (any, f)"
| "unmarshal_present ((g, present) # gs) any f =
     (if present then rbind (unmarshal_fields g f) (\<lambda>(r, f'). unmarshal_present gs (any \<or> r) f')
      else unmarshal_present gs any f)"

definition unmarshal_fixed_contents :: "nat \<Rightarrow> 's fixed_fragment \<Rightarrow> (bool \<times> 's fixed_fragment) reader" where
  "unmarshal_fixed_contents n f =
     rbind (read_group_present_flags n) (\<lambda>flags. unmarshal_present (enumerate 0 flags) False f)"

section \<open>Merging fragments\<close>

fun merge_fixed_groups ::
    "hub_seq \<Rightarrow> bool \<Rightarrow> nat list \<Rightarrow> 's fixed_fragment \<Rightarrow> 's fixed_fragment \<Rightarrow> 's fixed_fragment \<Rightarrow> merge_outcome \<Rightarrow>
     's fixed_fragment \<times> 's fixed_fragment \<times> merge_outcome" where
  "merge_fixed_groups seq inherit [] old new self oc = (self, new, oc)"
| "merge_fixed_groups seq inherit (g # gs) old new self oc =
     (case (map_of (fx_fields self) g, map_of (fx_fields old) g, map_of (fx_fields new) g) of
        (Some selfs, Some olds, Some news) \<Rightarrow>
          (let (ms, ns, oc) = merge_portions seq inherit selfs olds news oc
           in merge_fixed_groups seq inherit gs old
                (new\<lparr>fx_fields := AList.update g ns (fx_fields new)\<rparr>) (self\<lparr>fx_fields := AList.update g ms (fx_fields self)\<rparr>) oc)
      | _ \<Rightarrow> merge_fixed_groups seq inherit gs old new self oc)"

definition merge_fixed ::
    "nat \<Rightarrow> 's fixed_fragment \<Rightarrow> 's fixed_fragment \<Rightarrow> 's fixed_fragment \<Rightarrow> hub_seq \<Rightarrow> bool \<Rightarrow> 's fixed_fragment \<times> 's fixed_fragment" where
  "merge_fixed n dflt old new seq inherit =
     (let (merged, new', oc) = merge_fixed_groups seq inherit [0..<n] old new dflt merge_outcome_default;
          (base, oc) = merge_client_whitelists n (fx_base old) (fx_base new') seq inherit (fx_base merged, oc)
      in (merged\<lparr>fx_base := fixed_finish_merge seq (fx_correlation_id (fx_base new)) oc base\<rparr>, new'))"

fun reset_registered :: "'s registered \<Rightarrow> 's registered" where
  "reset_registered (Handler h f) = Handler h (hb_reset_has_new_network_data h f)"
| "reset_registered (Portions rs) = Portions (map reset_registered rs)"

definition reset_fixed_has_new_network_data :: "nat \<Rightarrow> 's fixed_fragment \<Rightarrow> 's fixed_fragment" where
  "reset_fixed_has_new_network_data n f =
     \<lparr>fx_base = fixed_reset_network_data (reset_client_whitelist_network_data n (fx_base f)),
      fx_fields = map (\<lambda>(g, rs). (g, if g < n then map reset_registered rs else rs)) (fx_fields f)\<rparr>"

definition fixed_is_dirty :: "hub_seq \<Rightarrow> 's fixed_fragment \<Rightarrow> bool" where
  "fixed_is_dirty baseline f \<longleftrightarrow> baseline < fx_last_modified (fx_base f)"

section \<open>Registered attributes and metadata\<close>

text \<open>The callbacks of these helpers are functions of the field index.\<close>

definition marshal_registered_fields ::
    "nat \<Rightarrow> (nat \<Rightarrow> bool) \<Rightarrow> (nat \<Rightarrow> write_buffer \<Rightarrow> write_buffer option) \<Rightarrow> write_buffer \<Rightarrow> (bool \<times> write_buffer) option" where
  "marshal_registered_fields num_fields dirty marshal wb =
     (let m = fold (\<lambda>i m. if dirty i then m OR mask_bit i else m) [0..<num_fields] 0 in
      if m = 0 then Some (False, wb)
      else map_option (Pair True)
        (fold (\<lambda>i wb. if m AND mask_bit i \<noteq> 0 then Option.bind wb (marshal i) else wb) [0..<num_fields] (Some (vlq64_marshal m wb))))"

definition marshal_registered_attributes ::
    "nat \<Rightarrow> (nat \<Rightarrow> bool) \<Rightarrow> (nat \<Rightarrow> write_buffer \<Rightarrow> write_buffer option) \<Rightarrow> write_buffer \<Rightarrow> write_buffer option" where
  "marshal_registered_attributes num_fields dirty marshal wb =
     map_option (\<lambda>(wrote, wb). if wrote then wb else write_u8 0 wb) (marshal_registered_fields num_fields dirty marshal wb)"

fun unmarshal_indices :: "u64 \<Rightarrow> (nat \<Rightarrow> 'x \<Rightarrow> 'x reader) \<Rightarrow> nat list \<Rightarrow> 'x \<Rightarrow> 'x reader" where
  "unmarshal_indices m unmarshal [] x = rreturn x"
| "unmarshal_indices m unmarshal (i # is) x =
     rbind (if m AND mask_bit i \<noteq> 0 then unmarshal i x else rreturn x) (unmarshal_indices m unmarshal is)"

definition unmarshal_registered_fields :: "nat \<Rightarrow> (nat \<Rightarrow> 'x \<Rightarrow> 'x reader) \<Rightarrow> 'x \<Rightarrow> (bool \<times> 'x) reader" where
  "unmarshal_registered_fields num_fields unmarshal x = rbind vlq64_unmarshal (\<lambda>m.
     if m = 0 then rreturn (False, x) else rmap (Pair True) (unmarshal_indices m unmarshal [0..<num_fields] x))"

definition marshal_field_metadata_sequences :: "hub_seq list \<Rightarrow> write_buffer \<Rightarrow> write_buffer option" where
  "marshal_field_metadata_sequences seqs wb = fold (\<lambda>s wb. Option.bind wb (hub_seq_marshal s)) seqs (Some wb)"

fun unmarshal_field_metadata_sequences :: "nat list \<Rightarrow> (nat \<Rightarrow> hub_seq \<Rightarrow> 'x \<Rightarrow> 'x) \<Rightarrow> 'x \<Rightarrow> 'x reader" where
  "unmarshal_field_metadata_sequences [] apply_sequence x = rreturn x"
| "unmarshal_field_metadata_sequences (i # is) apply_sequence x =
     rbind hub_seq_unmarshal (\<lambda>s. unmarshal_field_metadata_sequences is apply_sequence (apply_sequence i s x))"

section \<open>Fields in declaration order\<close>

fun leaves :: "'s registered \<Rightarrow> ('s handler \<times> 's) list" where
  "leaves (Handler h f) = [(h, f)]"
| "leaves (Portions rs) = concat (map leaves rs)"

definition group_leaves :: "'s fixed_fragment \<Rightarrow> nat \<Rightarrow> ('s handler \<times> 's) list" where
  "group_leaves f g = (case map_of (fx_fields f) g of Some rs \<Rightarrow> concat (map leaves rs) | None \<Rightarrow> [])"

lemma field_count_leaves: "field_count r = length (leaves r)"
  by (induction r) (auto simp: length_concat intro!: arg_cong [where f = sum_list])

text \<open>A visit numbers the single fields of a group from zero, whatever registers them.\<close>

lemma visit_enumerates:
  fixes r :: "'s registered" and rs :: "'s registered list"
  shows "visit_registered i r = enumerate i (leaves r)" "visit_portions i rs = enumerate i (concat (map leaves rs))"
  by (induction i r and i rs rule: visit_registered_visit_portions.induct)
    (simp_all add: enumerate_append_eq field_count_leaves)

lemma visit_fixed_fields_leaves: "visit_fixed_fields f g = enumerate 0 (group_leaves f g)"
  by (simp add: visit_fixed_fields_def group_leaves_def visit_enumerates split: option.splits)

lemma group_field_count:
  fixes f :: "'a fixed_fragment"
  assumes "fixed_group_field_count f g = Some k"
  shows "k = length (group_leaves f g)"
proof -
  have "(field_count :: 'a registered \<Rightarrow> nat) = (\<lambda>r. length (leaves r))" using field_count_leaves by blast
  then show ?thesis
    using assms by (auto simp: fixed_group_field_count_def group_leaves_def length_concat comp_def split: option.splits)
qed

lemma group_leaves_update:
  "group_leaves (f\<lparr>fx_fields := AList.update g rs (fx_fields f)\<rparr>) k = (if k = g then concat (map leaves rs) else group_leaves f k)"
  by (simp add: group_leaves_def update_conv')

section \<open>Masks of visited fields\<close>

lemma bit_mask_bit: "k < 64 \<Longrightarrow> bit (mask_bit k) j \<longleftrightarrow> j = k"
  by (auto simp: mask_bit_def bit_push_bit_iff bit_1_iff simp del: push_bit_of_1)

lemma mask_bit_test: "k < 64 \<Longrightarrow> m AND mask_bit k \<noteq> 0 \<longleftrightarrow> bit m k"
  by (auto simp: mask_bit_def push_bit_of_1 and_exp_eq_0_iff_not_bit)

lemma bit_visited_fold:
  "i + length fs \<le> 64 \<Longrightarrow> i + length fs \<le> n \<Longrightarrow>
     bit (fold (\<lambda>(i, h, f) m. if i < n \<and> hb_is_dirty h b f then m OR mask_bit i else m) (enumerate i fs) m) j \<longleftrightarrow>
       bit m j \<or> i \<le> j \<and> j < i + length fs \<and> hb_is_dirty (fst (fs ! (j - i))) b (snd (fs ! (j - i)))"
proof (induction fs arbitrary: i m)
  case (Cons p fs)
  obtain h f where p: "p = (h, f)" by (cases p)
  have "Suc i + length fs \<le> 64" "Suc i + length fs \<le> n" using Cons.prems by simp_all
  note ih = Cons.IH [OF this]
  have "j - i = Suc (j - Suc i)" if "i < j" using that by simp
  then show ?case
    using Cons.prems by (cases "j \<le> i") (auto simp: p ih bit_or_iff bit_mask_bit nth_Cons')
qed auto

lemma bit_visited_mask:
  "length fs \<le> 64 \<Longrightarrow> bit (visited_mask (length fs) b (enumerate 0 fs)) j \<longleftrightarrow>
     j < length fs \<and> hb_is_dirty (fst (fs ! j)) b (snd (fs ! j))"
  by (simp add: visited_mask_def bit_visited_fold)

definition dirty_at :: "hub_seq \<Rightarrow> 's handler \<times> 's \<Rightarrow> bool" where
  "dirty_at b = (\<lambda>(h, f). hb_is_dirty h b f)"

lemma visited_mask_zero:
  assumes "length fs \<le> 64"
  shows "visited_mask (length fs) b (enumerate 0 fs) = 0 \<longleftrightarrow> \<not> list_ex (dirty_at b) fs"
proof -
  have "visited_mask (length fs) b (enumerate 0 fs) = 0 \<longleftrightarrow> (\<forall>j. \<not> bit (visited_mask (length fs) b (enumerate 0 fs)) j)"
    by (metis bit_0_eq bot_apply bot_bool_def bit_eq_iff)
  then show ?thesis
    by (auto simp: bit_visited_mask [OF assms] list_ex_length dirty_at_def split_beta)
qed

section \<open>The contents of one group\<close>

definition selected :: "(nat \<Rightarrow> bool) \<Rightarrow> nat \<Rightarrow> 'p list \<Rightarrow> ('p \<times> bool) list" where
  "selected sel i ps = map (\<lambda>(k, p). (p, sel k)) (enumerate i ps)"

lemma selected_simps [simp]:
  "selected sel i [] = []" "selected sel i (p # ps) = (p, sel i) # selected sel (Suc i) ps"
  "selected sel i (ps @ qs) = selected sel i ps @ selected sel (i + length ps) qs"
  by (simp_all add: selected_def enumerate_append_eq)

lemma length_selected [simp]: "length (selected sel i ps) = length ps"
  by (simp add: selected_def)

lemma selected_dirty:
  assumes "\<And>k. k < length ps \<Longrightarrow> sel (i + k) = dirty (ps ! k)"
  shows "selected sel i ps = map (\<lambda>p. (p, dirty p)) ps"
  using assms by (auto simp: selected_def list_eq_iff_nth_eq nth_enumerate_eq)

lemma marshal_visited_payloads:
  "marshal_visited n m (enumerate i fs) wb = marshal_payloads (selected (\<lambda>k. k < n \<and> m AND mask_bit k \<noteq> 0) i fs) wb"
proof (induction fs arbitrary: i wb)
  case (Cons p fs)
  then show ?case by (cases p) (auto split: option.splits bind_splits)
qed simp

lemma field_dirty_at: "field_dirty mc g = dirty_at (group_baseline mc g)"
  by (simp add: field_dirty_def dirty_at_def fun_eq_iff)

definition group_mask :: "marshal_context \<Rightarrow> 's fixed_fragment \<Rightarrow> nat \<Rightarrow> u64" where
  "group_mask mc s g = visited_mask (length (group_leaves s g)) (group_baseline mc g) (enumerate 0 (group_leaves s g))"

definition group_enc :: "'s handler_wire \<Rightarrow> marshal_context \<Rightarrow> 's fixed_fragment \<Rightarrow> endian \<Rightarrow> nat \<Rightarrow> bytes" where
  "group_enc w mc s e g = vlq64_bytes (group_mask mc s g) @ payload_enc w e (flagged mc g (group_leaves s g))"

lemma group_selected:
  assumes "length (group_leaves s g) \<le> 64"
  shows "selected (\<lambda>k. k < length (group_leaves s g) \<and> group_mask mc s g AND mask_bit k \<noteq> 0) 0 (group_leaves s g) =
    flagged mc g (group_leaves s g)"
  using assms unfolding flagged_def field_dirty_at group_mask_def
  by (intro selected_dirty) (auto simp: mask_bit_test bit_visited_mask dirty_at_def split_beta)

lemma marshal_fixed_group_enc:
  assumes "length (group_leaves s g) \<le> 64" "list_all (dirty_ok w) (flagged mc g (group_leaves s g))"
  shows "marshal_fields g (group_baseline mc g) s wb =
    Some (if list_ex (field_dirty mc g) (group_leaves s g) then (True, write_bytes (group_enc w mc s (wendian wb) g) wb) else (False, wb))"
proof (cases "fixed_group_field_count s g")
  case None
  then have "group_leaves s g = []" by (simp add: fixed_group_field_count_def group_leaves_def)
  then show ?thesis using None by (simp add: marshal_fields_def)
next
  case (Some k)
  then have k: "k = length (group_leaves s g)" by (rule group_field_count)
  have "marshal_visited k (group_mask mc s g) (enumerate 0 (group_leaves s g)) wb' =
      Some (write_bytes (payload_enc w (wendian wb') (flagged mc g (group_leaves s g))) wb')" for wb'
    unfolding marshal_visited_payloads k group_selected [OF assms(1)] by (rule marshal_payloads_enc [OF assms(2)])
  moreover have "group_mask mc s g = 0 \<longleftrightarrow> \<not> list_ex (field_dirty mc g) (group_leaves s g)"
    unfolding group_mask_def field_dirty_at by (rule visited_mask_zero [OF assms(1)])
  ultimately show ?thesis
    by (simp add: marshal_fields_def Some marshal_visited_fields_def visit_fixed_fields_leaves k group_mask_def [symmetric]
        group_enc_def vlq64_marshal_def write_bytes_def)
qed

section \<open>Reading a group into the fields of the receiver\<close>

abbreviation reads_selected :: "(nat \<Rightarrow> bool) \<Rightarrow> nat \<Rightarrow> 's handler \<Rightarrow> 's \<Rightarrow> 's reader" where
  "reads_selected sel \<equiv> (\<lambda>i h x. if sel i then hb_unmarshal h else rreturn x)"

definition reads_registered :: "'s handler_wire \<Rightarrow> (nat \<Rightarrow> bool) \<Rightarrow> 's registered \<Rightarrow> bool" where
  "reads_registered w sel r \<longleftrightarrow> (\<forall>i ps rb rest. map fst ps = map fst (leaves r) \<longrightarrow> list_all (dirty_ok w) (selected sel i ps) \<longrightarrow>
     remaining rb = payload_enc w (rendian rb) (selected sel i ps) @ rest \<longrightarrow>
     (\<exists>r' rb'. visit_registered_mut (reads_selected sel) i r rb = (Ok r', rb')
        \<and> leaves r' = map2 (pick w) (selected sel i ps) (leaves r) \<and> remaining rb' = rest \<and> rendian rb' = rendian rb))"

lemma reads_registeredD:
  "reads_registered w sel r \<Longrightarrow> map fst ps = map fst (leaves r) \<Longrightarrow> list_all (dirty_ok w) (selected sel i ps) \<Longrightarrow>
     remaining rb = payload_enc w (rendian rb) (selected sel i ps) @ rest \<Longrightarrow>
     \<exists>r' rb'. visit_registered_mut (reads_selected sel) i r rb = (Ok r', rb')
        \<and> leaves r' = map2 (pick w) (selected sel i ps) (leaves r) \<and> remaining rb' = rest \<and> rendian rb' = rendian rb"
  unfolding reads_registered_def by blast

lemma payload_enc_append: "payload_enc w e (fs @ gs) = payload_enc w e fs @ payload_enc w e gs"
  by (simp add: payload_enc_def)

lemma visit_portions_reads:
  assumes "list_all (reads_registered w sel) rs"
  shows "map fst ps = map fst (concat (map leaves rs)) \<Longrightarrow> list_all (dirty_ok w) (selected sel i ps) \<Longrightarrow>
    remaining rb = payload_enc w (rendian rb) (selected sel i ps) @ rest \<Longrightarrow>
    \<exists>rs' rb'. visit_portions_mut (reads_selected sel) i rs rb = (Ok rs', rb')
      \<and> concat (map leaves rs') = map2 (pick w) (selected sel i ps) (concat (map leaves rs))
      \<and> remaining rb' = rest \<and> rendian rb' = rendian rb"
  using assms
proof (induction rs arbitrary: i ps rb)
  case (Cons r rs)
  let ?n = "length (leaves r)"
  define as bs where "as = take ?n ps" and "bs = drop ?n ps"
  have "length ps = ?n + length (concat (map leaves rs))" using Cons.prems(1) by (metis length_map length_append concat.simps(2) list.simps(9))
  then have ps: "ps = as @ bs" and la: "length as = ?n" by (simp_all add: as_def bs_def)
  have fa: "map fst as = map fst (leaves r)" and fb: "map fst bs = map fst (concat (map leaves rs))"
    using Cons.prems(1) la by (auto simp: ps append_eq_append_conv)
  have da: "list_all (dirty_ok w) (selected sel i as)" and db: "list_all (dirty_ok w) (selected sel (i + ?n) bs)"
    using Cons.prems(2) la by (simp_all add: ps)
  have rem: "remaining rb = payload_enc w (rendian rb) (selected sel i as)
      @ payload_enc w (rendian rb) (selected sel (i + ?n) bs) @ rest"
    using Cons.prems(3) la by (simp add: ps payload_enc_append)
  have "reads_registered w sel r" using Cons.prems(4) by simp
  from reads_registeredD [OF this fa da rem]
  obtain r' rb1 where 1: "visit_registered_mut (reads_selected sel) i r rb = (Ok r', rb1)"
    "leaves r' = map2 (pick w) (selected sel i as) (leaves r)"
    "remaining rb1 = payload_enc w (rendian rb) (selected sel (i + ?n) bs) @ rest" "rendian rb1 = rendian rb"
    by blast
  obtain rs' rb2 where 2: "visit_portions_mut (reads_selected sel) (i + ?n) rs rb1 = (Ok rs', rb2)"
    "concat (map leaves rs') = map2 (pick w) (selected sel (i + ?n) bs) (concat (map leaves rs))"
    "remaining rb2 = rest" "rendian rb2 = rendian rb1"
    using Cons.IH [OF fb db, of rb1] Cons.prems(4) 1(3,4) by auto
  have "visit_portions_mut (reads_selected sel) i (r # rs) rb = (Ok (r' # rs'), rb2)"
    using 1(1) 2(1) by (simp add: field_count_leaves)
  moreover have "concat (map leaves (r' # rs')) = map2 (pick w) (selected sel i ps) (concat (map leaves (r # rs)))"
    using 1(2) 2(2) la by (simp add: ps zip_append)
  ultimately show ?case using 2(3,4) 1(4) by auto
qed simp

lemma visit_registered_reads: "reads_registered w sel r"
proof (induction r)
  case (Handler h x)
  show ?case
    unfolding reads_registered_def
  proof (intro allI impI)
    fix i ps rb rest
    assume a: "map fst ps = map fst (leaves (Handler h x))" "list_all (dirty_ok w) (selected sel i ps)"
      "remaining rb = payload_enc w (rendian rb) (selected sel i ps) @ rest"
    then obtain f where ps: "ps = [(h, f)]" by (cases ps) (auto simp: map_eq_Cons_conv)
    show "\<exists>r' rb'. visit_registered_mut (reads_selected sel) i (Handler h x) rb = (Ok r', rb')
        \<and> leaves r' = map2 (pick w) (selected sel i ps) (leaves (Handler h x)) \<and> remaining rb' = rest \<and> rendian rb' = rendian rb"
    proof (cases "sel i")
      case True
      then have ok: "entry_wire_ok w (h, f)" "remaining rb = entry_enc w (rendian rb) (h, f) @ rest"
        using a by (simp_all add: ps dirty_ok_def)
      from entry_unmarshal [OF this] show ?thesis using True by (auto simp: ps pick_def)
    next
      case False
      then show ?thesis using a by (simp add: ps pick_def)
    qed
  qed
next
  case (Portions rs)
  then have "list_all (reads_registered w sel) rs" by (simp add: list_all_iff)
  note reads = visit_portions_reads [OF this]
  show ?case
    unfolding reads_registered_def leaves.simps visit_registered_mut.simps
  proof (intro allI impI)
    fix i ps rb rest
    assume "map fst ps = map fst (concat (map leaves rs))" "list_all (dirty_ok w) (selected sel i ps)"
      "remaining rb = payload_enc w (rendian rb) (selected sel i ps) @ rest"
    from reads [OF this] obtain rs' rb' where
      "visit_portions_mut (reads_selected sel) i rs rb = (Ok rs', rb')"
      "concat (map leaves rs') = map2 (pick w) (selected sel i ps) (concat (map leaves rs))"
      "remaining rb' = rest" "rendian rb' = rendian rb" by blast
    then show "\<exists>r' rb'. rmap Portions (visit_portions_mut (reads_selected sel) i rs) rb = (Ok r', rb')
        \<and> leaves r' = map2 (pick w) (selected sel i ps) (concat (map leaves rs)) \<and> remaining rb' = rest \<and> rendian rb' = rendian rb"
      by (intro exI [of _ "Portions rs'"] exI [of _ rb']) simp
  qed
qed

definition same_leaves :: "'s fixed_fragment \<Rightarrow> 's fixed_fragment \<Rightarrow> nat \<Rightarrow> bool" where
  "same_leaves s d g \<longleftrightarrow> map fst (group_leaves s g) = map fst (group_leaves d g)"

definition received_leaves ::
    "'s handler_wire \<Rightarrow> marshal_context \<Rightarrow> 's fixed_fragment \<Rightarrow> 's fixed_fragment \<Rightarrow> nat \<Rightarrow> ('s handler \<times> 's) list" where
  "received_leaves w mc s d g = map2 (pick w) (flagged mc g (group_leaves s g)) (group_leaves d g)"

lemma unmarshal_fixed_group_enc:
  assumes "length (group_leaves s g) \<le> 64" "list_all (dirty_ok w) (flagged mc g (group_leaves s g))" "same_leaves s d g"
    "list_ex (field_dirty mc g) (group_leaves s g)" "remaining rb = group_enc w mc s (rendian rb) g @ rest"
  shows "\<exists>d' rb'. unmarshal_fields g d rb = (Ok (True, d'), rb') \<and> fx_base d' = fx_base d
    \<and> group_leaves d' = (group_leaves d)(g := received_leaves w mc s d g) \<and> remaining rb' = rest \<and> rendian rb' = rendian rb"
proof -
  let ?sel = "\<lambda>k. k < length (group_leaves s g) \<and> group_mask mc s g AND mask_bit k \<noteq> 0"
  have len: "length (group_leaves d g) = length (group_leaves s g)" using assms(3) by (metis same_leaves_def length_map)
  have "group_leaves d g \<noteq> []" using assms(4) len by auto
  then obtain rs where rs: "map_of (fx_fields d) g = Some rs" and gl: "group_leaves d g = concat (map leaves rs)"
    by (auto simp: group_leaves_def split: option.splits)
  then obtain k where k: "fixed_group_field_count d g = Some k" by (simp add: fixed_group_field_count_def)
  then have "k = length (group_leaves s g)" using group_field_count len by metis
  note k = k [unfolded this]
  have m: "group_mask mc s g \<noteq> 0"
    using assms(4) unfolding group_mask_def field_dirty_at by (simp add: visited_mask_zero [OF assms(1)])
  let ?rb = "advance (length (vlq64_bytes (group_mask mc s g))) rb"
  have v: "vlq64_unmarshal rb = (Ok (group_mask mc s g), ?rb)"
    using assms(5) vlq64.unmarshal_enc by (simp add: group_enc_def)
  have sel: "selected ?sel 0 (group_leaves s g) = flagged mc g (group_leaves s g)" by (rule group_selected [OF assms(1)])
  have "list_all (reads_registered w ?sel) rs" by (simp add: list_all_iff visit_registered_reads)
  from visit_portions_reads [OF this, of "group_leaves s g" 0 ?rb rest]
  obtain rs' rb' where r: "visit_portions_mut (reads_selected ?sel) 0 rs ?rb = (Ok rs', rb')"
    "concat (map leaves rs') = map2 (pick w) (flagged mc g (group_leaves s g)) (concat (map leaves rs))"
    "remaining rb' = rest" "rendian rb' = rendian ?rb"
    using assms(2,3,5) gl by (auto simp: sel same_leaves_def group_enc_def)
  let ?d = "d\<lparr>fx_fields := AList.update g rs' (fx_fields d)\<rparr>"
  have "unmarshal_fields g d rb = (Ok (True, ?d), rb')"
    using m r(1) by (simp add: unmarshal_fields_def k unmarshal_visited_fields_def v try_visit_fixed_fields_mut_def rs)
  moreover have "group_leaves ?d = (group_leaves d)(g := received_leaves w mc s d g)"
    by (rule ext) (simp add: group_leaves_update r(2) received_leaves_def gl)
  ultimately show ?thesis using r(3,4) by (intro exI [of _ ?d] exI [of _ rb']) simp
qed

section \<open>The group-present flags\<close>

definition flags_enc :: "bool list \<Rightarrow> bytes" where
  "flags_enc flags = map (\<lambda>k. pack_flags (flag_chunk 8 flags k)) [0..<flag_bytes (length flags)]"

lemma write_flags_enc: "write_group_present_flags flags wb = write_bytes (flags_enc flags) wb"
proof -
  have "fold (\<lambda>k. write_u8 (f k)) ks wb = write_bytes (map f ks) wb" for f :: "nat \<Rightarrow> u8" and ks
    by (induction ks arbitrary: wb) (simp_all add: write_u8_def write_bytes_def)
  then show ?thesis by (simp add: write_group_present_flags_def flags_enc_def)
qed

lemma chunk_flags: "map (flag_set (pack_flags (flag_chunk 8 flags k))) [0..<min (k * 8 + 8) (length flags) - k * 8] = flag_chunk 8 flags k"
  using length_flag_chunk [of 8 flags k]
  by (auto simp: list_eq_iff_nth_eq flag_set_bit pack_flags_bit) (auto simp: flag_chunk_def Let_def)

lemma concat_chunks: "concat (map (flag_chunk 8 flags) [0..<k]) = take (8 * k) flags"
proof (induction k)
  case (Suc k)
  have "flag_chunk 8 flags k = take 8 (drop (8 * k) flags)"
    by (simp add: flag_chunk_def Let_def min_def mult.commute)
  then show ?case using Suc take_add [of "8 * k" 8 flags] by (simp add: add.commute)
qed simp

lemma read_flag_bytes_enc:
  "remaining rb = map (\<lambda>k. pack_flags (flag_chunk 8 flags k)) ks @ rest \<Longrightarrow>
     read_flag_bytes (length flags) ks rb = (Ok (concat (map (flag_chunk 8 flags) ks)), advance (length ks) rb)"
  by (induction ks arbitrary: rb) (simp_all add: chunk_flags)

lemma read_flags_enc:
  assumes "remaining rb = flags_enc flags @ rest"
  shows "read_group_present_flags (length flags) rb = (Ok flags, advance (length (flags_enc flags)) rb)"
proof -
  have "length flags \<le> 8 * flag_bytes (length flags)" by (simp add: flag_bytes_def div_ceil_def)
  then show ?thesis
    using read_flag_bytes_enc [of rb flags] assms by (simp add: read_group_present_flags_def flags_enc_def concat_chunks)
qed

section \<open>The contents are read back\<close>

definition group_present :: "nat \<Rightarrow> marshal_context \<Rightarrow> 's fixed_fragment \<Rightarrow> nat \<Rightarrow> bool" where
  "group_present n mc s g \<longleftrightarrow> fixed_group_visible n mc g s \<and> list_ex (field_dirty mc g) (group_leaves s g)"

definition fixed_wire_ok :: "'s handler_wire \<Rightarrow> nat \<Rightarrow> marshal_context \<Rightarrow> 's fixed_fragment \<Rightarrow> bool" where
  "fixed_wire_ok w n mc s \<longleftrightarrow>
     list_all (\<lambda>g. fixed_group_visible n mc g s \<longrightarrow>
       length (group_leaves s g) \<le> 64 \<and> list_all (dirty_ok w) (flagged mc g (group_leaves s g))) [0..<n]"

definition groups_enc :: "'s handler_wire \<Rightarrow> nat \<Rightarrow> marshal_context \<Rightarrow> 's fixed_fragment \<Rightarrow> endian \<Rightarrow> nat list \<Rightarrow> bytes" where
  "groups_enc w n mc s e gs = concat (map (\<lambda>g. if group_present n mc s g then group_enc w mc s e g else []) gs)"

lemma fixed_wire_okD:
  assumes "fixed_wire_ok w n mc s" "g < n" "fixed_group_visible n mc g s"
  shows "length (group_leaves s g) \<le> 64" "list_all (dirty_ok w) (flagged mc g (group_leaves s g))"
  using assms by (auto simp: fixed_wire_ok_def list_all_iff)

lemma marshal_groups_enc:
  assumes "fixed_wire_ok w n mc s"
  shows "list_all (\<lambda>g. g < n) gs \<Longrightarrow>
    marshal_groups n mc s gs wb = Some (map (group_present n mc s) gs, write_bytes (groups_enc w n mc s (wendian wb) gs) wb)"
proof (induction gs arbitrary: wb)
  case Nil
  then show ?case by (simp add: groups_enc_def write_bytes_def)
next
  case (Cons g gs)
  show ?case
  proof (cases "fixed_group_visible n mc g s")
    case True
    note m = marshal_fixed_group_enc [OF fixed_wire_okD [OF assms _ True]]
    show ?thesis
      using Cons True m [of wb] by (simp add: groups_enc_def group_present_def write_bytes_def cong: if_cong)
  next
    case False
    then show ?thesis using Cons by (simp add: groups_enc_def group_present_def)
  qed
qed

definition fixed_received ::
    "'s handler_wire \<Rightarrow> nat \<Rightarrow> marshal_context \<Rightarrow> 's fixed_fragment \<Rightarrow> 's fixed_fragment \<Rightarrow> nat \<Rightarrow> ('s handler \<times> 's) list" where
  "fixed_received w n mc s d g = (if group_present n mc s g then received_leaves w mc s d g else group_leaves d g)"

lemma received_leaves_cong: "group_leaves d g = group_leaves d' g \<Longrightarrow> received_leaves w mc s d g = received_leaves w mc s d' g"
  by (simp add: received_leaves_def)

lemma unmarshal_present_enc:
  assumes ok: "fixed_wire_ok w n mc s" and "list_all (same_leaves s d) [i..<n]" "i \<le> n"
    "remaining rb = groups_enc w n mc s (rendian rb) [i..<n] @ rest"
  shows "\<exists>d' rb'. unmarshal_present (enumerate i (map (group_present n mc s) [i..<n])) any d rb =
      (Ok (any \<or> list_ex (group_present n mc s) [i..<n], d'), rb')
    \<and> fx_base d' = fx_base d \<and> (\<forall>g. group_leaves d' g = (if i \<le> g \<and> g < n then fixed_received w n mc s d g else group_leaves d g))
    \<and> remaining rb' = rest \<and> rendian rb' = rendian rb"
  using assms(2-)
proof (induction "n - i" arbitrary: i d rb any)
  case 0
  then show ?case by (auto simp: groups_enc_def)
next
  case (Suc k)
  then have i: "i < n" "[i..<n] = i # [Suc i..<n]" by (auto simp: upt_conv_Cons)
  show ?case
  proof (cases "group_present n mc s i")
    case False
    have "\<exists>d' rb'. unmarshal_present (enumerate (Suc i) (map (group_present n mc s) [Suc i..<n])) any d rb =
        (Ok (any \<or> list_ex (group_present n mc s) [Suc i..<n], d'), rb')
      \<and> fx_base d' = fx_base d \<and> (\<forall>g. group_leaves d' g = (if Suc i \<le> g \<and> g < n then fixed_received w n mc s d g else group_leaves d g))
      \<and> remaining rb' = rest \<and> rendian rb' = rendian rb"
      using Suc.hyps(2) Suc.prems False i by (intro Suc.hyps(1)) (simp_all add: groups_enc_def)
    then show ?thesis
      using False i unfolding i(2) by (force simp: fixed_received_def Suc_le_eq le_less)
  next
    case True
    then have v: "fixed_group_visible n mc i s" "list_ex (field_dirty mc i) (group_leaves s i)" by (simp_all add: group_present_def)
    have "same_leaves s d i" "remaining rb = group_enc w mc s (rendian rb) i @ groups_enc w n mc s (rendian rb) [Suc i..<n] @ rest"
      using Suc.prems True i by (simp_all add: groups_enc_def)
    from unmarshal_fixed_group_enc [OF fixed_wire_okD [OF ok i(1) v(1)] this(1) v(2) this(2)]
    obtain d1 rb1 where 1: "unmarshal_fields i d rb = (Ok (True, d1), rb1)" "fx_base d1 = fx_base d"
      "group_leaves d1 = (group_leaves d)(i := received_leaves w mc s d i)"
      "remaining rb1 = groups_enc w n mc s (rendian rb) [Suc i..<n] @ rest" "rendian rb1 = rendian rb" by blast
    have "list_all (same_leaves s d1) [Suc i..<n]"
      using Suc.prems(1) i by (auto simp: list_all_iff same_leaves_def 1(3))
    then have "\<exists>d' rb'. unmarshal_present (enumerate (Suc i) (map (group_present n mc s) [Suc i..<n])) True d1 rb1 =
        (Ok (True \<or> list_ex (group_present n mc s) [Suc i..<n], d'), rb')
      \<and> fx_base d' = fx_base d1 \<and> (\<forall>g. group_leaves d' g = (if Suc i \<le> g \<and> g < n then fixed_received w n mc s d1 g else group_leaves d1 g))
      \<and> remaining rb' = rest \<and> rendian rb' = rendian rb1"
      using Suc.hyps(2) 1 i by (intro Suc.hyps(1)) simp_all
    then obtain d' rb' where 2: "unmarshal_present (enumerate (Suc i) (map (group_present n mc s) [Suc i..<n])) True d1 rb1 = (Ok (True, d'), rb')"
      "fx_base d' = fx_base d1" "\<And>g. group_leaves d' g = (if Suc i \<le> g \<and> g < n then fixed_received w n mc s d1 g else group_leaves d1 g)"
      "remaining rb' = rest" "rendian rb' = rendian rb1" by auto
    have "group_leaves d' g = (if i \<le> g \<and> g < n then fixed_received w n mc s d g else group_leaves d g)" for g
      using 1(3) 2(3) [of g] True i received_leaves_cong [of d1 g d]
      by (cases "g = i") (auto simp: fixed_received_def)
    then show ?thesis
      unfolding i(2) using 1 2 True by (intro exI [of _ d'] exI [of _ rb']) simp
  qed
qed

text \<open>
  The contents of a fixed fragment are read back, for up to 64 fields in a group however they are
  registered: the dirty fields of the groups the target may see are received, every other field keeps the
  value the receiver had, the header is not touched and the bytes after the contents are left.
\<close>

lemma fixed_contents_roundtrip:
  assumes "fixed_wire_ok w n mc s" "list_all (same_leaves s d) [0..<n]" "list_ex (group_present n mc s) [0..<n]"
  shows "\<exists>wb d' rb'. marshal_fixed_contents n mc s (write_new e) = Some (True, wb)
    \<and> unmarshal_fixed_contents n d (read_new e (wdata wb @ rest)) = (Ok (True, d'), rb')
    \<and> fx_base d' = fx_base d \<and> map (group_leaves d') [0..<n] = map (fixed_received w n mc s d) [0..<n] \<and> remaining rb' = rest"
proof -
  let ?flags = "map (group_present n mc s) [0..<n]"
  let ?bs = "flags_enc ?flags @ groups_enc w n mc s e [0..<n]"
  have "marshal_groups n mc s [0..<n] (write_new e) = Some (?flags, write_bytes (groups_enc w n mc s e [0..<n]) (write_new e))"
    using marshal_groups_enc [OF assms(1), of "[0..<n]" "write_new e"] by (simp add: list_all_iff write_new_def)
  then have m: "marshal_fixed_contents n mc s (write_new e) = Some (True, write_bytes ?bs (write_new e))"
    using assms(3) by (simp add: marshal_fixed_contents_def write_flags_enc list_ex_iff write_bytes_def write_new_def)
  let ?rb = "advance (length (flags_enc ?flags)) (read_new e (?bs @ rest))"
  have f: "read_group_present_flags n (read_new e (?bs @ rest)) = (Ok ?flags, ?rb)"
    using read_flags_enc [of "read_new e (?bs @ rest)" ?flags] by simp
  obtain d' rb' where "unmarshal_present (enumerate 0 ?flags) False d ?rb = (Ok (list_ex (group_present n mc s) [0..<n], d'), rb')"
    "fx_base d' = fx_base d" "\<And>g. group_leaves d' g = (if g < n then fixed_received w n mc s d g else group_leaves d g)"
    "remaining rb' = rest"
    using unmarshal_present_enc [OF assms(1), of d 0 ?rb rest False] assms(2) by auto
  then show ?thesis
    using m f assms(3) by (auto simp: unmarshal_fixed_contents_def write_bytes_def write_new_def)
qed

definition byte_fragment :: "u8 field_handler list \<Rightarrow> u8 field_handler fixed_fragment" where
  "byte_fragment fs = \<lparr>fx_base = fixed_state_default 1, fx_fields = [(0, [Portions (map (Handler (field_base u8_codec 0)) fs)])]\<rparr>"

lemma byte_fragment_leaves:
  "group_leaves (byte_fragment fs) 0 = map (Pair (field_base u8_codec 0)) fs"
  by (induction fs) (simp_all add: byte_fragment_def group_leaves_def)

end
