(* ===== verification/Fixed_Whitelists.thy ===== *)
theory Fixed_Whitelists
  imports Fixed_State
begin

text \<open>
  What the client whitelists of a fixed fragment promise: they are sets of bounded size, the groups a
  client may not see do not show in what it is sent, and the way a merge treats a whitelist that an
  update leaves out.
\<close>

section \<open>Whitelists as bounded sets\<close>

definition whitelists_valid :: "nat \<Rightarrow> nat \<Rightarrow> fixed_state \<Rightarrow> bool" where
  "whitelists_valid n cap s \<longleftrightarrow>
     length (fx_groups s) = n \<and> list_all (\<lambda>f. distinct (effective_value [] f) \<and> length (effective_value [] f) \<le> cap) (fx_groups s)"

definition client_set :: "nat \<Rightarrow> fixed_state \<Rightarrow> u64 set" where
  "client_set g s = set (whitelist_of g s)"

definition client_sets :: "fixed_state \<Rightarrow> u64 set list" where
  "client_sets s = map (set \<circ> effective_value []) (fx_groups s)"

lemma effective_list_access:
  assumes "\<And>v. \<not> snd (cb v) \<Longrightarrow> fst (cb v) = v"
  shows "effective_value [] (field_access [] cb f) = fst (cb (effective_value [] f))"
proof (cases "fh_value f")
  case None
  then show ?thesis
    using assms [of "[]"] by (cases "cb []") (simp add: effective_value_def field_access_def)
next
  case (Some v)
  then show ?thesis by (cases "cb v") (simp add: effective_value_def field_access_def Let_def)
qed

lemma ensure_groups_full: "length (fx_groups s) = n \<Longrightarrow> ensure_groups n s = s"
  by (simp add: ensure_groups_def)

lemma client_whitelist_eq: "g < length (fx_groups s) \<Longrightarrow> client_whitelist g s = Some (whitelist_of g s)"
  by (simp add: client_whitelist_def whitelist_of_def effective_value_def)

lemma should_send_iff:
  assumes "g < n" "length (fx_groups s) = n"
  shows "fixed_should_send n c g s \<longleftrightarrow> client_set g s = {} \<or> c \<in> client_set g s"
  using assms by (auto simp: fixed_should_send_def client_whitelist_eq client_set_def)

text \<open>An update of one whitelist by a callback of \<open>access\<close>.\<close>

lemma update_whitelist_sets:
  assumes "\<And>v. \<not> snd (cb v) \<Longrightarrow> fst (cb v) = v" "whitelists_valid n cap s" "g < n"
    "distinct (fst (cb (whitelist_of g s)))" "length (fst (cb (whitelist_of g s))) \<le> cap"
  shows "whitelists_valid n cap (update_whitelist g (field_access [] cb) s)"
    "client_sets (update_whitelist g (field_access [] cb) s) = (client_sets s)[g := set (fst (cb (whitelist_of g s)))]"
  using assms(2-) effective_list_access [OF assms(1)]
  by (auto simp: whitelists_valid_def update_whitelist_def client_sets_def map_update whitelist_of_def
      list_all_length nth_list_update)

lemma remove_first_eq: "remove_first c xs = (remove1 c xs, c \<in> set xs)"
  by (induction xs) auto

lemma whitelist_facts:
  assumes "whitelists_valid n cap s" "g < n"
  shows "length (fx_groups s) = n" "distinct (whitelist_of g s)" "length (whitelist_of g s) \<le> cap"
    "card (client_set g s) = length (whitelist_of g s)"
  using assms by (auto simp: whitelists_valid_def list_all_length whitelist_of_def client_set_def distinct_card)

lemma add_client_sets:
  assumes "whitelists_valid n cap s" "g < n" "0 < cap"
  shows "fst (fixed_add_client n cap c g s) = (c \<notin> client_set g s \<and> card (client_set g s) < cap)"
    "client_sets (snd (fixed_add_client n cap c g s)) =
       (client_sets s)[g := (if card (client_set g s) < cap then insert c (client_set g s) else client_set g s)]"
    "whitelists_valid n cap (snd (fixed_add_client n cap c g s))"
proof -
  let ?ins = "\<lambda>w. if List.member w c \<or> length w \<ge> cap then (w, False) else (w @ [c], True)"
  note w = whitelist_facts [OF assms(1,2)]
  have add: "fixed_add_client n cap c g s = (snd (?ins (whitelist_of g s)), update_whitelist g (field_access [] ?ins) s)"
    using assms by (simp add: fixed_add_client_def ensure_groups_full [OF w(1)] Let_def)
  have sound: "\<not> snd (?ins v) \<Longrightarrow> fst (?ins v) = v" for v by (simp split: if_splits)
  have "distinct (fst (?ins (whitelist_of g s)))" "length (fst (?ins (whitelist_of g s))) \<le> cap" using w by auto
  note upd = update_whitelist_sets [of ?ins, OF sound assms(1,2) this]
  have "set (fst (?ins (whitelist_of g s))) = (if card (client_set g s) < cap then insert c (client_set g s) else client_set g s)"
    using w(4) by (auto simp: client_set_def)
  then show "fst (fixed_add_client n cap c g s) = (c \<notin> client_set g s \<and> card (client_set g s) < cap)"
    "client_sets (snd (fixed_add_client n cap c g s)) =
       (client_sets s)[g := (if card (client_set g s) < cap then insert c (client_set g s) else client_set g s)]"
    "whitelists_valid n cap (snd (fixed_add_client n cap c g s))"
    using upd w(4) unfolding add by (auto simp: client_set_def)
qed

lemma remove_client_sets:
  assumes "whitelists_valid n cap s" "g < n"
  shows "fst (fixed_remove_client n c g s) = (c \<in> client_set g s)"
    "client_sets (snd (fixed_remove_client n c g s)) = (client_sets s)[g := client_set g s - {c}]"
    "whitelists_valid n cap (snd (fixed_remove_client n c g s))"
proof -
  note w = whitelist_facts [OF assms]
  have "distinct (fst (remove_first c (whitelist_of g s)))" "length (fst (remove_first c (whitelist_of g s))) \<le> cap"
    using w by (auto simp: remove_first_eq length_remove1)
  note upd = update_whitelist_sets [of "remove_first c", OF _ assms this]
  show "fst (fixed_remove_client n c g s) = (c \<in> client_set g s)"
    "client_sets (snd (fixed_remove_client n c g s)) = (client_sets s)[g := client_set g s - {c}]"
    "whitelists_valid n cap (snd (fixed_remove_client n c g s))"
    using upd assms w(2) by (simp_all add: fixed_remove_client_def ensure_groups_full [OF w(1)] remove_first_eq client_set_def
        remove1_idem set_remove1_eq)
qed

lemma clear_client_sets:
  assumes "whitelists_valid n cap s" "g < n"
  shows "fst (fixed_clear_whitelist n g s) = (client_set g s \<noteq> {})"
    "client_sets (snd (fixed_clear_whitelist n g s)) = (client_sets s)[g := {}]"
    "whitelists_valid n cap (snd (fixed_clear_whitelist n g s))"
  using update_whitelist_sets [of "\<lambda>w. ([], w \<noteq> [])", OF _ assms] assms whitelist_facts [OF assms]
  by (simp_all add: fixed_clear_whitelist_def ensure_groups_full client_set_def)

text \<open>
  C31. The whitelists of a fixed fragment refine sets of at most the capacity: adding a client that is in
  the set or finds it full is refused, removing one takes it out at once however often it was added,
  clearing empties the set, no operation touches another group, and a group is sent to everyone exactly
  while its set is empty.
\<close>

theorem fixed_whitelist_refines_sets:
  assumes "whitelists_valid n cap s" "g < n" "0 < cap"
  shows "fst (fixed_add_client n cap c g s) = (c \<notin> client_set g s \<and> card (client_set g s) < cap)
    \<and> client_sets (snd (fixed_add_client n cap c g s)) =
        (client_sets s)[g := (if card (client_set g s) < cap then insert c (client_set g s) else client_set g s)]
    \<and> fst (fixed_remove_client n c g s) = (c \<in> client_set g s)
    \<and> client_sets (snd (fixed_remove_client n c g s)) = (client_sets s)[g := client_set g s - {c}]
    \<and> fst (fixed_clear_whitelist n g s) = (client_set g s \<noteq> {})
    \<and> client_sets (snd (fixed_clear_whitelist n g s)) = (client_sets s)[g := {}]
    \<and> whitelists_valid n cap (snd (fixed_add_client n cap c g s)) \<and> whitelists_valid n cap (snd (fixed_remove_client n c g s))
    \<and> whitelists_valid n cap (snd (fixed_clear_whitelist n g s))
    \<and> fixed_should_send n c g s = (client_set g s = {} \<or> c \<in> client_set g s)"
  using add_client_sets [OF assms] remove_client_sets [OF assms(1,2)] clear_client_sets [OF assms(1,2)]
    should_send_iff [OF assms(2) whitelist_facts(1) [OF assms(1,2)]]
  by (intro conjI)

theorem fixed_whitelist_refines_sets_witness:
  "client_sets (snd (fixed_add_client 2 1 7 1 (fixed_state_default 2))) = [{}, {7}]"
  using fixed_whitelist_refines_sets [of 2 1 "fixed_state_default 2" 1 7]
  by (simp add: whitelists_valid_def fixed_state_default_def whitelist_default_def field_some_def field_new_def effective_value_def
      client_sets_def client_set_def whitelist_of_def numeral_2_eq_2)

section \<open>What a client is not sent\<close>

lemma marshal_groups_cong:
  assumes "fx_base s = fx_base s'"
    "list_all (\<lambda>g. fixed_group_visible n mc g s \<longrightarrow> map_of (fx_fields s) g = map_of (fx_fields s') g) gs"
  shows "marshal_groups n mc s gs wb = marshal_groups n mc s' gs wb"
  using assms(2)
proof (induction gs arbitrary: wb)
  case (Cons g gs)
  have "fixed_group_visible n mc g s' = fixed_group_visible n mc g s"
    by (simp add: fixed_group_visible_def assms(1) split: option.splits)
  moreover have "fixed_group_visible n mc g s \<Longrightarrow> marshal_fields g b s = marshal_fields g b s'" for b
    using Cons.prems by (simp add: marshal_fields_def fun_eq_iff fixed_group_field_count_def visit_fixed_fields_def
        split: option.splits)
  ultimately show ?case
    using Cons by (cases "fixed_group_visible n mc g s") (auto intro!: Option.bind_cong)
qed simp

lemma fixed_contents_cong:
  assumes "fx_base s = fx_base s'"
    "list_all (\<lambda>g. fixed_group_visible n mc g s \<longrightarrow> map_of (fx_fields s) g = map_of (fx_fields s') g) [0..<n]"
  shows "marshal_fixed_contents n mc s wb = marshal_fixed_contents n mc s' wb"
  using marshal_groups_cong [OF assms] by (simp add: marshal_fixed_contents_def)

section \<open>Merging an update that leaves the whitelists out\<close>

lemma merge_whitelist_groups:
  "fx_groups (fst (merge_whitelist old new seq inherit g p)) = (fx_groups (fst p))[g :=
     snd (field_merge [] False (whitelist_at g old) (whitelist_at g new) seq inherit (fx_groups (fst p) ! g))]"
  by (cases p) (simp add: merge_whitelist_def update_whitelist_def split_beta Let_def)

lemma merge_whitelists_nth:
  "k \<le> length (fx_groups s) \<Longrightarrow> fx_groups (fst (fold (merge_whitelist old new seq inherit) [0..<k] (s, oc))) =
    map (\<lambda>g. snd (field_merge [] False (whitelist_at g old) (whitelist_at g new) seq inherit (fx_groups s ! g))) [0..<k]
      @ drop k (fx_groups s)"
proof (induction k)
  case (Suc k)
  have "drop k (fx_groups s) = fx_groups s ! k # drop (Suc k) (fx_groups s)" using Suc.prems by (simp add: Cons_nth_drop_Suc)
  then show ?case using Suc by (simp add: merge_whitelist_groups nth_append list_update_append)
qed simp

lemma merge_client_whitelists_groups:
  assumes "length (fx_groups s) = n"
  shows "fx_groups (fst (merge_client_whitelists n old new seq inherit (s, oc))) =
    map (\<lambda>g. snd (field_merge [] False (whitelist_at g old) (whitelist_at g new) seq inherit (fx_groups s ! g))) [0..<n]"
  using merge_whitelists_nth [of n s old new seq inherit oc] assms
  by (simp add: merge_client_whitelists_def ensure_groups_full)

lemma merge_default_whitelist:
  assumes "fh_equals self = None"
  shows "effective_value [] (snd (field_merge [] False old whitelist_default seq inherit self)) = []"
proof -
  have "seq_is_valid (fh_last_modified whitelist_default)" "\<not> is_default_value whitelist_default"
    "fh_value whitelist_default = Some []"
    by (simp_all add: whitelist_default_def field_some_def field_new_def is_default_value_def seq_is_valid_def raw_value_def
        invalid_sequence_value_def valid_non_sequence_value_def)
  then show ?thesis
    using assms by (auto simp: field_merge_def effective_value_def values_equal_def Let_def)
qed

text \<open>
  C32. A group that was restricted becomes visible to everyone when an update writes no whitelist: a
  whitelist that has not changed since the baseline is not written, the receiver decodes the update into
  a fresh state, whose whitelists are empty and count as written, and the merge takes the empty one over
  the one it holds. It holds for every client, also when both sides held the same whitelist before.
\<close>

theorem omitted_whitelist_broadcasts:
  assumes "whitelist_mask n baseline sender = 0" "g < n"
  shows "\<exists>new rb. unmarshal_client_whitelist_attributes n cap (fixed_state_default n)
        (read_new e (wdata (marshal_client_whitelist_attributes n cap baseline sender (write_new e)))) = (Ok (False, new), rb)
    \<and> fixed_should_send n client g (fst (merge_client_whitelists n old new seq inherit (fixed_state_default n, oc)))"
proof -
  let ?d = "fixed_state_default n"
  have d: "length (fx_groups ?d) = n" "\<And>k. k < n \<Longrightarrow> fx_groups ?d ! k = whitelist_default" by (simp_all add: fixed_state_default_def)
  have "vlq64_unmarshal (read_new e [0]) = (Ok 0, advance 1 (read_new e [0]))"
    using vlq64.unmarshal_enc [where v = 0 and rb = "read_new e [0]" and bs = "[]"] by (simp add: vlq64_bytes_def byte_eq)
  then have "unmarshal_client_whitelist_attributes n cap ?d
      (read_new e (wdata (marshal_client_whitelist_attributes n cap baseline sender (write_new e)))) =
      (Ok (False, ?d), advance 1 (read_new e [0]))"
    using assms(1) by (simp add: marshal_client_whitelist_attributes_def write_u8_def write_new_def
        unmarshal_client_whitelist_attributes_def ensure_groups_full [OF d(1)] Let_def)
  moreover let ?m = "fst (merge_client_whitelists n old ?d seq inherit (?d, oc))"
  have "fx_groups ?m = map (\<lambda>k. snd (field_merge [] False (whitelist_at k old) whitelist_default seq inherit whitelist_default)) [0..<n]"
    using d by (simp add: merge_client_whitelists_groups whitelist_at_def)
  then have "length (fx_groups ?m) = n" "whitelist_of g ?m = []"
    using assms(2) merge_default_whitelist [of whitelist_default] by (simp_all add: whitelist_of_def whitelist_default_def field_some_def field_new_def)
  then have "fixed_should_send n client g ?m" using assms(2) by (simp add: should_send_iff client_set_def)
  ultimately show ?thesis by blast
qed

theorem omitted_whitelist_broadcasts_witness:
  "let s = snd (set_client_whitelist_last_modified 2 1 (Seq 3) (snd (fixed_add_client 2 1 7 1 (fixed_state_default 2))));
       s = snd (set_client_whitelist_last_modified 2 0 (Seq 3) s)
   in \<not> fixed_should_send 2 8 1 s
     \<and> (\<exists>new rb. unmarshal_client_whitelist_attributes 2 1 (fixed_state_default 2)
           (read_new BigEndian (wdata (marshal_client_whitelist_attributes 2 1 (Seq 5) s (write_new BigEndian)))) = (Ok (False, new), rb)
         \<and> fixed_should_send 2 8 1 (fst (merge_client_whitelists 2 s new (Seq 6) False (fixed_state_default 2, merge_outcome_default))))"
proof -
  let ?s = "snd (set_client_whitelist_last_modified 2 1 (Seq 3) (snd (fixed_add_client 2 1 7 1 (fixed_state_default 2))))"
  let ?t = "snd (set_client_whitelist_last_modified 2 0 (Seq 3) ?s)"
  have t: "fx_groups ?t = [(field_some [])\<lparr>fh_last_modified := Seq 3\<rparr>, (field_some [7])\<lparr>fh_last_modified := Seq 3\<rparr>]"
    by (simp add: set_client_whitelist_last_modified_def fixed_add_client_def fixed_state_default_def whitelist_default_def
        ensure_groups_def update_whitelist_def whitelist_of_def field_access_def field_some_def field_new_def effective_value_def
        set_last_modified_def numeral_2_eq_2)
  have "whitelist_mask 2 (Seq 5) ?t = 0"
    using t by (simp add: whitelist_mask_def client_whitelist_last_modified_def hub_less_rank rank_def hub_seq_defs upt_rec)
  moreover have "\<not> fixed_should_send 2 8 1 ?t"
    using t by (simp add: should_send_iff client_set_def whitelist_of_def effective_value_def field_some_def field_new_def)
  ultimately show ?thesis
    unfolding Let_def by (intro conjI omitted_whitelist_broadcasts) simp_all
qed

end
