(* ===== verification/Alc_State.thy ===== *)
theory Alc_State
  imports Fixed_Whitelists
begin

text \<open>
  \<^verbatim>\<open>states/alc.rs\<close>: the action-list state of a character, a fixed fragment with a group every observer sees
  and a group for the player who owns the character. It writes its visits by hand: an order of the portions
  of its fields for each group, and a merge that walks the order of the new state and, for each field, walks
  the order of the destination for the same index. The portions of the struct are named by the path the code
  reaches them with; what they hold is that of a handler.
\<close>

definition alc_groups :: nat where "alc_groups = 2"
definition alc_whitelist_size :: nat where "alc_whitelist_size = 1"
definition owning_player_group :: nat where "owning_player_group = 1"

record 's alc_state =
  alc_base :: fixed_state
  alc_portion :: "string \<Rightarrow> 's handler \<times> 's"

text \<open>The portions of the struct in the order of its declaration.\<close>

definition alc_portions :: "string list" where
  "alc_portions =
     [''state_id.absolute_portion'', ''state_id.relative_portion'', ''time_anchor_microseconds'',
      ''time_offset_milliseconds.absolute_portion'', ''time_offset_milliseconds.relative_portion'', ''flags'',
      ''more_flags'', ''world_pos.absolute_portion'', ''world_pos.quantized_relative_portion'',
      ''world_pos.quantization'', ''look_dir'', ''rotation'', ''ai_angle_to_desired_facing'',
      ''weapon_accuracy_stance'', ''weapon_accuracy_movement'', ''slayer_script_layers'', ''slayer_script_flags'',
      ''slayer_state_id[0]'', ''slayer_state_id[1]'', ''slayer_state_id[2]'', ''slayer_state_id[3]'',
      ''slayer_state_id_started[0]'', ''slayer_state_id_started[1]'', ''slayer_state_id_started[2]'',
      ''slayer_state_id_started[3]'', ''slayer_sequence_id[0]'', ''slayer_sequence_id[1]'',
      ''slayer_sequence_id[2]'', ''slayer_sequence_id[3]'', ''slayer_sequence_time[0].absolute_portion'',
      ''slayer_sequence_time[0].relative_portion'', ''slayer_sequence_time[1].absolute_portion'',
      ''slayer_sequence_time[1].relative_portion'', ''slayer_sequence_time[2].absolute_portion'',
      ''slayer_sequence_time[2].relative_portion'', ''slayer_sequence_time[3].absolute_portion'',
      ''slayer_sequence_time[3].relative_portion'', ''global_frag_tags'', ''teleport_and_migration_id'',
      ''hit_character_counter'', ''hit_structure_counter'', ''hit_world_counter'', ''grit_broken_counter'',
      ''scope_data'', ''segmented_stamina'', ''scope_info_blob'', ''scope_time_blobs[0].data[0]'',
      ''scope_time_blobs[0].data[1]'', ''scope_time_blobs[0].data[2]'', ''scope_time_blobs[0].data[3]'',
      ''scope_time_blobs[1].data[0]'', ''scope_time_blobs[1].data[1]'', ''scope_time_blobs[1].data[2]'',
      ''scope_time_blobs[1].data[3]'', ''scope_time_blob_extra'', ''scopeless_info_blob'', ''scopeless_time_blob'',
      ''combined_extra_network_data'', ''melee_attack_shape_cast_filter'', ''forbidden_bounds'',
      ''current_grid_accessibility'', ''distance_to_ground'', ''water_depth'']"

section \<open>Visits\<close>

definition default_replication_order :: "string list" where
  "default_replication_order =
     [''state_id.relative_portion'', ''time_offset_milliseconds.relative_portion'',
      ''slayer_sequence_time[0].relative_portion'', ''slayer_sequence_time[0].absolute_portion'',
      ''slayer_sequence_time[1].relative_portion'', ''slayer_sequence_time[1].absolute_portion'',
      ''slayer_sequence_time[2].relative_portion'', ''slayer_sequence_time[2].absolute_portion'',
      ''slayer_sequence_time[3].relative_portion'', ''slayer_sequence_time[3].absolute_portion'',
      ''world_pos.quantized_relative_portion'', ''rotation'', ''look_dir'', ''slayer_state_id[0]'',
      ''slayer_state_id_started[0]'', ''slayer_sequence_id[0]'', ''slayer_state_id[1]'',
      ''slayer_state_id_started[1]'', ''slayer_sequence_id[1]'', ''slayer_state_id[2]'',
      ''slayer_state_id_started[2]'', ''slayer_sequence_id[2]'', ''slayer_state_id[3]'',
      ''slayer_state_id_started[3]'', ''slayer_sequence_id[3]'', ''state_id.absolute_portion'',
      ''time_offset_milliseconds.absolute_portion'', ''world_pos.absolute_portion'', ''scope_time_blobs[0].data[0]'',
      ''scope_time_blob_extra'', ''scope_time_blobs[1].data[0]'', ''teleport_and_migration_id'', ''scope_data'',
      ''scope_info_blob'', ''global_frag_tags'', ''ai_angle_to_desired_facing'', ''weapon_accuracy_stance'',
      ''weapon_accuracy_movement'', ''scope_time_blobs[0].data[1]'', ''scope_time_blobs[1].data[1]'',
      ''time_anchor_microseconds'', ''flags'', ''more_flags'', ''combined_extra_network_data'',
      ''segmented_stamina'', ''grit_broken_counter'', ''melee_attack_shape_cast_filter'', ''slayer_script_layers'',
      ''slayer_script_flags'', ''scope_time_blobs[0].data[2]'', ''scope_time_blobs[0].data[3]'',
      ''scope_time_blobs[1].data[2]'', ''scope_time_blobs[1].data[3]'', ''world_pos.quantization'']"

definition owning_player_order :: "string list" where
  "owning_player_order =
     [''distance_to_ground'', ''water_depth'', ''scopeless_info_blob'', ''scopeless_time_blob'',
      ''hit_character_counter'', ''hit_structure_counter'', ''hit_world_counter'', ''forbidden_bounds'',
      ''current_grid_accessibility'']"

definition alc_order :: "nat \<Rightarrow> string list" where
  "alc_order g = (if g = 0 then default_replication_order else if g = 1 then owning_player_order else [])"

definition alc_group_field_count :: "nat \<Rightarrow> nat option" where
  "alc_group_field_count g = (if g = 0 then Some 54 else if g = 1 then Some 9 else None)"

definition alc_visit :: "'s alc_state \<Rightarrow> nat \<Rightarrow> (nat \<times> 's handler \<times> 's) list" where
  "alc_visit a g = enumerate 0 (map (alc_portion a) (alc_order g))"

text \<open>A mutable visit; the visitor carries what it captures.\<close>

fun visit_order_mut ::
    "(nat \<Rightarrow> 's handler \<Rightarrow> 's \<Rightarrow> 'x \<Rightarrow> 's \<times> 'x) \<Rightarrow> nat \<Rightarrow> string list \<Rightarrow> 's alc_state \<Rightarrow> 'x \<Rightarrow> 's alc_state \<times> 'x" where
  "visit_order_mut visit i [] a x = (a, x)"
| "visit_order_mut visit i (p # ps) a x =
     (let (h, f) = alc_portion a p; (f', x') = visit i h f x
      in visit_order_mut visit (i + 1) ps (a\<lparr>alc_portion := (alc_portion a)(p := (h, f'))\<rparr>) x')"

definition alc_visit_mut ::
    "(nat \<Rightarrow> 's handler \<Rightarrow> 's \<Rightarrow> 'x \<Rightarrow> 's \<times> 'x) \<Rightarrow> nat \<Rightarrow> 's alc_state \<Rightarrow> 'x \<Rightarrow> 's alc_state \<times> 'x" where
  "alc_visit_mut visit g = visit_order_mut visit 0 (alc_order g)"

definition collect_fixed_fields :: "'s alc_state \<Rightarrow> nat \<Rightarrow> ('s handler \<times> 's) list" where
  "collect_fixed_fields a g = map snd (alc_visit a g)"

section \<open>Merging\<close>

text \<open>The visitor that merges one field into the outcome.\<close>

definition merge_at ::
    "hub_seq \<Rightarrow> bool \<Rightarrow> nat \<Rightarrow> 's \<Rightarrow> nat \<Rightarrow> 's handler \<Rightarrow> 's \<Rightarrow> 's \<times> merge_outcome \<Rightarrow> 's \<times> 's \<times> merge_outcome" where
  "merge_at seq inherit index old = (\<lambda>merged_index h self (new, oc).
     if merged_index = index
     then let (detected, merged, new') = hb_merge h old new seq inherit self
          in (merged, new', outcome_add detected (hb_last_modified h merged) (hb_has_new_network_data h merged) oc)
     else (self, new, oc))"

definition merge_new_field ::
    "hub_seq \<Rightarrow> bool \<Rightarrow> nat \<Rightarrow> ('s handler \<times> 's) list \<Rightarrow> nat \<Rightarrow> 's handler \<Rightarrow> 's \<Rightarrow> 's alc_state \<times> merge_outcome \<Rightarrow>
     's \<times> 's alc_state \<times> merge_outcome" where
  "merge_new_field seq inherit g old_fields = (\<lambda>index _ new (self, oc).
     if index < length old_fields
     then let (self', new', oc') = alc_visit_mut (merge_at seq inherit index (snd (old_fields ! index))) g self (new, oc)
          in (new', self', oc')
     else (new, self, oc))"

definition alc_merge_group ::
    "hub_seq \<Rightarrow> bool \<Rightarrow> nat \<Rightarrow> 's alc_state \<Rightarrow> 's alc_state \<Rightarrow> 's alc_state \<Rightarrow> merge_outcome \<Rightarrow>
     's alc_state \<times> 's alc_state \<times> merge_outcome" where
  "alc_merge_group seq inherit g old new self oc =
     (let (new', self', oc') = alc_visit_mut (merge_new_field seq inherit g (collect_fixed_fields old g)) g new (self, oc)
      in (self', new', oc'))"

definition alc_merge :: "'s alc_state \<Rightarrow> 's alc_state \<Rightarrow> 's alc_state \<Rightarrow> hub_seq \<Rightarrow> bool \<Rightarrow> 's alc_state \<times> 's alc_state" where
  "alc_merge dflt old new seq inherit =
     (let (self, new', oc) = alc_merge_group seq inherit 0 old new dflt merge_outcome_default;
          (self, new', oc) = alc_merge_group seq inherit 1 old new' self oc;
          (base, oc) = merge_client_whitelists alc_groups (alc_base old) (alc_base new') seq inherit (alc_base self, oc)
      in (self\<lparr>alc_base := fixed_finish_merge seq (fx_correlation_id (alc_base new)) oc base\<rparr>, new'))"

section \<open>Contents, attributes and metadata\<close>

text \<open>The operations of a fixed fragment that the state shares with the generated ones.\<close>

definition alc_fragment :: "'s alc_state \<Rightarrow> 's fixed_fragment" where
  "alc_fragment a = \<lparr>fx_base = alc_base a,
     fx_fields = map (\<lambda>g. (g, map (\<lambda>p. case alc_portion a p of (h, f) \<Rightarrow> Handler h f) (alc_order g))) [0..<alc_groups]\<rparr>"

definition alc_marshal_contents_with :: "marshal_context \<Rightarrow> 's alc_state \<Rightarrow> write_buffer \<Rightarrow> (bool \<times> write_buffer) option" where
  "alc_marshal_contents_with mc a = marshal_fixed_contents alc_groups mc (alc_fragment a)"

definition alc_marshal_attributes :: "marshal_context \<Rightarrow> 's alc_state \<Rightarrow> write_buffer \<Rightarrow> write_buffer" where
  "alc_marshal_attributes mc a =
     marshal_client_whitelist_attributes alc_groups alc_whitelist_size (baseline_seq mc) (alc_base a)"

definition alc_unmarshal_attributes :: "'s alc_state \<Rightarrow> (bool \<times> 's alc_state) reader" where
  "alc_unmarshal_attributes a =
     rmap (\<lambda>(r, b). (r, a\<lparr>alc_base := b\<rparr>)) (unmarshal_client_whitelist_attributes alc_groups alc_whitelist_size (alc_base a))"

definition alc_marshal_metadata :: "'s alc_state \<Rightarrow> write_buffer \<Rightarrow> write_buffer option" where
  "alc_marshal_metadata a wb =
     marshal_field_metadata_sequences
       (concat (map (\<lambda>g. map (\<lambda>(i, h, f). hb_last_modified h f) (alc_visit a g)) [0..<alc_groups])
        @ map (\<lambda>g. client_whitelist_last_modified g (alc_base a)) [0..<alc_groups]) wb"

fun read_order_metadata :: "string list \<Rightarrow> 's alc_state \<Rightarrow> 's alc_state reader" where
  "read_order_metadata [] a = rreturn a"
| "read_order_metadata (p # ps) a = rbind hub_seq_unmarshal (\<lambda>s.
     let (h, f) = alc_portion a p
     in read_order_metadata ps (a\<lparr>alc_portion := (alc_portion a)(p := (h, hb_set_last_modified h s f))\<rparr>))"

fun read_whitelist_metadata :: "nat list \<Rightarrow> 's alc_state \<Rightarrow> 's alc_state reader" where
  "read_whitelist_metadata [] a = rreturn a"
| "read_whitelist_metadata (g # gs) a = rbind hub_seq_unmarshal (\<lambda>s.
     read_whitelist_metadata gs (a\<lparr>alc_base := snd (set_client_whitelist_last_modified alc_groups g s (alc_base a))\<rparr>))"

definition alc_unmarshal_metadata :: "'s alc_state \<Rightarrow> 's alc_state reader" where
  "alc_unmarshal_metadata a =
     rbind (read_order_metadata (concat (map alc_order [0..<alc_groups])) a) (read_whitelist_metadata [0..<alc_groups])"

section \<open>The owning player\<close>

definition set_owning_player :: "u64 \<Rightarrow> 's alc_state \<Rightarrow> 's alc_state" where
  "set_owning_player client a =
     a\<lparr>alc_base := snd (fixed_add_client alc_groups alc_whitelist_size client owning_player_group
         (snd (fixed_clear_whitelist alc_groups owning_player_group (alc_base a))))\<rparr>"

section \<open>Every portion is visited once\<close>

lemma alc_order_lengths: "length default_replication_order = 54" "length owning_player_order = 9" "length alc_portions = 63"
  by (simp_all add: default_replication_order_def owning_player_order_def alc_portions_def)

lemma alc_orders_distinct: "distinct (default_replication_order @ owning_player_order)"
  by (simp add: default_replication_order_def owning_player_order_def)

lemma alc_orders_complete: "set (default_replication_order @ owning_player_order) = set alc_portions"
proof (rule card_subset_eq)
  show "set (default_replication_order @ owning_player_order) \<subseteq> set alc_portions"
    by (simp add: default_replication_order_def owning_player_order_def alc_portions_def)
  then have "card (set (default_replication_order @ owning_player_order)) \<le> card (set alc_portions)" by (simp add: card_mono)
  moreover have "card (set (default_replication_order @ owning_player_order)) = 63"
    using distinct_card [OF alc_orders_distinct] alc_order_lengths by simp
  moreover have "card (set alc_portions) \<le> 63" using card_length [of alc_portions] alc_order_lengths by simp
  ultimately show "card (set (default_replication_order @ owning_player_order)) = card (set alc_portions)" by simp
qed simp

lemma alc_order_distinct: "distinct (alc_order g)"
  using alc_orders_distinct by (simp add: alc_order_def)

section \<open>The merge takes every field once\<close>

definition store_portions :: "string list \<Rightarrow> ('s handler \<times> 's) list \<Rightarrow> 's alc_state \<Rightarrow> 's alc_state" where
  "store_portions ps vs a = fold (\<lambda>(p, v) a. a\<lparr>alc_portion := (alc_portion a)(p := v)\<rparr>) (zip ps vs) a"

lemma store_portions_simps [simp]:
  "store_portions [] vs a = a"
  "store_portions (p # ps) (v # vs) a = store_portions ps vs (a\<lparr>alc_portion := (alc_portion a)(p := v)\<rparr>)"
  by (simp_all add: store_portions_def)

text \<open>The inner walk only changes the field at its index.\<close>

lemma portion_triv: "alc_portion a p = v \<Longrightarrow> a\<lparr>alc_portion := (alc_portion a)(p := v)\<rparr> = a"
  by (simp add: fun_upd_idem)

lemma merge_at_simps [simp]:
  "mi \<noteq> index \<Longrightarrow> merge_at seq inherit index old mi h self x = (self, x)"
  "hb_merge h old new seq inherit self = (detected, merged, new') \<Longrightarrow> merge_at seq inherit index old index h self (new, oc) =
     (merged, new', outcome_add detected (hb_last_modified h merged) (hb_has_new_network_data h merged) oc)"
  by (simp_all add: merge_at_def split_beta)

lemma visit_other_index:
  "index < j \<Longrightarrow> visit_order_mut (merge_at seq inherit index old) j ps self x = (self, x)"
  by (induction ps arbitrary: j) (simp_all add: split_beta)

lemma visit_at_index:
  assumes "j \<le> index" "index < j + length ps"
  shows "visit_order_mut (merge_at seq inherit index old) j ps self (new, oc) =
    (let p = ps ! (index - j); (h, f) = alc_portion self p; (detected, merged, new') = hb_merge h old new seq inherit f
     in (self\<lparr>alc_portion := (alc_portion self)(p := (h, merged))\<rparr>, new',
         outcome_add detected (hb_last_modified h merged) (hb_has_new_network_data h merged) oc))"
  using assms
proof (induction ps arbitrary: j)
  case (Cons p ps)
  show ?case
  proof (cases "j = index")
    case True
    obtain h f where p: "alc_portion self p = (h, f)" by (cases "alc_portion self p")
    obtain d m n where "hb_merge h old new seq inherit f = (d, m, n)" by (metis prod_cases3)
    then show ?thesis by (simp add: True p visit_other_index fun_upd_def)
  next
    case False
    then have "Suc j \<le> index" "index < Suc j + length ps" "index - j = Suc (index - Suc j)" using Cons.prems by auto
    with Cons.IH [of "Suc j"] False show ?thesis by (cases "alc_portion self p") (simp add: portion_triv)
  qed
qed simp

lemma merge_rest:
  assumes "alc_order g = pre @ ps" "length pre = j"
    "list_all (\<lambda>p. fst (alc_portion new p) = fst (alc_portion old p) \<and> fst (alc_portion self p) = fst (alc_portion old p)) ps"
    "merge_fields seq inherit (map (alc_portion old) ps) (map (alc_portion new) ps) (map (alc_portion self) ps) oc = (ms, ns, oc')"
  shows "visit_order_mut (merge_new_field seq inherit g (map (alc_portion old) (pre @ ps))) j ps new (self, oc) =
    (store_portions ps ns new, store_portions ps ms self, oc')"
  using assms
proof (induction ps arbitrary: pre j new self oc ms ns)
  case (Cons p ps)
  obtain h fo where o: "alc_portion old p = (h, fo)" by (cases "alc_portion old p")
  obtain fn fs where nf: "alc_portion new p = (h, fn)" "alc_portion self p = (h, fs)"
    using Cons.prems(3) o by (cases "alc_portion new p"; cases "alc_portion self p") auto
  obtain d m n where hm: "hb_merge h fo fn seq inherit fs = (d, m, n)" by (metis prod_cases3)
  let ?oc = "outcome_add d (hb_last_modified h m) (hb_has_new_network_data h m) oc"
  let ?self = "self\<lparr>alc_portion := (alc_portion self)(p := (h, m))\<rparr>" and ?new = "new\<lparr>alc_portion := (alc_portion new)(p := (h, n))\<rparr>"
  have p: "p \<notin> set ps" using alc_order_distinct [of g] Cons.prems(1) by simp
  then have same: "map (alc_portion ?new) ps = map (alc_portion new) ps" "map (alc_portion ?self) ps = map (alc_portion self) ps"
    by auto
  obtain ms' ns' where mf: "merge_fields seq inherit (map (alc_portion old) ps) (map (alc_portion new) ps)
      (map (alc_portion self) ps) ?oc = (ms', ns', oc')" and mn: "ms = (h, m) # ms'" "ns = (h, n) # ns'"
    using Cons.prems(4) by (auto simp: o nf hm split: prod.splits)
  have "merge_new_field seq inherit g (map (alc_portion old) (pre @ p # ps)) j h fn (self, oc) = (n, ?self, ?oc)"
    using Cons.prems(1,2) visit_at_index [of 0 j "alc_order g" seq inherit fo self fn oc]
    by (simp add: merge_new_field_def alc_visit_mut_def nth_append o nf(2) hm)
  moreover have "visit_order_mut (merge_new_field seq inherit g (map (alc_portion old) ((pre @ [p]) @ ps))) (Suc j) ps ?new (?self, ?oc) =
      (store_portions ps ns' ?new, store_portions ps ms' ?self, oc')"
  proof (rule Cons.IH)
    show "list_all (\<lambda>p. fst (alc_portion ?new p) = fst (alc_portion old p) \<and> fst (alc_portion ?self p) = fst (alc_portion old p)) ps"
      using Cons.prems(3) p by (auto simp: list_all_iff)
    show "merge_fields seq inherit (map (alc_portion old) ps) (map (alc_portion ?new) ps) (map (alc_portion ?self) ps) ?oc = (ms', ns', oc')"
      unfolding same by (rule mf)
  qed (use Cons.prems(1,2) in simp_all)
  ultimately show ?case by (simp add: nf(1) mn)
qed simp

text \<open>The state in which every portion has the handler of another.\<close>

definition same_handlers :: "'s alc_state \<Rightarrow> 's alc_state \<Rightarrow> bool" where
  "same_handlers a b \<longleftrightarrow> list_all (\<lambda>p. fst (alc_portion a p) = fst (alc_portion b p)) alc_portions"

lemma alc_order_portions: "set (alc_order g) \<subseteq> set alc_portions"
  unfolding alc_orders_complete [symmetric] by (auto simp: alc_order_def)

text \<open>
  C33. The hand-written merge of the action-list state is the merge of a generated state: its two nested
  walks over a group merge every field of the group exactly once, with the old and the new value at the
  same index, in order, and with the same outcome.
\<close>

theorem alc_merge_is_field_merge:
  assumes "same_handlers new old" "same_handlers self old"
  shows "alc_merge_group seq inherit g old new self oc =
    (let (ms, ns, oc') = merge_fields seq inherit (map (alc_portion old) (alc_order g)) (map (alc_portion new) (alc_order g))
           (map (alc_portion self) (alc_order g)) oc
     in (store_portions (alc_order g) ms self, store_portions (alc_order g) ns new, oc'))"
proof -
  obtain ms ns oc' where m: "merge_fields seq inherit (map (alc_portion old) (alc_order g)) (map (alc_portion new) (alc_order g))
      (map (alc_portion self) (alc_order g)) oc = (ms, ns, oc')" by (metis prod_cases3)
  have "list_all (\<lambda>p. fst (alc_portion new p) = fst (alc_portion old p) \<and> fst (alc_portion self p) = fst (alc_portion old p)) (alc_order g)"
    using assms alc_order_portions [of g] by (auto simp: same_handlers_def list_all_iff)
  from merge_rest [of g "[]" "alc_order g" 0, OF _ _ this m] show ?thesis
    by (simp add: alc_merge_group_def alc_visit_mut_def collect_fixed_fields_def alc_visit_def m)
qed

definition byte_alc :: "(string \<Rightarrow> u8 field_handler) \<Rightarrow> u8 field_handler alc_state" where
  "byte_alc f = \<lparr>alc_base = fixed_state_default alc_groups, alc_portion = (\<lambda>p. (field_base u8_codec 0, f p))\<rparr>"

theorem alc_merge_is_field_merge_witness:
  "let old = byte_alc (\<lambda>_. field_some 1); new = byte_alc (\<lambda>p. if p = ''flags'' then field_some 2 else field_default);
       self = byte_alc (\<lambda>_. field_default)
   in alc_merge_group (Seq 5) False 1 old new self merge_outcome_default =
        (let (ms, ns, oc') = merge_fields (Seq 5) False (map (alc_portion old) (alc_order 1)) (map (alc_portion new) (alc_order 1))
               (map (alc_portion self) (alc_order 1)) merge_outcome_default
         in (store_portions (alc_order 1) ms self, store_portions (alc_order 1) ns new, oc'))"
  unfolding Let_def by (rule alc_merge_is_field_merge [unfolded Let_def]) (simp_all add: same_handlers_def byte_alc_def list_all_iff)

section \<open>Only the owner sees the owner's group\<close>

lemma set_owning_player_sets:
  assumes "whitelists_valid alc_groups alc_whitelist_size (alc_base a)"
  shows "client_set owning_player_group (alc_base (set_owning_player c a)) = {c}"
    "length (fx_groups (alc_base (set_owning_player c a))) = alc_groups"
proof -
  have g: "owning_player_group < alc_groups" "0 < alc_whitelist_size" by (simp_all add: owning_player_group_def alc_groups_def alc_whitelist_size_def)
  let ?s = "snd (fixed_clear_whitelist alc_groups owning_player_group (alc_base a))"
  note clear = clear_client_sets [OF assms g(1)]
  note add = add_client_sets [OF clear(3) g, of c]
  have cs: "k < length (fx_groups s) \<Longrightarrow> client_sets s ! k = client_set k s" for k s
    by (simp add: client_sets_def client_set_def whitelist_of_def)
  have lcs: "length (client_sets s) = length (fx_groups s)" for s by (simp add: client_sets_def)
  have len: "length (fx_groups (alc_base a)) = alc_groups" by (rule whitelist_facts(1) [OF assms g(1)])
  have len1: "length (fx_groups ?s) = alc_groups" by (rule whitelist_facts(1) [OF clear(3) g(1)])
  have empty: "client_set owning_player_group ?s = {}"
    using cs [of owning_player_group ?s] g(1) len len1 by (simp add: clear(2) lcs)
  let ?t = "snd (fixed_add_client alc_groups alc_whitelist_size c owning_player_group ?s)"
  show len2: "length (fx_groups (alc_base (set_owning_player c a))) = alc_groups"
    using whitelist_facts(1) [OF add(3) g(1)] by (simp add: set_owning_player_def)
  have "client_sets ?t = (client_sets ?s)[owning_player_group := {c}]" using add(2) empty g(2) by simp
  moreover have "length (fx_groups ?t) = alc_groups" by (rule whitelist_facts(1) [OF add(3) g(1)])
  ultimately have "client_set owning_player_group ?t = {c}"
    using cs [of owning_player_group ?t] g(1) len1 by (simp add: lcs)
  then show "client_set owning_player_group (alc_base (set_owning_player c a)) = {c}" by (simp add: set_owning_player_def)
qed

text \<open>
  C34. After an owner is set, what any other client is sent does not depend on the owner's group: the
  contents written for it are the same for two states that differ only there, and the owner may see the
  group, whoever owned the character before.
\<close>

theorem alc_owner_data_private:
  assumes "whitelists_valid alc_groups alc_whitelist_size (alc_base a)" "alc_base b = alc_base a"
    "map (alc_portion b) default_replication_order = map (alc_portion a) default_replication_order"
    "filter_target mc = Some client" "client \<noteq> owner"
  shows "alc_marshal_contents_with mc (set_owning_player owner b) wb = alc_marshal_contents_with mc (set_owning_player owner a) wb
    \<and> fixed_should_send alc_groups owner owning_player_group (alc_base (set_owning_player owner a))
    \<and> \<not> fixed_should_send alc_groups client owning_player_group (alc_base (set_owning_player owner a))"
proof -
  let ?a = "set_owning_player owner a" and ?b = "set_owning_player owner b"
  have g: "owning_player_group < alc_groups" by (simp add: owning_player_group_def alc_groups_def)
  note sets = set_owning_player_sets [OF assms(1), of owner]
  have send: "fixed_should_send alc_groups c owning_player_group (alc_base ?a) \<longleftrightarrow> c = owner" for c
    using should_send_iff [OF g sets(2)] sets(1) by auto
  have base: "fx_base (alc_fragment ?a) = fx_base (alc_fragment ?b)" "fx_base (alc_fragment ?a) = alc_base ?a"
    using assms(2) by (simp_all add: alc_fragment_def set_owning_player_def)
  have "map_of (fx_fields (alc_fragment ?a)) 0 = map_of (fx_fields (alc_fragment ?b)) 0"
    using assms(3) by (simp add: alc_fragment_def alc_groups_def numeral_2_eq_2 alc_order_def set_owning_player_def)
  moreover have "\<not> fixed_group_visible alc_groups mc 1 (alc_fragment ?a)"
    using send [of client] assms(4,5) by (simp add: fixed_group_visible_def base(2) owning_player_group_def)
  ultimately have "marshal_fixed_contents alc_groups mc (alc_fragment ?a) wb = marshal_fixed_contents alc_groups mc (alc_fragment ?b) wb"
    by (intro fixed_contents_cong [OF base(1)]) (simp add: alc_groups_def numeral_2_eq_2)
  then show ?thesis using send [of owner] send [of client] assms(5) by (simp add: alc_marshal_contents_with_def)
qed

theorem alc_owner_data_private_witness:
  "let mc = marshal_context_default\<lparr>filter_target := Some 8\<rparr>;
       a = set_owning_player 5 (byte_alc (\<lambda>_. field_some 1));
       b = a\<lparr>alc_portion := (alc_portion a)(''water_depth'' := (field_base u8_codec 0, field_some 9))\<rparr>
   in alc_marshal_contents_with mc (set_owning_player 7 b) (write_new BigEndian) = alc_marshal_contents_with mc (set_owning_player 7 a) (write_new BigEndian)
     \<and> fixed_should_send alc_groups 7 owning_player_group (alc_base (set_owning_player 7 a))
     \<and> \<not> fixed_should_send alc_groups 8 owning_player_group (alc_base (set_owning_player 7 a))"
  unfolding Let_def
proof (rule alc_owner_data_private)
  show "whitelists_valid alc_groups alc_whitelist_size (alc_base (set_owning_player 5 (byte_alc (\<lambda>_. field_some 1))))"
    by code_simp
qed (simp_all add: default_replication_order_def marshal_context_default_def)

end
