(* ===== verification/Grid_Session.thy ===== *)
theory Grid_Session
  imports Carrier_Driver
begin

text \<open>
  \<^verbatim>\<open>carrier/carrier_desc.rs\<close>, \<^verbatim>\<open>carrier/carrier_impl.rs\<close> and \<^verbatim>\<open>session.rs\<close>: the handle an owner
  keeps of a carrier task, and the session around it.

  A bounded channel of the \<^verbatim>\<open>async_channel\<close> crate is a queue with a capacity and the fact whether its
  receiver still exists. An operation that waits for room has the result \<open>None\<close>: with the receiver
  as it is, the caller does not continue. The type parameters of carrier and session that say in
  which state they are carry no data; the conversions between those states are functions here.
\<close>

section \<open>Bounded channels\<close>

record 'a channel =
  ch_items :: "'a list"
  ch_cap :: nat
  ch_open :: bool

datatype try_send_error = Full | Closed

definition bounded :: "nat \<Rightarrow> 'a channel" where
  "bounded n = \<lparr>ch_items = [], ch_cap = n, ch_open = True\<rparr>"

definition chan_send :: "'a \<Rightarrow> 'a channel \<Rightarrow> (bool \<times> 'a channel) option" where
  "chan_send x c =
     (if \<not> ch_open c then Some (False, c)
      else if length (ch_items c) < ch_cap c then Some (True, c\<lparr>ch_items := ch_items c @ [x]\<rparr>)
      else None)"

definition chan_try_send :: "'a \<Rightarrow> 'a channel \<Rightarrow> (try_send_error + unit) \<times> 'a channel" where
  "chan_try_send x c =
     (if \<not> ch_open c then (Err Closed, c)
      else if length (ch_items c) < ch_cap c then (Ok (), c\<lparr>ch_items := ch_items c @ [x]\<rparr>)
      else (Err Full, c))"

section \<open>CarrierDesc\<close>

record carrier_profile =
  pp_version :: u32
  pp_send_compressed :: bool

definition lumberyard_default :: carrier_profile where
  "lumberyard_default = \<lparr>pp_version = 1, pp_send_compressed = False\<rparr>"

record carrier_desc =
  server_address :: string
  ssl_keylog_path :: "string option"
  ca_cert :: "string option"
  connection_timeout_ms :: u32
  thread_update_time_ms :: u32
  connection_retry_interval_base :: u64
  connection_retry_interval_max :: u64
  clock_sync_interval :: u32
  desc_version :: u32
  desc_send_compressed :: bool

definition desc_default :: carrier_desc where
  "desc_default = \<lparr>server_address = [], ssl_keylog_path = None, ca_cert = None,
     connection_timeout_ms = 5000, thread_update_time_ms = 10, connection_retry_interval_base = 10,
     connection_retry_interval_max = 1000, clock_sync_interval = 0,
     desc_version = pp_version lumberyard_default,
     desc_send_compressed = pp_send_compressed lumberyard_default\<rparr>"

definition desc_new :: "string \<Rightarrow> carrier_desc" where
  "desc_new addr = desc_default\<lparr>server_address := addr\<rparr>"

definition with_ssl_keylog :: "string \<Rightarrow> carrier_desc \<Rightarrow> carrier_desc" where
  "with_ssl_keylog path d = d\<lparr>ssl_keylog_path := Some path\<rparr>"

definition with_ca_cert :: "string \<Rightarrow> carrier_desc \<Rightarrow> carrier_desc" where
  "with_ca_cert cert d = d\<lparr>ca_cert := Some cert\<rparr>"

definition with_timeout :: "u32 \<Rightarrow> carrier_desc \<Rightarrow> carrier_desc" where
  "with_timeout ms d = d\<lparr>connection_timeout_ms := ms\<rparr>"

definition with_protocol_profile :: "carrier_profile \<Rightarrow> carrier_desc \<Rightarrow> carrier_desc" where
  "with_protocol_profile p d = d\<lparr>desc_version := pp_version p, desc_send_compressed := pp_send_compressed p\<rparr>"

definition protocol_profile :: "carrier_desc \<Rightarrow> carrier_profile" where
  "protocol_profile d = \<lparr>pp_version = desc_version d, pp_send_compressed = desc_send_compressed d\<rparr>"

section \<open>The handle of a carrier\<close>

text \<open>The errors of the crate that this layer makes, with the data their text is formatted from.\<close>

datatype gridmate_error =
    DriverFailed
  | InvalidState string
  | PathRefused string u32
  | ConnectionClosed
  | CarrierLost disconnect_reason
  | CarrierError carrier_error
  | ChannelError string

definition cmd_capacity :: nat where "cmd_capacity = 256"
definition event_capacity :: nat where "event_capacity = 512"

record carrier_handle =
  to_carrier :: "carrier_command channel"
  from_carrier :: "carrier_event list option"
  stop_flag :: bool

text \<open>
  \<open>start_with\<close>. The receiver is the list of the events it will give until it is closed; it belongs
  to the handle until a consumer takes it.
\<close>

definition start_with :: "carrier_event list \<Rightarrow> carrier_handle" where
  "start_with evs =
     \<lparr>to_carrier = bounded cmd_capacity, from_carrier = Some evs, stop_flag = False\<rparr>"

definition take_event_receiver :: "carrier_handle \<Rightarrow> carrier_event list option \<times> carrier_handle" where
  "take_event_receiver h = (from_carrier h, h\<lparr>from_carrier := None\<rparr>)"

definition carrier_shutdown :: "carrier_handle \<Rightarrow> carrier_handle" where
  "carrier_shutdown h = h\<lparr>stop_flag := True\<rparr>"

definition send_command :: "message_data \<Rightarrow> nat \<Rightarrow> carrier_handle \<Rightarrow> ((gridmate_error + unit) \<times> carrier_handle) option" where
  "send_command m priority h =
     map_option (\<lambda>(ok, c). (if ok then Ok () else Err (ChannelError ''Send failed''), h\<lparr>to_carrier := c\<rparr>))
       (chan_send (SendMessage m priority) (to_carrier h))"

definition carrier_send ::
    "bytes \<Rightarrow> data_reliability \<Rightarrow> nat \<Rightarrow> u8 \<Rightarrow> carrier_handle \<Rightarrow> ((gridmate_error + unit) \<times> carrier_handle) option" where
  "carrier_send data rel priority ch h =
     send_command (message_new\<lparr>channel := ch, reliability := rel, mdata := data\<rparr>) priority h"

text \<open>\<open>ready\<close>: wait for the event that says how the handshake ended.\<close>

fun ready_loop :: "carrier_event list \<Rightarrow> carrier_handle \<Rightarrow> gridmate_error + carrier_handle" where
  "ready_loop [] h = Err ConnectionClosed"
| "ready_loop (Connected version # rx) h = Ok (h\<lparr>from_carrier := Some rx\<rparr>)"
| "ready_loop (Disconnected reason # rx) h = Err (CarrierLost reason)"
| "ready_loop (CarrierFailed e # rx) h = Err (CarrierError e)"
| "ready_loop (MessageReceived ch data # rx) h = ready_loop rx h"

definition ready :: "carrier_handle \<Rightarrow> gridmate_error + carrier_handle" where
  "ready h = (case take_event_receiver h of
     (None, h') \<Rightarrow> Err ConnectionClosed
   | (Some rx, h') \<Rightarrow> ready_loop rx h')"

definition carrier_disconnect :: "disconnect_reason \<Rightarrow> carrier_handle \<Rightarrow> (gridmate_error + carrier_handle) option" where
  "carrier_disconnect reason h =
     map_option (\<lambda>(_, c). Ok (h\<lparr>to_carrier := c\<rparr>)) (chan_send (Disconnect reason) (to_carrier h))"

definition recv_message :: "carrier_handle \<Rightarrow> carrier_event option \<times> carrier_handle" where
  "recv_message h = (case from_carrier h of
     None \<Rightarrow> (None, h)
   | Some [] \<Rightarrow> (None, h)
   | Some (ev # rx) \<Rightarrow> (Some ev, h\<lparr>from_carrier := Some rx\<rparr>))"

text \<open>\<open>Drop\<close>: what the dropped handle leaves for the carrier task.\<close>

definition carrier_drop :: "carrier_handle \<Rightarrow> carrier_handle" where
  "carrier_drop h =
     h\<lparr>to_carrier := snd (chan_try_send (Disconnect ShuttingDown) (to_carrier h)), stop_flag := True\<rparr>"

section \<open>Channels of a carrier\<close>

datatype carrier_channel = GameData | StateBundleChannel | Application2 | SystemChannel

definition channel_id :: "carrier_channel \<Rightarrow> u8" where
  "channel_id c = (case c of GameData \<Rightarrow> 0 | StateBundleChannel \<Rightarrow> 1 | Application2 \<Rightarrow> 2
     | SystemChannel \<Rightarrow> system_channel)"

definition channel_from_u8 :: "u8 \<Rightarrow> carrier_channel option" where
  "channel_from_u8 v =
     (if v = 0 then Some GameData else if v = 1 then Some StateBundleChannel
      else if v = 2 then Some Application2 else if v = system_channel then Some SystemChannel else None)"

definition is_application :: "carrier_channel \<Rightarrow> bool" where
  "is_application c \<longleftrightarrow> c \<noteq> SystemChannel"

definition carries_hub_messages :: "carrier_channel \<Rightarrow> bool" where
  "carries_hub_messages c \<longleftrightarrow> c = GameData \<or> c = StateBundleChannel"

definition carries_state_bundles :: "carrier_channel \<Rightarrow> bool" where
  "carries_state_bundles c \<longleftrightarrow> c = StateBundleChannel"

lemma channel_from_id [simp]: "channel_from_u8 (channel_id c) = Some c"
  by (cases c) (simp_all add: channel_from_u8_def channel_id_def system_channel_def)

lemma channel_id_from: "channel_from_u8 v = Some c \<longleftrightarrow> v = channel_id c"
  by (auto simp: channel_from_u8_def channel_id_def system_channel_def split: if_splits carrier_channel.splits)

section \<open>Sessions\<close>

datatype session_result = SessionOk | SessionError
datatype session_topology = PeerToPeer | ClientServer
datatype session_state = SessionIdle | SessionConnecting | SessionConnected | InSession

record session_param =
  param_id :: string
  param_value :: string

record grid_member =
  member_id :: u32
  connection_id :: u32
  is_host :: bool

record grid_session =
  gs_state :: session_state
  session_id :: string
  carrier :: "carrier_handle option"
  gs_carrier_desc :: carrier_desc
  my_member :: "grid_member option"
  members :: "grid_member list"
  params :: "session_param list"
  host_migration_in_process :: bool
  topology :: session_topology
  num_used_public_slots :: u8
  num_used_private_slots :: u8
  num_free_public_slots :: u8
  num_free_private_slots :: u8

text \<open>
  \<open>join\<close>: \<open>connect\<close> is what establishing the DTLS connection gives, the events of the carrier or
  an error of the driver.
\<close>

definition session_join :: "(carrier_desc \<Rightarrow> (unit + carrier_event list)) \<Rightarrow> carrier_desc \<Rightarrow> gridmate_error + grid_session" where
  "session_join connect desc = (case connect desc of
     Inl _ \<Rightarrow> Err DriverFailed
   | Inr evs \<Rightarrow> Ok \<lparr>gs_state = SessionConnecting, session_id = [], carrier = Some (start_with evs),
       gs_carrier_desc = desc, my_member = None, members = [], params = [],
       host_migration_in_process = False, topology = ClientServer, num_used_public_slots = 0,
       num_used_private_slots = 0, num_free_public_slots = 0, num_free_private_slots = 0\<rparr>)"

definition has_carrier :: "grid_session \<Rightarrow> bool" where
  "has_carrier s \<longleftrightarrow> carrier s \<noteq> None"

definition wait_until_connected :: "grid_session \<Rightarrow> gridmate_error + grid_session" where
  "wait_until_connected s = (case carrier s of
     None \<Rightarrow> Err (InvalidState ''No carrier to connect'')
   | Some h \<Rightarrow> (case ready h of
       Inl e \<Rightarrow> Err e
     | Inr h' \<Rightarrow> Ok (s\<lparr>gs_state := SessionConnected, carrier := Some h'\<rparr>)))"

definition transition_to_in_session :: "grid_session \<Rightarrow> grid_session" where
  "transition_to_in_session s = s\<lparr>gs_state := InSession\<rparr>"

text \<open>
  \<open>leave\<close>: the disconnecting carrier is dropped where it is bound, so it is returned beside the
  session as its drop leaves it.
\<close>

definition leave :: "grid_session \<Rightarrow> (gridmate_error + grid_session \<times> carrier_handle option) option" where
  "leave s = (case carrier s of
     None \<Rightarrow> Some (Ok (s\<lparr>gs_state := SessionIdle\<rparr>, None))
   | Some h \<Rightarrow> map_option (\<lambda>r. case r of
         Inl e \<Rightarrow> Err e
       | Inr h' \<Rightarrow> Ok (s\<lparr>gs_state := SessionIdle, carrier := None\<rparr>, Some (carrier_drop h')))
       (carrier_disconnect UserRequested h))"

definition session_send ::
    "u8 \<Rightarrow> bytes \<Rightarrow> data_reliability \<Rightarrow> nat \<Rightarrow> grid_session \<Rightarrow> ((gridmate_error + unit) \<times> grid_session) option" where
  "session_send ch data rel priority s = (case carrier s of
     None \<Rightarrow> Some (Err (InvalidState ''Carrier not initialized''), s)
   | Some h \<Rightarrow> map_option (\<lambda>(r, h'). (r, s\<lparr>carrier := Some h'\<rparr>)) (carrier_send data rel priority ch h))"

definition session_drop :: "grid_session \<Rightarrow> grid_session" where
  "session_drop s = s\<lparr>carrier := map_option carrier_drop (carrier s)\<rparr>"

definition member_by_index :: "nat \<Rightarrow> grid_session \<Rightarrow> grid_member option" where
  "member_by_index i s = (if i < length (members s) then Some (members s ! i) else None)"

definition member_by_id :: "u32 \<Rightarrow> grid_session \<Rightarrow> grid_member option" where
  "member_by_id mid s = find (\<lambda>m. member_id m = mid) (members s)"

definition host :: "grid_session \<Rightarrow> grid_member option" where
  "host s = find is_host (members s)"

definition kick_member :: "u32 \<Rightarrow> u8 \<Rightarrow> grid_session \<Rightarrow> session_result \<times> grid_session" where
  "kick_member mid reason s = (SessionError, s)"

definition ban_member :: "u32 \<Rightarrow> u8 \<Rightarrow> grid_session \<Rightarrow> session_result \<times> grid_session" where
  "ban_member mid reason s = (SessionError, s)"

definition lock_session :: "grid_session \<Rightarrow> session_result \<times> grid_session" where
  "lock_session s = (SessionError, s)"

definition unlock_session :: "grid_session \<Rightarrow> session_result \<times> grid_session" where
  "unlock_session s = (SessionError, s)"

section \<open>Session parameters\<close>

definition get_num_params :: "grid_session \<Rightarrow> nat" where
  "get_num_params s = length (params s)"

definition get_param :: "nat \<Rightarrow> grid_session \<Rightarrow> session_param option" where
  "get_param i s = (if i < length (params s) then Some (params s ! i) else None)"

fun replace_param :: "session_param \<Rightarrow> session_param list \<Rightarrow> session_param list option" where
  "replace_param p [] = None"
| "replace_param p (q # qs) =
     (if param_id q = param_id p then Some (p # qs) else map_option ((#) q) (replace_param p qs))"

definition set_param :: "session_param \<Rightarrow> grid_session \<Rightarrow> bool \<times> grid_session" where
  "set_param p s =
     (True, s\<lparr>params := (case replace_param p (params s) of Some ps \<Rightarrow> ps | None \<Rightarrow> params s @ [p])\<rparr>)"

fun param_position :: "string \<Rightarrow> session_param list \<Rightarrow> nat option" where
  "param_position pid [] = None"
| "param_position pid (q # qs) = (if param_id q = pid then Some 0 else map_option Suc (param_position pid qs))"

definition remove_at :: "nat \<Rightarrow> 'a list \<Rightarrow> 'a list" where
  "remove_at i xs = take i xs @ drop (Suc i) xs"

definition remove_param_by_id :: "string \<Rightarrow> grid_session \<Rightarrow> bool \<times> grid_session" where
  "remove_param_by_id pid s = (case param_position pid (params s) of
     Some i \<Rightarrow> (True, s\<lparr>params := remove_at i (params s)\<rparr>)
   | None \<Rightarrow> (False, s))"

definition remove_param_by_index :: "nat \<Rightarrow> grid_session \<Rightarrow> bool \<times> grid_session" where
  "remove_param_by_index i s =
     (if i < length (params s) then (True, s\<lparr>params := remove_at i (params s)\<rparr>) else (False, s))"

section \<open>The parameters are a map\<close>

definition param_view :: "session_param list \<Rightarrow> string \<rightharpoonup> string" where
  "param_view ps = map_of (map (\<lambda>p. (param_id p, param_value p)) ps)"

definition params_ok :: "session_param list \<Rightarrow> bool" where
  "params_ok ps \<longleftrightarrow> distinct (map param_id ps)"

lemma param_view_simps [simp]:
  "param_view [] = Map.empty"
  "param_view (q # qs) = (param_view qs)(param_id q \<mapsto> param_value q)"
  by (simp_all add: param_view_def)

lemma param_view_dom: "dom (param_view ps) = param_id ` set ps"
  by (simp add: param_view_def dom_map_of_conv_image_fst image_image)

lemma replace_param_None: "replace_param p ps = None \<longleftrightarrow> param_id p \<notin> param_id ` set ps"
  by (induction ps) auto

lemma replace_param_Some:
  "replace_param p ps = Some qs \<Longrightarrow> params_ok ps \<Longrightarrow>
    map param_id qs = map param_id ps \<and> param_view qs = (param_view ps)(param_id p \<mapsto> param_value p)"
  by (induction ps arbitrary: qs)
    (auto simp: params_ok_def fun_upd_twist split: if_splits)

lemma param_view_append:
  "param_id p \<notin> param_id ` set ps \<Longrightarrow> param_view (ps @ [p]) = (param_view ps)(param_id p \<mapsto> param_value p)"
  by (induction ps) (auto simp: fun_upd_twist)

lemma set_param_view:
  assumes "params_ok (params s)"
  shows "params_ok (params (snd (set_param p s)))
    \<and> param_view (params (snd (set_param p s))) = (param_view (params s))(param_id p \<mapsto> param_value p)"
proof (cases "replace_param p (params s)")
  case None
  then have "param_id p \<notin> param_id ` set (params s)"
    by (rule iffD1 [OF replace_param_None])
  moreover from this assms have "params_ok (params s @ [p])"
    unfolding params_ok_def by simp
  ultimately show ?thesis
    by (simp add: set_param_def None param_view_append)
next
  case (Some qs)
  with replace_param_Some [OF Some assms] assms show ?thesis
    by (simp add: set_param_def params_ok_def)
qed

lemma param_position_remove:
  "params_ok ps \<Longrightarrow> (case param_position pid ps of
      None \<Rightarrow> pid \<notin> dom (param_view ps)
    | Some i \<Rightarrow> pid \<in> dom (param_view ps) \<and> params_ok (remove_at i ps)
        \<and> set (remove_at i ps) \<subseteq> set ps \<and> param_view (remove_at i ps) = (param_view ps)(pid := None))"
proof (induction ps)
  case (Cons q qs)
  have "param_view qs pid = None" if "param_id q = pid"
    using Cons.prems that param_view_dom [of qs] by (auto simp: params_ok_def domIff)
  with Cons show ?case
    by (auto simp: params_ok_def remove_at_def fun_upd_twist fun_upd_idem split: option.splits)
qed simp

lemma remove_param_view:
  assumes "params_ok (params s)"
  shows "params_ok (params (snd (remove_param_by_id pid s)))
    \<and> param_view (params (snd (remove_param_by_id pid s))) = (param_view (params s))(pid := None)
    \<and> (fst (remove_param_by_id pid s) \<longleftrightarrow> pid \<in> dom (param_view (params s)))"
  using param_position_remove [OF assms, of pid]
  by (auto simp: remove_param_by_id_def domIff fun_upd_idem assms split: option.splits)

datatype param_op = SetParam session_param | RemoveParam string

fun run_param_op :: "param_op \<Rightarrow> grid_session \<Rightarrow> grid_session" where
  "run_param_op (SetParam p) s = snd (set_param p s)"
| "run_param_op (RemoveParam pid) s = snd (remove_param_by_id pid s)"

fun map_param_op :: "param_op \<Rightarrow> (string \<rightharpoonup> string) \<Rightarrow> (string \<rightharpoonup> string)" where
  "map_param_op (SetParam p) m = m(param_id p \<mapsto> param_value p)"
| "map_param_op (RemoveParam pid) m = m(pid := None)"

lemma run_param_op_view:
  "params_ok (params s) \<Longrightarrow> params_ok (params (run_param_op f s))
    \<and> param_view (params (run_param_op f s)) = map_param_op f (param_view (params s))"
  by (cases f) (simp_all add: set_param_view remove_param_view)

lemma session_params_refine_map:
  "params_ok (params s) \<Longrightarrow> params_ok (params (fold run_param_op fs s))
    \<and> param_view (params (fold run_param_op fs s)) = fold map_param_op fs (param_view (params s))"
  by (induction fs arbitrary: s) (simp_all add: run_param_op_view)

section \<open>What the carrier task is told\<close>

lemma leave_disconnects:
  assumes "carrier s = Some h" and "ch_open (to_carrier h)"
    and "length (ch_items (to_carrier h)) + 1 < ch_cap (to_carrier h)"
  shows "\<exists>s' h'. leave s = Some (Ok (s', Some h')) \<and> carrier s' = None \<and> stop_flag h'
    \<and> ch_items (to_carrier h') = ch_items (to_carrier h) @ [Disconnect UserRequested, Disconnect ShuttingDown]"
  using assms
  by (simp add: leave_def carrier_disconnect_def chan_send_def carrier_drop_def chan_try_send_def)

lemma ready_skips_messages:
  "list_all (\<lambda>e. \<exists>ch d. e = MessageReceived ch d) ms \<Longrightarrow>
    ready_loop (ms @ Connected v # rx) h = Ok (h\<lparr>from_carrier := Some rx\<rparr>)"
  by (induction ms) auto

end
