(* ===== verification/Message_Envelope.thy ===== *)
theory Message_Envelope
  imports Codecs
begin

text \<open>
  \<^verbatim>\<open>nw-gridmate/src/message.rs\<close>: Hub messages on the wire. A message is put into an envelope that
  names its type, and the envelope into a frame that depends on the direction: from the client a
  checksum, a size and a correlation id, from the server a size.

  A type that implements \<open>Message\<close>, \<open>Marshal\<close> and \<open>Unmarshal\<close> is a \<open>message_type\<close>. The network
  schema is generated when the crate is built, so the two questions the code asks it are the
  argument \<open>schema\<close>.
\<close>

section \<open>The checksum\<close>

definition crc_bit :: "u32 \<Rightarrow> u32" where
  "crc_bit crc = (if crc AND 1 \<noteq> 0 then 0xEDB88320 XOR drop_bit 1 crc else drop_bit 1 crc)"

definition crc_byte :: "u8 \<Rightarrow> u32 \<Rightarrow> u32" where
  "crc_byte b crc = (crc_bit ^^ 8) (crc XOR ucast b)"

definition crc32_chunks :: "bytes list \<Rightarrow> u32" where
  "crc32_chunks chunks = fold (\<lambda>chunk crc. fold crc_byte chunk crc) chunks 0xFFFFFFFF XOR 0xFFFFFFFF"

section \<open>Messages and envelopes\<close>

record 'm message_type =
  msg_type_index :: u32
  msg_type_id :: bytes
  msg_type_name :: string
  msg_codec :: "'m codec"

record network_schema =
  type_by_type_id :: "bytes \<Rightarrow> u32 option"
  is_direct_message :: "u32 \<Rightarrow> bool option"
  name_for_type_index :: "u32 \<Rightarrow> string option"

definition resolve_type_index :: "network_schema \<Rightarrow> bytes \<Rightarrow> u32 option" where
  "resolve_type_index schema uuid = type_by_type_id schema uuid"

datatype message_type_id = TypeIndexId u32 | UuidId bytes

fun type_id_index :: "message_type_id \<Rightarrow> u32 option" where
  "type_id_index (TypeIndexId i) = Some i"
| "type_id_index (UuidId uuid) = None"

fun resolved_type_index :: "network_schema \<Rightarrow> message_type_id \<Rightarrow> u32 option" where
  "resolved_type_index schema (TypeIndexId i) = Some i"
| "resolved_type_index schema (UuidId uuid) = resolve_type_index schema uuid"

fun type_id_matches :: "'m message_type \<Rightarrow> message_type_id \<Rightarrow> bool" where
  "type_id_matches t (TypeIndexId i) \<longleftrightarrow> i = msg_type_index t"
| "type_id_matches t (UuidId uuid) \<longleftrightarrow> uuid = msg_type_id t"

fun display_index :: "network_schema \<Rightarrow> message_type_id \<Rightarrow> u32" where
  "display_index schema (TypeIndexId i) = i"
| "display_index schema (UuidId uuid) =
     (case resolve_type_index schema uuid of Some i \<Rightarrow> i | None \<Rightarrow> 0)"

record envelope_view =
  ev_raw :: bytes
  ev_outer_flags :: u8
  ev_field1 :: "bytes option"
  ev_field2 :: "bytes option"
  ev_envelope_flags :: u8
  ev_type_id :: message_type_id
  ev_body :: bytes

definition view_type_index :: "envelope_view \<Rightarrow> u32 option" where
  "view_type_index v = type_id_index (ev_type_id v)"

record correlated_metadata =
  cm_checksum :: u32
  cm_payload_size :: u32
  cm_correlation_id :: bytes

definition correlated_new :: "bytes \<Rightarrow> correlated_metadata" where
  "correlated_new cid = \<lparr>cm_checksum = 0, cm_payload_size = 0, cm_correlation_id = cid\<rparr>"

definition set_correlation_id :: "bytes \<Rightarrow> correlated_metadata \<Rightarrow> correlated_metadata" where
  "set_correlation_id cid m = m\<lparr>cm_correlation_id := cid\<rparr>"

definition nil_uuid :: bytes where
  "nil_uuid = replicate 16 0"

record sized_metadata =
  sm_envelope_size :: u32

definition sized_default :: sized_metadata where
  "sized_default = \<lparr>sm_envelope_size = 0\<rparr>"

definition envelope_marshal :: "'m message_type \<Rightarrow> 'm \<Rightarrow> write_buffer \<Rightarrow> write_buffer option" where
  "envelope_marshal t m wb =
     c_marshal (msg_codec t) m (vlq32_marshal (msg_type_index t) (write_u8 1 (write_u8 0 wb)))"

section \<open>Reading\<close>

definition read_fixed_8 :: "bytes reader" where
  "read_fixed_8 = read_bytes 8"

definition read_left :: "bytes reader" where
  "read_left rb = read_bytes (left rb) rb"

definition parse_envelope :: "bytes \<Rightarrow> envelope_view reader" where
  "parse_envelope raw =
     rbind read_u8 (\<lambda>outer_flags.
     rbind (if outer_flags AND 0x01 \<noteq> 0 then rmap Some read_fixed_8 else rreturn None) (\<lambda>field1.
     rbind (if outer_flags AND 0x02 \<noteq> 0 then rmap Some read_fixed_8 else rreturn None) (\<lambda>field2.
     rbind read_u8 (\<lambda>envelope_flags.
     if envelope_flags = 0 then rfail EmptyEnvelope
     else if envelope_flags \<ge> 2 then rfail (InvalidEnvelopeFlags envelope_flags)
     else rbind vlq32_unmarshal (\<lambda>v.
       rbind (if v = 0 then rmap UuidId (read_bytes 16) else rreturn (TypeIndexId v)) (\<lambda>type_id.
       rbind read_left (\<lambda>body.
       rreturn \<lparr>ev_raw = raw, ev_outer_flags = outer_flags, ev_field1 = field1, ev_field2 = field2,
                ev_envelope_flags = envelope_flags, ev_type_id = type_id, ev_body = body\<rparr>)))))))"

text \<open>The envelope is parsed from a buffer of its own: what \<open>rb\<close> loses is the bytes it announced.\<close>

definition read_message_envelope :: "nat \<Rightarrow> envelope_view reader" where
  "read_message_envelope n = rbind (read_bytes n) (\<lambda>raw rb.
     (fst (parse_envelope raw (read_new carrier_endian raw)), rb))"

definition read_correlated_message :: "(correlated_metadata \<times> envelope_view) reader" where
  "read_correlated_message =
     rbind read_u32 (\<lambda>checksum.
     rbind read_u32 (\<lambda>payload_size.
     rbind uuid_unmarshal (\<lambda>cid rb.
       if unat payload_size < 16 then rfail (TruncatedPayload 16 (unat payload_size)) rb
       else let envelope_size = unat payload_size - 16 in
         if envelope_size > left rb then rfail (TruncatedPayload envelope_size (left rb)) rb
         else let actual = crc32_chunks [cid, take envelope_size (remaining rb)] in
           if actual \<noteq> checksum then rfail (CrcMismatch checksum actual) rb
           else rbind (read_message_envelope envelope_size) (\<lambda>view.
             rreturn (\<lparr>cm_checksum = checksum, cm_payload_size = payload_size,
                       cm_correlation_id = cid\<rparr>, view)) rb)))"

definition read_sized_message :: "(sized_metadata \<times> envelope_view) reader" where
  "read_sized_message =
     rbind vlq32_unmarshal (\<lambda>envelope_size rb.
       if envelope_size = 0 \<or> unat envelope_size > left rb
       then rfail (TruncatedPayload (unat envelope_size) (left rb)) rb
       else rbind (read_message_envelope (unat envelope_size)) (\<lambda>view.
         rreturn (\<lparr>sm_envelope_size = envelope_size\<rparr>, view)) rb)"

definition decode_typed_envelope ::
    "network_schema \<Rightarrow> 'm message_type \<Rightarrow> envelope_view \<Rightarrow> marshaler_error + 'm" where
  "decode_typed_envelope schema t view =
     (if \<not> type_id_matches t (ev_type_id view)
      then Err (MessageTypeMismatch (msg_type_index t) (display_index schema (ev_type_id view)))
      else fst (c_unmarshal (msg_codec t) (read_new carrier_endian (ev_body view))))"

text \<open>\<open>IngressPath::read_framed\<close> in the two directions.\<close>

definition client_read_framed ::
    "network_schema \<Rightarrow> 'm message_type \<Rightarrow> (correlated_metadata \<times> 'm) reader" where
  "client_read_framed schema t = rbind read_correlated_message (\<lambda>(meta, view) rb.
     (map_sum id (Pair meta) (decode_typed_envelope schema t view), rb))"

definition server_read_framed ::
    "network_schema \<Rightarrow> 'm message_type \<Rightarrow> (sized_metadata \<times> 'm) reader" where
  "server_read_framed schema t = rbind read_sized_message (\<lambda>(meta, view) rb.
     (map_sum id (Pair meta) (decode_typed_envelope schema t view), rb))"

section \<open>Writing\<close>

definition correlated_patch :: "correlated_metadata \<Rightarrow> bytes \<Rightarrow> correlated_metadata" where
  "correlated_patch meta body =
     meta\<lparr>cm_payload_size := of_nat (16 + length body),
       cm_checksum := crc32_chunks [cm_correlation_id meta, body]\<rparr>"

definition correlated_prefix :: "correlated_metadata \<Rightarrow> bytes" where
  "correlated_prefix meta =
     be_bytes32 (cm_checksum meta) @ be_bytes32 (cm_payload_size meta) @ cm_correlation_id meta"

text \<open>
  The closure that patches the prefix also stores size and checksum in the metadata; here they are
  computed from the body that was written. The flag the first closure returns says here that the
  message was marshalled without a panic.
\<close>

definition marshal_correlated_into ::
    "'m message_type \<Rightarrow> 'm \<Rightarrow> correlated_metadata \<Rightarrow> write_buffer \<Rightarrow> (correlated_metadata \<times> write_buffer) option" where
  "marshal_correlated_into t m meta wb =
     Option.bind
       (with_fixed_prefix 24
         (\<lambda>wb. case envelope_marshal t m wb of None \<Rightarrow> (False, wb) | Some wb' \<Rightarrow> (True, wb'))
         (\<lambda>_ body. correlated_prefix (correlated_patch meta body)) wb)
       (\<lambda>(wrote, wb').
         if wrote then Some (correlated_patch meta (drop (length (wdata wb) + 24) (wdata wb')), wb')
         else None)"

definition marshal_sized_into ::
    "'m message_type \<Rightarrow> 'm \<Rightarrow> sized_metadata \<Rightarrow> write_buffer \<Rightarrow> (sized_metadata \<times> write_buffer) option" where
  "marshal_sized_into t m meta wb =
     map_option (\<lambda>envelope_buf.
       let size = of_nat (length (wdata envelope_buf))
       in (meta\<lparr>sm_envelope_size := size\<rparr>, write_bytes (wdata envelope_buf) (vlq32_marshal size wb)))
       (envelope_marshal t m (write_new carrier_endian))"

text \<open>\<open>EgressPath::marshal_framed\<close> in the two directions.\<close>

definition client_marshal_framed :: "'m message_type \<Rightarrow> 'm \<Rightarrow> bytes \<Rightarrow> write_buffer \<Rightarrow> write_buffer option" where
  "client_marshal_framed t m cid wb = map_option snd (marshal_correlated_into t m (correlated_new cid) wb)"

definition server_marshal_framed :: "'m message_type \<Rightarrow> 'm \<Rightarrow> write_buffer \<Rightarrow> write_buffer option" where
  "server_marshal_framed t m wb = map_option snd (marshal_sized_into t m sized_default wb)"

datatype message_path = ClientToServer | ServerToClient

datatype path_error = InvalidMessagePath string u32 message_path

definition ensure_direct_message ::
    "network_schema \<Rightarrow> 'm message_type \<Rightarrow> message_path \<Rightarrow> path_error + unit" where
  "ensure_direct_message schema t path =
     (if is_direct_message schema (msg_type_index t) = Some True then Ok ()
      else Err (InvalidMessagePath (msg_type_name t) (msg_type_index t) path))"

section \<open>The bytes of a frame\<close>

definition envelope_enc :: "'m message_type \<Rightarrow> bytes \<Rightarrow> bytes" where
  "envelope_enc t body = 0 # 1 # vlq32_bytes (msg_type_index t) @ body"

definition typed_view :: "'m message_type \<Rightarrow> bytes \<Rightarrow> envelope_view" where
  "typed_view t body = \<lparr>ev_raw = envelope_enc t body, ev_outer_flags = 0, ev_field1 = None, ev_field2 = None,
     ev_envelope_flags = 1, ev_type_id = TypeIndexId (msg_type_index t), ev_body = body\<rparr>"

definition correlated_of :: "bytes \<Rightarrow> bytes \<Rightarrow> correlated_metadata" where
  "correlated_of cid env = correlated_patch (correlated_new cid) env"

definition sized_enc :: "bytes \<Rightarrow> bytes" where
  "sized_enc env = vlq32_bytes (of_nat (length env)) @ env"

lemma read_bytes_exact:
  assumes "remaining rb = xs @ ys" and "rpos rb \<le> length (rdata rb)"
  shows "read_bytes (length xs) rb = (Inr xs, advance (length xs) rb)"
  using assms by (cases "xs = []") (simp_all add: read_bytes_def [of 0] advance_def)

lemma parse_typed_envelope:
  assumes "msg_type_index t \<noteq> 0"
  shows "fst (parse_envelope (envelope_enc t body) (read_new carrier_endian (envelope_enc t body))) =
    Inr (typed_view t body)"
proof -
  define rb where "rb = read_new carrier_endian (envelope_enc t body)"
  define n where "n = length (vlq32_bytes (msg_type_index t))"
  have 1: "read_u8 rb = (Inr 0, advance 1 rb)" "read_u8 (advance 1 rb) = (Inr 1, advance 2 rb)"
    by (simp_all add: rb_def envelope_enc_def)
  have 2: "vlq32_unmarshal (advance 2 rb) = (Inr (msg_type_index t), advance (2 + n) rb)"
    using vlq32_decode [of "advance 2 rb" "msg_type_index t" body] by (simp add: rb_def envelope_enc_def n_def)
  have rest: "remaining (advance (2 + n) rb) = body"
    by (simp add: rb_def envelope_enc_def n_def)
  have 3: "read_left (advance (2 + n) rb) = (Inr body, advance (2 + n + length body) rb)"
    using read_bytes_exact [of "advance (2 + n) rb" body "[]"] rest
    by (simp add: read_left_def left_remaining) (simp add: rb_def envelope_enc_def n_def)
  have flags: "\<not> (2 :: u8) \<le> 1"
    by (simp add: word_le_nat_alt)
  show ?thesis
    unfolding parse_envelope_def
    using assms 1 2 3 flags by (simp add: rb_def [symmetric] typed_view_def del: not_le)
qed

lemma read_envelope_enc:
  assumes "msg_type_index t \<noteq> 0" and "remaining rb = envelope_enc t body @ rest"
  shows "read_message_envelope (length (envelope_enc t body)) rb =
    (Inr (typed_view t body), advance (length (envelope_enc t body)) rb)"
  using read_bytes_append [OF assms(2) refl] parse_typed_envelope [OF assms(1), of body]
  by (simp add: read_message_envelope_def envelope_enc_def)

section \<open>The checksum finds every short burst\<close>

lemma word_xor_eq_0: "a XOR b = 0 \<longleftrightarrow> a = (b :: 'a::len word)"
proof
  assume "a XOR b = 0"
  then have "(a XOR b) XOR b = b" by simp
  then show "a = b" by (simp add: xor.assoc)
qed simp

lemma crc_bit_xor: "crc_bit crc = drop_bit 1 crc XOR (if odd crc then 0xEDB88320 else 0)"
  by (simp add: crc_bit_def and_one_eq odd_iff_mod_2_eq_one xor.commute)

lemma odd_xor_word: "odd (a XOR b :: u32) \<longleftrightarrow> odd a \<noteq> odd b"
  using bit_xor_iff [of a b 0] by (simp add: bit_0)

lemma crc_bit_linear: "crc_bit (a XOR b) = crc_bit a XOR crc_bit b"
  by (simp add: crc_bit_xor odd_xor_word drop_bit_xor ac_simps)

lemma crc_bit_eq_0: "crc_bit x = 0 \<Longrightarrow> x = 0"
proof (rule bit_word_eqI)
  fix n assume 0: "crc_bit x = 0" and n: "n < LENGTH(32)"
  have even: "even x"
  proof (rule ccontr)
    assume "odd x"
    then have "drop_bit 1 x XOR 0xEDB88320 = 0"
      using 0 by (simp add: crc_bit_xor)
    then have "drop_bit 1 x = 0xEDB88320"
      by (simp only: word_xor_eq_0)
    then have "bit (drop_bit 1 x) 31 = bit (0xEDB88320 :: u32) 31" by simp
    then show False by (auto simp: bit_simps dest: bit_imp_le_length)
  qed
  then have "drop_bit 1 x = 0" using 0 by (simp add: crc_bit_xor)
  then have "bit (drop_bit 1 x) (n - 1) = False" by simp
  with even n show "bit x n = bit 0 n"
    by (cases n) (auto simp: bit_simps bit_0)
qed

lemma crc_bit_inj: "crc_bit a = crc_bit b \<longleftrightarrow> a = b"
  using crc_bit_eq_0 [of "a XOR b"] by (auto simp: crc_bit_linear word_xor_eq_0)

lemma crc_bits_linear: "(crc_bit ^^ n) (a XOR b) = (crc_bit ^^ n) a XOR (crc_bit ^^ n) b"
  by (induction n) (simp_all add: crc_bit_linear)

lemma crc_bits_inj: "(crc_bit ^^ n) a = (crc_bit ^^ n) b \<longleftrightarrow> a = b"
  by (induction n) (simp_all add: crc_bit_inj)

lemma xor_cancel: "a XOR c = b XOR c \<longleftrightarrow> a = (b :: 'a::len word)"
  using word_xor_eq_0 [of "a XOR c" "b XOR c"] word_xor_eq_0 [of a b] by (simp add: ac_simps)

lemma crc_bytes_inj: "fold crc_byte bs a = fold crc_byte bs b \<longleftrightarrow> a = b"
  by (induction bs arbitrary: a b) (simp_all add: crc_byte_def crc_bits_inj xor_cancel)

text \<open>Up to four bytes enter the register as one word.\<close>

fun le_word :: "bytes \<Rightarrow> u32" where
  "le_word [] = 0"
| "le_word (b # bs) = ucast b XOR push_bit 8 (le_word bs)"

lemma bit_le_word: "bit (le_word bs) n \<Longrightarrow> n < 8 * length bs"
proof (induction bs arbitrary: n)
  case (Cons b bs)
  show ?case
  proof (cases "n < 8")
    case False
    then have "bit (le_word bs) (n - 8)"
      using Cons.prems by (auto simp: bit_simps dest: bit_imp_le_length)
    from Cons.IH [OF this] False show ?thesis by simp
  qed simp
qed simp

lemma crc_bits_shift:
  assumes "\<And>n. bit w n \<Longrightarrow> n + k < 32"
  shows "(crc_bit ^^ k) (push_bit k w) = w"
  using assms
proof (induction k)
  case (Suc k)
  have "even (push_bit (Suc k) w)"
    by simp
  moreover have "drop_bit 1 (push_bit (Suc k) w) = push_bit k w"
    using Suc.prems by (intro bit_word_eqI) (fastforce simp: bit_simps simp del: push_bit_Suc)
  ultimately have "crc_bit (push_bit (Suc k) w) = push_bit k w"
    by (simp add: crc_bit_xor)
  moreover have "(crc_bit ^^ k) (push_bit k w) = w"
    using Suc.prems by (intro Suc.IH) fastforce
  ultimately show ?case
    by (simp only: funpow_Suc_right comp_apply)
qed simp

lemma crc_bytes_word:
  "length bs \<le> 4 \<Longrightarrow> fold crc_byte bs c = (crc_bit ^^ (8 * length bs)) (c XOR le_word bs)"
proof (induction bs arbitrary: c)
  case (Cons b bs)
  have "(crc_bit ^^ 8) (push_bit 8 (le_word bs)) = le_word bs"
    using Cons.prems by (intro crc_bits_shift) (auto dest: bit_le_word)
  then have "crc_byte b c XOR le_word bs = (crc_bit ^^ 8) (c XOR le_word (b # bs))"
    by (simp add: crc_byte_def crc_bits_linear xor.assoc del: funpow.simps)
  with Cons show ?case
    by (simp add: funpow_add add.commute [of 8] del: funpow.simps le_word.simps)
qed simp

lemma le_word_inj:
  "length as = length bs \<Longrightarrow> length as \<le> 4 \<Longrightarrow> le_word as = le_word bs \<Longrightarrow> as = bs"
proof (induction as bs rule: list_induct2)
  case (Cons a as b bs)
  have bits: "bit (le_word (a # as)) n = bit (le_word (b # bs)) n" for n
    using Cons.prems by simp
  have "a = b"
  proof (rule bit_word_eqI)
    fix n assume "n < LENGTH(8)"
    then show "bit a n = bit b n" using bits [of n] by (simp add: bit_simps)
  qed
  moreover have "le_word as = le_word bs"
  proof (rule bit_word_eqI)
    fix n assume "n < LENGTH(32)"
    show "bit (le_word as) n = bit (le_word bs) n"
    proof (cases "n + 8 < 32")
      case True
      then show ?thesis
        using bits [of "n + 8"] by (auto simp: bit_simps dest: bit_imp_le_length)
    next
      case False
      then show ?thesis
        using bit_le_word [of as n] bit_le_word [of bs n] Cons.prems Cons.hyps by auto
    qed
  qed
  ultimately show ?case using Cons by simp
qed simp

lemma crc_burst:
  assumes "length mid = length mid'" and "length mid \<le> 4"
  shows "fold crc_byte (pre @ mid @ post) c = fold crc_byte (pre @ mid' @ post) c \<longleftrightarrow> mid = mid'"
proof -
  have "le_word mid = le_word mid' \<longleftrightarrow> mid = mid'"
    using le_word_inj [OF assms] by blast
  with assms crc_bytes_word [of mid] crc_bytes_word [of mid'] show ?thesis
    by (simp add: crc_bytes_inj crc_bits_inj xor_cancel xor.commute [of _ "le_word _"])
qed

lemma crc32_chunks_concat: "crc32_chunks chunks = fold crc_byte (concat chunks) 0xFFFFFFFF XOR 0xFFFFFFFF"
proof -
  have "fold (\<lambda>chunk crc. fold crc_byte chunk crc) chunks c = fold crc_byte (concat chunks) c" for c
    by (induction chunks arbitrary: c) simp_all
  then show ?thesis by (simp add: crc32_chunks_def)
qed

lemma crc_byte_steps:
  "crc_byte b crc = crc_bit (crc_bit (crc_bit (crc_bit (crc_bit (crc_bit (crc_bit (crc_bit (crc XOR ucast b))))))))"
  by (simp add: crc_byte_def eval_nat_numeral)

lemma crc_bit_numeral:
  "crc_bit (numeral n) = (if numeral n AND 1 \<noteq> (0 :: u32) then 0xEDB88320 XOR drop_bit 1 (numeral n) else drop_bit 1 (numeral n))"
  by (simp add: crc_bit_def)

lemma crc32_check_value: "crc32_chunks [[0x31, 0x32, 0x33, 0x34], [0x35, 0x36, 0x37, 0x38, 0x39]] = 0xCBF43926"
  by (simp add: crc32_chunks_def crc_byte_steps crc_bit_numeral)

section \<open>Frames\<close>

context lawful_codec
begin

lemma envelope_marshal_enc:
  assumes "msg_codec t = c" and "valid m"
  shows "envelope_marshal t m wb = Some (write_bytes (envelope_enc t (enc (wendian wb) m)) wb)"
  using assms marshal_enc [of m]
  by (simp add: envelope_marshal_def envelope_enc_def vlq32_marshal_def write_bytes_def write_u8_def)

lemma client_frame:
  assumes "msg_codec t = c" and "valid m" and "length cid = 16"
  shows "client_marshal_framed t m cid (write_new carrier_endian) =
    (let env = envelope_enc t (enc carrier_endian m)
     in Some (write_bytes (correlated_prefix (correlated_of cid env) @ env) (write_new carrier_endian)))"
proof -
  have 1: "length (correlated_prefix (correlated_patch (correlated_new cid) env)) = 24" for env
    using assms(3) by (simp add: correlated_prefix_def correlated_patch_def correlated_new_def)
  show ?thesis
    using 1 envelope_marshal_enc [OF assms(1,2)]
    by (simp add: client_marshal_framed_def marshal_correlated_into_def with_fixed_prefix_def
        write_new_def write_bytes_def correlated_of_def Let_def)
qed

lemma server_frame:
  assumes "msg_codec t = c" and "valid m"
  shows "server_marshal_framed t m wb =
    Some (write_bytes (sized_enc (envelope_enc t (enc carrier_endian m))) wb)"
  using envelope_marshal_enc [OF assms, of "write_new carrier_endian"]
  by (simp add: server_marshal_framed_def marshal_sized_into_def write_new_def write_bytes_def
      vlq32_marshal_def sized_enc_def Let_def)

lemma decode_typed_view:
  assumes "msg_codec t = c" and "valid m"
  shows "decode_typed_envelope schema t (typed_view t (enc carrier_endian m)) = Inr m"
  using assms unmarshal_enc [of m "read_new carrier_endian (enc carrier_endian m)" "[]"]
  by (simp add: decode_typed_envelope_def typed_view_def)

end

lemma read_u32_be:
  assumes "remaining rb = be_bytes32 v @ bs" and "rendian rb = BigEndian"
  shows "read_u32 rb = (Inr v, advance 4 rb)"
  using assms read_u32_enc [of rb v bs] by (simp add: bytes32_def)

lemma uuid_read:
  assumes "remaining rb = cid @ bs" and "length cid = 16"
  shows "uuid_unmarshal rb = (Inr cid, advance 16 rb)"
  using assms uuidc.unmarshal_enc [of cid rb bs] by simp

lemma correlated_header:
  assumes "remaining rb = be_bytes32 checksum @ be_bytes32 sz @ cid @ bs"
    and "rendian rb = BigEndian" and "length cid = 16"
  shows "read_u32 rb = (Inr checksum, advance 4 rb)"
    and "read_u32 (advance 4 rb) = (Inr sz, advance 8 rb)"
    and "uuid_unmarshal (advance 8 rb) = (Inr cid, advance 24 rb)"
    and "remaining (advance 24 rb) = bs"
  using assms read_u32_be [of rb] read_u32_be [of "advance 4 rb"] uuid_read [of "advance 8 rb" cid]
  by simp_all

lemma unat_frame_size: "16 + n < 2 ^ 32 \<Longrightarrow> unat (of_nat (16 + n) :: u32) = 16 + n"
  by (simp only: unat_of_nat) (simp add: take_bit_nat_eq_self)

lemma read_correlated_enc:
  assumes "msg_type_index t \<noteq> 0" and "length cid = 16"
    and "env = envelope_enc t body" and "16 + length env < 2 ^ 32"
    and "remaining rb = correlated_prefix (correlated_of cid env) @ env @ rest"
    and "rendian rb = BigEndian"
  shows "read_correlated_message rb =
    (Inr (correlated_of cid env, typed_view t body), advance (24 + length env) rb)"
proof -
  let ?crc = "crc32_chunks [cid, env]" and ?size = "of_nat (16 + length env) :: u32"
  have "remaining rb = be_bytes32 ?crc @ be_bytes32 ?size @ cid @ env @ rest"
    using assms(5) by (simp add: correlated_prefix_def correlated_of_def correlated_patch_def correlated_new_def)
  note header = correlated_header [OF this assms(6,2)]
  note [simp] = unat_frame_size [OF assms(4)]
  have "read_message_envelope (length env) (advance 24 rb) =
      (Inr (typed_view t body), advance (length env) (advance 24 rb))"
    unfolding assms(3) using header(4) assms(1,3) by (intro read_envelope_enc) simp_all
  then show ?thesis
    using header
    by (simp add: read_correlated_message_def left_remaining Let_def correlated_of_def
        correlated_patch_def correlated_new_def del: remaining_advance of_nat_add)
qed

lemma read_sized_enc:
  assumes "msg_type_index t \<noteq> 0" and "env = envelope_enc t body" and "length env < 2 ^ 32"
    and "remaining rb = sized_enc env @ rest"
  shows "read_sized_message rb =
    (Inr (\<lparr>sm_envelope_size = of_nat (length env)\<rparr>, typed_view t body), advance (length (sized_enc env)) rb)"
proof -
  let ?n = "length (vlq32_bytes (of_nat (length env)))"
  have 1: "vlq32_unmarshal rb = (Inr (of_nat (length env)), advance ?n rb)"
    using vlq32_decode [of rb "of_nat (length env)" "env @ rest"] assms(4) by (simp add: sized_enc_def)
  have 2: "remaining (advance ?n rb) = env @ rest"
    using assms(4) by (simp add: sized_enc_def)
  have size: "unat (of_nat (length env) :: u32) = length env"
    using assms(3) by (simp add: unat_of_nat take_bit_nat_eq_self)
  have "0 < length env"
    using assms(2) by (simp add: envelope_enc_def)
  with size have nonzero: "of_nat (length env) \<noteq> (0 :: u32)"
    by (metis unat_0 less_irrefl)
  have "read_message_envelope (length env) (advance ?n rb) =
      (Inr (typed_view t body), advance (length env) (advance ?n rb))"
    unfolding assms(2) using 2 assms(1,2) by (intro read_envelope_enc) simp_all
  with 1 2 size nonzero show ?thesis
    by (simp add: read_sized_message_def left_remaining sized_enc_def del: remaining_advance)
qed

section \<open>What the readers do with any bytes\<close>

lemma reader_ok_sub: "reader_ok m \<Longrightarrow> reader_ok (rbind m (\<lambda>x rb. (f x, rb)))"
  by (intro reader_ok_bind) (simp_all add: reader_ok_def)

lemma reader_ok_envelope [reader_safe]: "reader_ok (read_message_envelope n)"
  unfolding read_message_envelope_def by (intro reader_ok_sub reader_safe)

lemma reader_ok_step: "reader_ok r \<Longrightarrow> cursor_step rb (snd (r rb))"
  by (simp add: reader_ok_def)

lemma reader_ok_correlated [reader_safe]: "reader_ok read_correlated_message"
proof -
  have "reader_ok (rbind (read_message_envelope n) (\<lambda>view. rreturn (meta :: correlated_metadata, view)))" for n meta
    by (intro reader_safe)
  then show ?thesis
    unfolding read_correlated_message_def uuid_unmarshal_def
    by (intro reader_safe reader_okI) (auto simp: Let_def intro: reader_ok_step)
qed

lemma reader_ok_sized [reader_safe]: "reader_ok read_sized_message"
proof -
  have "reader_ok (rbind (read_message_envelope n) (\<lambda>view. rreturn (meta :: sized_metadata, view)))" for n meta
    by (intro reader_safe)
  then show ?thesis
    unfolding read_sized_message_def
    by (intro reader_ok_bind reader_ok_vlq32 reader_okI) (auto intro: reader_ok_step)
qed

text \<open>A frame that is read, also one without a message, takes at least one byte.\<close>

lemma vlq32_error: "vlq32_unmarshal rb = (Inl e, rb') \<Longrightarrow> e \<noteq> EmptyEnvelope"
  by (auto simp: vlq32_unmarshal_def rbind_def read_u8_def buffer_underrun_def split: prod.splits sum.splits if_splits)

lemma left_step: "cursor_step rb rb' \<Longrightarrow> left rb' \<le> left rb"
  by (auto simp: cursor_step_def left_def)

lemma read_sized_progress:
  assumes "read_sized_message rb = (r, rb')" and "\<And>e. r = Inl e \<Longrightarrow> e = EmptyEnvelope"
  shows "left rb' < left rb"
proof (cases "vlq32_unmarshal rb")
  case (Pair v rb1)
  show ?thesis
  proof (cases v)
    case (Inl e)
    with Pair assms vlq32_error [of rb e rb1] show ?thesis
      by (simp add: read_sized_message_def)
  next
    case (Inr n)
    have 1: "left rb1 \<le> left rb"
      using Pair by (intro left_step reader_okD [OF reader_ok_vlq32])
    have n: "n \<noteq> 0" "unat n \<le> left rb1"
      using assms Pair Inr by (auto simp: read_sized_message_def split: if_splits)
    from n(1) have pos: "0 < unat n"
      by (simp add: unat_gt_0)
    with n have "read_bytes (unat n) rb1 = (Inr (take (unat n) (remaining rb1)), advance (unat n) rb1)"
      by (auto simp: read_bytes_def left_def remaining_def advance_def)
    with assms(1) Pair Inr n(1,2) have "rb' = advance (unat n) rb1"
      by (auto simp: read_sized_message_def read_message_envelope_def rbind_def split: sum.splits if_splits)
    with 1 n pos show ?thesis
      by (auto simp: left_def)
  qed
qed

section \<open>Properties\<close>

lemma length_envelope_enc: "length (envelope_enc t body) \<le> 7 + length body"
  using length_vlq32_bytes [of "msg_type_index t"] by (simp add: envelope_enc_def)

text \<open>
  A message framed for either direction is read back by the other side, with the metadata of
  the frame, and exactly the bytes of the frame are consumed.
\<close>

lemma hub_message_roundtrip:
  assumes "lawful_codec (msg_codec t) valid enc" and "valid m" and "msg_type_index t \<noteq> 0"
    and "length cid = 16" and "length (enc carrier_endian m) + 23 < 2 ^ 32"
  shows "\<exists>c s. client_marshal_framed t m cid (write_new carrier_endian) = Some c
    \<and> server_marshal_framed t m (write_new carrier_endian) = Some s
    \<and> client_read_framed schema t (read_carrier (wdata c @ rest)) =
        (Ok (correlated_of cid (envelope_enc t (enc carrier_endian m)), m), advance (length (wdata c)) (read_carrier (wdata c @ rest)))
    \<and> server_read_framed schema t (read_carrier (wdata s @ rest)) =
        (Ok (\<lparr>sm_envelope_size = of_nat (length (envelope_enc t (enc carrier_endian m)))\<rparr>, m),
         advance (length (wdata s)) (read_carrier (wdata s @ rest)))"
proof -
  let ?env = "envelope_enc t (enc carrier_endian m)"
  have len: "16 + length ?env < 2 ^ 32" "length ?env < 2 ^ 32"
    using length_envelope_enc [of t "enc carrier_endian m"] assms(5) by linarith+
  note decode = lawful_codec.decode_typed_view [OF assms(1) refl assms(2)]
  have prefix: "length (correlated_prefix (correlated_of cid ?env)) = 24"
    using assms(4) by (simp add: correlated_prefix_def correlated_of_def correlated_patch_def correlated_new_def)
  show ?thesis
    using lawful_codec.client_frame [OF assms(1) refl assms(2,4)]
      lawful_codec.server_frame [OF assms(1) refl assms(2), of "write_new carrier_endian"]
      read_correlated_enc [OF assms(3,4) refl len(1), of "read_carrier (correlated_prefix (correlated_of cid ?env) @ ?env @ rest)" rest]
      read_sized_enc [OF assms(3) refl len(2), of "read_carrier (sized_enc ?env @ rest)" rest] decode prefix
    by (simp add: client_read_framed_def server_read_framed_def read_carrier_def carrier_endian_def
        write_new_def write_bytes_def Let_def)
qed

definition ping_type :: "bytes message_type" where
  "ping_type = \<lparr>msg_type_index = 19, msg_type_id = nil_uuid, msg_type_name = ''Ping'', msg_codec = uuid_codec\<rparr>"

definition no_schema :: network_schema where
  "no_schema = \<lparr>type_by_type_id = (\<lambda>_. None), is_direct_message = (\<lambda>_. None), name_for_type_index = (\<lambda>_. None)\<rparr>"

text \<open>
  C15. When up to four consecutive bytes of the correlation id and the envelope of a client frame
  are altered on the way, the server rejects the frame with \<open>CrcMismatch\<close>.
\<close>

theorem corrupted_frame_rejected:
  assumes "pre @ mid @ post = cid @ env" and "length cid = 16" and "16 + length env < 2 ^ 32"
    and "length mid' = length mid" and "length mid \<le> 4" and "mid' \<noteq> mid"
  shows "fst (read_correlated_message (read_carrier (be_bytes32 (crc32_chunks [cid, env])
      @ be_bytes32 (of_nat (16 + length env)) @ pre @ mid' @ post @ rest))) =
    Err (CrcMismatch (crc32_chunks [cid, env]) (crc32_chunks [pre, mid', post]))"
proof -
  define recv where "recv = pre @ mid' @ post"
  define rb where "rb = read_carrier (be_bytes32 (crc32_chunks [cid, env])
      @ be_bytes32 (of_nat (16 + length env)) @ recv @ rest)"
  have len: "length recv = 16 + length env"
    using arg_cong [OF assms(1), of length] assms(2,4) by (simp add: recv_def)
  have "remaining rb = be_bytes32 (crc32_chunks [cid, env])
      @ be_bytes32 (of_nat (16 + length env)) @ take 16 recv @ drop 16 recv @ rest"
    by (simp add: rb_def read_carrier_def)
  note header = correlated_header [OF this]
  have endian: "rendian rb = BigEndian"
    by (simp add: rb_def read_carrier_def carrier_endian_def)
  note [simp] = unat_frame_size [OF assms(3)]
  have crc: "crc32_chunks [take 16 recv, drop 16 recv] = crc32_chunks [pre, mid', post]"
  proof -
    have "concat [take 16 recv, drop 16 recv] = concat [pre, mid', post]"
      by simp (simp add: recv_def)
    then show ?thesis
      by (simp only: crc32_chunks_concat)
  qed
  have "crc32_chunks [pre, mid', post] \<noteq> crc32_chunks [cid, env]"
    using crc_burst [of mid' mid pre post] assms
    by (simp add: crc32_chunks_concat xor_cancel del: fold_append)
  then have "fst (read_correlated_message rb) =
      Err (CrcMismatch (crc32_chunks [cid, env]) (crc32_chunks [pre, mid', post]))"
    using header endian len crc
    by (simp add: read_correlated_message_def left_remaining Let_def del: remaining_advance of_nat_add)
  then show ?thesis
    by (simp add: rb_def recv_def)
qed

theorem corrupted_frame_rejected_witness:
  "fst (read_correlated_message (read_carrier (be_bytes32 (crc32_chunks [nil_uuid, [0, 1, 7]])
      @ be_bytes32 (of_nat (16 + length [0 :: u8, 1, 7])) @ (nil_uuid @ [0, 1]) @ [9] @ [] @ []))) =
    Err (CrcMismatch (crc32_chunks [nil_uuid, [0, 1, 7]]) (crc32_chunks [nil_uuid @ [0, 1], [9], []]))"
  by (rule corrupted_frame_rejected [of _ "[7]"]) (simp_all add: nil_uuid_def)

end
