(* ===== verification/Session_Service.thy ===== *)
theory Session_Service
  imports Grid_Session Message_Envelope State_Bundle
begin

text \<open>
  \<^verbatim>\<open>session_service.rs\<close>: the actor that owns the sessions of a client. It takes commands of the
  handle and the events of the carriers, and tells the application what happened.

  The events it has sent are kept as a list, and \<open>sv_rx_open\<close> says whether the application still
  listens; that the actor waits while 4096 events are pending is not represented. What the carrier
  of a session will report is the list at its index in \<open>sv_streams\<close>: the task spawned for the
  session forwards these events, tagged with the session, into the inbox of the actor, and a last
  one when the carrier is gone. The wire capture of debug builds is left out.
\<close>

section \<open>Events\<close>

datatype close_reason =
    CarrierReason disconnect_reason
  | DisconnectAllReason
  | TransportReason string
  | NotReadyReason gridmate_error
  | ReceiverClosedReason
  | SendReason gridmate_error

datatype event_error = FromCarrier carrier_error | FromListener string

datatype event =
    EvReceived (ev_session: nat) u8 bytes
  | EvTyped (ev_session: nat) u8 u32 bytes
  | EvSent (ev_session: nat) bytes u8 data_reliability nat "u32 option"
  | EvReady (ev_session: nat)
  | EvDisconnected (ev_session: nat) close_reason
  | EvError event_error

definition state_bundle_type_index :: u32 where
  "state_bundle_type_index = 8"

definition state_bundle_type_name :: string where
  "state_bundle_type_name = ''Amazon::Hub::ReplicatedStateBundle''"

definition is_state_bundle_type :: "network_schema \<Rightarrow> u32 \<Rightarrow> bool" where
  "is_state_bundle_type schema i \<longleftrightarrow>
     i = state_bundle_type_index \<or> name_for_type_index schema i = Some state_bundle_type_name"

definition typed_message :: "'m message_type \<Rightarrow> event \<Rightarrow> marshaler_error + 'm option" where
  "typed_message t ev = (case ev of
     EvTyped sid ch i data \<Rightarrow>
       if i \<noteq> msg_type_index t then Ok None
       else map_sum id Some (fst (c_unmarshal (msg_codec t) (read_new carrier_endian data)))
   | _ \<Rightarrow> Ok None)"

definition event_state_bundle :: "network_schema \<Rightarrow> event \<Rightarrow> marshaler_error + bundle_view option" where
  "event_state_bundle schema ev = (case ev of
     EvTyped sid ch i data \<Rightarrow>
       if \<not> is_state_bundle_type schema i then Ok None
       else map_sum id Some (fst (view_read_from (read_new carrier_endian data)))
   | _ \<Rightarrow> Ok None)"

section \<open>The state of the actor\<close>

record service =
  sv_sessions :: "grid_session option list"
  sv_active :: nat
  sv_events :: "event list"
  sv_rx_open :: bool
  sv_tasks :: "nat set"
  sv_ready :: "nat set"
  sv_streams :: "carrier_event list list"
  sv_inbox :: "(nat \<times> carrier_event) list"
  sv_dropped :: "grid_session list"

definition service_new :: service where
  "service_new = \<lparr>sv_sessions = [], sv_active = 0, sv_events = [], sv_rx_open = True,
     sv_tasks = {}, sv_ready = {}, sv_streams = [], sv_inbox = [], sv_dropped = []\<rparr>"

definition emit :: "event \<Rightarrow> service \<Rightarrow> bool \<times> service" where
  "emit ev sv = (if sv_rx_open sv then (True, sv\<lparr>sv_events := sv_events sv @ [ev]\<rparr>) else (False, sv))"

definition emit_all :: "event list \<Rightarrow> service \<Rightarrow> service" where
  "emit_all evs sv = fold (\<lambda>ev sv. snd (emit ev sv)) evs sv"

section \<open>Dispatching a datagram\<close>

definition event_from_message_envelope :: "network_schema \<Rightarrow> nat \<Rightarrow> u8 \<Rightarrow> envelope_view \<Rightarrow> event option" where
  "event_from_message_envelope schema sid ch view =
     map_option (\<lambda>i. EvTyped sid ch i (ev_body view)) (resolved_type_index schema (ev_type_id view))"

text \<open>The loop ends because every frame that is read, with a message or without, has a byte.\<close>

function dispatch_loop :: "network_schema \<Rightarrow> nat \<Rightarrow> u8 \<Rightarrow> read_buffer \<Rightarrow> event list" where
  "dispatch_loop schema sid ch rb =
     (if rb_is_empty rb then []
      else case read_sized_message rb of
        (Inr (meta, view), rb') \<Rightarrow>
          (case event_from_message_envelope schema sid ch view of Some ev \<Rightarrow> [ev] | None \<Rightarrow> [])
            @ dispatch_loop schema sid ch rb'
      | (Inl EmptyEnvelope, rb') \<Rightarrow> dispatch_loop schema sid ch rb'
      | (Inl e, rb') \<Rightarrow> [])"
  by pat_completeness auto
termination
  by (relation "measure (\<lambda>(_, _, _, rb). left rb)") (auto dest!: read_sized_progress [OF sym])

declare dispatch_loop.simps [simp del]

definition dispatch_messages :: "network_schema \<Rightarrow> nat \<Rightarrow> u8 \<Rightarrow> bytes \<Rightarrow> event list" where
  "dispatch_messages schema sid ch data =
     (if data = [] then [] else dispatch_loop schema sid ch (read_new carrier_endian data))"

section \<open>Session bookkeeping\<close>

definition is_live_session :: "nat \<Rightarrow> service \<Rightarrow> bool" where
  "is_live_session sid sv \<longleftrightarrow> sid < length (sv_sessions sv) \<and> sv_sessions sv ! sid \<noteq> None"

definition live_session :: "nat \<Rightarrow> service \<Rightarrow> grid_session option" where
  "live_session sid sv = (if sid < length (sv_sessions sv) then sv_sessions sv ! sid else None)"

definition send_ready_if_needed :: "nat \<Rightarrow> service \<Rightarrow> service" where
  "send_ready_if_needed sid sv =
     (if sid \<in> sv_ready sv then sv
      else (snd (emit (EvReady sid) sv))\<lparr>sv_ready := insert sid (sv_ready sv)\<rparr>)"

definition close_session :: "nat \<Rightarrow> close_reason option \<Rightarrow> service \<Rightarrow> service" where
  "close_session sid reason sv = (case live_session sid sv of
     None \<Rightarrow> sv
   | Some s \<Rightarrow>
       let sv1 = sv\<lparr>sv_sessions := (sv_sessions sv)[sid := None],
                    sv_dropped := sv_dropped sv @ [session_drop s],
                    sv_active := sv_active sv - 1,
                    sv_tasks := sv_tasks sv - {sid},
                    sv_ready := sv_ready sv - {sid}\<rparr>
       in (case reason of None \<Rightarrow> sv1 | Some r \<Rightarrow> snd (emit (EvDisconnected sid r) sv1)))"

definition handle_create_session ::
    "(carrier_desc \<Rightarrow> (unit + carrier_event list)) \<Rightarrow> carrier_desc \<Rightarrow> service \<Rightarrow> (gridmate_error + nat) \<times> service" where
  "handle_create_session connect desc sv = (case session_join connect desc of
     Inl e \<Rightarrow> (Err e, sv)
   | Inr s \<Rightarrow> (case carrier s of
       None \<Rightarrow> (Err (InvalidState ''Carrier missing''), sv)
     | Some h \<Rightarrow> (case take_event_receiver h of
         (None, _) \<Rightarrow> (Err (InvalidState ''Carrier receiver unavailable''), sv)
       | (Some rx, h') \<Rightarrow>
           let sid = length (sv_sessions sv) in
           (Ok sid, sv\<lparr>sv_streams := sv_streams sv @ [rx @ [Disconnected ShuttingDown]],
                       sv_tasks := insert sid (sv_tasks sv),
                       sv_sessions := sv_sessions sv @ [Some (s\<lparr>carrier := Some h'\<rparr>)],
                       sv_active := sv_active sv + 1\<rparr>))))"

definition parse_send_type_index :: "network_schema \<Rightarrow> bytes \<Rightarrow> u32 option" where
  "parse_send_type_index schema data =
     (case fst (read_correlated_message (read_new carrier_endian data)) of
        Inl _ \<Rightarrow> None
      | Inr (_, view) \<Rightarrow> resolved_type_index schema (ev_type_id view))"

definition handle_send_message ::
    "network_schema \<Rightarrow> nat \<Rightarrow> bytes \<Rightarrow> u8 \<Rightarrow> data_reliability \<Rightarrow> nat \<Rightarrow> service \<Rightarrow> ((gridmate_error + unit) \<times> service) option" where
  "handle_send_message schema sid data ch rel priority sv = (case live_session sid sv of
     None \<Rightarrow> Some (Err (InvalidState ''Session not found''), sv)
   | Some s \<Rightarrow> map_option (\<lambda>(r, s').
       let sv1 = sv\<lparr>sv_sessions := (sv_sessions sv)[sid := Some s']\<rparr> in
       case r of
         Inl e \<Rightarrow> (Err e, sv1)
       | Inr _ \<Rightarrow> (Ok (), snd (emit (EvSent sid data ch rel priority (parse_send_type_index schema data)) sv1)))
       (session_send ch data rel priority s))"

definition live_sessions :: "service \<Rightarrow> nat list" where
  "live_sessions sv = filter (\<lambda>sid. is_live_session sid sv) [0..<length (sv_sessions sv)]"

definition handle_disconnect_all :: "service \<Rightarrow> service" where
  "handle_disconnect_all sv =
     fold (\<lambda>sid. close_session sid (Some DisconnectAllReason)) (live_sessions sv) sv"

section \<open>Messages and carrier events\<close>

datatype service_message =
    CreateSession carrier_desc
  | SendOn nat bytes u8 data_reliability nat
  | GetNumSessions
  | DisconnectAll
  | ShutdownService

datatype service_reply =
    SessionReply "gridmate_error + nat"
  | SendReply "gridmate_error + unit"
  | CountReply nat
  | DoneReply

record service_env =
  se_schema :: network_schema
  se_connect :: "carrier_desc \<Rightarrow> unit + carrier_event list"

text \<open>The first component is the flag of the source: whether the loop goes on.\<close>

definition handle_message :: "service_env \<Rightarrow> service_message \<Rightarrow> service \<Rightarrow> (bool \<times> service_reply \<times> service) option" where
  "handle_message env msg sv = (case msg of
     CreateSession desc \<Rightarrow>
       (case handle_create_session (se_connect env) desc sv of (r, sv') \<Rightarrow> Some (True, SessionReply r, sv'))
   | SendOn sid data ch rel priority \<Rightarrow>
       map_option (\<lambda>(r, sv'). (True, SendReply r, sv'))
         (handle_send_message (se_schema env) sid data ch rel priority sv)
   | GetNumSessions \<Rightarrow> Some (True, CountReply (sv_active sv), sv)
   | DisconnectAll \<Rightarrow> Some (True, DoneReply, handle_disconnect_all sv)
   | ShutdownService \<Rightarrow> Some (False, DoneReply, handle_disconnect_all sv))"

definition deliver_message :: "network_schema \<Rightarrow> nat \<Rightarrow> u8 \<Rightarrow> bytes \<Rightarrow> service \<Rightarrow> service" where
  "deliver_message schema sid ch data sv =
     (case emit (EvReceived sid ch data) (send_ready_if_needed sid sv) of
        (False, sv1) \<Rightarrow> sv1
      | (True, sv1) \<Rightarrow>
          (case channel_from_u8 ch of
             None \<Rightarrow> sv1
           | Some c \<Rightarrow>
               if carries_hub_messages c then emit_all (dispatch_messages schema sid ch data) sv1 else sv1))"

definition handle_carrier_event :: "network_schema \<Rightarrow> nat \<times> carrier_event \<Rightarrow> service \<Rightarrow> service" where
  "handle_carrier_event schema ev sv = (case ev of (sid, msg) \<Rightarrow>
     case msg of
       Connected version \<Rightarrow> send_ready_if_needed sid sv
     | Disconnected reason \<Rightarrow> close_session sid (Some (CarrierReason reason)) sv
     | CarrierFailed e \<Rightarrow> snd (emit (EvError (FromCarrier e)) sv)
     | MessageReceived ch data \<Rightarrow>
         if is_live_session sid sv then deliver_message schema sid ch data sv else sv)"

text \<open>
  The tasks around the actor: the application sends a command, a forwarder moves the next event of
  its carrier into the inbox, the actor takes the head of the inbox, or the application stops
  listening. Which of them goes next is not determined.
\<close>

inductive service_step :: "service_env \<Rightarrow> service \<Rightarrow> service \<Rightarrow> bool" for env where
  command: "handle_message env msg sv = Some (go_on, reply, sv') \<Longrightarrow> service_step env sv sv'"
| forward: "i < length (sv_streams sv) \<Longrightarrow> sv_streams sv ! i = ev # evs \<Longrightarrow>
    service_step env sv (sv\<lparr>sv_streams := (sv_streams sv)[i := evs], sv_inbox := sv_inbox sv @ [(i, ev)]\<rparr>)"
| event: "sv_inbox sv = ev # evs \<Longrightarrow>
    service_step env sv (handle_carrier_event (se_schema env) ev (sv\<lparr>sv_inbox := evs\<rparr>))"
| hang_up: "service_step env sv (sv\<lparr>sv_rx_open := False\<rparr>)"

inductive service_reachable :: "service_env \<Rightarrow> service \<Rightarrow> bool" for env where
  start: "service_reachable env service_new"
| step: "service_reachable env sv \<Longrightarrow> service_step env sv sv' \<Longrightarrow> service_reachable env sv'"

inductive_cases service_stepE: "service_step env sv sv'"

section \<open>The books are in order\<close>

definition service_ok :: "service \<Rightarrow> bool" where
  "service_ok sv \<longleftrightarrow>
     sv_active sv = length (live_sessions sv)
     \<and> sv_tasks sv = set (live_sessions sv)
     \<and> length (sv_streams sv) = length (sv_sessions sv)
     \<and> sv_ready sv \<subseteq> {..<length (sv_sessions sv)}
     \<and> list_all (\<lambda>e. fst e < length (sv_sessions sv)) (sv_inbox sv)"

lemma emit_frame [simp]:
  "sv_sessions (snd (emit ev sv)) = sv_sessions sv" "sv_active (snd (emit ev sv)) = sv_active sv"
  "sv_tasks (snd (emit ev sv)) = sv_tasks sv" "sv_streams (snd (emit ev sv)) = sv_streams sv"
  "sv_ready (snd (emit ev sv)) = sv_ready sv" "sv_inbox (snd (emit ev sv)) = sv_inbox sv"
  "sv_rx_open (snd (emit ev sv)) = sv_rx_open sv" "fst (emit ev sv) = sv_rx_open sv"
  by (simp_all add: emit_def)

lemma emit_all_frame [simp]:
  "sv_sessions (emit_all evs sv) = sv_sessions sv" "sv_active (emit_all evs sv) = sv_active sv"
  "sv_tasks (emit_all evs sv) = sv_tasks sv" "sv_streams (emit_all evs sv) = sv_streams sv"
  "sv_ready (emit_all evs sv) = sv_ready sv" "sv_inbox (emit_all evs sv) = sv_inbox sv"
  "sv_rx_open (emit_all evs sv) = sv_rx_open sv"
  by (induction evs arbitrary: sv) (simp_all add: emit_all_def)

lemma emit_all_events: "sv_events (emit_all evs sv) = sv_events sv @ (if sv_rx_open sv then evs else [])"
  by (induction evs arbitrary: sv) (simp_all add: emit_all_def emit_def)

lemma ready_frame [simp]:
  "sv_sessions (send_ready_if_needed sid sv) = sv_sessions sv"
  "sv_active (send_ready_if_needed sid sv) = sv_active sv"
  "sv_tasks (send_ready_if_needed sid sv) = sv_tasks sv"
  "sv_streams (send_ready_if_needed sid sv) = sv_streams sv"
  "sv_inbox (send_ready_if_needed sid sv) = sv_inbox sv"
  "sv_ready (send_ready_if_needed sid sv) = insert sid (sv_ready sv)"
  "sv_rx_open (send_ready_if_needed sid sv) = sv_rx_open sv"
  by (auto simp: send_ready_if_needed_def insert_absorb)

lemma is_live_frame: "sv_sessions sv' = sv_sessions sv \<Longrightarrow> is_live_session sid sv' = is_live_session sid sv"
  by (simp add: is_live_session_def)

lemma live_frame: "sv_sessions sv' = sv_sessions sv \<Longrightarrow> live_sessions sv' = live_sessions sv"
  by (simp add: live_sessions_def is_live_session_def)

lemma distinct_live [simp]: "distinct (live_sessions sv)"
  by (simp add: live_sessions_def)

lemma set_live: "set (live_sessions sv) = {sid. is_live_session sid sv}"
  by (auto simp: live_sessions_def is_live_session_def)

lemma live_iff: "is_live_session sid sv \<longleftrightarrow> live_session sid sv \<noteq> None"
  by (simp add: is_live_session_def live_session_def)

lemma length_live: "length (live_sessions sv) = card {sid. is_live_session sid sv}"
  by (metis distinct_live distinct_card set_live)

lemma finite_live [simp]: "finite {sid. is_live_session sid sv}"
  by (metis List.finite_set set_live)

lemma deliver_frame [simp]:
  "sv_sessions (deliver_message schema sid ch data sv) = sv_sessions sv"
  "sv_active (deliver_message schema sid ch data sv) = sv_active sv"
  "sv_tasks (deliver_message schema sid ch data sv) = sv_tasks sv"
  "sv_streams (deliver_message schema sid ch data sv) = sv_streams sv"
  "sv_inbox (deliver_message schema sid ch data sv) = sv_inbox sv"
  "sv_ready (deliver_message schema sid ch data sv) = insert sid (sv_ready sv)"
  by (simp_all add: deliver_message_def emit_def split: option.split)

lemma close_session_dead: "live_session sid sv = None \<Longrightarrow> close_session sid reason sv = sv"
  by (simp add: close_session_def)

lemma close_session_frame [simp]:
  "length (sv_sessions (close_session sid reason sv)) = length (sv_sessions sv)"
  "sv_streams (close_session sid reason sv) = sv_streams sv"
  "sv_inbox (close_session sid reason sv) = sv_inbox sv"
  "sv_rx_open (close_session sid reason sv) = sv_rx_open sv"
  by (simp_all add: close_session_def Let_def split: option.split)

lemma close_session_live:
  "is_live_session i (close_session sid reason sv) \<longleftrightarrow> is_live_session i sv \<and> i \<noteq> sid"
  by (auto simp: close_session_def is_live_session_def live_session_def Let_def nth_list_update
      split: option.splits if_splits)

lemma service_ok_close: "service_ok sv \<Longrightarrow> service_ok (close_session sid reason sv)"
proof (cases "is_live_session sid sv")
  case True
  then obtain s where s: "live_session sid sv = Some s"
    by (auto simp: live_iff)
  have "{i. is_live_session i (close_session sid reason sv)} = {i. is_live_session i sv} - {sid}"
    by (auto simp: close_session_live)
  moreover have "sv_active (close_session sid reason sv) = sv_active sv - 1"
    "sv_tasks (close_session sid reason sv) = sv_tasks sv - {sid}"
    "sv_ready (close_session sid reason sv) = sv_ready sv - {sid}"
    using s by (simp_all add: close_session_def Let_def split: option.split)
  ultimately show "service_ok sv \<Longrightarrow> ?thesis"
    using True by (auto simp: service_ok_def length_live set_live)
qed (simp add: close_session_dead live_iff)

lemma service_ok_disconnect_all: "service_ok sv \<Longrightarrow> service_ok (handle_disconnect_all sv)"
proof -
  have "service_ok sv \<Longrightarrow> service_ok (fold (\<lambda>sid. close_session sid r) xs sv)" for xs r
    by (induction xs arbitrary: sv) (simp_all add: service_ok_close)
  then show "service_ok sv \<Longrightarrow> ?thesis"
    by (simp add: handle_disconnect_all_def)
qed

lemma service_ok_frame:
  assumes "service_ok sv" and "\<And>i. is_live_session i sv' = is_live_session i sv"
    and "length (sv_sessions sv') = length (sv_sessions sv)"
    and "sv_active sv' = sv_active sv" "sv_tasks sv' = sv_tasks sv"
    and "length (sv_streams sv') = length (sv_streams sv)"
    and "sv_ready sv' \<subseteq> {..<length (sv_sessions sv)}"
    and "list_all (\<lambda>e. fst e < length (sv_sessions sv)) (sv_inbox sv')"
  shows "service_ok sv'"
  using assms by (simp add: service_ok_def length_live set_live)

lemma service_ok_create:
  assumes "service_ok sv"
  shows "service_ok (snd (handle_create_session connect desc sv))"
proof -
  have "service_ok (sv\<lparr>sv_streams := sv_streams sv @ [rx], sv_tasks := insert (length (sv_sessions sv)) (sv_tasks sv),
      sv_sessions := sv_sessions sv @ [Some s], sv_active := sv_active sv + 1\<rparr>)" (is "service_ok ?sv") for rx s
  proof -
    have "{i. is_live_session i ?sv} = insert (length (sv_sessions sv)) {i. is_live_session i sv}"
      by (auto simp: is_live_session_def nth_append)
    moreover have "\<not> is_live_session (length (sv_sessions sv)) sv"
      by (simp add: is_live_session_def)
    ultimately show ?thesis
      using assms by (auto simp: service_ok_def length_live set_live elim!: list.pred_mono_strong)
  qed
  with assms show ?thesis
    by (auto simp: handle_create_session_def take_event_receiver_def Let_def split: sum.split option.split)
qed

lemma service_ok_send:
  assumes "service_ok sv" and "handle_send_message schema sid data ch rel priority sv = Some (r, sv')"
  shows "service_ok sv'"
proof -
  have "\<And>i. is_live_session i sv' = is_live_session i sv" "length (sv_sessions sv') = length (sv_sessions sv)"
    "sv_active sv' = sv_active sv" "sv_tasks sv' = sv_tasks sv" "sv_streams sv' = sv_streams sv"
    "sv_ready sv' = sv_ready sv" "sv_inbox sv' = sv_inbox sv"
    using assms(2)
    by (auto simp: handle_send_message_def live_session_def is_live_session_def Let_def nth_list_update
        split: option.splits if_splits sum.splits)
  with assms(1) show ?thesis
    by (intro service_ok_frame [OF assms(1)]) (simp_all add: service_ok_def)
qed

lemma service_ok_created:
  "service_ok sv \<Longrightarrow> handle_create_session connect desc sv = (r, sv') \<Longrightarrow> service_ok sv'"
  using service_ok_create [of sv connect desc] by simp

lemma service_ok_message:
  "service_ok sv \<Longrightarrow> handle_message env msg sv = Some (go_on, reply, sv') \<Longrightarrow> service_ok sv'"
  by (cases msg)
    (auto simp: handle_message_def service_ok_disconnect_all split: prod.splits
      intro: service_ok_send service_ok_created)

lemma service_ok_event:
  assumes "service_ok sv" and "fst ev < length (sv_sessions sv)"
  shows "service_ok (handle_carrier_event schema ev sv)"
proof (cases ev)
  case (Pair sid msg)
  note frame = service_ok_frame [OF assms(1)] is_live_frame
  from assms show ?thesis
    unfolding Pair
    by (cases msg) (auto simp: handle_carrier_event_def service_ok_close service_ok_def [of sv] intro!: frame)
qed

lemma service_ok_reachable: "service_reachable env sv \<Longrightarrow> service_ok sv"
proof (induction rule: service_reachable.induct)
  case start
  then show ?case
    by (simp add: service_ok_def service_new_def live_sessions_def)
next
  case (step sv sv')
  from step.hyps(2) show ?case
  proof (cases rule: service_step.cases)
    case (command msg go_on reply)
    with step.IH show ?thesis by (blast intro: service_ok_message)
  next
    case (forward i ev evs)
    with step.IH show ?thesis
      by (intro service_ok_frame [OF step.IH]) (auto simp: service_ok_def is_live_session_def)
  next
    case (event ev evs)
    have "service_ok (sv\<lparr>sv_inbox := evs\<rparr>)"
      using step.IH event by (intro service_ok_frame [OF step.IH]) (auto simp: service_ok_def is_live_session_def)
    moreover have "fst ev < length (sv_sessions sv)"
      using step.IH event by (auto simp: service_ok_def)
    ultimately show ?thesis
      using event by (simp add: service_ok_event)
  next
    case hang_up
    with step.IH show ?thesis
      by (intro service_ok_frame [OF step.IH]) (auto simp: service_ok_def is_live_session_def)
  qed
qed

section \<open>What the application is told\<close>

text \<open>
  A message of a session, or its end. \<open>EvReady\<close> is not among them: the actor can report it late, as
  \<open>ready_after_disconnect\<close> shows.
\<close>

fun speaks :: "nat \<Rightarrow> event \<Rightarrow> bool" where
  "speaks sid (EvReceived s ch data) \<longleftrightarrow> s = sid"
| "speaks sid (EvTyped s ch i data) \<longleftrightarrow> s = sid"
| "speaks sid (EvSent s data ch rel priority i) \<longleftrightarrow> s = sid"
| "speaks sid (EvDisconnected s reason) \<longleftrightarrow> s = sid"
| "speaks sid (EvReady s) \<longleftrightarrow> False"
| "speaks sid (EvError e) \<longleftrightarrow> False"

fun closed_by :: "nat \<Rightarrow> event \<Rightarrow> bool" where
  "closed_by sid (EvDisconnected s reason) \<longleftrightarrow> s = sid"
| "closed_by sid ev \<longleftrightarrow> False"

text \<open>After the event that closes a session there is no message of it and no second end.\<close>

fun lifecycle :: "event list \<Rightarrow> bool" where
  "lifecycle [] \<longleftrightarrow> True"
| "lifecycle (ev # evs) \<longleftrightarrow> list_all (\<lambda>e. \<not> (closed_by (ev_session ev) ev \<and> speaks (ev_session ev) e)) evs \<and> lifecycle evs"

text \<open>What is received on a session comes after the event that says it is ready.\<close>

fun announced :: "nat set \<Rightarrow> event list \<Rightarrow> bool" where
  "announced seen [] \<longleftrightarrow> True"
| "announced seen (EvReady s # evs) \<longleftrightarrow> announced (insert s seen) evs"
| "announced seen (EvReceived s ch data # evs) \<longleftrightarrow> s \<in> seen \<and> announced seen evs"
| "announced seen (EvTyped s ch i data # evs) \<longleftrightarrow> s \<in> seen \<and> announced seen evs"
| "announced seen (EvSent s data ch rel priority i # evs) \<longleftrightarrow> announced seen evs"
| "announced seen (EvDisconnected s reason # evs) \<longleftrightarrow> announced seen evs"
| "announced seen (EvError e # evs) \<longleftrightarrow> announced seen evs"

lemma closed_by_iff: "closed_by sid ev \<longleftrightarrow> (\<exists>r. ev = EvDisconnected sid r)"
  by (cases ev) auto

lemma lifecycle_snoc:
  "lifecycle (evs @ [e]) \<longleftrightarrow> lifecycle evs \<and> (\<forall>sid. (\<exists>ev \<in> set evs. closed_by sid ev) \<longrightarrow> \<not> speaks sid e)"
  by (induction evs) (auto simp: closed_by_iff)

fun hears :: "nat \<Rightarrow> event \<Rightarrow> bool" where
  "hears sid (EvReceived s ch data) \<longleftrightarrow> s = sid"
| "hears sid (EvTyped s ch i data) \<longleftrightarrow> s = sid"
| "hears sid ev \<longleftrightarrow> False"

lemma announced_one: "announced seen [e] \<longleftrightarrow> (\<forall>sid. hears sid e \<longrightarrow> sid \<in> seen)"
  by (cases e) auto

lemma announced_snoc:
  "announced seen (evs @ [e]) \<longleftrightarrow>
    announced seen evs \<and> (\<forall>sid. hears sid e \<longrightarrow> sid \<in> seen \<or> EvReady sid \<in> set evs)"
proof (induction evs arbitrary: seen)
  case Nil
  then show ?case by (simp add: announced_one)
next
  case (Cons ev evs)
  then show ?case by (cases ev) auto
qed

definition events_ok :: "service \<Rightarrow> bool" where
  "events_ok sv \<longleftrightarrow> lifecycle (sv_events sv) \<and> announced {} (sv_events sv)
     \<and> (\<forall>sid. (\<exists>ev \<in> set (sv_events sv). closed_by sid ev) \<longrightarrow>
          \<not> is_live_session sid sv \<and> sid < length (sv_sessions sv))
     \<and> (sv_rx_open sv \<longrightarrow> (\<forall>sid \<in> sv_ready sv. EvReady sid \<in> set (sv_events sv)))"

lemma is_live_events [simp]: "is_live_session sid (sv\<lparr>sv_events := evs\<rparr>) = is_live_session sid sv"
  by (simp add: is_live_session_def)

lemma is_live_emit [simp]: "is_live_session sid (snd (emit ev sv)) = is_live_session sid sv"
  by (simp add: is_live_session_def)

lemma history_emit:
  assumes "events_ok sv" and "\<And>sid. speaks sid ev \<Longrightarrow> is_live_session sid sv"
    and "\<And>sid. hears sid ev \<Longrightarrow> sid \<in> sv_ready sv" and "\<And>sid. \<not> closed_by sid ev"
  shows "events_ok (snd (emit ev sv))"
  using assms
  by (auto simp: events_ok_def emit_def lifecycle_snoc announced_snoc)

lemma history_ready:
  assumes "events_ok sv"
  shows "events_ok (send_ready_if_needed sid sv)"
proof (cases "sid \<in> sv_ready sv")
  case False
  have "events_ok (snd (emit (EvReady sid) sv))"
    using assms by (intro history_emit) simp_all
  moreover have "EvReady sid \<in> set (sv_events (snd (emit (EvReady sid) sv)))" if "sv_rx_open sv"
    using that by (simp add: emit_def)
  ultimately show ?thesis
    using False by (auto simp: send_ready_if_needed_def events_ok_def is_live_session_def)
qed (use assms in \<open>simp add: send_ready_if_needed_def\<close>)

lemma close_session_effect:
  assumes "live_session sid sv = Some s"
  shows "sv_events (close_session sid reason sv) = sv_events sv
      @ (case reason of Some r \<Rightarrow> if sv_rx_open sv then [EvDisconnected sid r] else [] | None \<Rightarrow> [])"
    and "sv_ready (close_session sid reason sv) = sv_ready sv - {sid}"
  using assms by (simp_all add: close_session_def Let_def emit_def split: option.split)

lemma history_close:
  assumes "events_ok sv"
  shows "events_ok (close_session sid reason sv)"
proof (cases "live_session sid sv")
  case (Some s)
  then have sid: "sid < length (sv_sessions sv)"
    by (auto simp: live_session_def split: if_splits)
  have open_sid: "\<not> closed_by sid ev" if "ev \<in> set (sv_events sv)" for ev
    using assms Some that by (auto simp: events_ok_def live_iff)
  have life: "lifecycle (sv_events sv @ [EvDisconnected sid r])"
    and ann: "announced {} (sv_events sv @ [EvDisconnected sid r])" for r
    using assms open_sid by (auto simp: events_ok_def lifecycle_snoc announced_snoc)
  show ?thesis
    unfolding events_ok_def close_session_effect [OF Some] close_session_frame close_session_live
    using assms life ann sid by (cases reason) (simp_all add: events_ok_def)
qed (simp add: close_session_dead assms)

lemma history_emit_all:
  assumes "events_ok sv" and "list_all (\<lambda>ev. \<forall>sid. (speaks sid ev \<longrightarrow> is_live_session sid sv)
    \<and> (hears sid ev \<longrightarrow> sid \<in> sv_ready sv) \<and> \<not> closed_by sid ev) evs"
  shows "events_ok (emit_all evs sv)"
  using assms
proof (induction evs arbitrary: sv)
  case (Cons ev evs)
  have "events_ok (snd (emit ev sv))"
    using Cons.prems by (intro history_emit) simp_all
  with Cons show ?case
    by (simp add: emit_all_def)
qed (simp add: emit_all_def)

lemma dispatch_loop_end: "rb_is_empty rb \<Longrightarrow> dispatch_loop schema sid ch rb = []"
  by (simp add: dispatch_loop.simps)

lemma dispatch_loop_message:
  "\<not> rb_is_empty rb \<Longrightarrow> read_sized_message rb = (Inr (meta, view), rb') \<Longrightarrow>
    dispatch_loop schema sid ch rb =
      (case event_from_message_envelope schema sid ch view of Some ev \<Rightarrow> [ev] | None \<Rightarrow> [])
        @ dispatch_loop schema sid ch rb'"
  by (simp add: dispatch_loop.simps [of schema sid ch rb])

lemma dispatch_loop_empty_envelope:
  "\<not> rb_is_empty rb \<Longrightarrow> read_sized_message rb = (Inl EmptyEnvelope, rb') \<Longrightarrow>
    dispatch_loop schema sid ch rb = dispatch_loop schema sid ch rb'"
  by (simp add: dispatch_loop.simps [of schema sid ch rb])

lemma dispatch_loop_error:
  "read_sized_message rb = (Inl e, rb') \<Longrightarrow> e \<noteq> EmptyEnvelope \<Longrightarrow> dispatch_loop schema sid ch rb = []"
  by (cases e) (simp_all add: dispatch_loop.simps [of schema sid ch rb])

lemma dispatch_loop_typed:
  "list_all (\<lambda>ev. \<exists>i body. ev = EvTyped sid ch i body) (dispatch_loop schema sid ch rb)"
proof (induction "left rb" arbitrary: rb rule: less_induct)
  case less
  show ?case
  proof (cases "rb_is_empty rb")
    case False
    obtain r rb' where read: "read_sized_message rb = (r, rb')"
      by fastforce
    show ?thesis
    proof (cases r)
      case (Inl e)
      with read False less read_sized_progress [OF read] show ?thesis
        by (cases "e = EmptyEnvelope") (simp_all add: dispatch_loop_empty_envelope dispatch_loop_error)
    next
      case (Inr mv)
      obtain meta view where "mv = (meta, view)" by fastforce
      with read False less read_sized_progress [OF read] Inr show ?thesis
        by (auto simp: dispatch_loop_message event_from_message_envelope_def split: option.split)
    qed
  qed (simp add: dispatch_loop_end)
qed

lemma history_deliver:
  assumes "events_ok sv" and "is_live_session sid sv"
  shows "events_ok (deliver_message schema sid ch data sv)"
proof -
  let ?sv = "snd (emit (EvReceived sid ch data) (send_ready_if_needed sid sv))"
  have live: "is_live_session sid ?sv"
    using assms(2) by (simp add: is_live_session_def)
  have 1: "events_ok ?sv"
    using assms by (intro history_emit history_ready) (simp_all add: is_live_session_def)
  have "list_all (\<lambda>ev. \<exists>i body. ev = EvTyped sid ch i body) (dispatch_messages schema sid ch data)"
    by (simp add: dispatch_messages_def dispatch_loop_typed)
  then have "list_all (\<lambda>ev. \<forall>i. (speaks i ev \<longrightarrow> is_live_session i ?sv)
      \<and> (hears i ev \<longrightarrow> i \<in> sv_ready ?sv) \<and> \<not> closed_by i ev) (dispatch_messages schema sid ch data)"
    by (rule list.pred_mono_strong) (use live in auto)
  with 1 have "events_ok (emit_all (dispatch_messages schema sid ch data) ?sv)"
    by (rule history_emit_all)
  with 1 show ?thesis
    by (auto simp: deliver_message_def split: prod.split option.split bool.split)
qed

lemma history_frame:
  assumes "events_ok sv" and "sv_events sv' = sv_events sv" and "sv_rx_open sv' \<Longrightarrow> sv_rx_open sv"
    and "sv_ready sv' \<subseteq> sv_ready sv" and "length (sv_sessions sv) \<le> length (sv_sessions sv')"
    and "\<And>sid. sid < length (sv_sessions sv) \<Longrightarrow> is_live_session sid sv' \<Longrightarrow> is_live_session sid sv"
  shows "events_ok sv'"
  using assms by (auto simp: events_ok_def)

lemma history_step:
  assumes "service_step env sv sv'" and "events_ok sv" and "service_ok sv"
  shows "events_ok sv'"
  using assms(1)
proof (cases rule: service_step.cases)
  case (command msg go_on reply)
  have all: "events_ok (handle_disconnect_all sv)"
  proof -
    have "events_ok sv \<Longrightarrow> events_ok (fold (\<lambda>sid. close_session sid r) xs sv)" for xs r
      by (induction xs arbitrary: sv) (simp_all add: history_close)
    with assms(2) show ?thesis by (simp add: handle_disconnect_all_def)
  qed
  show ?thesis
  proof (cases msg)
    case (CreateSession desc)
    with command show ?thesis
      by (intro history_frame [OF assms(2)])
        (auto simp: handle_message_def handle_create_session_def take_event_receiver_def Let_def
          is_live_session_def nth_append split: sum.splits option.splits)
  next
    case (SendOn sid data ch rel priority)
    with command obtain r where send: "handle_send_message (se_schema env) sid data ch rel priority sv = Some (r, sv')"
      by (auto simp: handle_message_def)
    show ?thesis
    proof (cases "live_session sid sv")
      case (Some s)
      then have sid: "sid < length (sv_sessions sv)"
        by (auto simp: live_session_def split: if_splits)
      have frame: "events_ok (sv\<lparr>sv_sessions := (sv_sessions sv)[sid := Some s']\<rparr>)" for s'
        using Some by (intro history_frame [OF assms(2)])
          (auto simp: is_live_session_def live_session_def nth_list_update split: if_splits)
      then have "events_ok (snd (emit (EvSent sid data ch rel priority i) (sv\<lparr>sv_sessions := (sv_sessions sv)[sid := Some s']\<rparr>)))" for s' i
        using sid by (intro history_emit) (auto simp: is_live_session_def)
      note emitted = this
      obtain q s' where "session_send ch data rel priority s = Some (q, s')"
        using send Some by (auto simp: handle_send_message_def)
      with send Some frame emitted show ?thesis
        by (cases q) (auto simp: handle_send_message_def Let_def)
    qed (use send assms in \<open>simp add: handle_send_message_def\<close>)
  qed (use command assms all in \<open>auto simp: handle_message_def\<close>)
next
  case (forward i ev evs)
  then show ?thesis
    by (intro history_frame [OF assms(2)]) (auto simp: is_live_session_def)
next
  case (event ev evs)
  have 1: "events_ok (sv\<lparr>sv_inbox := evs\<rparr>)"
    by (intro history_frame [OF assms(2)]) (auto simp: is_live_session_def)
  obtain sid msg where "ev = (sid, msg)" by fastforce
  with event 1 show ?thesis
    by (cases msg)
      (auto simp: handle_carrier_event_def history_close history_ready history_deliver intro: history_emit)
next
  case hang_up
  then show ?thesis
    by (intro history_frame [OF assms(2)]) (auto simp: is_live_session_def)
qed

lemma history_reachable: "service_reachable env sv \<Longrightarrow> events_ok sv"
proof (induction rule: service_reachable.induct)
  case start
  then show ?case by (simp add: events_ok_def service_new_def)
next
  case (step sv sv')
  then show ?case by (blast intro: history_step service_ok_reachable)
qed

section \<open>Typed sends\<close>

text \<open>\<open>Outgoing\<close>: a message with where and how to send it; the context is what its path needs.\<close>

record ('m, 'c) outgoing =
  out_session :: nat
  out_msg :: 'm
  out_context :: 'c
  out_channel :: u8
  out_reliability :: data_reliability
  out_priority :: nat

definition outgoing_new :: "nat \<Rightarrow> 'm \<Rightarrow> 'c \<Rightarrow> ('m, 'c) outgoing" where
  "outgoing_new sid m ctx = \<lparr>out_session = sid, out_msg = m, out_context = ctx, out_channel = 0,
     out_reliability = Reliable, out_priority = 0\<rparr>"

definition on_channel :: "u8 \<Rightarrow> ('m, 'c) outgoing \<Rightarrow> ('m, 'c) outgoing" where
  "on_channel ch out = out\<lparr>out_channel := ch\<rparr>"

definition with_reliability :: "data_reliability \<Rightarrow> ('m, 'c) outgoing \<Rightarrow> ('m, 'c) outgoing" where
  "with_reliability rel out = out\<lparr>out_reliability := rel\<rparr>"

definition with_priority :: "nat \<Rightarrow> ('m, 'c) outgoing \<Rightarrow> ('m, 'c) outgoing" where
  "with_priority priority out = out\<lparr>out_priority := priority\<rparr>"

definition for_actor :: "bytes \<Rightarrow> ('m, bytes) outgoing \<Rightarrow> ('m, bytes) outgoing" where
  "for_actor actor out = out\<lparr>out_context := actor\<rparr>"

text \<open>
  \<open>encode\<close>, with the path given by its name and its \<open>marshal_framed\<close>. \<open>None\<close> is a panic of the
  codec of the message.
\<close>

definition outgoing_encode ::
    "network_schema \<Rightarrow> 'm message_type \<Rightarrow> message_path \<Rightarrow> ('m \<Rightarrow> 'c \<Rightarrow> write_buffer \<Rightarrow> write_buffer option) \<Rightarrow>
     ('m, 'c) outgoing \<Rightarrow> (gridmate_error + nat \<times> bytes \<times> u8 \<times> data_reliability \<times> nat) option" where
  "outgoing_encode schema t path framed out = (case ensure_direct_message schema t path of
     Inl (InvalidMessagePath name i _) \<Rightarrow> Some (Err (PathRefused name i))
   | Inr _ \<Rightarrow> map_option (\<lambda>wb.
       Ok (out_session out, wdata wb, out_channel out, out_reliability out, out_priority out))
       (framed (out_msg out) (out_context out) (write_new carrier_endian)))"

definition client_framed :: "'m message_type \<Rightarrow> 'm \<Rightarrow> bytes \<Rightarrow> write_buffer \<Rightarrow> write_buffer option" where
  "client_framed t m cid wb = client_marshal_framed t m cid wb"

definition server_framed :: "'m message_type \<Rightarrow> 'm \<Rightarrow> unit \<Rightarrow> write_buffer \<Rightarrow> write_buffer option" where
  "server_framed t m ctx wb = server_marshal_framed t m wb"

section \<open>The handle\<close>

text \<open>
  \<open>SessionServiceHandle\<close>: the command channel of the actor and how many clones of the handle exist.
\<close>

record service_handle =
  sh_sender :: "service_message channel"
  sh_refs :: nat

definition service_handle_new :: service_handle where
  "service_handle_new = \<lparr>sh_sender = bounded 256, sh_refs = 1\<rparr>"

definition try_send_message_detached ::
    "nat \<Rightarrow> bytes \<Rightarrow> u8 \<Rightarrow> data_reliability \<Rightarrow> nat \<Rightarrow> service_handle \<Rightarrow> (gridmate_error + unit) \<times> service_handle" where
  "try_send_message_detached sid data ch rel priority h =
     (case chan_try_send (SendOn sid data ch rel priority) (sh_sender h) of
        (Inr _, c) \<Rightarrow> (Ok (), h\<lparr>sh_sender := c\<rparr>)
      | (Inl Full, c) \<Rightarrow> (Err (ChannelError ''session service command queue full''), h)
      | (Inl Closed, c) \<Rightarrow> (Err ConnectionClosed, h))"

definition try_send_now ::
    "network_schema \<Rightarrow> 'm message_type \<Rightarrow> ('m, bytes) outgoing \<Rightarrow> service_handle \<Rightarrow> ((gridmate_error + unit) \<times> service_handle) option" where
  "try_send_now schema t out h =
     map_option (\<lambda>r. case r of
         Inl e \<Rightarrow> (Err e, h)
       | Inr (sid, data, ch, rel, priority) \<Rightarrow> try_send_message_detached sid data ch rel priority h)
       (outgoing_encode schema t ClientToServer (client_framed t) out)"

text \<open>
  An operation that waits for a reply, as \<open>create_session\<close>, \<open>send_message\<close> and \<open>disconnect_all\<close> do:
  the command is queued, and \<open>reply\<close> is what the actor answers, if it still does.
\<close>

definition request ::
    "service_message \<Rightarrow> 'r option \<Rightarrow> service_handle \<Rightarrow> ((gridmate_error + 'r) \<times> service_handle) option" where
  "request msg reply h =
     map_option (\<lambda>(ok, c).
       (if \<not> ok then Err ConnectionClosed
        else case reply of None \<Rightarrow> Err ConnectionClosed | Some r \<Rightarrow> Ok r, h\<lparr>sh_sender := c\<rparr>))
       (chan_send msg (sh_sender h))"

definition num_sessions :: "nat option \<Rightarrow> service_handle \<Rightarrow> (nat \<times> service_handle) option" where
  "num_sessions reply h =
     map_option (\<lambda>(ok, c). (if ok then (case reply of None \<Rightarrow> 0 | Some n \<Rightarrow> n) else 0, h\<lparr>sh_sender := c\<rparr>))
       (chan_send GetNumSessions (sh_sender h))"

text \<open>\<open>Drop\<close>: the last clone asks the actor to stop, or closes the channel when it cannot.\<close>

definition service_handle_drop :: "service_handle \<Rightarrow> service_handle" where
  "service_handle_drop h =
     (if sh_refs h = 1
      then (case chan_try_send ShutdownService (sh_sender h) of
              (Inr _, c) \<Rightarrow> h\<lparr>sh_sender := c, sh_refs := 0\<rparr>
            | (Inl _, c) \<Rightarrow> h\<lparr>sh_sender := c\<lparr>ch_open := False\<rparr>, sh_refs := 0\<rparr>)
      else h\<lparr>sh_refs := sh_refs h - 1\<rparr>)"

section \<open>Properties\<close>

text \<open>
  C12. In every run of the actor the number of sessions it reports is the number of sessions that
  are live; after the event that closes a session no received, typed or sent message of it is reported
  and it is not closed again; and what is received on a session comes after the event that says the session is
  ready. That event itself can follow the one that closes the session: \<open>ready_after_disconnect\<close> below.
\<close>

theorem session_service_invariant:
  assumes "service_reachable env sv"
  shows "sv_active sv = length (filter (\<lambda>s. s \<noteq> None) (sv_sessions sv))
    \<and> lifecycle (sv_events sv) \<and> announced {} (sv_events sv)"
proof -
  have "card {i. is_live_session i sv} = length (filter (\<lambda>s. s \<noteq> None) (sv_sessions sv))"
    by (simp add: length_filter_conv_card is_live_session_def)
  with service_ok_reachable [OF assms] history_reachable [OF assms] show ?thesis
    by (simp add: service_ok_def length_live events_ok_def)
qed

definition one_session_env :: service_env where
  "one_session_env = \<lparr>se_schema = no_schema, se_connect = (\<lambda>_. Inr [Connected 1])\<rparr>"

theorem session_service_invariant_witness:
  "let sv = snd (handle_create_session (\<lambda>_. Inr [Connected 1]) desc_default service_new)
   in sv_active sv = length (filter (\<lambda>s. s \<noteq> None) (sv_sessions sv))
    \<and> lifecycle (sv_events sv) \<and> announced {} (sv_events sv) \<and> sv_active sv = 1"
proof -
  let ?r = "handle_create_session (\<lambda>_. Inr [Connected 1]) desc_default service_new"
  have "service_step one_session_env service_new (snd ?r)"
    by (rule service_step.command [of _ "CreateSession desc_default" _ True "SessionReply (fst ?r)"])
      (simp add: handle_message_def one_session_env_def case_prod_beta)
  then have "service_reachable one_session_env (snd ?r)"
    by (rule service_reachable.step [OF service_reachable.start])
  moreover have "sv_active (snd ?r) = 1"
    by (simp add: handle_create_session_def session_join_def take_event_receiver_def start_with_def
        service_new_def Let_def)
  ultimately show ?thesis
    using session_service_invariant [of one_session_env "snd ?r"] by (simp add: Let_def)
qed

text \<open>
  A session whose carrier connects can be reported ready after it was reported as closed: the
  event that the carrier is connected waits in the inbox while the application closes all
  sessions, and \<open>send_ready_if_needed\<close> does not ask whether the session is still there.
\<close>

lemma ready_after_disconnect:
  assumes "se_connect env desc = Inr (Connected v # rx)"
  shows "\<exists>sv. service_reachable env sv \<and> \<not> is_live_session 0 sv
    \<and> sv_events sv = [EvDisconnected 0 DisconnectAllReason, EvReady 0] \<and> sv_ready sv = {0}"
proof -
  define sv1 where "sv1 = snd (handle_create_session (se_connect env) desc service_new)"
  have fields: "sv_streams sv1 = [Connected v # rx @ [Disconnected ShuttingDown]]" "length (sv_sessions sv1) = 1"
    "sv_sessions sv1 ! 0 \<noteq> None" "sv_inbox sv1 = []" "sv_events sv1 = []" "sv_rx_open sv1" "sv_ready sv1 = {}"
    using assms
    by (simp_all add: sv1_def handle_create_session_def session_join_def take_event_receiver_def
        start_with_def service_new_def Let_def)
  have create: "service_step env service_new sv1"
    by (rule service_step.command [of env "CreateSession desc" _ True
          "SessionReply (fst (handle_create_session (se_connect env) desc service_new))"])
      (simp add: handle_message_def sv1_def case_prod_beta)
  define sv2 where "sv2 = sv1\<lparr>sv_streams := [rx @ [Disconnected ShuttingDown]], sv_inbox := [(0, Connected v)]\<rparr>"
  have forward: "service_step env sv1 sv2"
    using service_step.forward [of 0 sv1 "Connected v" "rx @ [Disconnected ShuttingDown]" env] fields
    by (simp add: sv2_def)
  have live: "live_sessions sv2 = [0]"
    using fields by (simp add: sv2_def live_sessions_def is_live_session_def upt_rec)
  obtain s where s: "live_session 0 sv2 = Some s"
    using fields by (auto simp: sv2_def live_session_def)
  define sv3 where "sv3 = handle_disconnect_all sv2"
  have sv3: "sv3 = close_session 0 (Some DisconnectAllReason) sv2"
    by (simp add: sv3_def handle_disconnect_all_def live)
  have disconnect: "service_step env sv2 sv3"
    by (rule service_step.command [of env DisconnectAll _ True DoneReply]) (simp add: handle_message_def sv3_def)
  define sv4 where "sv4 = send_ready_if_needed 0 (sv3\<lparr>sv_inbox := []\<rparr>)"
  have inbox: "sv_inbox sv3 = [(0, Connected v)]"
    unfolding sv3 close_session_frame by (simp add: sv2_def)
  have event: "service_step env sv3 sv4"
    using service_step.event [OF inbox, of env] by (simp add: handle_carrier_event_def sv4_def)
  have "service_reachable env sv4"
    using service_reachable.start create forward disconnect event by (meson service_reachable.step)
  moreover have "\<not> is_live_session 0 sv4"
    using close_session_live [of 0 0 "Some DisconnectAllReason" sv2]
    by (simp add: sv4_def sv3 is_live_session_def)
  moreover have "sv_events sv3 = [EvDisconnected 0 DisconnectAllReason]" "sv_ready sv3 = {}" "sv_rx_open sv3"
    using close_session_effect [OF s, of "Some DisconnectAllReason"] fields
    unfolding sv3 close_session_frame by (simp_all add: sv2_def)
  ultimately show ?thesis
    by (auto simp: sv4_def send_ready_if_needed_def emit_def)
qed

definition stream_enc :: "(u32 \<times> bytes) list \<Rightarrow> bytes" where
  "stream_enc items = concat (map (\<lambda>(i, body). sized_enc (0 # 1 # vlq32_bytes i @ body)) items)"

definition stream_ok :: "(u32 \<times> bytes) list \<Rightarrow> bool" where
  "stream_ok items \<longleftrightarrow> list_all (\<lambda>(i, body). i \<noteq> 0 \<and> length body + 7 < 2 ^ 32) items"

lemma read_stream_item:
  assumes "i \<noteq> 0" and "length body + 7 < 2 ^ 32"
    and "remaining rb = sized_enc (0 # 1 # vlq32_bytes i @ body) @ rest"
  shows "\<exists>meta view. read_sized_message rb =
      (Inr (meta, view), advance (length (sized_enc (0 # 1 # vlq32_bytes i @ body))) rb)
    \<and> ev_type_id view = TypeIndexId i \<and> ev_body view = body"
proof -
  define t :: "unit message_type" where "t = \<lparr>msg_type_index = i, msg_type_id = [], msg_type_name = [], msg_codec = undefined\<rparr>"
  have env: "envelope_enc t body = 0 # 1 # vlq32_bytes i @ body"
    by (simp add: envelope_enc_def t_def)
  have "length (envelope_enc t body) < 2 ^ 32"
    using length_envelope_enc [of t body] assms(2) by linarith
  from read_sized_enc [of t _ body, OF _ env [symmetric] _ assms(3)] this assms(1) show ?thesis
    by (simp add: env) (simp add: t_def typed_view_def)
qed

lemma dispatch_stream_loop:
  "stream_ok items \<Longrightarrow> remaining rb = stream_enc items @ rest \<Longrightarrow>
    dispatch_loop schema sid ch rb =
      map (\<lambda>(i, body). EvTyped sid ch i body) items @ dispatch_loop schema sid ch (advance (length (stream_enc items)) rb)"
proof (induction items arbitrary: rb)
  case (Cons item items)
  obtain i body where item: "item = (i, body)" by fastforce
  define n where "n = length (sized_enc (0 # 1 # vlq32_bytes i @ body))"
  have rem: "remaining rb = sized_enc (0 # 1 # vlq32_bytes i @ body) @ stream_enc items @ rest"
    using Cons.prems by (simp add: item stream_enc_def)
  then obtain meta view where "read_sized_message rb = (Inr (meta, view), advance n rb)"
    "ev_type_id view = TypeIndexId i" "ev_body view = body"
    using read_stream_item [of i body rb] Cons.prems by (auto simp: item stream_ok_def n_def)
  moreover have "\<not> rb_is_empty rb"
    using rem by (simp add: rb_is_empty_remaining sized_enc_def)
  moreover have "remaining (advance n rb) = stream_enc items @ rest"
    using rem by (simp add: n_def)
  ultimately show ?case
    using Cons.IH [of "advance n rb"] Cons.prems
    by (simp add: item dispatch_loop_message event_from_message_envelope_def stream_ok_def)
      (simp add: stream_enc_def n_def add.commute)
qed (simp add: stream_enc_def)

lemma dispatch_stream:
  assumes "stream_ok items"
  shows "dispatch_messages schema sid ch (stream_enc items @ rest) =
      map (\<lambda>(i, body). EvTyped sid ch i body) items
        @ dispatch_loop schema sid ch (advance (length (stream_enc items)) (read_new carrier_endian (stream_enc items @ rest)))"
proof -
  have nonempty: "stream_enc items @ rest = [] \<Longrightarrow> items = []"
    by (cases items) (auto simp: stream_enc_def sized_enc_def)
  show ?thesis
    using dispatch_stream_loop [OF assms, of "read_new carrier_endian (stream_enc items @ rest)" rest] nonempty
    by (cases "stream_enc items @ rest = []")
      (auto simp: dispatch_messages_def rb_is_empty_remaining dispatch_loop_end)
qed

lemma dispatch_delivers_messages:
  "stream_ok items \<Longrightarrow>
    dispatch_messages schema sid ch (stream_enc items) = map (\<lambda>(i, body). EvTyped sid ch i body) items"
  using dispatch_stream [of items schema sid ch "[]"] by (simp add: dispatch_loop_end rb_is_empty_remaining)

text \<open>
  Every message a server writes into one carrier payload is handed to the application, in
  order and with its type and body, whatever follows the last of them; and nothing else is, when
  nothing follows.
\<close>

lemma dispatch_delivers_stream:
  assumes "stream_ok items"
  shows "(\<exists>tail. dispatch_messages schema sid ch (stream_enc items @ rest) =
      map (\<lambda>(i, body). EvTyped sid ch i body) items @ tail)
    \<and> dispatch_messages schema sid ch (stream_enc items) = map (\<lambda>(i, body). EvTyped sid ch i body) items"
  using dispatch_stream [OF assms] dispatch_delivers_messages [OF assms] by blast

end
