(* ===== verification/Server_Listener.thy ===== *)
theory Server_Listener
  imports Session_Service "HOL-Library.AList"
begin

text \<open>
  \<^verbatim>\<open>server.rs\<close>: the server side. The bridge turns the lifecycle events of the DTLS listener into
  sessions, one driver task per peer turns the events of its carrier into events of the
  application, and the registry that all of them share maps addresses to sessions and back.

  A \<open>DashMap\<close> is an association list with at most one entry per key. The channels of a peer belong
  to its driver, which is known by its index; a clone of a sender is that index. The capacity of the
  event channel is left out as in \<^verbatim>\<open>session_service.rs\<close>, and so are log messages.
\<close>

section \<open>The registry\<close>

record peer_entry =
  pe_session :: nat
  pe_outbound :: nat

record 'a peer_registry =
  by_addr :: "('a \<times> peer_entry) list"
  by_session :: "(nat \<times> 'a) list"
  next_session :: nat

definition registry_new :: "'a peer_registry" where
  "registry_new = \<lparr>by_addr = [], by_session = [], next_session = 0\<rparr>"

definition register :: "'a \<Rightarrow> nat \<Rightarrow> 'a peer_registry \<Rightarrow> nat \<times> 'a peer_registry" where
  "register addr outbound reg =
     (let sid = next_session reg in
      (sid, reg\<lparr>next_session := sid + 1,
                by_addr := AList.update addr \<lparr>pe_session = sid, pe_outbound = outbound\<rparr> (by_addr reg),
                by_session := AList.update sid addr (by_session reg)\<rparr>))"

definition remove_peer :: "'a \<Rightarrow> 'a peer_registry \<Rightarrow> nat option \<times> 'a peer_registry" where
  "remove_peer addr reg = (case map_of (by_addr reg) addr of
     None \<Rightarrow> (None, reg)
   | Some entry \<Rightarrow> (Some (pe_session entry),
       reg\<lparr>by_addr := AList.delete addr (by_addr reg),
           by_session := AList.delete (pe_session entry) (by_session reg)\<rparr>))"

definition outbound_for :: "nat \<Rightarrow> 'a peer_registry \<Rightarrow> nat option" where
  "outbound_for sid reg = (case map_of (by_session reg) sid of
     None \<Rightarrow> None
   | Some addr \<Rightarrow> map_option pe_outbound (map_of (by_addr reg) addr))"

definition session_for :: "'a \<Rightarrow> 'a peer_registry \<Rightarrow> nat option" where
  "session_for addr reg = map_option pe_session (map_of (by_addr reg) addr)"

definition peer_addr_for :: "nat \<Rightarrow> 'a peer_registry \<Rightarrow> 'a option" where
  "peer_addr_for sid reg = map_of (by_session reg) sid"

definition peer_count :: "'a peer_registry \<Rightarrow> nat" where
  "peer_count reg = length (by_addr reg)"

section \<open>The state of the server\<close>

record outbound_typed =
  ot_channel :: u8
  ot_reliability :: data_reliability
  ot_priority :: nat
  ot_envelope :: bytes

datatype driver_phase = Handshaking | Running | Ended

record 'a peer_driver =
  pd_addr :: 'a
  pd_phase :: driver_phase
  pd_inbound :: "bytes channel"
  pd_cmds :: "outbound_typed channel"
  pd_carrier :: carrier_handle

record 'a server =
  srv_peers :: "'a peer_registry"
  srv_events :: "event list"
  srv_open :: bool
  peer_inbound :: "('a \<times> nat) list"
  drivers :: "'a peer_driver list"

definition per_peer_queue_capacity :: nat where
  "per_peer_queue_capacity = 256"

definition server_new :: "'a server" where
  "server_new = \<lparr>srv_peers = registry_new, srv_events = [], srv_open = True, peer_inbound = [], drivers = []\<rparr>"

definition srv_emit :: "event \<Rightarrow> 'a server \<Rightarrow> bool \<times> 'a server" where
  "srv_emit ev srv = (if srv_open srv then (True, srv\<lparr>srv_events := srv_events srv @ [ev]\<rparr>) else (False, srv))"

section \<open>The bridge\<close>

datatype 'a multi_peer_event =
    PeerEstablished 'a
  | PeerData 'a bytes
  | PeerDisconnected 'a string
  | ListenerError string

text \<open>The carrier of a new peer; \<open>evs\<close> is what it will report.\<close>

definition spawn_peer_carrier :: "'a \<Rightarrow> carrier_event list \<Rightarrow> 'a server \<Rightarrow> nat \<times> 'a server" where
  "spawn_peer_carrier addr evs srv =
     (length (drivers srv), srv\<lparr>drivers := drivers srv @
        [\<lparr>pd_addr = addr, pd_phase = Handshaking, pd_inbound = bounded per_peer_queue_capacity,
          pd_cmds = bounded per_peer_queue_capacity, pd_carrier = start_with evs\<rparr>]\<rparr>)"

text \<open>
  One event of the listener. The flag is false when the bridge returns; \<open>None\<close> when it waits for
  room in the queue of a peer.
\<close>

fun bridge_event :: "carrier_event list \<Rightarrow> 'a multi_peer_event \<Rightarrow> 'a server \<Rightarrow> (bool \<times> 'a server) option" where
  "bridge_event evs (PeerEstablished addr) srv =
     (let (d, srv1) = spawn_peer_carrier addr evs srv;
          (sid, reg) = register addr d (srv_peers srv1)
      in Some (srv_emit (EvReady sid)
           (srv1\<lparr>peer_inbound := AList.update addr d (peer_inbound srv1), srv_peers := reg\<rparr>)))"
| "bridge_event evs (PeerData addr plaintext) srv =
     (case map_of (peer_inbound srv) addr of
        None \<Rightarrow> Some (True, srv)
      | Some d \<Rightarrow> map_option (\<lambda>(ok, c).
          (True, if ok then srv\<lparr>drivers := (drivers srv)[d := (drivers srv ! d)\<lparr>pd_inbound := c\<rparr>]\<rparr>
                 else srv\<lparr>peer_inbound := AList.delete addr (peer_inbound srv)\<rparr>))
          (chan_send plaintext (pd_inbound (drivers srv ! d))))"
| "bridge_event evs (PeerDisconnected addr reason) srv =
     (case remove_peer addr (srv_peers srv) of (session, reg) \<Rightarrow>
        let srv1 = srv\<lparr>peer_inbound := AList.delete addr (peer_inbound srv), srv_peers := reg\<rparr> in
        Some (case session of None \<Rightarrow> (True, srv1)
                | Some sid \<Rightarrow> srv_emit (EvDisconnected sid (TransportReason reason)) srv1))"
| "bridge_event evs (ListenerError description) srv =
     Some (srv_emit (EvError (FromListener description)) srv)"

section \<open>The driver of a peer\<close>

definition set_driver :: "nat \<Rightarrow> 'a peer_driver \<Rightarrow> 'a server \<Rightarrow> 'a server" where
  "set_driver d p srv = srv\<lparr>drivers := (drivers srv)[d := p]\<rparr>"

text \<open>The task returns: its receivers close and its carrier is dropped.\<close>

definition end_driver :: "nat \<Rightarrow> 'a server \<Rightarrow> 'a server" where
  "end_driver d srv = (let p = drivers srv ! d in
     set_driver d (p\<lparr>pd_phase := Ended, pd_cmds := (pd_cmds p)\<lparr>ch_open := False\<rparr>,
       pd_inbound := (pd_inbound p)\<lparr>ch_open := False\<rparr>, pd_carrier := carrier_drop (pd_carrier p)\<rparr>) srv)"

text \<open>Forget the peer and say why, if it is registered.\<close>

definition drop_peer :: "'a \<Rightarrow> close_reason \<Rightarrow> 'a server \<Rightarrow> 'a server" where
  "drop_peer addr reason srv = (case remove_peer addr (srv_peers srv) of
     (None, reg) \<Rightarrow> srv\<lparr>srv_peers := reg\<rparr>
   | (Some sid, reg) \<Rightarrow> snd (srv_emit (EvDisconnected sid reason) (srv\<lparr>srv_peers := reg\<rparr>)))"

definition driver_ready :: "nat \<Rightarrow> 'a server \<Rightarrow> 'a server" where
  "driver_ready d srv = (let p = drivers srv ! d in
     case ready (pd_carrier p) of
       Inl e \<Rightarrow> end_driver d (drop_peer (pd_addr p) (NotReadyReason e) srv)
     | Inr h \<Rightarrow> set_driver d (p\<lparr>pd_phase := Running, pd_carrier := h\<rparr>) srv)"

definition handle_correlated :: "network_schema \<Rightarrow> nat \<Rightarrow> u8 \<Rightarrow> bytes \<Rightarrow> 'a server \<Rightarrow> bool \<times> 'a server" where
  "handle_correlated schema sid ch data srv =
     (case fst (read_correlated_message (read_new carrier_endian data)) of
        Inl e \<Rightarrow> (True, srv)
      | Inr (_, view) \<Rightarrow>
          (case resolved_type_index schema (ev_type_id view) of
             None \<Rightarrow> (True, srv)
           | Some i \<Rightarrow> srv_emit (EvTyped sid ch i (ev_body view)) srv))"

definition handle_inbound_message :: "network_schema \<Rightarrow> nat \<Rightarrow> u8 \<Rightarrow> bytes \<Rightarrow> 'a server \<Rightarrow> bool \<times> 'a server" where
  "handle_inbound_message schema sid ch data srv =
     (if ch = system_channel \<or> unat ch \<ge> max_channels then (True, srv)
      else case srv_emit (EvReceived sid ch data) srv of
        (False, srv1) \<Rightarrow> (False, srv1)
      | (True, srv1) \<Rightarrow>
          (case channel_from_u8 ch of
             None \<Rightarrow> (True, srv1)
           | Some c \<Rightarrow> if carries_hub_messages c then handle_correlated schema sid ch data srv1 else (True, srv1)))"

text \<open>The flag says that the loop of the driver goes on.\<close>

definition handle_inbound :: "network_schema \<Rightarrow> 'a \<Rightarrow> carrier_event \<Rightarrow> 'a server \<Rightarrow> bool \<times> 'a server" where
  "handle_inbound schema addr msg srv = (case session_for addr (srv_peers srv) of
     None \<Rightarrow> (True, srv)
   | Some sid \<Rightarrow> (case msg of
       MessageReceived ch data \<Rightarrow> handle_inbound_message schema sid ch data srv
     | Disconnected reason \<Rightarrow> (False, snd (srv_emit (EvDisconnected sid (CarrierReason reason)) srv))
     | CarrierFailed e \<Rightarrow> (True, srv)
     | Connected version \<Rightarrow> (True, srv)))"

definition driver_inbound :: "network_schema \<Rightarrow> nat \<Rightarrow> 'a server \<Rightarrow> 'a server" where
  "driver_inbound schema d srv = (let p = drivers srv ! d in
     case recv_message (pd_carrier p) of
       (None, h) \<Rightarrow> end_driver d (drop_peer (pd_addr p) ReceiverClosedReason srv)
     | (Some msg, h) \<Rightarrow>
         (case handle_inbound schema (pd_addr p) msg (set_driver d (p\<lparr>pd_carrier := h\<rparr>) srv) of
            (True, srv1) \<Rightarrow> srv1
          | (False, srv1) \<Rightarrow> end_driver d srv1))"

definition parse_outbound_type_index :: "network_schema \<Rightarrow> bytes \<Rightarrow> u32 option" where
  "parse_outbound_type_index schema data =
     (case fst (read_sized_message (read_new carrier_endian data)) of
        Inl _ \<Rightarrow> None
      | Inr (_, view) \<Rightarrow> resolved_type_index schema (ev_type_id view))"

definition driver_outbound :: "network_schema \<Rightarrow> nat \<Rightarrow> 'a server \<Rightarrow> 'a server option" where
  "driver_outbound schema d srv = (let p = drivers srv ! d in
     case ch_items (pd_cmds p) of
       [] \<Rightarrow> None
     | cmd # cmds \<Rightarrow>
         map_option (\<lambda>(r, h).
           let srv1 = set_driver d (p\<lparr>pd_cmds := (pd_cmds p)\<lparr>ch_items := cmds\<rparr>, pd_carrier := h\<rparr>) srv in
           case r of
             Inl e \<Rightarrow> end_driver d (drop_peer (pd_addr p) (SendReason e) srv1)
           | Inr _ \<Rightarrow> (case session_for (pd_addr p) (srv_peers srv1) of
               None \<Rightarrow> srv1
             | Some sid \<Rightarrow> snd (srv_emit (EvSent sid (ot_envelope cmd) (ot_channel cmd) (ot_reliability cmd)
                 (ot_priority cmd) (parse_outbound_type_index schema (ot_envelope cmd))) srv1)))
           (carrier_send (ot_envelope cmd) (ot_reliability cmd) (ot_priority cmd) (ot_channel cmd) (pd_carrier p)))"

section \<open>The handle of the server\<close>

definition send_typed :: "nat \<Rightarrow> outbound_typed \<Rightarrow> 'a server \<Rightarrow> ((string + unit) \<times> 'a server) option" where
  "send_typed sid cmd srv = (case outbound_for sid (srv_peers srv) of
     None \<Rightarrow> Some (Err ''unknown session'', srv)
   | Some d \<Rightarrow> map_option (\<lambda>(ok, c).
       (if ok then Ok () else Err ''outbound queue'', set_driver d ((drivers srv ! d)\<lparr>pd_cmds := c\<rparr>) srv))
       (chan_send cmd (pd_cmds (drivers srv ! d))))"

definition server_try_enqueue ::
    "nat \<Rightarrow> bytes \<Rightarrow> u8 \<Rightarrow> data_reliability \<Rightarrow> nat \<Rightarrow> 'a server \<Rightarrow> (gridmate_error + unit) \<times> 'a server" where
  "server_try_enqueue sid data ch rel priority srv = (case outbound_for sid (srv_peers srv) of
     None \<Rightarrow> (Err (ChannelError ''unknown session''), srv)
   | Some d \<Rightarrow>
       (case chan_try_send \<lparr>ot_channel = ch, ot_reliability = rel, ot_priority = priority, ot_envelope = data\<rparr>
               (pd_cmds (drivers srv ! d)) of
          (Inr _, c) \<Rightarrow> (Ok (), set_driver d ((drivers srv ! d)\<lparr>pd_cmds := c\<rparr>) srv)
        | (Inl Full, _) \<Rightarrow> (Err (ChannelError ''outbound queue is full''), srv)
        | (Inl Closed, _) \<Rightarrow> (Err ConnectionClosed, srv)))"

definition server_enqueue ::
    "nat \<Rightarrow> bytes \<Rightarrow> u8 \<Rightarrow> data_reliability \<Rightarrow> nat \<Rightarrow> 'a server \<Rightarrow> ((gridmate_error + unit) \<times> 'a server) option" where
  "server_enqueue sid data ch rel priority srv = (case outbound_for sid (srv_peers srv) of
     None \<Rightarrow> Some (Err (ChannelError ''unknown session''), srv)
   | Some d \<Rightarrow> map_option (\<lambda>(ok, c).
       (if ok then Ok () else Err (ChannelError ''outbound queue''), set_driver d ((drivers srv ! d)\<lparr>pd_cmds := c\<rparr>) srv))
       (chan_send \<lparr>ot_channel = ch, ot_reliability = rel, ot_priority = priority, ot_envelope = data\<rparr>
         (pd_cmds (drivers srv ! d))))"

section \<open>Runs\<close>

text \<open>
  The tasks of the server. A driver whose commands have no sender any more returns; that is when no
  registered peer refers to it.
\<close>

definition has_sender :: "nat \<Rightarrow> 'a server \<Rightarrow> bool" where
  "has_sender d srv \<longleftrightarrow> list_ex (\<lambda>(_, e). pe_outbound e = d) (by_addr (srv_peers srv))"

inductive server_step :: "network_schema \<Rightarrow> 'a server \<Rightarrow> 'a server \<Rightarrow> bool" for schema where
  bridge: "bridge_event evs ev srv = Some (go_on, srv') \<Longrightarrow> server_step schema srv srv'"
| handshake: "d < length (drivers srv) \<Longrightarrow> pd_phase (drivers srv ! d) = Handshaking \<Longrightarrow>
    server_step schema srv (driver_ready d srv)"
| inbound: "d < length (drivers srv) \<Longrightarrow> pd_phase (drivers srv ! d) = Running \<Longrightarrow>
    server_step schema srv (driver_inbound schema d srv)"
| outbound: "d < length (drivers srv) \<Longrightarrow> pd_phase (drivers srv ! d) = Running \<Longrightarrow>
    driver_outbound schema d srv = Some srv' \<Longrightarrow> server_step schema srv srv'"
| orphan: "d < length (drivers srv) \<Longrightarrow> pd_phase (drivers srv ! d) = Running \<Longrightarrow>
    ch_items (pd_cmds (drivers srv ! d)) = [] \<Longrightarrow> \<not> has_sender d srv \<Longrightarrow>
    server_step schema srv (end_driver d srv)"
| enqueue: "server_try_enqueue sid data ch rel priority srv = (r, srv') \<Longrightarrow> server_step schema srv srv'"
| enqueue_wait: "server_enqueue sid data ch rel priority srv = Some (r, srv') \<Longrightarrow> server_step schema srv srv'"
| hang_up: "server_step schema srv (srv\<lparr>srv_open := False\<rparr>)"

inductive server_reachable :: "network_schema \<Rightarrow> 'a server \<Rightarrow> bool" for schema where
  start: "server_reachable schema server_new"
| step: "server_reachable schema srv \<Longrightarrow> server_step schema srv srv' \<Longrightarrow> server_reachable schema srv'"

section \<open>The registry is consistent\<close>

definition registry_ok :: "'a peer_registry \<Rightarrow> bool" where
  "registry_ok reg \<longleftrightarrow>
     (\<forall>addr e. map_of (by_addr reg) addr = Some e \<longrightarrow>
        map_of (by_session reg) (pe_session e) = Some addr \<and> pe_session e < next_session reg)
     \<and> (\<forall>sid addr. map_of (by_session reg) sid = Some addr \<longrightarrow> sid < next_session reg)"

lemma registry_ok_new: "registry_ok registry_new"
  by (simp add: registry_ok_def registry_new_def)

lemma registry_okD:
  "registry_ok reg \<Longrightarrow> map_of (by_addr reg) addr = Some e \<Longrightarrow>
    map_of (by_session reg) (pe_session e) = Some addr \<and> pe_session e < next_session reg"
  by (simp add: registry_ok_def)

lemma registry_ok_register:
  assumes "registry_ok reg"
  shows "registry_ok (snd (register addr d reg))"
proof -
  have "pe_session e \<noteq> next_session reg" if "map_of (by_addr reg) a = Some e" for a e
    using registry_okD [OF assms that] by simp
  with assms show ?thesis
    by (auto simp: registry_ok_def register_def Let_def update_conv' less_Suc_eq)
qed

lemma registry_ok_remove:
  assumes "registry_ok reg"
  shows "registry_ok (snd (remove_peer addr reg))"
proof (cases "map_of (by_addr reg) addr")
  case (Some e)
  have "pe_session f \<noteq> pe_session e" if "map_of (by_addr reg) a = Some f" "a \<noteq> addr" for a f
    using registry_okD [OF assms Some] registry_okD [OF assms that(1)] that(2) by auto
  with assms Some show ?thesis
    by (auto simp: registry_ok_def remove_peer_def delete_conv' split: if_splits)
qed (simp add: remove_peer_def assms)

text \<open>Every registered peer is served by a driver of its own address.\<close>

definition peers_served :: "'a server \<Rightarrow> bool" where
  "peers_served srv \<longleftrightarrow> (\<forall>addr e. map_of (by_addr (srv_peers srv)) addr = Some e \<longrightarrow>
     pe_outbound e < length (drivers srv) \<and> pd_addr (drivers srv ! pe_outbound e) = addr)"

definition server_ok :: "'a server \<Rightarrow> bool" where
  "server_ok srv \<longleftrightarrow> registry_ok (srv_peers srv) \<and> peers_served srv"

lemma srv_emit_frame [simp]:
  "srv_peers (snd (srv_emit ev srv)) = srv_peers srv" "drivers (snd (srv_emit ev srv)) = drivers srv"
  "peer_inbound (snd (srv_emit ev srv)) = peer_inbound srv" "fst (srv_emit ev srv) = srv_open srv"
  by (simp_all add: srv_emit_def)

lemma set_driver_frame [simp]:
  "srv_peers (set_driver d p srv) = srv_peers srv" "length (drivers (set_driver d p srv)) = length (drivers srv)"
  "srv_events (set_driver d p srv) = srv_events srv" "srv_open (set_driver d p srv) = srv_open srv"
  by (simp_all add: set_driver_def)

lemma server_ok_frame:
  assumes "server_ok srv" and "srv_peers srv' = srv_peers srv" and "drivers srv' = drivers srv"
  shows "server_ok srv'"
  using assms by (simp add: server_ok_def peers_served_def)

lemma server_ok_emit: "server_ok srv \<Longrightarrow> server_ok (snd (srv_emit ev srv))"
  by (rule server_ok_frame) simp_all

lemma server_ok_set_driver:
  assumes "server_ok srv" and "d < length (drivers srv) \<Longrightarrow> pd_addr p = pd_addr (drivers srv ! d)"
  shows "server_ok (set_driver d p srv)"
proof -
  have "pd_addr ((drivers srv)[d := p] ! i) = pd_addr (drivers srv ! i)" if "i < length (drivers srv)" for i
    using assms(2) that by (cases "i = d") simp_all
  with assms(1) show ?thesis
    by (simp add: server_ok_def peers_served_def set_driver_def)
qed

lemma server_ok_end: "server_ok srv \<Longrightarrow> server_ok (end_driver d srv)"
  by (simp add: end_driver_def Let_def server_ok_set_driver)

lemma remove_peer_subset:
  "map_of (by_addr (snd (remove_peer addr reg))) a = Some e \<Longrightarrow> map_of (by_addr reg) a = Some e"
  by (auto simp: remove_peer_def delete_conv' split: option.splits if_splits)

lemma server_ok_remove:
  assumes "server_ok srv" and "srv_peers srv' = snd (remove_peer addr (srv_peers srv))"
    and "drivers srv' = drivers srv"
  shows "server_ok srv'"
  using assms registry_ok_remove [of "srv_peers srv" addr]
  by (auto simp: server_ok_def peers_served_def dest: remove_peer_subset)

lemma server_ok_drop: "server_ok srv \<Longrightarrow> server_ok (drop_peer addr reason srv)"
  by (rule server_ok_remove [of srv _ addr]) (auto simp: drop_peer_def split: prod.split option.split)

lemma server_ok_bridge:
  assumes "server_ok srv" and "bridge_event evs ev srv = Some (go_on, srv')"
  shows "server_ok srv'"
proof (cases ev)
  case (PeerEstablished addr)
  let ?d = "length (drivers srv)"
  have eq: "srv_peers srv' = snd (register addr ?d (srv_peers srv))"
    "\<exists>p. drivers srv' = drivers srv @ [p] \<and> pd_addr p = addr"
    using assms(2) unfolding PeerEstablished
    by (auto simp: spawn_peer_carrier_def Let_def srv_emit_def split: prod.splits if_splits)
  then obtain p where p: "drivers srv' = drivers srv @ [p]" "pd_addr p = addr" by blast
  have "peers_served srv'"
    using assms(1) p unfolding server_ok_def peers_served_def eq(1)
    by (auto simp: register_def Let_def update_conv' nth_append less_SucI)
  with assms(1) eq(1) show ?thesis
    by (simp add: server_ok_def registry_ok_register)
next
  case (PeerData addr plaintext)
  have set: "server_ok (srv\<lparr>drivers := (drivers srv)[d := (drivers srv ! d)\<lparr>pd_inbound := c\<rparr>]\<rparr>)" for d c
    using server_ok_set_driver [OF assms(1), of d "(drivers srv ! d)\<lparr>pd_inbound := c\<rparr>"]
    by (simp add: set_driver_def)
  show ?thesis
    using assms set unfolding PeerData
    by (auto split: option.splits if_splits intro: server_ok_frame [OF assms(1)])
next
  case (PeerDisconnected addr reason)
  then show ?thesis
    using assms by (intro server_ok_remove [OF assms(1), of _ addr])
      (auto simp: Let_def srv_emit_def split: prod.splits option.splits if_splits)
next
  case (ListenerError description)
  then show ?thesis
    using assms by (auto simp: srv_emit_def split: if_splits intro: server_ok_frame [OF assms(1)])
qed

lemma handle_inbound_frame [simp]:
  "srv_peers (snd (handle_inbound schema addr msg srv)) = srv_peers srv"
  "drivers (snd (handle_inbound schema addr msg srv)) = drivers srv"
  by (auto simp: handle_inbound_def handle_inbound_message_def handle_correlated_def srv_emit_def
      split: option.split carrier_event.split sum.split prod.split)

lemma server_ok_inbound: "server_ok srv \<Longrightarrow> server_ok (snd (handle_inbound schema addr msg srv))"
  by (rule server_ok_frame) simp_all

lemma server_ok_step:
  assumes "server_step schema srv srv'" and "server_ok srv"
  shows "server_ok srv'"
  using assms(1)
proof (cases rule: server_step.cases)
  case (bridge evs ev go_on)
  then show ?thesis using assms(2) by (blast intro: server_ok_bridge)
next
  case (handshake d)
  then show ?thesis
    using assms(2)
    by (auto simp: driver_ready_def Let_def server_ok_end server_ok_drop intro: server_ok_set_driver split: sum.split)
next
  case (inbound d)
  have carrier: "server_ok (set_driver d ((drivers srv ! d)\<lparr>pd_carrier := h\<rparr>) srv)" for h
    using assms(2) by (simp add: server_ok_set_driver)
  obtain r h where recv: "recv_message (pd_carrier (drivers srv ! d)) = (r, h)" by fastforce
  show ?thesis
  proof (cases r)
    case None
    with inbound recv assms(2) show ?thesis
      by (simp add: driver_inbound_def Let_def server_ok_end server_ok_drop)
  next
    case (Some msg)
    let ?srv = "set_driver d ((drivers srv ! d)\<lparr>pd_carrier := h\<rparr>) srv"
    obtain go srv1 where handled: "handle_inbound schema (pd_addr (drivers srv ! d)) msg ?srv = (go, srv1)"
      by fastforce
    then have "server_ok srv1"
      using server_ok_inbound [OF carrier, of schema "pd_addr (drivers srv ! d)" msg h] by simp
    with inbound recv Some handled show ?thesis
      by (cases go) (simp_all add: driver_inbound_def Let_def server_ok_end)
  qed
next
  case (outbound d)
  have "server_ok (set_driver d ((drivers srv ! d)\<lparr>pd_cmds := c, pd_carrier := h\<rparr>) srv)" for c h
    using assms(2) by (simp add: server_ok_set_driver)
  note set = this
  obtain cmd cmds where cmds: "ch_items (pd_cmds (drivers srv ! d)) = cmd # cmds"
    using outbound by (auto simp: driver_outbound_def Let_def split: list.splits)
  obtain r h where sent: "carrier_send (ot_envelope cmd) (ot_reliability cmd) (ot_priority cmd) (ot_channel cmd)
      (pd_carrier (drivers srv ! d)) = Some (r, h)"
    using outbound cmds by (auto simp: driver_outbound_def Let_def)
  show ?thesis
    using outbound cmds sent set
    by (cases r)
      (auto simp: driver_outbound_def Let_def server_ok_end server_ok_drop server_ok_emit split: option.splits)
next
  case (orphan d)
  with assms(2) show ?thesis by (simp add: server_ok_end)
next
  case (enqueue sid data ch rel priority r)
  then show ?thesis
    using assms(2)
    by (auto simp: server_try_enqueue_def server_ok_set_driver split: option.splits prod.splits sum.splits try_send_error.splits)
next
  case (enqueue_wait sid data ch rel priority r)
  then show ?thesis
    using assms(2) by (auto simp: server_enqueue_def server_ok_set_driver split: option.splits)
next
  case hang_up
  with assms(2) show ?thesis by (auto intro: server_ok_frame)
qed

lemma server_ok_reachable: "server_reachable schema srv \<Longrightarrow> server_ok srv"
proof (induction rule: server_reachable.induct)
  case start
  show ?case by (simp add: server_ok_def server_new_def registry_ok_new peers_served_def) (simp add: registry_new_def)
next
  case (step srv srv')
  then show ?case by (blast intro: server_ok_step)
qed

section \<open>Properties\<close>

text \<open>
  C13. In every run of the server, what the application sends on the session of a registered
  address goes to the driver of that address, and the session is found by its address and back.
\<close>

theorem session_reaches_its_peer:
  assumes "server_reachable schema srv" and "session_for addr (srv_peers srv) = Some sid"
  shows "\<exists>d. outbound_for sid (srv_peers srv) = Some d \<and> d < length (drivers srv)
    \<and> pd_addr (drivers srv ! d) = addr \<and> peer_addr_for sid (srv_peers srv) = Some addr"
proof -
  obtain e where e: "map_of (by_addr (srv_peers srv)) addr = Some e" "pe_session e = sid"
    using assms(2) by (auto simp: session_for_def)
  then show ?thesis
    using server_ok_reachable [OF assms(1)] registry_okD [of "srv_peers srv" addr e]
    by (auto simp: server_ok_def peers_served_def outbound_for_def peer_addr_for_def)
qed

definition one_peer :: "nat server" where
  "one_peer = snd (the (bridge_event [Connected 1, Disconnected UserRequested] (PeerEstablished 7) server_new))"

lemma one_peer_fields:
  "bridge_event [Connected 1, Disconnected UserRequested] (PeerEstablished 7) server_new = Some (True, one_peer)"
  "session_for 7 (srv_peers one_peer) = Some 0" "srv_open one_peer"
  by (simp_all add: one_peer_def spawn_peer_carrier_def register_def server_new_def registry_new_def
      srv_emit_def session_for_def)

theorem session_reaches_its_peer_witness:
  "\<exists>d. outbound_for 0 (srv_peers one_peer) = Some d \<and> d < length (drivers one_peer)
    \<and> pd_addr (drivers one_peer ! d) = 7 \<and> peer_addr_for 0 (srv_peers one_peer) = Some 7"
proof -
  have "server_reachable no_schema one_peer"
    by (rule server_reachable.step [OF server_reachable.start server_step.bridge [OF one_peer_fields(1)]])
  from session_reaches_its_peer [OF this one_peer_fields(2)] show ?thesis .
qed

lemma end_driver_frame [simp]:
  "srv_peers (end_driver d srv) = srv_peers srv" "srv_events (end_driver d srv) = srv_events srv"
  "srv_open (end_driver d srv) = srv_open srv"
  by (simp_all add: end_driver_def Let_def)

text \<open>
  When the carrier of a peer reports that the peer disconnected, the session is closed for the
  application but stays registered, and the end of the DTLS connection closes it a second time.
\<close>

lemma peer_disconnect_reported_twice:
  assumes "session_for (pd_addr (drivers srv ! d)) (srv_peers srv) = Some sid" and "srv_open srv"
    and "from_carrier (pd_carrier (drivers srv ! d)) = Some (Disconnected r # rx)"
  shows "srv_peers (driver_inbound schema d srv) = srv_peers srv
    \<and> (\<exists>srv'. bridge_event evs (PeerDisconnected (pd_addr (drivers srv ! d)) reason) (driver_inbound schema d srv) = Some (True, srv')
        \<and> srv_events srv' = srv_events srv @ [EvDisconnected sid (CarrierReason r), EvDisconnected sid (TransportReason reason)])"
proof -
  let ?p = "drivers srv ! d" and ?srv1 = "driver_inbound schema d srv"
  have 1: "?srv1 = end_driver d (snd (srv_emit (EvDisconnected sid (CarrierReason r))
      (set_driver d (?p\<lparr>pd_carrier := (pd_carrier ?p)\<lparr>from_carrier := Some rx\<rparr>\<rparr>) srv)))"
    using assms by (simp add: driver_inbound_def recv_message_def handle_inbound_def Let_def)
  then have frame: "srv_peers ?srv1 = srv_peers srv" "srv_open ?srv1"
    "srv_events ?srv1 = srv_events srv @ [EvDisconnected sid (CarrierReason r)]"
    using assms(2) by (simp_all add: srv_emit_def)
  obtain reg where "remove_peer (pd_addr ?p) (srv_peers ?srv1) = (Some sid, reg)"
    using assms(1) frame(1) by (auto simp: session_for_def remove_peer_def)
  with frame show ?thesis
    by (simp add: srv_emit_def Let_def)
qed

text \<open>
  A message of the carrier of an old session that is handled after a client has come back from
  the same address is reported as received on the new session: the driver finds the session by the
  address only.
\<close>

lemma late_message_on_new_session:
  assumes "d < length (drivers srv)" and "srv_open srv" and "pd_addr (drivers srv ! d) = addr"
    and "from_carrier (pd_carrier (drivers srv ! d)) = Some (MessageReceived ch data # rx)"
    and "channel_from_u8 ch = Some Application2"
    and "bridge_event evs (PeerDisconnected addr reason) srv = Some (True, srv1)"
    and "bridge_event evs' (PeerEstablished addr) srv1 = Some (True, srv2)"
  shows "srv_events (driver_inbound schema d srv2) =
    srv_events srv1 @ [EvReady (next_session (srv_peers srv)), EvReceived (next_session (srv_peers srv)) ch data]"
proof -
  let ?sid = "next_session (srv_peers srv)"
  have srv1: "drivers srv1 = drivers srv" "srv_open srv1" "next_session (srv_peers srv1) = ?sid"
    using assms(2,6) by (auto simp: Let_def srv_emit_def remove_peer_def split: prod.splits option.splits if_splits)
  have srv2: "drivers srv2 ! d = drivers srv ! d" "srv_open srv2" "session_for addr (srv_peers srv2) = Some ?sid"
    "srv_events srv2 = srv_events srv1 @ [EvReady ?sid]"
    using assms(1,7) srv1
    by (auto simp: spawn_peer_carrier_def register_def Let_def srv_emit_def nth_append session_for_def update_conv')
  have ch: "ch = 2"
    using assms(5) by (simp add: channel_id_from channel_id_def)
  show ?thesis
    using srv2 assms(3,4)
    by (simp add: driver_inbound_def Let_def recv_message_def handle_inbound_def handle_inbound_message_def
        srv_emit_def ch system_channel_def max_channels_def channel_from_u8_def carries_hub_messages_def)
qed

definition talking_peer :: "nat server" where
  "talking_peer = driver_ready 0
     (snd (the (bridge_event [Connected 1, MessageReceived 2 [9]] (PeerEstablished 7) server_new)))"

text \<open>
  C11. A typed message reaches the application on the other side: what a client sends through the
  builder is, in the payload the server receives, one event with the type of the message that
  decodes to it; and what a server sends is that for the client.
\<close>

theorem typed_messages_arrive:
  assumes "lawful_codec (msg_codec t) valid enc" and "valid m" and "msg_type_index t \<noteq> 0"
    and "is_direct_message schema (msg_type_index t) = Some True" and "length cid = 16"
    and "length (enc carrier_endian m) + 23 < 2 ^ 32"
    and "session_for addr (srv_peers srv) = Some sid" and "srv_open srv"
    and "channel_from_u8 ch = Some c" and "carries_hub_messages c"
  shows "\<exists>up down body.
      outgoing_encode schema t ClientToServer (client_framed t) (on_channel ch (for_actor cid (outgoing_new s m nil_uuid))) =
        Some (Ok (s, up, ch, Reliable, 0))
    \<and> handle_inbound schema addr (MessageReceived ch up) srv =
        (True, srv\<lparr>srv_events := srv_events srv @ [EvReceived sid ch up, EvTyped sid ch (msg_type_index t) body]\<rparr>)
    \<and> outgoing_encode schema t ServerToClient (server_framed t) (on_channel ch (outgoing_new sid m ())) =
        Some (Ok (sid, down, ch, Reliable, 0))
    \<and> dispatch_messages schema s ch down = [EvTyped s ch (msg_type_index t) body]
    \<and> typed_message t (EvTyped s ch (msg_type_index t) body) = Ok (Some m)
    \<and> typed_message t (EvTyped sid ch (msg_type_index t) body) = Ok (Some m)"
proof -
  let ?body = "enc carrier_endian m"
  let ?env = "envelope_enc t ?body" and ?i = "msg_type_index t"
  let ?up = "correlated_prefix (correlated_of cid ?env) @ ?env" and ?down = "sized_enc ?env"
  have len: "16 + length ?env < 2 ^ 32"
    using length_envelope_enc [of t ?body] assms(6) by linarith
  have direct: "ensure_direct_message schema t path = Ok ()" for path
    using assms(4) by (simp add: ensure_direct_message_def)
  have 1: "outgoing_encode schema t ClientToServer (client_framed t) (on_channel ch (for_actor cid (outgoing_new s m nil_uuid))) =
      Some (Ok (s, ?up, ch, Reliable, 0))"
    using lawful_codec.client_frame [OF assms(1) refl assms(2,5)] direct
    by (simp add: outgoing_encode_def client_framed_def on_channel_def for_actor_def outgoing_new_def
        write_bytes_def write_new_def Let_def)
  have 2: "outgoing_encode schema t ServerToClient (server_framed t) (on_channel ch (outgoing_new sid m ())) =
      Some (Ok (sid, ?down, ch, Reliable, 0))"
    using lawful_codec.server_frame [OF assms(1) refl assms(2)] direct
    by (simp add: outgoing_encode_def server_framed_def on_channel_def outgoing_new_def
        write_bytes_def write_new_def)
  have 3: "fst (read_correlated_message (read_new carrier_endian ?up)) =
      Inr (correlated_of cid ?env, typed_view t ?body)"
    using read_correlated_enc [OF assms(3,5) refl len, of "read_new carrier_endian ?up" "[]"]
    by (simp add: carrier_endian_def)
  have ch: "ch \<noteq> system_channel" "\<not> unat ch \<ge> max_channels"
    using assms(9,10)
    by (auto simp: channel_id_from channel_id_def carries_hub_messages_def system_channel_def max_channels_def)
  have 4: "handle_inbound schema addr (MessageReceived ch ?up) srv =
      (True, srv\<lparr>srv_events := srv_events srv @ [EvReceived sid ch ?up, EvTyped sid ch ?i ?body]\<rparr>)"
    using ch 3 assms(7-10)
    by (simp add: handle_inbound_def handle_inbound_message_def srv_emit_def handle_correlated_def typed_view_def)
  have 5: "dispatch_messages schema s ch ?down = [EvTyped s ch ?i ?body]"
    using dispatch_delivers_messages [of "[(?i, ?body)]" schema s ch] assms(3,6)
    by (simp add: stream_ok_def stream_enc_def envelope_enc_def)
  have 6: "typed_message t (EvTyped q ch ?i ?body) = Ok (Some m)" for q
    using lawful_codec.unmarshal_enc [OF assms(1,2), of "read_new carrier_endian ?body" "[]"]
    by (simp add: typed_message_def)
  from 1 2 4 5 6 show ?thesis by blast
qed

theorem typed_messages_arrive_witness:
  "let schema = no_schema\<lparr>is_direct_message := (\<lambda>i. Some (i = 19))\<rparr> in \<exists>up down body.
      outgoing_encode schema ping_type ClientToServer (client_framed ping_type) (on_channel 0 (for_actor nil_uuid (outgoing_new 3 nil_uuid nil_uuid))) =
        Some (Ok (3, up, 0, Reliable, 0))
    \<and> handle_inbound schema 7 (MessageReceived 0 up) one_peer =
        (True, one_peer\<lparr>srv_events := srv_events one_peer @ [EvReceived 0 0 up, EvTyped 0 0 (msg_type_index ping_type) body]\<rparr>)
    \<and> outgoing_encode schema ping_type ServerToClient (server_framed ping_type) (on_channel 0 (outgoing_new 0 nil_uuid ())) =
        Some (Ok (0, down, 0, Reliable, 0))
    \<and> dispatch_messages schema 3 0 down = [EvTyped 3 0 (msg_type_index ping_type) body]
    \<and> typed_message ping_type (EvTyped 3 0 (msg_type_index ping_type) body) = Ok (Some nil_uuid)
    \<and> typed_message ping_type (EvTyped 0 0 (msg_type_index ping_type) body) = Ok (Some nil_uuid)"
proof -
  have "lawful_codec (msg_codec ping_type) (\<lambda>u. length u = 16) (\<lambda>_ u. u)"
    by (simp add: ping_type_def lawful_uuid)
  from typed_messages_arrive [OF this, of nil_uuid "no_schema\<lparr>is_direct_message := (\<lambda>i. Some (i = 19))\<rparr>"
      nil_uuid 7 one_peer 0 0 GameData 3] one_peer_fields show ?thesis
    by (simp add: Let_def ping_type_def nil_uuid_def channel_from_u8_def carries_hub_messages_def)
qed

end
