(* ===== verification/Context_Data.thy ===== *)
theory Context_Data
  imports Replicated_Field "HOL-Library.AList"
begin

text \<open>
  \<^verbatim>\<open>context/gde.rs\<close> and \<^verbatim>\<open>context/client.rs\<close>: the records an embedding application keeps for the
  replicated entities. The registry holds loaded and pending records, a server entity caches the metadata
  fragment it announces itself with, and the client context indexes entities by sector, parent and
  interest id.

  Hash maps whose size is asked for are association lists without repeated keys, the others are maps.
  Records, fragments, metrics and time points are type variables: the code only stores them. The constants
  of the metadata category come from a type the build generates and are an argument. A fragment of the
  metadata is its three fields; its header is the default one and is not touched here.
\<close>

type_synonym gde_id = u64
type_synonym client_actor = u64
type_synonym sector_id = u64
type_synonym replication_index = u32

section \<open>The registry\<close>

record 'r gde_registry =
  loaded_records :: "(gde_id \<times> 'r) list"
  pending_records :: "(gde_id \<times> 'r) list"

definition registry_new_gde :: "'r gde_registry" where
  "registry_new_gde = \<lparr>loaded_records = [], pending_records = []\<rparr>"

definition register_gde :: "gde_id \<Rightarrow> 'r \<Rightarrow> 'r gde_registry \<Rightarrow> 'r option \<times> 'r gde_registry" where
  "register_gde i x g =
     (map_of (loaded_records g) i,
      g\<lparr>pending_records := AList.delete i (pending_records g), loaded_records := AList.update i x (loaded_records g)\<rparr>)"

definition register_pending :: "gde_id \<Rightarrow> 'r \<Rightarrow> 'r gde_registry \<Rightarrow> 'r option \<times> 'r gde_registry" where
  "register_pending i x g =
     (case map_of (loaded_records g) i of
        Some existing \<Rightarrow> (Some existing, g\<lparr>loaded_records := AList.update i x (loaded_records g)\<rparr>)
      | None \<Rightarrow>
          (map_of (pending_records g) i, g\<lparr>pending_records := AList.update i x (pending_records g)\<rparr>))"

definition unregister_gde :: "gde_id \<Rightarrow> 'r gde_registry \<Rightarrow> 'r option \<times> 'r gde_registry" where
  "unregister_gde i g =
     (map_of (loaded_records g) i, g\<lparr>loaded_records := AList.delete i (loaded_records g)\<rparr>)"

definition unregister_pending :: "gde_id \<Rightarrow> 'r gde_registry \<Rightarrow> 'r option \<times> 'r gde_registry" where
  "unregister_pending i g =
     (map_of (pending_records g) i, g\<lparr>pending_records := AList.delete i (pending_records g)\<rparr>)"

definition promote_pending :: "gde_id \<Rightarrow> 'r gde_registry \<Rightarrow> bool \<times> 'r gde_registry" where
  "promote_pending i g =
     (case map_of (pending_records g) i of
        None \<Rightarrow> (False, g)
      | Some x \<Rightarrow>
          (True, g\<lparr>pending_records := AList.delete i (pending_records g),
                    loaded_records := AList.update i x (loaded_records g)\<rparr>))"

definition find_gde :: "gde_id \<Rightarrow> 'r gde_registry \<Rightarrow> 'r option" where
  "find_gde i g = map_of (loaded_records g) i"

definition find_pending :: "gde_id \<Rightarrow> 'r gde_registry \<Rightarrow> 'r option" where
  "find_pending i g = map_of (pending_records g) i"

definition find_any :: "gde_id \<Rightarrow> 'r gde_registry \<Rightarrow> 'r option" where
  "find_any i g = (case map_of (loaded_records g) i of Some x \<Rightarrow> Some x | None \<Rightarrow> map_of (pending_records g) i)"

text \<open>The accessors that give a mutable reference are updates by the function the caller applies to it.\<close>

definition find_gde_mut :: "('r \<Rightarrow> 'r) \<Rightarrow> gde_id \<Rightarrow> 'r gde_registry \<Rightarrow> bool \<times> 'r gde_registry" where
  "find_gde_mut f i g =
     (case map_of (loaded_records g) i of
        Some x \<Rightarrow> (True, g\<lparr>loaded_records := AList.update i (f x) (loaded_records g)\<rparr>)
      | None \<Rightarrow> (False, g))"

definition find_pending_mut :: "('r \<Rightarrow> 'r) \<Rightarrow> gde_id \<Rightarrow> 'r gde_registry \<Rightarrow> bool \<times> 'r gde_registry" where
  "find_pending_mut f i g =
     (case map_of (pending_records g) i of
        Some x \<Rightarrow> (True, g\<lparr>pending_records := AList.update i (f x) (pending_records g)\<rparr>)
      | None \<Rightarrow> (False, g))"

definition find_any_mut :: "('r \<Rightarrow> 'r) \<Rightarrow> gde_id \<Rightarrow> 'r gde_registry \<Rightarrow> bool \<times> 'r gde_registry" where
  "find_any_mut f i g =
     (if map_of (loaded_records g) i \<noteq> None then find_gde_mut f i g else find_pending_mut f i g)"

definition is_pending_gde :: "gde_id \<Rightarrow> 'r gde_registry \<Rightarrow> bool" where
  "is_pending_gde i g \<longleftrightarrow> map_of (pending_records g) i \<noteq> None"

definition len_loaded :: "'r gde_registry \<Rightarrow> nat" where "len_loaded g = length (loaded_records g)"

definition len_pending :: "'r gde_registry \<Rightarrow> nat" where "len_pending g = length (pending_records g)"

definition registry_is_empty :: "'r gde_registry \<Rightarrow> bool" where
  "registry_is_empty g \<longleftrightarrow> loaded_records g = [] \<and> pending_records g = []"

subsection \<open>One map of located records\<close>

text \<open>The abstract registry is one map from ids to records that are either loaded or pending.\<close>

datatype 'r located = Loaded 'r | Pending 'r

fun located_record :: "'r located \<Rightarrow> 'r" where
  "located_record (Loaded x) = x"
| "located_record (Pending x) = x"

definition located_at :: "'r gde_registry \<Rightarrow> gde_id \<Rightarrow> 'r located option" where
  "located_at g i =
     (case map_of (loaded_records g) i of
        Some x \<Rightarrow> Some (Loaded x)
      | None \<Rightarrow> map_option Pending (map_of (pending_records g) i))"

definition gde_registry_ok :: "'r gde_registry \<Rightarrow> bool" where
  "gde_registry_ok g \<longleftrightarrow>
     distinct (map fst (loaded_records g)) \<and> distinct (map fst (pending_records g)) \<and>
     fst ` set (loaded_records g) \<inter> fst ` set (pending_records g) = {}"

datatype 'r registry_op =
    Register gde_id 'r | Register_Pending gde_id 'r | Unregister gde_id | Unregister_Pending gde_id
  | Promote gde_id | Update_Loaded "'r \<Rightarrow> 'r" gde_id | Update_Pending "'r \<Rightarrow> 'r" gde_id | Update_Any "'r \<Rightarrow> 'r" gde_id

datatype 'r registry_reply = Old "'r option" | Flag bool

fun registry_exec :: "'r registry_op \<Rightarrow> 'r gde_registry \<Rightarrow> 'r registry_reply \<times> 'r gde_registry" where
  "registry_exec (Register i x) g = map_prod Old id (register_gde i x g)"
| "registry_exec (Register_Pending i x) g = map_prod Old id (register_pending i x g)"
| "registry_exec (Unregister i) g = map_prod Old id (unregister_gde i g)"
| "registry_exec (Unregister_Pending i) g = map_prod Old id (unregister_pending i g)"
| "registry_exec (Promote i) g = map_prod Flag id (promote_pending i g)"
| "registry_exec (Update_Loaded f i) g = map_prod Flag id (find_gde_mut f i g)"
| "registry_exec (Update_Pending f i) g = map_prod Flag id (find_pending_mut f i g)"
| "registry_exec (Update_Any f i) g = map_prod Flag id (find_any_mut f i g)"

type_synonym 'r located_map = "gde_id \<Rightarrow> 'r located option"

fun located_exec :: "'r registry_op \<Rightarrow> 'r located_map \<Rightarrow> 'r registry_reply \<times> 'r located_map" where
  "located_exec (Register i x) m =
     (Old (case m i of Some (Loaded y) \<Rightarrow> Some y | _ \<Rightarrow> None), m(i \<mapsto> Loaded x))"
| "located_exec (Register_Pending i x) m =
     (case m i of
        Some (Loaded y) \<Rightarrow> (Old (Some y), m(i \<mapsto> Loaded x))
      | Some (Pending y) \<Rightarrow> (Old (Some y), m(i \<mapsto> Pending x))
      | None \<Rightarrow> (Old None, m(i \<mapsto> Pending x)))"
| "located_exec (Unregister i) m =
     (case m i of Some (Loaded y) \<Rightarrow> (Old (Some y), m(i := None)) | _ \<Rightarrow> (Old None, m))"
| "located_exec (Unregister_Pending i) m =
     (case m i of Some (Pending y) \<Rightarrow> (Old (Some y), m(i := None)) | _ \<Rightarrow> (Old None, m))"
| "located_exec (Promote i) m =
     (case m i of Some (Pending y) \<Rightarrow> (Flag True, m(i \<mapsto> Loaded y)) | _ \<Rightarrow> (Flag False, m))"
| "located_exec (Update_Loaded f i) m =
     (case m i of Some (Loaded y) \<Rightarrow> (Flag True, m(i \<mapsto> Loaded (f y))) | _ \<Rightarrow> (Flag False, m))"
| "located_exec (Update_Pending f i) m =
     (case m i of Some (Pending y) \<Rightarrow> (Flag True, m(i \<mapsto> Pending (f y))) | _ \<Rightarrow> (Flag False, m))"
| "located_exec (Update_Any f i) m =
     (case m i of
        Some (Loaded y) \<Rightarrow> (Flag True, m(i \<mapsto> Loaded (f y)))
      | Some (Pending y) \<Rightarrow> (Flag True, m(i \<mapsto> Pending (f y)))
      | None \<Rightarrow> (Flag False, m))"

fun run_ops :: "('o \<Rightarrow> 's \<Rightarrow> 'r \<times> 's) \<Rightarrow> 'o list \<Rightarrow> 's \<Rightarrow> 'r list \<times> 's" where
  "run_ops f [] s = ([], s)"
| "run_ops f (p # ps) s = (let (r, s) = f p s; (rs, s) = run_ops f ps s in (r # rs, s))"

lemmas registry_defs = register_gde_def register_pending_def unregister_gde_def unregister_pending_def
  promote_pending_def find_gde_mut_def find_pending_mut_def find_any_mut_def

lemma run_ops_refines:
  assumes "\<And>p s. I s \<Longrightarrow> I (snd (f p s)) \<and> g p (h s) = map_prod id h (f p s)"
  shows "I s \<Longrightarrow> I (snd (run_ops f ps s)) \<and> run_ops g ps (h s) = map_prod id h (run_ops f ps s)"
proof (induction ps arbitrary: s)
  case (Cons p ps)
  show ?case using assms[OF Cons.prems, of p] Cons.IH[of "snd (f p s)"]
    by (simp add: Let_def split_beta map_prod_def)
qed simp

lemma map_of_disjoint:
  assumes "gde_registry_ok g" "map_of (pending_records g) i = Some x"
  shows "map_of (loaded_records g) i = None"
proof -
  have "i \<in> fst ` set (pending_records g)" using assms(2) by (simp add: weak_map_of_SomeI map_of_eq_None_iff[THEN iffD1] dom_map_of_conv_image_fst[symmetric] domI)
  then have "i \<notin> fst ` set (loaded_records g)" using assms(1) by (auto simp: gde_registry_ok_def)
  then show ?thesis by (simp add: map_of_eq_None_iff)
qed

lemma map_of_disjoint':
  "gde_registry_ok g \<Longrightarrow> map_of (loaded_records g) i = Some x \<Longrightarrow> map_of (pending_records g) i = None"
  using map_of_disjoint by fastforce

lemma keys_update: "fst ` set (AList.update i x al) = insert i (fst ` set al)"
  using dom_update[of i x al] by simp

lemma keys_delete: "fst ` set (AList.delete i al) = fst ` set al - {i}"
  by (metis delete_conv' dom_fun_upd dom_map_of_conv_image_fst)

lemma gde_registry_ok_steps:
  assumes "gde_registry_ok g"
  shows "gde_registry_ok (g\<lparr>pending_records := AList.delete i (pending_records g)\<rparr>)"
    and "gde_registry_ok (g\<lparr>loaded_records := AList.delete i (loaded_records g)\<rparr>)"
    and "gde_registry_ok (g\<lparr>pending_records := AList.delete i (pending_records g), loaded_records := AList.update i x (loaded_records g)\<rparr>)"
    and "map_of (pending_records g) i = None \<Longrightarrow> gde_registry_ok (g\<lparr>loaded_records := AList.update i x (loaded_records g)\<rparr>)"
    and "map_of (loaded_records g) i = None \<Longrightarrow> gde_registry_ok (g\<lparr>pending_records := AList.update i x (pending_records g)\<rparr>)"
  using assms by (auto simp: gde_registry_ok_def distinct_update distinct_delete keys_update keys_delete map_of_eq_None_iff)

lemma registry_step_ok:
  assumes "gde_registry_ok g"
  shows "gde_registry_ok (snd (registry_exec p g))"
  by (cases p) (use assms in \<open>auto simp: registry_defs gde_registry_ok_steps map_of_disjoint map_of_disjoint' split: option.split\<close>)

lemma located_steps:
  assumes "gde_registry_ok g"
  shows "located_at (g\<lparr>pending_records := AList.delete i (pending_records g), loaded_records := AList.update i x (loaded_records g)\<rparr>) =
           (located_at g)(i \<mapsto> Loaded x)"
    and "located_at (g\<lparr>loaded_records := AList.update i x (loaded_records g)\<rparr>) = (located_at g)(i \<mapsto> Loaded x)"
    and "map_of (loaded_records g) i = None \<Longrightarrow>
           located_at (g\<lparr>pending_records := AList.update i x (pending_records g)\<rparr>) = (located_at g)(i \<mapsto> Pending x)"
    and "map_of (loaded_records g) i = Some y \<Longrightarrow>
           located_at (g\<lparr>loaded_records := AList.delete i (loaded_records g)\<rparr>) = (located_at g)(i := None)"
    and "map_of (pending_records g) i = Some y \<Longrightarrow>
           located_at (g\<lparr>pending_records := AList.delete i (pending_records g)\<rparr>) = (located_at g)(i := None)"
  using map_of_disjoint[OF assms, of i] map_of_disjoint'[OF assms, of i]
  by (auto simp: located_at_def update_conv' delete_conv' fun_eq_iff split: option.splits)

lemma AList_delete_absent: "map_of al i = None \<Longrightarrow> AList.delete i al = al"
  by (induction al) (auto split: if_splits)

lemma registry_step_refines:
  assumes "gde_registry_ok g"
  shows "located_exec p (located_at g) = map_prod id located_at (registry_exec p g)"
proof -
  note [simp] = registry_defs located_steps[OF assms] AList_delete_absent
  have l: "located_at g i = Some (Loaded y)" if "map_of (loaded_records g) i = Some y" for i y
    using that by (simp add: located_at_def)
  have q: "located_at g i = Some (Pending y)" "map_of (loaded_records g) i = None" if "map_of (pending_records g) i = Some y" for i y
    using map_of_disjoint[OF assms that] that by (simp_all add: located_at_def)
  have n: "located_at g i = None" if "map_of (loaded_records g) i = None" "map_of (pending_records g) i = None" for i
    using that by (simp add: located_at_def)
  define j where "j = (case p of Register i _ \<Rightarrow> i | Register_Pending i _ \<Rightarrow> i | Unregister i \<Rightarrow> i | Unregister_Pending i \<Rightarrow> i
     | Promote i \<Rightarrow> i | Update_Loaded _ i \<Rightarrow> i | Update_Pending _ i \<Rightarrow> i | Update_Any _ i \<Rightarrow> i)"
  consider y where "map_of (loaded_records g) j = Some y" "map_of (pending_records g) j = None"
    | y where "map_of (pending_records g) j = Some y" "map_of (loaded_records g) j = None"
    | "map_of (loaded_records g) j = None" "map_of (pending_records g) j = None"
    using map_of_disjoint'[OF assms] by (metis option.exhaust)
  then show ?thesis
    by cases (cases p; use j_def in \<open>simp add: l q n\<close>)+
qed

lemma gde_registry_ok_new: "gde_registry_ok registry_new_gde" "located_at registry_new_gde = Map.empty"
  by (simp_all add: gde_registry_ok_def registry_new_gde_def located_at_def fun_eq_iff)

lemma registry_reads:
  assumes "gde_registry_ok g"
  shows "find_any i g = map_option located_record (located_at g i)"
    and "find_gde i g = (case located_at g i of Some (Loaded x) \<Rightarrow> Some x | _ \<Rightarrow> None)"
    and "find_pending i g = (case located_at g i of Some (Pending x) \<Rightarrow> Some x | _ \<Rightarrow> None)"
    and "is_pending_gde i g \<longleftrightarrow> (\<exists>x. located_at g i = Some (Pending x))"
    and "len_loaded g + len_pending g = card (dom (located_at g))"
    and "registry_is_empty g \<longleftrightarrow> located_at g = Map.empty"
proof -
  show "find_any i g = map_option located_record (located_at g i)"
    by (cases "map_of (loaded_records g) i"; cases "map_of (pending_records g) i") (simp_all add: find_any_def located_at_def)
  show "find_gde i g = (case located_at g i of Some (Loaded x) \<Rightarrow> Some x | _ \<Rightarrow> None)"
    by (cases "map_of (loaded_records g) i"; cases "map_of (pending_records g) i") (simp_all add: find_gde_def located_at_def)
  show "find_pending i g = (case located_at g i of Some (Pending x) \<Rightarrow> Some x | _ \<Rightarrow> None)"
    using map_of_disjoint'[OF assms, of i]
    by (cases "map_of (loaded_records g) i"; cases "map_of (pending_records g) i") (simp_all add: find_pending_def located_at_def)
  show "is_pending_gde i g \<longleftrightarrow> (\<exists>x. located_at g i = Some (Pending x))"
    using map_of_disjoint'[OF assms, of i]
    by (cases "map_of (loaded_records g) i"; cases "map_of (pending_records g) i") (simp_all add: is_pending_gde_def located_at_def)
  have d: "dom (located_at g) = fst ` set (loaded_records g) \<union> fst ` set (pending_records g)"
  proof (rule set_eqI)
    fix i
    show "i \<in> dom (located_at g) \<longleftrightarrow> i \<in> fst ` set (loaded_records g) \<union> fst ` set (pending_records g)"
      unfolding dom_map_of_conv_image_fst[symmetric]
      by (cases "map_of (loaded_records g) i"; cases "map_of (pending_records g) i") (simp_all add: located_at_def domIff)
  qed
  show "len_loaded g + len_pending g = card (dom (located_at g))"
    using assms unfolding d gde_registry_ok_def len_loaded_def len_pending_def
    by (simp add: card_Un_disjoint) (metis distinct_card length_map list.set_map)
  have "located_at g = Map.empty \<longleftrightarrow> dom (located_at g) = {}" by simp
  then show "registry_is_empty g \<longleftrightarrow> located_at g = Map.empty"
    unfolding d by (simp add: registry_is_empty_def)
qed


text \<open>
  C35. The registry behaves as one map from ids to located records: after any sequence of operations the
  replies are those of the map, no id is both loaded and pending, and the lookups and sizes read the map.
\<close>

theorem registry_refines_one_map:
  "let (replies, g) = run_ops registry_exec ps registry_new_gde
   in run_ops located_exec ps Map.empty = (replies, located_at g) \<and> gde_registry_ok g \<and>
      (find_any i g = map_option located_record (located_at g i)) \<and>
      (is_pending_gde i g \<longleftrightarrow> (\<exists>x. located_at g i = Some (Pending x))) \<and>
      len_loaded g + len_pending g = card (dom (located_at g))"
proof -
  obtain replies g where g: "run_ops registry_exec ps registry_new_gde = (replies, g)" by force
  have "gde_registry_ok g \<and> run_ops located_exec ps Map.empty = (replies, located_at g)"
    using run_ops_refines[where I = gde_registry_ok and f = registry_exec and g = located_exec and h = located_at
        and s = registry_new_gde and ps = ps]
    by (simp add: registry_step_ok registry_step_refines gde_registry_ok_new g)
  then show ?thesis by (simp add: g registry_reads)
qed

section \<open>Server records\<close>

datatype fragment_category =
    Uncategorized | Player_Character | Non_Player_Character | Important_Non_Player_Character
  | Spell | Projectile | Buildable | Num_Categories

record 'c replication_categories =
  cat_uncategorized :: 'c
  cat_player_character :: 'c
  cat_non_player_character :: 'c
  cat_important_non_player_character :: 'c
  cat_buildable :: 'c

fun metadata_replication_category :: "'c replication_categories \<Rightarrow> fragment_category \<Rightarrow> 'c" where
  "metadata_replication_category cs Uncategorized = cat_uncategorized cs"
| "metadata_replication_category cs Player_Character = cat_player_character cs"
| "metadata_replication_category cs Non_Player_Character = cat_non_player_character cs"
| "metadata_replication_category cs Important_Non_Player_Character = cat_important_non_player_character cs"
| "metadata_replication_category cs Buildable = cat_buildable cs"
| "metadata_replication_category cs _ = cat_uncategorized cs"

record ('a, 'g, 'c) gde_metadata =
  md_asset_id :: "'a field_handler"
  md_gde_ref :: "'g field_handler"
  md_replication_category :: "'c field_handler"

definition metadata_with_asset :: "'a \<Rightarrow> 'g \<Rightarrow> ('a, 'g, 'c) gde_metadata" where
  "metadata_with_asset a g =
     \<lparr>md_asset_id = set_value a field_default, md_gde_ref = set_value g field_default,
      md_replication_category = field_default\<rparr>"

record ('a, 'g, 'c, 'k) server_gde =
  sg_asset_id :: 'a
  sg_gde_ref :: 'g
  sg_replication_category :: fragment_category
  sg_active_client_listeners :: "client_actor set"
  sg_runtime_added_components :: "'k list"
  sg_metadata_fragment :: "('a, 'g, 'c) gde_metadata option"

definition server_gde_new :: "'a \<Rightarrow> 'g \<Rightarrow> ('a, 'g, 'c, 'k) server_gde" where
  "server_gde_new a g =
     \<lparr>sg_asset_id = a, sg_gde_ref = g, sg_replication_category = Uncategorized, sg_active_client_listeners = {},
      sg_runtime_added_components = [], sg_metadata_fragment = None\<rparr>"

definition set_asset_id :: "'a \<Rightarrow> ('a, 'g, 'c, 'k) server_gde \<Rightarrow> ('a, 'g, 'c, 'k) server_gde" where
  "set_asset_id a s = (if sg_asset_id s \<noteq> a then s\<lparr>sg_asset_id := a, sg_metadata_fragment := None\<rparr> else s)"

definition set_gde_ref :: "'g \<Rightarrow> ('a, 'g, 'c, 'k) server_gde \<Rightarrow> ('a, 'g, 'c, 'k) server_gde" where
  "set_gde_ref g s = (if sg_gde_ref s \<noteq> g then s\<lparr>sg_gde_ref := g, sg_metadata_fragment := None\<rparr> else s)"

definition set_replication_category ::
    "fragment_category \<Rightarrow> ('a, 'g, 'c, 'k) server_gde \<Rightarrow> ('a, 'g, 'c, 'k) server_gde" where
  "set_replication_category c s =
     (if sg_replication_category s \<noteq> c then s\<lparr>sg_replication_category := c, sg_metadata_fragment := None\<rparr> else s)"

definition add_active_client_listener ::
    "client_actor \<Rightarrow> ('a, 'g, 'c, 'k) server_gde \<Rightarrow> bool \<times> ('a, 'g, 'c, 'k) server_gde" where
  "add_active_client_listener k s =
     (k \<notin> sg_active_client_listeners s, s\<lparr>sg_active_client_listeners := insert k (sg_active_client_listeners s)\<rparr>)"

definition remove_active_client_listener ::
    "client_actor \<Rightarrow> ('a, 'g, 'c, 'k) server_gde \<Rightarrow> bool \<times> ('a, 'g, 'c, 'k) server_gde" where
  "remove_active_client_listener k s =
     (k \<in> sg_active_client_listeners s, s\<lparr>sg_active_client_listeners := sg_active_client_listeners s - {k}\<rparr>)"

definition push_runtime_added_component :: "'k \<Rightarrow> ('a, 'g, 'c, 'k) server_gde \<Rightarrow> ('a, 'g, 'c, 'k) server_gde" where
  "push_runtime_added_component k s = s\<lparr>sg_runtime_added_components := sg_runtime_added_components s @ [k]\<rparr>"

definition produce_metadata_fragment ::
    "'c replication_categories \<Rightarrow> hub_seq \<Rightarrow> ('a, 'g, 'c, 'k) server_gde \<Rightarrow>
     ('a, 'g, 'c) gde_metadata \<times> ('a, 'g, 'c, 'k) server_gde" where
  "produce_metadata_fragment cs seq s =
     (case sg_metadata_fragment s of
        Some m \<Rightarrow> (m, s)
      | None \<Rightarrow>
          (let m = metadata_with_asset (sg_asset_id s) (sg_gde_ref s);
               m = m\<lparr>md_replication_category :=
                 set_value (metadata_replication_category cs (sg_replication_category s)) (md_replication_category m)\<rparr>;
               m = m\<lparr>md_asset_id := set_last_modified seq (md_asset_id m)\<rparr>;
               m = m\<lparr>md_gde_ref := set_last_modified seq (md_gde_ref m)\<rparr>;
               m = m\<lparr>md_replication_category := set_last_modified seq (md_replication_category m)\<rparr>
           in (m, s\<lparr>sg_metadata_fragment := Some m\<rparr>)))"

subsection \<open>The cached fragment is current\<close>

datatype ('a, 'g, 'k) gde_op =
    Set_Asset_Id 'a | Set_Gde_Ref 'g | Set_Category fragment_category
  | Add_Listener client_actor | Remove_Listener client_actor | Push_Component 'k | Produce hub_seq

fun gde_exec :: "'c replication_categories \<Rightarrow> ('a, 'g, 'k) gde_op \<Rightarrow> ('a, 'g, 'c, 'k) server_gde \<Rightarrow> ('a, 'g, 'c, 'k) server_gde" where
  "gde_exec cs (Set_Asset_Id a) s = set_asset_id a s"
| "gde_exec cs (Set_Gde_Ref g) s = set_gde_ref g s"
| "gde_exec cs (Set_Category c) s = set_replication_category c s"
| "gde_exec cs (Add_Listener k) s = snd (add_active_client_listener k s)"
| "gde_exec cs (Remove_Listener k) s = snd (remove_active_client_listener k s)"
| "gde_exec cs (Push_Component k) s = push_runtime_added_component k s"
| "gde_exec cs (Produce q) s = snd (produce_metadata_fragment cs q s)"

text \<open>
  The reference keeps no fragment: it remembers the inputs and the number with which they were first
  announced, and describes the fragment from them.
\<close>

fun announced_inputs :: "('a, 'g, 'k) gde_op list \<Rightarrow> 'a \<times> 'g \<times> fragment_category \<times> hub_seq option \<Rightarrow> 'a \<times> 'g \<times> fragment_category \<times> hub_seq option" where
  "announced_inputs [] d = d"
| "announced_inputs (p # ps) (a, g, c, q) = announced_inputs ps
     (case p of
        Set_Asset_Id a' \<Rightarrow> (a', g, c, if a' = a then q else None)
      | Set_Gde_Ref g' \<Rightarrow> (a, g', c, if g' = g then q else None)
      | Set_Category c' \<Rightarrow> (a, g, c', if c' = c then q else None)
      | Produce q' \<Rightarrow> (a, g, c, case q of None \<Rightarrow> Some q' | Some _ \<Rightarrow> q)
      | _ \<Rightarrow> (a, g, c, q))"

definition field_at :: "hub_seq \<Rightarrow> 'a \<Rightarrow> 'a field_handler" where
  "field_at q v = field_default\<lparr>fh_value := Some v, fh_last_modified := q\<rparr>"

definition metadata_of :: "'c replication_categories \<Rightarrow> 'a \<Rightarrow> 'g \<Rightarrow> fragment_category \<Rightarrow> hub_seq \<Rightarrow> ('a, 'g, 'c) gde_metadata" where
  "metadata_of cs a g c q =
     \<lparr>md_asset_id = field_at q a, md_gde_ref = field_at q g,
      md_replication_category = field_at q (metadata_replication_category cs c)\<rparr>"

definition gde_shows :: "'c replication_categories \<Rightarrow> 'a \<times> 'g \<times> fragment_category \<times> hub_seq option \<Rightarrow> ('a, 'g, 'c, 'k) server_gde \<Rightarrow> bool" where
  "gde_shows cs = (\<lambda>(a, g, c, q) s. sg_asset_id s = a \<and> sg_gde_ref s = g \<and> sg_replication_category s = c \<and>
     sg_metadata_fragment s = map_option (metadata_of cs a g c) q)"

lemma produced_fragment:
  "gde_shows cs (a, g, c, q) s \<Longrightarrow>
   fst (produce_metadata_fragment cs q' s) = metadata_of cs a g c (case q of None \<Rightarrow> q' | Some q \<Rightarrow> q) \<and>
   gde_shows cs (a, g, c, Some (case q of None \<Rightarrow> q' | Some q \<Rightarrow> q)) (snd (produce_metadata_fragment cs q' s))"
  by (cases q)
    (simp_all add: gde_shows_def produce_metadata_fragment_def metadata_of_def metadata_with_asset_def field_at_def
      set_value_def set_last_modified_def field_default_def Let_def)

lemma gde_exec_shows:
  "gde_shows cs d s \<Longrightarrow> gde_shows cs (announced_inputs [p] d) (gde_exec cs p s)"
proof (cases d)
  case (fields a g c q)
  assume s: "gde_shows cs d s"
  show ?thesis
  proof (cases p)
    case (Produce q')
    then show ?thesis using produced_fragment[of cs a g c q s q'] s fields by (cases q) simp_all
  qed (use s fields in \<open>auto simp: gde_shows_def set_asset_id_def set_gde_ref_def set_replication_category_def
      add_active_client_listener_def remove_active_client_listener_def push_runtime_added_component_def\<close>)
qed

lemma announced_cons: "announced_inputs (p # ps) d = announced_inputs ps (announced_inputs [p] d)"
  by (cases d) simp

lemma gde_run_shows:
  "gde_shows cs d s \<Longrightarrow> gde_shows cs (announced_inputs ps d) (fold (gde_exec cs) ps s)"
proof (induction ps arbitrary: d s)
  case Nil then show ?case by (cases d) simp
next
  case (Cons p ps)
  then show ?case using gde_exec_shows[OF Cons.prems] by (subst announced_cons) simp
qed

text \<open>
  C36. Whatever is done to a server entity, the fragment it produces is the one its current asset, reference
  and category describe, stamped with the number of the first announcement since they last changed.
\<close>

theorem produced_metadata_is_current:
  "let (asset, ref, category, stamp) = announced_inputs ps (a, g, Uncategorized, None)
   in fst (produce_metadata_fragment cs q (fold (gde_exec cs) ps (server_gde_new a g))) =
      metadata_of cs asset ref category (case stamp of None \<Rightarrow> q | Some first \<Rightarrow> first)"
proof -
  have "gde_shows cs (a, g, Uncategorized, None) (server_gde_new a g)"
    by (simp add: gde_shows_def server_gde_new_def)
  then have "gde_shows cs (announced_inputs ps (a, g, Uncategorized, None)) (fold (gde_exec cs) ps (server_gde_new a g))"
    by (rule gde_run_shows)
  then show ?thesis by (cases "announced_inputs ps (a, g, Uncategorized, None :: hub_seq option)") (simp add: produced_fragment)
qed

text \<open>A peer that has seen an earlier number gets the three fields.\<close>

lemma metadata_dirty:
  "seq_is_valid q \<Longrightarrow> baseline < q \<Longrightarrow>
   is_dirty_since baseline (md_asset_id (metadata_of cs a g c q)) \<and>
   is_dirty_since baseline (md_gde_ref (metadata_of cs a g c q)) \<and>
   is_dirty_since baseline (md_replication_category (metadata_of cs a g c q))"
  by (simp add: metadata_of_def field_at_def is_dirty_since_def)


section \<open>The client context\<close>

record ('f, 'g) offline_gde =
  og_gde_ref :: 'g
  og_replicated_state :: "replication_index \<rightharpoonup> 'f"

definition offline_new :: "'g \<Rightarrow> ('f, 'g) offline_gde" where
  "offline_new g = \<lparr>og_gde_ref = g, og_replicated_state = Map.empty\<rparr>"

definition insert_fragment :: "replication_index \<Rightarrow> 'f \<Rightarrow> ('f, 'g) offline_gde \<Rightarrow> 'f option \<times> ('f, 'g) offline_gde" where
  "insert_fragment i f d =
     (og_replicated_state d i, d\<lparr>og_replicated_state := (og_replicated_state d)(i \<mapsto> f)\<rparr>)"

definition remove_fragment :: "replication_index \<Rightarrow> ('f, 'g) offline_gde \<Rightarrow> 'f option \<times> ('f, 'g) offline_gde" where
  "remove_fragment i d =
     (og_replicated_state d i, d\<lparr>og_replicated_state := (og_replicated_state d)(i := None)\<rparr>)"

definition interest_id_mapping_len :: nat where "interest_id_mapping_len = 0xffff + 1"

record ('f, 'g, 'm, 'q, 't) client_context =
  offline_portrayal_cache :: "gde_id \<rightharpoonup> ('f, 'g) offline_gde"
  interest_id_mapping :: "'m option list"
  gde_fragment_cache :: "gde_id \<rightharpoonup> (replication_index \<rightharpoonup> 'f)"
  bandwidth_mode_from_server :: u8
  client_metrics :: 'q
  fragments_updated :: "gde_id \<rightharpoonup> u32"
  gdes_per_sector :: "sector_id \<rightharpoonup> gde_id set"
  parent_gde_listeners :: "gde_id \<rightharpoonup> gde_id set"
  gdes_pending_phase_handle :: "gde_id set"
  dungeon_phase :: u64
  is_phasing_enabled :: bool
  current_time_point :: 't

definition client_context_new :: "'q \<Rightarrow> 't \<Rightarrow> ('f, 'g, 'm, 'q, 't) client_context" where
  "client_context_new q t =
     \<lparr>offline_portrayal_cache = Map.empty, interest_id_mapping = replicate interest_id_mapping_len None,
      gde_fragment_cache = Map.empty, bandwidth_mode_from_server = 0, client_metrics = q,
      fragments_updated = Map.empty, gdes_per_sector = Map.empty, parent_gde_listeners = Map.empty,
      gdes_pending_phase_handle = {}, dungeon_phase = 0, is_phasing_enabled = False, current_time_point = t\<rparr>"

text \<open>The counts of \<open>fragments_updated\<close> are kept as the words of their bits. \<open>entry(k).or_default().insert(v)\<close>, and the removal that drops a set with its last element.\<close>

definition set_map_insert :: "'k \<Rightarrow> 'v \<Rightarrow> ('k \<rightharpoonup> 'v set) \<Rightarrow> bool \<times> ('k \<rightharpoonup> 'v set)" where
  "set_map_insert k v m =
     (let vs = (case m k of Some vs \<Rightarrow> vs | None \<Rightarrow> {}) in (v \<notin> vs, m(k \<mapsto> insert v vs)))"

definition set_map_remove :: "'k \<Rightarrow> 'v \<Rightarrow> ('k \<rightharpoonup> 'v set) \<Rightarrow> bool \<times> ('k \<rightharpoonup> 'v set)" where
  "set_map_remove k v m =
     (case m k of
        None \<Rightarrow> (False, m)
      | Some vs \<Rightarrow> (v \<in> vs, if vs - {v} = {} then m(k := None) else m(k \<mapsto> vs - {v})))"

definition add_gde_to_sector ::
    "sector_id \<Rightarrow> gde_id \<Rightarrow> ('f, 'g, 'm, 'q, 't) client_context \<Rightarrow> bool \<times> ('f, 'g, 'm, 'q, 't) client_context" where
  "add_gde_to_sector s i c =
     (let (new, m) = set_map_insert s i (gdes_per_sector c) in (new, c\<lparr>gdes_per_sector := m\<rparr>))"

definition remove_gde_from_sector ::
    "sector_id \<Rightarrow> gde_id \<Rightarrow> ('f, 'g, 'm, 'q, 't) client_context \<Rightarrow> bool \<times> ('f, 'g, 'm, 'q, 't) client_context" where
  "remove_gde_from_sector s i c =
     (let (removed, m) = set_map_remove s i (gdes_per_sector c) in (removed, c\<lparr>gdes_per_sector := m\<rparr>))"

definition sector_gdes :: "sector_id \<Rightarrow> ('f, 'g, 'm, 'q, 't) client_context \<Rightarrow> gde_id set option" where
  "sector_gdes s c = gdes_per_sector c s"

definition add_parent_gde_listener ::
    "gde_id \<Rightarrow> gde_id \<Rightarrow> ('f, 'g, 'm, 'q, 't) client_context \<Rightarrow> bool \<times> ('f, 'g, 'm, 'q, 't) client_context" where
  "add_parent_gde_listener p i c =
     (let (new, m) = set_map_insert p i (parent_gde_listeners c) in (new, c\<lparr>parent_gde_listeners := m\<rparr>))"

definition remove_parent_gde_listener ::
    "gde_id \<Rightarrow> gde_id \<Rightarrow> ('f, 'g, 'm, 'q, 't) client_context \<Rightarrow> bool \<times> ('f, 'g, 'm, 'q, 't) client_context" where
  "remove_parent_gde_listener p i c =
     (let (removed, m) = set_map_remove p i (parent_gde_listeners c) in (removed, c\<lparr>parent_gde_listeners := m\<rparr>))"

definition listeners_for_parent_gde :: "gde_id \<Rightarrow> ('f, 'g, 'm, 'q, 't) client_context \<Rightarrow> gde_id set option" where
  "listeners_for_parent_gde p c = parent_gde_listeners c p"

definition mark_gde_pending_phase_handle ::
    "gde_id \<Rightarrow> ('f, 'g, 'm, 'q, 't) client_context \<Rightarrow> bool \<times> ('f, 'g, 'm, 'q, 't) client_context" where
  "mark_gde_pending_phase_handle i c =
     (i \<notin> gdes_pending_phase_handle c, c\<lparr>gdes_pending_phase_handle := insert i (gdes_pending_phase_handle c)\<rparr>)"

definition clear_gde_pending_phase_handle ::
    "gde_id \<Rightarrow> ('f, 'g, 'm, 'q, 't) client_context \<Rightarrow> bool \<times> ('f, 'g, 'm, 'q, 't) client_context" where
  "clear_gde_pending_phase_handle i c =
     (i \<in> gdes_pending_phase_handle c, c\<lparr>gdes_pending_phase_handle := gdes_pending_phase_handle c - {i}\<rparr>)"

definition store_offline_fragment ::
    "'g \<Rightarrow> gde_id \<Rightarrow> replication_index \<Rightarrow> 'f \<Rightarrow> ('f, 'g, 'm, 'q, 't) client_context \<Rightarrow>
     'f option \<times> ('f, 'g, 'm, 'q, 't) client_context" where
  "store_offline_fragment default_ref i x f c =
     (let d = (case offline_portrayal_cache c i of Some d \<Rightarrow> d | None \<Rightarrow> offline_new default_ref);
          (old, d) = insert_fragment x f d
      in (old, c\<lparr>offline_portrayal_cache := (offline_portrayal_cache c)(i \<mapsto> d)\<rparr>))"

definition insert_offline_gde_replication_data ::
    "gde_id \<Rightarrow> ('f, 'g) offline_gde \<Rightarrow> ('f, 'g, 'm, 'q, 't) client_context \<Rightarrow>
     ('f, 'g) offline_gde option \<times> ('f, 'g, 'm, 'q, 't) client_context" where
  "insert_offline_gde_replication_data i d c =
     (offline_portrayal_cache c i, c\<lparr>offline_portrayal_cache := (offline_portrayal_cache c)(i \<mapsto> d)\<rparr>)"

definition remove_offline_gde_replication_data ::
    "gde_id \<Rightarrow> ('f, 'g, 'm, 'q, 't) client_context \<Rightarrow>
     ('f, 'g) offline_gde option \<times> ('f, 'g, 'm, 'q, 't) client_context" where
  "remove_offline_gde_replication_data i c =
     (offline_portrayal_cache c i, c\<lparr>offline_portrayal_cache := (offline_portrayal_cache c)(i := None)\<rparr>)"

definition metadata_for_interest_id :: "u16 \<Rightarrow> ('f, 'g, 'm, 'q, 't) client_context \<Rightarrow> 'm option" where
  "metadata_for_interest_id i c =
     (if unat i < length (interest_id_mapping c) then interest_id_mapping c ! unat i else None)"

definition set_interest_metadata ::
    "u16 \<Rightarrow> 'm \<Rightarrow> ('f, 'g, 'm, 'q, 't) client_context \<Rightarrow> bool \<times> ('f, 'g, 'm, 'q, 't) client_context" where
  "set_interest_metadata i m c =
     (if unat i < length (interest_id_mapping c)
      then (True, c\<lparr>interest_id_mapping := (interest_id_mapping c)[unat i := Some m]\<rparr>) else (False, c))"

definition clear_interest_metadata ::
    "u16 \<Rightarrow> ('f, 'g, 'm, 'q, 't) client_context \<Rightarrow> bool \<times> ('f, 'g, 'm, 'q, 't) client_context" where
  "clear_interest_metadata i c =
     (if unat i < length (interest_id_mapping c)
      then (interest_id_mapping c ! unat i \<noteq> None, c\<lparr>interest_id_mapping := (interest_id_mapping c)[unat i := None]\<rparr>)
      else (False, c))"

definition get_or_create_gde_fragments ::
    "((replication_index \<rightharpoonup> 'f) \<Rightarrow> (replication_index \<rightharpoonup> 'f)) \<Rightarrow> gde_id \<Rightarrow>
     ('f, 'g, 'm, 'q, 't) client_context \<Rightarrow> ('f, 'g, 'm, 'q, 't) client_context" where
  "get_or_create_gde_fragments f i c =
     c\<lparr>gde_fragment_cache := (gde_fragment_cache c)
         (i \<mapsto> f (case gde_fragment_cache c i of Some m \<Rightarrow> m | None \<Rightarrow> Map.empty))\<rparr>"

definition remove_gde_fragments ::
    "gde_id \<Rightarrow> ('f, 'g, 'm, 'q, 't) client_context \<Rightarrow>
     (replication_index \<rightharpoonup> 'f) option \<times> ('f, 'g, 'm, 'q, 't) client_context" where
  "remove_gde_fragments i c =
     (gde_fragment_cache c i, c\<lparr>gde_fragment_cache := (gde_fragment_cache c)(i := None)\<rparr>)"

definition set_fragments_updated ::
    "gde_id \<Rightarrow> u32 \<Rightarrow> ('f, 'g, 'm, 'q, 't) client_context \<Rightarrow> u32 option \<times> ('f, 'g, 'm, 'q, 't) client_context" where
  "set_fragments_updated i n c =
     (fragments_updated c i, c\<lparr>fragments_updated := (fragments_updated c)(i \<mapsto> n)\<rparr>)"

subsection \<open>Indexes of sets are relations\<close>

text \<open>
  The contract of an index from keys to sets: it stands for a relation, the operations insert and remove a
  pair and reply whether that changed the relation, and no key has an empty set.
\<close>

locale set_index =
  fixes add :: "'k \<Rightarrow> 'v \<Rightarrow> 's \<Rightarrow> bool \<times> 's"
    and del :: "'k \<Rightarrow> 'v \<Rightarrow> 's \<Rightarrow> bool \<times> 's"
    and get :: "'k \<Rightarrow> 's \<Rightarrow> 'v set option"
  assumes get_add: "get k' (snd (add k v s)) =
      (if k' = k then Some (insert v (case get k s of Some vs \<Rightarrow> vs | None \<Rightarrow> {})) else get k' s)"
    and add_new: "fst (add k v s) \<longleftrightarrow> (case get k s of Some vs \<Rightarrow> v \<notin> vs | None \<Rightarrow> True)"
    and get_del: "get k' (snd (del k v s)) =
      (if k' = k then (case get k s of Some vs \<Rightarrow> if vs \<subseteq> {v} then None else Some (vs - {v}) | None \<Rightarrow> None)
       else get k' s)"
    and del_old: "fst (del k v s) \<longleftrightarrow> (case get k s of Some vs \<Rightarrow> v \<in> vs | None \<Rightarrow> False)"
begin

definition pairs :: "'s \<Rightarrow> ('k \<times> 'v) set" where
  "pairs s = {(k, v). \<exists>vs. get k s = Some vs \<and> v \<in> vs}"

definition no_empty :: "'s \<Rightarrow> bool" where
  "no_empty s \<longleftrightarrow> (\<forall>k. get k s \<noteq> Some {})"

lemma add_pairs: "pairs (snd (add k v s)) = insert (k, v) (pairs s)" "fst (add k v s) \<longleftrightarrow> (k, v) \<notin> pairs s"
  by (auto simp: pairs_def get_add add_new split: if_splits option.splits)

lemma del_pairs: "pairs (snd (del k v s)) = pairs s - {(k, v)}" "fst (del k v s) \<longleftrightarrow> (k, v) \<in> pairs s"
  by (auto simp: pairs_def get_del del_old split: if_splits option.splits)

lemma steps_no_empty:
  "no_empty s \<Longrightarrow> no_empty (snd (add k v s))" "no_empty s \<Longrightarrow> no_empty (snd (del k v s))"
  by (auto simp: no_empty_def get_add get_del split: if_splits option.splits)

end

interpretation sectors: set_index add_gde_to_sector remove_gde_from_sector sector_gdes
  by unfold_locales
    (auto simp: add_gde_to_sector_def remove_gde_from_sector_def sector_gdes_def set_map_insert_def
      set_map_remove_def Let_def split: option.split prod.split)

interpretation parents: set_index add_parent_gde_listener remove_parent_gde_listener listeners_for_parent_gde
  by unfold_locales
    (auto simp: add_parent_gde_listener_def remove_parent_gde_listener_def listeners_for_parent_gde_def
      set_map_insert_def set_map_remove_def Let_def split: option.split prod.split)


subsection \<open>Runs of the context\<close>

datatype ('f, 'g, 'm) context_op =
    Add_Sector sector_id gde_id | Remove_Sector sector_id gde_id
  | Add_Parent gde_id gde_id | Remove_Parent gde_id gde_id
  | Mark_Pending gde_id | Clear_Pending gde_id
  | Set_Interest u16 'm | Clear_Interest u16
  | Store_Fragment 'g gde_id replication_index 'f | Drop_Offline gde_id

fun context_exec ::
    "('f, 'g, 'm) context_op \<Rightarrow> ('f, 'g, 'm, 'q, 't) client_context \<Rightarrow> ('f, 'g, 'm, 'q, 't) client_context" where
  "context_exec (Add_Sector s i) c = snd (add_gde_to_sector s i c)"
| "context_exec (Remove_Sector s i) c = snd (remove_gde_from_sector s i c)"
| "context_exec (Add_Parent p i) c = snd (add_parent_gde_listener p i c)"
| "context_exec (Remove_Parent p i) c = snd (remove_parent_gde_listener p i c)"
| "context_exec (Mark_Pending i) c = snd (mark_gde_pending_phase_handle i c)"
| "context_exec (Clear_Pending i) c = snd (clear_gde_pending_phase_handle i c)"
| "context_exec (Set_Interest i m) c = snd (set_interest_metadata i m c)"
| "context_exec (Clear_Interest i) c = snd (clear_interest_metadata i c)"
| "context_exec (Store_Fragment g i x f) c = snd (store_offline_fragment g i x f c)"
| "context_exec (Drop_Offline i) c = snd (remove_offline_gde_replication_data i c)"

fun sector_relation :: "('f, 'g, 'm) context_op \<Rightarrow> (sector_id \<times> gde_id) set \<Rightarrow> (sector_id \<times> gde_id) set" where
  "sector_relation (Add_Sector s i) R = insert (s, i) R"
| "sector_relation (Remove_Sector s i) R = R - {(s, i)}"
| "sector_relation _ R = R"

fun listener_relation :: "('f, 'g, 'm) context_op \<Rightarrow> (gde_id \<times> gde_id) set \<Rightarrow> (gde_id \<times> gde_id) set" where
  "listener_relation (Add_Parent p i) R = insert (p, i) R"
| "listener_relation (Remove_Parent p i) R = R - {(p, i)}"
| "listener_relation _ R = R"

fun interest_map :: "('f, 'g, 'm) context_op \<Rightarrow> (u16 \<rightharpoonup> 'm) \<Rightarrow> (u16 \<rightharpoonup> 'm)" where
  "interest_map (Set_Interest i m) M = M(i \<mapsto> m)"
| "interest_map (Clear_Interest i) M = M(i := None)"
| "interest_map _ M = M"

definition context_ok :: "('f, 'g, 'm, 'q, 't) client_context \<Rightarrow> bool" where
  "context_ok c \<longleftrightarrow> length (interest_id_mapping c) = interest_id_mapping_len \<and>
     (\<forall>s. sector_gdes s c \<noteq> Some {}) \<and> (\<forall>p. listeners_for_parent_gde p c \<noteq> Some {})"

lemmas context_defs = add_gde_to_sector_def remove_gde_from_sector_def add_parent_gde_listener_def
  remove_parent_gde_listener_def mark_gde_pending_phase_handle_def clear_gde_pending_phase_handle_def
  set_interest_metadata_def clear_interest_metadata_def store_offline_fragment_def
  remove_offline_gde_replication_data_def

lemma unat_interest_bound: "unat (i :: u16) < interest_id_mapping_len"
  using unsigned_less[of i] by (simp add: interest_id_mapping_len_def)

lemma context_frames:
  "gdes_per_sector (context_exec p c) =
     (case p of Add_Sector s i \<Rightarrow> gdes_per_sector (snd (add_gde_to_sector s i c))
      | Remove_Sector s i \<Rightarrow> gdes_per_sector (snd (remove_gde_from_sector s i c)) | _ \<Rightarrow> gdes_per_sector c)"
  "parent_gde_listeners (context_exec p c) =
     (case p of Add_Parent q i \<Rightarrow> parent_gde_listeners (snd (add_parent_gde_listener q i c))
      | Remove_Parent q i \<Rightarrow> parent_gde_listeners (snd (remove_parent_gde_listener q i c)) | _ \<Rightarrow> parent_gde_listeners c)"
  "interest_id_mapping (context_exec p c) =
     (case p of Set_Interest i m \<Rightarrow> interest_id_mapping (snd (set_interest_metadata i m c))
      | Clear_Interest i \<Rightarrow> interest_id_mapping (snd (clear_interest_metadata i c)) | _ \<Rightarrow> interest_id_mapping c)"
  by (cases p; simp add: context_defs Let_def split: prod.split)+

lemma sector_pairs_field: "gdes_per_sector c = gdes_per_sector d \<Longrightarrow> sectors.pairs c = sectors.pairs d"
  by (simp add: sectors.pairs_def sector_gdes_def)

lemma parent_pairs_field: "parent_gde_listeners c = parent_gde_listeners d \<Longrightarrow> parents.pairs c = parents.pairs d"
  by (simp add: parents.pairs_def listeners_for_parent_gde_def)

lemma sector_step: "sectors.pairs (context_exec p c) = sector_relation p (sectors.pairs c)"
proof (cases p)
  case (Add_Sector s i) then show ?thesis by (simp add: sectors.add_pairs)
next
  case (Remove_Sector s i) then show ?thesis by (simp add: sectors.del_pairs)
qed (simp_all only: sector_relation.simps, (rule sector_pairs_field, simp add: context_frames del: context_exec.simps)+)

lemma parent_step: "parents.pairs (context_exec p c) = listener_relation p (parents.pairs c)"
proof (cases p)
  case (Add_Parent s i) then show ?thesis by (simp add: parents.add_pairs)
next
  case (Remove_Parent s i) then show ?thesis by (simp add: parents.del_pairs)
qed (simp_all only: listener_relation.simps, (rule parent_pairs_field, simp add: context_frames del: context_exec.simps)+)

lemma interest_lookup:
  "length (interest_id_mapping c) = interest_id_mapping_len \<Longrightarrow>
   metadata_for_interest_id i c = interest_id_mapping c ! unat i"
  by (simp add: metadata_for_interest_id_def unat_interest_bound)

lemma interest_step:
  assumes "length (interest_id_mapping c) = interest_id_mapping_len"
  shows "length (interest_id_mapping (context_exec p c)) = interest_id_mapping_len"
    and "(\<lambda>i. metadata_for_interest_id i (context_exec p c)) = interest_map p (\<lambda>i. metadata_for_interest_id i c)"
proof -
  show l: "length (interest_id_mapping (context_exec p c)) = interest_id_mapping_len"
    using assms by (cases p) (simp_all add: context_frames set_interest_metadata_def clear_interest_metadata_def del: context_exec.simps)
  show "(\<lambda>i. metadata_for_interest_id i (context_exec p c)) = interest_map p (\<lambda>i. metadata_for_interest_id i c)"
  proof (rule ext)
    fix i
    show "metadata_for_interest_id i (context_exec p c) = interest_map p (\<lambda>i. metadata_for_interest_id i c) i"
      unfolding interest_lookup[OF l] context_frames
      using assms unat_interest_bound
      by (cases p)
        (simp_all add: interest_lookup set_interest_metadata_def clear_interest_metadata_def nth_list_update word_unat_eq_iff)
  qed
qed

lemma no_empty_field:
  "gdes_per_sector c = gdes_per_sector d \<Longrightarrow> sectors.no_empty c = sectors.no_empty d"
  "parent_gde_listeners c = parent_gde_listeners d \<Longrightarrow> parents.no_empty c = parents.no_empty d"
  by (simp_all add: sectors.no_empty_def sector_gdes_def parents.no_empty_def listeners_for_parent_gde_def)

lemma no_empty_step:
  assumes "sectors.no_empty c" "parents.no_empty c"
  shows "sectors.no_empty (context_exec p c)" "parents.no_empty (context_exec p c)"
proof -
  have "sectors.no_empty (context_exec p c) = sectors.no_empty
      (case p of Add_Sector s i \<Rightarrow> snd (add_gde_to_sector s i c) | Remove_Sector s i \<Rightarrow> snd (remove_gde_from_sector s i c) | _ \<Rightarrow> c)"
    by (rule no_empty_field(1)) (simp add: context_frames del: context_exec.simps split: context_op.split)
  then show "sectors.no_empty (context_exec p c)"
    using assms(1) by (cases p) (simp_all add: sectors.steps_no_empty)
  have "parents.no_empty (context_exec p c) = parents.no_empty
      (case p of Add_Parent s i \<Rightarrow> snd (add_parent_gde_listener s i c) | Remove_Parent s i \<Rightarrow> snd (remove_parent_gde_listener s i c) | _ \<Rightarrow> c)"
    by (rule no_empty_field(2)) (simp add: context_frames del: context_exec.simps split: context_op.split)
  then show "parents.no_empty (context_exec p c)"
    using assms(2) by (cases p) (simp_all add: parents.steps_no_empty)
qed

lemma context_step_ok: "context_ok c \<Longrightarrow> context_ok (context_exec p c)"
  using interest_step(1)[of c p] no_empty_step[of c p]
  by (simp add: context_ok_def sectors.no_empty_def parents.no_empty_def del: context_exec.simps)

lemma context_new_ok:
  "context_ok (client_context_new q t)" "sectors.pairs (client_context_new q t) = {}" "parents.pairs (client_context_new q t) = {}"
  "(\<lambda>i. metadata_for_interest_id i (client_context_new q t)) = Map.empty"
  by (simp_all add: context_ok_def client_context_new_def sector_gdes_def listeners_for_parent_gde_def
    sectors.pairs_def parents.pairs_def metadata_for_interest_id_def fun_eq_iff)

text \<open>
  C39. The indexes of the client context are relations: after any run the sectors and the listeners hold
  the pairs that were added and not removed since, no key is left with an empty set, and every interest id
  has a slot that gives what was last stored under it.
\<close>

theorem client_context_refines_relations:
  "let c = fold context_exec ps (client_context_new q t)
   in context_ok c \<and>
      {(s, i). \<exists>gs. sector_gdes s c = Some gs \<and> i \<in> gs} = fold sector_relation ps {} \<and>
      {(p, i). \<exists>gs. listeners_for_parent_gde p c = Some gs \<and> i \<in> gs} = fold listener_relation ps {} \<and>
      (\<lambda>i. metadata_for_interest_id i c) = fold interest_map ps Map.empty"
proof -
  have "context_ok c \<Longrightarrow> context_ok (fold context_exec ps c) \<and>
      sectors.pairs (fold context_exec ps c) = fold sector_relation ps (sectors.pairs c) \<and>
      parents.pairs (fold context_exec ps c) = fold listener_relation ps (parents.pairs c) \<and>
      (\<lambda>i. metadata_for_interest_id i (fold context_exec ps c)) = fold interest_map ps (\<lambda>i. metadata_for_interest_id i c)"
    for c :: "('a, 'b, 'c, 'd, 'e) client_context"
  proof (induction ps arbitrary: c)
    case (Cons p ps)
    then show ?case using interest_step(2)[of c p] context_step_ok[OF Cons.prems, of p]
      by (simp add: sector_step parent_step context_ok_def del: context_exec.simps)
  qed simp
  from this[OF context_new_ok(1)] show ?thesis
    by (simp add: context_new_ok flip: sectors.pairs_def parents.pairs_def)
qed

text \<open>The replies of the index operations tell whether the relation changed.\<close>

lemma sector_replies:
  "fst (add_gde_to_sector s i c) \<longleftrightarrow> (s, i) \<notin> sectors.pairs c"
  "fst (remove_gde_from_sector s i c) \<longleftrightarrow> (s, i) \<in> sectors.pairs c"
  by (rule sectors.add_pairs sectors.del_pairs)+

end
