(* ===== verification/Derived_Codec.thy ===== *)
theory Derived_Codec
  imports Codecs
begin

text \<open>
  The code that \<open>#[derive(Marshaler)]\<close> generates (\<^verbatim>\<open>nw-network-derive/src/marshal.rs\<close>, \<^verbatim>\<open>unmarshal.rs\<close>
  and \<^verbatim>\<open>attrs.rs\<close>). A description of a struct or an enum, as the attributes give it, determines a writer
  and a reader; the definitions here are what the generated code does for a description.

  A value of the derived type is the list of its field values in the order of declaration, together with
  the index of its variant for an enum; the values of all field types share the type variable \<open>'v\<close>. The
  codec of a field type, a codec policy, the conversions of \<open>as\<close> and the functions of \<open>with\<close> and
  \<open>unmarshal_with\<close> are parts of the description. Tuple and struct style differ in the names of the fields
  only. The parsing of attributes and the printing of tokens are not modelled.
\<close>

section \<open>Descriptions\<close>

record 'v as_type =
  as_codec :: "'v codec"
  as_from :: "'v \<Rightarrow> 'v"
  as_into :: "'v \<Rightarrow> 'v"

record 'v derive_field =
  df_type :: "'v codec"
  df_default :: 'v
  df_as :: "'v as_type option"
  df_codec :: "'v codec option"
  df_with :: "('v \<Rightarrow> write_buffer \<Rightarrow> write_buffer option) option"
  df_unmarshal_with :: "'v reader option"
  df_skip :: bool

datatype style = Unit_Style | Tuple_Style | Struct_Style

record 'v derive_variant =
  dv_ident :: string
  dv_style :: style
  dv_fields :: "'v derive_field list"
  dv_discriminant :: "u64 option"
  dv_unknown :: bool

definition validate_field :: "'v derive_field \<Rightarrow> bool" where
  "validate_field f \<longleftrightarrow>
     (let has_codec = df_codec f \<noteq> None; has_as = df_as f \<noteq> None;
          has_custom = df_with f \<noteq> None \<or> df_unmarshal_with f \<noteq> None in
      if df_skip f \<and> (has_codec \<or> has_as \<or> has_custom) then False
      else of_bool has_codec + of_bool has_as + of_bool has_custom \<le> (1 :: nat))"

definition validate_fields :: "'v derive_field list \<Rightarrow> bool" where
  "validate_fields fs \<longleftrightarrow> list_all validate_field fs"

definition saturating_succ :: "u64 \<Rightarrow> u64" where
  "saturating_succ v = (if v = 0xffffffffffffffff then v else v + 1)"

definition discriminant_value :: "u64 \<Rightarrow> 'v derive_variant \<Rightarrow> u64" where
  "discriminant_value default_index v = (case dv_discriminant v of Some d \<Rightarrow> d | None \<Rightarrow> default_index)"

fun enum_discriminants_from :: "u64 \<Rightarrow> 'v derive_variant list \<Rightarrow> u64 list" where
  "enum_discriminants_from next [] = []"
| "enum_discriminants_from next (v # vs) =
     (let d = discriminant_value next v in d # enum_discriminants_from (saturating_succ d) vs)"

definition enum_discriminants :: "'v derive_variant list \<Rightarrow> u64 list" where
  "enum_discriminants vs = enum_discriminants_from 0 vs"

text \<open>Deriving the reader panics for a discriminant that does not fit a byte.\<close>

definition discriminants_fit :: "'v derive_variant list \<Rightarrow> bool" where
  "discriminants_fit vs \<longleftrightarrow> list_all (\<lambda>d. d \<le> 0xff) (enum_discriminants vs)"

definition is_unknown_variant :: "'v derive_variant \<Rightarrow> bool" where
  "is_unknown_variant v \<longleftrightarrow> dv_unknown v \<or> dv_ident v = ''Unknown''"

definition is_direct_repr_enum :: "'v derive_variant list \<Rightarrow> bool" where
  "is_direct_repr_enum vs \<longleftrightarrow>
     list_all (\<lambda>v. dv_style v = Unit_Style \<or> is_unknown_variant v \<and> length (dv_fields v) = 1) vs"

section \<open>Structs\<close>

definition member_marshal :: "'v derive_field \<Rightarrow> 'v \<Rightarrow> write_buffer \<Rightarrow> write_buffer option" where
  "member_marshal f v =
     (case df_codec f of
        Some c \<Rightarrow> c_marshal c v
      | None \<Rightarrow>
          (case df_as f of
             Some a \<Rightarrow> c_marshal (as_codec a) (as_from a v)
           | None \<Rightarrow>
               (case df_with f of
                  Some write \<Rightarrow> write v
                | None \<Rightarrow> c_marshal (df_type f) v)))"

definition member_unmarshal :: "'v derive_field \<Rightarrow> 'v reader" where
  "member_unmarshal f =
     (case df_codec f of
        Some c \<Rightarrow> c_unmarshal c
      | None \<Rightarrow>
          (case df_as f of
             Some a \<Rightarrow> rmap (as_into a) (c_unmarshal (as_codec a))
           | None \<Rightarrow>
               (case df_unmarshal_with f of
                  Some read \<Rightarrow> read
                | None \<Rightarrow> c_unmarshal (df_type f))))"

fun struct_marshal :: "'v derive_field list \<Rightarrow> 'v list \<Rightarrow> write_buffer \<Rightarrow> write_buffer option" where
  "struct_marshal (f # fs) (v # vs) wb =
     (if df_skip f then struct_marshal fs vs wb
      else (case member_marshal f v wb of None \<Rightarrow> None | Some wb \<Rightarrow> struct_marshal fs vs wb))"
| "struct_marshal _ _ wb = Some wb"

fun struct_unmarshal :: "'v derive_field list \<Rightarrow> 'v list reader" where
  "struct_unmarshal [] = rreturn []"
| "struct_unmarshal (f # fs) =
     (if df_skip f then rmap ((#) (df_default f)) (struct_unmarshal fs)
      else rbind (member_unmarshal f) (\<lambda>v. rmap ((#) v) (struct_unmarshal fs)))"

definition struct_codec :: "'v derive_field list \<Rightarrow> 'v list codec" where
  "struct_codec fs = \<lparr>c_size = 0, c_marshal = struct_marshal fs, c_unmarshal = struct_unmarshal fs\<rparr>"

section \<open>Enums\<close>

datatype 'v enum_value = Variant nat "'v list"

definition enum_marshal :: "'v derive_variant list \<Rightarrow> 'v enum_value \<Rightarrow> write_buffer \<Rightarrow> write_buffer option" where
  "enum_marshal vs x wb =
     (case x of Variant i vals \<Rightarrow>
        struct_marshal (dv_fields (vs ! i)) vals (write_u8 (ucast (enum_discriminants vs ! i)) wb))"

text \<open>The arms of a \<open>match\<close> are tried in order.\<close>

fun first_arm :: "('a \<Rightarrow> bool) \<Rightarrow> 'a list \<Rightarrow> nat option" where
  "first_arm p [] = None"
| "first_arm p (x # xs) = (if p x then Some 0 else map_option Suc (first_arm p xs))"

definition enum_unmarshal :: "'v derive_variant list \<Rightarrow> 'v enum_value reader" where
  "enum_unmarshal vs =
     rbind read_u8 (\<lambda>d.
       case first_arm (\<lambda>x. ucast x = d) (enum_discriminants vs) of
         Some i \<Rightarrow> rmap (Variant i) (struct_unmarshal (dv_fields (vs ! i)))
       | None \<Rightarrow> rfail (InvalidDiscriminant d))"

definition enum_codec :: "'v derive_variant list \<Rightarrow> 'v enum_value codec" where
  "enum_codec vs = \<lparr>c_size = 0, c_marshal = enum_marshal vs, c_unmarshal = enum_unmarshal vs\<rparr>"

subsection \<open>Enums written as their representation\<close>

text \<open>A value is a variant without data, or the catch-all variant with the number it was read from.\<close>

datatype 'w repr_value = Known nat | Unknown_Raw nat 'w

definition repr_marshal ::
    "('w :: len word) codec \<Rightarrow> 'v derive_variant list \<Rightarrow> 'w word repr_value \<Rightarrow> write_buffer \<Rightarrow> write_buffer option" where
  "repr_marshal rc vs x =
     (case x of
        Known i \<Rightarrow> c_marshal rc (ucast (enum_discriminants vs ! i))
      | Unknown_Raw i raw \<Rightarrow> c_marshal rc raw)"

text \<open>\<open>TryInto<u8>\<close> of the representation type, with 255 when it does not fit.\<close>

definition repr_as_u8 :: "bool \<Rightarrow> ('w :: len word) \<Rightarrow> u8" where
  "repr_as_u8 is_signed d =
     (let i = (if is_signed then sint d else uint d) in if 0 \<le> i \<and> i \<le> 255 then of_int i else 255)"

fun last_unknown :: "'v derive_variant list \<Rightarrow> nat option" where
  "last_unknown [] = None"
| "last_unknown (v # vs) =
     (case last_unknown vs of
        Some i \<Rightarrow> Some (Suc i)
      | None \<Rightarrow> if is_unknown_variant v then Some 0 else None)"

definition repr_unmarshal ::
    "bool \<Rightarrow> ('w :: len word) codec \<Rightarrow> 'v derive_variant list \<Rightarrow> 'w word repr_value reader" where
  "repr_unmarshal is_signed rc vs =
     rbind (c_unmarshal rc) (\<lambda>d.
       case first_arm (\<lambda>(v, x). \<not> is_unknown_variant v \<and> ucast x = d) (zip vs (enum_discriminants vs)) of
         Some i \<Rightarrow> rreturn (Known i)
       | None \<Rightarrow>
           (case last_unknown vs of
              Some i \<Rightarrow> rreturn (if dv_style (vs ! i) = Unit_Style then Known i else Unknown_Raw i d)
            | None \<Rightarrow> rfail (InvalidDiscriminant (repr_as_u8 is_signed d))))"

definition repr_codec :: "bool \<Rightarrow> ('w :: len word) codec \<Rightarrow> 'v derive_variant list \<Rightarrow> 'w word repr_value codec" where
  "repr_codec is_signed rc vs = \<lparr>c_size = 0, c_marshal = repr_marshal rc vs, c_unmarshal = repr_unmarshal is_signed rc vs\<rparr>"


section \<open>Derived codecs are lawful\<close>

text \<open>
  The contract of a member is the one of its wire conversion: the policy, the other type with both
  conversions, the pair of functions, or the field type itself.
\<close>

definition member_codec :: "'v derive_field \<Rightarrow> 'v codec" where
  "member_codec f = \<lparr>c_size = 0, c_marshal = member_marshal f, c_unmarshal = member_unmarshal f\<rparr>"

type_synonym 'v wire_spec = "('v \<Rightarrow> bool) \<times> (endian \<Rightarrow> 'v \<Rightarrow> bytes)"

definition member_lawful :: "'v derive_field \<Rightarrow> 'v wire_spec \<Rightarrow> bool" where
  "member_lawful f p \<longleftrightarrow> df_skip f \<or> lawful_codec (member_codec f) (fst p) (snd p)"

lemma lawful_unsized:
  "lawful_codec c valid enc \<Longrightarrow> c_marshal d = c_marshal c \<Longrightarrow> c_unmarshal d = c_unmarshal c \<Longrightarrow> c_size d = 0 \<Longrightarrow>
   lawful_codec d valid enc"
  by (simp add: lawful_codec_def)

lemma member_codec_policy:
  "df_codec f = Some c \<Longrightarrow> lawful_codec c valid enc \<Longrightarrow> member_lawful f (valid, enc)"
  unfolding member_lawful_def
  by (rule disjI2, simp, erule lawful_unsized) (simp_all add: member_codec_def member_marshal_def member_unmarshal_def fun_eq_iff)

lemma member_plain:
  "df_codec f = None \<Longrightarrow> df_as f = None \<Longrightarrow> df_with f = None \<Longrightarrow> df_unmarshal_with f = None \<Longrightarrow>
   lawful_codec (df_type f) valid enc \<Longrightarrow> member_lawful f (valid, enc)"
  unfolding member_lawful_def
  by (rule disjI2, simp, erule lawful_unsized) (simp_all add: member_codec_def member_marshal_def member_unmarshal_def fun_eq_iff)

lemma member_custom_pair:
  "df_codec f = None \<Longrightarrow> df_as f = None \<Longrightarrow> df_with f = Some w \<Longrightarrow> df_unmarshal_with f = Some r \<Longrightarrow>
   lawful_codec \<lparr>c_size = 0, c_marshal = w, c_unmarshal = r\<rparr> valid enc \<Longrightarrow> member_lawful f (valid, enc)"
  unfolding member_lawful_def
  by (rule disjI2, simp, erule lawful_unsized) (simp_all add: member_codec_def member_marshal_def member_unmarshal_def fun_eq_iff)

lemma member_as:
  assumes "df_codec f = None" "df_as f = Some a" "lawful_codec (as_codec a) valid enc"
    and "\<And>v. valid (as_from a v) \<Longrightarrow> as_into a (as_from a v) = v"
  shows "member_lawful f (\<lambda>v. valid (as_from a v), \<lambda>e v. enc e (as_from a v))"
proof -
  note c = lawfulD[OF assms(3)] lawful_codec.unmarshal_safe[OF assms(3)]
  note defs = member_codec_def member_marshal_def member_unmarshal_def assms(1,2)
  have "lawful_codec (member_codec f) (\<lambda>v. valid (as_from a v)) (\<lambda>e v. enc e (as_from a v))"
  proof unfold_locales
    fix v wb assume "valid (as_from a v)"
    then show "c_marshal (member_codec f) v wb = Some (write_bytes (enc (wendian wb) (as_from a v)) wb)"
      by (simp add: defs c)
  next
    fix v and rb :: read_buffer and bs
    assume "valid (as_from a v)" "remaining rb = enc (rendian rb) (as_from a v) @ bs"
    then show "c_unmarshal (member_codec f) rb = (Ok v, advance (length (enc (rendian rb) (as_from a v))) rb)"
      using c(2) by (simp add: defs rmap_def assms(4))
  next
    show "reader_ok (c_unmarshal (member_codec f))" using c(3) by (simp add: defs reader_safe)
  qed (simp add: member_codec_def)
  then show ?thesis by (simp add: member_lawful_def)
qed

fun struct_valid :: "'v derive_field list \<Rightarrow> 'v wire_spec list \<Rightarrow> 'v list \<Rightarrow> bool" where
  "struct_valid [] [] [] = True"
| "struct_valid (f # fs) (p # ps) (v # vs) =
     ((if df_skip f then v = df_default f else fst p v) \<and> struct_valid fs ps vs)"
| "struct_valid _ _ _ = False"

fun struct_enc :: "'v derive_field list \<Rightarrow> 'v wire_spec list \<Rightarrow> endian \<Rightarrow> 'v list \<Rightarrow> bytes" where
  "struct_enc (f # fs) (p # ps) e (v # vs) = (if df_skip f then [] else snd p e v) @ struct_enc fs ps e vs"
| "struct_enc _ _ e _ = []"

lemma struct_marshal_enc:
  "list_all2 member_lawful fs ps \<Longrightarrow> struct_valid fs ps vs \<Longrightarrow>
   struct_marshal fs vs wb = Some (write_bytes (struct_enc fs ps (wendian wb) vs) wb)"
proof (induction fs ps vs arbitrary: wb rule: struct_valid.induct)
  case (2 f fs p ps v vs)
  then have IH: "struct_marshal fs vs wb = Some (write_bytes (struct_enc fs ps (wendian wb) vs) wb)" for wb
    by (cases "df_skip f") simp_all
  show ?case
  proof (cases "df_skip f")
    case False
    then have "c_marshal (member_codec f) v wb = Some (write_bytes (snd p (wendian wb) v) wb)"
      using 2 by (auto simp: member_lawful_def intro: lawfulD(1))
    then show ?thesis using False by (simp add: member_codec_def IH write_bytes_def)
  qed (simp add: IH)
qed (simp_all add: write_bytes_def)

lemma struct_unmarshal_enc:
  "list_all2 member_lawful fs ps \<Longrightarrow> struct_valid fs ps vs \<Longrightarrow> remaining rb = struct_enc fs ps (rendian rb) vs @ bs \<Longrightarrow>
   struct_unmarshal fs rb = (Ok vs, advance (length (struct_enc fs ps (rendian rb) vs)) rb)"
proof (induction fs ps vs arbitrary: rb rule: struct_valid.induct)
  case (2 f fs p ps v vs)
  show ?case
  proof (cases "df_skip f")
    case True
    then show ?thesis using 2 by (simp add: rmap_def)
  next
    case False
    let ?n = "length (snd p (rendian rb) v)"
    have "c_unmarshal (member_codec f) rb = (Ok v, advance ?n rb)"
      using 2 False by (auto simp: member_lawful_def intro!: lawfulD(2)[where bs = "struct_enc fs ps (rendian rb) vs @ bs"])
    moreover have "struct_unmarshal fs (advance ?n rb) =
        (Ok vs, advance (length (struct_enc fs ps (rendian rb) vs)) (advance ?n rb))"
      using 2 False by simp
    ultimately show ?thesis using False by (simp add: member_codec_def rmap_def)
  qed
qed simp_all

lemma reader_ok_struct [reader_safe]:
  "list_all (\<lambda>f. df_skip f \<or> reader_ok (member_unmarshal f)) fs \<Longrightarrow> reader_ok (struct_unmarshal fs)"
  by (induction fs) (auto intro!: reader_safe)

lemma members_safe:
  "list_all2 member_lawful fs ps \<Longrightarrow> list_all (\<lambda>f. df_skip f \<or> reader_ok (member_unmarshal f)) fs"
proof (induction rule: list_all2_induct)
  case (Cons f fs p ps)
  then show ?case
    using lawful_codec.unmarshal_safe[of "member_codec f" "fst p" "snd p"] by (auto simp: member_lawful_def member_codec_def)
qed simp

lemma lawful_struct [lawful]:
  assumes "list_all2 member_lawful fs ps"
  shows "lawful_codec (struct_codec fs) (struct_valid fs ps) (struct_enc fs ps)"
  by unfold_locales
    (simp_all add: struct_codec_def struct_marshal_enc[OF assms] struct_unmarshal_enc[OF assms] reader_ok_struct members_safe[OF assms])

text \<open>What a skipped field holds does not reach the wire; the reader gives it its default.\<close>

fun reset_skipped :: "'v derive_field list \<Rightarrow> 'v list \<Rightarrow> 'v list" where
  "reset_skipped (f # fs) (v # vs) = (if df_skip f then df_default f else v) # reset_skipped fs vs"
| "reset_skipped _ vs = vs"

lemma struct_marshal_reset: "struct_marshal fs (reset_skipped fs vs) = struct_marshal fs vs"
proof (rule ext)
  show "struct_marshal fs (reset_skipped fs vs) wb = struct_marshal fs vs wb" for wb
    by (induction fs vs arbitrary: wb rule: reset_skipped.induct) (auto split: option.split)
qed


section \<open>Enums read back\<close>

lemma first_arm_Some:
  "i < length xs \<Longrightarrow> p (xs ! i) \<Longrightarrow> (\<And>j. j < i \<Longrightarrow> \<not> p (xs ! j)) \<Longrightarrow> first_arm p xs = Some i"
proof (induction xs arbitrary: i)
  case (Cons x xs)
  show ?case
  proof (cases i)
    case (Suc k)
    have "first_arm p xs = Some k" using Cons.IH[of k] Cons.prems Suc by fastforce
    then show ?thesis using Cons.prems(3)[of 0] Suc by simp
  qed (use Cons.prems in simp)
qed simp

lemma first_arm_None: "first_arm p xs = None \<longleftrightarrow> (\<forall>x \<in> set xs. \<not> p x)"
  by (induction xs) auto

lemma first_arm_SomeD: "first_arm p xs = Some i \<Longrightarrow> i < length xs \<and> p (xs ! i)"
  by (induction xs arbitrary: i) (auto split: if_splits)

lemma length_enum_discriminants [simp]: "length (enum_discriminants vs) = length vs"
proof -
  have "length (enum_discriminants_from n vs) = length vs" for n
    by (induction vs arbitrary: n) (simp_all add: Let_def)
  then show ?thesis by (simp add: enum_discriminants_def)
qed

lemma unat_ucast_fit: "z \<le> 0xff \<Longrightarrow> unat (ucast (z :: u64) :: u8) = unat z"
  by (simp add: unsigned_ucast_eq unsigned_take_bit_eq take_bit_eq_mod word_le_nat_alt)

lemma ucast_fit_eq: "x \<le> 0xff \<Longrightarrow> y \<le> 0xff \<Longrightarrow> (ucast x :: u8) = ucast y \<longleftrightarrow> x = (y :: u64)"
  using unat_ucast_fit[of x] unat_ucast_fit[of y] by (metis word_unat_eq_iff)

lemma arm_of_variant:
  assumes "discriminants_fit vs" "distinct (enum_discriminants vs)" "i < length vs"
  shows "first_arm (\<lambda>x. (ucast x :: u8) = ucast (enum_discriminants vs ! i)) (enum_discriminants vs) = Some i"
proof (rule first_arm_Some)
  fix j assume j: "j < i"
  then have "enum_discriminants vs ! j \<noteq> enum_discriminants vs ! i"
    using assms(2,3) by (simp add: nth_eq_iff_index_eq)
  then show "(ucast (enum_discriminants vs ! j) :: u8) \<noteq> ucast (enum_discriminants vs ! i)"
    using assms(1,3) j by (subst ucast_fit_eq) (auto simp: discriminants_fit_def list_all_length)
qed (use assms in simp_all)

definition enum_enc :: "'v derive_variant list \<Rightarrow> (nat \<Rightarrow> 'v wire_spec list) \<Rightarrow> endian \<Rightarrow> 'v enum_value \<Rightarrow> bytes" where
  "enum_enc vs ps e x =
     (case x of Variant i vals \<Rightarrow>
        ucast (enum_discriminants vs ! i) # struct_enc (dv_fields (vs ! i)) (ps i) e vals)"

definition enum_valid :: "'v derive_variant list \<Rightarrow> (nat \<Rightarrow> 'v wire_spec list) \<Rightarrow> 'v enum_value \<Rightarrow> bool" where
  "enum_valid vs ps x =
     (case x of Variant i vals \<Rightarrow> i < length vs \<and> struct_valid (dv_fields (vs ! i)) (ps i) vals)"

lemma lawful_enum:
  assumes "discriminants_fit vs" "distinct (enum_discriminants vs)"
    and "\<And>i. i < length vs \<Longrightarrow> list_all2 member_lawful (dv_fields (vs ! i)) (ps i)"
  shows "lawful_codec (enum_codec vs) (enum_valid vs ps) (enum_enc vs ps)"
proof unfold_locales
  fix x wb assume "enum_valid vs ps x"
  then show "c_marshal (enum_codec vs) x wb = Some (write_bytes (enum_enc vs ps (wendian wb) x) wb)"
    by (cases x) (simp add: enum_codec_def enum_marshal_def enum_valid_def enum_enc_def
        struct_marshal_enc[OF assms(3)] write_bytes_def write_u8_def)
next
  fix x and rb :: read_buffer and bs
  assume x: "enum_valid vs ps x" and r: "remaining rb = enum_enc vs ps (rendian rb) x @ bs"
  obtain i vals where v: "x = Variant i vals" by (cases x)
  have i: "i < length vs" "struct_valid (dv_fields (vs ! i)) (ps i) vals" using x v by (simp_all add: enum_valid_def)
  have "struct_unmarshal (dv_fields (vs ! i)) (advance 1 rb) =
      (Ok vals, advance (length (struct_enc (dv_fields (vs ! i)) (ps i) (rendian rb) vals)) (advance 1 rb))"
    using struct_unmarshal_enc[OF assms(3)[OF i(1)] i(2), of "advance 1 rb" bs] r v by (simp add: enum_enc_def)
  then show "c_unmarshal (enum_codec vs) rb = (Ok x, advance (length (enum_enc vs ps (rendian rb) x)) rb)"
    using r v by (simp add: enum_codec_def enum_unmarshal_def enum_enc_def arm_of_variant[OF assms(1,2) i(1)] rmap_def)
next
  have "reader_ok (rmap (Variant i) (struct_unmarshal (dv_fields (vs ! i))))" if "i < length vs" for i
    by (intro reader_ok_map reader_ok_struct members_safe[OF assms(3)[OF that]])
  then show "reader_ok (c_unmarshal (enum_codec vs))"
    unfolding enum_codec_def enum_unmarshal_def codec.simps
    by (intro reader_ok_bind reader_ok_read_u8) (auto intro: reader_ok_fail split: option.split dest!: first_arm_SomeD)
qed (simp add: enum_codec_def)

text \<open>Without attributes the discriminants are the positions, so up to 256 variants they are fit and distinct.\<close>

lemma unat_small: "n \<le> 256 \<Longrightarrow> unat (of_nat n :: u64) = n"
  by (simp add: unat_of_nat)

lemma saturating_succ_small: "n < 256 \<Longrightarrow> saturating_succ (of_nat n) = of_nat (Suc n)"
proof -
  assume n: "n < 256"
  have "(of_nat n :: u64) \<noteq> 0xffffffffffffffff"
  proof
    assume "(of_nat n :: u64) = 0xffffffffffffffff"
    then have "unat (of_nat n :: u64) = unat (0xffffffffffffffff :: u64)" by (rule arg_cong)
    then show False using n unat_small[of n] by simp
  qed
  then show ?thesis by (simp add: saturating_succ_def add.commute)
qed

lemma positional_from:
  "list_all (\<lambda>v. dv_discriminant v = None) vs \<Longrightarrow> n + length vs \<le> 256 \<Longrightarrow>
   enum_discriminants_from (of_nat n) vs = map of_nat [n..<n + length vs]"
proof (induction vs arbitrary: n)
  case (Cons v vs)
  have "enum_discriminants_from (of_nat n) (v # vs) = of_nat n # enum_discriminants_from (of_nat (Suc n)) vs"
    using Cons.prems saturating_succ_small[of n] by (simp add: discriminant_value_def Let_def del: of_nat_Suc)
  moreover have "enum_discriminants_from (of_nat (Suc n)) vs = map of_nat [Suc n..<n + length (v # vs)]"
    using Cons.IH[of "Suc n"] Cons.prems by (simp del: of_nat_Suc upt_Suc)
  moreover have "[n..<n + length (v # vs)] = n # [Suc n..<n + length (v # vs)]" by (rule upt_conv_Cons) simp
  ultimately show ?case by (simp only: list.map)
qed simp

lemma positional_discriminants:
  assumes "list_all (\<lambda>v. dv_discriminant v = None) vs" "length vs \<le> 256"
  shows "enum_discriminants vs = map of_nat [0..<length vs]" "discriminants_fit vs" "distinct (enum_discriminants vs)"
proof -
  show e: "enum_discriminants vs = map of_nat [0..<length vs]"
    using positional_from[of vs 0] assms by (simp add: enum_discriminants_def)
  have "(of_nat k :: u64) \<le> 0xff" if "k < length vs" for k
    using unat_small[of k] that assms(2) by (simp add: word_le_nat_alt)
  then show "discriminants_fit vs" by (simp add: discriminants_fit_def e list_all_iff)
  have "inj_on (of_nat :: nat \<Rightarrow> u64) {0..<length vs}"
    using assms(2) by (intro inj_onI) (metis unat_small atLeastLessThan_iff le_trans less_imp_le)
  then show "distinct (enum_discriminants vs)" by (simp add: e distinct_map)
qed

text \<open>
  C14. A derived enum reads back what it wrote: with distinct discriminants of one byte and members whose
  conversions are lawful, the reader returns the same variant with the same values, the skipped members
  at their defaults, and stops where the writer did.
\<close>

theorem derived_enum_roundtrip:
  assumes "discriminants_fit vs" and "distinct (enum_discriminants vs)" and "i < length vs"
    and "list_all2 member_lawful (dv_fields (vs ! i)) ps"
    and "struct_valid (dv_fields (vs ! i)) ps (reset_skipped (dv_fields (vs ! i)) vals)"
  shows "\<exists>wb. enum_marshal vs (Variant i vals) (write_new e) = Some wb \<and>
    enum_unmarshal vs (read_new e (wdata wb @ rest)) =
      (Ok (Variant i (reset_skipped (dv_fields (vs ! i)) vals)), advance (length (wdata wb)) (read_new e (wdata wb @ rest)))"
proof -
  let ?fs = "dv_fields (vs ! i)"
  let ?enc = "struct_enc ?fs ps e (reset_skipped ?fs vals)"
  let ?d = "ucast (enum_discriminants vs ! i) :: u8"
  let ?rb = "read_new e (?d # ?enc @ rest)"
  have "enum_marshal vs (Variant i vals) (write_new e) = Some (write_bytes ?enc (write_u8 ?d (write_new e)))"
    using struct_marshal_enc[OF assms(4,5), of "write_u8 ?d (write_new e)"]
    by (simp add: enum_marshal_def struct_marshal_reset write_u8_def write_new_def)
  moreover have "struct_unmarshal ?fs (advance 1 ?rb) = (Ok (reset_skipped ?fs vals), advance (length ?enc) (advance 1 ?rb))"
    using struct_unmarshal_enc[OF assms(4,5), of "advance 1 ?rb" rest] by simp
  then have "enum_unmarshal vs ?rb = (Ok (Variant i (reset_skipped ?fs vals)), advance (Suc (length ?enc)) ?rb)"
    by (simp add: enum_unmarshal_def arm_of_variant[OF assms(1-3)] rmap_def)
  ultimately show ?thesis by (simp add: write_bytes_def write_u8_def write_new_def)
qed


section \<open>Representation enums read back\<close>

text \<open>
  A number is written for a known variant that is the first of its number, or for the catch-all with a
  number that no known variant has.
\<close>

definition known_arm :: "'v derive_variant list \<Rightarrow> 'w::len word \<Rightarrow> nat option" where
  "known_arm vs d = first_arm (\<lambda>(v, x). \<not> is_unknown_variant v \<and> ucast x = d) (zip vs (enum_discriminants vs))"

definition repr_valid :: "'v derive_variant list \<Rightarrow> 'w::len word repr_value \<Rightarrow> bool" where
  "repr_valid vs x =
     (case x of
        Known i \<Rightarrow> i < length vs \<and> known_arm vs (ucast (enum_discriminants vs ! i) :: 'w word) = Some i
      | Unknown_Raw i d \<Rightarrow> known_arm vs d = None \<and> last_unknown vs = Some i \<and> dv_style (vs ! i) \<noteq> Unit_Style)"

definition repr_enc :: "(endian \<Rightarrow> 'w word \<Rightarrow> bytes) \<Rightarrow> 'v derive_variant list \<Rightarrow> endian \<Rightarrow> 'w::len word repr_value \<Rightarrow> bytes" where
  "repr_enc enc vs e x =
     (case x of Known i \<Rightarrow> enc e (ucast (enum_discriminants vs ! i)) | Unknown_Raw i d \<Rightarrow> enc e d)"

lemma lawful_repr [lawful]:
  assumes "lawful_codec rc (\<lambda>_. True) enc"
  shows "lawful_codec (repr_codec is_signed rc vs) (repr_valid vs) (repr_enc enc vs)"
proof -
  note c = lawfulD[OF assms, simplified] lawful_codec.unmarshal_safe[OF assms]
  note defs = repr_codec_def repr_marshal_def repr_unmarshal_def repr_enc_def repr_valid_def known_arm_def
  show ?thesis
  proof unfold_locales
    fix x wb show "c_marshal (repr_codec is_signed rc vs) x wb = Some (write_bytes (repr_enc enc vs (wendian wb) x) wb)"
      by (cases x) (simp_all add: defs c)
  next
    fix x and rb :: read_buffer and bs
    assume "repr_valid vs x" "remaining rb = repr_enc enc vs (rendian rb) x @ bs"
    then show "c_unmarshal (repr_codec is_signed rc vs) rb = (Ok x, advance (length (repr_enc enc vs (rendian rb) x)) rb)"
      by (cases x) (simp_all add: defs c(2))
  next
    show "reader_ok (c_unmarshal (repr_codec is_signed rc vs))"
      unfolding defs codec.simps
      by (intro reader_ok_bind c(3)) (auto intro: reader_ok_fail reader_ok_return split: option.split)
  qed (simp add: repr_codec_def)
qed

text \<open>With a catch-all that holds its number no number is refused, and what was read is written back unchanged.\<close>

lemma repr_reencodes:
  assumes "lawful_codec rc (\<lambda>_. True) enc" and "last_unknown vs = Some u" and "dv_style (vs ! u) \<noteq> Unit_Style"
  shows "\<exists>x. repr_unmarshal is_signed rc vs (read_new e (enc e d @ rest)) =
        (Ok x, advance (length (enc e d)) (read_new e (enc e d @ rest))) \<and>
      repr_marshal rc vs x wb = Some (write_bytes (enc (wendian wb) d) wb)"
proof -
  note c = lawfulD[OF assms(1), simplified]
  have r: "c_unmarshal rc (read_new e (enc e d @ rest)) = (Ok d, advance (length (enc e d)) (read_new e (enc e d @ rest)))"
    using c(2)[of "read_new e (enc e d @ rest)" d rest] by simp
  show ?thesis
  proof (cases "known_arm vs d")
    case None
    then show ?thesis using assms(2,3) r
      by (intro exI[of _ "Unknown_Raw u d"]) (simp add: repr_unmarshal_def repr_marshal_def known_arm_def c)
  next
    case (Some i)
    then have "ucast (enum_discriminants vs ! i) = d"
      using first_arm_SomeD[OF Some[unfolded known_arm_def]] by auto
    then show ?thesis using Some r
      by (intro exI[of _ "Known i"]) (simp add: repr_unmarshal_def repr_marshal_def known_arm_def c)
  qed
qed

lemma repr_unknown_number_refused:
  "c_unmarshal rc rb = (Ok d, rb') \<Longrightarrow> known_arm vs d = None \<Longrightarrow> last_unknown vs = None \<Longrightarrow>
   repr_unmarshal is_signed rc vs rb = (Err (InvalidDiscriminant (repr_as_u8 is_signed d)), rb')"
  by (simp add: repr_unmarshal_def known_arm_def rfail_def)

section \<open>What the attributes let through\<close>

text \<open>A field of a type, without attributes.\<close>

definition plain_field :: "'v codec \<Rightarrow> 'v \<Rightarrow> 'v derive_field" where
  "plain_field c d = \<lparr>df_type = c, df_default = d, df_as = None, df_codec = None, df_with = None,
     df_unmarshal_with = None, df_skip = False\<rparr>"

lemma plain_field_lawful [lawful]: "lawful_codec c valid enc \<Longrightarrow> member_lawful (plain_field c d) (valid, enc)"
  by (rule member_plain) (simp_all add: plain_field_def)

text \<open>
  The check of the attributes accepts \<open>with\<close> alone. The writer then uses the function, the reader the
  field type, and a value written in two bytes is not read by a reader of four.
\<close>

definition half_custom_field :: "u32 derive_field" where
  "half_custom_field = (plain_field u32_codec 0)\<lparr>df_with := Some (\<lambda>v wb. Some (write_u16 (ucast v) wb))\<rparr>"

lemma with_alone_not_read_back:
  "validate_field half_custom_field"
  "struct_marshal [half_custom_field] [7] (write_new BigEndian) = Some (write_bytes [0, 7] (write_new BigEndian))"
  "fst (struct_unmarshal [half_custom_field] (read_new BigEndian [0, 7])) = Err (BufferUnderrun 4 2)"
  by (simp add: validate_field_def half_custom_field_def plain_field_def) code_simp+

text \<open>
  Discriminants are not checked for repetitions: after a variant with an explicit number the count goes on
  from it, and the arm of a later variant with the same number is never reached.
\<close>

definition plain_variant :: "string \<Rightarrow> 'v derive_variant" where
  "plain_variant n = \<lparr>dv_ident = n, dv_style = Unit_Style, dv_fields = [], dv_discriminant = None, dv_unknown = False\<rparr>"

lemma repeated_discriminant_decodes_first:
  "let vs = [(plain_variant ''A'')\<lparr>dv_discriminant := Some 1\<rparr>, plain_variant ''B'',
             (plain_variant ''C'')\<lparr>dv_discriminant := Some 2\<rparr>] :: u8 derive_variant list
   in discriminants_fit vs \<and>
      enum_marshal vs (Variant 2 []) (write_new BigEndian) = Some (write_bytes [2] (write_new BigEndian)) \<and>
      fst (enum_unmarshal vs (read_new BigEndian [2])) = Ok (Variant 1 [])"
  by code_simp


definition sample_variants :: "u32 derive_variant list" where
  "sample_variants =
     [(plain_variant ''Id'')\<lparr>dv_style := Tuple_Style, dv_fields := [plain_field u32_codec 0]\<rparr>,
      (plain_variant ''Ref'')\<lparr>dv_style := Struct_Style, dv_discriminant := Some 5,
         dv_fields := [(plain_field u32_codec 9)\<lparr>df_skip := True\<rparr>, plain_field u32_codec 0]\<rparr>]"

theorem derived_enum_roundtrip_witness:
  "\<exists>wb. enum_marshal sample_variants (Variant 1 [3, 4]) (write_new BigEndian) = Some wb \<and>
    enum_unmarshal sample_variants (read_new BigEndian (wdata wb @ [7])) =
      (Ok (Variant 1 [9, 4]), advance (length (wdata wb)) (read_new BigEndian (wdata wb @ [7])))"
proof -
  let ?fs = "dv_fields (sample_variants ! 1)"
  have fs: "?fs = [(plain_field u32_codec 9)\<lparr>df_skip := True\<rparr>, plain_field u32_codec 0]"
    by (simp add: sample_variants_def)
  have d: "enum_discriminants sample_variants = [0, 5]" by code_simp
  have "member_lawful (plain_field u32_codec 0) (\<lambda>_. True, bytes32)"
    by (rule plain_field_lawful) (rule lawful_scalars)
  then have m: "list_all2 member_lawful ?fs [(\<lambda>_. True, bytes32), (\<lambda>_. True, bytes32)]"
    unfolding fs by (simp add: member_lawful_def)
  have r: "reset_skipped ?fs [3, 4] = [9, 4]" unfolding fs by (simp add: plain_field_def)
  have v: "struct_valid ?fs [(\<lambda>_. True, bytes32), (\<lambda>_. True, bytes32)] (reset_skipped ?fs [3, 4])"
    unfolding r unfolding fs by (simp add: plain_field_def)
  have f: "discriminants_fit sample_variants" "distinct (enum_discriminants sample_variants)" "1 < length sample_variants"
    by (simp_all add: discriminants_fit_def d) (simp add: sample_variants_def)
  show ?thesis
    using derived_enum_roundtrip[OF f m v, of BigEndian "[7]"] unfolding r .
qed

end
