(* ===== verification/Hub_Values.thy ===== *)
theory Hub_Values
  imports Derived_Codec Containers
begin

text \<open>
  The messages and values whose codec is derived without attributes: the registration request
  (\<^verbatim>\<open>messages/registration.rs\<close>), the movement values (\<^verbatim>\<open>hub/movement.rs\<close>), the component added at
  runtime (\<^verbatim>\<open>context/migration.rs\<close>), on the identifiers of \<^verbatim>\<open>hub/ids.rs\<close>, \<^verbatim>\<open>hub/time.rs\<close> and
  \<^verbatim>\<open>hub/address.rs\<close>, which are written as the numbers they wrap.

  A \<open>kind\<close> is the type of such a value and \<open>kind_codec\<close> the codec that the traits select for it. One
  contract is proved for all kinds; a message is an instance of it.
\<close>

section \<open>Kinds of values\<close>

datatype kind =
    K_U8 | K_U32 | K_U64 | K_Bool | K_Text | K_Uuid
  | K_Option kind | K_Array nat kind | K_Index_Map kind kind
  | K_Struct "kind list" | K_Enum "kind list list"

datatype net_value =
    W_U8 u8 | W_U32 u32 | W_U64 u64 | W_Bool bool | W_Bytes bytes
  | W_Option "net_value option" | W_List "net_value list" | W_Map "(net_value \<times> net_value) list"
  | W_Struct "net_value list" | W_Enum "net_value enum_value"

fun of_u8 where "of_u8 (W_U8 x) = x" | "of_u8 _ = 0"
fun of_u32 where "of_u32 (W_U32 x) = x" | "of_u32 _ = 0"
fun of_u64 where "of_u64 (W_U64 x) = x" | "of_u64 _ = 0"
fun of_bool_value where "of_bool_value (W_Bool x) = x" | "of_bool_value _ = False"
fun of_bytes where "of_bytes (W_Bytes x) = x" | "of_bytes _ = []"
fun of_option where "of_option (W_Option x) = x" | "of_option _ = None"
fun of_list_value where "of_list_value (W_List x) = x" | "of_list_value _ = []"
fun of_map_value where "of_map_value (W_Map x) = x" | "of_map_value _ = []"
fun of_struct where "of_struct (W_Struct x) = x" | "of_struct _ = []"
fun of_enum where "of_enum (W_Enum x) = x" | "of_enum _ = Variant 0 []"

text \<open>The codec of a type as one of values of all types.\<close>

definition codec_at :: "('a \<Rightarrow> 'v) \<Rightarrow> ('v \<Rightarrow> 'a) \<Rightarrow> 'a codec \<Rightarrow> 'v codec" where
  "codec_at to from c =
     \<lparr>c_size = c_size c, c_marshal = (\<lambda>v. c_marshal c (from v)), c_unmarshal = rmap to (c_unmarshal c)\<rparr>"

definition spec_at :: "('a \<Rightarrow> 'v) \<Rightarrow> ('v \<Rightarrow> 'a) \<Rightarrow> 'a wire_spec \<Rightarrow> 'v wire_spec" where
  "spec_at to from p = (\<lambda>v. to (from v) = v \<and> fst p (from v), \<lambda>e v. snd p e (from v))"

lemma lawful_at:
  assumes "lawful_codec c (fst p) (snd p)"
  shows "lawful_codec (codec_at to from c) (fst (spec_at to from p)) (snd (spec_at to from p))"
proof -
  note c = lawfulD[OF assms] lawful_codec.unmarshal_safe[OF assms] lawful_codec.size_fixed[OF assms]
  show ?thesis
  proof unfold_locales
    fix v and rb :: read_buffer and bs
    assume "fst (spec_at to from p) v" "remaining rb = snd (spec_at to from p) (rendian rb) v @ bs"
    then show "c_unmarshal (codec_at to from c) rb =
        (Ok v, advance (length (snd (spec_at to from p) (rendian rb) v)) rb)"
      using c(2)[of "from v" rb bs] by (simp add: codec_at_def spec_at_def rmap_def)
  qed (auto simp: codec_at_def spec_at_def c intro!: reader_ok_map)
qed

definition positional_variant :: "'v derive_field list \<Rightarrow> 'v derive_variant" where
  "positional_variant fs =
     \<lparr>dv_ident = '''', dv_style = Tuple_Style, dv_fields = fs, dv_discriminant = None, dv_unknown = False\<rparr>"

fun kind_codec :: "kind \<Rightarrow> net_value codec" where
  "kind_codec K_U8 = codec_at W_U8 of_u8 u8_codec"
| "kind_codec K_U32 = codec_at W_U32 of_u32 u32_codec"
| "kind_codec K_U64 = codec_at W_U64 of_u64 u64_codec"
| "kind_codec K_Bool = codec_at W_Bool of_bool_value bool_codec"
| "kind_codec K_Text = codec_at W_Bytes of_bytes string_codec"
| "kind_codec K_Uuid = codec_at W_Bytes of_bytes uuid_codec"
| "kind_codec (K_Option k) = codec_at W_Option of_option (optional_codec (kind_codec k))"
| "kind_codec (K_Array n k) = codec_at W_List of_list_value (array_codec n (kind_codec k))"
| "kind_codec (K_Index_Map k l) = codec_at W_Map of_map_value (index_map_codec (kind_codec k) (kind_codec l))"
| "kind_codec (K_Struct ks) =
     codec_at W_Struct of_struct (struct_codec (map (\<lambda>k. plain_field (kind_codec k) (W_U8 0)) ks))"
| "kind_codec (K_Enum kss) =
     codec_at W_Enum of_enum
       (enum_codec (map (\<lambda>ks. positional_variant (map (\<lambda>k. plain_field (kind_codec k) (W_U8 0)) ks)) kss))"

definition kind_field :: "kind \<Rightarrow> net_value derive_field" where
  "kind_field k = plain_field (kind_codec k) (W_U8 0)"

definition kind_variants :: "kind list list \<Rightarrow> net_value derive_variant list" where
  "kind_variants kss = map (\<lambda>ks. positional_variant (map kind_field ks)) kss"

section \<open>Every kind is lawful\<close>

text \<open>The values of a kind that can be written, and the bytes they are written as.\<close>

fun kind_spec :: "kind \<Rightarrow> net_value wire_spec" where
  "kind_spec K_U8 = spec_at W_U8 of_u8 (\<lambda>_. True, \<lambda>_ v. [v])"
| "kind_spec K_U32 = spec_at W_U32 of_u32 (\<lambda>_. True, bytes32)"
| "kind_spec K_U64 = spec_at W_U64 of_u64 (\<lambda>_. True, bytes64)"
| "kind_spec K_Bool = spec_at W_Bool of_bool_value (\<lambda>_. True, \<lambda>_ b. [if b then 1 else 0])"
| "kind_spec K_Text = spec_at W_Bytes of_bytes
     (\<lambda>s. utf8_valid s \<and> length s \<le> wire_vec_cap, \<lambda>_ s. vlq32_bytes (of_nat (length s)) @ s)"
| "kind_spec K_Uuid = spec_at W_Bytes of_bytes (\<lambda>u. length u = 16, \<lambda>_ u. u)"
| "kind_spec (K_Option k) = spec_at W_Option of_option (pred_option (fst (kind_spec k)), option_enc (snd (kind_spec k)))"
| "kind_spec (K_Array n k) = spec_at W_List of_list_value
     (\<lambda>xs. length xs = n \<and> list_all (fst (kind_spec k)) xs, \<lambda>e xs. concat (map (snd (kind_spec k) e) xs))"
| "kind_spec (K_Index_Map k l) = spec_at W_Map of_map_value
     (\<lambda>m. distinct (map fst m) \<and> (length m \<le> wire_vec_cap \<and> length m < 2 ^ 32)
        \<and> list_all (\<lambda>p. fst (kind_spec k) (fst p) \<and> fst (kind_spec l) (snd p)) m,
      counted_enc (\<lambda>_ n. vlq32_bytes (of_nat n)) (\<lambda>m. m) (pair_enc (snd (kind_spec k)) (snd (kind_spec l))))"
| "kind_spec (K_Struct ks) = spec_at W_Struct of_struct
     (struct_valid (map kind_field ks) (map kind_spec ks), struct_enc (map kind_field ks) (map kind_spec ks))"
| "kind_spec (K_Enum kss) = spec_at W_Enum of_enum
     (enum_valid (kind_variants kss) (\<lambda>i. map (map kind_spec) kss ! i),
      enum_enc (kind_variants kss) (\<lambda>i. map (map kind_spec) kss ! i))"

text \<open>The derive of the reader needs a byte per variant.\<close>

fun kind_ok :: "kind \<Rightarrow> bool" where
  "kind_ok (K_Option k) = kind_ok k"
| "kind_ok (K_Array n k) = kind_ok k"
| "kind_ok (K_Index_Map k l) = (kind_ok k \<and> kind_ok l)"
| "kind_ok (K_Struct ks) = list_all kind_ok ks"
| "kind_ok (K_Enum kss) = (length kss \<le> 256 \<and> list_all (list_all kind_ok) kss)"
| "kind_ok _ = True"

lemma kind_codec_nested:
  "kind_codec (K_Struct ks) = codec_at W_Struct of_struct (struct_codec (map kind_field ks))"
  "kind_codec (K_Enum kss) = codec_at W_Enum of_enum (enum_codec (kind_variants kss))"
  by (simp_all add: kind_field_def[abs_def] kind_variants_def)

lemma kinds_lawful:
  "(\<And>k. k \<in> set ks \<Longrightarrow> lawful_codec (kind_codec k) (fst (kind_spec k)) (snd (kind_spec k))) \<Longrightarrow>
   list_all2 member_lawful (map kind_field ks) (map kind_spec ks)"
  by (induction ks) (auto simp: kind_field_def intro!: plain_field_lawful[where valid = "fst p" and enc = "snd p" for p, simplified prod.collapse])

lemma kind_lawful:
  "kind_ok k \<Longrightarrow> lawful_codec (kind_codec k) (fst (kind_spec k)) (snd (kind_spec k))"
proof (induction k)
  case (K_Struct ks)
  then have "list_all2 member_lawful (map kind_field ks) (map kind_spec ks)"
    by (intro kinds_lawful) (auto simp: list_all_iff)
  then show ?case unfolding kind_codec_nested kind_spec.simps by (intro lawful_at) (simp add: lawful_struct)
next
  case (K_Enum kss)
  have m: "list_all2 member_lawful (dv_fields (kind_variants kss ! i)) (map (map kind_spec) kss ! i)"
    if "i < length (kind_variants kss)" for i
  proof -
    have i: "i < length kss" using that by (simp add: kind_variants_def)
    then have "kss ! i \<in> set kss" by simp
    then have "list_all2 member_lawful (map kind_field (kss ! i)) (map kind_spec (kss ! i))"
      using K_Enum by (intro kinds_lawful) (auto simp: list_all_iff)
    then show ?thesis using i by (simp add: kind_variants_def positional_variant_def)
  qed
  have "discriminants_fit (kind_variants kss)" "distinct (enum_discriminants (kind_variants kss))"
    using positional_discriminants[of "kind_variants kss"] K_Enum.prems
    by (simp_all add: kind_variants_def positional_variant_def list_all_iff)
  then show ?case unfolding kind_codec_nested kind_spec.simps
    by (intro lawful_at) (simp add: lawful_enum m)
qed (simp_all only: kind_codec.simps kind_spec.simps kind_ok.simps,
     (intro lawful_at, simp only: fst_conv snd_conv, intro lawful; simp)+)


section \<open>The registration request\<close>

text \<open>\<open>EntityId\<close> is an enum of a string and a uuid; the nil uuid stands for the empty string.\<close>

datatype entity_id = Entity_String bytes | Entity_Uuid bytes

definition entity_from_uuid :: "bytes \<Rightarrow> entity_id" where
  "entity_from_uuid u = (if u = replicate 16 0 then Entity_String [] else Entity_Uuid u)"

text \<open>\<open>Uuid::parse_str\<close> is an argument.\<close>

definition entity_as_uuid :: "(bytes \<Rightarrow> bytes option) \<Rightarrow> entity_id \<Rightarrow> bytes option" where
  "entity_as_uuid parse_str x =
     (case x of
        Entity_String s \<Rightarrow> if s = [] then Some (replicate 16 0) else parse_str s
      | Entity_Uuid u \<Rightarrow> Some u)"

lemma entity_uuid_roundtrip: "length u = 16 \<Longrightarrow> entity_as_uuid parse_str (entity_from_uuid u) = Some u"
  by (simp add: entity_as_uuid_def entity_from_uuid_def)

record login_token =
  lt_signature :: bytes
  lt_rep_address :: bytes
  lt_world_id :: bytes
  lt_character_id :: bytes
  lt_persona_id :: bytes
  lt_steam_app_id :: u32
  lt_steam_user_id :: bytes
  lt_channel_id :: bytes
  lt_ticket_id :: bytes
  lt_location_group_id :: bytes
  lt_location_id :: bytes
  lt_generate_time :: u32
  lt_issue_time :: u32
  lt_account_age :: u32
  lt_client_capabilities :: bytes
  lt_token_version :: u32
  lt_is_trial_owner :: bool
  lt_host_hash :: bytes
  lt_is_permanent_app_owner :: "bool option"
  lt_reserved_string_0 :: bytes
  lt_reserved_string_1 :: bytes
  lt_jwt_claims :: bytes

record auth_token =
  at_steam_auth_product_id :: u32
  at_valid :: bool
  at_steam_app_id :: u32
  at_steam_id :: bytes
  at_steam_auth_ticket :: bytes
  at_reserved_string_0 :: bytes
  at_reserved_u32 :: u32
  at_reserved_string_1 :: bytes
  at_reserved_string_2 :: bytes
  at_reserved_string_3 :: bytes
  at_reserved_string_4 :: bytes
  at_reserved_string_5 :: bytes

record impersonated_values =
  impersonate_id :: entity_id
  override_id :: entity_id

record registration_request =
  rr_type_index_crc :: u32
  rr_client_version :: "(u32 \<times> bytes) list"
  rr_conn_ticket :: bytes
  rr_login_token :: login_token
  rr_auth_token :: auth_token
  rr_impersonate_info :: impersonated_values
  rr_use_capabilities :: bool

definition login_token_default :: login_token where
  "login_token_default =
     \<lparr>lt_signature = [], lt_rep_address = [], lt_world_id = [], lt_character_id = [], lt_persona_id = [],
      lt_steam_app_id = 0, lt_steam_user_id = [], lt_channel_id = [], lt_ticket_id = [],
      lt_location_group_id = [], lt_location_id = [], lt_generate_time = 0, lt_issue_time = 0,
      lt_account_age = 0, lt_client_capabilities = [], lt_token_version = 0, lt_is_trial_owner = False,
      lt_host_hash = [], lt_is_permanent_app_owner = Some False, lt_reserved_string_0 = [],
      lt_reserved_string_1 = [], lt_jwt_claims = []\<rparr>"

definition auth_token_default :: auth_token where
  "auth_token_default =
     \<lparr>at_steam_auth_product_id = 0, at_valid = False, at_steam_app_id = 0, at_steam_id = [],
      at_steam_auth_ticket = [], at_reserved_string_0 = [], at_reserved_u32 = 0, at_reserved_string_1 = [],
      at_reserved_string_2 = [], at_reserved_string_3 = [], at_reserved_string_4 = [], at_reserved_string_5 = []\<rparr>"

definition registration_default :: registration_request where
  "registration_default =
     \<lparr>rr_type_index_crc = 3, rr_client_version = [], rr_conn_ticket = [], rr_login_token = login_token_default,
      rr_auth_token = auth_token_default,
      rr_impersonate_info = \<lparr>impersonate_id = Entity_String [], override_id = Entity_String []\<rparr>,
      rr_use_capabilities = False\<rparr>"

subsection \<open>Kinds and values of the records\<close>

definition entity_kind :: kind where "entity_kind = K_Enum [[K_Text], [K_Uuid]]"

definition login_kind :: kind where
  "login_kind = K_Struct
     [K_Text, K_Text, K_Text, K_Text, K_Text, K_U32, K_Text, K_Text, K_Text, K_Text, K_Text, K_U32, K_U32, K_U32,
      K_Text, K_U32, K_Bool, K_Text, K_Option K_Bool, K_Text, K_Text, K_Text]"

definition auth_kind :: kind where
  "auth_kind = K_Struct
     [K_U32, K_Bool, K_U32, K_Text, K_Text, K_Text, K_U32, K_Text, K_Text, K_Text, K_Text, K_Text]"

definition registration_kind :: kind where
  "registration_kind = K_Struct
     [K_U32, K_Index_Map K_U32 K_Text, K_Text, login_kind, auth_kind, K_Struct [entity_kind, entity_kind], K_Bool]"

fun entity_value :: "entity_id \<Rightarrow> net_value" where
  "entity_value (Entity_String s) = W_Enum (Variant 0 [W_Bytes s])"
| "entity_value (Entity_Uuid u) = W_Enum (Variant 1 [W_Bytes u])"

definition login_value :: "login_token \<Rightarrow> net_value" where
  "login_value t = W_Struct
     [W_Bytes (lt_signature t), W_Bytes (lt_rep_address t), W_Bytes (lt_world_id t), W_Bytes (lt_character_id t),
      W_Bytes (lt_persona_id t), W_U32 (lt_steam_app_id t), W_Bytes (lt_steam_user_id t), W_Bytes (lt_channel_id t),
      W_Bytes (lt_ticket_id t), W_Bytes (lt_location_group_id t), W_Bytes (lt_location_id t),
      W_U32 (lt_generate_time t), W_U32 (lt_issue_time t), W_U32 (lt_account_age t),
      W_Bytes (lt_client_capabilities t), W_U32 (lt_token_version t), W_Bool (lt_is_trial_owner t),
      W_Bytes (lt_host_hash t), W_Option (map_option W_Bool (lt_is_permanent_app_owner t)),
      W_Bytes (lt_reserved_string_0 t), W_Bytes (lt_reserved_string_1 t), W_Bytes (lt_jwt_claims t)]"

definition auth_value :: "auth_token \<Rightarrow> net_value" where
  "auth_value t = W_Struct
     [W_U32 (at_steam_auth_product_id t), W_Bool (at_valid t), W_U32 (at_steam_app_id t), W_Bytes (at_steam_id t),
      W_Bytes (at_steam_auth_ticket t), W_Bytes (at_reserved_string_0 t), W_U32 (at_reserved_u32 t),
      W_Bytes (at_reserved_string_1 t), W_Bytes (at_reserved_string_2 t), W_Bytes (at_reserved_string_3 t),
      W_Bytes (at_reserved_string_4 t), W_Bytes (at_reserved_string_5 t)]"

definition registration_value :: "registration_request \<Rightarrow> net_value" where
  "registration_value r = W_Struct
     [W_U32 (rr_type_index_crc r), W_Map (map (map_prod W_U32 W_Bytes) (rr_client_version r)),
      W_Bytes (rr_conn_ticket r), login_value (rr_login_token r), auth_value (rr_auth_token r),
      W_Struct [entity_value (impersonate_id (rr_impersonate_info r)), entity_value (override_id (rr_impersonate_info r))],
      W_Bool (rr_use_capabilities r)]"

lemma entity_value_inj: "entity_value x = entity_value y \<Longrightarrow> x = y"
  by (cases x; cases y) simp_all

lemma registration_value_inj: "registration_value r = registration_value s \<longleftrightarrow> r = s"
proof
  assume e: "registration_value r = registration_value s"
  have "inj (map (map_prod W_U32 W_Bytes))"
    by (intro inj_mapI prod.inj_map) (simp_all add: inj_def)
  then have "rr_client_version r = rr_client_version s"
    using e by (auto simp: registration_value_def dest: injD)
  moreover have "rr_login_token r = rr_login_token s"
    using e by (auto simp: registration_value_def login_value_def inj_def dest!: injD[OF option.inj_map, rotated] intro!: login_token.equality)
  moreover have "rr_auth_token r = rr_auth_token s"
    using e by (auto simp: registration_value_def auth_value_def intro!: auth_token.equality)
  moreover have "rr_impersonate_info r = rr_impersonate_info s"
    using e by (auto simp: registration_value_def dest!: entity_value_inj intro!: impersonated_values.equality)
  ultimately show "r = s"
    using e by (auto simp: registration_value_def intro!: registration_request.equality)
qed simp


subsection \<open>The request reads back\<close>

definition registration_marshal :: "registration_request \<Rightarrow> write_buffer \<Rightarrow> write_buffer option" where
  "registration_marshal r = c_marshal (kind_codec registration_kind) (registration_value r)"

definition registration_unmarshal :: "net_value reader" where
  "registration_unmarshal = c_unmarshal (kind_codec registration_kind)"

definition text_ok :: "bytes \<Rightarrow> bool" where "text_ok s \<longleftrightarrow> utf8_valid s \<and> length s \<le> wire_vec_cap"

fun entity_ok :: "entity_id \<Rightarrow> bool" where
  "entity_ok (Entity_String s) = text_ok s"
| "entity_ok (Entity_Uuid u) = (length u = 16)"

definition login_texts :: "login_token \<Rightarrow> bytes list" where
  "login_texts t =
     [lt_signature t, lt_rep_address t, lt_world_id t, lt_character_id t, lt_persona_id t, lt_steam_user_id t,
      lt_channel_id t, lt_ticket_id t, lt_location_group_id t, lt_location_id t, lt_client_capabilities t,
      lt_host_hash t, lt_reserved_string_0 t, lt_reserved_string_1 t, lt_jwt_claims t]"

definition auth_texts :: "auth_token \<Rightarrow> bytes list" where
  "auth_texts t =
     [at_steam_id t, at_steam_auth_ticket t, at_reserved_string_0 t, at_reserved_string_1 t, at_reserved_string_2 t,
      at_reserved_string_3 t, at_reserved_string_4 t, at_reserved_string_5 t]"

definition registration_ok :: "registration_request \<Rightarrow> bool" where
  "registration_ok r \<longleftrightarrow>
     distinct (map fst (rr_client_version r)) \<and> length (rr_client_version r) \<le> wire_vec_cap \<and>
     list_all text_ok (map snd (rr_client_version r)) \<and> text_ok (rr_conn_ticket r) \<and>
     list_all text_ok (login_texts (rr_login_token r)) \<and> list_all text_ok (auth_texts (rr_auth_token r)) \<and>
     entity_ok (impersonate_id (rr_impersonate_info r)) \<and> entity_ok (override_id (rr_impersonate_info r))"

lemma kind_field_plain [simp]: "\<not> df_skip (kind_field k)"
  by (simp add: kind_field_def plain_field_def)

lemma kinds_valid: "struct_valid (map kind_field ks) (map kind_spec ks) vs \<longleftrightarrow> list_all2 (\<lambda>k v. fst (kind_spec k) v) ks vs"
  by (induction ks arbitrary: vs; case_tac vs) simp_all

lemma kind_spec_struct [simp]: "fst (kind_spec (K_Struct ks)) (W_Struct vs) \<longleftrightarrow> list_all2 (\<lambda>k v. fst (kind_spec k) v) ks vs"
  by (simp add: spec_at_def kinds_valid)

lemma kind_spec_scalars [simp]:
  "fst (kind_spec K_U8) (W_U8 a)" "fst (kind_spec K_U32) (W_U32 b)" "fst (kind_spec K_U64) (W_U64 c)" "fst (kind_spec K_Bool) (W_Bool d)"
  "fst (kind_spec K_Text) (W_Bytes s) \<longleftrightarrow> text_ok s" "fst (kind_spec K_Uuid) (W_Bytes u) \<longleftrightarrow> length u = 16"
  "fst (kind_spec (K_Option K_Bool)) (W_Option (map_option W_Bool x))"
  by (simp_all add: spec_at_def text_ok_def option.pred_map) (cases x; simp)

lemma entity_value_ok: "entity_ok x \<Longrightarrow> fst (kind_spec entity_kind) (entity_value x)"
  by (cases x)
    (simp_all add: entity_kind_def spec_at_def enum_valid_def kind_variants_def positional_variant_def text_ok_def)

lemma tokens_value_ok:
  assumes "distinct (map fst m)" "length m \<le> wire_vec_cap" "list_all text_ok (map snd m)"
  shows "fst (kind_spec (K_Index_Map K_U32 K_Text)) (W_Map (map (map_prod W_U32 W_Bytes) m))"
proof -
  have "distinct (map fst (map (map_prod W_U32 W_Bytes) m))"
    using assms(1) by (simp add: distinct_map comp_def inj_on_def)
  moreover have "wire_vec_cap < 2 ^ 32" by (simp add: wire_vec_cap_def)
  ultimately show ?thesis
    using assms(2,3) unfolding kind_spec.simps(9) spec_at_def
    by (auto simp del: kind_spec.simps simp: list_all_iff text_ok_def)
qed

lemma registration_value_ok:
  assumes "registration_ok r"
  shows "fst (kind_spec registration_kind) (registration_value r)"
proof -
  have "fst (kind_spec login_kind) (login_value (rr_login_token r))"
    using assms unfolding login_kind_def login_value_def kind_spec_struct
    by (simp del: kind_spec.simps add: registration_ok_def login_texts_def)
  moreover have "fst (kind_spec auth_kind) (auth_value (rr_auth_token r))"
    using assms unfolding auth_kind_def auth_value_def kind_spec_struct
    by (simp del: kind_spec.simps add: registration_ok_def auth_texts_def)
  ultimately show ?thesis
    using assms entity_value_ok tokens_value_ok unfolding registration_kind_def registration_value_def kind_spec_struct
    by (simp del: kind_spec.simps add: registration_ok_def)
qed

lemma registration_kind_ok: "kind_ok registration_kind"
  by (simp add: registration_kind_def login_kind_def auth_kind_def entity_kind_def)

text \<open>
  A registration request reads back: written with strings that are text within the wire cap and tokens
  with distinct keys, it is read as the same request from any stream that starts with its bytes, and no
  other request is read from them.
\<close>

lemma registration_roundtrip:
  assumes "registration_ok r"
  shows "\<exists>wb. registration_marshal r (write_new e) = Some wb \<and>
    registration_unmarshal (read_new e (wdata wb @ rest)) =
      (Ok (registration_value r), advance (length (wdata wb)) (read_new e (wdata wb @ rest))) \<and>
    (\<forall>r'. registration_value r' = registration_value r \<longrightarrow> r' = r)"
  using lawful_codec.codec_roundtrip[OF kind_lawful[OF registration_kind_ok] registration_value_ok[OF assms], of e rest]
  by (auto simp: registration_marshal_def registration_unmarshal_def registration_value_inj)

end
