(* ===== verification/Class_Values.thy ===== *)
theory Class_Values
  imports Hub_Values
begin

text \<open>
  Values whose type is found at run time: a class value (\<^verbatim>\<open>serialize/class_value.rs\<close>) carries the index or
  the uuid of its class and the bytes of its body, and the parameters of an actor instantiation
  (\<^verbatim>\<open>hub/actor_instantiation_parameters.rs\<close>) are class values keyed by the uuid of their class.

  The registrations come from all the types of a program that the linker collects; they are an argument.
  The two tables are filled in order, so that of two registrations with one key the later one counts. Also
  here: the actor reference of \<^verbatim>\<open>hub/address.rs\<close> and the enum of \<^verbatim>\<open>hub/movement.rs\<close> that is written as its
  number.
\<close>

section \<open>Fixed values of the hub\<close>

type_synonym actor_ref = "u32 \<times> bytes \<times> bytes"

definition actor_ref_codec :: "actor_ref codec" where
  "actor_ref_codec = tuple_codec u32_codec (tuple_codec uuid_codec uuid_codec)"

lemma actor_ref_size: "c_size actor_ref_codec = 36"
  by (simp add: actor_ref_codec_def tuple_codec_def u32_codec_def uuid_codec_def default_marshaler_def)

definition movement_interaction_kind :: kind where
  "movement_interaction_kind = K_Struct [K_U32, K_U32, K_U64, K_U64]"

definition migrated_persistence_kind :: kind where
  "migrated_persistence_kind = K_Struct [K_U64, K_Bool, K_U64, K_U64, K_Array 2 K_U32]"

definition runtime_added_component_kind :: kind where
  "runtime_added_component_kind = K_Struct [K_U64, K_Uuid, K_U64]"

text \<open>The bytes the test of the repository expects of a component added at run time.\<close>

lemma runtime_added_component_bytes:
  "map_option wdata (c_marshal (kind_codec runtime_added_component_kind)
      (W_Struct [W_U64 0x0102030405060708, W_Bytes [0x10, 0x20, 0x30, 0x40, 0x50, 0x60, 0x70, 0x80, 0x90, 0xa0, 0xb0, 0xc0,
        0xd0, 0xe0, 0xf0, 1], W_U64 0x1112131415161718]) (write_new carrier_endian)) =
   Some [1, 2, 3, 4, 5, 6, 7, 8, 0x10, 0x20, 0x30, 0x40, 0x50, 0x60, 0x70, 0x80, 0x90, 0xa0, 0xb0, 0xc0,
     0xd0, 0xe0, 0xf0, 1, 0x11, 0x12, 0x13, 0x14, 0x15, 0x16, 0x17, 0x18]"
  by code_simp

definition crash_target_variants :: "unit derive_variant list" where
  "crash_target_variants =
     [(plain_variant ''Source'')\<lparr>dv_discriminant := Some 0\<rparr>,
      (plain_variant ''Destination'')\<lparr>dv_discriminant := Some 1\<rparr>,
      (plain_variant ''None'')\<lparr>dv_discriminant := Some 2\<rparr>]"

lemma crash_target_arm: "known_arm crash_target_variants (d :: u32) = (if d \<le> 2 then Some (unat d) else None)"
proof -
  have e: "enum_discriminants crash_target_variants = [0, 1, 2]" by code_simp
  have "d \<le> 2 \<longleftrightarrow> d = 0 \<or> d = 1 \<or> d = 2"
  proof
    assume "d \<le> 2"
    then have "unat d = 0 \<or> unat d = 1 \<or> unat d = 2" by (auto simp: word_le_nat_alt)
    then show "d = 0 \<or> d = 1 \<or> d = 2" by (auto simp: word_unat_eq_iff)
  qed auto
  then show ?thesis
    by (auto simp: known_arm_def e) (auto simp: crash_target_variants_def is_unknown_variant_def plain_variant_def)
qed

lemma crash_target_reads:
  "c_unmarshal u32_codec rb = (Ok d, rb') \<Longrightarrow>
   repr_unmarshal False u32_codec crash_target_variants rb =
     ((if d \<le> 2 then Ok (Known (unat d)) else Err (InvalidDiscriminant (repr_as_u8 False d))), rb')"
  using crash_target_arm[of d]
  by (auto simp: repr_unmarshal_def rfail_def simp flip: known_arm_def)
    (simp add: crash_target_variants_def is_unknown_variant_def plain_variant_def)

section \<open>Class values\<close>

record class_registration =
  cr_uuid :: bytes
  cr_type_index :: u32
  cr_consume_body :: "unit reader"

definition registration_by_uuid :: "class_registration list \<Rightarrow> bytes \<Rightarrow> class_registration option" where
  "registration_by_uuid regs u = map_of (rev (map (\<lambda>r. (cr_uuid r, r)) regs)) u"

definition registration_by_type_index :: "class_registration list \<Rightarrow> u32 \<Rightarrow> class_registration option" where
  "registration_by_type_index regs i = map_of (rev (map (\<lambda>r. (cr_type_index r, r)) regs)) i"

record class_value =
  cv_uuid :: bytes
  cv_type_index :: u32
  cv_body :: bytes

definition class_from_marshaled :: "bytes \<Rightarrow> u32 \<Rightarrow> 'a codec \<Rightarrow> 'a \<Rightarrow> class_value option" where
  "class_from_marshaled u i c x =
     map_option (\<lambda>body. \<lparr>cv_uuid = u, cv_type_index = i, cv_body = wdata body\<rparr>) (c_marshal c x (write_new carrier_endian))"

definition class_from_raw_uuid :: "bytes \<Rightarrow> bytes \<Rightarrow> class_value" where
  "class_from_raw_uuid u body = \<lparr>cv_uuid = u, cv_type_index = 0, cv_body = body\<rparr>"

definition class_marshal :: "class_value \<Rightarrow> write_buffer \<Rightarrow> write_buffer" where
  "class_marshal v wb =
     (let wb = vlq32_marshal (cv_type_index v) wb;
          wb = (if cv_type_index v = 0 then uuid_marshal (cv_uuid v) wb else wb)
      in write_bytes (cv_body v) wb)"

definition read_class_registration :: "class_registration list \<Rightarrow> u32 \<Rightarrow> (bytes \<times> class_registration) reader" where
  "read_class_registration regs i =
     (if i = 0 then
        rbind uuid_unmarshal (\<lambda>u.
          case registration_by_uuid regs u of
            None \<Rightarrow> rfail (UnknownClassUuid u)
          | Some r \<Rightarrow> rreturn (u, r))
      else
        (case registration_by_type_index regs i of
           None \<Rightarrow> rfail (UnknownTypeIndex i)
         | Some r \<Rightarrow> rreturn (cr_uuid r, r)))"

definition class_unmarshal :: "class_registration list \<Rightarrow> class_value reader" where
  "class_unmarshal regs =
     rbind vlq32_unmarshal (\<lambda>i.
     rbind (read_class_registration regs i) (\<lambda>(u, r) rb.
       let body_start = rpos rb in
       rbind (cr_consume_body r) (\<lambda>_ rb.
         case rb_range body_start (rpos rb) rb of
           Err e \<Rightarrow> (Err e, rb)
         | Ok body \<Rightarrow> (Ok \<lparr>cv_uuid = u, cv_type_index = i, cv_body = body\<rparr>, rb)) rb))"

section \<open>Instantiation parameters\<close>

type_synonym instantiation_parameters = "(bytes \<times> class_value) list"

definition parameters_insert :: "class_value \<Rightarrow> instantiation_parameters \<Rightarrow> class_value option \<times> instantiation_parameters" where
  "parameters_insert v ps = (map_of ps (cv_uuid v), map_insert (cv_uuid v, v) ps)"

fun parameters_write :: "class_value list \<Rightarrow> write_buffer \<Rightarrow> write_buffer" where
  "parameters_write [] wb = wb"
| "parameters_write (v # vs) wb = parameters_write vs (class_marshal v (write_raw True wb))"

definition parameters_marshal :: "instantiation_parameters \<Rightarrow> write_buffer \<Rightarrow> write_buffer option" where
  "parameters_marshal ps wb =
     (if length ps \<le> 0xffff then Some (parameters_write (map snd ps) (write_u16 (of_nat (length ps)) wb)) else None)"

text \<open>A value whose uuid is already there is read and dropped.\<close>

definition parameters_keep_first :: "class_value \<Rightarrow> instantiation_parameters \<Rightarrow> instantiation_parameters" where
  "parameters_keep_first v ps = (if map_of ps (cv_uuid v) = None then ps @ [(cv_uuid v, v)] else ps)"

fun parameters_read :: "class_registration list \<Rightarrow> nat \<Rightarrow> instantiation_parameters \<Rightarrow> instantiation_parameters reader" where
  "parameters_read regs 0 ps = rreturn ps"
| "parameters_read regs (Suc n) ps =
     rbind read_raw (\<lambda>present.
       if \<not> present then rfail NullPolymorphicValue
       else rbind (class_unmarshal regs) (\<lambda>v. parameters_read regs n (parameters_keep_first v ps)))"

definition parameters_unmarshal :: "class_registration list \<Rightarrow> instantiation_parameters reader" where
  "parameters_unmarshal regs = rbind read_u16 (\<lambda>count. parameters_read regs (unat count) [])"


section \<open>Round trips\<close>

text \<open>A registration reads a body when it consumes exactly its bytes from any carrier stream that starts with them.\<close>

definition consumes_body :: "class_registration \<Rightarrow> bytes \<Rightarrow> bool" where
  "consumes_body r body \<longleftrightarrow> (\<forall>rb bs. rendian rb = carrier_endian \<longrightarrow> remaining rb = body @ bs \<longrightarrow>
     cr_consume_body r rb = (Ok (), advance (length body) rb))"

definition class_ok :: "class_registration list \<Rightarrow> class_value \<Rightarrow> bool" where
  "class_ok regs v \<longleftrightarrow>
     (if cv_type_index v = 0
      then length (cv_uuid v) = 16 \<and> (\<exists>r. registration_by_uuid regs (cv_uuid v) = Some r \<and> consumes_body r (cv_body v))
      else \<exists>r. registration_by_type_index regs (cv_type_index v) = Some r \<and> cr_uuid r = cv_uuid v \<and> consumes_body r (cv_body v))"

definition class_enc :: "class_value \<Rightarrow> bytes" where
  "class_enc v = vlq32_bytes (cv_type_index v) @ (if cv_type_index v = 0 then cv_uuid v else []) @ cv_body v"

lemma class_marshal_enc: "class_marshal v wb = write_bytes (class_enc v) wb"
  by (simp add: class_marshal_def class_enc_def vlq32.marshal_enc uuid_marshal_def write_bytes_def)

lemma read_class_registration_enc:
  assumes "class_ok regs v" and "remaining rb = (if cv_type_index v = 0 then cv_uuid v else []) @ bs"
  shows "\<exists>r. consumes_body r (cv_body v) \<and> read_class_registration regs (cv_type_index v) rb =
    (Ok (cv_uuid v, r), advance (length (if cv_type_index v = 0 then cv_uuid v else [])) rb)"
proof (cases "cv_type_index v = 0")
  case True
  obtain r where r: "length (cv_uuid v) = 16" "registration_by_uuid regs (cv_uuid v) = Some r" "consumes_body r (cv_body v)"
    using assms(1) True by (auto simp: class_ok_def)
  then have "uuid_unmarshal rb = (Ok (cv_uuid v), advance 16 rb)"
    using uuidc.unmarshal_enc[of "cv_uuid v" rb bs] assms(2) True by simp
  then show ?thesis using r True by (intro exI[of _ r]) (simp add: read_class_registration_def)
next
  case False
  then show ?thesis using assms(1) by (auto simp: class_ok_def read_class_registration_def advance_def)
qed

lemma class_unmarshal_enc:
  assumes "class_ok regs v" "rendian rb = carrier_endian" "remaining rb = class_enc v @ bs"
  shows "class_unmarshal regs rb = (Ok v, advance (length (class_enc v)) rb)"
proof -
  define p where "p = (if cv_type_index v = 0 then cv_uuid v else [])"
  define n where "n = length (vlq32_bytes (cv_type_index v))"
  have enc: "class_enc v = vlq32_bytes (cv_type_index v) @ p @ cv_body v" by (simp add: class_enc_def p_def)
  let ?rb = "advance (length p) (advance n rb)"
  have i: "vlq32_unmarshal rb = (Ok (cv_type_index v), advance n rb)"
    using vlq32.unmarshal_enc[where v = "cv_type_index v" and rb = rb and bs = "p @ cv_body v @ bs"] assms(3)
    by (simp add: enc n_def)
  obtain r where r: "consumes_body r (cv_body v)"
    "read_class_registration regs (cv_type_index v) (advance n rb) = (Ok (cv_uuid v, r), ?rb)"
    using read_class_registration_enc[OF assms(1), of "advance n rb" "cv_body v @ bs"] assms(3)
    by (auto simp: enc n_def simp flip: p_def)
  have b: "remaining ?rb = cv_body v @ bs" using assms(3) by (simp add: enc n_def)
  have c: "cr_consume_body r ?rb = (Ok (), advance (length (cv_body v)) ?rb)"
    using r(1) assms(2) b by (simp add: consumes_body_def advance_def)
  have "rpos rb + length (class_enc v) \<le> length (rdata rb)"
    using remaining_ConsD[OF assms(3)] by (auto simp: enc)
  then have g: "rb_range (rpos ?rb) (rpos (advance (length (cv_body v)) ?rb)) (advance (length (cv_body v)) ?rb) = Ok (cv_body v)"
    using b by (auto simp: rb_range_def advance_def enc n_def remaining_def)
  have "class_unmarshal regs rb = (Ok v, advance (length (cv_body v)) ?rb)"
    using i r(2) c g by (simp add: class_unmarshal_def)
  then show ?thesis by (simp add: enc n_def add.assoc)
qed

definition parameters_of :: "class_value list \<Rightarrow> instantiation_parameters" where
  "parameters_of vs = map (\<lambda>v. (cv_uuid v, v)) vs"

fun parameters_enc :: "class_value list \<Rightarrow> bytes" where
  "parameters_enc [] = []"
| "parameters_enc (v # vs) = 1 # class_enc v @ parameters_enc vs"

lemma parameters_write_enc: "parameters_write vs wb = write_bytes (parameters_enc vs) wb"
  by (induction vs arbitrary: wb) (simp_all add: class_marshal_enc write_bytes_def write_raw_def write_u8_def)

lemma parameters_read_enc:
  "\<forall>v \<in> set vs. class_ok regs v \<Longrightarrow> distinct (map fst ps @ map cv_uuid vs) \<Longrightarrow> rendian rb = carrier_endian \<Longrightarrow>
   remaining rb = parameters_enc vs @ bs \<Longrightarrow>
   parameters_read regs (length vs) ps rb = (Ok (ps @ parameters_of vs), advance (length (parameters_enc vs)) rb)"
proof (induction vs arbitrary: ps rb)
  case (Cons v vs)
  let ?rb = "advance (length (class_enc v)) (advance 1 rb)"
  have p: "read_raw rb = (Ok True, advance 1 rb)" using Cons.prems(4) by (intro read_raw_enc) simp
  have "class_unmarshal regs (advance 1 rb) = (Ok v, ?rb)"
    using Cons.prems by (intro class_unmarshal_enc[where bs = "parameters_enc vs @ bs"]) simp_all
  moreover have "parameters_keep_first v ps = ps @ [(cv_uuid v, v)]"
    using Cons.prems(2) by (simp add: parameters_keep_first_def map_of_eq_None_iff)
  moreover have "parameters_read regs (length vs) (ps @ [(cv_uuid v, v)]) ?rb =
      (Ok ((ps @ [(cv_uuid v, v)]) @ parameters_of vs), advance (length (parameters_enc vs)) ?rb)"
    using Cons.prems by (intro Cons.IH) auto
  ultimately show ?case by (simp add: p parameters_of_def)
qed (simp add: parameters_of_def advance_def)

lemma insert_all_parameters:
  "distinct (map cv_uuid vs) \<Longrightarrow> fold (\<lambda>v ps. snd (parameters_insert v ps)) vs [] = parameters_of vs"
  using fold_map_insert[of "[]" "parameters_of vs"]
  by (simp add: parameters_insert_def parameters_of_def fold_map comp_def)

text \<open>
  C37. Parameters built from class values of distinct classes are read back as they were inserted, in their
  order, when every class is registered and its registration consumes exactly the body it wrote. Their number is
  written in 16 bits.
\<close>

theorem instantiation_parameters_roundtrip:
  assumes "\<forall>v \<in> set vs. class_ok regs v" and "distinct (map cv_uuid vs)" and "length vs \<le> 0xffff"
  shows "\<exists>wb. parameters_marshal (fold (\<lambda>v ps. snd (parameters_insert v ps)) vs []) (write_new carrier_endian) = Some wb \<and>
    parameters_unmarshal regs (read_new carrier_endian (wdata wb @ rest)) =
      (Ok (fold (\<lambda>v ps. snd (parameters_insert v ps)) vs []),
       advance (length (wdata wb)) (read_new carrier_endian (wdata wb @ rest)))"
proof -
  let ?bs = "bytes16 carrier_endian (of_nat (length vs)) @ parameters_enc vs"
  let ?rb = "read_new carrier_endian (?bs @ rest)"
  have l: "unat (of_nat (length vs) :: u16) = length vs" using assms(3) by (simp add: unat_of_nat)
  have e [simp]: "rendian ?rb = carrier_endian" "remaining ?rb = ?bs @ rest" by simp_all
  have "read_u16 ?rb = (Ok (of_nat (length vs)), advance 2 ?rb)"
    using read_u16_enc[of ?rb "of_nat (length vs)" "parameters_enc vs @ rest"] by simp
  moreover have "parameters_read regs (length vs) [] (advance 2 ?rb) =
      (Ok ([] @ parameters_of vs), advance (length (parameters_enc vs)) (advance 2 ?rb))"
    using assms by (intro parameters_read_enc[where bs = rest]) (simp_all add: advance_def remaining_def read_new_def)
  ultimately have "parameters_unmarshal regs ?rb = (Ok (parameters_of vs), advance (length ?bs) ?rb)"
    by (simp add: parameters_unmarshal_def l)
  moreover have "parameters_marshal (parameters_of vs) (write_new carrier_endian) = Some (write_bytes ?bs (write_new carrier_endian))"
    using assms(3) by (simp add: parameters_marshal_def parameters_of_def comp_def parameters_write_enc write_u16_def write_bytes_def write_new_def)
  ultimately show ?thesis
    by (simp add: insert_all_parameters[OF assms(2)] write_bytes_def write_new_def)
qed

text \<open>Types whose codec is derived consume what they write.\<close>

definition kind_registration :: "bytes \<Rightarrow> u32 \<Rightarrow> kind \<Rightarrow> class_registration" where
  "kind_registration u i k =
     \<lparr>cr_uuid = u, cr_type_index = i, cr_consume_body = rmap (\<lambda>_. ()) (c_unmarshal (kind_codec k))\<rparr>"

lemma derived_class_ok:
  assumes "kind_ok k" "fst (kind_spec k) x" "class_from_marshaled u i (kind_codec k) x = Some v"
    and "registration_by_type_index regs i = Some (kind_registration u i k)" "i \<noteq> 0"
  shows "class_ok regs v"
proof -
  note c = lawfulD[OF kind_lawful[OF assms(1)]]
  have v: "v = \<lparr>cv_uuid = u, cv_type_index = i, cv_body = snd (kind_spec k) carrier_endian x\<rparr>"
    using assms(3) c(1)[OF assms(2), of "write_new carrier_endian"]
    by (simp add: class_from_marshaled_def write_bytes_def write_new_def)
  have "consumes_body (kind_registration u i k) (cv_body v)"
    using c(2)[OF assms(2)] by (simp add: consumes_body_def kind_registration_def v rmap_def)
  then show ?thesis using assms(4,5) by (auto simp: class_ok_def v kind_registration_def)
qed


theorem instantiation_parameters_roundtrip_witness:
  "\<exists>wb. parameters_marshal (fold (\<lambda>v ps. snd (parameters_insert v ps))
        [\<lparr>cv_uuid = replicate 16 1, cv_type_index = 5, cv_body = [0, 0, 0, 7]\<rparr>] []) (write_new carrier_endian) = Some wb \<and>
    parameters_unmarshal [kind_registration (replicate 16 1) 5 K_U32] (read_new carrier_endian (wdata wb @ [9])) =
      (Ok (fold (\<lambda>v ps. snd (parameters_insert v ps))
         [\<lparr>cv_uuid = replicate 16 1, cv_type_index = 5, cv_body = [0, 0, 0, 7]\<rparr>] []),
       advance (length (wdata wb)) (read_new carrier_endian (wdata wb @ [9])))"
proof -
  let ?v = "\<lparr>cv_uuid = replicate 16 1, cv_type_index = 5, cv_body = [0, 0, 0, 7]\<rparr> :: class_value"
  have "class_from_marshaled (replicate 16 1) 5 (kind_codec K_U32) (W_U32 7) = Some ?v" by code_simp
  then have "class_ok [kind_registration (replicate 16 1) 5 K_U32] ?v"
    by (rule derived_class_ok[rotated 2]) (simp_all add: registration_by_type_index_def kind_registration_def spec_at_def)
  then show ?thesis
    by (intro instantiation_parameters_roundtrip) simp_all
qed

text \<open>A class that is not registered ends the read, whether it is named by index or by uuid, and so does an absent value.\<close>

lemma unregistered_class_refused:
  "i \<noteq> 0 \<Longrightarrow> registration_by_type_index regs i = None \<Longrightarrow> read_class_registration regs i rb = (Err (UnknownTypeIndex i), rb)"
  "registration_by_uuid regs u = None \<Longrightarrow> uuid_unmarshal rb = (Ok u, rb') \<Longrightarrow>
   read_class_registration regs 0 rb = (Err (UnknownClassUuid u), rb')"
  by (simp_all add: read_class_registration_def rfail_def)

lemma absent_parameter_refused:
  "remaining rb = 0 # bs \<Longrightarrow> parameters_read regs (Suc n) ps rb = (Err NullPolymorphicValue, advance 1 rb)"
  using read_raw_enc[of rb False bs] by (simp add: rfail_def rbind_def)

end
