(* ===== verification/Bundle_Builder.thy ===== *)
theory Bundle_Builder
  imports State_Bundle
begin

text \<open>
  \<^verbatim>\<open>hub/state_bundle_builder.rs\<close>: the builder of a bundle. Its type parameters only forbid to set one
  axis twice; they have no value, and a sequence of calls is a list of steps here. A call that fails
  consumes the builder.
\<close>

record bundle_builder =
  bu_seq :: hub_seq
  bu_client_context_id :: u8
  bu_bandwidth :: u8
  bu_is_unreliable :: bool
  bu_control :: "control_data option"
  bu_buffer :: bytes

definition builder_new :: "hub_seq \<Rightarrow> u8 \<Rightarrow> bundle_builder" where
  "builder_new s c = \<lparr>bu_seq = s, bu_client_context_id = c, bu_bandwidth = 0, bu_is_unreliable = False,
     bu_control = None, bu_buffer = []\<rparr>"

definition builder_control :: "bundle_builder \<Rightarrow> control_data" where
  "builder_control b = (case bu_control b of Some c \<Rightarrow> c | None \<Rightarrow> control_data_default)"

definition stop_replication :: "interest_id \<Rightarrow> bundle_builder \<Rightarrow> marshaler_error + bundle_builder" where
  "stop_replication i b =
     (case push_stop_replication_id i (builder_control b) of
        (Err e, _) \<Rightarrow> Err e
      | (Ok _, c) \<Rightarrow> Ok (b\<lparr>bu_control := Some c\<rparr>))"

definition pause_replication :: "interest_id \<Rightarrow> bundle_builder \<Rightarrow> marshaler_error + bundle_builder" where
  "pause_replication i b =
     (case push_pause_replication_id i (builder_control b) of
        (Err e, _) \<Rightarrow> Err e
      | (Ok _, c) \<Rightarrow> Ok (b\<lparr>bu_control := Some c\<rparr>))"

definition unreliable :: "bundle_builder \<Rightarrow> bundle_builder" where
  "unreliable b = b\<lparr>bu_is_unreliable := True\<rparr>"

definition bandwidth :: "u8 \<Rightarrow> bundle_builder \<Rightarrow> bundle_builder" where
  "bandwidth m b = b\<lparr>bu_bandwidth := m\<rparr>"

definition payload :: "bytes \<Rightarrow> bundle_builder \<Rightarrow> bundle_builder" where
  "payload bs b = b\<lparr>bu_buffer := bs\<rparr>"

definition build :: "bundle_builder \<Rightarrow> state_bundle" where
  "build b = \<lparr>sb_seq = bu_seq b, client_context_instance_id = bu_client_context_id b, bandwidth_mode = bu_bandwidth b,
     is_unreliable = bu_is_unreliable b, sb_control = bu_control b, bundle_buffer = bu_buffer b\<rparr>"

datatype builder_call = Stop interest_id | Pause interest_id | Unreliable | Bandwidth u8 | Payload bytes

fun builder_step :: "builder_call \<Rightarrow> bundle_builder \<Rightarrow> marshaler_error + bundle_builder" where
  "builder_step (Stop i) b = stop_replication i b"
| "builder_step (Pause i) b = pause_replication i b"
| "builder_step Unreliable b = Ok (unreliable b)"
| "builder_step (Bandwidth m) b = Ok (bandwidth m b)"
| "builder_step (Payload bs) b = Ok (payload bs b)"

fun builder_run :: "builder_call list \<Rightarrow> bundle_builder \<Rightarrow> marshaler_error + bundle_builder" where
  "builder_run [] b = Ok b"
| "builder_run (p # ps) b = (case builder_step p b of Err e \<Rightarrow> Err e | Ok b \<Rightarrow> builder_run ps b)"

section \<open>The builder and the operations of a bundle\<close>

text \<open>The same calls on a bundle itself.\<close>

fun bundle_step :: "builder_call \<Rightarrow> state_bundle \<Rightarrow> (marshaler_error + unit) \<times> state_bundle" where
  "bundle_step (Stop i) b = add_stop_id i b"
| "bundle_step (Pause i) b = add_pause_id i b"
| "bundle_step Unreliable b = (Ok (), set_unreliable b)"
| "bundle_step (Bandwidth m) b = (Ok (), b\<lparr>bandwidth_mode := m\<rparr>)"
| "bundle_step (Payload bs) b = (Ok (), b\<lparr>bundle_buffer := bs\<rparr>)"

fun bundle_run :: "builder_call list \<Rightarrow> state_bundle \<Rightarrow> marshaler_error + state_bundle" where
  "bundle_run [] b = Ok b"
| "bundle_run (p # ps) b = (case bundle_step p b of (Err e, _) \<Rightarrow> Err e | (Ok _, b) \<Rightarrow> bundle_run ps b)"

lemma builder_step_build:
  "map_sum id build (builder_step p b) = (case bundle_step p (build b) of (Err e, _) \<Rightarrow> Err e | (Ok _, b) \<Rightarrow> Ok b)"
  by (cases p)
    (auto simp: stop_replication_def pause_replication_def unreliable_def bandwidth_def payload_def build_def
      add_stop_id_def add_pause_id_def ensure_replication_control_def builder_control_def set_unreliable_def Let_def
      split: prod.split sum.split option.split)

lemma builder_run_build: "map_sum id build (builder_run ps b) = bundle_run ps (build b)"
proof (induction ps arbitrary: b)
  case (Cons p ps)
  show ?case using builder_step_build[of p b] Cons.IH
    by (cases "builder_step p b"; cases "bundle_step p (build b)") (auto split: sum.splits)
qed simp

lemma builder_new_build: "build (builder_new s c) = bundle_with_seq s c 0"
  by (simp add: build_def builder_new_def bundle_with_seq_def bundle_default_def)

text \<open>
  Building a bundle with the builder gives the bundle that the same calls on a fresh bundle give, with
  the same first error.
\<close>

lemma builder_equals_bundle_calls:
  "map_sum id build (builder_run ps (builder_new s c)) = bundle_run ps (bundle_with_seq s c 0)"
  by (simp add: builder_run_build builder_new_build)

end
