(* ===== verification/Quantised_Math.thy ===== *)
theory Quantised_Math
  imports Codecs
begin

text \<open>
  \<^verbatim>\<open>serialize/compression_marshal.rs\<close> and \<^verbatim>\<open>serialize/math_marshal.rs\<close>, with \<open>HalfF32\<close> of
  \<^verbatim>\<open>utility_marshal.rs\<close> and the casts of \<^verbatim>\<open>quantize.rs\<close>: the codecs of vectors, quaternions, transforms and
  bounded numbers.

  An \<open>f32\<close> is the word of its bits, so the tests that read bits and the changes of sign are computed; the
  arithmetic, the casts, the half-precision conversions and the functions of the vector library are the
  record \<open>float_ops\<close>, an argument of every codec that rounds. Constants are the bits of the literals. The
  theorems hold for any such functions: they say which bytes stand for a value and what value is read
  back, in terms of the rounding of single components. Integer arithmetic wraps, as in a release build.
\<close>

type_synonym f32 = u32
type_synonym vec2 = "f32 \<times> f32"
type_synonym vec3 = "f32 \<times> f32 \<times> f32"
type_synonym quat = "f32 \<times> f32 \<times> f32 \<times> f32"
type_synonym mat3 = "vec3 \<times> vec3 \<times> vec3"

record float_ops =
  f_add :: "f32 \<Rightarrow> f32 \<Rightarrow> f32"
  f_sub :: "f32 \<Rightarrow> f32 \<Rightarrow> f32"
  f_mul :: "f32 \<Rightarrow> f32 \<Rightarrow> f32"
  f_div :: "f32 \<Rightarrow> f32 \<Rightarrow> f32"
  f_sqrt :: "f32 \<Rightarrow> f32"
  f_round :: "f32 \<Rightarrow> f32"
  f_lt :: "f32 \<Rightarrow> f32 \<Rightarrow> bool"
  f_max :: "f32 \<Rightarrow> f32 \<Rightarrow> f32"
  f_clamp :: "f32 \<Rightarrow> f32 \<Rightarrow> f32 \<Rightarrow> f32"
  f_as_u8 :: "f32 \<Rightarrow> u8"
  f_as_u16 :: "f32 \<Rightarrow> u16"
  f_as_u32 :: "f32 \<Rightarrow> u32"
  f_as_i32 :: "f32 \<Rightarrow> u32"
  f_of_u32 :: "u32 \<Rightarrow> f32"
  f_of_i32 :: "u32 \<Rightarrow> f32"
  f_to_half :: "f32 \<Rightarrow> u16"
  f_of_half :: "u16 \<Rightarrow> f32"
  f_to_degrees :: "f32 \<Rightarrow> f32"
  f_to_radians :: "f32 \<Rightarrow> f32"
  g_to_euler :: "quat \<Rightarrow> vec3"
  g_from_euler :: "vec3 \<Rightarrow> quat"
  g_from_mat3 :: "mat3 \<Rightarrow> quat"
  g_div :: "vec3 \<Rightarrow> f32 \<Rightarrow> vec3"
  g_sub :: "vec3 \<Rightarrow> vec3 \<Rightarrow> vec3"
  g_quat_sub :: "quat \<Rightarrow> quat \<Rightarrow> quat"
  g_length :: "vec3 \<Rightarrow> f32"
  g_length_squared :: "vec3 \<Rightarrow> f32"
  g_quat_length_squared :: "quat \<Rightarrow> f32"
  g_from_scale_rotation_translation :: "vec3 \<Rightarrow> quat \<Rightarrow> vec3 \<Rightarrow> vec3 \<times> vec3 \<times> vec3 \<times> vec3"

abbreviation (input) f_one :: f32 where "f_one \<equiv> 0x3f800000"
abbreviation (input) f_minus_one :: f32 where "f_minus_one \<equiv> 0xbf800000"
abbreviation (input) f_255 :: f32 where "f_255 \<equiv> 0x437f0000"
abbreviation (input) f_65535 :: f32 where "f_65535 \<equiv> 0x477fff00"

definition f_neg :: "f32 \<Rightarrow> f32" where "f_neg x = x XOR 0x80000000"
definition f_abs :: "f32 \<Rightarrow> f32" where "f_abs x = x AND 0x7fffffff"

text \<open>\<open>trailing_zeros() >= 31\<close>: all bits but the sign are zero.\<close>

definition is_exact_zero :: "f32 \<Rightarrow> bool" where "is_exact_zero v \<longleftrightarrow> take_bit 31 v = 0"
definition is_exact_one :: "f32 \<Rightarrow> bool" where "is_exact_one v \<longleftrightarrow> v = f_one"

section \<open>Codecs that round\<close>

text \<open>
  The contract of a codec that rounds: the writer puts down an encoding, and the reader takes exactly that
  encoding and returns the rounded value.
\<close>

locale rounding_codec =
  fixes c :: "'a codec" and enc :: "endian \<Rightarrow> 'a \<Rightarrow> bytes" and round_to :: "'a \<Rightarrow> 'a"
  assumes marshal_enc: "c_marshal c v wb = Some (write_bytes (enc (wendian wb) v) wb)"
    and unmarshal_enc: "remaining rb = enc (rendian rb) v @ bs \<Longrightarrow>
      c_unmarshal c rb = (Ok (round_to v), advance (length (enc (rendian rb) v)) rb)"
    and unmarshal_safe: "reader_ok (c_unmarshal c)"
begin

lemma rounding_roundtrip:
  "\<exists>wb. c_marshal c v (write_new e) = Some wb \<and>
     c_unmarshal c (read_new e (wdata wb @ rest)) = (Ok (round_to v), advance (length (wdata wb)) (read_new e (wdata wb @ rest)))"
  using unmarshal_enc[of "read_new e (enc e v @ rest)" v rest] by (simp add: marshal_enc write_bytes_def write_new_def)

text \<open>A value that is written as its rounding is read the same way after any number of trips.\<close>

lemma rounding_stable:
  assumes "enc e (round_to v) = enc e v"
  shows "round_to (round_to v) = round_to v"
  using unmarshal_enc[of "read_new e (enc e v)" v "[]"] unmarshal_enc[of "read_new e (enc e v)" "round_to v" "[]"] assms
  by simp

end

lemma lawful_rounding: "lawful_codec c (\<lambda>_. True) enc \<Longrightarrow> rounding_codec c enc (\<lambda>v. v)"
  by (simp add: lawful_codec_def rounding_codec_def)

definition half_codec :: "float_ops \<Rightarrow> f32 codec" where
  "half_codec fo = default_marshaler 2 (\<lambda>v. write_u16 (f_to_half fo v)) (rmap (f_of_half fo) read_u16)"

abbreviation half_round :: "float_ops \<Rightarrow> f32 \<Rightarrow> f32" where "half_round fo v \<equiv> f_of_half fo (f_to_half fo v)"

interpretation half: rounding_codec "half_codec fo" "\<lambda>e v. bytes16 e (f_to_half fo v)" "half_round fo" for fo
  by unfold_locales (auto simp: half_codec_def default_marshaler_def write_u16_def rmap_def intro!: reader_safe)

lemma rounding_tuple:
  assumes "rounding_codec a ea ra" "rounding_codec b eb rb"
  shows "rounding_codec (tuple_codec a b) (pair_enc ea eb) (map_prod ra rb)"
proof -
  note a = rounding_codec.marshal_enc[OF assms(1)] rounding_codec.unmarshal_enc[OF assms(1)] rounding_codec.unmarshal_safe[OF assms(1)]
  note b = rounding_codec.marshal_enc[OF assms(2)] rounding_codec.unmarshal_enc[OF assms(2)] rounding_codec.unmarshal_safe[OF assms(2)]
  show ?thesis
  proof
    show "c_marshal (tuple_codec a b) v wb = Some (write_bytes (pair_enc ea eb (wendian wb) v) wb)" for v wb
      by (simp add: tuple_codec_def pair_marshal_def pair_enc_def a b write_bytes_def)
  next
    fix rd :: read_buffer and v bs assume r: "remaining rd = pair_enc ea eb (rendian rd) v @ bs"
    let ?n = "length (ea (rendian rd) (fst v))"
    have "c_unmarshal a rd = (Ok (ra (fst v)), advance ?n rd)" using a(2)[of rd "fst v"] r by (simp add: pair_enc_def)
    moreover have "c_unmarshal b (advance ?n rd) =
        (Ok (rb (snd v)), advance (length (eb (rendian rd) (snd v))) (advance ?n rd))"
      using b(2)[of "advance ?n rd" "snd v" bs] r by (simp add: pair_enc_def)
    ultimately show "c_unmarshal (tuple_codec a b) rd =
        (Ok (map_prod ra rb v), advance (length (pair_enc ea eb (rendian rd) v)) rd)"
      by (simp add: tuple_codec_def pair_unmarshal_def pair_enc_def rmap_def map_prod_def split_beta)
  next
    show "reader_ok (c_unmarshal (tuple_codec a b))"
      unfolding tuple_codec_def pair_unmarshal_def using a(3) b(3) by (auto intro!: reader_safe)
  qed
qed

section \<open>Raw vectors\<close>

definition vec2_codec :: "vec2 codec" where "vec2_codec = tuple_codec u32_codec u32_codec"
definition vec3_codec :: "vec3 codec" where "vec3_codec = tuple_codec u32_codec (tuple_codec u32_codec u32_codec)"
definition vec4_codec :: "quat codec" where "vec4_codec = tuple_codec u32_codec vec3_codec"
definition raw_quat_codec :: "quat codec" where "raw_quat_codec = tuple_codec u32_codec vec3_codec"
definition aabb2d_codec :: "(vec2 \<times> vec2) codec" where "aabb2d_codec = tuple_codec vec2_codec vec2_codec"
definition aabb3d_codec :: "(vec3 \<times> vec3) codec" where "aabb3d_codec = tuple_codec vec3_codec vec3_codec"
definition mat3_codec :: "mat3 codec" where "mat3_codec = tuple_codec vec3_codec (tuple_codec vec3_codec vec3_codec)"
definition affine_codec :: "(vec3 \<times> vec3 \<times> vec3 \<times> vec3) codec" where
  "affine_codec = tuple_codec vec3_codec (tuple_codec vec3_codec (tuple_codec vec3_codec vec3_codec))"

lemmas raw_math_defs = vec2_codec_def vec3_codec_def vec4_codec_def raw_quat_codec_def aabb2d_codec_def aabb3d_codec_def
  mat3_codec_def affine_codec_def

lemma raw_math_sizes:
  "c_size vec2_codec = 8" "c_size vec3_codec = 12" "c_size vec4_codec = 16" "c_size raw_quat_codec = 16"
  "c_size aabb2d_codec = 16" "c_size aabb3d_codec = 24" "c_size mat3_codec = 36" "c_size affine_codec = 48"
  by (simp_all add: raw_math_defs tuple_codec_def u32_codec_def default_marshaler_def)

abbreviation vec3_enc :: "endian \<Rightarrow> vec3 \<Rightarrow> bytes" where "vec3_enc \<equiv> pair_enc bytes32 (pair_enc bytes32 bytes32)"

lemma lawful_vec3 [lawful]: "lawful_codec vec3_codec (\<lambda>_. True) vec3_enc"
  using lawful_tuple[OF lawful_scalars(3) lawful_tuple[OF lawful_scalars(3) lawful_scalars(3)]] by (simp add: vec3_codec_def)

lemma lawful_raw_math [lawful]:
  "lawful_codec vec2_codec (\<lambda>_. True) (pair_enc bytes32 bytes32)"
  "lawful_codec raw_quat_codec (\<lambda>_. True) (pair_enc bytes32 vec3_enc)"
  "lawful_codec mat3_codec (\<lambda>_. True) (pair_enc vec3_enc (pair_enc vec3_enc vec3_enc))"
  "lawful_codec affine_codec (\<lambda>_. True) (pair_enc vec3_enc (pair_enc vec3_enc (pair_enc vec3_enc vec3_enc)))"
  using lawful_tuple[OF lawful_scalars(3) lawful_scalars(3)] lawful_tuple[OF lawful_scalars(3) lawful_vec3]
    lawful_tuple[OF lawful_vec3 lawful_tuple[OF lawful_vec3 lawful_vec3]]
    lawful_tuple[OF lawful_vec3 lawful_tuple[OF lawful_vec3 lawful_tuple[OF lawful_vec3 lawful_vec3]]]
  by (simp_all add: raw_math_defs)


section \<open>Half-precision and bounded codecs\<close>

definition vec2_comp :: "float_ops \<Rightarrow> vec2 codec" where
  "vec2_comp fo = tuple_codec (half_codec fo) (half_codec fo)"

definition vec3_comp :: "float_ops \<Rightarrow> vec3 codec" where
  "vec3_comp fo = tuple_codec (half_codec fo) (tuple_codec (half_codec fo) (half_codec fo))"

definition quat_comp :: "float_ops \<Rightarrow> quat codec" where
  "quat_comp fo = tuple_codec (half_codec fo) (vec3_comp fo)"

abbreviation half_enc :: "float_ops \<Rightarrow> endian \<Rightarrow> f32 \<Rightarrow> bytes" where "half_enc fo \<equiv> \<lambda>e v. bytes16 e (f_to_half fo v)"
abbreviation half3_enc :: "float_ops \<Rightarrow> endian \<Rightarrow> vec3 \<Rightarrow> bytes" where
  "half3_enc fo \<equiv> pair_enc (half_enc fo) (pair_enc (half_enc fo) (half_enc fo))"
abbreviation half3_round :: "float_ops \<Rightarrow> vec3 \<Rightarrow> vec3" where
  "half3_round fo \<equiv> map_prod (half_round fo) (map_prod (half_round fo) (half_round fo))"

lemma rounding_halves:
  "rounding_codec (vec2_comp fo) (pair_enc (half_enc fo) (half_enc fo)) (map_prod (half_round fo) (half_round fo))"
  "rounding_codec (vec3_comp fo) (half3_enc fo) (half3_round fo)"
  "rounding_codec (quat_comp fo) (pair_enc (half_enc fo) (half3_enc fo)) (map_prod (half_round fo) (half3_round fo))"
  unfolding vec2_comp_def quat_comp_def vec3_comp_def
  by (intro rounding_tuple half.rounding_codec_axioms)+

definition scale_marshal :: "float_ops \<Rightarrow> vec3 \<Rightarrow> write_buffer \<Rightarrow> write_buffer option" where
  "scale_marshal fo = (\<lambda>(x, y, z) wb.
     if x = f_one \<and> y = f_one \<and> z = f_one then Some (write_u8 0 wb)
     else if x = y \<and> y = z then c_marshal (half_codec fo) x (write_u8 1 wb)
     else c_marshal (vec3_comp fo) (x, y, z) (write_u8 2 wb))"

definition scale_unmarshal :: "float_ops \<Rightarrow> vec3 reader" where
  "scale_unmarshal fo = rbind read_u8 (\<lambda>tag.
     if tag = 0 then rreturn (f_one, f_one, f_one)
     else if tag = 1 then rmap (\<lambda>v. (v, v, v)) (c_unmarshal (half_codec fo))
     else c_unmarshal (vec3_comp fo))"

definition scale_codec :: "float_ops \<Rightarrow> vec3 codec" where
  "scale_codec fo = \<lparr>c_size = 0, c_marshal = scale_marshal fo, c_unmarshal = scale_unmarshal fo\<rparr>"

definition scale_enc :: "float_ops \<Rightarrow> endian \<Rightarrow> vec3 \<Rightarrow> bytes" where
  "scale_enc fo e = (\<lambda>(x, y, z).
     if x = f_one \<and> y = f_one \<and> z = f_one then [0]
     else if x = y \<and> y = z then 1 # half_enc fo e x else 2 # half3_enc fo e (x, y, z))"

definition scale_round :: "float_ops \<Rightarrow> vec3 \<Rightarrow> vec3" where
  "scale_round fo = (\<lambda>(x, y, z).
     if x = f_one \<and> y = f_one \<and> z = f_one then (x, y, z) else half3_round fo (x, y, z))"

interpretation scale: rounding_codec "scale_codec fo" "scale_enc fo" "scale_round fo" for fo
proof
  note h = half.marshal_enc half.unmarshal_enc half.unmarshal_safe
  note v = rounding_codec.marshal_enc[OF rounding_halves(2)] rounding_codec.unmarshal_enc[OF rounding_halves(2)]
    rounding_codec.unmarshal_safe[OF rounding_halves(2)]
  note defs = scale_codec_def scale_marshal_def scale_unmarshal_def scale_enc_def scale_round_def
  fix x :: vec3
  obtain a b c where x: "x = (a, b, c)" by (cases x)
  show "c_marshal (scale_codec fo) x wb = Some (write_bytes (scale_enc fo (wendian wb) x) wb)" for wb
    by (simp add: defs x h(1) v(1) write_u8_def write_bytes_def)
  fix rb :: read_buffer and bs
  assume r: "remaining rb = scale_enc fo (rendian rb) x @ bs"
  show "c_unmarshal (scale_codec fo) rb = (Ok (scale_round fo x), advance (length (scale_enc fo (rendian rb) x)) rb)"
  proof (cases "a = f_one \<and> b = f_one \<and> c = f_one")
    case True
    then show ?thesis using r by (simp add: defs x)
  next
    case False
    show ?thesis
    proof (cases "a = b \<and> b = c")
      case True
      then have "c_unmarshal (half_codec fo) (advance 1 rb) = (Ok (half_round fo a), advance 2 (advance 1 rb))"
        using False r h(2)[of "advance 1 rb" fo a bs] by (auto simp: defs x)
      then show ?thesis using False True r by (auto simp: defs x rmap_def)
    next
      case neq: False
      then have "c_unmarshal (vec3_comp fo) (advance 1 rb) =
          (Ok (half3_round fo x), advance (length (half3_enc fo (rendian rb) x)) (advance 1 rb))"
        using False r v(2)[of "advance 1 rb" fo x bs] by (auto simp: defs x)
      moreover have "read_u8 rb = (Ok 2, advance 1 rb)" using False neq r by (auto simp: defs x)
      ultimately show ?thesis using False neq by (auto simp: defs x)
    qed
  qed
next
  show "reader_ok (c_unmarshal (scale_codec fo))" for fo
    unfolding scale_codec_def scale_unmarshal_def codec.simps
    by (intro reader_ok_bind reader_ok_if reader_ok_read_u8 reader_ok_return reader_ok_map half.unmarshal_safe
      rounding_codec.unmarshal_safe[OF rounding_halves(2)])
qed

text \<open>A float of a known range as a bucket of 16 bits.\<close>

record float16 =
  fl_min :: f32
  fl_range :: f32

definition float16_new :: "float_ops \<Rightarrow> f32 \<Rightarrow> f32 \<Rightarrow> float16" where
  "float16_new fo lo hi = \<lparr>fl_min = lo, fl_range = f_sub fo hi lo\<rparr>"

definition float16_bucket :: "float_ops \<Rightarrow> float16 \<Rightarrow> f32 \<Rightarrow> u16" where
  "float16_bucket fo c v =
     f_as_u16 fo (f_mul fo (f_clamp fo (f_div fo (f_sub fo v (fl_min c)) (fl_range c)) 0 f_one) f_65535)"

definition float16_value :: "float_ops \<Rightarrow> float16 \<Rightarrow> u16 \<Rightarrow> f32" where
  "float16_value fo c q =
     f_clamp fo (f_add fo (fl_min c) (f_mul fo (f_div fo (f_of_u32 fo (ucast q)) f_65535) (fl_range c)))
       (fl_min c) (f_add fo (fl_min c) (fl_range c))"

definition float16_codec :: "float_ops \<Rightarrow> float16 \<Rightarrow> f32 codec" where
  "float16_codec fo c = default_marshaler 2 (\<lambda>v. write_u16 (float16_bucket fo c v)) (rmap (float16_value fo c) read_u16)"

interpretation f16: rounding_codec "float16_codec fo c" "\<lambda>e v. bytes16 e (float16_bucket fo c v)"
    "\<lambda>v. float16_value fo c (float16_bucket fo c v)" for fo c
  by unfold_locales (auto simp: float16_codec_def default_marshaler_def write_u16_def rmap_def intro!: reader_safe)

definition packed_position :: "float_ops \<Rightarrow> f32 \<Rightarrow> f32 \<Rightarrow> vec3 codec" where
  "packed_position fo lo hi = tuple_codec u32_codec (tuple_codec u32_codec (float16_codec fo (float16_new fo lo hi)))"

lemma rounding_packed_position:
  "\<exists>enc. rounding_codec (packed_position fo lo hi) enc
     (\<lambda>(x, y, z). (x, y, let c = float16_new fo lo hi in float16_value fo c (float16_bucket fo c z)))"
proof -
  note u = lawful_rounding[OF lawful_scalars(3)]
  have "(\<lambda>(x, y, z). (x, y, let c = float16_new fo lo hi in float16_value fo c (float16_bucket fo c z))) =
      map_prod (\<lambda>x. x) (map_prod (\<lambda>y. y) (\<lambda>z. float16_value fo (float16_new fo lo hi) (float16_bucket fo (float16_new fo lo hi) z)))"
    by (auto simp: Let_def)
  with rounding_tuple[OF u rounding_tuple[OF u f16.rounding_codec_axioms[of fo "float16_new fo lo hi"]]]
  show ?thesis unfolding packed_position_def by metis
qed

text \<open>Integers of a known range as a bucket of one, two or four bytes.\<close>

definition integer_scale :: "float_ops \<Rightarrow> u32 \<Rightarrow> u32 \<Rightarrow> u32 \<Rightarrow> f32" where
  "integer_scale fo mn mx v = f_clamp fo (f_div fo (f_of_i32 fo (v - mn)) (f_of_i32 fo (mx - mn))) 0 f_one"

definition integer_value :: "float_ops \<Rightarrow> u32 \<Rightarrow> u32 \<Rightarrow> f32 \<Rightarrow> f32 \<Rightarrow> u32" where
  "integer_value fo mn mx buckets q =
     mn + f_as_i32 fo (f_mul fo q (f_div fo (f_of_i32 fo (mx - mn)) buckets))"

definition integer_u8 :: "float_ops \<Rightarrow> u32 \<Rightarrow> u32 \<Rightarrow> u32 codec" where
  "integer_u8 fo mn mx = default_marshaler 1 (\<lambda>v. write_u8 (f_as_u8 fo (f_mul fo (integer_scale fo mn mx v) f_255)))
     (rmap (\<lambda>q. integer_value fo mn mx f_255 (f_of_u32 fo (ucast q))) read_u8)"

definition integer_u16 :: "float_ops \<Rightarrow> u32 \<Rightarrow> u32 \<Rightarrow> u32 codec" where
  "integer_u16 fo mn mx = default_marshaler 2 (\<lambda>v. write_u16 (f_as_u16 fo (f_mul fo (integer_scale fo mn mx v) f_65535)))
     (rmap (\<lambda>q. integer_value fo mn mx f_65535 (f_of_u32 fo (ucast q))) read_u16)"

definition integer_u32 :: "float_ops \<Rightarrow> u32 \<Rightarrow> u32 \<Rightarrow> u32 codec" where
  "integer_u32 fo mn mx =
     (let buckets = f_of_u32 fo 0xffffffff in
      default_marshaler 4 (\<lambda>v. write_u32 (f_as_u32 fo (f_mul fo (integer_scale fo mn mx v) buckets)))
        (rmap (\<lambda>q. integer_value fo mn mx buckets (f_of_u32 fo q)) read_u32))"

lemma rounding_integers:
  "\<exists>enc. rounding_codec (integer_u8 fo mn mx) enc
     (\<lambda>v. integer_value fo mn mx f_255 (f_of_u32 fo (ucast (f_as_u8 fo (f_mul fo (integer_scale fo mn mx v) f_255)))))"
  "\<exists>enc. rounding_codec (integer_u16 fo mn mx) enc
     (\<lambda>v. integer_value fo mn mx f_65535 (f_of_u32 fo (ucast (f_as_u16 fo (f_mul fo (integer_scale fo mn mx v) f_65535)))))"
  "\<exists>enc. rounding_codec (integer_u32 fo mn mx) enc
     (\<lambda>v. let b = f_of_u32 fo 0xffffffff in integer_value fo mn mx b (f_of_u32 fo (f_as_u32 fo (f_mul fo (integer_scale fo mn mx v) b))))"
proof -
  show "\<exists>enc. rounding_codec (integer_u8 fo mn mx) enc
     (\<lambda>v. integer_value fo mn mx f_255 (f_of_u32 fo (ucast (f_as_u8 fo (f_mul fo (integer_scale fo mn mx v) f_255)))))"
    by (rule exI[of _ "\<lambda>e v. [f_as_u8 fo (f_mul fo (integer_scale fo mn mx v) f_255)]"], unfold_locales)
      (auto simp: integer_u8_def default_marshaler_def write_u8_def write_bytes_def rmap_def intro!: reader_safe)
  show "\<exists>enc. rounding_codec (integer_u16 fo mn mx) enc
     (\<lambda>v. integer_value fo mn mx f_65535 (f_of_u32 fo (ucast (f_as_u16 fo (f_mul fo (integer_scale fo mn mx v) f_65535)))))"
    by (rule exI[of _ "\<lambda>e v. bytes16 e (f_as_u16 fo (f_mul fo (integer_scale fo mn mx v) f_65535))"], unfold_locales)
      (auto simp: integer_u16_def default_marshaler_def write_u16_def rmap_def intro!: reader_safe)
  show "\<exists>enc. rounding_codec (integer_u32 fo mn mx) enc
     (\<lambda>v. let b = f_of_u32 fo 0xffffffff in integer_value fo mn mx b (f_of_u32 fo (f_as_u32 fo (f_mul fo (integer_scale fo mn mx v) b))))"
    by (rule exI[of _ "\<lambda>e v. bytes32 e (f_as_u32 fo (f_mul fo (integer_scale fo mn mx v) (f_of_u32 fo 0xffffffff)))"], unfold_locales)
      (auto simp: integer_u32_def default_marshaler_def write_u32_def rmap_def Let_def intro!: reader_safe)
qed


section \<open>Sizes in bits\<close>

record packed_size =
  ps_bytes :: u32
  ps_additional_bits :: u8

definition saturating_add :: "u32 \<Rightarrow> u32 \<Rightarrow> u32" where
  "saturating_add a b = (if unat a + unat b < 2 ^ 32 then a + b else 0xffffffff)"

definition packed_size_new :: "u32 \<Rightarrow> u8 \<Rightarrow> packed_size" where
  "packed_size_new n bits = \<lparr>ps_bytes = saturating_add n (ucast (bits div 8)), ps_additional_bits = bits mod 8\<rparr>"

definition packed_size_from_bits :: "u32 \<Rightarrow> packed_size" where
  "packed_size_from_bits n = \<lparr>ps_bytes = n div 8, ps_additional_bits = ucast (n mod 8)\<rparr>"

definition packed_size_from_bytes :: "u32 \<Rightarrow> packed_size" where
  "packed_size_from_bytes n = \<lparr>ps_bytes = n, ps_additional_bits = 0\<rparr>"

definition total_size_in_bits :: "packed_size \<Rightarrow> u32" where
  "total_size_in_bits p = ps_bytes p * 8 + ucast (ps_additional_bits p)"

definition packed_size_codec :: "packed_size codec" where
  "packed_size_codec = default_marshaler 0 (\<lambda>p. vlq32_marshal (total_size_in_bits p)) (rmap packed_size_from_bits vlq32_unmarshal)"

definition packed_size_ok :: "packed_size \<Rightarrow> bool" where
  "packed_size_ok p \<longleftrightarrow> unat (ps_bytes p) < 2 ^ 29 \<and> unat (ps_additional_bits p) < 8"

lemma total_size_exact: "packed_size_ok p \<Longrightarrow> unat (total_size_in_bits p) = unat (ps_bytes p) * 8 + unat (ps_additional_bits p)"
proof -
  assume p: "packed_size_ok p"
  have m: "unat (ps_bytes p * 8) = unat (ps_bytes p) * 8"
    using p by (subst unat_mult_lem[THEN iffD1]) (simp_all add: packed_size_ok_def)
  have "unat (ucast (ps_additional_bits p) :: u32) = unat (ps_additional_bits p)" by simp
  then show ?thesis unfolding total_size_in_bits_def
    using p m by (subst unat_add_lem[THEN iffD1]) (simp_all add: packed_size_ok_def)
qed

lemma packed_size_inverse: "packed_size_ok p \<Longrightarrow> packed_size_from_bits (total_size_in_bits p) = p"
proof -
  assume p: "packed_size_ok p"
  note t = total_size_exact[OF p]
  have "total_size_in_bits p div 8 = ps_bytes p"
    using p t by (simp add: word_unat_eq_iff unat_div packed_size_ok_def)
  moreover have "unat (total_size_in_bits p mod 8) = unat (ps_additional_bits p)"
    using p t by (simp add: unat_mod packed_size_ok_def)
  then have "ucast (total_size_in_bits p mod 8) = ps_additional_bits p"
    using p by (simp add: word_unat_eq_iff unsigned_ucast_eq unsigned_take_bit_eq take_bit_eq_mod packed_size_ok_def)
  ultimately show ?thesis by (simp add: packed_size_from_bits_def)
qed

text \<open>Sizes of less than 2^29 bytes read back; from there on the number of bits wraps and the size is lost.\<close>

lemma lawful_packed_size: "lawful_codec packed_size_codec packed_size_ok (\<lambda>_ p. vlq32_bytes (total_size_in_bits p))"
proof
  show "packed_size_ok v \<Longrightarrow> c_marshal packed_size_codec v wb = Some (write_bytes (vlq32_bytes (total_size_in_bits v)) wb)" for v wb
    by (simp add: packed_size_codec_def default_marshaler_def vlq32.marshal_enc)
  show "packed_size_ok v \<Longrightarrow> remaining rb = vlq32_bytes (total_size_in_bits v) @ bs \<Longrightarrow> c_unmarshal packed_size_codec rb =
      (Ok v, advance (length (vlq32_bytes (total_size_in_bits v))) rb)" for v rb bs
    using vlq32.unmarshal_enc[where v = "total_size_in_bits v" and rb = rb and bs = bs]
    by (simp add: packed_size_codec_def default_marshaler_def rmap_def packed_size_inverse)
  show "reader_ok (c_unmarshal packed_size_codec)"
    by (simp add: packed_size_codec_def default_marshaler_def reader_ok_map vlq32.unmarshal_safe)
qed (simp add: packed_size_codec_def default_marshaler_def)

lemma packed_size_lost: "total_size_in_bits (packed_size_from_bytes 0x20000000) = 0"
  by code_simp

lemma packed_size_new_ok: "unat n < 2 ^ 29 - 31 \<Longrightarrow> packed_size_ok (packed_size_new n bits)"
proof -
  assume n: "unat n < 2 ^ 29 - 31"
  have b: "unat (ucast (bits div 8) :: u32) = unat bits div 8" by (simp add: unat_div)
  have "unat bits < 2 ^ LENGTH(8)" by (rule unsigned_less)
  then have d: "unat bits div 8 \<le> 31" by simp
  have "unat (n + ucast (bits div 8)) = unat n + unat bits div 8"
    using n b d by (subst unat_add_lem[THEN iffD1]) simp_all
  then show ?thesis using n b d by (simp add: packed_size_new_def packed_size_ok_def saturating_add_def unat_mod)
qed

end
