(* ===== verification/Quantised_Rotations.thy ===== *)
theory Quantised_Rotations
  imports Quantised_Math
begin

text \<open>
  The codecs of \<^verbatim>\<open>serialize/compression_marshal.rs\<close> that put a flag byte before what they write: a component
  that is exactly zero or one is a flag, the others are quantised, and one component is rebuilt from the
  length of the vector. For each the round trip is stated by components: which are exact, and how the
  others are rounded.
\<close>

section \<open>Flags for zero and one\<close>

definition sentinel_flags :: "f32 \<Rightarrow> u8 \<Rightarrow> u8 \<Rightarrow> u8 \<Rightarrow> u8" where
  "sentinel_flags v zero_flag one_flag flags =
     (if is_exact_zero v then flags OR zero_flag else if is_exact_one v then flags OR one_flag else flags)"

definition not_flagged :: "u8 \<Rightarrow> u8 \<Rightarrow> u8 \<Rightarrow> bool" where
  "not_flagged flags zero_flag one_flag \<longleftrightarrow> flags AND (zero_flag OR one_flag) = 0"

definition sentinel_read :: "u8 \<Rightarrow> u8 \<Rightarrow> u8 \<Rightarrow> 'a \<Rightarrow> 'a \<Rightarrow> 'a reader \<Rightarrow> 'a reader" where
  "sentinel_read flags zero_flag one_flag zero one payload =
     (if flags AND zero_flag \<noteq> 0 then rreturn zero
      else if flags AND one_flag \<noteq> 0 then rreturn one else payload)"

text \<open>What the flags of a value and the flag word say to each other.\<close>

definition flags_tell :: "u8 \<Rightarrow> u8 \<Rightarrow> u8 \<Rightarrow> f32 \<Rightarrow> bool" where
  "flags_tell flags zero_flag one_flag v \<longleftrightarrow>
     (flags AND zero_flag \<noteq> 0 \<longleftrightarrow> is_exact_zero v) \<and>
     (flags AND one_flag \<noteq> 0 \<longleftrightarrow> \<not> is_exact_zero v \<and> is_exact_one v) \<and>
     (not_flagged flags zero_flag one_flag \<longleftrightarrow> \<not> is_exact_zero v \<and> \<not> is_exact_one v)"

definition sentinel_enc :: "bytes \<Rightarrow> f32 \<Rightarrow> bytes" where
  "sentinel_enc payload v = (if is_exact_zero v \<or> is_exact_one v then [] else payload)"

definition sentinel_round :: "'a \<Rightarrow> 'a \<Rightarrow> 'a \<Rightarrow> f32 \<Rightarrow> 'a" where
  "sentinel_round zero one rounded v = (if is_exact_zero v then zero else if is_exact_one v then one else rounded)"

lemma sentinel_read_enc:
  assumes "flags_tell flags z i v" and "remaining rb = sentinel_enc p v @ bs"
    and "remaining rb = p @ bs \<Longrightarrow> payload rb = (Ok r, advance (length p) rb)"
  shows "sentinel_read flags z i zero one payload rb =
    (Ok (sentinel_round zero one r v), advance (length (sentinel_enc p v)) rb)"
  using assms by (auto simp: flags_tell_def sentinel_read_def sentinel_enc_def sentinel_round_def advance_def)

lemma reader_ok_sentinel [reader_safe]: "reader_ok payload \<Longrightarrow> reader_ok (sentinel_read flags z i zero one payload)"
  by (simp add: sentinel_read_def reader_safe)

section \<open>Normalised vectors\<close>

definition float16_unit :: "float_ops \<Rightarrow> float16" where "float16_unit fo = float16_new fo f_minus_one f_one"

definition vec3_norm_flags :: "float_ops \<Rightarrow> vec3 \<Rightarrow> u8" where
  "vec3_norm_flags fo = (\<lambda>(x, y, z).
     (let flags = (if f_lt fo x 0 then 0 OR 1 else 0); flags = sentinel_flags y 2 8 flags in sentinel_flags z 4 16 flags))"

definition vec3_norm_marshal :: "float_ops \<Rightarrow> vec3 \<Rightarrow> write_buffer \<Rightarrow> write_buffer" where
  "vec3_norm_marshal fo = (\<lambda>(x, y, z) wb.
     (let flags = vec3_norm_flags fo (x, y, z); c = float16_unit fo;
          wb = write_u8 flags wb;
          wb = (if not_flagged flags 2 8 then write_u16 (float16_bucket fo c y) wb else wb)
      in if not_flagged flags 4 16 then write_u16 (float16_bucket fo c z) wb else wb))"

definition vec3_norm_rebuild :: "float_ops \<Rightarrow> bool \<Rightarrow> f32 \<Rightarrow> f32 \<Rightarrow> vec3" where
  "vec3_norm_rebuild fo neg y z =
     (let x = f_sqrt fo (f_max fo (f_sub fo (f_sub fo f_one (f_mul fo y y)) (f_mul fo z z)) 0)
      in (if neg then f_neg x else x, y, z))"

definition vec3_norm_unmarshal :: "float_ops \<Rightarrow> vec3 reader" where
  "vec3_norm_unmarshal fo = rbind read_u8 (\<lambda>flags.
     (let c = float16_unit fo in
      rbind (sentinel_read flags 2 8 0 f_one (rmap (float16_value fo c) read_u16)) (\<lambda>y.
      rbind (sentinel_read flags 4 16 0 f_one (rmap (float16_value fo c) read_u16)) (\<lambda>z.
      rreturn (vec3_norm_rebuild fo (flags AND 1 \<noteq> 0) y z)))))"

definition vec3_norm_codec :: "float_ops \<Rightarrow> vec3 codec" where
  "vec3_norm_codec fo = default_marshaler 0 (vec3_norm_marshal fo) (vec3_norm_unmarshal fo)"

lemma vec3_norm_flags_tell:
  "vec3_norm_flags fo (x, y, z) AND 1 \<noteq> 0 \<longleftrightarrow> f_lt fo x 0"
  "flags_tell (vec3_norm_flags fo (x, y, z)) 2 8 y"
  "flags_tell (vec3_norm_flags fo (x, y, z)) 4 16 z"
  by (cases "f_lt fo x 0"; cases "is_exact_zero y"; cases "is_exact_one y"; cases "is_exact_zero z"; cases "is_exact_one z";
      simp add: vec3_norm_flags_def flags_tell_def not_flagged_def sentinel_flags_def Let_def)+

definition unit_payload :: "float_ops \<Rightarrow> endian \<Rightarrow> f32 \<Rightarrow> bytes" where
  "unit_payload fo e v = sentinel_enc (bytes16 e (float16_bucket fo (float16_unit fo) v)) v"

definition unit_round :: "float_ops \<Rightarrow> f32 \<Rightarrow> f32" where
  "unit_round fo v = sentinel_round 0 f_one (float16_value fo (float16_unit fo) (float16_bucket fo (float16_unit fo) v)) v"

definition vec3_norm_enc :: "float_ops \<Rightarrow> endian \<Rightarrow> vec3 \<Rightarrow> bytes" where
  "vec3_norm_enc fo e = (\<lambda>(x, y, z). vec3_norm_flags fo (x, y, z) # unit_payload fo e y @ unit_payload fo e z)"

definition vec3_norm_round :: "float_ops \<Rightarrow> vec3 \<Rightarrow> vec3" where
  "vec3_norm_round fo = (\<lambda>(x, y, z). vec3_norm_rebuild fo (f_lt fo x 0) (unit_round fo y) (unit_round fo z))"

lemma unit_read:
  assumes "flags_tell flags zf i v" "remaining rb = unit_payload fo (rendian rb) v @ bs"
  shows "sentinel_read flags zf i 0 f_one (rmap (float16_value fo (float16_unit fo)) read_u16) rb =
    (Ok (unit_round fo v), advance (length (unit_payload fo (rendian rb) v)) rb)"
  unfolding unit_round_def unit_payload_def
  by (rule sentinel_read_enc[OF assms(1) assms(2)[unfolded unit_payload_def]]) (simp add: rmap_def)

interpretation vec3_norm: rounding_codec "vec3_norm_codec fo" "vec3_norm_enc fo" "vec3_norm_round fo" for fo
proof
  fix v :: vec3 and wb
  obtain x y z where v: "v = (x, y, z)" by (cases v)
  show "c_marshal (vec3_norm_codec fo) v wb = Some (write_bytes (vec3_norm_enc fo (wendian wb) v) wb)"
    using vec3_norm_flags_tell(2,3)[of fo x y z]
    by (auto simp: vec3_norm_codec_def default_marshaler_def vec3_norm_marshal_def vec3_norm_enc_def v Let_def flags_tell_def
        unit_payload_def sentinel_enc_def write_u8_def write_u16_def write_bytes_def)
next
  fix v :: vec3 and rb :: read_buffer and bs
  obtain x y z where v: "v = (x, y, z)" by (cases v)
  assume r: "remaining rb = vec3_norm_enc fo (rendian rb) v @ bs"
  let ?f = "vec3_norm_flags fo (x, y, z)" and ?ny = "length (unit_payload fo (rendian rb) y)"
  have "read_u8 rb = (Ok ?f, advance 1 rb)" using r by (simp add: v vec3_norm_enc_def)
  moreover have "sentinel_read ?f 2 8 0 f_one (rmap (float16_value fo (float16_unit fo)) read_u16) (advance 1 rb) =
      (Ok (unit_round fo y), advance ?ny (advance 1 rb))"
    using unit_read[OF vec3_norm_flags_tell(2), where rb = "advance 1 rb" and bs = "unit_payload fo (rendian rb) z @ bs"] r
    by (simp add: v vec3_norm_enc_def)
  moreover have "sentinel_read ?f 4 16 0 f_one (rmap (float16_value fo (float16_unit fo)) read_u16) (advance ?ny (advance 1 rb)) =
      (Ok (unit_round fo z), advance (length (unit_payload fo (rendian rb) z)) (advance ?ny (advance 1 rb)))"
    using unit_read[OF vec3_norm_flags_tell(3), where rb = "advance ?ny (advance 1 rb)" and bs = bs] r
    by (simp add: v vec3_norm_enc_def)
  ultimately show "c_unmarshal (vec3_norm_codec fo) rb =
      (Ok (vec3_norm_round fo v), advance (length (vec3_norm_enc fo (rendian rb) v)) rb)"
    using vec3_norm_flags_tell(1)[of fo x y z]
    by (simp add: vec3_norm_codec_def default_marshaler_def vec3_norm_unmarshal_def vec3_norm_round_def vec3_norm_enc_def v Let_def)
next
  show "reader_ok (c_unmarshal (vec3_norm_codec fo))" for fo
    unfolding vec3_norm_codec_def default_marshaler_def vec3_norm_unmarshal_def codec.simps Let_def
    by (intro reader_safe)
qed


section \<open>Normalised quaternions\<close>

text \<open>The flags of three components; both codecs below use these bits.\<close>

definition xyz_flags :: "vec3 \<Rightarrow> u8" where
  "xyz_flags = (\<lambda>(x, y, z).
     (let flags = sentinel_flags x 1 8 0; flags = sentinel_flags y 2 16 flags in sentinel_flags z 4 32 flags))"

lemma xyz_flags_tell:
  assumes "flags = xyz_flags (x, y, z) \<or> flags = xyz_flags (x, y, z) OR 64"
  shows "flags_tell flags 1 8 x" "flags_tell flags 2 16 y" "flags_tell flags 4 32 z"
  using assms
  by (cases "is_exact_zero x"; cases "is_exact_one x"; cases "is_exact_zero y"; cases "is_exact_one y"; cases "is_exact_zero z";
      cases "is_exact_one z"; auto simp: xyz_flags_def flags_tell_def not_flagged_def sentinel_flags_def Let_def)+

lemma xyz_flags_sign: "xyz_flags v AND 64 = 0" "(xyz_flags v OR 64) AND 64 \<noteq> 0"
proof -
  obtain x y z where v: "v = (x, y, z)" by (cases v)
  show "xyz_flags v AND 64 = 0" "(xyz_flags v OR 64) AND 64 \<noteq> 0"
    by (cases "is_exact_zero x"; cases "is_exact_one x"; cases "is_exact_zero y"; cases "is_exact_one y"; cases "is_exact_zero z";
        cases "is_exact_one z"; simp add: v xyz_flags_def sentinel_flags_def Let_def)+
qed

definition norm_bucket :: "float_ops \<Rightarrow> f32 \<Rightarrow> u16" where
  "norm_bucket fo v = f_as_u16 fo (f_clamp fo (f_mul fo (f_add fo v f_one) 0x46ffff00) 0 f_65535)"

definition norm_value :: "float_ops \<Rightarrow> u16 \<Rightarrow> f32" where
  "norm_value fo q = f_clamp fo (f_sub fo (f_mul fo (f_of_u32 fo (ucast q)) 0x38000080) f_one) f_minus_one f_one"

definition quat_norm_flags :: "float_ops \<Rightarrow> quat \<Rightarrow> u8" where
  "quat_norm_flags fo = (\<lambda>(x, y, z, w). if f_lt fo w 0 then xyz_flags (x, y, z) OR 64 else xyz_flags (x, y, z))"

definition quat_norm_marshal :: "float_ops \<Rightarrow> quat \<Rightarrow> write_buffer \<Rightarrow> write_buffer" where
  "quat_norm_marshal fo = (\<lambda>(x, y, z, w) wb.
     (let flags = quat_norm_flags fo (x, y, z, w);
          wb = write_u8 flags wb;
          wb = (if not_flagged flags 1 8 then write_u16 (norm_bucket fo x) wb else wb);
          wb = (if not_flagged flags 2 16 then write_u16 (norm_bucket fo y) wb else wb)
      in if not_flagged flags 4 32 then write_u16 (norm_bucket fo z) wb else wb))"

definition norm_component :: "float_ops \<Rightarrow> u8 \<Rightarrow> u8 \<Rightarrow> u8 \<Rightarrow> f32 reader" where
  "norm_component fo flags zf i = sentinel_read flags zf i 0 f_one (rmap (norm_value fo) read_u16)"

definition quat_norm_rebuild :: "float_ops \<Rightarrow> bool \<Rightarrow> f32 \<Rightarrow> f32 \<Rightarrow> f32 \<Rightarrow> quat" where
  "quat_norm_rebuild fo neg x y z =
     (let sq = (\<lambda>v. f_mul fo v v);
          w = f_sqrt fo (f_max fo (f_sub fo (f_sub fo (f_sub fo f_one (sq x)) (sq y)) (sq z)) 0);
          w = (if neg then f_neg w else w);
          len = f_sqrt fo (f_add fo (f_add fo (f_add fo (sq x) (sq y)) (sq z)) (sq w))
      in if f_lt fo 0 len then (f_div fo x len, f_div fo y len, f_div fo z len, f_div fo w len) else (0, 0, 0, f_one))"

definition quat_norm_unmarshal :: "float_ops \<Rightarrow> quat reader" where
  "quat_norm_unmarshal fo = rbind read_u8 (\<lambda>flags.
     rbind (norm_component fo flags 1 8) (\<lambda>x.
     rbind (norm_component fo flags 2 16) (\<lambda>y.
     rbind (norm_component fo flags 4 32) (\<lambda>z.
     rreturn (quat_norm_rebuild fo (flags AND 64 \<noteq> 0) x y z)))))"

definition quat_norm_codec :: "float_ops \<Rightarrow> quat codec" where
  "quat_norm_codec fo = default_marshaler 0 (quat_norm_marshal fo) (quat_norm_unmarshal fo)"

text \<open>
  Reading three components under their flags, whatever the payload of one component is. The contract of
  both codecs of this section follows.
\<close>

definition xyz_enc :: "(f32 \<Rightarrow> bytes) \<Rightarrow> vec3 \<Rightarrow> bytes" where
  "xyz_enc p = (\<lambda>(x, y, z). sentinel_enc (p x) x @ sentinel_enc (p y) y @ sentinel_enc (p z) z)"

lemma xyz_read:
  assumes "flags = xyz_flags (x, y, z) \<or> flags = xyz_flags (x, y, z) OR 64"
    and "remaining rb = xyz_enc p (x, y, z) @ bs" "rendian rb = e"
    and "\<And>v rb bs. rendian rb = e \<Longrightarrow> remaining rb = p v @ bs \<Longrightarrow> payload rb = (Ok (r v), advance (length (p v)) rb)"
  shows "rbind (sentinel_read flags 1 8 zero one payload) (\<lambda>x.
      rbind (sentinel_read flags 2 16 zero one payload) (\<lambda>y.
      rbind (sentinel_read flags 4 32 zero one payload) (\<lambda>z. rreturn (f x y z)))) rb =
    (Ok (f (sentinel_round zero one (r x) x) (sentinel_round zero one (r y) y) (sentinel_round zero one (r z) z)),
     advance (length (xyz_enc p (x, y, z))) rb)"
proof -
  note t = xyz_flags_tell[OF assms(1)]
  let ?nx = "length (sentinel_enc (p x) x)" and ?ny = "length (sentinel_enc (p y) y)"
  have "sentinel_read flags 1 8 zero one payload rb = (Ok (sentinel_round zero one (r x) x), advance ?nx rb)"
    using assms(2,3) by (intro sentinel_read_enc[OF t(1), where bs = "sentinel_enc (p y) y @ sentinel_enc (p z) z @ bs"] assms(4))
      (simp_all add: xyz_enc_def)
  moreover have "sentinel_read flags 2 16 zero one payload (advance ?nx rb) =
      (Ok (sentinel_round zero one (r y) y), advance ?ny (advance ?nx rb))"
    using assms(2,3) by (intro sentinel_read_enc[OF t(2), where bs = "sentinel_enc (p z) z @ bs"] assms(4))
      (simp_all add: xyz_enc_def)
  moreover have "sentinel_read flags 4 32 zero one payload (advance ?ny (advance ?nx rb)) =
      (Ok (sentinel_round zero one (r z) z), advance (length (sentinel_enc (p z) z)) (advance ?ny (advance ?nx rb)))"
    using assms(2,3) by (intro sentinel_read_enc[OF t(3), where bs = bs] assms(4)) (simp_all add: xyz_enc_def)
  ultimately show ?thesis by (simp add: xyz_enc_def)
qed

definition norm_payload :: "float_ops \<Rightarrow> endian \<Rightarrow> f32 \<Rightarrow> bytes" where
  "norm_payload fo e v = bytes16 e (norm_bucket fo v)"

definition norm_round :: "float_ops \<Rightarrow> f32 \<Rightarrow> f32" where
  "norm_round fo v = sentinel_round 0 f_one (norm_value fo (norm_bucket fo v)) v"

definition quat_norm_enc :: "float_ops \<Rightarrow> endian \<Rightarrow> quat \<Rightarrow> bytes" where
  "quat_norm_enc fo e = (\<lambda>(x, y, z, w). quat_norm_flags fo (x, y, z, w) # xyz_enc (norm_payload fo e) (x, y, z))"

definition quat_norm_round :: "float_ops \<Rightarrow> quat \<Rightarrow> quat" where
  "quat_norm_round fo = (\<lambda>(x, y, z, w).
     quat_norm_rebuild fo (f_lt fo w 0) (norm_round fo x) (norm_round fo y) (norm_round fo z))"

lemma quat_norm_flags_form:
  "quat_norm_flags fo (x, y, z, w) = xyz_flags (x, y, z) \<or> quat_norm_flags fo (x, y, z, w) = xyz_flags (x, y, z) OR 64"
  "quat_norm_flags fo (x, y, z, w) AND 64 \<noteq> 0 \<longleftrightarrow> f_lt fo w 0"
  using xyz_flags_sign[of "(x, y, z)"] by (auto simp: quat_norm_flags_def)

interpretation quat_norm: rounding_codec "quat_norm_codec fo" "quat_norm_enc fo" "quat_norm_round fo" for fo
proof
  fix v :: quat and wb
  obtain x y z w where v: "v = (x, y, z, w)" by (cases v)
  show "c_marshal (quat_norm_codec fo) v wb = Some (write_bytes (quat_norm_enc fo (wendian wb) v) wb)"
    using xyz_flags_tell[OF quat_norm_flags_form(1)[of fo x y z w]]
    by (auto simp: quat_norm_codec_def default_marshaler_def quat_norm_marshal_def quat_norm_enc_def v Let_def flags_tell_def
        xyz_enc_def norm_payload_def sentinel_enc_def write_u8_def write_u16_def write_bytes_def)
next
  fix v :: quat and rb :: read_buffer and bs
  obtain x y z w where v: "v = (x, y, z, w)" by (cases v)
  assume r: "remaining rb = quat_norm_enc fo (rendian rb) v @ bs"
  then have "read_u8 rb = (Ok (quat_norm_flags fo (x, y, z, w)), advance 1 rb)" by (simp add: v quat_norm_enc_def)
  then show "c_unmarshal (quat_norm_codec fo) rb =
      (Ok (quat_norm_round fo v), advance (length (quat_norm_enc fo (rendian rb) v)) rb)"
    using xyz_read[OF quat_norm_flags_form(1)[of fo x y z w], of "advance 1 rb" "norm_payload fo (rendian rb)" bs "rendian rb"
        "rmap (norm_value fo) read_u16" "\<lambda>v. norm_value fo (norm_bucket fo v)" 0 f_one
        "quat_norm_rebuild fo (f_lt fo w 0)"] r
    by (simp add: quat_norm_codec_def default_marshaler_def quat_norm_unmarshal_def norm_component_def quat_norm_round_def
        norm_round_def quat_norm_enc_def v quat_norm_flags_form(2) rmap_def norm_payload_def)
next
  show "reader_ok (c_unmarshal (quat_norm_codec fo))" for fo
    unfolding quat_norm_codec_def default_marshaler_def quat_norm_unmarshal_def norm_component_def codec.simps
    by (intro reader_safe)
qed


section \<open>Euler angles in one byte each\<close>

definition map3 :: "('a \<Rightarrow> 'b) \<Rightarrow> 'a \<times> 'a \<times> 'a \<Rightarrow> 'b \<times> 'b \<times> 'b" where
  "map3 f = (\<lambda>(x, y, z). (f x, f y, f z))"

definition euler_degrees :: "float_ops \<Rightarrow> quat \<Rightarrow> vec3" where
  "euler_degrees fo q = map3 (f_to_degrees fo) (g_to_euler fo q)"

definition from_euler_degrees :: "float_ops \<Rightarrow> vec3 \<Rightarrow> quat" where
  "from_euler_degrees fo v = g_from_euler fo (map3 (f_to_radians fo) v)"

abbreviation (input) degrees_per_value :: f32 where "degrees_per_value \<equiv> 0x3fb40000"

definition axis_bucket :: "float_ops \<Rightarrow> f32 \<Rightarrow> u8" where
  "axis_bucket fo angle = f_as_u8 fo (f_clamp fo (f_div fo angle degrees_per_value) 0 f_255)"

definition axis_value :: "float_ops \<Rightarrow> u8 \<Rightarrow> f32" where
  "axis_value fo q = f_mul fo (f_of_u32 fo (ucast q)) degrees_per_value"

definition write_axis_payload :: "float_ops \<Rightarrow> f32 \<Rightarrow> u8 \<Rightarrow> u8 \<Rightarrow> u8 \<Rightarrow> write_buffer \<Rightarrow> write_buffer" where
  "write_axis_payload fo angle flags zf i wb =
     (if not_flagged flags zf i then write_u8 (axis_bucket fo angle) wb else wb)"

definition read_axis :: "float_ops \<Rightarrow> u8 \<Rightarrow> u8 \<Rightarrow> u8 \<Rightarrow> f32 reader" where
  "read_axis fo flags zf i = sentinel_read flags zf i (axis_value fo 0) (axis_value fo 1) (rmap (axis_value fo) read_u8)"

definition euler_marshal :: "float_ops \<Rightarrow> quat \<Rightarrow> write_buffer \<Rightarrow> write_buffer" where
  "euler_marshal fo q wb =
     (case euler_degrees fo q of (x, y, z) \<Rightarrow>
        (let flags = xyz_flags (x, y, z); wb = write_u8 flags wb; wb = write_axis_payload fo x flags 1 8 wb;
             wb = write_axis_payload fo y flags 2 16 wb
         in write_axis_payload fo z flags 4 32 wb))"

definition euler_unmarshal :: "float_ops \<Rightarrow> quat reader" where
  "euler_unmarshal fo = rbind read_u8 (\<lambda>flags.
     rbind (read_axis fo flags 1 8) (\<lambda>x.
     rbind (read_axis fo flags 2 16) (\<lambda>y.
     rbind (read_axis fo flags 4 32) (\<lambda>z.
     rreturn (from_euler_degrees fo (x, y, z))))))"

definition euler_codec :: "float_ops \<Rightarrow> quat codec" where
  "euler_codec fo = default_marshaler 0 (euler_marshal fo) (euler_unmarshal fo)"

definition quantised_angles_codec :: "(u32 \<times> u32) codec" where
  "quantised_angles_codec = tuple_codec u32_codec u32_codec"

definition euler_enc :: "float_ops \<Rightarrow> endian \<Rightarrow> quat \<Rightarrow> bytes" where
  "euler_enc fo e q = xyz_flags (euler_degrees fo q) # xyz_enc (\<lambda>v. [axis_bucket fo v]) (euler_degrees fo q)"

definition axis_round :: "float_ops \<Rightarrow> f32 \<Rightarrow> f32" where
  "axis_round fo v = sentinel_round (axis_value fo 0) (axis_value fo 1) (axis_value fo (axis_bucket fo v)) v"

interpretation euler: rounding_codec "euler_codec fo" "euler_enc fo"
    "\<lambda>q. from_euler_degrees fo (map3 (axis_round fo) (euler_degrees fo q))" for fo
proof
  fix v :: quat and wb
  obtain x y z where v: "euler_degrees fo v = (x, y, z)" by (cases "euler_degrees fo v")
  show "c_marshal (euler_codec fo) v wb = Some (write_bytes (euler_enc fo (wendian wb) v) wb)"
    using xyz_flags_tell[of "xyz_flags (x, y, z)" x y z]
    by (auto simp: euler_codec_def default_marshaler_def euler_marshal_def euler_enc_def v Let_def flags_tell_def
        xyz_enc_def write_axis_payload_def sentinel_enc_def write_u8_def write_bytes_def)
next
  fix v :: quat and rb :: read_buffer and bs
  obtain x y z where v: "euler_degrees fo v = (x, y, z)" by (cases "euler_degrees fo v")
  assume r: "remaining rb = euler_enc fo (rendian rb) v @ bs"
  then have "read_u8 rb = (Ok (xyz_flags (x, y, z)), advance 1 rb)" by (simp add: v euler_enc_def)
  then show "c_unmarshal (euler_codec fo) rb =
      (Ok (from_euler_degrees fo (map3 (axis_round fo) (euler_degrees fo v))), advance (length (euler_enc fo (rendian rb) v)) rb)"
    using xyz_read[of "xyz_flags (x, y, z)" x y z "advance 1 rb" "\<lambda>v. [axis_bucket fo v]" bs "rendian rb"
        "rmap (axis_value fo) read_u8" "\<lambda>v. axis_value fo (axis_bucket fo v)" "axis_value fo 0" "axis_value fo 1"
        "\<lambda>x y z. from_euler_degrees fo (x, y, z)"] r
    by (simp add: euler_codec_def default_marshaler_def euler_unmarshal_def read_axis_def axis_round_def euler_enc_def v
        map3_def rmap_def)
next
  show "reader_ok (c_unmarshal (euler_codec fo))" for fo
    unfolding euler_codec_def default_marshaler_def euler_unmarshal_def read_axis_def codec.simps
    by (intro reader_safe)
qed

text \<open>
  The flag for one is set for an angle of one degree and read as the bucket with number one, which is 1.40625
  degrees. Angles below zero are clamped to the bucket of zero.
\<close>

lemma one_degree_changes:
  "f_mul fo (f_of_u32 fo 1) degrees_per_value = degrees_per_value \<Longrightarrow> axis_round fo f_one = degrees_per_value \<and> degrees_per_value \<noteq> f_one"
  by (simp add: axis_round_def sentinel_round_def axis_value_def is_exact_zero_def is_exact_one_def)

lemma negative_angle_lost:
  "\<not> is_exact_zero a \<Longrightarrow> \<not> is_exact_one a \<Longrightarrow> f_clamp fo (f_div fo a degrees_per_value) 0 f_255 = 0 \<Longrightarrow> f_as_u8 fo 0 = 0 \<Longrightarrow>
   axis_round fo a = axis_round fo 0"
  by (simp add: axis_round_def sentinel_round_def axis_bucket_def is_exact_zero_def)


section \<open>The smallest three components\<close>

definition component_offset :: f32 where "component_offset = 0x3f3504f3"
definition component_scale :: f32 where "component_scale = 0x3bb5baae"

definition zero_flag :: "nat \<Rightarrow> u8" where "zero_flag i = push_bit (i + 1) 1"

definition component_bucket :: "float_ops \<Rightarrow> f32 \<Rightarrow> u8" where
  "component_bucket fo v = f_as_u8 fo (f_clamp fo (f_round fo (f_div fo (f_add fo v component_offset) component_scale)) 0 f_255)"

definition component_value :: "float_ops \<Rightarrow> u8 \<Rightarrow> f32" where
  "component_value fo q = f_sub fo (f_mul fo (f_of_u32 fo (ucast q)) component_scale) component_offset"

text \<open>The four components are a list; \<open>largest_index\<close> keeps the first of the largest.\<close>

definition largest_index :: "float_ops \<Rightarrow> f32 list \<Rightarrow> nat" where
  "largest_index fo cs =
     fst (fold (\<lambda>i (li, la). let a = f_abs (cs ! i) in if f_lt fo la a then (i, a) else (li, la)) [1, 2, 3] (0, f_abs (cs ! 0)))"

definition smallest_flags :: "float_ops \<Rightarrow> f32 list \<Rightarrow> u8" where
  "smallest_flags fo cs =
     (let li = largest_index fo cs; flags = push_bit 5 (of_nat li);
          flags = (if f_lt fo (cs ! li) 0 then flags OR 1 else flags)
      in fold (\<lambda>i flags. if i \<noteq> li \<and> is_exact_zero (cs ! i) then flags OR zero_flag i else flags) [0..<4] flags)"

definition smallest_marshal :: "float_ops \<Rightarrow> f32 list \<Rightarrow> write_buffer \<Rightarrow> write_buffer" where
  "smallest_marshal fo cs wb =
     (let flags = smallest_flags fo cs in
      fold (\<lambda>i wb. if i \<noteq> largest_index fo cs \<and> flags AND zero_flag i = 0
          then write_u8 (component_bucket fo (cs ! i)) wb else wb) [0..<4] (write_u8 flags wb))"

fun smallest_read :: "float_ops \<Rightarrow> u8 \<Rightarrow> nat \<Rightarrow> nat list \<Rightarrow> f32 \<Rightarrow> (f32 list \<times> f32) reader" where
  "smallest_read fo flags li [] acc = rreturn ([], acc)"
| "smallest_read fo flags li (i # js) acc =
     (if i = li then rmap (map_prod ((#) 0) id) (smallest_read fo flags li js acc)
      else rbind (if flags AND zero_flag i \<noteq> 0 then rreturn 0 else rmap (component_value fo) read_u8) (\<lambda>c.
        rmap (map_prod ((#) c) id) (smallest_read fo flags li js (f_add fo acc (f_mul fo c c)))))"

definition omitted_component :: "float_ops \<Rightarrow> bool \<Rightarrow> f32 \<Rightarrow> f32" where
  "omitted_component fo neg acc =
     (let v = f_sqrt fo (f_max fo (f_sub fo f_one acc) 0) in if neg then f_neg v else v)"

definition smallest_unmarshal :: "float_ops \<Rightarrow> f32 list reader" where
  "smallest_unmarshal fo = rbind read_u8 (\<lambda>flags.
     (let li = unat (drop_bit 5 flags AND 3) in
      rmap (\<lambda>(cs, acc). cs[li := omitted_component fo (flags AND 1 \<noteq> 0) acc]) (smallest_read fo flags li [0..<4] 0)))"

definition quat_list :: "quat \<Rightarrow> f32 list" where "quat_list = (\<lambda>(x, y, z, w). [x, y, z, w])"
definition list_quat :: "f32 list \<Rightarrow> quat" where "list_quat cs = (cs ! 0, cs ! 1, cs ! 2, cs ! 3)"

definition smallest_codec :: "float_ops \<Rightarrow> quat codec" where
  "smallest_codec fo = default_marshaler 0 (\<lambda>q. smallest_marshal fo (quat_list q)) (rmap list_quat (smallest_unmarshal fo))"

definition packed_norm3_codec :: "float_ops \<Rightarrow> vec3 codec" where
  "packed_norm3_codec fo = default_marshaler 0 (\<lambda>(x, y, z). smallest_marshal fo (quat_list (x, y, z, 0)))
     (rmap (\<lambda>cs. (cs ! 0, cs ! 1, cs ! 2)) (smallest_unmarshal fo))"

subsection \<open>The round trip by components\<close>

definition component_enc :: "float_ops \<Rightarrow> nat \<Rightarrow> f32 list \<Rightarrow> nat \<Rightarrow> bytes" where
  "component_enc fo li cs i = (if i = li \<or> is_exact_zero (cs ! i) then [] else [component_bucket fo (cs ! i)])"

definition smallest_enc :: "float_ops \<Rightarrow> f32 list \<Rightarrow> bytes" where
  "smallest_enc fo cs = smallest_flags fo cs # concat (map (component_enc fo (largest_index fo cs) cs) [0..<4])"

definition component_round :: "float_ops \<Rightarrow> f32 \<Rightarrow> f32" where
  "component_round fo v = (if is_exact_zero v then 0 else component_value fo (component_bucket fo v))"

definition smallest_round :: "float_ops \<Rightarrow> f32 list \<Rightarrow> f32 list" where
  "smallest_round fo cs =
     (let li = largest_index fo cs;
          kept = map (\<lambda>i. component_round fo (cs ! i)) (filter (\<lambda>i. i \<noteq> li) [0..<4]);
          acc = fold (\<lambda>c acc. f_add fo acc (f_mul fo c c)) kept 0
      in (map (\<lambda>i. component_round fo (cs ! i)) [0..<4])[li := omitted_component fo (f_lt fo (cs ! li) 0) acc])"

lemma largest_index_less: "largest_index fo cs < 4"
  by (simp add: largest_index_def Let_def)

lemma four_cases: "(i :: nat) < 4 \<longleftrightarrow> i = 0 \<or> i = 1 \<or> i = 2 \<or> i = 3"
  by auto

lemma upto_four: "[0..<4] = [0, 1, 2, 3 :: nat]"
  by (simp add: upt_rec)

lemma smallest_flags_tell:
  "unat (drop_bit 5 (smallest_flags fo cs) AND 3) = largest_index fo cs"
  "smallest_flags fo cs AND 1 \<noteq> 0 \<longleftrightarrow> f_lt fo (cs ! largest_index fo cs) 0"
  "i < 4 \<Longrightarrow> i \<noteq> largest_index fo cs \<Longrightarrow> smallest_flags fo cs AND zero_flag i = 0 \<longleftrightarrow> \<not> is_exact_zero (cs ! i)"
proof -
  define li where "li = largest_index fo cs"
  have li: "li = 0 \<or> li = 1 \<or> li = 2 \<or> li = 3" using largest_index_less[of fo cs] by (auto simp: li_def)
  have f: "smallest_flags fo cs =
      fold (\<lambda>i flags. if i \<noteq> li \<and> is_exact_zero (cs ! i) then flags OR zero_flag i else flags) [0, 1, 2, 3]
        (if f_lt fo (cs ! li) 0 then push_bit 5 (of_nat li) OR 1 else push_bit 5 (of_nat li))"
    by (simp add: smallest_flags_def Let_def li_def upto_four)
  show "unat (drop_bit 5 (smallest_flags fo cs) AND 3) = largest_index fo cs"
    unfolding f li_def[symmetric] using li
    by (elim disjE) (simp_all add: zero_flag_def push_bit_eq_mult)
  show "smallest_flags fo cs AND 1 \<noteq> 0 \<longleftrightarrow> f_lt fo (cs ! largest_index fo cs) 0"
    unfolding f li_def[symmetric] using li
    by (elim disjE) (simp_all add: zero_flag_def push_bit_eq_mult)
  assume "i < 4" "i \<noteq> largest_index fo cs"
  then show "smallest_flags fo cs AND zero_flag i = 0 \<longleftrightarrow> \<not> is_exact_zero (cs ! i)"
    unfolding f li_def[symmetric] four_cases using li
    by (elim disjE) (simp_all add: zero_flag_def push_bit_eq_mult)
qed

lemma smallest_write_fold:
  assumes "\<And>i. i \<in> set js \<Longrightarrow> i \<noteq> li \<Longrightarrow> flags AND zero_flag i = 0 \<longleftrightarrow> \<not> is_exact_zero (cs ! i)"
  shows "fold (\<lambda>i wb. if i \<noteq> li \<and> flags AND zero_flag i = 0 then write_u8 (component_bucket fo (cs ! i)) wb else wb) js wb =
    write_bytes (concat (map (component_enc fo li cs) js)) wb"
  using assms
proof (induction js arbitrary: wb)
  case Nil then show ?case by (simp add: write_bytes_def)
next
  case (Cons j js)
  then have "j \<noteq> li \<Longrightarrow> flags AND zero_flag j = 0 \<longleftrightarrow> \<not> is_exact_zero (cs ! j)" by simp
  with Cons show ?case by (auto simp: component_enc_def write_u8_def write_bytes_def)
qed

lemma smallest_read_fold:
  assumes "\<And>i. i \<in> set js \<Longrightarrow> i \<noteq> li \<Longrightarrow> flags AND zero_flag i = 0 \<longleftrightarrow> \<not> is_exact_zero (cs ! i)"
    and "remaining rb = concat (map (component_enc fo li cs) js) @ bs"
  shows "smallest_read fo flags li js acc rb =
    (Ok (map (\<lambda>i. if i = li then 0 else component_round fo (cs ! i)) js,
         fold (\<lambda>c acc. f_add fo acc (f_mul fo c c)) (map (\<lambda>i. component_round fo (cs ! i)) (filter (\<lambda>i. i \<noteq> li) js)) acc),
     advance (length (concat (map (component_enc fo li cs) js))) rb)"
  using assms
proof (induction js arbitrary: rb acc)
  case Nil then show ?case by simp
next
  case (Cons j js)
  show ?case
  proof (cases "j = li")
    case True
    then show ?thesis using Cons.IH[of rb acc] Cons.prems by (simp add: component_enc_def rmap_def)
  next
    case False
    let ?n = "length (component_enc fo li cs j)" and ?c = "component_round fo (cs ! j)"
    have z: "flags AND zero_flag j = 0 \<longleftrightarrow> \<not> is_exact_zero (cs ! j)" using Cons.prems(1) False by simp
    have r: "(if flags AND zero_flag j \<noteq> 0 then rreturn 0 else rmap (component_value fo) read_u8) rb = (Ok ?c, advance ?n rb)"
      using Cons.prems(2) False z by (auto simp: component_enc_def component_round_def rmap_def)
    have "remaining (advance ?n rb) = concat (map (component_enc fo li cs) js) @ bs" using Cons.prems(2) by simp
    with Cons.IH[of "advance ?n rb" "f_add fo acc (f_mul fo ?c ?c)"] Cons.prems(1) r False
    show ?thesis by (simp add: rmap_def rbind_def)
  qed
qed

lemma smallest_marshal_enc: "smallest_marshal fo cs wb = write_bytes (smallest_enc fo cs) wb"
  using smallest_write_fold[of "[0..<4]" "largest_index fo cs" "smallest_flags fo cs" cs fo "write_u8 (smallest_flags fo cs) wb"]
    smallest_flags_tell(3)[of _ fo cs]
  by (simp add: smallest_marshal_def Let_def smallest_enc_def write_u8_def write_bytes_def)

lemma smallest_unmarshal_enc:
  assumes "remaining rb = smallest_enc fo cs @ bs"
  shows "smallest_unmarshal fo rb = (Ok (smallest_round fo cs), advance (length (smallest_enc fo cs)) rb)"
proof -
  let ?li = "largest_index fo cs" and ?f = "smallest_flags fo cs"
  have e: "smallest_enc fo cs = ?f # concat (map (component_enc fo ?li cs) [0..<4])"
    by (simp add: smallest_enc_def)
  have u: "read_u8 rb = (Ok ?f, advance 1 rb)" using assms by (simp add: e)
  have m: "(map (\<lambda>i. if i = ?li then 0 else component_round fo (cs ! i)) [0..<4])[?li := v] =
      (map (\<lambda>i. component_round fo (cs ! i)) [0..<4])[?li := v]" for v
    by (rule nth_equalityI) (auto simp: nth_list_update largest_index_less)
  show ?thesis
    using smallest_read_fold[of "[0..<4]" ?li ?f cs "advance 1 rb" fo bs 0] smallest_flags_tell(1,2)[of fo cs] smallest_flags_tell(3)[of _ fo cs] assms u m
    by (simp add: e smallest_unmarshal_def Let_def rmap_def smallest_round_def)
qed

lemma reader_ok_smallest_read [reader_safe]: "reader_ok (smallest_read fo flags li js acc)"
  by (induction js arbitrary: acc) (auto intro!: reader_safe)

lemma reader_ok_smallest [reader_safe]: "reader_ok (smallest_unmarshal fo)"
  unfolding smallest_unmarshal_def Let_def by (intro reader_safe)

interpretation smallest: rounding_codec "smallest_codec fo" "\<lambda>_ q. smallest_enc fo (quat_list q)"
    "\<lambda>q. list_quat (smallest_round fo (quat_list q))" for fo
  by unfold_locales (auto simp: smallest_codec_def default_marshaler_def smallest_marshal_enc smallest_unmarshal_enc rmap_def
    intro!: reader_safe)

lemma smallest_enc_length: "length (smallest_enc fo cs) \<le> 4"
  using largest_index_less[of fo cs] unfolding four_cases
  by (elim disjE) (simp_all add: smallest_enc_def upto_four component_enc_def)

text \<open>
  C38. A rotation packed as its smallest three components takes at most four bytes and reads back, before any
  bytes that follow, with every component but the first of the largest rounded for itself (a zero stays
  exactly zero) and that one rebuilt with its sign from the length.
\<close>

theorem smallest_three_roundtrip:
  "\<exists>wb. c_marshal (smallest_codec fo) q (write_new e) = Some wb \<and> length (wdata wb) \<le> 4 \<and>
     c_unmarshal (smallest_codec fo) (read_new e (wdata wb @ rest)) =
       (Ok (list_quat (smallest_round fo (quat_list q))), advance (length (wdata wb)) (read_new e (wdata wb @ rest)))"
  using smallest.unmarshal_enc[of "read_new e (smallest_enc fo (quat_list q) @ rest)" fo q rest]
  by (simp add: smallest.marshal_enc write_bytes_def write_new_def smallest_enc_length)

interpretation packed_norm3: rounding_codec "packed_norm3_codec fo" "\<lambda>_ (x, y, z). smallest_enc fo (quat_list (x, y, z, 0))"
    "\<lambda>(x, y, z). let cs = smallest_round fo (quat_list (x, y, z, 0)) in (cs ! 0, cs ! 1, cs ! 2)" for fo
  by unfold_locales (auto simp: packed_norm3_codec_def default_marshaler_def smallest_marshal_enc smallest_unmarshal_enc rmap_def
    Let_def intro!: reader_safe)


section \<open>Transforms without their identity parts\<close>

abbreviation (input) transform_epsilon :: f32 where "transform_epsilon \<equiv> 0x358637bd"

abbreviation vec3_ones :: vec3 where "vec3_ones \<equiv> (f_one, f_one, f_one)"
abbreviation quat_identity :: quat where "quat_identity \<equiv> (0, 0, 0, f_one)"

type_synonym affine = "vec3 \<times> vec3 \<times> vec3 \<times> vec3"

definition normalize_axis :: "float_ops \<Rightarrow> vec3 \<Rightarrow> f32 \<Rightarrow> vec3" where
  "normalize_axis fo v len = (if f_lt fo transform_epsilon len then g_div fo v len else (0, 0, 0))"

definition extract_scale_rotation :: "float_ops \<Rightarrow> mat3 \<Rightarrow> vec3 \<times> quat" where
  "extract_scale_rotation fo = (\<lambda>(x, y, z).
     (let sx = g_length fo x; sy = g_length fo y; sz = g_length fo z
      in ((sx, sy, sz), g_from_mat3 fo (normalize_axis fo x sx, normalize_axis fo y sy, normalize_axis fo z sz))))"

text \<open>Which of the three parts are written.\<close>

definition transform_parts :: "float_ops \<Rightarrow> vec3 \<Rightarrow> quat \<Rightarrow> vec3 \<Rightarrow> bool \<times> bool \<times> bool" where
  "transform_parts fo scale rot translation =
     (f_lt fo transform_epsilon (g_length_squared fo (g_sub fo scale vec3_ones)),
      f_lt fo transform_epsilon (g_quat_length_squared fo (g_quat_sub fo rot quat_identity)),
      f_lt fo transform_epsilon (g_length_squared fo translation))"

definition part_flags :: "bool \<times> bool \<times> bool \<Rightarrow> u8" where
  "part_flags = (\<lambda>(has_scale, has_rot, has_pos).
     (let flags = (if has_scale then 0 OR 1 else 0); flags = (if has_rot then flags OR 2 else flags)
      in if has_pos then flags OR 4 else flags))"

definition marshal_if :: "bool \<Rightarrow> 'a codec \<Rightarrow> 'a \<Rightarrow> write_buffer \<Rightarrow> write_buffer option" where
  "marshal_if present c v wb = (if present then c_marshal c v wb else Some wb)"

definition transform_marshal :: "float_ops \<Rightarrow> affine \<Rightarrow> write_buffer \<Rightarrow> write_buffer option" where
  "transform_marshal fo = (\<lambda>(x, y, z, translation) wb.
     (case extract_scale_rotation fo (x, y, z) of (scale, rot) \<Rightarrow>
        (case transform_parts fo scale rot translation of (has_scale, has_rot, has_pos) \<Rightarrow>
           Option.bind (marshal_if has_scale (vec3_comp fo) scale (write_u8 (part_flags (has_scale, has_rot, has_pos)) wb)) (\<lambda>wb.
           Option.bind (marshal_if has_rot (quat_comp fo) rot wb) (\<lambda>wb.
           marshal_if has_pos vec3_codec translation wb)))))"

definition read_if :: "bool \<Rightarrow> 'a reader \<Rightarrow> 'a \<Rightarrow> 'a reader" where
  "read_if present r absent = (if present then r else rreturn absent)"

definition transform_unmarshal :: "float_ops \<Rightarrow> affine reader" where
  "transform_unmarshal fo = rbind read_u8 (\<lambda>flags.
     rbind (read_if (flags AND 1 \<noteq> 0) (c_unmarshal (vec3_comp fo)) vec3_ones) (\<lambda>scale.
     rbind (read_if (flags AND 2 \<noteq> 0) (c_unmarshal (quat_comp fo)) quat_identity) (\<lambda>rot.
     rbind (read_if (flags AND 4 \<noteq> 0) (c_unmarshal vec3_codec) (0, 0, 0)) (\<lambda>translation.
     rreturn (g_from_scale_rotation_translation fo scale rot translation)))))"

definition transform_codec :: "float_ops \<Rightarrow> affine codec" where
  "transform_codec fo = \<lparr>c_size = 0, c_marshal = transform_marshal fo, c_unmarshal = transform_unmarshal fo\<rparr>"

definition if_enc :: "bool \<Rightarrow> (endian \<Rightarrow> 'a \<Rightarrow> bytes) \<Rightarrow> endian \<Rightarrow> 'a \<Rightarrow> bytes" where
  "if_enc present enc e v = (if present then enc e v else [])"

definition transform_enc :: "float_ops \<Rightarrow> endian \<Rightarrow> affine \<Rightarrow> bytes" where
  "transform_enc fo e = (\<lambda>(x, y, z, translation).
     (case extract_scale_rotation fo (x, y, z) of (scale, rot) \<Rightarrow>
        (case transform_parts fo scale rot translation of (s, r, p) \<Rightarrow>
           part_flags (s, r, p) # if_enc s (half3_enc fo) e scale @
             if_enc r (pair_enc (half_enc fo) (half3_enc fo)) e rot @ if_enc p vec3_enc e translation)))"

definition transform_round :: "float_ops \<Rightarrow> affine \<Rightarrow> affine" where
  "transform_round fo = (\<lambda>(x, y, z, translation).
     (case extract_scale_rotation fo (x, y, z) of (scale, rot) \<Rightarrow>
        (case transform_parts fo scale rot translation of (s, r, p) \<Rightarrow>
           g_from_scale_rotation_translation fo (if s then half3_round fo scale else vec3_ones)
             (if r then map_prod (half_round fo) (half3_round fo) rot else quat_identity)
             (if p then translation else (0, 0, 0)))))"

lemma part_flags_tell:
  "part_flags (s, r, p) AND 1 \<noteq> 0 \<longleftrightarrow> s" "part_flags (s, r, p) AND 2 \<noteq> 0 \<longleftrightarrow> r" "part_flags (s, r, p) AND 4 \<noteq> 0 \<longleftrightarrow> p"
  by (cases s; cases r; cases p; simp add: part_flags_def)+

lemma marshal_if_enc:
  assumes "rounding_codec c enc round_to"
  shows "marshal_if present c v wb = Some (write_bytes (if_enc present enc (wendian wb) v) wb)"
  using rounding_codec.marshal_enc[OF assms] by (simp add: marshal_if_def if_enc_def write_bytes_def)

lemma read_if_enc:
  assumes "rounding_codec c enc round_to" "remaining rb = if_enc present enc (rendian rb) v @ bs"
  shows "read_if present (c_unmarshal c) absent rb =
    (Ok (if present then round_to v else absent), advance (length (if_enc present enc (rendian rb) v)) rb)"
  using rounding_codec.unmarshal_enc[OF assms(1), of rb v bs] assms(2) by (simp add: read_if_def if_enc_def)

lemma reader_ok_read_if [reader_safe]: "reader_ok r \<Longrightarrow> reader_ok (read_if present r absent)"
  by (simp add: read_if_def reader_safe)

interpretation transform: rounding_codec "transform_codec fo" "transform_enc fo" "transform_round fo" for fo
proof
  note parts = rounding_halves(2,3)[of fo] lawful_rounding[OF lawful_vec3]
  fix v :: affine
  obtain x y z t where v: "v = (x, y, z, t)" by (cases v)
  obtain scale rot where sr: "extract_scale_rotation fo (x, y, z) = (scale, rot)"
    by (cases "extract_scale_rotation fo (x, y, z)")
  obtain s r p where srp: "transform_parts fo scale rot t = (s, r, p)" by (cases "transform_parts fo scale rot t")
  show "c_marshal (transform_codec fo) v wb = Some (write_bytes (transform_enc fo (wendian wb) v) wb)" for wb
    by (simp add: transform_codec_def transform_marshal_def transform_enc_def v sr srp marshal_if_enc[OF parts(1)]
        marshal_if_enc[OF parts(2)] marshal_if_enc[OF parts(3)] write_u8_def write_bytes_def)
  fix rb :: read_buffer and bs
  assume rem: "remaining rb = transform_enc fo (rendian rb) v @ bs"
  let ?f = "part_flags (s, r, p)" and ?e = "rendian rb"
  let ?s = "if_enc s (half3_enc fo) ?e scale" and ?r = "if_enc r (pair_enc (half_enc fo) (half3_enc fo)) ?e rot"
    and ?p = "if_enc p vec3_enc ?e t"
  have rem': "remaining rb = ?f # ?s @ ?r @ ?p @ bs" using rem by (simp add: transform_enc_def v sr srp)
  have "read_u8 rb = (Ok ?f, advance 1 rb)" using rem' by simp
  moreover note read_if_enc[OF parts(1), of "advance 1 rb" s scale "?r @ ?p @ bs" vec3_ones]
    read_if_enc[OF parts(2), of "advance (length ?s) (advance 1 rb)" r rot "?p @ bs" quat_identity]
    read_if_enc[OF parts(3), of "advance (length ?r) (advance (length ?s) (advance 1 rb))" p t bs "(0, 0, 0)"]
  ultimately show "c_unmarshal (transform_codec fo) rb =
      (Ok (transform_round fo v), advance (length (transform_enc fo (rendian rb) v)) rb)"
    using rem' by (simp add: transform_codec_def transform_unmarshal_def transform_round_def transform_enc_def v sr srp part_flags_tell)
next
  note safe = rounding_codec.unmarshal_safe[OF rounding_halves(2)] rounding_codec.unmarshal_safe[OF rounding_halves(3)]
    rounding_codec.unmarshal_safe[OF lawful_rounding[OF lawful_vec3]]
  show "reader_ok (c_unmarshal (transform_codec fo))" for fo
    unfolding transform_codec_def transform_unmarshal_def codec.simps by (intro reader_safe safe)
qed

lemma transform_enc_length: "length (transform_enc fo e t) \<le> 27"
  by (auto simp: transform_enc_def if_enc_def pair_enc_def split: prod.splits)

text \<open>
  C40. A transform takes at most 27 bytes and reads back, before any bytes that follow, as the composition of
  its scale, rotation and translation: of each part that was close to the identity the identity itself, of
  the others scale and rotation rounded to half precision and the translation exactly.
\<close>

theorem transform_roundtrip:
  "\<exists>wb. c_marshal (transform_codec fo) t (write_new e) = Some wb \<and> length (wdata wb) \<le> 27 \<and>
     c_unmarshal (transform_codec fo) (read_new e (wdata wb @ rest)) =
       (Ok (transform_round fo t), advance (length (wdata wb)) (read_new e (wdata wb @ rest)))"
  using transform.unmarshal_enc[of "read_new e (transform_enc fo e t @ rest)" fo t rest]
  by (simp add: transform.marshal_enc write_bytes_def write_new_def transform_enc_length)

text \<open>A transform with none of the parts is one byte, and reads back as the identity parts.\<close>

lemma identity_transform_one_byte:
  "extract_scale_rotation fo (x, y, z) = (scale, rot) \<Longrightarrow> transform_parts fo scale rot t = (False, False, False) \<Longrightarrow>
   transform_enc fo e (x, y, z, t) = [0] \<and>
   transform_round fo (x, y, z, t) = g_from_scale_rotation_translation fo vec3_ones quat_identity (0, 0, 0)"
  by (simp add: transform_enc_def transform_round_def if_enc_def part_flags_def)

end
