(* ===== verification/Spec2Isabelle.thy ===== *)
theory Spec2Isabelle
  imports Link_Failures Container_Edits Carrier_Driver Dtls_Handshake State_Replication Record_Stream Alc_State
    Server_Listener Context_Data Class_Values Bundle_Builder Quantised_Rotations
begin

text \<open>
  A verification library for nw-network, an implementation in Rust of the network protocol of a game: a
  carrier that moves messages over DTLS datagrams (\<^verbatim>\<open>crates/nw-gridmate\<close>), the serialization and the
  replication of state on top of it (\<^verbatim>\<open>src\<close>), and the macros that generate codecs and states
  (\<^verbatim>\<open>crates/nw-network-derive\<close>).

  \<^bold>\<open>How the parts interact.\<close> An application queues messages on a session. The session service or the
  server puts each message into an envelope with a checksum and hands it to the carrier task of the peer. The
  task fragments it into chunks, packs the chunks of several channels into datagrams, acknowledges what it
  receives and sends again what is not acknowledged; DTLS encrypts the datagrams. On the other side the
  frames of a datagram are staged by channel, reassembled and passed up in order, and the envelopes are
  decoded into typed messages. One kind of message, the state bundle, carries records of fragments: the
  changes of replicated states since the number the receiver is known to have, without the groups of
  fields it may not see. The receiver merges them into its copy.

  \<^bold>\<open>Conventions.\<close> A struct is a record and an enum a datatype with the constructors of the source; an
  integer is a word of its width, with \<open>nat\<close> for \<open>usize\<close> where the code only counts. A method with
  \<open>&mut self\<close> returns the new state, \<open>Result\<close> is a sum with the error on the left, and an option at
  the outside of a result is a panic or a loop that does not return. A codec is a record of a writer and a
  reader (\<^verbatim>\<open>serialize/marshaler.rs\<close>), passed where the source has a trait bound. Readers act on a buffer
  with a cursor, so that theorems speak of the bytes that follow. Tasks and channels are explicit: a handler
  is a function on the state of its task, and interleavings are sequences of its steps. What is outside the
  repository (OpenSSL, compression, the clock, sockets, the network schema the build generates, the
  registrations the linker collects) is an argument of the definitions that use it.

  \<^bold>\<open>Serialization.\<close>
  \<^item> \<open>Prelude\<close>, \<open>Buffer\<close>, \<open>Vlq\<close>: bytes and results, \<^verbatim>\<open>serialize/buffer.rs\<close> and
    \<^verbatim>\<open>error.rs\<close>, the variable length integers of \<^verbatim>\<open>vlq.rs\<close>. The locale \<open>wire_codec\<close> is the
    contract of a codec that cannot panic: what it writes is read back from any stream that continues with
    other bytes, and a reader never leaves the buffer.
  \<^item> \<open>Codecs\<close>, \<open>Containers\<close>, \<open>Masks\<close>: scalars and combinators of \<^verbatim>\<open>data_marshal.rs\<close>,
    \<^verbatim>\<open>utility_marshal.rs\<close> and \<^verbatim>\<open>composite_marshal.rs\<close>, counted containers, strings, sets and maps of
    \<^verbatim>\<open>container_marshal.rs\<close>, and the three presence masks. The collection \<open>lawful\<close> builds the
    contract \<open>lawful_codec\<close> of a composed codec from those of its parts.
  \<^item> \<open>Derived_Codec\<close>, \<open>Hub_Values\<close>, \<open>Class_Values\<close>: what \<open>#[derive(Marshaler)]\<close>
    generates (\<^verbatim>\<open>marshal.rs\<close>, \<^verbatim>\<open>unmarshal.rs\<close>, \<^verbatim>\<open>attrs.rs\<close> of the derive crate), a universe of
    types for which one theorem gives the contract, the registration request (\<^verbatim>\<open>messages/registration.rs\<close>),
    movement values, and polymorphic values (\<^verbatim>\<open>serialize/class_value.rs\<close>,
    \<^verbatim>\<open>hub/actor_instantiation_parameters.rs\<close>).
  \<^item> \<open>Quantised_Math\<close>, \<open>Quantised_Rotations\<close>: the codecs of \<^verbatim>\<open>math_marshal.rs\<close> and
    \<^verbatim>\<open>compression_marshal.rs\<close>. A float is the word of its bits and the arithmetic on floats an argument; the
    locale \<open>rounding_codec\<close> is the contract of a codec that reads back the rounding of what it wrote.
  \<^item> \<open>Replicated_Container\<close>, \<open>Container_Wire\<close>, \<open>Container_Merge\<close>, \<open>Container_Edits\<close>:
    \<^verbatim>\<open>serialize/replicated_container.rs\<close>, with its journal and its deltas. Edits of a map reach a
    peer that has processed no numbered change; for a vector the delta of several edits may not, which is shown on a run.

  \<^bold>\<open>Replication.\<close>
  \<^item> \<open>Hub_Sequence\<close>, \<open>Replicated_Field\<close>, \<open>Replicated_State\<close>: \<^verbatim>\<open>hub/sequence_number.rs\<close>,
    \<^verbatim>\<open>serialize/replicated_field.rs\<close> and \<^verbatim>\<open>hub/replicated_state.rs\<close>.
  \<^item> \<open>Derived_State\<close>, \<open>State_Replication\<close>: the code \<open>#[replicated_state]\<close> generates. An
    update of the server reaches a client that is current at the baseline, and a group the client may not see changes nothing it is sent.
  \<^item> \<open>Fixed_State\<close>, \<open>Fixed_Whitelists\<close>, \<open>Alc_State\<close>: fragments with a fixed number of groups
    (\<^verbatim>\<open>hub/fixed_replicated_state.rs\<close>) and the hand-written action-list state (\<^verbatim>\<open>states/alc.rs\<close>).
  \<^item> \<open>State_Bundle\<close>, \<open>State_Records\<close>, \<open>Record_Stream\<close>, \<open>Bundle_Builder\<close>: the bundle, its
    control ids, the writer and the two readers of its records (\<^verbatim>\<open>hub/replicated_state_bundle.rs\<close>,
    \<^verbatim>\<open>state_bundle_view.rs\<close>, \<^verbatim>\<open>state_bundle_builder.rs\<close>).
  \<^item> \<open>Context_Data\<close>: the bookkeeping of entities (\<^verbatim>\<open>context/gde.rs\<close>, \<^verbatim>\<open>context/client.rs\<close>).

  \<^bold>\<open>Carrier.\<close>
  \<^item> \<open>Carrier_Types\<close>, \<open>Framing\<close>, \<open>Reassembler\<close>: \<^verbatim>\<open>carrier/types.rs\<close>, \<^verbatim>\<open>message.rs\<close>,
    \<^verbatim>\<open>datagram.rs\<close>, \<^verbatim>\<open>decoder.rs\<close>, \<^verbatim>\<open>reassembler.rs\<close>, \<^verbatim>\<open>receiver.rs\<close>.
  \<^item> \<open>Datagram_History\<close>, \<open>History_Ring\<close>: the ring of received numbers and the ACK frame
    (\<^verbatim>\<open>carrier/datagram_history.rs\<close>). The ring is a set of numbers in a window, and an ACK names only
    received datagrams as long as none arrives that is older than the window.
  \<^item> \<open>Connection_State\<close>, \<open>Outgoing\<close>, \<open>Queueing\<close>, \<open>Packing\<close>: \<^verbatim>\<open>connection_state.rs\<close>,
    with the decoding of what is packed, the size bound, and the stock of unacknowledged messages.
  \<^item> \<open>Link\<close>, \<open>Link_Failures\<close>: two fresh connections over a link that loses nothing deliver a batch queued
    on one channel and priority, first in first out; runs in which messages are lost, stalled or misrouted.
  \<^item> \<open>Carrier_Driver\<close>, \<open>Dtls_Records\<close>, \<open>Dtls_Handshake\<close>: the task (\<^verbatim>\<open>carrier_thread.rs\<close>),
    the inspection of DTLS packets (\<^verbatim>\<open>connection_security.rs\<close>), and the client handshake
    (\<^verbatim>\<open>carrier/state.rs\<close>, \<^verbatim>\<open>driver/secure_connection.rs\<close>) as an implementation of a small automaton.

  \<^bold>\<open>Sessions.\<close>
  \<^item> \<open>Message_Envelope\<close>: envelopes, frames and the checksum (\<^verbatim>\<open>message.rs\<close>), which detects every
    change of up to four consecutive bytes.
  \<^item> \<open>Grid_Session\<close>, \<open>Session_Service\<close>, \<open>Server_Listener\<close>: the carrier handle, the sessions, the
    actor of the client and the tasks of the server (\<^verbatim>\<open>carrier_impl.rs\<close>, \<^verbatim>\<open>session.rs\<close>,
    \<^verbatim>\<open>session_service.rs\<close>, \<^verbatim>\<open>server.rs\<close>). A typed message sent on one side is one typed event on the
    other; the actor reports no message of a closed session, but can report it ready, which is
    shown on a run.

  \<^bold>\<open>Interfaces.\<close> Clients are proved against locales that their providers interpret: \<open>wire_codec\<close> and
  \<open>lawful_codec\<close> and \<open>rounding_codec\<close> (codecs), \<open>container_storage\<close> and \<open>live_entries\<close> (containers and masks),
  \<open>wire_handler\<close> and \<open>replicated_handler\<close> (fields of a state, from any lawful codec),
  \<open>byte_channel\<close> (the reassembler as a channel of bytes), \<open>receipt_log\<close> (the ring as a set),
  \<open>set_index\<close> (the indexes of the client context).

  \<^bold>\<open>Bounds and fuel.\<close> The loops of the ring carry one unit of fuel per slot (512), and the walk
  over a window never visits a slot twice; the theorems on the ring give a result, not
  only a property of one. The send loop of the driver has a unit for every queued message and three more,
  which is shown to be enough for every well-formed connection. \<open>transfer\<close> of \<open>Link\<close> is bounded by the number
  of messages. All other recursion ends by a measure or by structure. Sizes are those of the code: 250 KiB
  for the records of a bundle, 100 control ids, \<open>0x02000000\<close> for a counted container.

  \<^bold>\<open>Not modelled.\<close> The rounding of \<open>f32\<close> arithmetic and the vector and half-float libraries are arguments of the
  quantised codecs, so how far a rounded value is from the original is not stated; the delta handlers for
  floats are left aside. The DTLS listener (\<^verbatim>\<open>driver/multi_peer.rs\<close>), its receive ring and \<^verbatim>\<open>carrier/io.rs\<close> are system calls; their
  events are inputs. The generated states are declarations whose code is modelled once for all. Files, the
  offline replay, the build scripts, examples and benchmarks are left aside, and so is the parsing of
  attributes by the macros.
\<close>

end
